(* ===== verification/Prelude.thy ===== *)
theory Prelude
  imports Main "HOL-Library.Word" "HOL-Library.Sublist" "HOL-Library.Multiset"
begin

unbundle bit_operations_syntax

text \<open>
  Shared ground of the development: the names of the C integer types the tracer uses, the fact
  collections the component theories fill, and the generic lemmas on unsigned words, lists and
  list updates their proofs rest on. Nothing here models a line of the program.
\<close>

section \<open>Machine integers\<close>

type_synonym u8 = "8 word"
type_synonym u16 = "16 word"
type_synonym u32 = "32 word"
type_synonym u64 = "64 word"

abbreviation UINT64_MAX :: u64 where "UINT64_MAX \<equiv> - 1"

abbreviation NSEC :: nat where "NSEC \<equiv> 1000000000"

section \<open>Fact collections\<close>

named_theorems pgwt_const \<open>values of the program's macros and enumerators\<close>
named_theorems frame_simps \<open>fields an operation leaves alone\<close>
named_theorems word_nat \<open>moving order and subtraction of words to the naturals\<close>

section \<open>Words read as naturals\<close>

lemma word_le_unat [word_nat]: "a \<le> b \<longleftrightarrow> unat a \<le> unat b"
  for a b :: "'a::len word"
  by (fact word_le_nat_alt)

lemma word_less_unat [word_nat]: "a < b \<longleftrightarrow> unat a < unat b"
  for a b :: "'a::len word"
  by (fact word_less_nat_alt)

lemma unat_sub_le: "b \<le> a \<Longrightarrow> unat (a - b) = unat a - unat b"
  for a b :: "'a::len word"
  by (fact unat_sub)

lemma unat_u64_bound [simp]: "unat (a :: u64) < 18446744073709551616"
proof -
  have "unat a < 2 ^ LENGTH(64)" by (rule unsigned_less)
  then show ?thesis by simp
qed

lemma unat_add_fits:
  "unat a + unat b < 2 ^ LENGTH('a) \<Longrightarrow> unat (a + b) = unat a + unat b"
  for a b :: "'a::len word"
  by (simp add: unat_word_ariths)

lemma unat_add_u64:
  "unat a + unat b < 18446744073709551616 \<Longrightarrow> unat (a + b) = unat a + unat b"
  for a b :: u64
  by (simp add: unat_word_ariths)

lemma unat_UINT64_MAX: "unat UINT64_MAX = 18446744073709551615"
  by (simp add: unsigned_minus_1_eq_mask mask_eq_exp_minus_1)

lemma word_max_sub_less: "b > UINT64_MAX - a \<longleftrightarrow> unat a + unat b \<ge> 18446744073709551616"
  for a b :: u64
proof -
  have "unat (UINT64_MAX - a) = 18446744073709551615 - unat a"
    by (simp add: unat_sub unat_UINT64_MAX)
  moreover have "unat a \<le> 18446744073709551615"
    using unat_u64_bound [of a] by arith
  ultimately show ?thesis
    by (simp only: word_less_unat) arith
qed

section \<open>Bits of words\<close>

lemma take_bit_eq_self_unat: "unat w < 2 ^ n \<Longrightarrow> take_bit n w = w" for w :: "'a::len word"
  by (metis unsigned_take_bit_eq take_bit_nat_eq_self unsigned_word_eqI)

lemma drop_bit_push_bit_word:
  "drop_bit n (push_bit n w) = take_bit (LENGTH('a) - n) w" for w :: "'a::len word"
  by (rule bit_word_eqI) (auto simp: bit_simps)

lemma and_ff_take_bit: "x AND 0xFF = take_bit 8 x" for x :: "'a::len word"
  by (simp add: take_bit_eq_mask mask_eq_exp_minus_1)

lemma and_7f_take_bit: "x AND 0x7F = take_bit 7 x" for x :: "'a::len word"
  by (simp add: take_bit_eq_mask mask_eq_exp_minus_1)

lemma and_ffffff_take_bit: "x AND 0xFFFFFF = take_bit 24 x" for x :: "'a::len word"
  by (simp add: take_bit_eq_mask mask_eq_exp_minus_1)

section \<open>Lists\<close>

lemma sum_list_map_mono:
  "(\<And>x. x \<in> set xs \<Longrightarrow> f x \<le> (g x :: nat)) \<Longrightarrow> sum_list (map f xs) \<le> sum_list (map g xs)"
  by (rule sum_list_mono) simp

lemma sum_list_map_filter_le: "sum_list (map f (filter p xs)) \<le> (sum_list (map f xs) :: nat)"
  by (induction xs) auto

lemma sum_list_map_filter_eq:
  "(\<And>x. x \<in> set xs \<Longrightarrow> \<not> p x \<Longrightarrow> f x = (0::nat)) \<Longrightarrow>
    sum_list (map f (filter p xs)) = sum_list (map f xs)"
  by (induction xs) auto

section \<open>Transition systems with an invariant\<close>

text \<open>
  The interface between a component's operations and the claims about its whole life: an invariant the
  initial states have and every step keeps holds in every reachable state.
\<close>

locale invariant_system =
  fixes start :: "'s \<Rightarrow> bool" and step :: "'s \<Rightarrow> 's \<Rightarrow> bool" and inv :: "'s \<Rightarrow> bool"
  assumes start_inv: "start s \<Longrightarrow> inv s"
    and step_inv: "inv s \<Longrightarrow> step s t \<Longrightarrow> inv t"
begin

lemma inv_star: "step\<^sup>*\<^sup>* s t \<Longrightarrow> inv s \<Longrightarrow> inv t"
  by (induction rule: rtranclp_induct) (auto intro: step_inv)

lemma reachable_inv: "start s \<Longrightarrow> step\<^sup>*\<^sup>* s t \<Longrightarrow> inv t"
  using inv_star start_inv by blast

end

end
