(* ===== verification/Trace_Event.thy ===== *)
theory Trace_Event
  imports Prelude
begin

text \<open>
  The data every component exchanges, from src/src/pg_wait_tracer.h: the trace event, its
  in-memory flag bits, the wait-event classes, the marker values and the packed payload of the
  escalation markers, the classification of a raw \<open>wait_event_info\<close> reading, and the rule that
  merges the exact tier's probe edges with its coherent seed.
\<close>

section \<open>Trace events\<close>

record pgwt_trace_event =
  timestamp_ns :: u64
  pid :: u32
  old_event :: u32
  new_event :: u32
  flags :: u32
  duration_ns :: u64
  query_id :: u64
  cpu_ns :: u64

definition PGWT_CPU_NS_UNKNOWN :: u64 where [simp]: "PGWT_CPU_NS_UNKNOWN = 0xFFFFFFFFFFFFFFFF"

definition PGWT_EVENT_FLAG_SAMPLE :: u32 where [simp]: "PGWT_EVENT_FLAG_SAMPLE = 0x1"
definition PGWT_EVENT_FLAG_CMD_OPEN :: u32 where [simp]: "PGWT_EVENT_FLAG_CMD_OPEN = 0x2"
definition PGWT_EVENT_FLAG_IO_WORKER :: u32 where [simp]: "PGWT_EVENT_FLAG_IO_WORKER = 0x4"
definition PGWT_EVENT_FLAG_MAINT :: u32 where [simp]: "PGWT_EVENT_FLAG_MAINT = 0x8"
definition PGWT_EVENT_FLAG_BACKGROUND :: u32 where [simp]: "PGWT_EVENT_FLAG_BACKGROUND = 0x10"
definition PGWT_EVENT_FLAG_QUERY_SYNTH :: u32 where [simp]: "PGWT_EVENT_FLAG_QUERY_SYNTH = 0x80"

definition PGWT_EVENT_EXIT :: u32 where [simp]: "PGWT_EVENT_EXIT = 0xFFFFFFFF"

definition PGWT_MARKER_EXEC_START :: u32 where [simp]: "PGWT_MARKER_EXEC_START = 0xFFFFFFF0"
definition PGWT_MARKER_EXEC_END :: u32 where [simp]: "PGWT_MARKER_EXEC_END = 0xFFFFFFF1"
definition PGWT_MARKER_PLAN_START :: u32 where [simp]: "PGWT_MARKER_PLAN_START = 0xFFFFFFF2"
definition PGWT_MARKER_PLAN_END :: u32 where [simp]: "PGWT_MARKER_PLAN_END = 0xFFFFFFF3"
definition PGWT_MARKER_ESCALATE_START :: u32 where [simp]: "PGWT_MARKER_ESCALATE_START = 0xFFFFFFF4"
definition PGWT_MARKER_ESCALATE_END :: u32 where [simp]: "PGWT_MARKER_ESCALATE_END = 0xFFFFFFF5"
definition PGWT_MARKER_CMD_START :: u32 where [simp]: "PGWT_MARKER_CMD_START = 0xFFFFFFF6"
definition PGWT_MARKER_CMD_END :: u32 where [simp]: "PGWT_MARKER_CMD_END = 0xFFFFFFF7"

definition PGWT_IS_MARKER :: "u32 \<Rightarrow> bool" where
  "PGWT_IS_MARKER e \<longleftrightarrow> e \<ge> 0xFFFFFFF0 \<and> e \<le> 0xFFFFFFF7"

section \<open>The escalation marker payload\<close>

datatype pgwt_escalation_reason =
    ESC_REASON_MANUAL
  | ESC_REASON_ANOMALY
  | ESC_REASON_EXPIRED
  | ESC_REASON_REQUEST
  | ESC_REASON_SHUTDOWN
  | ESC_REASON_BUDGET
  | ESC_REASON_CPU_SATURATION

fun esc_reason_code :: "pgwt_escalation_reason \<Rightarrow> u64" where
  "esc_reason_code ESC_REASON_MANUAL = 0"
| "esc_reason_code ESC_REASON_ANOMALY = 1"
| "esc_reason_code ESC_REASON_EXPIRED = 2"
| "esc_reason_code ESC_REASON_REQUEST = 3"
| "esc_reason_code ESC_REASON_SHUTDOWN = 4"
| "esc_reason_code ESC_REASON_BUDGET = 5"
| "esc_reason_code ESC_REASON_CPU_SATURATION = 6"

definition PGWT_ESC_PACK :: "u64 \<Rightarrow> u64 \<Rightarrow> u64" where
  "PGWT_ESC_PACK secs reason = push_bit 8 secs OR (reason AND 0xFF)"

definition PGWT_ESC_UNPACK_SECS :: "u64 \<Rightarrow> u64" where
  "PGWT_ESC_UNPACK_SECS qid = drop_bit 8 qid"

definition PGWT_ESC_UNPACK_REASON :: "u64 \<Rightarrow> u64" where
  "PGWT_ESC_UNPACK_REASON qid = qid AND 0xFF"

section \<open>Wait event identifiers\<close>

definition PG_WAIT_LWLOCK :: u32 where [simp]: "PG_WAIT_LWLOCK = 0x01"
definition PG_WAIT_LOCK :: u32 where [simp]: "PG_WAIT_LOCK = 0x03"
definition PG_WAIT_BUFFERPIN :: u32 where [simp]: "PG_WAIT_BUFFERPIN = 0x04"
definition PG_WAIT_ACTIVITY :: u32 where [simp]: "PG_WAIT_ACTIVITY = 0x05"
definition PG_WAIT_CLIENT :: u32 where [simp]: "PG_WAIT_CLIENT = 0x06"
definition PG_WAIT_EXTENSION :: u32 where [simp]: "PG_WAIT_EXTENSION = 0x07"
definition PG_WAIT_IPC :: u32 where [simp]: "PG_WAIT_IPC = 0x08"
definition PG_WAIT_TIMEOUT :: u32 where [simp]: "PG_WAIT_TIMEOUT = 0x09"
definition PG_WAIT_IO :: u32 where [simp]: "PG_WAIT_IO = 0x0A"

definition WE_CLASS :: "u32 \<Rightarrow> u32" where
  "WE_CLASS x = drop_bit 24 x AND 0xFF"

definition WE_EVENT :: "u32 \<Rightarrow> u32" where
  "WE_EVENT x = x AND 0x00FFFFFF"

definition WEI :: "u32 \<Rightarrow> u32 \<Rightarrow> u32" where
  "WEI cls i = push_bit 24 cls OR i"

definition PGWT_WEI_NONCMD_CPU :: u32 where
  "PGWT_WEI_NONCMD_CPU = push_bit 24 PG_WAIT_ACTIVITY OR 0x00FFFFFF"

datatype pgwt_wei_reading = PGWT_WEI_GARBAGE | PGWT_WEI_VALID_NONZERO | PGWT_WEI_ZERO

definition pgwt_classify_wei :: "u32 \<Rightarrow> pgwt_wei_reading" where
  "pgwt_classify_wei wei =
     (if wei = 0 then PGWT_WEI_ZERO
      else let cls = drop_bit 24 wei AND 0xFF
           in if cls \<ge> 0x01 \<and> cls \<le> 0x0B then PGWT_WEI_VALID_NONZERO else PGWT_WEI_GARBAGE)"

section \<open>Exact-tier attribution: seed and probe edges\<close>

record pgwt_exact_config =
  cfg_generation :: u64
  cfg_attach_boundary_ns :: u64
  cfg_admitting :: bool

record pgwt_exact_seed =
  seed_generation :: u64
  seed_snapshot_ts :: u64
  seed_query_id :: u64
  seed_cmd_open :: u16
  seed_query_quality :: u16

record pgwt_exact_attr =
  query_generation :: u64
  query_edge_ts :: u64
  edge_query_id :: u64
  cmd_generation :: u64
  cmd_edge_ts :: u64
  phase_generation :: u64
  plan_start_ts :: u64
  exec_start_ts :: u64
  edge_cmd_open :: u16
  phase_flags :: u16
  edge_query_quality :: u16

definition PGWT_QUERY_QUALITY_NONE :: u16 where [simp]: "PGWT_QUERY_QUALITY_NONE = 0"
definition PGWT_QUERY_QUALITY_REAL :: u16 where [simp]: "PGWT_QUERY_QUALITY_REAL = 1"
definition PGWT_QUERY_QUALITY_PG13_SYNTH :: u16 where [simp]: "PGWT_QUERY_QUALITY_PG13_SYNTH = 2"

text \<open>The out-parameters \<open>*query_id\<close> and \<open>*cmd_quality\<close> are the pair the function returns.\<close>

definition pack_cmd_quality :: "u16 \<Rightarrow> u16 \<Rightarrow> u32" where
  "pack_cmd_quality cmd_open quality = ucast cmd_open OR push_bit 16 (ucast quality)"

definition pgwt_exact_merge_attr ::
  "pgwt_exact_config option \<Rightarrow> pgwt_exact_attr option \<Rightarrow> pgwt_exact_seed option \<Rightarrow> u64 \<times> u32" where
  "pgwt_exact_merge_attr cfg edge seed =
     (case cfg of
        None \<Rightarrow> (case edge of
                   None \<Rightarrow> (0, pack_cmd_quality 0 PGWT_QUERY_QUALITY_NONE)
                 | Some e \<Rightarrow> (edge_query_id e, pack_cmd_quality (edge_cmd_open e) (edge_query_quality e)))
      | Some c \<Rightarrow>
          if cfg_generation c = 0 then
            (case edge of
               None \<Rightarrow> (0, pack_cmd_quality 0 PGWT_QUERY_QUALITY_NONE)
             | Some e \<Rightarrow> (edge_query_id e, pack_cmd_quality (edge_cmd_open e) (edge_query_quality e)))
          else
            let (q0, cmd0, qual0) =
                  (case seed of
                     Some s \<Rightarrow> if seed_generation s = cfg_generation c
                               then (seed_query_id s, seed_cmd_open s, seed_query_quality s)
                               else (0, 0, PGWT_QUERY_QUALITY_NONE)
                   | None \<Rightarrow> (0, 0, PGWT_QUERY_QUALITY_NONE))
            in (case edge of
                  None \<Rightarrow> (q0, pack_cmd_quality cmd0 qual0)
                | Some e \<Rightarrow>
                    let (q1, qual1) =
                          (if query_generation e = cfg_generation c \<and>
                              query_edge_ts e \<ge> cfg_attach_boundary_ns c
                           then (edge_query_id e, edge_query_quality e) else (q0, qual0));
                        cmd1 = (if cmd_generation e = cfg_generation c \<and>
                                   cmd_edge_ts e \<ge> cfg_attach_boundary_ns c
                                then edge_cmd_open e else cmd0)
                    in (q1, pack_cmd_quality cmd1 qual1)))"

section \<open>Facts\<close>

lemma esc_unpack_reason_pack:
  "PGWT_ESC_UNPACK_REASON (PGWT_ESC_PACK s r) = r AND 0xFF"
  by (simp add: PGWT_ESC_UNPACK_REASON_def PGWT_ESC_PACK_def and_ff_take_bit take_bit_or
      take_bit_push_bit)

lemma esc_unpack_secs_pack:
  assumes "unat s < 2 ^ 56"
  shows "PGWT_ESC_UNPACK_SECS (PGWT_ESC_PACK s r) = s"
  using take_bit_eq_self_unat [OF assms]
  by (simp add: PGWT_ESC_UNPACK_SECS_def PGWT_ESC_PACK_def and_ff_take_bit drop_bit_or
      drop_bit_take_bit drop_bit_push_bit_word)

lemma esc_reason_code_byte: "esc_reason_code r AND 0xFF = esc_reason_code r"
  by (cases r) simp_all

lemma we_class_wei:
  assumes "unat c < 256" and "unat i < 2 ^ 24"
  shows "WE_CLASS (WEI c i) = c"
proof -
  have c: "take_bit 8 c = c" using assms(1) by (intro take_bit_eq_self_unat) simp
  have "drop_bit 24 (take_bit 24 i) = 0" by (simp add: drop_bit_take_bit)
  then have "drop_bit 24 i = 0" by (simp add: take_bit_eq_self_unat [OF assms(2)])
  with c show ?thesis
    by (simp add: WE_CLASS_def WEI_def and_ff_take_bit drop_bit_or drop_bit_push_bit_word)
qed

lemma we_event_wei:
  assumes "unat i < 2 ^ 24"
  shows "WE_EVENT (WEI c i) = i"
  using take_bit_eq_self_unat [OF assms]
  by (simp add: WE_EVENT_def WEI_def and_ffffff_take_bit take_bit_or take_bit_push_bit)

text \<open>The class byte and the event id of any identifier, recombined, give it back.\<close>

lemma wei_we_class_event: "WEI (WE_CLASS x) (WE_EVENT x) = x"
  unfolding WEI_def WE_CLASS_def WE_EVENT_def and_ff_take_bit and_ffffff_take_bit
  by (rule bit_word_eqI) (auto simp: bit_simps)

text \<open>A reading certifies its address only when it is a non-zero identifier of a known class.\<close>

lemma classify_wei_valid_iff:
  "pgwt_classify_wei w = PGWT_WEI_VALID_NONZERO \<longleftrightarrow>
     w \<noteq> 0 \<and> 1 \<le> WE_CLASS w \<and> WE_CLASS w \<le> 0x0B"
  by (auto simp: pgwt_classify_wei_def WE_CLASS_def Let_def)

text \<open>No marker value can be mistaken for a wait: its class byte is outside the known classes.\<close>

lemma marker_class: "PGWT_IS_MARKER e \<Longrightarrow> WE_CLASS e = 0xFF"
proof -
  assume "PGWT_IS_MARKER e"
  then have "unat (0xFFFFFFF0 :: u32) \<le> unat e" "unat e \<le> unat (0xFFFFFFF7 :: u32)"
    by (simp_all only: PGWT_IS_MARKER_def word_le_nat_alt)
  then have "unat e div 2 ^ 24 = 255" by simp
  then have "unat (drop_bit 24 e) = 255"
    by (simp add: drop_bit_eq_div unat_div)
  then have "drop_bit 24 e = 0xFF"
    by (intro unsigned_word_eqI [where 'a = nat]) simp
  then show ?thesis by (simp add: WE_CLASS_def)
qed

lemma marker_not_wait: "PGWT_IS_MARKER e \<Longrightarrow> pgwt_classify_wei e = PGWT_WEI_GARBAGE"
  using marker_class [of e] by (auto simp: pgwt_classify_wei_def WE_CLASS_def Let_def)


section \<open>Properties\<close>

text \<open>
  The packed forms round-trip: the class byte and the event id of any wait-event identifier give
  it back, building an identifier from a class byte and a 24-bit id gives both back, and an
  escalation marker's payload gives back its seconds (below 2 to the 56th) and its reason.
\<close>

theorem trace_event_packing_roundtrip:
  assumes "unat c < 256" and "unat i < 2 ^ 24" and "unat s < 2 ^ 56"
  shows "WEI (WE_CLASS x) (WE_EVENT x) = x \<and> WE_CLASS (WEI c i) = c \<and> WE_EVENT (WEI c i) = i \<and>
         PGWT_ESC_UNPACK_SECS (PGWT_ESC_PACK s (esc_reason_code r)) = s \<and>
         PGWT_ESC_UNPACK_REASON (PGWT_ESC_PACK s (esc_reason_code r)) = esc_reason_code r"
  using assms by (simp add: wei_we_class_event we_class_wei we_event_wei esc_unpack_secs_pack
      esc_unpack_reason_pack esc_reason_code_byte)

theorem trace_event_packing_roundtrip_witness:
  "WEI (WE_CLASS 0x0A000005) (WE_EVENT 0x0A000005) = 0x0A000005 \<and> WE_CLASS (WEI 9 7) = 9 \<and>
   WE_EVENT (WEI 9 7) = 7 \<and>
   PGWT_ESC_UNPACK_SECS (PGWT_ESC_PACK 3600 (esc_reason_code ESC_REASON_ANOMALY)) = 3600 \<and>
   PGWT_ESC_UNPACK_REASON (PGWT_ESC_PACK 3600 (esc_reason_code ESC_REASON_ANOMALY)) =
     esc_reason_code ESC_REASON_ANOMALY"
  by (rule trace_event_packing_roundtrip) simp_all

end
