(* ===== verification/Window_Clip.thy ===== *)
theory Window_Clip
  imports Trace_Event
begin

text \<open>
  Window-clipped time, from src/src/window_clip.h: the single rule by which the server and the
  offline replay charge a wait to a window \<open>[from, to]\<close>. A zero bound means unbounded on that
  side. The lemmas show that the rule measures the overlap exactly and that splitting a window
  neither loses nor duplicates time.
\<close>

definition event_window_ns :: "pgwt_trace_event \<Rightarrow> u64 \<Rightarrow> u64 \<Rightarrow> u64" where
  "event_window_ns ev from_ns to_ns =
     (if duration_ns ev > timestamp_ns ev then 0
      else
        let start = timestamp_ns ev - duration_ns ev;
            endt = timestamp_ns ev;
            start = (if from_ns \<noteq> 0 \<and> start < from_ns then from_ns else start);
            endt = (if to_ns \<noteq> 0 \<and> endt > to_ns then to_ns else endt)
        in if endt > start then endt - start else 0)"

text \<open>
  The abstract meaning: the nanoseconds of the wait \<open>[timestamp - duration, timestamp)\<close> that lie
  inside the window. A record whose duration exceeds its own timestamp has none.
\<close>

definition wait_ns_in :: "pgwt_trace_event \<Rightarrow> u64 \<Rightarrow> u64 \<Rightarrow> nat set" where
  "wait_ns_in ev from_ns to_ns =
     (if duration_ns ev > timestamp_ns ev then {}
      else {t. unat (timestamp_ns ev) - unat (duration_ns ev) \<le> t \<and> t < unat (timestamp_ns ev) \<and>
               (from_ns \<noteq> 0 \<longrightarrow> unat from_ns \<le> t) \<and> (to_ns \<noteq> 0 \<longrightarrow> t < unat to_ns)})"

lemma event_window_ns_unat:
  "unat (event_window_ns ev f t) =
     (if duration_ns ev > timestamp_ns ev then 0
      else min (unat (timestamp_ns ev)) (if t = 0 then unat (timestamp_ns ev) else unat t) -
           max (unat (timestamp_ns ev) - unat (duration_ns ev)) (unat f))"
proof (cases "duration_ns ev > timestamp_ns ev")
  case True
  then show ?thesis by (simp add: event_window_ns_def)
next
  case False
  then have "unat (timestamp_ns ev - duration_ns ev) = unat (timestamp_ns ev) - unat (duration_ns ev)"
    by (simp add: unat_sub)
  with False show ?thesis
    by (auto simp: event_window_ns_def Let_def word_less_nat_alt unat_sub word_le_nat_alt not_less
        unat_gt_0 min_def max_def)
qed

lemma wait_ns_in_interval:
  "\<not> duration_ns ev > timestamp_ns ev \<Longrightarrow>
   wait_ns_in ev f t =
     {max (unat (timestamp_ns ev) - unat (duration_ns ev)) (unat f) ..<
      min (unat (timestamp_ns ev)) (if t = 0 then unat (timestamp_ns ev) else unat t)}"
  by (auto simp: wait_ns_in_def)

lemma event_window_ns_measures: "unat (event_window_ns ev f t) = card (wait_ns_in ev f t)"
proof (cases "duration_ns ev > timestamp_ns ev")
  case True
  then show ?thesis by (simp add: event_window_ns_unat wait_ns_in_def)
next
  case False
  then show ?thesis by (simp add: event_window_ns_unat wait_ns_in_interval)
qed

lemma event_window_ns_le_duration: "event_window_ns ev f t \<le> duration_ns ev"
  by (auto simp: word_le_nat_alt event_window_ns_unat word_less_nat_alt)

lemma clip_split_nat:
  "s \<le> e \<Longrightarrow> f \<le> m \<Longrightarrow> m \<le> t \<Longrightarrow>
     (min e m - max s f) + (min e t - max s m) = min e t - max s (f :: nat)"
  by (auto simp: min_def max_def)

lemma event_window_ns_split:
  assumes "m \<noteq> 0" and "f \<le> m" and "t = 0 \<or> m \<le> t"
  shows "unat (event_window_ns ev f m) + unat (event_window_ns ev m t) =
         unat (event_window_ns ev f t)"
proof (cases "duration_ns ev > timestamp_ns ev")
  case True
  then show ?thesis by (simp add: event_window_ns_unat)
next
  case False
  let ?e = "unat (timestamp_ns ev)" and ?s = "unat (timestamp_ns ev) - unat (duration_ns ev)"
  show ?thesis
    using False assms clip_split_nat [of ?s ?e "unat f" "unat m" "max ?e (unat m)"]
      clip_split_nat [of ?s ?e "unat f" "unat m" "unat t"]
    by (auto simp: event_window_ns_unat word_le_nat_alt)
qed

text \<open>The consecutive windows of a list of cut points.\<close>

fun tile_ns :: "pgwt_trace_event \<Rightarrow> u64 \<Rightarrow> u64 list \<Rightarrow> nat" where
  "tile_ns ev f [] = 0"
| "tile_ns ev f (c # cs) = unat (event_window_ns ev f c) + tile_ns ev c cs"

lemma tile_ns_sum:
  "cs \<noteq> [] \<Longrightarrow> sorted (f # cs) \<Longrightarrow> hd cs \<noteq> 0 \<Longrightarrow>
   tile_ns ev f cs = unat (event_window_ns ev f (last cs))"
proof (induction cs arbitrary: f)
  case Nil
  then show ?case by simp
next
  case (Cons c cs)
  show ?case
  proof (cases "cs = []")
    case True
    then show ?thesis by simp
  next
    case False
    then have "hd cs \<in> set cs" by simp
    with Cons.prems have hd: "c \<le> hd cs" by (cases cs) auto
    have c0: "c \<noteq> 0" using Cons.prems by simp
    with hd have "hd cs \<noteq> 0" by (auto simp: word_le_nat_alt unat_eq_0 simp flip: unat_0_iff)
    moreover have "sorted (c # cs)" using Cons.prems by simp
    ultimately have "tile_ns ev c cs = unat (event_window_ns ev c (last cs))"
      using Cons.IH [OF False] by blast
    moreover have "c \<le> last cs" using Cons.prems False by (cases cs rule: rev_cases) auto
    moreover have "f \<le> c" using Cons.prems by simp
    ultimately show ?thesis
      using event_window_ns_split [of c f "last cs" ev] c0 False by simp
  qed
qed


section \<open>Properties\<close>

text \<open>
  The clipping rule measures exactly: for every event and every window, the value returned is the
  number of nanoseconds of the wait that lie in the window, with a zero upper bound reading as
  unbounded and a duration reaching before time zero counting as nothing.
\<close>

theorem window_clip_exact:
  "unat (event_window_ns ev f t) = card (wait_ns_in ev f t)"
  by (rule event_window_ns_measures)

text \<open>
  cutting a range into consecutive windows conserves time: the clipped parts of an event over
  any ascending list of cut points sum to its part of the whole range, so no bucket boundary loses
  or double-counts a nanosecond.
\<close>

theorem window_clip_tiles_conserve:
  assumes "cs \<noteq> []" and "sorted (f # cs)" and "hd cs \<noteq> 0"
  shows "tile_ns ev f cs = unat (event_window_ns ev f (last cs))"
  by (rule tile_ns_sum [OF assms])

theorem window_clip_tiles_conserve_witness:
  "tile_ns \<lparr>timestamp_ns = 100, pid = 1, old_event = 0, new_event = 0, flags = 0,
            duration_ns = 60, query_id = 0, cpu_ns = 0\<rparr> 10 [50, 70, 90] =
   unat (event_window_ns \<lparr>timestamp_ns = 100, pid = 1, old_event = 0, new_event = 0, flags = 0,
            duration_ns = 60, query_id = 0, cpu_ns = 0\<rparr> 10 (last [50, 70, 90]))"
  by (rule window_clip_tiles_conserve) simp_all

end
