(* ===== verification/Idle_Rule.thy ===== *)
theory Idle_Rule
  imports Trace_Event
begin

text \<open>
  The one definition of "this wait is not the database doing work": src/src/idle_rule.c, and the
  part of src/src/wait_event.c that derives the Timeout pacing mask from the active name table.
  The file-scope variables of the C are the fields of the records below. The lemmas show that the
  bit test on the hot path classifies exactly the Timeout events whose name is in the pacing
  table, whatever the PostgreSQL major, and that unverified majors classify none.
\<close>

section \<open>The pacing names\<close>

definition pacing_timeout_names :: "string list" where
  "pacing_timeout_names =
     [''CheckpointWriteDelay'', ''VacuumDelay'', ''BaseBackupThrottle'', ''RecoveryApplyDelay'',
      ''RecoveryRetrieveRetryInterval'', ''WalSummarizerError'']"

fun name_in_table :: "string list \<Rightarrow> string \<Rightarrow> bool" where
  "name_in_table [] name = False"
| "name_in_table (p # ps) name = (if name = p then True else name_in_table ps name)"

definition pgwt_timeout_name_is_pacing :: "string option \<Rightarrow> bool" where
  "pgwt_timeout_name_is_pacing name =
     (case name of None \<Rightarrow> False | Some n \<Rightarrow> name_in_table pacing_timeout_names n)"

definition PGWT_TIMEOUT_TABLE_VERIFIED :: "int \<Rightarrow> bool" where
  "PGWT_TIMEOUT_TABLE_VERIFIED major \<longleftrightarrow> major = 13 \<or> major = 17 \<or> major = 18"

section \<open>The active Timeout name table\<close>

definition timeout_events :: "string list" where
  "timeout_events =
     [''BaseBackupThrottle'', ''CheckpointWriteDelay'', ''PgSleep'', ''RecoveryApplyDelay'',
      ''RecoveryRetrieveRetryInterval'', ''RegisterSyncRequest'', ''SpinDelay'', ''VacuumDelay'',
      ''VacuumTruncate'', ''WalSummarizerError'']"

definition timeout_events_pg13 :: "string list" where
  "timeout_events_pg13 =
     [''BaseBackupThrottle'', ''PgSleep'', ''RecoveryApplyDelay'',
      ''RecoveryRetrieveRetryInterval'', ''VacuumDelay'', ''RegisterSyncRequest'']"

text \<open>
  The name state: the major in force, the active static Timeout table, and the dynamic names of
  the Timeout class (\<open>dyn_names[PG_WAIT_TIMEOUT]\<close> with its \<open>dyn_max\<close>), loaded from PostgreSQL or
  from a sidecar. \<open>DYN_MAX_EVENTS_PER_CLASS\<close> exceeds every id the mask can hold.
\<close>

record name_state =
  pg_version :: int
  timeout_events_active :: "string list option"
  dyn_loaded :: bool
  dyn_observed :: bool
  dyn_timeout_max :: int
  dyn_timeout_names :: "nat \<Rightarrow> string option"

definition name_state_init :: name_state where
  "name_state_init = \<lparr>pg_version = 18, timeout_events_active = None, dyn_loaded = False,
     dyn_observed = False, dyn_timeout_max = 0, dyn_timeout_names = (\<lambda>_. None)\<rparr>"

definition select_version_tables :: "name_state \<Rightarrow> int \<Rightarrow> name_state" where
  "select_version_tables s pg_major =
     (let s = s\<lparr>pg_version := pg_major, timeout_events_active := Some timeout_events\<rparr>
      in if pg_major = 13 then s\<lparr>timeout_events_active := Some timeout_events_pg13\<rparr> else s)"

definition lookup0 :: "string list \<Rightarrow> nat \<Rightarrow> string option" where
  "lookup0 tbl i = (if i < length tbl then Some (tbl ! i) else None)"

definition timeout_event_name :: "name_state \<Rightarrow> nat \<Rightarrow> string option" where
  "timeout_event_name s i =
     (if dyn_loaded s \<and> int i \<le> dyn_timeout_max s \<and> dyn_timeout_names s i \<noteq> None
      then dyn_timeout_names s i
      else lookup0 (case timeout_events_active s of Some t \<Rightarrow> t | None \<Rightarrow> timeout_events) i)"

section \<open>The pacing mask\<close>

record idle_state =
  timeout_pacing_mask :: u32
  timeout_coverage_mask :: u32

definition idle_state_init :: idle_state where
  "idle_state_init = \<lparr>timeout_pacing_mask = 0, timeout_coverage_mask = 0\<rparr>"

definition pgwt_idle_rule_set_timeout_mask :: "idle_state \<Rightarrow> u32 \<Rightarrow> idle_state" where
  "pgwt_idle_rule_set_timeout_mask r m = r\<lparr>timeout_pacing_mask := m\<rparr>"

definition pgwt_idle_rule_timeout_mask :: "idle_state \<Rightarrow> u32" where
  "pgwt_idle_rule_timeout_mask r = timeout_pacing_mask r"

text \<open>The body of the loop resolves the name of one id; the loop runs over ids \<open>0..31\<close>.\<close>

definition mask_name :: "name_state \<Rightarrow> nat \<Rightarrow> string option" where
  "mask_name s i =
     (if PGWT_TIMEOUT_TABLE_VERIFIED (pg_version s) then timeout_event_name s i
      else if int i \<le> dyn_timeout_max s then dyn_timeout_names s i else None)"

fun mask_loop :: "name_state \<Rightarrow> nat list \<Rightarrow> u32 \<Rightarrow> u32 \<Rightarrow> u32 \<times> u32" where
  "mask_loop s [] m cov = (m, cov)"
| "mask_loop s (i # ids) m cov =
     (let n = mask_name s i;
          c2 = (if n \<noteq> None then cov OR push_bit i 1 else cov);
          m2 = (if n \<noteq> None \<and> pgwt_timeout_name_is_pacing n then m OR push_bit i 1 else m)
      in mask_loop s ids m2 c2)"

definition rebuild_idle_mask :: "name_state \<Rightarrow> idle_state \<Rightarrow> idle_state" where
  "rebuild_idle_mask s r =
     (let observed_timeout = (dyn_loaded s \<and> dyn_observed s \<and> dyn_timeout_max s \<ge> 0);
          verified = PGWT_TIMEOUT_TABLE_VERIFIED (pg_version s)
      in if \<not> observed_timeout \<and> \<not> verified
         then pgwt_idle_rule_set_timeout_mask (r\<lparr>timeout_coverage_mask := 0\<rparr>) 0
         else let (m, cov) = mask_loop s [0..<32] 0 0
              in pgwt_idle_rule_set_timeout_mask (r\<lparr>timeout_coverage_mask := cov\<rparr>) m)"

definition pgwt_init_event_names :: "name_state \<Rightarrow> idle_state \<Rightarrow> int \<Rightarrow> name_state \<times> idle_state" where
  "pgwt_init_event_names s r pg_major =
     (let s = select_version_tables s pg_major in (s, rebuild_idle_mask s r))"

definition pgwt_timeout_id_is_classifiable :: "idle_state \<Rightarrow> u32 \<Rightarrow> bool" where
  "pgwt_timeout_id_is_classifiable r i \<longleftrightarrow>
     i < 32 \<and> drop_bit (unat i) (timeout_coverage_mask r) AND 1 \<noteq> 0"

section \<open>The predicates\<close>

definition pgwt_is_idle_event :: "idle_state \<Rightarrow> u32 \<Rightarrow> bool" where
  "pgwt_is_idle_event r wei =
     (if WE_CLASS wei = PG_WAIT_ACTIVITY then True
      else if wei = WEI PG_WAIT_CLIENT 0 then True
      else if WE_CLASS wei = PG_WAIT_TIMEOUT then
        (let i = WE_EVENT wei
         in i < 32 \<and> drop_bit (unat i) (timeout_pacing_mask r) AND 1 \<noteq> 0)
      else False)"

definition pgwt_is_hidden_event :: "u32 \<Rightarrow> bool" where
  "pgwt_is_hidden_event wei \<longleftrightarrow> WE_CLASS wei = PG_WAIT_ACTIVITY"

definition pgwt_is_session_idle_event :: "u32 \<Rightarrow> bool" where
  "pgwt_is_session_idle_event wei \<longleftrightarrow>
     WE_CLASS wei = PG_WAIT_ACTIVITY \<or> wei = WEI PG_WAIT_CLIENT 0"

section \<open>Facts\<close>

lemma name_in_table_iff: "name_in_table ps n \<longleftrightarrow> n \<in> set ps"
  by (induction ps) auto

lemma is_pacing_iff:
  "pgwt_timeout_name_is_pacing nm \<longleftrightarrow> (\<exists>n. nm = Some n \<and> n \<in> set pacing_timeout_names)"
  by (auto simp: pgwt_timeout_name_is_pacing_def name_in_table_iff split: option.splits)

lemma drop_bit_and_one: "drop_bit n w AND 1 \<noteq> 0 \<longleftrightarrow> bit w n" for w :: u32
  by (simp add: and_one_eq bit_iff_odd_drop_bit odd_iff_mod_2_eq_one)

lemma mask_loop_bits:
  assumes "\<forall>i\<in>set ids. i < 32" and "j < 32"
  shows "bit (fst (mask_loop s ids m c)) j \<longleftrightarrow>
           bit m j \<or> j \<in> set ids \<and> pgwt_timeout_name_is_pacing (mask_name s j)"
    and "bit (snd (mask_loop s ids m c)) j \<longleftrightarrow>
           bit c j \<or> j \<in> set ids \<and> mask_name s j \<noteq> None"
  using assms
  by (induction ids arbitrary: m c)
    (auto simp: Let_def bit_simps is_pacing_iff)

definition mask_usable :: "name_state \<Rightarrow> bool" where
  "mask_usable s \<longleftrightarrow>
     dyn_loaded s \<and> dyn_observed s \<and> dyn_timeout_max s \<ge> 0 \<or>
     PGWT_TIMEOUT_TABLE_VERIFIED (pg_version s)"

lemma rebuild_bit:
  assumes "i < 32"
  shows "bit (timeout_pacing_mask (rebuild_idle_mask s r)) i \<longleftrightarrow>
           mask_usable s \<and> pgwt_timeout_name_is_pacing (mask_name s i)"
    and "bit (timeout_coverage_mask (rebuild_idle_mask s r)) i \<longleftrightarrow>
           mask_usable s \<and> mask_name s i \<noteq> None"
  using mask_loop_bits [of "[0..<32]" i s 0 0] assms
  by (auto simp: rebuild_idle_mask_def mask_usable_def Let_def pgwt_idle_rule_set_timeout_mask_def
      split: prod.splits)

lemma idle_timeout_iff:
  "WE_CLASS w = PG_WAIT_TIMEOUT \<Longrightarrow>
   pgwt_is_idle_event r w \<longleftrightarrow>
     unat (WE_EVENT w) < 32 \<and> bit (timeout_pacing_mask r) (unat (WE_EVENT w))"
  using drop_bit_and_one
  by (auto simp: pgwt_is_idle_event_def Let_def word_less_nat_alt we_class_wei)


section \<open>Properties\<close>

text \<open>
  C23: the bit test of the hot path is the name rule: after the masks are rebuilt, a Timeout event is
  idle exactly when the name tables of this server give its id a name from the pacing set and the
  tables are trustworthy (a verified major, or names observed from the server itself). Ids of 32 and
  above are never idle, and an idle id is always one the tables can classify.
\<close>

theorem idle_timeout_iff_pacing_name:
  assumes "WE_CLASS w = PG_WAIT_TIMEOUT"
  shows "(pgwt_is_idle_event (rebuild_idle_mask s r) w \<longleftrightarrow>
            unat (WE_EVENT w) < 32 \<and> mask_usable s \<and>
            (\<exists>n. mask_name s (unat (WE_EVENT w)) = Some n \<and> n \<in> set pacing_timeout_names)) \<and>
         (pgwt_is_idle_event (rebuild_idle_mask s r) w \<longrightarrow>
            pgwt_timeout_id_is_classifiable (rebuild_idle_mask s r) (WE_EVENT w))"
  using idle_timeout_iff [OF assms, of "rebuild_idle_mask s r"]
    rebuild_bit [of "unat (WE_EVENT w)" s r]
    drop_bit_and_one [of "unat (WE_EVENT w)" "timeout_coverage_mask (rebuild_idle_mask s r)"]
  by (auto simp: is_pacing_iff pgwt_timeout_id_is_classifiable_def word_less_nat_alt)

theorem idle_timeout_iff_pacing_name_witness:
  "let s = select_version_tables name_state_init 18 in
     (pgwt_is_idle_event (rebuild_idle_mask s idle_state_init) 0x09000007 \<longleftrightarrow>
        unat (WE_EVENT 0x09000007) < 32 \<and> mask_usable s \<and>
        (\<exists>n. mask_name s (unat (WE_EVENT 0x09000007)) = Some n \<and> n \<in> set pacing_timeout_names)) \<and>
     (pgwt_is_idle_event (rebuild_idle_mask s idle_state_init) 0x09000007 \<longrightarrow>
        pgwt_timeout_id_is_classifiable (rebuild_idle_mask s idle_state_init) (WE_EVENT 0x09000007))"
  unfolding Let_def
  by (rule idle_timeout_iff_pacing_name) (simp add: WE_CLASS_def)

text \<open>
  On a server whose Timeout table is not verified and whose names were not observed, start-up
  classifies no Timeout event as idle, whatever its id, so unknown waits are counted as work.
\<close>

theorem unverified_major_never_idle:
  assumes "\<not> PGWT_TIMEOUT_TABLE_VERIFIED major" and "\<not> (dyn_loaded s \<and> dyn_observed s)"
    and "WE_CLASS w = PG_WAIT_TIMEOUT"
  shows "\<not> pgwt_is_idle_event (snd (pgwt_init_event_names s r major)) w"
proof -
  let ?s = "select_version_tables s major"
  have "\<not> mask_usable ?s"
    using assms(1,2) by (auto simp: mask_usable_def select_version_tables_def Let_def)
  then show ?thesis
    using idle_timeout_iff [OF assms(3), of "rebuild_idle_mask ?s r"]
      rebuild_bit(1) [of "unat (WE_EVENT w)" ?s r]
    by (auto simp: pgwt_init_event_names_def Let_def)
qed

theorem unverified_major_never_idle_witness:
  "\<not> pgwt_is_idle_event (snd (pgwt_init_event_names name_state_init idle_state_init 15)) 0x09000007"
  by (rule unverified_major_never_idle)
    (simp_all add: PGWT_TIMEOUT_TABLE_VERIFIED_def WE_CLASS_def name_state_init_def)

end
