(* ===== verification/Escalation_Budget.thy ===== *)
theory Escalation_Budget
  imports Trace_Event
begin

text \<open>
  The rolling-hour budget of the escalation engine: src/src/escalation_budget.c over the state of
  src/src/escalation.h. The ledger array with its counter is a list; everything else keeps the C
  names. Times are 64-bit words and every sum is the wrapping sum of the source. The lemmas relate
  the ledger to the set of nanoseconds it bills: the consumed figure is the exact size of that
  set inside the rolling window, pruning does not change it, coalescing can only enlarge it, and a
  grant never commits more than the budget leaves.
\<close>

section \<open>State\<close>

record pgwt_esc_segment =
  start_ns :: u64
  end_ns :: u64

record pgwt_escalation =
  esc_enabled :: bool
  esc_active :: bool
  esc_admitting :: bool
  esc_generation :: u64
  esc_next_generation :: u64
  esc_attach_boundary_ns :: u64
  esc_timer_fd :: int
  window_deadline_ns :: u64
  window_start_ns :: u64
  window_reason :: pgwt_escalation_reason
  budget_ns :: u64
  budget_unlimited :: bool
  rolling_window_ns :: u64
  ledger :: "pgwt_esc_segment list"
  windows_total :: u64
  denied_total :: u64
  budget_closed_total :: u64

definition PGWT_ESC_LEDGER_MAX :: nat where [simp]: "PGWT_ESC_LEDGER_MAX = 256"

section \<open>Operations\<close>

definition esc_window_start :: "pgwt_escalation \<Rightarrow> u64 \<Rightarrow> u64" where
  "esc_window_start e now = (if now > rolling_window_ns e then now - rolling_window_ns e else 0)"

fun consumed_loop :: "u64 \<Rightarrow> u64 \<Rightarrow> pgwt_esc_segment list \<Rightarrow> u64 \<Rightarrow> pgwt_esc_segment list
    \<Rightarrow> u64 \<times> pgwt_esc_segment list" where
  "consumed_loop now ws [] consumed kept = (consumed, kept)"
| "consumed_loop now ws (seg # segs) consumed kept =
     (let s = start_ns seg;
          en = (if end_ns seg \<noteq> 0 then end_ns seg else now)
      in if en \<le> ws then consumed_loop now ws segs consumed kept
         else let s = (if s < ws then ws else s);
                  consumed = (if en > s then consumed + (en - s) else consumed)
              in consumed_loop now ws segs consumed (kept @ [seg]))"

definition pgwt_esc_budget_consumed_ns :: "pgwt_escalation \<Rightarrow> u64 \<Rightarrow> u64 \<times> pgwt_escalation" where
  "pgwt_esc_budget_consumed_ns e now =
     (let (consumed, kept) = consumed_loop now (esc_window_start e now) (ledger e) 0 []
      in (consumed, e\<lparr>ledger := kept\<rparr>))"

definition pgwt_esc_budget_remaining_ns :: "pgwt_escalation \<Rightarrow> u64 \<Rightarrow> u64 \<times> pgwt_escalation" where
  "pgwt_esc_budget_remaining_ns e now =
     (if budget_unlimited e then (UINT64_MAX, e)
      else if budget_ns e = 0 then (0, e)
      else let (consumed, e') = pgwt_esc_budget_consumed_ns e now
           in (if budget_ns e' > consumed then budget_ns e' - consumed else 0, e'))"

datatype esc_decision = Grant u64 | Deny string

definition why_disabled :: string where
  "why_disabled = ''escalation disabled (--escalation-budget 0); use 'unlimited' to allow unbounded escalation''"

definition why_exhausted :: string where
  "why_exhausted = ''escalation budget exhausted for this hour''"

definition pgwt_esc_budget_decide ::
  "pgwt_escalation \<Rightarrow> u64 \<Rightarrow> u64 \<Rightarrow> esc_decision \<times> pgwt_escalation" where
  "pgwt_esc_budget_decide e now want_ns =
     (if budget_unlimited e then (Grant want_ns, e)
      else if budget_ns e = 0 then (Deny why_disabled, e)
      else
        let (consumed, e') = pgwt_esc_budget_consumed_ns e now;
            avail = (if budget_ns e' > consumed then budget_ns e' - consumed else 0)
        in if avail = 0 then (Deny why_exhausted, e')
           else (Grant (if want_ns < avail then want_ns else avail), e'))"

definition pgwt_esc_budget_over :: "pgwt_escalation \<Rightarrow> u64 \<Rightarrow> bool \<times> pgwt_escalation" where
  "pgwt_esc_budget_over e now =
     (if budget_unlimited e \<or> budget_ns e = 0 then (False, e)
      else let (consumed, e') = pgwt_esc_budget_consumed_ns e now
           in (consumed \<ge> budget_ns e', e'))"

fun coalesce_segs :: "pgwt_esc_segment list \<Rightarrow> pgwt_esc_segment list" where
  "coalesce_segs (g0 # g1 # gs) =
     \<lparr>start_ns = (if start_ns g0 < start_ns g1 then start_ns g0 else start_ns g1),
      end_ns = (if end_ns g0 = 0 \<or> end_ns g1 = 0 then 0
                else if end_ns g0 > end_ns g1 then end_ns g0 else end_ns g1)\<rparr> # gs"
| "coalesce_segs gs = gs"

definition coalesce_oldest :: "pgwt_escalation \<Rightarrow> pgwt_escalation" where
  "coalesce_oldest e = e\<lparr>ledger := coalesce_segs (ledger e)\<rparr>"

definition pgwt_esc_ledger_open :: "pgwt_escalation \<Rightarrow> u64 \<Rightarrow> pgwt_escalation" where
  "pgwt_esc_ledger_open e now =
     (let e = snd (pgwt_esc_budget_consumed_ns e now);
          e = (if length (ledger e) \<ge> PGWT_ESC_LEDGER_MAX then coalesce_oldest e else e)
      in if length (ledger e) < PGWT_ESC_LEDGER_MAX
         then e\<lparr>ledger := ledger e @ [\<lparr>start_ns = now, end_ns = 0\<rparr>]\<rparr> else e)"

text \<open>The downward loop closes the last open segment; on the reversed list it is the first one.\<close>

fun close_first_open :: "u64 \<Rightarrow> pgwt_esc_segment list \<Rightarrow> pgwt_esc_segment list" where
  "close_first_open now [] = []"
| "close_first_open now (g # gs) =
     (if end_ns g = 0 then g\<lparr>end_ns := now\<rparr> # gs else g # close_first_open now gs)"

definition pgwt_esc_ledger_close :: "pgwt_escalation \<Rightarrow> u64 \<Rightarrow> pgwt_escalation" where
  "pgwt_esc_ledger_close e now = e\<lparr>ledger := rev (close_first_open now (rev (ledger e)))\<rparr>"

section \<open>What the ledger bills\<close>

definition seg_end :: "u64 \<Rightarrow> pgwt_esc_segment \<Rightarrow> u64" where
  "seg_end now g = (if end_ns g \<noteq> 0 then end_ns g else now)"

definition seg_time :: "u64 \<Rightarrow> pgwt_esc_segment \<Rightarrow> nat set" where
  "seg_time now g = {unat (start_ns g) ..< unat (seg_end now g)}"

definition segs_time :: "u64 \<Rightarrow> pgwt_esc_segment list \<Rightarrow> nat set" where
  "segs_time now gs = (\<Union>g\<in>set gs. seg_time now g)"

definition billed :: "pgwt_escalation \<Rightarrow> u64 \<Rightarrow> nat set" where
  "billed e now = segs_time now (ledger e) \<inter> {unat (esc_window_start e now) ..}"

text \<open>A well-formed ledger: chronological, disjoint, closed except possibly its newest segment.\<close>

fun wf_segs :: "nat \<Rightarrow> u64 \<Rightarrow> pgwt_esc_segment list \<Rightarrow> bool" where
  "wf_segs lo now [] = True"
| "wf_segs lo now (g # gs) =
     (lo \<le> unat (start_ns g) \<and> start_ns g \<le> now \<and>
      (if end_ns g = 0 then gs = []
       else start_ns g \<le> end_ns g \<and> end_ns g \<le> now \<and> wf_segs (unat (end_ns g)) now gs))"

abbreviation all_closed :: "pgwt_esc_segment list \<Rightarrow> bool" where
  "all_closed gs \<equiv> list_all (\<lambda>g. end_ns g \<noteq> 0) gs"

subsection \<open>The consuming loop\<close>

lemma seg_end_le: "wf_segs lo now gs \<Longrightarrow> g \<in> set gs \<Longrightarrow> seg_end now g \<le> now"
  by (induction gs arbitrary: lo) (auto simp: seg_end_def split: if_splits)

lemma wf_segs_mono: "wf_segs lo now gs \<Longrightarrow> lo' \<le> lo \<Longrightarrow> wf_segs lo' now gs"
  by (cases gs) auto

lemma wf_segs_lower: "wf_segs lo now gs \<Longrightarrow> segs_time now gs \<subseteq> {lo ..< unat now}"
proof (induction gs arbitrary: lo)
  case Nil
  then show ?case by (simp add: segs_time_def)
next
  case (Cons g gs)
  have se: "seg_end now g \<le> now" using seg_end_le [OF Cons.prems] by simp
  have sub: "segs_time now gs \<subseteq> {lo ..< unat now}"
  proof (cases "end_ns g = 0")
    case True
    with Cons.prems show ?thesis by (simp add: segs_time_def)
  next
    case False
    with Cons.prems have "wf_segs (unat (end_ns g)) now gs" and "lo \<le> unat (end_ns g)"
      by (auto simp: word_le_nat_alt)
    then show ?thesis using Cons.IH wf_segs_mono by blast
  qed
  from se Cons.prems have "seg_time now g \<subseteq> {lo ..< unat now}"
    by (auto simp: seg_time_def word_le_nat_alt)
  with sub show ?case by (simp add: segs_time_def)
qed

lemma consumed_loop_kept:
  "snd (consumed_loop now ws gs c kept) = kept @ filter (\<lambda>g. ws < seg_end now g) gs"
  by (induction gs arbitrary: c kept)
    (auto simp: Let_def seg_end_def word_less_nat_alt word_le_nat_alt)

lemma consumed_loop_card:
  assumes "wf_segs lo now gs" and "unat c + (unat now - lo) < 2 ^ 64"
  shows "unat (fst (consumed_loop now ws gs c kept)) =
           unat c + card (segs_time now gs \<inter> {unat ws ..})"
  using assms
proof (induction gs arbitrary: lo c kept)
  case Nil
  then show ?case by (simp add: segs_time_def)
next
  case (Cons g gs)
  let ?s = "if start_ns g < ws then ws else start_ns g"
  let ?en = "seg_end now g"
  let ?c = "if ws < ?en \<and> ?s < ?en then c + (?en - ?s) else c"
  let ?A = "seg_time now g \<inter> {unat ws ..}"
  have sen: "start_ns g \<le> ?en" and enn: "?en \<le> now" and los: "lo \<le> unat (start_ns g)"
    using Cons.prems seg_end_le [of lo now "g # gs" g] by (auto simp: seg_end_def)
  have cardA: "card ?A = unat ?en - unat ?s"
  proof -
    have "?A = {unat ?s ..< unat ?en}"
      by (auto simp: seg_time_def word_less_nat_alt)
    then show ?thesis by simp
  qed
  have fit: "unat ?c = unat c + card ?A"
  proof (cases "ws < ?en \<and> ?s < ?en")
    case True
    then have d: "unat (?en - ?s) = unat ?en - unat ?s"
      by (auto intro: unat_sub)
    have "unat c + (unat ?en - unat ?s) < 2 ^ 64"
      using Cons.prems(2) enn los sen by (auto simp: word_le_nat_alt word_less_nat_alt split: if_splits)
    then have "unat (c + (?en - ?s)) = unat c + (unat ?en - unat ?s)"
      using d by (simp add: unat_add_u64)
    with True cardA show ?thesis by auto
  next
    case False
    then have "unat ?en \<le> unat ?s" by (auto simp: word_less_nat_alt split: if_splits)
    with False cardA show ?thesis by auto
  qed
  have rest: "unat (fst (consumed_loop now ws gs ?c k)) =
       unat ?c + card (segs_time now gs \<inter> {unat ws ..})" for k
  proof (cases "end_ns g = 0")
    case True
    with Cons.prems have "gs = []" by simp
    then show ?thesis by (simp add: segs_time_def)
  next
    case False
    with Cons.prems have wf: "wf_segs (unat (end_ns g)) now gs" by simp
    have "unat ?c + (unat now - unat (end_ns g)) < 2 ^ 64"
      using Cons.prems(2) fit cardA False enn los sen
      by (auto simp: seg_end_def word_le_nat_alt word_less_nat_alt split: if_splits)
    then show ?thesis using Cons.IH [OF wf] by blast
  qed
  have disj: "?A \<inter> (segs_time now gs \<inter> {unat ws ..}) = {}"
  proof (cases "end_ns g = 0")
    case True
    with Cons.prems show ?thesis by (simp add: segs_time_def)
  next
    case False
    with Cons.prems have "segs_time now gs \<subseteq> {unat (end_ns g) ..< unat now}"
      using wf_segs_lower by auto
    with False show ?thesis by (auto simp: seg_time_def seg_end_def)
  qed
  have "card (segs_time now (g # gs) \<inter> {unat ws ..}) =
      card ?A + card (segs_time now gs \<inter> {unat ws ..})"
  proof -
    have "segs_time now (g # gs) \<inter> {unat ws ..} = ?A \<union> (segs_time now gs \<inter> {unat ws ..})"
      by (auto simp: segs_time_def)
    moreover have "finite (segs_time now gs)" by (auto simp: segs_time_def seg_time_def)
    moreover have "finite ?A" by (simp add: seg_time_def)
    ultimately show ?thesis using disj by (simp add: card_Un_disjoint)
  qed
  moreover have "\<exists>k. consumed_loop now ws (g # gs) c kept = consumed_loop now ws gs ?c k"
    by (auto simp: Let_def seg_end_def word_less_nat_alt word_le_nat_alt split: if_splits)
  ultimately show ?case using rest fit by auto
qed

lemma consumed_fst:
  assumes "wf_segs 0 now (ledger e)"
  shows "unat (fst (pgwt_esc_budget_consumed_ns e now)) = card (billed e now)"
  using consumed_loop_card [OF assms, of 0 "esc_window_start e now" "[]"]
  by (simp add: pgwt_esc_budget_consumed_ns_def billed_def case_prod_unfold Let_def)

lemma consumed_snd:
  "snd (pgwt_esc_budget_consumed_ns e now) =
     e\<lparr>ledger := filter (\<lambda>g. esc_window_start e now < seg_end now g) (ledger e)\<rparr>"
  using consumed_loop_kept [of now "esc_window_start e now" "ledger e" 0 "[]"]
  by (simp add: pgwt_esc_budget_consumed_ns_def case_prod_unfold Let_def)

subsection \<open>Pruning\<close>

lemma wf_segs_filter: "wf_segs lo now gs \<Longrightarrow> wf_segs lo now (filter p gs)"
proof (induction gs arbitrary: lo)
  case (Cons g gs)
  show ?case
  proof (cases "end_ns g = 0")
    case False
    with Cons.prems have "wf_segs (unat (end_ns g)) now (filter p gs)" "lo \<le> unat (end_ns g)"
      using Cons.IH by (auto simp: word_le_nat_alt)
    then show ?thesis using Cons.prems False wf_segs_mono by auto
  qed (use Cons.prems in auto)
qed simp

lemma segs_time_prune:
  "segs_time now (filter (\<lambda>g. ws < seg_end now g) gs) \<inter> {unat ws ..} =
   segs_time now gs \<inter> {unat ws ..}"
  by (auto simp: segs_time_def seg_time_def word_less_nat_alt)

lemma esc_window_start_ledger [simp]: "esc_window_start (e\<lparr>ledger := gs\<rparr>) now = esc_window_start e now"
  by (simp add: esc_window_start_def)

lemma billed_prune: "billed (snd (pgwt_esc_budget_consumed_ns e now)) now = billed e now"
  by (simp add: billed_def consumed_snd segs_time_prune)

lemma wf_prune:
  "wf_segs 0 now (ledger e) \<Longrightarrow> wf_segs 0 now (ledger (snd (pgwt_esc_budget_consumed_ns e now)))"
  by (simp add: consumed_snd wf_segs_filter)

subsection \<open>Coalescing, opening, closing\<close>

lemma wf_segs_coalesce: "wf_segs lo now gs \<Longrightarrow> wf_segs lo now (coalesce_segs gs)"
  by (cases gs rule: coalesce_segs.cases) (auto simp: word_le_nat_alt word_less_nat_alt split: if_splits)

lemma segs_time_coalesce:
  "wf_segs lo now gs \<Longrightarrow> segs_time now gs \<subseteq> segs_time now (coalesce_segs gs)"
proof (cases gs rule: coalesce_segs.cases)
  case (1 g0 g1 rest)
  assume wf: "wf_segs lo now gs"
  let ?m = "hd (coalesce_segs gs)"
  have e0: "end_ns g0 \<noteq> 0" and s0: "start_ns g0 \<le> end_ns g0" and s1: "end_ns g0 \<le> start_ns g1"
    and e1: "end_ns g1 = 0 \<or> start_ns g1 \<le> end_ns g1" and n1: "start_ns g1 \<le> now"
    using wf 1 by (auto simp: word_le_nat_alt split: if_splits)
  have "seg_time now g0 \<subseteq> seg_time now ?m" "seg_time now g1 \<subseteq> seg_time now ?m"
    using 1 e0 s0 s1 e1 n1
    by (auto simp: seg_time_def seg_end_def word_le_nat_alt word_less_nat_alt)
  with 1 show ?thesis by (auto simp: segs_time_def)
qed auto

lemma length_coalesce: "2 \<le> length gs \<Longrightarrow> length (coalesce_segs gs) = length gs - 1"
  by (cases gs rule: coalesce_segs.cases) auto

lemma all_closed_coalesce: "all_closed gs \<Longrightarrow> all_closed (coalesce_segs gs)"
  by (cases gs rule: coalesce_segs.cases) auto

lemma wf_segs_append_open:
  "wf_segs lo now gs \<Longrightarrow> all_closed gs \<Longrightarrow> lo \<le> unat now \<Longrightarrow>
   wf_segs lo now (gs @ [\<lparr>start_ns = now, end_ns = 0\<rparr>])"
  by (induction gs arbitrary: lo) (auto simp: word_le_nat_alt)

lemma ledger_open_ledger:
  assumes "length (ledger e) \<le> PGWT_ESC_LEDGER_MAX"
  shows "\<exists>gs. ledger (pgwt_esc_ledger_open e now) = gs @ [\<lparr>start_ns = now, end_ns = 0\<rparr>] \<and>
           gs \<in> {filter (\<lambda>g. esc_window_start e now < seg_end now g) (ledger e),
                 coalesce_segs (filter (\<lambda>g. esc_window_start e now < seg_end now g) (ledger e))} \<and>
           length gs < PGWT_ESC_LEDGER_MAX"
proof -
  let ?k = "filter (\<lambda>g. esc_window_start e now < seg_end now g) (ledger e)"
  have le: "length ?k \<le> 256"
    using assms le_trans [OF length_filter_le] by simp
  show ?thesis
  proof (cases "length ?k < 256")
    case True
    then show ?thesis
      by (intro exI [of _ ?k]) (simp add: pgwt_esc_ledger_open_def consumed_snd Let_def)
  next
    case False
    with le have "length (coalesce_segs ?k) = 255" by (simp add: length_coalesce)
    with False show ?thesis
      by (intro exI [of _ "coalesce_segs ?k"])
        (simp add: pgwt_esc_ledger_open_def consumed_snd coalesce_oldest_def Let_def)
  qed
qed

lemma all_closed_filter: "all_closed gs \<Longrightarrow> all_closed (filter p gs)"
  by (induction gs) auto

lemma wf_ledger_open:
  assumes "wf_segs 0 now (ledger e)" and "all_closed (ledger e)"
    and "length (ledger e) \<le> PGWT_ESC_LEDGER_MAX"
  shows "wf_segs 0 now (ledger (pgwt_esc_ledger_open e now))"
    and "length (ledger (pgwt_esc_ledger_open e now)) \<le> PGWT_ESC_LEDGER_MAX"
    and "end_ns (last (ledger (pgwt_esc_ledger_open e now))) = 0"
    and "ledger (pgwt_esc_ledger_open e now) \<noteq> []"
    and "start_ns (last (ledger (pgwt_esc_ledger_open e now))) = now"
    and "all_closed (butlast (ledger (pgwt_esc_ledger_open e now)))"
  using ledger_open_ledger [OF assms(3), of now] assms(1,2)
  by (auto intro!: wf_segs_append_open wf_segs_filter wf_segs_coalesce all_closed_filter
      all_closed_coalesce)

text \<open>Opening a window never drops billed time, coalescing included.\<close>

lemma billed_ledger_open:
  assumes "wf_segs 0 now (ledger e)" and "length (ledger e) \<le> PGWT_ESC_LEDGER_MAX"
  shows "billed e now \<subseteq> billed (pgwt_esc_ledger_open e now) now"
proof -
  let ?k = "filter (\<lambda>g. esc_window_start e now < seg_end now g) (ledger e)"
  obtain gs where gs: "ledger (pgwt_esc_ledger_open e now) = gs @ [\<lparr>start_ns = now, end_ns = 0\<rparr>]"
      "gs = ?k \<or> gs = coalesce_segs ?k"
    using ledger_open_ledger [OF assms(2), of now] by auto
  have sub: "segs_time now ?k \<subseteq> segs_time now gs"
    using gs(2) segs_time_coalesce [OF wf_segs_filter [OF assms(1)]] by auto
  have rw: "rolling_window_ns (pgwt_esc_ledger_open e now) = rolling_window_ns e"
    by (simp add: pgwt_esc_ledger_open_def consumed_snd coalesce_oldest_def Let_def)
  have "billed e now = segs_time now ?k \<inter> {unat (esc_window_start e now) ..}"
    by (simp add: billed_def segs_time_prune)
  also have "\<dots> \<subseteq> segs_time now (ledger (pgwt_esc_ledger_open e now)) \<inter>
      {unat (esc_window_start e now) ..}"
    using sub by (auto simp: gs(1) segs_time_def)
  also have "\<dots> = billed (pgwt_esc_ledger_open e now) now"
    by (simp add: billed_def esc_window_start_def rw)
  finally show ?thesis .
qed

lemma close_first_open_closed:
  "all_closed gs \<Longrightarrow> close_first_open now gs = gs"
  by (induction gs) auto

lemma ledger_close_last:
  assumes "ledger e = gs @ [g]" and "end_ns g = 0"
  shows "ledger (pgwt_esc_ledger_close e now) = gs @ [g\<lparr>end_ns := now\<rparr>]"
  using assms by (simp add: pgwt_esc_ledger_close_def)

subsection \<open>Grants\<close>

lemma decide_Grant:
  assumes "pgwt_esc_budget_decide e now want = (Grant g, e')" and "\<not> budget_unlimited e"
  shows "g \<le> want" and "unat (fst (pgwt_esc_budget_consumed_ns e now)) + unat g \<le> unat (budget_ns e)"
    and "e' = snd (pgwt_esc_budget_consumed_ns e now)"
  using assms
  by (cases "pgwt_esc_budget_consumed_ns e now"; use consumed_snd [of e now] in
      \<open>auto simp: pgwt_esc_budget_decide_def Let_def word_less_nat_alt word_le_nat_alt unat_sub
        split: if_splits\<close>)+

lemma decide_unlimited:
  "budget_unlimited e \<Longrightarrow> pgwt_esc_budget_decide e now want = (Grant want, e)"
  by (simp add: pgwt_esc_budget_decide_def)

lemma decide_state:
  "snd (pgwt_esc_budget_decide e now want) = e \<or>
   snd (pgwt_esc_budget_decide e now want) = snd (pgwt_esc_budget_consumed_ns e now)"
  by (auto simp: pgwt_esc_budget_decide_def Let_def split: prod.splits if_splits)


section \<open>Properties\<close>

text \<open>
  C20: the consumed figure is exact: for a chronological ledger, with its newest segment possibly still
  open, it is the number of nanoseconds billed inside the rolling window ending now, with no
  wrap-around; the pruning it does on the way changes neither that set nor the ledger's shape.
\<close>

theorem budget_consumed_exact:
  assumes "wf_segs 0 now (ledger e)"
  shows "unat (fst (pgwt_esc_budget_consumed_ns e now)) = card (billed e now) \<and>
         billed (snd (pgwt_esc_budget_consumed_ns e now)) now = billed e now \<and>
         wf_segs 0 now (ledger (snd (pgwt_esc_budget_consumed_ns e now)))"
  using consumed_fst [OF assms] billed_prune wf_prune [OF assms] by blast

definition sample_esc :: pgwt_escalation where
  "sample_esc = \<lparr>esc_enabled = True, esc_active = True, esc_admitting = True, esc_generation = 3,
     esc_next_generation = 3, esc_attach_boundary_ns = 0, esc_timer_fd = 5, window_deadline_ns = 0,
     window_start_ns = 0, window_reason = ESC_REASON_MANUAL, budget_ns = 600, budget_unlimited = False,
     rolling_window_ns = 3600,
     ledger = [\<lparr>start_ns = 100, end_ns = 300\<rparr>, \<lparr>start_ns = 1000, end_ns = 1200\<rparr>,
               \<lparr>start_ns = 4000, end_ns = 0\<rparr>],
     windows_total = 0, denied_total = 0, budget_closed_total = 0\<rparr>"

theorem budget_consumed_exact_witness:
  "unat (fst (pgwt_esc_budget_consumed_ns sample_esc 4100)) = card (billed sample_esc 4100) \<and>
   billed (snd (pgwt_esc_budget_consumed_ns sample_esc 4100)) 4100 = billed sample_esc 4100 \<and>
   wf_segs 0 4100 (ledger (snd (pgwt_esc_budget_consumed_ns sample_esc 4100)))"
  by (rule budget_consumed_exact) (simp add: sample_esc_def)



text \<open>
  a full ledger forgets nothing: opening a window, even when 256 segments force the two oldest to
  be merged, keeps every billed nanosecond, stays chronological and within its array, and ends with
  the new open segment.
\<close>

theorem ledger_open_keeps_billed:
  assumes "wf_segs 0 now (ledger e)" and "all_closed (ledger e)"
    and "length (ledger e) \<le> PGWT_ESC_LEDGER_MAX"
  shows "billed e now \<subseteq> billed (pgwt_esc_ledger_open e now) now \<and>
         wf_segs 0 now (ledger (pgwt_esc_ledger_open e now)) \<and>
         length (ledger (pgwt_esc_ledger_open e now)) \<le> PGWT_ESC_LEDGER_MAX \<and>
         (\<exists>gs. ledger (pgwt_esc_ledger_open e now) = gs @ [\<lparr>start_ns = now, end_ns = 0\<rparr>])"
  using billed_ledger_open [OF assms(1,3)] wf_ledger_open(1,2) [OF assms]
    ledger_open_ledger [OF assms(3), of now] by blast

theorem ledger_open_keeps_billed_witness:
  "let e = pgwt_esc_ledger_close sample_esc 4100 in
     billed e 5000 \<subseteq> billed (pgwt_esc_ledger_open e 5000) 5000 \<and>
     wf_segs 0 5000 (ledger (pgwt_esc_ledger_open e 5000)) \<and>
     length (ledger (pgwt_esc_ledger_open e 5000)) \<le> PGWT_ESC_LEDGER_MAX \<and>
     (\<exists>gs. ledger (pgwt_esc_ledger_open e 5000) = gs @ [\<lparr>start_ns = 5000, end_ns = 0\<rparr>])"
  unfolding Let_def
  by (rule ledger_open_keeps_billed) (simp_all add: sample_esc_def pgwt_esc_ledger_close_def)

end
