(* ===== verification/Exact_Probe.thy ===== *)
theory Exact_Probe
  imports Trace_Event
begin

text \<open>
  The reference-counted bundle of exact probes: the libbpf-free core of src/src/exact_probe.c.
  The attach callback belongs to the kernel and is a parameter: a function from the probe index to
  a link handle or an errno. The callbacks made are recorded in order in \<open>probe_calls\<close>. The lemmas
  show that a failed multi-probe attach rolls back completely, that the attached mask and the link
  table always agree, that a window's transient links never outlive its last release while pinned
  ones do, and that no link is leaked or detached twice.
\<close>

section \<open>State\<close>

definition PGWT_EXACT_PROBE_COUNT :: nat where [simp]: "PGWT_EXACT_PROBE_COUNT = 4"

definition PGWT_EXACT_PROBE_BIT :: "nat \<Rightarrow> u32" where
  "PGWT_EXACT_PROBE_BIT i = push_bit i 1"

definition PGWT_EXACT_PROBE_ATTR_MASK :: u32 where [simp]: "PGWT_EXACT_PROBE_ATTR_MASK = 0x3"
definition PGWT_EXACT_PROBE_PHASE_MASK :: u32 where [simp]: "PGWT_EXACT_PROBE_PHASE_MASK = 0xC"
definition PGWT_EXACT_PROBE_ALL_MASK :: u32 where [simp]: "PGWT_EXACT_PROBE_ALL_MASK = 0xF"

datatype attach_outcome = NOT_ATTEMPTED | ATTACHED | ATTACH_FAILED | ATTACH_DISABLED

type_synonym link = nat

datatype probe_call = CallAttach nat link | CallDetach nat "link option"

record pgwt_exact_probe_core =
  links :: "nat \<Rightarrow> link option"
  attached_mask :: u32
  attach_outcomes :: "nat \<Rightarrow> attach_outcome"
  attach_errno :: "nat \<Rightarrow> int"
  pinned_mask :: u32
  core_generation :: u64
  consumers :: u32
  probe_calls :: "probe_call list"

type_synonym attach_fn = "nat \<Rightarrow> int + link"

definition core_init :: pgwt_exact_probe_core where
  "core_init = \<lparr>links = (\<lambda>_. None), attached_mask = 0, attach_outcomes = (\<lambda>_. NOT_ATTEMPTED),
     attach_errno = (\<lambda>_. 0), pinned_mask = 0, core_generation = 0, consumers = 0,
     probe_calls = []\<rparr>"

section \<open>Attaching and detaching\<close>

text \<open>One detach callback with the bookkeeping the three detaching loops share.\<close>

definition detach_one :: "pgwt_exact_probe_core \<Rightarrow> nat \<Rightarrow> pgwt_exact_probe_core" where
  "detach_one c j =
     c\<lparr>probe_calls := probe_calls c @ [CallDetach j (links c j)],
       links := (links c)(j := None),
       attached_mask := attached_mask c AND NOT (PGWT_EXACT_PROBE_BIT j)\<rparr>"

fun detach_masked :: "u32 \<Rightarrow> nat list \<Rightarrow> pgwt_exact_probe_core \<Rightarrow> pgwt_exact_probe_core" where
  "detach_masked m [] c = c"
| "detach_masked m (j # js) c =
     (if m AND PGWT_EXACT_PROBE_BIT j = 0 then detach_masked m js c
      else detach_masked m js (detach_one c j))"

definition detach_rev :: "u32 \<Rightarrow> pgwt_exact_probe_core \<Rightarrow> pgwt_exact_probe_core" where
  "detach_rev m c = detach_masked m (rev [0..<PGWT_EXACT_PROBE_COUNT]) c"

definition attach_one :: "pgwt_exact_probe_core \<Rightarrow> nat \<Rightarrow> link \<Rightarrow> pgwt_exact_probe_core" where
  "attach_one c i l =
     c\<lparr>attach_outcomes := (attach_outcomes c)(i := ATTACHED),
       attach_errno := (attach_errno c)(i := 0),
       links := (links c)(i := Some l),
       attached_mask := attached_mask c OR PGWT_EXACT_PROBE_BIT i,
       probe_calls := probe_calls c @ [CallAttach i l]\<rparr>"

fun attach_loop :: "attach_fn \<Rightarrow> u32 \<Rightarrow> nat list \<Rightarrow> pgwt_exact_probe_core \<Rightarrow> u32
    \<Rightarrow> bool \<times> u32 \<times> pgwt_exact_probe_core" where
  "attach_loop att m [] c new_mask = (True, new_mask, c)"
| "attach_loop att m (i # is) c new_mask =
     (if m AND PGWT_EXACT_PROBE_BIT i = 0 \<or> attached_mask c AND PGWT_EXACT_PROBE_BIT i \<noteq> 0
      then attach_loop att m is c new_mask
      else case att i of
        Inl err \<Rightarrow>
          (False, 0,
           detach_rev new_mask
             (c\<lparr>attach_outcomes := (attach_outcomes c)(i := ATTACH_FAILED),
                attach_errno := (attach_errno c)(i := err)\<rparr>))
      | Inr l \<Rightarrow> attach_loop att m is (attach_one c i l) (new_mask OR PGWT_EXACT_PROBE_BIT i))"

definition attach_missing :: "attach_fn \<Rightarrow> pgwt_exact_probe_core \<Rightarrow> u32
    \<Rightarrow> bool \<times> u32 \<times> pgwt_exact_probe_core" where
  "attach_missing att c m = attach_loop att m [0..<PGWT_EXACT_PROBE_COUNT] c 0"

section \<open>The public operations\<close>

definition pgwt_exact_probe_acquire_mask :: "bool \<Rightarrow> bool \<Rightarrow> u32" where
  "pgwt_exact_probe_acquire_mask lightweight_mode skip_usdt =
     (if lightweight_mode \<or> skip_usdt then PGWT_EXACT_PROBE_ATTR_MASK else PGWT_EXACT_PROBE_ALL_MASK)"

definition pgwt_exact_probe_core_pin ::
  "attach_fn \<Rightarrow> pgwt_exact_probe_core \<Rightarrow> u32 \<Rightarrow> u64 \<Rightarrow> bool \<times> pgwt_exact_probe_core" where
  "pgwt_exact_probe_core_pin att c m generation =
     (case attach_missing att c m of
        (False, _, c') \<Rightarrow> (False, c')
      | (True, _, c') \<Rightarrow>
          let c' = c'\<lparr>pinned_mask := pinned_mask c' OR m\<rparr>
          in (True, if generation \<noteq> 0 then c'\<lparr>core_generation := generation\<rparr> else c'))"

fun best_effort_loop :: "attach_fn \<Rightarrow> u32 \<Rightarrow> nat list \<Rightarrow> pgwt_exact_probe_core \<Rightarrow> u32
    \<Rightarrow> u32 \<times> pgwt_exact_probe_core" where
  "best_effort_loop att m [] c pinned = (pinned, c)"
| "best_effort_loop att m (i # is) c pinned =
     (let bit = PGWT_EXACT_PROBE_BIT i
      in if m AND bit = 0 \<or> pinned AND bit \<noteq> 0 then best_effort_loop att m is c pinned
         else case attach_missing att c bit of
             (False, _, c') \<Rightarrow> best_effort_loop att m is c' pinned
           | (True, _, c') \<Rightarrow>
               best_effort_loop att m is (c'\<lparr>pinned_mask := pinned_mask c' OR bit\<rparr>) (pinned OR bit))"

definition pgwt_exact_probe_core_pin_best_effort ::
  "attach_fn \<Rightarrow> pgwt_exact_probe_core \<Rightarrow> u32 \<Rightarrow> u64 \<Rightarrow> u32 \<times> pgwt_exact_probe_core" where
  "pgwt_exact_probe_core_pin_best_effort att c m generation =
     (case best_effort_loop att m [0..<PGWT_EXACT_PROBE_COUNT] c (pinned_mask c AND m) of
        (pinned, c') \<Rightarrow>
          (pinned, if generation \<noteq> 0 \<and> pinned \<noteq> 0 then c'\<lparr>core_generation := generation\<rparr> else c'))"

fun optional_loop :: "attach_fn \<Rightarrow> u32 \<Rightarrow> nat list \<Rightarrow> pgwt_exact_probe_core \<Rightarrow> pgwt_exact_probe_core" where
  "optional_loop att m [] c = c"
| "optional_loop att m (i # is) c =
     (let bit = PGWT_EXACT_PROBE_BIT i
      in if m AND bit = 0 \<or> attached_mask c AND bit \<noteq> 0 then optional_loop att m is c
         else optional_loop att m is (snd (snd (attach_missing att c bit))))"

definition pgwt_exact_probe_core_acquire ::
  "attach_fn \<Rightarrow> pgwt_exact_probe_core \<Rightarrow> u32 \<Rightarrow> u64 \<Rightarrow> bool \<times> pgwt_exact_probe_core" where
  "pgwt_exact_probe_core_acquire att c m generation =
     (if generation = 0 then (False, c)
      else if consumers c \<noteq> 0 then
        (if core_generation c \<noteq> generation then (False, c)
         else (True, c\<lparr>consumers := consumers c + 1\<rparr>))
      else case attach_missing att c (m AND NOT PGWT_EXACT_PROBE_PHASE_MASK) of
          (False, _, c') \<Rightarrow> (False, c')
        | (True, _, c') \<Rightarrow>
            (True, optional_loop att (m AND PGWT_EXACT_PROBE_PHASE_MASK) [0..<PGWT_EXACT_PROBE_COUNT]
                     (c'\<lparr>core_generation := generation, consumers := 1\<rparr>)))"

definition pgwt_exact_probe_core_release :: "pgwt_exact_probe_core \<Rightarrow> pgwt_exact_probe_core" where
  "pgwt_exact_probe_core_release c =
     (if consumers c = 0 then c
      else let c = c\<lparr>consumers := consumers c - 1\<rparr>
           in if consumers c \<noteq> 0 then c
              else (detach_rev (attached_mask c AND NOT (pinned_mask c)) c)\<lparr>core_generation := 0\<rparr>)"

definition pgwt_exact_probe_core_unpin :: "pgwt_exact_probe_core \<Rightarrow> u32 \<Rightarrow> pgwt_exact_probe_core" where
  "pgwt_exact_probe_core_unpin c m =
     (let c = c\<lparr>pinned_mask := pinned_mask c AND NOT m\<rparr>
      in if consumers c \<noteq> 0 then c else detach_rev (attached_mask c AND m) c)"

definition pgwt_exact_probe_core_cleanup :: "pgwt_exact_probe_core \<Rightarrow> pgwt_exact_probe_core" where
  "pgwt_exact_probe_core_cleanup c =
     core_init\<lparr>probe_calls := probe_calls (detach_rev (attached_mask c) c)\<rparr>"

section \<open>Reading the masks as sets of indices\<close>

lemma bit_and_probe: "m AND PGWT_EXACT_PROBE_BIT i \<noteq> 0 \<longleftrightarrow> bit m i" if "i < 32"
  using that by (auto simp: PGWT_EXACT_PROBE_BIT_def bit_eq_iff [of _ 0] bit_simps)

lemma bit_probe: "i < 32 \<Longrightarrow> bit (PGWT_EXACT_PROBE_BIT i) j \<longleftrightarrow> j = i"
  by (auto simp: PGWT_EXACT_PROBE_BIT_def bit_simps)

lemma bit_clear_probe:
  "i < 32 \<Longrightarrow> bit (w AND NOT (PGWT_EXACT_PROBE_BIT i)) j \<longleftrightarrow> bit w j \<and> j \<noteq> i"
  by (auto simp: bit_and_iff bit_not_iff bit_probe dest: bit_imp_le_length)

lemma bit_set_probe: "i < 32 \<Longrightarrow> bit (w OR PGWT_EXACT_PROBE_BIT i) j \<longleftrightarrow> bit w j \<or> j = i"
  by (auto simp: bit_or_iff bit_probe)

lemma bit_u32_less: "bit (w :: u32) i \<Longrightarrow> i < 32"
  using bit_imp_le_length [of w i] by simp

section \<open>The invariant of the core\<close>

text \<open>
  The callback protocol: an attach callback for an index with no live link, a detach callback with
  exactly the live link. \<open>replay\<close> runs the recorded callbacks and fails on any violation.
\<close>

fun replay :: "probe_call list \<Rightarrow> (nat \<Rightarrow> link option) \<Rightarrow> (nat \<Rightarrow> link option) option" where
  "replay [] f = Some f"
| "replay (CallAttach i l # cs) f = (if f i = None then replay cs (f(i := Some l)) else None)"
| "replay (CallDetach i l # cs) f = (if f i \<noteq> None \<and> f i = l then replay cs (f(i := None)) else None)"

definition core_ok :: "pgwt_exact_probe_core \<Rightarrow> bool" where
  "core_ok c \<longleftrightarrow>
     (\<forall>i. bit (attached_mask c) i \<longleftrightarrow> links c i \<noteq> None) \<and>
     (\<forall>i. bit (attached_mask c) i \<longrightarrow> i < PGWT_EXACT_PROBE_COUNT) \<and>
     replay (probe_calls c) (\<lambda>_. None) = Some (links c)"

definition pins_ok :: "pgwt_exact_probe_core \<Rightarrow> bool" where
  "pins_ok c \<longleftrightarrow> (\<forall>i. bit (pinned_mask c) i \<longrightarrow> bit (attached_mask c) i)"

definition no_transients :: "pgwt_exact_probe_core \<Rightarrow> bool" where
  "no_transients c \<longleftrightarrow>
     (consumers c = 0 \<longrightarrow> (\<forall>i. bit (attached_mask c) i \<longrightarrow> bit (pinned_mask c) i))"

lemma replay_append:
  "replay (xs @ ys) f = (case replay xs f of None \<Rightarrow> None | Some g \<Rightarrow> replay ys g)"
proof (induction xs arbitrary: f)
  case (Cons x xs)
  then show ?case by (cases x) (auto simp del: fun_upd_apply split: option.splits)
qed simp

lemma core_ok_init: "core_ok core_init"
  by (simp add: core_ok_def core_init_def)

lemma core_ok_frame [frame_simps]:
  "core_ok (c\<lparr>pinned_mask := p\<rparr>) = core_ok c"
  "core_ok (c\<lparr>core_generation := g\<rparr>) = core_ok c"
  "core_ok (c\<lparr>consumers := n\<rparr>) = core_ok c"
  "core_ok (c\<lparr>core_generation := g, consumers := n\<rparr>) = core_ok c"
  by (simp_all add: core_ok_def)

lemma core_ok_detach_one:
  "core_ok c \<Longrightarrow> bit (attached_mask c) j \<Longrightarrow> core_ok (detach_one c j)"
  using bit_u32_less [of "attached_mask c" j]
  by (auto simp: core_ok_def detach_one_def bit_clear_probe replay_append)

lemma core_ok_attach_one:
  "core_ok c \<Longrightarrow> \<not> bit (attached_mask c) i \<Longrightarrow> i < PGWT_EXACT_PROBE_COUNT \<Longrightarrow>
   core_ok (attach_one c i l)"
  by (auto simp: core_ok_def attach_one_def bit_set_probe replay_append)

text \<open>What the detaching loops do.\<close>

lemma detach_masked_fields:
  assumes "\<forall>j\<in>set js. j < 32"
  shows "links (detach_masked m js c) = (\<lambda>i. if i \<in> set js \<and> bit m i then None else links c i)"
    and "bit (attached_mask (detach_masked m js c)) i \<longleftrightarrow>
           bit (attached_mask c) i \<and> \<not> (i \<in> set js \<and> bit m i)"
    and "pinned_mask (detach_masked m js c) = pinned_mask c"
    and "consumers (detach_masked m js c) = consumers c"
    and "core_generation (detach_masked m js c) = core_generation c"
proof -
  have "links (detach_masked m js c) = (\<lambda>i. if i \<in> set js \<and> bit m i then None else links c i) \<and>
    (\<forall>i. bit (attached_mask (detach_masked m js c)) i \<longleftrightarrow>
         bit (attached_mask c) i \<and> \<not> (i \<in> set js \<and> bit m i)) \<and>
    pinned_mask (detach_masked m js c) = pinned_mask c \<and>
    consumers (detach_masked m js c) = consumers c \<and>
    core_generation (detach_masked m js c) = core_generation c"
    using assms
  proof (induction js arbitrary: c)
    case (Cons j js)
    show ?case
    proof (cases "bit m j")
      case True
      then have "detach_masked m (j # js) c = detach_masked m js (detach_one c j)"
        using bit_and_probe [of j m] Cons.prems by simp
      then show ?thesis
        using Cons.IH [of "detach_one c j"] Cons.prems True
        by (auto simp: detach_one_def bit_clear_probe fun_eq_iff)
    next
      case False
      then have "detach_masked m (j # js) c = detach_masked m js c"
        using bit_and_probe [of j m] Cons.prems by simp
      then show ?thesis using Cons.IH [of c] Cons.prems False by (auto simp: fun_eq_iff)
    qed
  qed simp
  then show "links (detach_masked m js c) = (\<lambda>i. if i \<in> set js \<and> bit m i then None else links c i)"
    and "bit (attached_mask (detach_masked m js c)) i \<longleftrightarrow>
           bit (attached_mask c) i \<and> \<not> (i \<in> set js \<and> bit m i)"
    and "pinned_mask (detach_masked m js c) = pinned_mask c"
    and "consumers (detach_masked m js c) = consumers c"
    and "core_generation (detach_masked m js c) = core_generation c" by blast+
qed

lemma core_ok_detach_masked:
  "core_ok c \<Longrightarrow> distinct js \<Longrightarrow> (\<forall>j\<in>set js. j < 32 \<and> (bit m j \<longrightarrow> bit (attached_mask c) j)) \<Longrightarrow>
   core_ok (detach_masked m js c)"
proof (induction js arbitrary: c)
  case (Cons j js)
  show ?case
  proof (cases "bit m j")
    case True
    have "core_ok (detach_one c j)" using Cons.prems True by (intro core_ok_detach_one) auto
    moreover have "\<forall>k\<in>set js. bit m k \<longrightarrow> bit (attached_mask (detach_one c j)) k"
      using Cons.prems by (auto simp: detach_one_def bit_clear_probe)
    ultimately show ?thesis
      using Cons.IH [of "detach_one c j"] Cons.prems True bit_and_probe [of j m] by auto
  next
    case False
    then show ?thesis using Cons bit_and_probe [of j m] by auto
  qed
qed simp

lemma detach_rev_fields:
  "links (detach_rev m c) = (\<lambda>i. if i < 4 \<and> bit m i then None else links c i)"
  "bit (attached_mask (detach_rev m c)) i \<longleftrightarrow> bit (attached_mask c) i \<and> \<not> (i < 4 \<and> bit m i)"
  "pinned_mask (detach_rev m c) = pinned_mask c"
  "consumers (detach_rev m c) = consumers c"
  "core_generation (detach_rev m c) = core_generation c"
  using detach_masked_fields [of "rev [0..<4]" m c] by (auto simp: detach_rev_def fun_eq_iff)

lemma core_ok_detach_rev:
  "core_ok c \<Longrightarrow> (\<And>i. i < 4 \<Longrightarrow> bit m i \<Longrightarrow> bit (attached_mask c) i) \<Longrightarrow> core_ok (detach_rev m c)"
  unfolding detach_rev_def by (rule core_ok_detach_masked) auto

text \<open>What the attaching loop does: all requested probes, or nothing.\<close>

lemma attach_loop_spec:
  assumes "attach_loop att m is c nm = (ok, nm', c')" and "core_ok c"
    and "distinct is" and "\<forall>i\<in>set is. i < 4"
    and "\<forall>i. bit nm i \<longrightarrow> i < 4 \<and> bit (attached_mask c) i"
  shows "core_ok c' \<and> pinned_mask c' = pinned_mask c \<and> consumers c' = consumers c \<and>
         core_generation c' = core_generation c \<and>
         (if ok then (\<forall>i. bit (attached_mask c') i \<longleftrightarrow> bit (attached_mask c) i \<or> i \<in> set is \<and> bit m i) \<and>
                     (\<forall>i. bit (attached_mask c) i \<longrightarrow> links c' i = links c i)
          else links c' = (\<lambda>i. if bit nm i then None else links c i) \<and>
               (\<forall>i. bit (attached_mask c') i \<longleftrightarrow> bit (attached_mask c) i \<and> \<not> bit nm i))"
  using assms
proof (induction "is" arbitrary: c nm)
  case Nil
  then show ?case by auto
next
  case (Cons i ids)
  have i4: "i < 4" using Cons.prems by simp
  show ?case
  proof (cases "\<not> bit m i \<or> bit (attached_mask c) i")
    case True
    then have "attach_loop att m ids c nm = (ok, nm', c')"
      using Cons.prems(1) bit_and_probe [of i m] bit_and_probe [of i "attached_mask c"] i4 by auto
    then show ?thesis using Cons.IH [of c nm] Cons.prems True by auto
  next
    case False
    note new = this
    have unfold: "attach_loop att m (i # ids) c nm =
        (case att i of
           Inl err \<Rightarrow> (False, 0, detach_rev nm
             (c\<lparr>attach_outcomes := (attach_outcomes c)(i := ATTACH_FAILED),
                attach_errno := (attach_errno c)(i := err)\<rparr>))
         | Inr l \<Rightarrow> attach_loop att m ids (attach_one c i l) (nm OR PGWT_EXACT_PROBE_BIT i))"
      using new bit_and_probe [of i m] bit_and_probe [of i "attached_mask c"] i4 by auto
    show ?thesis
    proof (cases "att i")
      case (Inl err)
      let ?d = "c\<lparr>attach_outcomes := (attach_outcomes c)(i := ATTACH_FAILED),
                attach_errno := (attach_errno c)(i := err)\<rparr>"
      have res: "ok = False" "c' = detach_rev nm ?d"
        using Cons.prems(1) [unfolded unfold] Inl by auto
      have "core_ok ?d" using Cons.prems(2) by (simp add: core_ok_def)
      then have "core_ok (detach_rev nm ?d)"
        using Cons.prems(5) by (intro core_ok_detach_rev) auto
      then show ?thesis
        using res Cons.prems(5) by (auto simp: detach_rev_fields fun_eq_iff)
    next
      case (Inr l)
      let ?a = "attach_one c i l" and ?n = "nm OR PGWT_EXACT_PROBE_BIT i"
      have rec: "attach_loop att m ids ?a ?n = (ok, nm', c')"
        using Cons.prems(1) [unfolded unfold] Inr by simp
      have ba: "bit (attached_mask ?a) j \<longleftrightarrow> bit (attached_mask c) j \<or> j = i" for j
        using i4 by (auto simp: attach_one_def bit_set_probe)
      have bn: "bit ?n j \<longleftrightarrow> bit nm j \<or> j = i" for j
        using i4 by (auto simp: bit_set_probe)
      have la: "links ?a = (links c)(i := Some l)" by (simp add: attach_one_def)
      have ci: "links c i = None" using new Cons.prems(2) by (simp add: core_ok_def)
      have nmi: "\<not> bit nm i" using new Cons.prems(5) by blast
      have ok_a: "core_ok ?a"
        using Cons.prems(2) new i4 by (intro core_ok_attach_one) auto
      have "\<forall>j. bit ?n j \<longrightarrow> j < 4 \<and> bit (attached_mask ?a) j"
        using Cons.prems(5) ba bn i4 by auto
      from Cons.IH [OF rec ok_a _ _ this] Cons.prems(3,4)
      show ?thesis
        using ba bn la ci nmi new by (auto simp: attach_one_def fun_eq_iff split: if_splits)
    qed
  qed
qed

lemma attach_missing_spec:
  assumes "attach_missing att c m = (ok, nm, c')" and "core_ok c"
  shows "core_ok c'" and "pinned_mask c' = pinned_mask c" and "consumers c' = consumers c"
    and "core_generation c' = core_generation c"
    and "ok \<Longrightarrow> bit (attached_mask c') i \<longleftrightarrow> bit (attached_mask c) i \<or> i < 4 \<and> bit m i"
    and "ok \<Longrightarrow> bit (attached_mask c) i \<Longrightarrow> links c' i = links c i"
    and "\<not> ok \<Longrightarrow> links c' = links c"
    and "\<not> ok \<Longrightarrow> attached_mask c' = attached_mask c"
  using attach_loop_spec [of att m "[0..<4]" c 0 ok nm c'] assms
  by (auto simp: attach_missing_def intro!: bit_word_eqI)


section \<open>Every operation keeps the invariant\<close>

definition core_inv :: "pgwt_exact_probe_core \<Rightarrow> bool" where
  "core_inv c \<longleftrightarrow> core_ok c \<and> pins_ok c \<and> no_transients c"

definition valid_mask :: "u32 \<Rightarrow> bool" where
  "valid_mask m \<longleftrightarrow> m AND NOT PGWT_EXACT_PROBE_ALL_MASK = 0"

lemma bit_all_mask: "bit PGWT_EXACT_PROBE_ALL_MASK i \<longleftrightarrow> i < 4"
proof -
  have "PGWT_EXACT_PROBE_ALL_MASK = mask 4" by (simp add: mask_eq_exp_minus_1)
  then have "bit PGWT_EXACT_PROBE_ALL_MASK i = bit (mask 4 :: u32) i" by (rule arg_cong)
  also have "\<dots> \<longleftrightarrow> i < 4" unfolding bit_mask_iff by auto
  finally show ?thesis .
qed

lemma valid_mask_bit: "valid_mask m \<Longrightarrow> bit m i \<Longrightarrow> i < 4"
  unfolding valid_mask_def bit_eq_iff [of _ 0]
  using bit_all_mask [of i] bit_u32_less [of m i]
  by (auto simp: bit_and_iff bit_not_iff simp del: PGWT_EXACT_PROBE_ALL_MASK_def)

lemma core_invI:
  assumes "core_ok c" and "\<And>i. bit (pinned_mask c) i \<Longrightarrow> bit (attached_mask c) i"
    and "\<And>i. consumers c = 0 \<Longrightarrow> bit (attached_mask c) i \<Longrightarrow> bit (pinned_mask c) i"
  shows "core_inv c"
  using assms unfolding core_inv_def pins_ok_def no_transients_def by blast

lemma core_invD:
  assumes "core_inv c"
  shows "core_ok c" and "bit (pinned_mask c) i \<Longrightarrow> bit (attached_mask c) i"
    and "consumers c = 0 \<Longrightarrow> bit (attached_mask c) i \<Longrightarrow> bit (pinned_mask c) i"
    and "bit (attached_mask c) i \<Longrightarrow> i < 4"
  using assms unfolding core_inv_def pins_ok_def no_transients_def core_ok_def by auto

lemma core_inv_frame [frame_simps]: "core_inv (c\<lparr>core_generation := g\<rparr>) = core_inv c"
  by (simp add: core_inv_def pins_ok_def no_transients_def core_ok_frame)

lemma core_inv_init: "core_inv core_init"
  by (simp add: core_inv_def core_ok_init pins_ok_def no_transients_def) (simp add: core_init_def)

lemma core_inv_pin:
  assumes "core_inv c" and "valid_mask m" and "pgwt_exact_probe_core_pin att c m g = (ok, c')"
  shows "core_inv c'"
proof -
  obtain r nm c1 where am: "attach_missing att c m = (r, nm, c1)" by (cases "attach_missing att c m")
  note inv = core_invD [OF assms(1)]
  note sp = attach_missing_spec [OF am inv(1)]
  let ?c2 = "if r then c1\<lparr>pinned_mask := pinned_mask c1 OR m\<rparr> else c1"
  have "core_inv ?c2"
  proof (rule core_invI)
    fix i
    show "bit (pinned_mask ?c2) i \<Longrightarrow> bit (attached_mask ?c2) i"
      using inv(2) [of i] sp(2) sp(5) [of i] sp(8) valid_mask_bit [OF assms(2), of i]
      by (cases r) (auto simp: bit_or_iff)
    show "consumers ?c2 = 0 \<Longrightarrow> bit (attached_mask ?c2) i \<Longrightarrow> bit (pinned_mask ?c2) i"
      using inv(3) [of i] sp(2,3) sp(5) [of i] sp(8) by (cases r) (auto simp: bit_or_iff)
  qed (use sp(1) in \<open>simp add: frame_simps\<close>)
  moreover have "c' = ?c2 \<or> c' = ?c2\<lparr>core_generation := g\<rparr>"
    using assms(3) am by (cases r) (auto simp: pgwt_exact_probe_core_pin_def Let_def split: if_splits)
  ultimately show ?thesis by (auto simp only: core_inv_frame)
qed

lemma best_effort_inv:
  assumes "core_inv c" and "\<forall>i\<in>set js. i < 4" and "best_effort_loop att m js c p = (p', c')"
  shows "core_inv c'"
  using assms
proof (induction js arbitrary: c p)
  case (Cons i js)
  let ?b = "PGWT_EXACT_PROBE_BIT i"
  obtain r nm c1 where am: "attach_missing att c ?b = (r, nm, c1)"
    by (cases "attach_missing att c ?b")
  note inv = core_invD [OF Cons.prems(1)]
  note sp = attach_missing_spec [OF am inv(1)]
  have i4: "i < 4" using Cons.prems by simp
  let ?c2 = "if r then c1\<lparr>pinned_mask := pinned_mask c1 OR ?b\<rparr> else c1"
  have step: "core_inv ?c2"
  proof (rule core_invI)
    fix j
    show "bit (pinned_mask ?c2) j \<Longrightarrow> bit (attached_mask ?c2) j"
      using inv(2) [of j] sp(2) sp(5) [of j] sp(8) i4
      by (cases r) (auto simp: bit_set_probe bit_probe)
    show "consumers ?c2 = 0 \<Longrightarrow> bit (attached_mask ?c2) j \<Longrightarrow> bit (pinned_mask ?c2) j"
      using inv(3) [of j] sp(2,3) sp(5) [of j] sp(8) i4
      by (cases r) (auto simp: bit_set_probe bit_probe)
  qed (use sp(1) in \<open>simp add: frame_simps\<close>)
  show ?case
    using Cons.prems Cons.IH [of c p] Cons.IH [of c1 p]
      Cons.IH [of "c1\<lparr>pinned_mask := pinned_mask c1 OR ?b\<rparr>" "p OR ?b"] am step
    by (cases r) (auto simp: Let_def split: if_splits)
qed simp

lemma core_inv_pin_best_effort:
  assumes "core_inv c" and "pgwt_exact_probe_core_pin_best_effort att c m g = (p, c')"
  shows "core_inv c'"
proof -
  obtain q c1 where be: "best_effort_loop att m [0..<4] c (pinned_mask c AND m) = (q, c1)"
    by (cases "best_effort_loop att m [0..<4] c (pinned_mask c AND m)")
  have "core_inv c1" using best_effort_inv [OF assms(1) _ be] by simp
  then show ?thesis
    using assms(2) be by (auto simp: pgwt_exact_probe_core_pin_best_effort_def core_inv_frame split: if_splits)
qed

lemma optional_loop_spec:
  assumes "core_ok c" and "\<forall>i\<in>set js. i < 4"
  shows "core_ok (optional_loop att m js c) \<and>
         pinned_mask (optional_loop att m js c) = pinned_mask c \<and>
         consumers (optional_loop att m js c) = consumers c \<and>
         core_generation (optional_loop att m js c) = core_generation c \<and>
         (\<forall>i. bit (attached_mask c) i \<longrightarrow> bit (attached_mask (optional_loop att m js c)) i \<and>
              links (optional_loop att m js c) i = links c i)"
  using assms
proof (induction js arbitrary: c)
  case (Cons i js)
  let ?b = "PGWT_EXACT_PROBE_BIT i"
  obtain r nm c1 where am: "attach_missing att c ?b = (r, nm, c1)"
    by (cases "attach_missing att c ?b")
  note sp = attach_missing_spec [OF am Cons.prems(1)]
  have keep: "\<forall>j. bit (attached_mask c) j \<longrightarrow> bit (attached_mask c1) j \<and> links c1 j = links c j"
    using sp(5,6,7,8) by (cases r) auto
  show ?case
    using Cons.IH [of c] Cons.IH [of c1] Cons.prems am sp(1,2,3,4) keep by (auto simp: Let_def)
qed simp

lemma acquire_spec:
  assumes "core_inv c" and "pgwt_exact_probe_core_acquire att c m g = (ok, c')"
  shows "core_ok c'" and "pins_ok c'" and "pinned_mask c' = pinned_mask c"
    and "ok \<Longrightarrow> consumers c' = consumers c + 1" and "ok \<Longrightarrow> core_generation c' = g \<and> g \<noteq> 0"
    and "\<not> ok \<Longrightarrow> links c' = links c \<and> attached_mask c' = attached_mask c \<and>
         consumers c' = consumers c \<and> core_generation c' = core_generation c"
    and "bit (attached_mask c) i \<Longrightarrow> bit (attached_mask c') i \<and> links c' i = links c i"
    and "ok \<Longrightarrow> consumers c = 0 \<Longrightarrow> i < 4 \<Longrightarrow> bit m i \<Longrightarrow> \<not> bit PGWT_EXACT_PROBE_PHASE_MASK i \<Longrightarrow>
         bit (attached_mask c') i"
proof -
  let ?req = "m AND NOT PGWT_EXACT_PROBE_PHASE_MASK"
  obtain r nm c1 where am: "attach_missing att c ?req = (r, nm, c1)"
    by (cases "attach_missing att c ?req")
  have inv: "core_ok c" "pins_ok c" using assms(1) by (simp_all add: core_inv_def)
  note sp = attach_missing_spec [OF am inv(1)]
  let ?c2 = "c1\<lparr>core_generation := g, consumers := 1\<rparr>"
  have "core_ok ?c2" using sp(1) by (simp add: frame_simps)
  note ol = optional_loop_spec [OF this, of "[0..<4]" att "m AND PGWT_EXACT_PROBE_PHASE_MASK"]
  have keep: "\<forall>j. bit (attached_mask c) j \<longrightarrow> bit (attached_mask c1) j \<and> links c1 j = links c j"
    using sp(5,6,7,8) by (cases r) auto
  have req: "r \<Longrightarrow> i < 4 \<Longrightarrow> bit m i \<Longrightarrow> \<not> bit PGWT_EXACT_PROBE_PHASE_MASK i \<Longrightarrow> bit (attached_mask c1) i" for i
    using sp(5) bit_u32_less [of m i]
    by (auto simp: bit_and_iff bit_not_iff simp del: PGWT_EXACT_PROBE_PHASE_MASK_def)
  note defs = pgwt_exact_probe_core_acquire_def pins_ok_def
  show "core_ok c'" "pins_ok c'" "pinned_mask c' = pinned_mask c"
    "ok \<Longrightarrow> consumers c' = consumers c + 1" "ok \<Longrightarrow> core_generation c' = g \<and> g \<noteq> 0"
    "\<not> ok \<Longrightarrow> links c' = links c \<and> attached_mask c' = attached_mask c \<and>
         consumers c' = consumers c \<and> core_generation c' = core_generation c"
    "bit (attached_mask c) i \<Longrightarrow> bit (attached_mask c') i \<and> links c' i = links c i"
    "ok \<Longrightarrow> consumers c = 0 \<Longrightarrow> i < 4 \<Longrightarrow> bit m i \<Longrightarrow> \<not> bit PGWT_EXACT_PROBE_PHASE_MASK i \<Longrightarrow>
         bit (attached_mask c') i"
    using assms(2) am sp(1-4) sp(7,8) ol keep inv req [of i]
    by (auto simp: defs frame_simps split: if_splits bool.splits)
qed

lemma core_inv_acquire:
  assumes "core_inv c" and "pgwt_exact_probe_core_acquire att c m g = (ok, c')"
    and "consumers c \<noteq> - 1"
  shows "core_inv c'"
proof -
  have "consumers c' = 0 \<Longrightarrow> \<not> ok"
    using acquire_spec(4) [OF assms(1,2)] assms(3) by (auto simp: eq_neg_iff_add_eq_0)
  then show ?thesis
    using acquire_spec(1,2,3,6) [OF assms(1,2)] assms(1)
    by (auto simp: core_inv_def no_transients_def)
qed

lemma release_last:
  assumes "core_inv c" and "consumers c = 1"
  shows "core_ok (pgwt_exact_probe_core_release c)"
    and "bit (attached_mask (pgwt_exact_probe_core_release c)) i \<longleftrightarrow> bit (pinned_mask c) i"
    and "links (pgwt_exact_probe_core_release c) =
           (\<lambda>i. if bit (pinned_mask c) i then links c i else None)"
    and "pinned_mask (pgwt_exact_probe_core_release c) = pinned_mask c"
    and "consumers (pgwt_exact_probe_core_release c) = 0"
    and "core_generation (pgwt_exact_probe_core_release c) = 0"
proof -
  let ?c = "c\<lparr>consumers := 0\<rparr>"
  let ?m = "attached_mask c AND NOT (pinned_mask c)"
  note inv = core_invD [OF assms(1)]
  have rel: "pgwt_exact_probe_core_release c = (detach_rev ?m ?c)\<lparr>core_generation := 0\<rparr>"
    using assms(2) by (simp add: pgwt_exact_probe_core_release_def Let_def)
  have m: "bit ?m i \<longleftrightarrow> bit (attached_mask c) i \<and> \<not> bit (pinned_mask c) i" for i
    using bit_u32_less [of "attached_mask c" i] by (auto simp: bit_and_iff bit_not_iff)
  have "core_ok (detach_rev ?m ?c)"
    by (rule core_ok_detach_rev) (use inv(1) in \<open>simp_all add: frame_simps m\<close>)
  then show "core_ok (pgwt_exact_probe_core_release c)" by (simp add: rel frame_simps)
  show "bit (attached_mask (pgwt_exact_probe_core_release c)) i \<longleftrightarrow> bit (pinned_mask c) i"
    using inv(2,4) [of i] by (auto simp: rel detach_rev_fields m)
  have "links c i = None" if "\<not> bit (attached_mask c) i" for i
    using inv(1) that by (simp add: core_ok_def)
  then have lk: "(if i < 4 \<and> bit ?m i then None else links c i) =
      (if bit (pinned_mask c) i then links c i else None)" for i
    using inv(2,4) [of i] by (auto simp: m)
  have "links (pgwt_exact_probe_core_release c) = (\<lambda>i. if i < 4 \<and> bit ?m i then None else links c i)"
    by (rule ext) (simp add: rel detach_rev_fields)
  then show "links (pgwt_exact_probe_core_release c) =
      (\<lambda>i. if bit (pinned_mask c) i then links c i else None)"
    by (simp only: lk)
qed (use assms(2) in \<open>simp_all add: pgwt_exact_probe_core_release_def Let_def detach_rev_fields\<close>)

lemma release_not_last:
  "consumers c \<noteq> 1 \<Longrightarrow> pgwt_exact_probe_core_release c =
     (if consumers c = 0 then c else c\<lparr>consumers := consumers c - 1\<rparr>)"
  by (simp add: pgwt_exact_probe_core_release_def Let_def)

lemma core_inv_release:
  assumes "core_inv c" shows "core_inv (pgwt_exact_probe_core_release c)"
proof (cases "consumers c = 1")
  case True
  note rel = release_last [OF assms True]
  show ?thesis by (rule core_invI) (use rel in auto)
next
  case False
  then show ?thesis
    using core_invD [OF assms] assms
    by (auto simp: release_not_last frame_simps intro: core_invI)
qed

lemma core_inv_unpin:
  assumes "core_inv c" shows "core_inv (pgwt_exact_probe_core_unpin c m)"
proof -
  let ?c = "c\<lparr>pinned_mask := pinned_mask c AND NOT m\<rparr>"
  let ?u = "pgwt_exact_probe_core_unpin c m"
  note inv = core_invD [OF assms]
  have ok: "core_ok (detach_rev (attached_mask c AND m) ?c)"
    by (rule core_ok_detach_rev) (use inv(1) in \<open>simp_all add: frame_simps bit_and_iff\<close>)
  have un: "?u = (if consumers c \<noteq> 0 then ?c else detach_rev (attached_mask c AND m) ?c)"
    by (simp add: pgwt_exact_probe_core_unpin_def Let_def)
  have b: "bit (pinned_mask ?u) i \<longleftrightarrow> bit (pinned_mask c) i \<and> \<not> bit m i" for i
    using bit_u32_less [of "pinned_mask c" i]
    by (auto simp: un detach_rev_fields bit_and_iff bit_not_iff)
  have a: "bit (attached_mask ?u) i \<longleftrightarrow> bit (attached_mask c) i \<and> (consumers c = 0 \<longrightarrow> \<not> bit m i)" for i
    using inv(4) [of i] by (auto simp: un detach_rev_fields bit_and_iff)
  have n: "consumers ?u = consumers c" by (simp add: un detach_rev_fields)
  show ?thesis
  proof (rule core_invI)
    fix i
    show "bit (pinned_mask ?u) i \<Longrightarrow> bit (attached_mask ?u) i" using inv(2) [of i] a b by blast
    show "consumers ?u = 0 \<Longrightarrow> bit (attached_mask ?u) i \<Longrightarrow> bit (pinned_mask ?u) i"
      using inv(3) [of i] a b n by simp
  qed (use ok inv(1) in \<open>simp add: un frame_simps\<close>)
qed

text \<open>After cleanup the replayed callbacks leave no live link: everything attached was detached.\<close>

lemma cleanup_replay:
  assumes "core_ok c"
  shows "core_ok (pgwt_exact_probe_core_cleanup c)"
proof -
  let ?d = "detach_rev (attached_mask c) c"
  have "core_ok ?d" by (rule core_ok_detach_rev [OF assms])
  moreover have "links ?d = (\<lambda>_. None)"
    using assms by (auto simp: detach_rev_fields fun_eq_iff core_ok_def)
  ultimately show ?thesis
    by (simp add: pgwt_exact_probe_core_cleanup_def core_ok_def core_init_def)
qed


section \<open>Runs of the public operations\<close>

text \<open>
  A run is a sequence of calls as the daemon makes them: startup pins, window acquisitions and
  releases, and unpins. The attach callback may answer differently at every call.
\<close>

datatype probe_op =
  OpPin attach_fn u32 u64
| OpPinBestEffort attach_fn u32 u64
| OpAcquire attach_fn u32 u64
| OpRelease
| OpUnpin u32

fun apply_op :: "probe_op \<Rightarrow> pgwt_exact_probe_core \<Rightarrow> pgwt_exact_probe_core" where
  "apply_op (OpPin att m g) c = snd (pgwt_exact_probe_core_pin att c m g)"
| "apply_op (OpPinBestEffort att m g) c = snd (pgwt_exact_probe_core_pin_best_effort att c m g)"
| "apply_op (OpAcquire att m g) c = snd (pgwt_exact_probe_core_acquire att c m g)"
| "apply_op OpRelease c = pgwt_exact_probe_core_release c"
| "apply_op (OpUnpin m) c = pgwt_exact_probe_core_unpin c m"

fun op_mask_ok :: "probe_op \<Rightarrow> bool" where
  "op_mask_ok (OpPin att m g) = valid_mask m"
| "op_mask_ok op = True"

text \<open>One call changes the consumer count by at most one.\<close>

lemma consumers_pin: "core_inv c \<Longrightarrow> consumers (snd (pgwt_exact_probe_core_pin att c m g)) = consumers c"
  using attach_missing_spec(3) [OF _ core_invD(1)]
  by (cases "attach_missing att c m") (auto simp: pgwt_exact_probe_core_pin_def Let_def split: bool.splits)

lemma consumers_best_effort:
  "core_inv c \<Longrightarrow> \<forall>i\<in>set js. i < 4 \<Longrightarrow> consumers (snd (best_effort_loop att m js c p)) = consumers c"
proof (induction js arbitrary: c p)
  case (Cons i js)
  let ?b = "PGWT_EXACT_PROBE_BIT i"
  obtain r nm c1 where am: "attach_missing att c ?b = (r, nm, c1)"
    by (cases "attach_missing att c ?b")
  note cons = attach_missing_spec(3) [OF am core_invD(1) [OF Cons.prems(1)]]
  obtain p1 c2 where one: "best_effort_loop att m [i] c p = (p1, c2)"
    by (cases "best_effort_loop att m [i] c p")
  have "core_inv c2" using best_effort_inv [OF Cons.prems(1) _ one] Cons.prems(2) by simp
  moreover have "consumers c2 = consumers c"
    using one am cons by (cases r) (auto simp: Let_def split: if_splits)
  moreover have "best_effort_loop att m (i # js) c p = best_effort_loop att m js c2 p1"
    using one am by (cases r) (auto simp: Let_def split: if_splits)
  ultimately show ?case using Cons.IH [of c2 p1] Cons.prems(2) by simp
qed simp

lemma consumers_apply_op:
  assumes "core_inv c"
  shows "consumers (apply_op op c) = consumers c \<or> consumers (apply_op op c) = consumers c + 1 \<or>
         consumers c \<noteq> 0 \<and> consumers (apply_op op c) = consumers c - 1"
proof (cases op)
  case (OpPin att m g)
  then show ?thesis using consumers_pin [OF assms] by simp
next
  case (OpPinBestEffort att m g)
  then show ?thesis
    using consumers_best_effort [OF assms, of "[0..<4]" att m "pinned_mask c AND m"]
    by (simp add: pgwt_exact_probe_core_pin_best_effort_def case_prod_unfold)
next
  case (OpAcquire att m g)
  then show ?thesis
    using acquire_spec(4,6) [OF assms, of att m g]
    by (cases "pgwt_exact_probe_core_acquire att c m g") auto
next
  case OpRelease
  then show ?thesis
    using release_last(5) [OF assms] release_not_last [of c] by (cases "consumers c = 1") auto
next
  case (OpUnpin m)
  then show ?thesis by (simp add: pgwt_exact_probe_core_unpin_def Let_def detach_rev_fields)
qed

lemma core_inv_apply_op:
  "core_inv c \<Longrightarrow> op_mask_ok op \<Longrightarrow> consumers c \<noteq> - 1 \<Longrightarrow> core_inv (apply_op op c)"
  by (cases op) (simp_all add: core_inv_release core_inv_unpin core_inv_pin [OF _ _ surjective_pairing]
      core_inv_pin_best_effort [OF _ surjective_pairing] core_inv_acquire [OF _ surjective_pairing])

lemma core_inv_run:
  assumes "core_inv c" and "\<forall>op\<in>set ops. op_mask_ok op"
    and "unat (consumers c) + length ops < 2 ^ 32"
  shows "core_inv (fold apply_op ops c)"
  using assms
proof (induction ops arbitrary: c)
  case (Cons op ops)
  have ne: "consumers c \<noteq> - 1" using Cons.prems(3) by (auto simp: unsigned_minus_1_eq_mask mask_eq_exp_minus_1)
  have inv: "core_inv (apply_op op c)" using Cons.prems ne by (intro core_inv_apply_op) auto
  have "unat (consumers (apply_op op c)) \<le> unat (consumers c) + 1"
    using consumers_apply_op [OF Cons.prems(1), of op] unat_plus_simple [of "consumers c" 1]
      measure_unat [of "consumers c"]
    by (auto simp: unat_word_ariths unat_minus_one)
  then show ?case using Cons inv by simp
qed simp

text \<open>A window acquired with no consumer and released again leaves the links as they were.\<close>

lemma acquire_release_links:
  assumes "core_inv c" and "consumers c = 0"
    and "pgwt_exact_probe_core_acquire att c m g = (True, c')"
  shows "links (pgwt_exact_probe_core_release c') = links c \<and>
         attached_mask (pgwt_exact_probe_core_release c') = attached_mask c \<and>
         consumers (pgwt_exact_probe_core_release c') = 0 \<and>
         core_generation (pgwt_exact_probe_core_release c') = 0"
proof -
  note sp = acquire_spec [OF assms(1,3)]
  have one: "consumers c' = 1" using sp(4) assms(2) by simp
  have "core_inv c'"
    by (rule core_invI) (use sp(1,2) one in \<open>auto simp: pins_ok_def\<close>)
  note rel = release_last [OF this one]
  note inv = core_invD [OF assms(1)]
  have pin: "bit (pinned_mask c) i \<longleftrightarrow> bit (attached_mask c) i" for i
    using inv(2,3) [of i] assms(2) by blast
  have "bit (attached_mask c) i \<longleftrightarrow> links c i \<noteq> None" for i using inv(1) by (simp add: core_ok_def)
  then have "(if bit (pinned_mask c') i then links c' i else None) = links c i" for i
    using sp(3) sp(7) [of i] pin [of i] by auto
  then have "links (pgwt_exact_probe_core_release c') = links c" using rel(3) by presburger
  moreover have "attached_mask (pgwt_exact_probe_core_release c') = attached_mask c"
    by (rule bit_word_eqI) (use rel(2) sp(3) pin in simp)
  ultimately show ?thesis using rel(5,6) by simp
qed

section \<open>Properties\<close>

text \<open>
  C21: across any sequence of pin, best-effort pin, acquire, release and unpin calls, whatever the
  attach callback answers, the attached mask, the link table and the recorded callbacks agree (so no
  link is leaked, attached twice or detached twice), every pinned probe is attached, and with no
  consumer left nothing but the pinned probes is attached.
\<close>

theorem exact_probe_run_invariant:
  assumes "\<forall>op\<in>set ops. op_mask_ok op" and "length ops < 2 ^ 32"
  shows "let c = fold apply_op ops core_init in
     (\<forall>i. bit (attached_mask c) i \<longleftrightarrow> links c i \<noteq> None) \<and>
     replay (probe_calls c) (\<lambda>_. None) = Some (links c) \<and>
     (\<forall>i. bit (pinned_mask c) i \<longrightarrow> bit (attached_mask c) i) \<and>
     (consumers c = 0 \<longrightarrow> attached_mask c = pinned_mask c)"
proof -
  let ?c = "fold apply_op ops core_init"
  have "core_inv ?c"
    by (rule core_inv_run [OF core_inv_init assms(1)]) (use assms(2) in \<open>simp add: core_init_def\<close>)
  then show ?thesis
    unfolding Let_def core_inv_def core_ok_def pins_ok_def no_transients_def
    by (auto intro: bit_word_eqI)
qed

theorem exact_probe_run_invariant_witness:
  "let c = fold apply_op [OpPin (\<lambda>i. Inr (i + 100)) 0x1 0, OpAcquire (\<lambda>i. if i = 3 then Inl 12 else Inr i) 0xF 7,
                          OpRelease] core_init in
     (\<forall>i. bit (attached_mask c) i \<longleftrightarrow> links c i \<noteq> None) \<and>
     replay (probe_calls c) (\<lambda>_. None) = Some (links c) \<and>
     (\<forall>i. bit (pinned_mask c) i \<longrightarrow> bit (attached_mask c) i) \<and>
     (consumers c = 0 \<longrightarrow> attached_mask c = pinned_mask c)"
  by (rule exact_probe_run_invariant) (simp_all add: valid_mask_def)

text \<open>
  C22: a window acquisition is all or nothing for the attribution probes: when the attach callback
  fails, the links, the attached mask, the consumer count and the generation are exactly what they
  were before; when it succeeds, every requested non-phase probe is attached under the new generation,
  and no probe that was already attached lost its link.
\<close>

theorem exact_probe_acquire_atomic:
  assumes "core_inv c"
  shows "case pgwt_exact_probe_core_acquire att c m g of
     (False, c') \<Rightarrow> links c' = links c \<and> attached_mask c' = attached_mask c \<and>
                   pinned_mask c' = pinned_mask c \<and> consumers c' = consumers c \<and>
                   core_generation c' = core_generation c
   | (True, c') \<Rightarrow> consumers c' = consumers c + 1 \<and> core_generation c' = g \<and> g \<noteq> 0 \<and>
                  (\<forall>i. bit (attached_mask c) i \<longrightarrow> links c' i = links c i) \<and>
                  (consumers c = 0 \<longrightarrow>
                     (\<forall>i<4. bit m i \<and> \<not> bit PGWT_EXACT_PROBE_PHASE_MASK i \<longrightarrow> links c' i \<noteq> None))"
proof -
  obtain ok c' where acq: "pgwt_exact_probe_core_acquire att c m g = (ok, c')"
    by (cases "pgwt_exact_probe_core_acquire att c m g")
  note sp = acquire_spec [OF assms acq]
  have "core_ok c'" by (rule sp(1))
  then have "bit (attached_mask c') i \<longleftrightarrow> links c' i \<noteq> None" for i by (simp add: core_ok_def)
  with acq sp(3-8) show ?thesis
    by (cases ok) (auto simp del: PGWT_EXACT_PROBE_PHASE_MASK_def)
qed

theorem exact_probe_acquire_atomic_witness:
  "case pgwt_exact_probe_core_acquire (\<lambda>i. if i = 1 then Inl 2 else Inr i) core_init 0xF 7 of
     (False, c') \<Rightarrow> links c' = links core_init \<and> attached_mask c' = attached_mask core_init \<and>
                   pinned_mask c' = pinned_mask core_init \<and> consumers c' = consumers core_init \<and>
                   core_generation c' = core_generation core_init
   | (True, c') \<Rightarrow> consumers c' = consumers core_init + 1 \<and> core_generation c' = 7 \<and> (7::u64) \<noteq> 0 \<and>
                  (\<forall>i. bit (attached_mask core_init) i \<longrightarrow> links c' i = links core_init i) \<and>
                  (consumers core_init = 0 \<longrightarrow>
                     (\<forall>i<4. bit (0xF::u32) i \<and> \<not> bit PGWT_EXACT_PROBE_PHASE_MASK i \<longrightarrow> links c' i \<noteq> None))"
  by (rule exact_probe_acquire_atomic [OF core_inv_init])

text \<open>
  An acquired window leaves nothing behind: acquiring with no consumer and releasing again gives
  back exactly the links and the attached mask there were before the window, with no consumer and
  generation zero, although optional probes may have been attached in between.
\<close>

theorem exact_probe_acquire_release_restores:
  assumes "core_inv c" and "consumers c = 0"
    and "pgwt_exact_probe_core_acquire att c m g = (True, c')"
  shows "links (pgwt_exact_probe_core_release c') = links c \<and>
         attached_mask (pgwt_exact_probe_core_release c') = attached_mask c \<and>
         consumers (pgwt_exact_probe_core_release c') = 0 \<and>
         core_generation (pgwt_exact_probe_core_release c') = 0"
  by (rule acquire_release_links [OF assms])

theorem exact_probe_acquire_release_restores_witness:
  "let c' = snd (pgwt_exact_probe_core_acquire (\<lambda>i. Inr i) core_init 0xF 7) in
     links (pgwt_exact_probe_core_release c') = links core_init \<and>
     attached_mask (pgwt_exact_probe_core_release c') = attached_mask core_init \<and>
     consumers (pgwt_exact_probe_core_release c') = 0 \<and>
     core_generation (pgwt_exact_probe_core_release c') = 0"
  unfolding Let_def
  by (rule exact_probe_acquire_release_restores [OF core_inv_init, of "\<lambda>i. Inr i" "0xF" 7])
    (simp_all add: core_init_def pgwt_exact_probe_core_acquire_def attach_missing_def upt_rec
      PGWT_EXACT_PROBE_BIT_def attach_one_def)

end
