(* ===== verification/Event_Sort.thy ===== *)
theory Event_Sort
  imports Trace_Event
begin

text \<open>
  The loader's stable sort of a merged event window: src/src/event_sort.h. Arrays are lists written
  with list updates at the indices the source writes, so that the in-place merge is modelled with
  its reads and writes on the same array. Allocation outcomes are parameters. The lemmas show that
  both passes compute the stable sort of the input by timestamp and that an allocation failure
  leaves a permutation of it.
\<close>

section \<open>The fixed-width pass\<close>

text \<open>
  The hooks record is the source's test seam (a null pointer is the record whose \<open>alloc_fail\<close> never
  fires). \<open>malloc_ok\<close> and \<open>realloc_ok\<close> say whether the C allocator serves a request of that many
  records.
\<close>

record pgwt_event_sort_hooks =
  alloc_fail :: "string \<Rightarrow> bool"
  fell_back :: bool
  moves :: nat

record sort_env =
  malloc_ok :: "nat \<Rightarrow> bool"
  realloc_ok :: "nat \<Rightarrow> bool"

definition pgwt_event_sort_fail :: "pgwt_event_sort_hooks \<Rightarrow> string \<Rightarrow> bool" where
  "pgwt_event_sort_fail h point = alloc_fail h point"

type_synonym evs = "pgwt_trace_event list"

text \<open>The three inner loops of one block: merge, then the rest of the left, then of the right side.\<close>

fun copy_span :: "evs \<Rightarrow> evs \<Rightarrow> nat \<Rightarrow> nat \<Rightarrow> nat \<Rightarrow> evs \<times> nat" where
  "copy_span src dst i 0 out = (dst, out)"
| "copy_span src dst i (Suc n) out = copy_span src (dst[out := src ! i]) (Suc i) n (Suc out)"

function merge_block :: "evs \<Rightarrow> evs \<Rightarrow> nat \<Rightarrow> nat \<Rightarrow> nat \<Rightarrow> nat \<Rightarrow> nat \<Rightarrow> evs" where
  "merge_block src dst left mid right endi out =
     (if left < mid \<and> right < endi then
        (if timestamp_ns (src ! left) \<le> timestamp_ns (src ! right)
         then merge_block src (dst[out := src ! left]) (left + 1) mid right endi (out + 1)
         else merge_block src (dst[out := src ! right]) left mid (right + 1) endi (out + 1))
      else let (dst, out) = copy_span src dst left (mid - left) out
           in fst (copy_span src dst right (endi - right) out))"
  by pat_completeness auto
termination by (relation "measure (\<lambda>(_, _, l, m, r, e, _). (m - l) + (e - r))") auto

declare merge_block.simps [simp del]

function fixed_pass :: "nat \<Rightarrow> nat \<Rightarrow> evs \<Rightarrow> evs \<Rightarrow> nat \<Rightarrow> evs" where
  "fixed_pass cnt width src dst base =
     (if base < cnt \<and> 0 < width then
        let mid = (if base + width < cnt then base + width else cnt);
            endi = (if base + 2 * width < cnt then base + 2 * width else cnt)
        in fixed_pass cnt width src (merge_block src dst base mid mid endi base) (base + 2 * width)
      else dst)"
  by pat_completeness auto
termination by (relation "measure (\<lambda>(c, _, _, _, b). c - b)") auto

declare fixed_pass.simps [simp del]

text \<open>The width loop swaps the two buffers after each pass; its result is the buffer \<open>src\<close> ends on.\<close>

function width_loop :: "nat \<Rightarrow> nat \<Rightarrow> evs \<Rightarrow> evs \<Rightarrow> evs" where
  "width_loop cnt width src dst =
     (if width < cnt \<and> 0 < width then
        let dst = fixed_pass cnt width src dst 0;
            (src, dst) = (dst, src)
        in if width > cnt div 2 then src else width_loop cnt (width * 2) src dst
      else src)"
  by pat_completeness auto
termination by (relation "measure (\<lambda>(c, w, _, _). c - w)") auto

declare width_loop.simps [simp del]

text \<open>\<open>tmp\<close> is the content of the fresh buffer, whatever it is.\<close>

definition pgwt_event_sort_fixed_width ::
  "sort_env \<Rightarrow> pgwt_event_sort_hooks \<Rightarrow> evs \<Rightarrow> evs \<Rightarrow> int \<times> evs" where
  "pgwt_event_sort_fixed_width env h tmp events =
     (let cnt = length events in
      if cnt < 2 then (0, events)
      else if pgwt_event_sort_fail h ''fallback'' then (-1, events)
      else if \<not> malloc_ok env cnt then (-1, events)
      else (0, width_loop cnt 1 events (take cnt (tmp @ events))))"

section \<open>The chain merge\<close>

text \<open>The forward scan that finds the end of a non-decreasing run.\<close>

function run_scan :: "evs \<Rightarrow> nat \<Rightarrow> nat" where
  "run_scan events i =
     (if i < length events \<and> timestamp_ns (events ! (i - 1)) \<le> timestamp_ns (events ! i)
      then run_scan events (i + 1) else i)"
  by pat_completeness auto
termination by (relation "measure (\<lambda>(es, i). length es - i)") auto

declare run_scan.simps [simp del]

text \<open>The backward scan for the prefix tail that outranks the run's first key.\<close>

fun tail_scan :: "evs \<Rightarrow> u64 \<Rightarrow> nat \<Rightarrow> nat" where
  "tail_scan events first 0 = 0"
| "tail_scan events first (Suc lo) =
     (if timestamp_ns (events ! lo) > first then tail_scan events first lo else Suc lo)"

definition INT_MAX :: nat where "INT_MAX = 2147483647"

text \<open>The doubling of the scratch capacity; it starts from a positive capacity.\<close>

function grow_scratch :: "nat \<Rightarrow> nat \<Rightarrow> nat" where
  "grow_scratch nxt tail =
     (if 0 < nxt \<and> nxt < tail then
        (if nxt > INT_MAX div 2 then tail else grow_scratch (nxt * 2) tail)
      else nxt)"
  by pat_completeness auto
termination by (relation "measure (\<lambda>(n, t). t - n)") auto

declare grow_scratch.simps [simp del]

text \<open>The in-place merge reads and writes the same array; \<open>scratch\<close> holds the saved tail.\<close>

function merge_loop :: "evs \<Rightarrow> nat \<Rightarrow> nat \<Rightarrow> evs \<Rightarrow> nat \<Rightarrow> nat \<Rightarrow> nat \<Rightarrow> evs \<times> nat \<times> nat \<times> nat" where
  "merge_loop scratch tail run_end events a b out =
     (if a < tail \<and> b < run_end then
        (if timestamp_ns (scratch ! a) \<le> timestamp_ns (events ! b)
         then merge_loop scratch tail run_end (events[out := scratch ! a]) (a + 1) b (out + 1)
         else merge_loop scratch tail run_end (events[out := events ! b]) a (b + 1) (out + 1))
      else (events, a, b, out))"
  by pat_completeness auto
termination by (relation "measure (\<lambda>(_, t, r, _, a, b, _). (t - a) + (r - b))") auto

declare merge_loop.simps [simp del]

text \<open>Three facts the termination of the chain needs: runs are non-empty, arrays keep their length.\<close>

lemma run_scan_ge: "i \<le> run_scan es i"
  by (induction es i rule: run_scan.induct) (subst run_scan.simps, auto)

lemma length_copy_span [simp]: "length (fst (copy_span src dst i n out)) = length dst"
  by (induction src dst i n out rule: copy_span.induct) auto

lemma length_merge_loop [simp]: "length (fst (merge_loop sc tail re es a b out)) = length es"
  by (induction sc tail re es a b out rule: merge_loop.induct) (subst merge_loop.simps, auto)

datatype chain_exit = ChainDone | ChainFellBack | ChainNoMem

function chain_loop :: "sort_env \<Rightarrow> nat \<Rightarrow> nat \<Rightarrow> nat \<Rightarrow> pgwt_event_sort_hooks \<Rightarrow> evs \<Rightarrow> nat
    \<Rightarrow> chain_exit \<times> evs \<times> pgwt_event_sort_hooks" where
  "chain_loop env budget scratch_cap tail_total h events sorted_n =
     (if sorted_n < length events then
        let run_end = run_scan events (sorted_n + 1);
            first = timestamp_ns (events ! sorted_n);
            lo = tail_scan events first sorted_n;
            tail = sorted_n - lo;
            tail_total = tail_total + tail
        in if tail_total > budget then (ChainFellBack, events, h)
           else
             let need = tail > scratch_cap;
                 nxt = (if need then grow_scratch (if scratch_cap \<noteq> 0 then scratch_cap else 64) tail
                        else scratch_cap)
             in if need \<and> (pgwt_event_sort_fail h ''scratch'' \<or> \<not> realloc_ok env nxt)
                then (ChainNoMem, events, h)
                else
                  let scratch = take tail (drop lo events);
                      (events, a, b, out) = merge_loop scratch tail run_end events 0 sorted_n lo;
                      events = fst (copy_span scratch events a (tail - a) out)
                  in chain_loop env budget nxt tail_total
                       (h\<lparr>moves := moves h + (tail + (b - sorted_n))\<rparr>) events run_end
      else (ChainDone, events, h))"
  by pat_completeness auto

termination
proof (relation "measure (\<lambda>(_, _, _, _, _, es, n). length es - n)", goal_cases)
  case (2 env budget cap tot h es n re first lo tail tot' need nxt scratch p es' q a r b out es'')
  then have "length es'' = length es" and "n < re"
    using run_scan_ge [of "n + 1" es] by (auto dest!: arg_cong [where f = "\<lambda>x. length (fst x)"])
  then show ?case using 2 by auto
qed simp

declare chain_loop.simps [simp del]

definition pgwt_stable_sort_events ::
  "sort_env \<Rightarrow> pgwt_event_sort_hooks \<Rightarrow> evs \<Rightarrow> evs \<Rightarrow> int \<times> evs \<times> pgwt_event_sort_hooks" where
  "pgwt_stable_sort_events env h tmp events =
     (if length events < 2 then (0, events, h)
      else case chain_loop env (length events) 0 0 h events (run_scan events 1) of
          (ChainNoMem, events, h) \<Rightarrow> (-1, events, h)
        | (ChainFellBack, events, h) \<Rightarrow>
            let h = h\<lparr>fell_back := True\<rparr>;
                (rc, events) = pgwt_event_sort_fixed_width env h tmp events
            in (rc, events, h)
        | (ChainDone, events, h) \<Rightarrow> (0, events, h))"


section \<open>The reference: a stable merge and the stable sort\<close>

fun smerge :: "evs \<Rightarrow> evs \<Rightarrow> evs" where
  "smerge [] ys = ys"
| "smerge (x # xs) [] = x # xs"
| "smerge (x # xs) (y # ys) =
     (if timestamp_ns x \<le> timestamp_ns y then x # smerge xs (y # ys) else y # smerge (x # xs) ys)"

abbreviation ts_sorted :: "evs \<Rightarrow> bool" where
  "ts_sorted xs \<equiv> sorted (map timestamp_ns xs)"

abbreviation stable_sort :: "evs \<Rightarrow> evs" where
  "stable_sort xs \<equiv> sort_key timestamp_ns xs"

lemma smerge_Nil2 [simp]: "smerge xs [] = xs"
  by (cases xs) auto

lemma mset_smerge: "mset (smerge xs ys) = mset xs + mset ys"
  by (induction xs ys rule: smerge.induct) auto

lemma set_smerge: "set (smerge xs ys) = set xs \<union> set ys"
  by (metis mset_smerge set_mset_mset set_mset_union)

lemma length_smerge: "length (smerge xs ys) = length xs + length ys"
  by (metis mset_smerge size_mset size_union)

lemma sorted_smerge: "ts_sorted xs \<Longrightarrow> ts_sorted ys \<Longrightarrow> ts_sorted (smerge xs ys)"
  by (induction xs ys rule: smerge.induct) (auto simp: set_smerge less_imp_le intro: order_trans)

lemma filter_smerge:
  "ts_sorted xs \<Longrightarrow> ts_sorted ys \<Longrightarrow>
   filter (\<lambda>z. timestamp_ns z = k) (smerge xs ys) =
   filter (\<lambda>z. timestamp_ns z = k) xs @ filter (\<lambda>z. timestamp_ns z = k) ys"
proof (induction xs ys rule: smerge.induct)
  case (3 x xs y ys)
  show ?case
  proof (cases "timestamp_ns x \<le> timestamp_ns y")
    case False
    have none: "filter (\<lambda>z. timestamp_ns z = k) (x # xs) = []" if "timestamp_ns y = k"
      using 3(3) False that by (force simp: filter_empty_conv)
    have ih: "filter (\<lambda>z. timestamp_ns z = k) (smerge (x # xs) ys) =
        filter (\<lambda>z. timestamp_ns z = k) (x # xs) @ filter (\<lambda>z. timestamp_ns z = k) ys"
      using 3(2) [OF False] 3(3,4) by simp
    show ?thesis
      using False none by (cases "timestamp_ns y = k") (simp_all only: smerge.simps if_False filter.simps ih, simp_all)
  qed (use 3 in auto)
qed auto

lemma stable_sortI:
  assumes "mset ys = mset xs" and "ts_sorted ys"
    and "\<And>k. filter (\<lambda>z. timestamp_ns z = k) ys = filter (\<lambda>z. timestamp_ns z = k) xs"
  shows "stable_sort xs = ys"
proof (rule properties_for_sort_key [OF assms(1) _ assms(2)])
  fix k assume "k \<in> set ys"
  show "filter (\<lambda>x. timestamp_ns k = timestamp_ns x) ys = filter (\<lambda>x. timestamp_ns k = timestamp_ns x) xs"
    using assms(3) [of "timestamp_ns k"] by (simp add: eq_commute)
qed

lemma smerge_stable_sort:
  "ts_sorted xs \<Longrightarrow> ts_sorted ys \<Longrightarrow> smerge xs ys = stable_sort (xs @ ys)"
  by (rule sym, rule stable_sortI) (simp_all add: mset_smerge sorted_smerge filter_smerge)

lemma stable_sort_append_left: "stable_sort (stable_sort xs @ ys) = stable_sort (xs @ ys)"
  by (rule stable_sortI) (simp_all add: sort_key_stable)

lemma stable_sort_append_both: "stable_sort (stable_sort xs @ stable_sort ys) = stable_sort (xs @ ys)"
  by (rule stable_sortI) (simp_all add: sort_key_stable)

lemma smerge_of_sorts: "smerge (stable_sort xs) (stable_sort ys) = stable_sort (xs @ ys)"
  by (simp add: smerge_stable_sort stable_sort_append_both)

lemma smerge_prefix:
  "(\<forall>x\<in>set as. timestamp_ns x \<le> timestamp_ns r) \<Longrightarrow>
   smerge (as @ ts) (r # rs) = as @ smerge ts (r # rs)"
  by (induction as) auto

section \<open>Loops over arrays\<close>

definition ev_slice :: "nat \<Rightarrow> nat \<Rightarrow> evs \<Rightarrow> evs" where
  "ev_slice l m xs = take (m - l) (drop l xs)"

lemma ev_slice_empty: "m \<le> l \<Longrightarrow> ev_slice l m xs = []"
  by (simp add: ev_slice_def)

lemma ev_slice_Cons: "l < m \<Longrightarrow> m \<le> length xs \<Longrightarrow> ev_slice l m xs = xs ! l # ev_slice (Suc l) m xs"
  by (simp add: ev_slice_def Cons_nth_drop_Suc [symmetric] Suc_diff_Suc [symmetric] take_Suc_Cons
      del: Suc_diff_Suc)

lemma length_ev_slice: "m \<le> length xs \<Longrightarrow> length (ev_slice l m xs) = m - l"
  by (simp add: ev_slice_def)

lemma copy_span_eq:
  "i + n \<le> length src \<Longrightarrow> out + n \<le> length dst \<Longrightarrow>
   copy_span src dst i n out = (take out dst @ take n (drop i src) @ drop (out + n) dst, out + n)"
proof (induction src dst i n out rule: copy_span.induct)
  case (2 src dst i n out)
  have "take (Suc out) (dst[out := src ! i]) = take out dst @ [src ! i]"
    using 2(3) by (simp add: take_Suc_conv_app_nth)
  moreover have "take (Suc n) (drop i src) = src ! i # take n (drop (Suc i) src)"
    using 2(2) by (simp add: Cons_nth_drop_Suc [symmetric])
  ultimately show ?case using 2 by simp
qed simp

lemma take_update_snoc: "out < length dst \<Longrightarrow> take (Suc out) (dst[out := v]) = take out dst @ [v]"
  by (simp add: take_Suc_conv_app_nth)

lemma merge_block_eq:
  "l \<le> m \<Longrightarrow> m \<le> length src \<Longrightarrow> r \<le> e \<Longrightarrow> e \<le> length src \<Longrightarrow>
   out + (m - l) + (e - r) \<le> length dst \<Longrightarrow>
   merge_block src dst l m r e out =
     take out dst @ smerge (ev_slice l m src) (ev_slice r e src) @ drop (out + (m - l) + (e - r)) dst"
proof (induction src dst l m r e out rule: merge_block.induct)
  case (1 src dst l m r e out)
  show ?case
  proof (cases "l < m \<and> r < e")
    case True
    then have len: "out < length dst" using 1 by auto
    have "ev_slice l m src = src ! l # ev_slice (Suc l) m src" "ev_slice r e src = src ! r # ev_slice (Suc r) e src"
      using True 1 by (auto intro: ev_slice_Cons)
    note sl = this
    have dr: "drop (out + (m - l) + (e - r)) (dst[out := v]) = drop (out + (m - l) + (e - r)) dst" for v
      using True by (intro drop_update_cancel) auto
    have k: "out + 1 + (m - (l + 1)) + (e - r) = out + (m - l) + (e - r)"
        "out + 1 + (m - l) + (e - (r + 1)) = out + (m - l) + (e - r)"
      using True by auto
    have kk: "Suc (out + (m - Suc l) + (e - r)) = out + (m - l) + (e - r)"
        "Suc (out + (m - l) + (e - Suc r)) = out + (m - l) + (e - r)"
      using True by auto
    show ?thesis
    proof (cases "timestamp_ns (src ! l) \<le> timestamp_ns (src ! r)")
      case left: True
      have "merge_block src dst l m r e out =
          merge_block src (dst[out := src ! l]) (l + 1) m r e (out + 1)"
        using True left by (subst merge_block.simps) simp
      also have "\<dots> =
          take (out + 1) (dst[out := src ! l]) @ smerge (ev_slice (l + 1) m src) (ev_slice r e src) @
          drop (out + 1 + (m - (l + 1)) + (e - r)) (dst[out := src ! l])"
        by (rule 1(1) [OF True left]) (use True 1(3-7) k(1) in auto)
      finally have "merge_block src dst l m r e out = \<dots>" .
      moreover have "smerge (ev_slice l m src) (ev_slice r e src) =
          src ! l # smerge (ev_slice (l + 1) m src) (ev_slice r e src)" by (simp add: sl left)
      ultimately show ?thesis
        by (simp only: k(1) dr take_update_snoc [OF len] Suc_eq_plus1 [symmetric]) (simp add: kk dr)
    next
      case right: False
      have "merge_block src dst l m r e out =
          merge_block src (dst[out := src ! r]) l m (r + 1) e (out + 1)"
        using True right by (subst merge_block.simps) simp
      also have "\<dots> =
          take (out + 1) (dst[out := src ! r]) @ smerge (ev_slice l m src) (ev_slice (r + 1) e src) @
          drop (out + 1 + (m - l) + (e - (r + 1))) (dst[out := src ! r])"
        by (rule 1(2) [OF True right]) (use True 1(3-7) k(2) in auto)
      finally have "merge_block src dst l m r e out = \<dots>" .
      moreover have "smerge (ev_slice l m src) (ev_slice r e src) =
          src ! r # smerge (ev_slice l m src) (ev_slice (r + 1) e src)" by (simp add: sl right)
      ultimately show ?thesis
        by (simp only: k(2) dr take_update_snoc [OF len] Suc_eq_plus1 [symmetric]) (simp add: kk dr)
    qed
  next
    case False
    have "fst (copy_span src (fst (copy_span src dst l (m - l) out)) r (e - r) (out + (m - l))) =
        take out dst @ ev_slice l m src @ ev_slice r e src @ drop (out + (m - l) + (e - r)) dst"
      using 1(3-7) by (simp add: copy_span_eq ev_slice_def ac_simps)
    moreover have "smerge (ev_slice l m src) (ev_slice r e src) = ev_slice l m src @ ev_slice r e src"
      using False by (cases "l < m") (auto simp: ev_slice_empty)
    moreover have "copy_span src dst l (m - l) out =
        (take out dst @ take (m - l) (drop l src) @ drop (out + (m - l)) dst, out + (m - l))"
      using 1(3-7) by (intro copy_span_eq) auto
    moreover have "merge_block src dst l m r e out =
        (let (dst, out) = copy_span src dst l (m - l) out in fst (copy_span src dst r (e - r) out))"
      using False by (subst merge_block.simps) auto
    ultimately show ?thesis by (simp del: add_diff_assoc add_diff_assoc2)
  qed
qed

section \<open>The fixed-width pass sorts\<close>

function pass_spec :: "nat \<Rightarrow> evs \<Rightarrow> evs" where
  "pass_spec w xs =
     (if xs = [] \<or> w = 0 then []
      else smerge (take w xs) (take w (drop w xs)) @ pass_spec w (drop (2 * w) xs))"
  by pat_completeness auto
termination by (relation "measure (\<lambda>(_, xs). length xs)") auto

function chunk_sort :: "nat \<Rightarrow> evs \<Rightarrow> evs" where
  "chunk_sort w xs =
     (if xs = [] \<or> w = 0 then [] else stable_sort (take w xs) @ chunk_sort w (drop w xs))"
  by pat_completeness auto
termination by (relation "measure (\<lambda>(_, xs). length xs)") auto

declare pass_spec.simps [simp del] chunk_sort.simps [simp del]

lemma fixed_pass_eq:
  "0 < w \<Longrightarrow> length src = cnt \<Longrightarrow> length dst = cnt \<Longrightarrow>
   fixed_pass cnt w src dst base = take base dst @ pass_spec w (drop base src)"
proof (induction cnt w src dst base rule: fixed_pass.induct)
  case (1 cnt w src dst base)
  show ?case
  proof (cases "base < cnt")
    case False
    then show ?thesis using 1(3,4) by (subst fixed_pass.simps) (simp add: pass_spec.simps)
  next
    case True
    let ?mid = "if base + w < cnt then base + w else cnt"
    let ?e = "if base + 2 * w < cnt then base + 2 * w else cnt"
    let ?d = "merge_block src dst base ?mid ?mid ?e base"
    have d: "?d = take base dst @ smerge (ev_slice base ?mid src) (ev_slice ?mid ?e src) @ drop ?e dst"
      using 1(2-4) True by (subst merge_block_eq) auto
    have sl: "ev_slice base ?mid src = take w (drop base src)"
        "ev_slice ?mid ?e src = take w (drop w (drop base src))"
      using 1(3) True by (auto simp: ev_slice_def drop_drop add.commute)
    have len: "length ?d = cnt"
      using 1(2-4) True by (auto simp: d length_smerge sl min_def)
    have "fixed_pass cnt w src dst base = fixed_pass cnt w src ?d (base + 2 * w)"
      using True 1(2) by (subst fixed_pass.simps) (simp add: Let_def)
    also have "\<dots> = take (base + 2 * w) ?d @ pass_spec w (drop (base + 2 * w) src)"
      by (rule 1(1)) (use True 1(2,3) len in auto)
    also have "take (base + 2 * w) ?d = take base dst @ smerge (take w (drop base src)) (take w (drop w (drop base src)))"
    proof (cases "base + 2 * w < cnt")
      case True
      then show ?thesis unfolding d sl using 1(2-4) by (simp add: length_smerge)
    next
      case False
      then show ?thesis using 1(2-4) len unfolding d sl by (simp add: length_smerge)
    qed
    finally show ?thesis
      using True 1(2,3) pass_spec.simps [of w "drop base src"] by (simp add: add.commute)
  qed
qed

lemma length_chunk_sort: "0 < w \<Longrightarrow> length (chunk_sort w xs) = length xs"
  by (induction w xs rule: chunk_sort.induct) (subst chunk_sort.simps, auto)

lemma chunk_sort_one: "chunk_sort 1 xs = xs"
proof (induction xs)
  case (Cons x xs)
  then show ?case by (subst chunk_sort.simps) simp
qed (subst chunk_sort.simps, simp)

lemma chunk_sort_all: "length xs \<le> w \<Longrightarrow> 0 < w \<Longrightarrow> chunk_sort w xs = stable_sort xs"
  by (subst chunk_sort.simps, subst chunk_sort.simps) auto

lemma chunk_sort_drop:
  assumes "0 < w"
  shows "take w (chunk_sort w xs) = stable_sort (take w xs)"
    and "drop w (chunk_sort w xs) = chunk_sort w (drop w xs)"
proof -
  have nil: "chunk_sort w [] = []" by (simp add: chunk_sort.simps)
  have unf: "chunk_sort w xs = stable_sort (take w xs) @ chunk_sort w (drop w xs)"
    using assms nil by (cases "xs = []") (simp_all add: chunk_sort.simps [of w xs])
  have "take w (chunk_sort w xs) = stable_sort (take w xs) \<and>
        drop w (chunk_sort w xs) = chunk_sort w (drop w xs)"
    using nil by (cases "w \<le> length xs") (simp_all add: unf)
  then show "take w (chunk_sort w xs) = stable_sort (take w xs)"
    and "drop w (chunk_sort w xs) = chunk_sort w (drop w xs)" by blast+
qed

lemma pass_chunk_sort:
  "0 < w \<Longrightarrow> pass_spec w (chunk_sort w xs) = chunk_sort (2 * w) xs"
proof (induction "length xs" arbitrary: xs rule: less_induct)
  case less
  show ?case
  proof (cases "xs = []")
    case True
    then show ?thesis by (simp add: chunk_sort.simps pass_spec.simps)
  next
    case False
    have ne: "chunk_sort w xs \<noteq> []"
      using False length_chunk_sort [OF less(2), of xs] by auto
    have tw: "take w (drop w (chunk_sort w xs)) = stable_sort (take w (drop w xs))"
      by (simp add: chunk_sort_drop [OF less(2)])
    have dd: "drop (2 * w) (chunk_sort w xs) = chunk_sort w (drop (2 * w) xs)"
      using chunk_sort_drop(2) [OF less(2)] by (metis drop_drop mult_2)
    have "take w xs @ take w (drop w xs) = take (2 * w) xs" by (simp add: mult_2 take_add)
    then have "smerge (take w (chunk_sort w xs)) (take w (drop w (chunk_sort w xs))) =
        stable_sort (take (2 * w) xs)"
      by (simp add: tw chunk_sort_drop(1) [OF less(2)] smerge_of_sorts)
    moreover have "pass_spec w (chunk_sort w (drop (2 * w) xs)) = chunk_sort (2 * w) (drop (2 * w) xs)"
      using less False by simp
    ultimately show ?thesis
      using ne False less(2) by (simp add: pass_spec.simps [of w "chunk_sort w xs"] dd
          chunk_sort.simps [of "2 * w" xs])
  qed
qed

lemma width_loop_sorts:
  "0 < w \<Longrightarrow> src = chunk_sort w xs \<Longrightarrow> length dst = length xs \<Longrightarrow> cnt = length xs \<Longrightarrow>
   width_loop cnt w src dst = stable_sort xs"
proof (induction cnt w src dst rule: width_loop.induct)
  case (1 cnt w src dst)
  show ?case
  proof (cases "w < cnt")
    case False
    then show ?thesis
      using 1(2-5) chunk_sort_all [of xs w] by (subst width_loop.simps) simp
  next
    case True
    have p: "fixed_pass cnt w src dst 0 = chunk_sort (w * 2) xs"
      using 1(2-5) by (simp add: fixed_pass_eq length_chunk_sort pass_chunk_sort mult.commute)
    show ?thesis
    proof (cases "w > cnt div 2")
      case True
      then have "chunk_sort (w * 2) xs = stable_sort xs"
        using 1(2,5) by (intro chunk_sort_all) auto
      then show ?thesis
        using True \<open>w < cnt\<close> 1(2) p by (subst width_loop.simps) simp
    next
      case False
      have "width_loop cnt (w * 2) (chunk_sort (w * 2) xs) src = stable_sort xs"
        using 1(1) [of "chunk_sort (w * 2) xs" "(chunk_sort (w * 2) xs, src)"] 1(2-5) True False p
        by (auto simp: length_chunk_sort)
      then show ?thesis
        using True False 1(2) p by (subst width_loop.simps) simp
    qed
  qed
qed

lemma fixed_width_sorts:
  assumes "pgwt_event_sort_fixed_width env h tmp es = (rc, es')"
  shows "rc = 0 \<Longrightarrow> es' = stable_sort es" and "rc \<noteq> 0 \<Longrightarrow> es' = es"
proof -
  have "length es < 2 \<Longrightarrow> stable_sort es = es" by (cases es; cases "tl es") auto
  then show "rc = 0 \<Longrightarrow> es' = stable_sort es"
    using assms width_loop_sorts [of 1 es es "take (length es) (tmp @ es)" "length es"]
    by (auto simp: pgwt_event_sort_fixed_width_def Let_def chunk_sort_one [unfolded One_nat_def] split: if_splits)
  show "rc \<noteq> 0 \<Longrightarrow> es' = es"
    using assms by (auto simp: pgwt_event_sort_fixed_width_def Let_def split: if_splits)
qed


section \<open>The in-place chain merge sorts\<close>

text \<open>
  The merge invariant: the array is the finished prefix \<open>P\<close>, a gap \<open>J\<close> exactly as long as the unread
  scratch \<open>S\<close>, the unread run \<open>R\<close> and the untouched rest \<open>Z\<close>; so a write never hits an unread record.
\<close>

lemma merge_in_place:
  assumes "length J = length S"
  shows "(case merge_loop (S0 @ S) (length S0 + length S) (length P + length J + length R)
            (P @ J @ R @ Z) (length S0) (length P + length J) (length P) of
          (es, a, b, out) \<Rightarrow>
            fst (copy_span (S0 @ S) es a (length S0 + length S - a) out)) = P @ smerge S R @ Z"
  using assms
proof (induction S R arbitrary: S0 P J rule: smerge.induct)
  case (1 R)
  then show ?case by (subst merge_loop.simps) simp
next
  case (2 s S)
  have "copy_span (S0 @ s # S) (P @ J @ [] @ Z) (length S0) (length (s # S)) (length P) =
      (P @ (s # S) @ Z, length P + length (s # S))"
    using 2 by (subst copy_span_eq) auto
  then show ?case using 2 by (subst merge_loop.simps) simp
next
  case (3 s S r R)
  then obtain j J' where J: "J = j # J'" by (cases J) auto
  show ?case
  proof (cases "timestamp_ns s \<le> timestamp_ns r")
    case True
    have upd: "(P @ J @ (r # R) @ Z)[length P := s] = (P @ [s]) @ J' @ (r # R) @ Z"
      by (simp add: J)
    show ?thesis
      using 3(1) [OF True, of J' "S0 @ [s]" "P @ [s]"] 3(3) True upd
      by (subst merge_loop.simps) (simp add: J nth_append)
  next
    case False
    have upd: "(P @ J @ (r # R) @ Z)[length P := r] = (P @ [r]) @ (J' @ [r]) @ R @ Z"
      by (simp add: J)
    show ?thesis
      using 3(2) [OF False, of "J' @ [r]" S0 "P @ [r]"] 3(3) False upd
      by (subst merge_loop.simps) (simp add: J nth_append)
  qed
qed

lemma run_scan_le: "i \<le> length es \<Longrightarrow> run_scan es i \<le> length es"
  by (induction es i rule: run_scan.induct) (subst run_scan.simps, auto)

lemma run_scan_step:
  "i \<le> j \<Longrightarrow> j < run_scan es i \<Longrightarrow> timestamp_ns (es ! (j - 1)) \<le> timestamp_ns (es ! j)"
proof (induction es i rule: run_scan.induct)
  case (1 es i)
  show ?case
  proof (cases "i < length es \<and> timestamp_ns (es ! (i - 1)) \<le> timestamp_ns (es ! i)")
    case True
    then have "run_scan es i = run_scan es (i + 1)" by (subst run_scan.simps) simp
    then show ?thesis using 1 True by (cases "j = i") auto
  next
    case False
    then have "run_scan es i = i" by (subst run_scan.simps) auto
    then show ?thesis using 1 by simp
  qed
qed

lemma run_scan_sorted:
  assumes "i < length es" shows "ts_sorted (ev_slice i (run_scan es (Suc i)) es)"
proof -
  let ?re = "run_scan es (Suc i)"
  have re: "?re \<le> length es" using assms by (intro run_scan_le) simp
  show ?thesis
    unfolding sorted_iff_nth_Suc
  proof (intro allI impI)
    fix k assume "Suc k < length (map timestamp_ns (ev_slice i ?re es))"
    then have k: "Suc k < ?re - i" using re by (simp add: length_ev_slice)
    have "timestamp_ns (es ! (i + Suc k - 1)) \<le> timestamp_ns (es ! (i + Suc k))"
      by (rule run_scan_step [where i = "Suc i"]) (use k in auto)
    then show "map timestamp_ns (ev_slice i ?re es) ! k \<le> map timestamp_ns (ev_slice i ?re es) ! Suc k"
      using k re by (simp add: ev_slice_def)
  qed
qed

lemma tail_scan_le: "tail_scan es first n \<le> n"
  by (induction n) auto

lemma tail_scan_stop:
  "0 < tail_scan es first n \<Longrightarrow> timestamp_ns (es ! (tail_scan es first n - 1)) \<le> first"
  by (induction n) (auto simp: not_less)

text \<open>One step of the chain: the next run is merged into the sorted prefix.\<close>

lemma chain_step_merge:
  assumes "es = stable_sort (take n orig) @ drop n orig" and "n < length orig"
    and "re = run_scan es (n + 1)" and "lo = tail_scan es (timestamp_ns (es ! n)) n"
    and "scratch = take (n - lo) (drop lo es)"
    and "merge_loop scratch (n - lo) re es 0 n lo = (es1, a, b, out)"
  shows "fst (copy_span scratch es1 a (n - lo - a) out) = stable_sort (take re orig) @ drop re orig"
    and "n < re \<and> re \<le> length orig"
proof -
  let ?pre = "stable_sort (take n orig)"
  have len: "length es = length orig" using assms(1,2) by simp
  have re: "n < re" "re \<le> length orig"
    using assms(2,3) len run_scan_ge [of "n + 1" es] run_scan_le [of "n + 1" es] by auto
  then show "n < re \<and> re \<le> length orig" by simp
  have lo: "lo \<le> n" using assms(4) tail_scan_le by simp
  let ?A = "take lo ?pre" and ?T = "drop lo ?pre"
  let ?run = "take (re - n) (drop n orig)" and ?Z = "drop re orig"
  have lp: "length ?pre = n" using assms(2) by simp
  have run_eq: "?run = ev_slice n re es" using assms(1) lp by (simp add: ev_slice_def)
  have srun: "ts_sorted ?run"
    unfolding run_eq using run_scan_sorted [of n es] assms(2,3) len by simp
  have runne: "?run = es ! n # tl ?run"
    using re assms(1,2) lp by (cases "drop n orig"; cases "re - n") (auto simp: nth_append hd_drop_conv_nth)
  have "drop n orig = ?run @ ?Z"
    using re append_take_drop_id [of "re - n" "drop n orig"] by simp
  then have esp: "es = ?A @ ?T @ ?run @ ?Z"
    using assms(1) append_take_drop_id [of lo ?pre] by (metis append_assoc)
  have scr: "scratch = ?T" using assms(1,5) lo lp by simp
  have "fst (copy_span scratch es1 a (n - lo - a) out) = ?A @ smerge ?T ?run @ ?Z"
    using merge_in_place [of ?T ?T "[]" ?A ?run ?Z] assms(6) lo lp re esp scr by simp
  also have "?A @ smerge ?T ?run @ ?Z = smerge ?pre ?run @ ?Z"
  proof -
    have "\<forall>x\<in>set ?A. timestamp_ns x \<le> timestamp_ns (es ! n)"
    proof (cases "lo = 0")
      case False
      have last_le: "timestamp_ns (es ! (lo - 1)) \<le> timestamp_ns (es ! n)"
        using tail_scan_stop [of es "timestamp_ns (es ! n)" n] assms(4) False by simp
      have last_pre: "es ! (lo - 1) = ?pre ! (lo - 1)"
        using assms(1) False lo lp by (simp add: nth_append)
      have mono: "timestamp_ns (?pre ! k) \<le> timestamp_ns (?pre ! (lo - 1))" if "k < lo" for k
        using sorted_nth_mono [of "map timestamp_ns ?pre" k "lo - 1"] that lo lp False assms(2) by simp
      show ?thesis
      proof
        fix x assume "x \<in> set ?A"
        then obtain k where "k < lo" "x = ?pre ! k" using lo lp by (auto simp: in_set_conv_nth)
        then show "timestamp_ns x \<le> timestamp_ns (es ! n)"
          using mono [of k] last_le unfolding last_pre by (metis order_trans)
      qed
    qed simp
    from smerge_prefix [OF this, of ?T "tl ?run"] show ?thesis by (simp flip: runne)
  qed
  also have "smerge ?pre ?run = stable_sort (take re orig)"
  proof -
    have "take n orig @ ?run = take re orig"
      using re by (metis le_add_diff_inverse less_imp_le_nat take_add)
    then show ?thesis
      using smerge_stable_sort [of ?pre ?run] srun by (simp add: stable_sort_append_left)
  qed
  finally show "fst (copy_span scratch es1 a (n - lo - a) out) = stable_sort (take re orig) @ drop re orig" .
qed


lemma chain_loop_spec:
  assumes "chain_loop env budget cap tot h es n = (ex, es', h')"
    and "es = stable_sort (take n orig) @ drop n orig" and "n \<le> length orig"
  shows "stable_sort es' = stable_sort orig \<and> (ex = ChainDone \<longrightarrow> es' = stable_sort orig)"
  using assms
proof (induction env budget cap tot h es n rule: chain_loop.induct)
  case (1 env budget cap tot h es n)
  have same: "stable_sort es = stable_sort orig"
    using 1(3) by (simp add: stable_sort_append_left)
  have len: "length es = length orig" using 1(3,4) by simp
  show ?case
  proof (cases "n < length es")
    case False
    then have "es' = es" using 1(2) by (subst (asm) chain_loop.simps) auto
    moreover have "es = stable_sort orig" using 1(3,4) False len by simp
    ultimately show ?thesis using same by simp
  next
    case True
    define re where "re = run_scan es (n + 1)"
    define lo where "lo = tail_scan es (timestamp_ns (es ! n)) n"
    define scratch where "scratch = take (n - lo) (drop lo es)"
    define need where "need \<longleftrightarrow> n - lo > cap"
    define nxt where "nxt = (if need then grow_scratch (if cap \<noteq> 0 then cap else 64) (n - lo) else cap)"
    obtain es1 a b out where ml: "merge_loop scratch (n - lo) re es 0 n lo = (es1, a, b, out)"
      by (cases "merge_loop scratch (n - lo) re es 0 n lo")
    define es2 where "es2 = fst (copy_span scratch es1 a (n - lo - a) out)"
    have step: "es2 = stable_sort (take re orig) @ drop re orig" "re \<le> length orig"
      using chain_step_merge [OF 1(3) _ re_def lo_def scratch_def ml] True len
      by (auto simp: es2_def)
    note folds = re_def [symmetric] lo_def [symmetric] scratch_def [symmetric] need_def [symmetric]
      nxt_def [symmetric]
    have unf: "chain_loop env budget cap tot h es n =
        (if tot + (n - lo) > budget then (ChainFellBack, es, h)
         else if need \<and> (pgwt_event_sort_fail h ''scratch'' \<or> \<not> realloc_ok env nxt)
         then (ChainNoMem, es, h)
         else chain_loop env budget nxt (tot + (n - lo))
                (h\<lparr>moves := moves h + (n - lo + (b - n))\<rparr>) es2 re)"
      by (subst chain_loop.simps) (simp only: Let_def folds True if_True ml prod.case es2_def [symmetric])
    show ?thesis
    proof (cases "tot + (n - lo) > budget \<or>
        need \<and> (pgwt_event_sort_fail h ''scratch'' \<or> \<not> realloc_ok env nxt)")
      case exits: True
      then have "es' = es \<and> ex \<noteq> ChainDone" using 1(2) unfolding unf by (auto split: if_splits)
      then show ?thesis using same by simp
    next
      case False
      then have "chain_loop env budget nxt (tot + (n - lo))
          (h\<lparr>moves := moves h + (n - lo + (b - n))\<rparr>) es2 re = (ex, es', h')"
        using 1(2) unfolding unf by (auto split: if_splits)
      then show ?thesis
        using 1(1) [OF True re_def refl lo_def refl refl _ need_def nxt_def _ scratch_def ml [symmetric] refl refl refl es2_def]
          False step by auto
    qed
  qed
qed


lemma stable_sort_of_run:
  assumes "es \<noteq> []"
  shows "es = stable_sort (take (run_scan es 1) es) @ drop (run_scan es 1) es"
proof -
  have "ts_sorted (ev_slice 0 (run_scan es (Suc 0)) es)"
    using assms by (intro run_scan_sorted) simp
  then have "stable_sort (take (run_scan es 1) es) = take (run_scan es 1) es"
    by (intro stable_sortI) (simp_all add: ev_slice_def)
  then show ?thesis by simp
qed

lemma stable_sort_spec:
  assumes "pgwt_stable_sort_events env h tmp es = (rc, es', h')"
  shows "rc = 0 \<and> es' = stable_sort es \<or> rc = -1 \<and> mset es' = mset es"
proof (cases "length es < 2")
  case True
  then have "stable_sort es = es" by (cases es; cases "tl es") auto
  then show ?thesis using True assms by (simp add: pgwt_stable_sort_events_def)
next
  case False
  obtain ex es1 h1 where ch: "chain_loop env (length es) 0 0 h es (run_scan es 1) = (ex, es1, h1)"
    by (cases "chain_loop env (length es) 0 0 h es (run_scan es 1)")
  have ne: "es \<noteq> []" using False by auto
  have "run_scan es 1 \<le> length es" using False by (intro run_scan_le) auto
  note sp = chain_loop_spec [OF ch stable_sort_of_run [OF ne] this]
  have perm: "mset es1 = mset es" using sp by (metis mset_sort)
  obtain rc2 es2 where fw: "pgwt_event_sort_fixed_width env (h1\<lparr>fell_back := True\<rparr>) tmp es1 = (rc2, es2)"
    by (cases "pgwt_event_sort_fixed_width env (h1\<lparr>fell_back := True\<rparr>) tmp es1")
  have rc2: "rc2 = 0 \<or> rc2 = -1"
    using fw by (auto simp: pgwt_event_sort_fixed_width_def Let_def split: if_splits)
  show ?thesis
    using assms False ch sp perm fw rc2 fixed_width_sorts [OF fw]
    by (cases ex) (auto simp: pgwt_stable_sort_events_def)
qed

text \<open>With every allocation served the sort cannot fail.\<close>

lemma chain_loop_cases:
  assumes "n < length es"
  shows "chain_loop env budget cap tot h es n = (ChainFellBack, es, h) \<or>
    (pgwt_event_sort_fail h ''scratch'' \<or> (\<exists>k. \<not> realloc_ok env k)) \<and>
      chain_loop env budget cap tot h es n = (ChainNoMem, es, h) \<or>
    (\<exists>nxt tot' mv es2 re. length es2 = length es \<and> n < re \<and>
      chain_loop env budget cap tot h es n = chain_loop env budget nxt tot' (h\<lparr>moves := mv\<rparr>) es2 re)"
proof -
  let ?re = "run_scan es (n + 1)" and ?lo = "tail_scan es (timestamp_ns (es ! n)) n"
  let ?sc = "take (n - ?lo) (drop ?lo es)"
  obtain es1 a b out where ml: "merge_loop ?sc (n - ?lo) ?re es 0 n ?lo = (es1, a, b, out)"
    by (cases "merge_loop ?sc (n - ?lo) ?re es 0 n ?lo")
  have "length es1 = length es"
    using length_merge_loop [of ?sc "n - ?lo" ?re es 0 n ?lo] unfolding ml by simp
  then have "length (fst (copy_span ?sc es1 a (n - ?lo - a) out)) = length es" by simp
  moreover have "n < ?re" using run_scan_ge [of "n + 1" es] by simp
  ultimately show ?thesis
    by (subst (1 2 3) chain_loop.simps) (simp only: Let_def assms if_True ml prod.case, metis)
qed

lemma chain_loop_mem_ok:
  "(\<And>k. realloc_ok env k) \<Longrightarrow> \<not> alloc_fail h ''scratch'' \<Longrightarrow>
   case chain_loop env budget cap tot h es n of (ex, _, h') \<Rightarrow> ex \<noteq> ChainNoMem \<and> alloc_fail h' = alloc_fail h"
proof (induction "length es - n" arbitrary: cap tot h es n rule: less_induct)
  case less
  show ?case
  proof (cases "n < length es")
    case True
    from chain_loop_cases [OF True, of env budget cap tot h] less(2,3)
    consider "chain_loop env budget cap tot h es n = (ChainFellBack, es, h)"
      | nxt tot' mv es2 re where "length es2 = length es" "n < re"
        "chain_loop env budget cap tot h es n = chain_loop env budget nxt tot' (h\<lparr>moves := mv\<rparr>) es2 re"
      by (auto simp: pgwt_event_sort_fail_def)
    then show ?thesis
    proof cases
      case 2
      then show ?thesis
        using less(1) [where es = es2 and n = re and h = "h\<lparr>moves := mv\<rparr>" and cap = nxt and tot = tot']
          True less(2,3) by simp
    qed simp
  qed (subst chain_loop.simps, simp)
qed

lemma stable_sort_total:
  assumes "\<And>n. realloc_ok env n" and "\<And>n. malloc_ok env n" and "\<And>p. \<not> alloc_fail h p"
  shows "fst (pgwt_stable_sort_events env h tmp es) = 0"
  using chain_loop_mem_ok [of env h "length es" 0 0 es "run_scan es 1"] assms
  by (auto simp: pgwt_stable_sort_events_def pgwt_event_sort_fixed_width_def pgwt_event_sort_fail_def
      Let_def split: prod.splits chain_exit.splits)

section \<open>Properties\<close>

text \<open>
  C24: the loader's sort is the stable sort: whatever the input and whichever path runs (the chain merge
  or the fixed-width fallback), on success the array is exactly the stable sort of the input by
  timestamp, ties keeping their captured order; on an allocation failure it returns -1 and the array
  is still a permutation of the input.
\<close>

theorem event_sort_is_stable_sort:
  "case pgwt_stable_sort_events env h tmp es of
     (rc, es', h') \<Rightarrow> rc = 0 \<and> es' = sort_key timestamp_ns es \<or> rc = -1 \<and> mset es' = mset es"
  using stable_sort_spec by (simp split: prod.split)

text \<open>
  C25: the sort returns success whenever the allocator serves every request, so failure has no other
  cause; both nested loops terminate on every input.
\<close>

theorem event_sort_succeeds:
  assumes "\<And>n. realloc_ok env n" and "\<And>n. malloc_ok env n" and "\<And>p. \<not> alloc_fail h p"
  shows "fst (pgwt_stable_sort_events env h tmp es) = 0 \<and>
         fst (snd (pgwt_stable_sort_events env h tmp es)) = sort_key timestamp_ns es"
  using stable_sort_total [OF assms, of tmp es] stable_sort_spec [of env h tmp es]
  by (cases "pgwt_stable_sort_events env h tmp es") auto

definition ev_at :: "u64 \<Rightarrow> u32 \<Rightarrow> pgwt_trace_event" where
  "ev_at t p = \<lparr>timestamp_ns = t, pid = p, old_event = 0, new_event = 0, flags = 0,
     duration_ns = 0, query_id = 0, cpu_ns = 0\<rparr>"

theorem event_sort_succeeds_witness:
  "let env = \<lparr>malloc_ok = \<lambda>_. True, realloc_ok = \<lambda>_. True\<rparr>;
       h = \<lparr>alloc_fail = \<lambda>_. False, fell_back = False, moves = 0\<rparr>;
       es = [ev_at 5 1, ev_at 7 2, ev_at 5 3, ev_at 6 4]
   in fst (pgwt_stable_sort_events env h [] es) = 0 \<and>
      fst (snd (pgwt_stable_sort_events env h [] es)) = sort_key timestamp_ns es"
  unfolding Let_def by (rule event_sort_succeeds) simp_all

end
