(* ===== verification/Hash_Index.thy ===== *)
theory Hash_Index
  imports Prelude
begin

text \<open>
  The grow-only open-addressing maps: src/src/pid_index.h, src/src/qid_index.h and
  src/src/triple_map.h. The three share one layout (key, value and used arrays of a power-of-two
  capacity, linear probing, growth at 70 percent load), which is modelled once over the key type and
  the hash, and instantiated with the hash and the guards of each file. A probing loop that never
  meets a free slot does not return, which is the value \<open>None\<close>. A signed product beyond the range of
  \<open>int\<close> is undefined in C and is the outcome \<open>PutUB\<close>. The lemmas show that the maps implement finite
  partial functions: probing returns, a put is a functional update, growth loses nothing and a failed
  growth changes nothing.
\<close>

section \<open>The shared layout\<close>

record 'k oa_index =
  ix_keys :: "'k list"
  ix_vals :: "int list"
  ix_used :: "bool list"
  ix_cap :: nat
  ix_n :: nat

definition oa_init :: "'k oa_index" where
  "oa_init = \<lparr>ix_keys = [], ix_vals = [], ix_used = [], ix_cap = 0, ix_n = 0\<rparr>"

text \<open>Fresh arrays as \<open>calloc\<close> gives them; \<open>z\<close> is the all-zero key.\<close>

definition oa_calloc :: "'k \<Rightarrow> nat \<Rightarrow> 'k oa_index" where
  "oa_calloc z c = \<lparr>ix_keys = replicate c z, ix_vals = replicate c 0, ix_used = replicate c False,
     ix_cap = c, ix_n = 0\<rparr>"

definition oa_mask :: "'k oa_index \<Rightarrow> u32" where
  "oa_mask ix = of_nat (ix_cap ix) - 1"

partial_function (option) oa_probe :: "'k oa_index \<Rightarrow> 'k \<Rightarrow> u32 \<Rightarrow> u32 option" where
  "oa_probe ix k h =
     (if ix_used ix ! unat h then
        (if ix_keys ix ! unat h = k then Some h else oa_probe ix k ((h + 1) AND oa_mask ix))
      else Some h)"

definition oa_find :: "('k \<Rightarrow> u32) \<Rightarrow> 'k oa_index \<Rightarrow> 'k \<Rightarrow> int option" where
  "oa_find hash ix k =
     (if ix_cap ix = 0 then Some (-1)
      else case oa_probe ix k (hash k AND oa_mask ix) of
          None \<Rightarrow> None
        | Some h \<Rightarrow> Some (if ix_used ix ! unat h then ix_vals ix ! unat h else -1))"

definition oa_put_nogrow :: "('k \<Rightarrow> u32) \<Rightarrow> 'k oa_index \<Rightarrow> 'k \<Rightarrow> int \<Rightarrow> 'k oa_index option" where
  "oa_put_nogrow hash ix k v =
     (case oa_probe ix k (hash k AND oa_mask ix) of
        None \<Rightarrow> None
      | Some h \<Rightarrow>
          Some (if ix_used ix ! unat h then ix\<lparr>ix_vals := (ix_vals ix)[unat h := v]\<rparr>
                else ix\<lparr>ix_used := (ix_used ix)[unat h := True],
                        ix_keys := (ix_keys ix)[unat h := k],
                        ix_vals := (ix_vals ix)[unat h := v],
                        ix_n := ix_n ix + 1\<rparr>))"

fun oa_rehash :: "('k \<Rightarrow> u32) \<Rightarrow> 'k oa_index \<Rightarrow> nat list \<Rightarrow> 'k oa_index \<Rightarrow> 'k oa_index option" where
  "oa_rehash hash old [] ix = Some ix"
| "oa_rehash hash old (i # ids) ix =
     (if ix_used old ! i
      then case oa_put_nogrow hash ix (ix_keys old ! i) (ix_vals old ! i) of
          None \<Rightarrow> None | Some ix' \<Rightarrow> oa_rehash hash old ids ix'
      else oa_rehash hash old ids ix)"

definition oa_INT_MAX :: nat where "oa_INT_MAX = 2147483647"

datatype put_outcome = PutOk | PutNoMem | PutUB

text \<open>The load test, with the two products as C computes them.\<close>

definition oa_load_ub :: "'k oa_index \<Rightarrow> bool" where
  "oa_load_ub ix \<longleftrightarrow> (ix_n ix + 1) * 10 > oa_INT_MAX \<or> ix_cap ix * 7 > oa_INT_MAX"

definition oa_load_full :: "'k oa_index \<Rightarrow> bool" where
  "oa_load_full ix \<longleftrightarrow> (ix_n ix + 1) * 10 \<ge> ix_cap ix * 7"

definition oa_grow :: "('k \<Rightarrow> u32) \<Rightarrow> 'k \<Rightarrow> 'k oa_index \<Rightarrow> nat \<Rightarrow> 'k oa_index option" where
  "oa_grow hash z ix newcap = oa_rehash hash ix [0..<ix_cap ix] (oa_calloc z newcap)"

text \<open>
  \<open>refuse\<close> is the capacity guard of the file, \<open>first\<close> the capacity of the first allocation and
  \<open>alloc\<close> whether the allocations for a capacity succeed.
\<close>

definition oa_put :: "('k \<Rightarrow> u32) \<Rightarrow> 'k \<Rightarrow> nat \<Rightarrow> (nat \<Rightarrow> bool) \<Rightarrow> (nat \<Rightarrow> bool)
    \<Rightarrow> 'k oa_index \<Rightarrow> 'k \<Rightarrow> int \<Rightarrow> (put_outcome \<times> 'k oa_index) option" where
  "oa_put hash z first refuse alloc ix k v =
     (if ix_cap ix \<noteq> 0 \<and> oa_load_ub ix then Some (PutUB, ix)
      else if ix_cap ix = 0 \<or> oa_load_full ix then
        (if refuse (ix_cap ix) then Some (PutNoMem, ix)
         else if ix_cap ix * 2 > oa_INT_MAX then Some (PutUB, ix)
         else let newcap = (if ix_cap ix \<noteq> 0 then ix_cap ix * 2 else first)
              in if \<not> alloc newcap then Some (PutNoMem, ix)
                 else case oa_grow hash z ix newcap of
                     None \<Rightarrow> None
                   | Some ix' \<Rightarrow> map_option (Pair PutOk) (oa_put_nogrow hash ix' k v))
      else map_option (Pair PutOk) (oa_put_nogrow hash ix k v))"

section \<open>The pid index\<close>

type_synonym pgwt_pid_index = "u32 oa_index"

definition pgwt_pid_index_init :: pgwt_pid_index where
  "pgwt_pid_index_init = oa_init"

definition pgwt_pid_index_hash :: "u32 \<Rightarrow> u32" where
  "pgwt_pid_index_hash p = ucast ((ucast p :: u64) * 2654435761)"

definition pgwt_pid_index_find :: "pgwt_pid_index \<Rightarrow> u32 \<Rightarrow> int option" where
  "pgwt_pid_index_find = oa_find pgwt_pid_index_hash"

definition pgwt_pid_index_put_nogrow :: "pgwt_pid_index \<Rightarrow> u32 \<Rightarrow> int \<Rightarrow> pgwt_pid_index option" where
  "pgwt_pid_index_put_nogrow = oa_put_nogrow pgwt_pid_index_hash"

definition pgwt_pid_index_put ::
  "(nat \<Rightarrow> bool) \<Rightarrow> pgwt_pid_index \<Rightarrow> u32 \<Rightarrow> int \<Rightarrow> (put_outcome \<times> pgwt_pid_index) option" where
  "pgwt_pid_index_put alloc = oa_put pgwt_pid_index_hash 0 128 (\<lambda>_. False) alloc"

section \<open>The query-id index\<close>

type_synonym pgwt_qid_index = "u64 oa_index"

definition pgwt_qid_index_init :: pgwt_qid_index where
  "pgwt_qid_index_init = oa_init"

definition pgwt_qid_index_hash :: "u64 \<Rightarrow> u64" where
  "pgwt_qid_index_hash key =
     (let key = (key XOR drop_bit 30 key) * 0xbf58476d1ce4e5b9;
          key = (key XOR drop_bit 27 key) * 0x94d049bb133111eb
      in key XOR drop_bit 31 key)"

text \<open>Masking with a 32-bit mask and truncating is truncating and masking.\<close>

definition qid_hash32 :: "u64 \<Rightarrow> u32" where
  "qid_hash32 key = ucast (pgwt_qid_index_hash key)"

definition pgwt_qid_index_find :: "pgwt_qid_index \<Rightarrow> u64 \<Rightarrow> int option" where
  "pgwt_qid_index_find = oa_find qid_hash32"

definition pgwt_qid_index_put_nogrow :: "pgwt_qid_index \<Rightarrow> u64 \<Rightarrow> int \<Rightarrow> pgwt_qid_index option" where
  "pgwt_qid_index_put_nogrow = oa_put_nogrow qid_hash32"

definition pgwt_qid_index_put ::
  "(nat \<Rightarrow> bool) \<Rightarrow> pgwt_qid_index \<Rightarrow> u64 \<Rightarrow> int \<Rightarrow> (put_outcome \<times> pgwt_qid_index) option" where
  "pgwt_qid_index_put alloc = oa_put qid_hash32 0 128 (\<lambda>c. c > 2 ^ 29) alloc"

section \<open>The triple map\<close>

text \<open>The three parallel key arrays are one array of triples.\<close>

type_synonym pgwt_triple_map = "(u32 \<times> u32 \<times> u32) oa_index"

definition pgwt_triple_map_init :: pgwt_triple_map where
  "pgwt_triple_map_init = oa_init"

definition pgwt_triple_map_clear :: "pgwt_triple_map \<Rightarrow> pgwt_triple_map" where
  "pgwt_triple_map_clear m =
     (let m = (if ix_cap m > 0 then m\<lparr>ix_used := replicate (ix_cap m) False\<rparr> else m)
      in m\<lparr>ix_n := 0\<rparr>)"

fun pgwt_triple_map_hash :: "u32 \<times> u32 \<times> u32 \<Rightarrow> u32" where
  "pgwt_triple_map_hash (a, b, c) =
     (let h = 0x9E3779B97F4A7C15 :: u64;
          h = (h XOR ucast a) * 0xBF58476D1CE4E5B9;
          h = (h XOR ucast b) * 0x94D049BB133111EB;
          h = (h XOR ucast c) * 0xBF58476D1CE4E5B9;
          h = h XOR drop_bit 31 h
      in ucast h)"

definition pgwt_triple_map_put_nogrow ::
  "pgwt_triple_map \<Rightarrow> u32 \<times> u32 \<times> u32 \<Rightarrow> int \<Rightarrow> pgwt_triple_map option" where
  "pgwt_triple_map_put_nogrow = oa_put_nogrow pgwt_triple_map_hash"

definition pgwt_triple_map_grow ::
  "(nat \<Rightarrow> bool) \<Rightarrow> pgwt_triple_map \<Rightarrow> nat \<Rightarrow> (bool \<times> pgwt_triple_map) option" where
  "pgwt_triple_map_grow alloc m newcap =
     (if \<not> alloc newcap then Some (False, m)
      else map_option (Pair True) (oa_grow pgwt_triple_map_hash (0, 0, 0) m newcap))"

text \<open>The slot returned: its index, whether it was created, or a refusal.\<close>

datatype slot_result = Slot u32 bool | SlotNoMem | SlotUB

text \<open>The final probe of the slot function, with insertion of a zero value on a miss.\<close>

definition triple_slot_insert ::
  "pgwt_triple_map \<Rightarrow> u32 \<times> u32 \<times> u32 \<Rightarrow> (slot_result \<times> pgwt_triple_map) option" where
  "triple_slot_insert m k =
     (case oa_probe m k (pgwt_triple_map_hash k AND oa_mask m) of
        None \<Rightarrow> None
      | Some h \<Rightarrow>
          if ix_used m ! unat h then Some (Slot h False, m)
          else Some (Slot h True,
                 m\<lparr>ix_used := (ix_used m)[unat h := True], ix_keys := (ix_keys m)[unat h := k],
                   ix_vals := (ix_vals m)[unat h := 0], ix_n := ix_n m + 1\<rparr>))"

definition triple_grow_insert ::
  "(nat \<Rightarrow> bool) \<Rightarrow> pgwt_triple_map \<Rightarrow> u32 \<times> u32 \<times> u32 \<Rightarrow> (slot_result \<times> pgwt_triple_map) option" where
  "triple_grow_insert alloc m k =
     (if ix_cap m * 2 > oa_INT_MAX then Some (SlotUB, m)
      else case pgwt_triple_map_grow alloc m (if ix_cap m \<noteq> 0 then ix_cap m * 2 else 256) of
          None \<Rightarrow> None
        | Some (False, m) \<Rightarrow> Some (SlotNoMem, m)
        | Some (True, m) \<Rightarrow> triple_slot_insert m k)"

definition pgwt_triple_map_slot ::
  "(nat \<Rightarrow> bool) \<Rightarrow> pgwt_triple_map \<Rightarrow> u32 \<times> u32 \<times> u32 \<Rightarrow> (slot_result \<times> pgwt_triple_map) option" where
  "pgwt_triple_map_slot alloc m k =
     (if ix_cap m \<noteq> 0 \<and> oa_load_ub m then Some (SlotUB, m)
      else if ix_cap m = 0 then triple_grow_insert alloc m k
      else if oa_load_full m then
        (case oa_probe m k (pgwt_triple_map_hash k AND oa_mask m) of
           None \<Rightarrow> None
         | Some h \<Rightarrow> if ix_used m ! unat h then Some (Slot h False, m) else triple_grow_insert alloc m k)
      else triple_slot_insert m k)"


section \<open>Masking is reduction modulo the capacity\<close>

lemma unat_and_mask:
  assumes "c = 2 ^ b" and "b < 32"
  shows "unat (h AND (of_nat c - 1 :: u32)) = unat h mod c"
proof -
  have "(of_nat c - 1 :: u32) = mask b" using assms(1) by (simp add: mask_eq_exp_minus_1)
  then have "h AND (of_nat c - 1) = take_bit b h" by (simp add: take_bit_eq_mask)
  then have "unat (h AND (of_nat c - 1)) = take_bit b (unat h)"
    by (simp only: unsigned_take_bit_eq)
  then show ?thesis using assms(1) by (simp only: take_bit_eq_mod)
qed

lemma unat_succ_mod:
  assumes "c = 2 ^ b" and "b < 32"
  shows "unat (h + 1 :: u32) mod c = (unat h + 1) mod c"
proof -
  have dvd: "c dvd 2 ^ 32"
    unfolding assms(1) by (rule le_imp_power_dvd) (use assms(2) in simp)
  have "unat (h + 1) = (unat h + 1) mod 2 ^ 32" by (simp add: unat_word_ariths)
  then show ?thesis using mod_mod_cancel [OF dvd] by simp
qed

lemma reach_mod: "0 < c \<Longrightarrow> i < c \<Longrightarrow> \<exists>e<c. i = (s + e) mod c" for c :: nat
proof -
  assume c: "0 < c" "i < c"
  have "(s + (i + c - s mod c) mod c) mod c = (s mod c + (i + c - s mod c)) mod c"
    by (simp add: mod_add_left_eq mod_add_right_eq)
  also have "s mod c + (i + c - s mod c) = i + c"
    using c mod_less_divisor [of c s] by linarith
  finally show ?thesis using c by (intro exI [of _ "(i + c - s mod c) mod c"]) simp
qed

section \<open>The representation invariant\<close>

definition oa_path :: "('k \<Rightarrow> u32) \<Rightarrow> 'k oa_index \<Rightarrow> nat \<Rightarrow> bool" where
  "oa_path hash ix i \<longleftrightarrow>
     (\<exists>e<ix_cap ix. i = (unat (hash (ix_keys ix ! i)) + e) mod ix_cap ix \<and>
        (\<forall>j<e. ix_used ix ! ((unat (hash (ix_keys ix ! i)) + j) mod ix_cap ix)))"

definition oa_ok :: "('k \<Rightarrow> u32) \<Rightarrow> 'k oa_index \<Rightarrow> bool" where
  "oa_ok hash ix \<longleftrightarrow>
     length (ix_keys ix) = ix_cap ix \<and> length (ix_vals ix) = ix_cap ix \<and>
     length (ix_used ix) = ix_cap ix \<and>
     (ix_cap ix = 0 \<or> (\<exists>b<32. ix_cap ix = 2 ^ b) \<and> ix_n ix < ix_cap ix) \<and>
     ix_n ix = length (filter (\<lambda>i. ix_used ix ! i) [0..<ix_cap ix]) \<and>
     (\<forall>i<ix_cap ix. \<forall>j<ix_cap ix. ix_used ix ! i \<longrightarrow> ix_used ix ! j \<longrightarrow>
        ix_keys ix ! i = ix_keys ix ! j \<longrightarrow> i = j) \<and>
     (\<forall>i<ix_cap ix. ix_used ix ! i \<longrightarrow> oa_path hash ix i)"

lemma oa_okD:
  assumes "oa_ok hash ix"
  shows "length (ix_keys ix) = ix_cap ix" and "length (ix_vals ix) = ix_cap ix"
    and "length (ix_used ix) = ix_cap ix"
    and "ix_cap ix \<noteq> 0 \<Longrightarrow> \<exists>b<32. ix_cap ix = 2 ^ b" and "ix_cap ix \<noteq> 0 \<Longrightarrow> ix_n ix < ix_cap ix"
    and "ix_n ix = length (filter (\<lambda>i. ix_used ix ! i) [0..<ix_cap ix])"
    and "i < ix_cap ix \<Longrightarrow> j < ix_cap ix \<Longrightarrow> ix_used ix ! i \<Longrightarrow> ix_used ix ! j \<Longrightarrow>
         ix_keys ix ! i = ix_keys ix ! j \<Longrightarrow> i = j"
    and "i < ix_cap ix \<Longrightarrow> ix_used ix ! i \<Longrightarrow> oa_path hash ix i"
proof -
  note a = assms [unfolded oa_ok_def]
  show "length (ix_keys ix) = ix_cap ix" "length (ix_vals ix) = ix_cap ix"
    "length (ix_used ix) = ix_cap ix"
    "ix_n ix = length (filter (\<lambda>i. ix_used ix ! i) [0..<ix_cap ix])"
    using a by - (elim conjE, assumption)+
  show "ix_cap ix \<noteq> 0 \<Longrightarrow> \<exists>b<32. ix_cap ix = 2 ^ b" "ix_cap ix \<noteq> 0 \<Longrightarrow> ix_n ix < ix_cap ix"
    using a by - (elim conjE disjE; simp)+
  show "i < ix_cap ix \<Longrightarrow> j < ix_cap ix \<Longrightarrow> ix_used ix ! i \<Longrightarrow> ix_used ix ! j \<Longrightarrow>
      ix_keys ix ! i = ix_keys ix ! j \<Longrightarrow> i = j"
    using a by (elim conjE) blast
  show "i < ix_cap ix \<Longrightarrow> ix_used ix ! i \<Longrightarrow> oa_path hash ix i"
    using a by (elim conjE) blast
qed

text \<open>The finite map an index stands for.\<close>

definition oa_map :: "'k oa_index \<Rightarrow> 'k \<Rightarrow> int option" where
  "oa_map ix k =
     map_option (\<lambda>i. ix_vals ix ! i)
       (find (\<lambda>i. ix_used ix ! i \<and> ix_keys ix ! i = k) [0..<ix_cap ix])"

lemma oa_map_None: "oa_map ix k = None \<longleftrightarrow> (\<forall>i<ix_cap ix. ix_used ix ! i \<longrightarrow> ix_keys ix ! i \<noteq> k)"
  by (auto simp: oa_map_def find_None_iff)

lemma oa_map_at:
  assumes "oa_ok hash ix" and "i < ix_cap ix" and "ix_used ix ! i" and "ix_keys ix ! i = k"
  shows "oa_map ix k = Some (ix_vals ix ! i)"
proof -
  have "find (\<lambda>i. ix_used ix ! i \<and> ix_keys ix ! i = k) [0..<ix_cap ix] \<noteq> None"
    using assms by (auto simp: find_None_iff)
  then obtain j where j: "find (\<lambda>i. ix_used ix ! i \<and> ix_keys ix ! i = k) [0..<ix_cap ix] = Some j" by auto
  then have "j < ix_cap ix" "ix_used ix ! j" "ix_keys ix ! j = k"
    by (auto simp: find_Some_iff)
  then have "j = i" using oa_okD(7) [OF assms(1)] assms(2-4) by metis
  with j show ?thesis by (simp add: oa_map_def)
qed

section \<open>Probing\<close>

lemma oa_probe_run:
  assumes "ix_cap ix = 2 ^ b" and "b < 32" and "unat h < ix_cap ix"
    and "\<forall>j<d. ix_used ix ! ((unat h + j) mod ix_cap ix) \<and> ix_keys ix ! ((unat h + j) mod ix_cap ix) \<noteq> k"
    and "\<not> ix_used ix ! ((unat h + d) mod ix_cap ix) \<or> ix_keys ix ! ((unat h + d) mod ix_cap ix) = k"
  shows "\<exists>h'. oa_probe ix k h = Some h' \<and> unat h' = (unat h + d) mod ix_cap ix"
  using assms(3-)
proof (induction d arbitrary: h)
  case 0
  then show ?case by (subst oa_probe.simps) auto
next
  case (Suc d)
  let ?h = "(h + 1) AND oa_mask ix"
  have u: "unat ?h = (unat h + 1) mod ix_cap ix"
    unfolding oa_mask_def unat_and_mask [OF assms(1,2)] by (rule unat_succ_mod [OF assms(1,2)])
  then have shift: "(unat ?h + j) mod ix_cap ix = (unat h + Suc j) mod ix_cap ix" for j
    by (simp add: mod_add_left_eq mod_Suc_eq)
  have "unat ?h < ix_cap ix" using u assms(1) by simp
  moreover have "ix_used ix ! ((unat ?h + j) mod ix_cap ix) \<and> ix_keys ix ! ((unat ?h + j) mod ix_cap ix) \<noteq> k"
    if "j < d" for j
    using Suc.prems(2) [rule_format, of "Suc j"] that unfolding shift by simp
  ultimately have "\<exists>h'. oa_probe ix k ?h = Some h' \<and> unat h' = (unat h + Suc d) mod ix_cap ix"
    using Suc.IH [of ?h] Suc.prems(3) unfolding shift by blast
  moreover have "ix_used ix ! unat h" "ix_keys ix ! unat h \<noteq> k"
    using Suc.prems(1,2) by (auto dest: spec [where x = 0])
  ultimately show ?case by (subst oa_probe.simps) simp
qed

lemma oa_probe_spec:
  assumes "oa_ok hash ix" and "ix_cap ix \<noteq> 0"
  obtains h d where "oa_probe ix k (hash k AND oa_mask ix) = Some h" and "unat h < ix_cap ix"
    and "d < ix_cap ix" and "unat h = (unat (hash k) + d) mod ix_cap ix"
    and "\<forall>j<d. ix_used ix ! ((unat (hash k) + j) mod ix_cap ix)"
    and "ix_used ix ! unat h \<longrightarrow> ix_keys ix ! unat h = k"
    and "\<not> ix_used ix ! unat h \<longrightarrow> oa_map ix k = None"
proof -
  let ?c = "ix_cap ix" and ?s = "unat (hash k)"
  let ?stop = "\<lambda>d. \<not> ix_used ix ! ((?s + d) mod ?c) \<or> ix_keys ix ! ((?s + d) mod ?c) = k"
  obtain b where b: "?c = 2 ^ b" "b < 32" using oa_okD(4) [OF assms(1)] assms(2) by blast
  have "\<exists>i<?c. \<not> ix_used ix ! i"
  proof (rule ccontr)
    assume "\<not> (\<exists>i<?c. \<not> ix_used ix ! i)"
    then have "filter (\<lambda>i. ix_used ix ! i) [0..<?c] = [0..<?c]" by (simp add: filter_id_conv)
    then show False using oa_okD(5,6) [OF assms(1)] assms(2) by simp
  qed
  then obtain e where e: "e < ?c" "?stop e" using reach_mod [of ?c _ ?s] assms(2) by (metis gr0I)
  define d where "d = (LEAST d. ?stop d)"
  have d: "?stop d" "d \<le> e" "\<And>j. j < d \<Longrightarrow> \<not> ?stop j"
    unfolding d_def
    by (rule LeastI [of ?stop e, OF e(2)], rule Least_le [of ?stop e, OF e(2)], erule not_less_Least)
  have st: "unat (hash k AND oa_mask ix) = ?s mod ?c"
    unfolding oa_mask_def by (rule unat_and_mask [OF b])
  have run: "(unat (hash k AND oa_mask ix) + j) mod ?c = (?s + j) mod ?c" for j
    by (simp add: st mod_add_left_eq)
  have "unat (hash k AND oa_mask ix) < ?c" using st assms(2) by simp
  from oa_probe_run [OF b this, of d k] d(1,3)
  obtain h where h: "oa_probe ix k (hash k AND oa_mask ix) = Some h" "unat h = (?s + d) mod ?c"
    by (auto simp: run)
  have hc: "unat h < ?c" using h(2) assms(2) by simp
  show thesis
  proof (rule that [OF h(1) hc _ h(2)])
    show "d < ?c" using d(2) e(1) by simp
    show "\<forall>j<d. ix_used ix ! ((?s + j) mod ?c)" using d(3) by blast
    show "ix_used ix ! unat h \<longrightarrow> ix_keys ix ! unat h = k" using d(1) h(2) by simp
    show "\<not> ix_used ix ! unat h \<longrightarrow> oa_map ix k = None"
      unfolding oa_map_None
    proof (intro allI impI notI)
      fix i assume free: "\<not> ix_used ix ! unat h" and i: "i < ?c" "ix_used ix ! i" "ix_keys ix ! i = k"
      then obtain f where f: "i = (?s + f) mod ?c" "\<forall>j<f. ix_used ix ! ((?s + j) mod ?c)"
        using oa_okD(8) [OF assms(1), of i] unfolding oa_path_def by auto
      have "d \<le> f" using d(3) [of f] f(1) i(3) by force
      then show False using free h(2) f i(2) by (cases "d = f") auto
    qed
  qed
qed

lemma oa_find_spec:
  assumes "oa_ok hash ix"
  shows "oa_find hash ix k = Some (case oa_map ix k of None \<Rightarrow> -1 | Some v \<Rightarrow> v)"
proof (cases "ix_cap ix = 0")
  case True
  then show ?thesis by (simp add: oa_find_def oa_map_def)
next
  case False
  obtain h d where "oa_probe ix k (hash k AND oa_mask ix) = Some h" "unat h < ix_cap ix"
    "d < ix_cap ix" "unat h = (unat (hash k) + d) mod ix_cap ix"
    "\<forall>j<d. ix_used ix ! ((unat (hash k) + j) mod ix_cap ix)"
    "ix_used ix ! unat h \<longrightarrow> ix_keys ix ! unat h = k" "\<not> ix_used ix ! unat h \<longrightarrow> oa_map ix k = None"
    by (rule oa_probe_spec [OF assms False, of k])
  then show ?thesis
    using False oa_map_at [OF assms, of "unat h" k] by (cases "ix_used ix ! unat h") (auto simp: oa_find_def)
qed


section \<open>Insertion\<close>

text \<open>Overwriting the value of a used slot, and filling a free slot at the end of its probe path.\<close>

lemma oa_ok_set_val:
  assumes "oa_ok hash ix" and "i < ix_cap ix" and "ix_used ix ! i" and "ix_keys ix ! i = k"
  shows "oa_ok hash (ix\<lparr>ix_vals := (ix_vals ix)[i := v]\<rparr>)"
    and "oa_map (ix\<lparr>ix_vals := (ix_vals ix)[i := v]\<rparr>) = (oa_map ix)(k \<mapsto> v)"
proof -
  let ?ix = "ix\<lparr>ix_vals := (ix_vals ix)[i := v]\<rparr>"
  have "oa_ok hash ?ix = oa_ok hash ix" by (simp add: oa_ok_def oa_path_def)
  with assms(1) show ok: "oa_ok hash ?ix" by simp
  show "oa_map ?ix = (oa_map ix)(k \<mapsto> v)"
  proof
    fix k'
    show "oa_map ?ix k' = ((oa_map ix)(k \<mapsto> v)) k'"
    proof (cases "k' = k")
      case True
      then show ?thesis
        using oa_map_at [OF ok, of i k] assms oa_okD(2) [OF assms(1)] by simp
    next
      case False
      have "(ix_vals ix)[i := v] ! j = ix_vals ix ! j" if "ix_keys ix ! j = k'" for j
        using that False assms(4) by (cases "j = i") auto
      then show ?thesis
        using False by (auto simp: oa_map_def find_Some_iff split: option.split
            intro!: option.map_cong0 dest!: find_Some_iff [THEN iffD1])
    qed
  qed
qed

definition oa_fill :: "'k oa_index \<Rightarrow> nat \<Rightarrow> 'k \<Rightarrow> int \<Rightarrow> 'k oa_index" where
  "oa_fill ix i k v = ix\<lparr>ix_used := (ix_used ix)[i := True], ix_keys := (ix_keys ix)[i := k],
     ix_vals := (ix_vals ix)[i := v], ix_n := ix_n ix + 1\<rparr>"

lemma oa_fill_fields [simp]:
  "ix_used (oa_fill ix i k v) = (ix_used ix)[i := True]"
  "ix_keys (oa_fill ix i k v) = (ix_keys ix)[i := k]"
  "ix_vals (oa_fill ix i k v) = (ix_vals ix)[i := v]"
  "ix_cap (oa_fill ix i k v) = ix_cap ix"
  "ix_n (oa_fill ix i k v) = ix_n ix + 1"
  by (simp_all add: oa_fill_def)

lemma filter_upt_update:
  assumes "i < c" and "length us = c" and "\<not> us ! i"
  shows "length (filter (\<lambda>j. us[i := True] ! j) [0..<c]) = Suc (length (filter (\<lambda>j. us ! j) [0..<c]))"
proof -
  have "{j. j < c \<and> us[i := True] ! j} = insert i {j. j < c \<and> us ! j}"
    using assms by (auto simp: nth_list_update split: if_splits)
  moreover have "finite {j. j < c \<and> us ! j}" by simp
  moreover have "length (filter P [0..<c]) = card {j. j < c \<and> P j}" for P
    using distinct_card [of "filter P [0..<c]"] by (simp add: atLeast0LessThan Int_def conj_commute)
  ultimately show ?thesis using assms(3) by simp
qed

lemma oa_path_fill_keeps:
  assumes "oa_path hash ix j" and "j \<noteq> i" and "length (ix_used ix) = ix_cap ix" and "i < ix_cap ix"
  shows "oa_path hash (oa_fill ix i k v) j"
proof -
  obtain e where "e < ix_cap ix" "j = (unat (hash (ix_keys ix ! j)) + e) mod ix_cap ix"
    "\<forall>m<e. ix_used ix ! ((unat (hash (ix_keys ix ! j)) + m) mod ix_cap ix)"
    using assms(1) unfolding oa_path_def by blast
  then show ?thesis
    using assms(2-4) unfolding oa_path_def
    by (intro exI [of _ e]) (auto simp: nth_list_update)
qed

lemma oa_ok_fill:
  assumes "oa_ok hash ix" and "i < ix_cap ix" and "\<not> ix_used ix ! i" and "oa_map ix k = None"
    and "i = (unat (hash k) + d) mod ix_cap ix" and "d < ix_cap ix"
    and "\<forall>j<d. ix_used ix ! ((unat (hash k) + j) mod ix_cap ix)" and "ix_n ix + 1 < ix_cap ix"
  shows "oa_ok hash (oa_fill ix i k v)"
proof -
  note ok = oa_okD [OF assms(1)]
  have c: "ix_cap ix \<noteq> 0" using assms(2) by simp
  have absent: "\<forall>j<ix_cap ix. ix_used ix ! j \<longrightarrow> ix_keys ix ! j \<noteq> k"
    using assms(4) unfolding oa_map_None .
  have used_fill: "ix_used (oa_fill ix i k v) ! j \<longleftrightarrow> j = i \<or> ix_used ix ! j" if "j < ix_cap ix" for j
    using that ok(3) assms(2) by (auto simp: nth_list_update)
  have key_fill: "ix_keys (oa_fill ix i k v) ! j = (if j = i then k else ix_keys ix ! j)" if "j < ix_cap ix" for j
    using that ok(1) assms(2) by (auto simp: nth_list_update)
  have path_i: "oa_path hash (oa_fill ix i k v) i"
    unfolding oa_path_def using assms(2,5,6,7) ok(1,3)
    by (intro exI [of _ d]) (auto simp: nth_list_update)
  show ?thesis
    unfolding oa_ok_def
  proof (intro conjI allI impI)
    show "ix_cap (oa_fill ix i k v) = 0 \<or>
        (\<exists>b<32. ix_cap (oa_fill ix i k v) = 2 ^ b) \<and> ix_n (oa_fill ix i k v) < ix_cap (oa_fill ix i k v)"
      using ok(4) [OF c] assms(8) by simp
    show "ix_n (oa_fill ix i k v) =
        length (filter (\<lambda>j. ix_used (oa_fill ix i k v) ! j) [0..<ix_cap (oa_fill ix i k v)])"
      using filter_upt_update [OF assms(2) ok(3) assms(3)] ok(6) by simp
  next
    fix a b
    assume ab: "a < ix_cap (oa_fill ix i k v)" "b < ix_cap (oa_fill ix i k v)"
      "ix_used (oa_fill ix i k v) ! a" "ix_used (oa_fill ix i k v) ! b"
      "ix_keys (oa_fill ix i k v) ! a = ix_keys (oa_fill ix i k v) ! b"
    have lt: "a < ix_cap ix" "b < ix_cap ix" using ab(1,2) by simp_all
    have u: "a = i \<or> ix_used ix ! a" "b = i \<or> ix_used ix ! b"
      using used_fill [OF lt(1)] used_fill [OF lt(2)] ab(3,4) by blast+
    have e: "(if a = i then k else ix_keys ix ! a) = (if b = i then k else ix_keys ix ! b)"
      using ab(5) unfolding key_fill [OF lt(1)] key_fill [OF lt(2)] .
    consider "a = i" "b = i" | "a \<noteq> i" "b \<noteq> i" | "a = i" "b \<noteq> i" | "a \<noteq> i" "b = i" by blast
    then show "a = b"
    proof cases
      case 2
      with u e lt show ?thesis by (intro ok(7)) simp_all
    qed (use u e lt absent in auto)
  next
    fix j assume "j < ix_cap (oa_fill ix i k v)" "ix_used (oa_fill ix i k v) ! j"
    then show "oa_path hash (oa_fill ix i k v) j"
      using path_i used_fill [of j] oa_path_fill_keeps [OF ok(8) [of j] _ ok(3) assms(2)]
      by (cases "j = i") auto
  qed (use ok(1-3) in simp_all)
qed

lemma oa_map_fill:
  assumes "oa_ok hash ix" and "oa_ok hash (oa_fill ix i k v)" and "i < ix_cap ix"
    and "oa_map ix k = None" and "\<not> ix_used ix ! i"
  shows "oa_map (oa_fill ix i k v) = (oa_map ix)(k \<mapsto> v)"
proof
  fix k'
  note len = oa_okD(1-3) [OF assms(1)]
  let ?f = "oa_fill ix i k v"
  show "oa_map ?f k' = ((oa_map ix)(k \<mapsto> v)) k'"
  proof (cases "k' = k")
    case True
    then show ?thesis using oa_map_at [OF assms(2), of i k] assms(3) len by simp
  next
    case False
    show ?thesis
    proof (cases "oa_map ix k'")
      case None
      then have "oa_map ?f k' = None"
        using False assms(3) len unfolding oa_map_None by (auto simp: nth_list_update)
      with None False show ?thesis by simp
    next
      case (Some w)
      then obtain j where j: "j < ix_cap ix" "ix_used ix ! j" "ix_keys ix ! j = k'"
        using oa_map_None [of ix k'] by auto
      then have ne: "j \<noteq> i" using assms(5) by auto
      have "oa_map ix k' = Some (ix_vals ix ! j)" by (rule oa_map_at [OF assms(1) j])
      moreover have "oa_map ?f k' = Some (ix_vals ?f ! j)"
        by (rule oa_map_at [OF assms(2)]) (use j ne len in auto)
      ultimately show ?thesis using ne False by simp
    qed
  qed
qed

lemma oa_put_nogrow_spec:
  assumes "oa_ok hash ix" and "ix_n ix + 1 < ix_cap ix"
  obtains ix' where "oa_put_nogrow hash ix k v = Some ix'" and "oa_ok hash ix'"
    and "oa_map ix' = (oa_map ix)(k \<mapsto> v)" and "ix_cap ix' = ix_cap ix"
    and "ix_n ix' = (if oa_map ix k = None then ix_n ix + 1 else ix_n ix)"
proof -
  have c: "ix_cap ix \<noteq> 0" using assms(2) by simp
  obtain h d where h: "oa_probe ix k (hash k AND oa_mask ix) = Some h" "unat h < ix_cap ix"
    "d < ix_cap ix" "unat h = (unat (hash k) + d) mod ix_cap ix"
    "\<forall>j<d. ix_used ix ! ((unat (hash k) + j) mod ix_cap ix)"
    "ix_used ix ! unat h \<longrightarrow> ix_keys ix ! unat h = k" "\<not> ix_used ix ! unat h \<longrightarrow> oa_map ix k = None"
    by (rule oa_probe_spec [OF assms(1) c, of k])
  show thesis
  proof (cases "ix_used ix ! unat h")
    case True
    note sv = oa_ok_set_val [OF assms(1) h(2) True h(6) [rule_format, OF True], of v]
    show ?thesis
      by (rule that [OF _ sv]) (use h(1) True oa_map_at [OF assms(1) h(2) True] h(6) in
          \<open>auto simp: oa_put_nogrow_def\<close>)
  next
    case False
    note none = h(7) [rule_format, OF False]
    note ok = oa_ok_fill [OF assms(1) h(2) False none h(4,3,5) assms(2), of v]
    note mp = oa_map_fill [OF assms(1) ok h(2) none False]
    show ?thesis
      by (rule that [OF _ ok mp]) (use h(1) False none in \<open>simp_all add: oa_put_nogrow_def oa_fill_def\<close>)
  qed
qed


section \<open>Growth\<close>

lemma oa_ok_calloc: "b < 32 \<Longrightarrow> oa_ok hash (oa_calloc z (2 ^ b))"
  by (auto simp: oa_ok_def oa_calloc_def)

lemma oa_ok_init: "oa_ok hash oa_init"
  by (simp add: oa_ok_def oa_init_def)

lemma oa_map_calloc: "oa_map (oa_calloc z c) = Map.empty"
  by (rule ext) (simp add: oa_map_None, simp add: oa_calloc_def)

lemma oa_map_init: "oa_map oa_init = Map.empty"
  by (rule ext) (simp add: oa_map_None, simp add: oa_init_def)

lemma oa_rehash_spec:
  assumes "oa_ok hash old" and "oa_ok hash ix" and "\<forall>i\<in>set ids. i < ix_cap old"
    and "ix_n ix + length (filter (\<lambda>i. ix_used old ! i) ids) < ix_cap ix"
  shows "\<exists>ix'. oa_rehash hash old ids ix = Some ix' \<and> oa_ok hash ix' \<and> ix_cap ix' = ix_cap ix \<and>
     ix_n ix' \<le> ix_n ix + length (filter (\<lambda>i. ix_used old ! i) ids) \<and>
     oa_map ix' = (\<lambda>k. if \<exists>i\<in>set ids. ix_used old ! i \<and> ix_keys old ! i = k then oa_map old k else oa_map ix k)"
  using assms(2-)
proof (induction ids arbitrary: ix)
  case (Cons i ids)
  show ?case
  proof (cases "ix_used old ! i")
    case False
    then show ?thesis using Cons.IH [of ix] Cons.prems by simp
  next
    case True
    let ?k = "ix_keys old ! i" and ?v = "ix_vals old ! i"
    have fit: "ix_n ix + 1 < ix_cap ix" using Cons.prems(3) True by simp
    obtain ix1 where one: "oa_put_nogrow hash ix ?k ?v = Some ix1" "oa_ok hash ix1"
      "oa_map ix1 = (oa_map ix)(?k \<mapsto> ?v)" "ix_cap ix1 = ix_cap ix"
      "ix_n ix1 = (if oa_map ix ?k = None then ix_n ix + 1 else ix_n ix)"
      by (rule oa_put_nogrow_spec [OF Cons.prems(1) fit])
    have le: "ix_n ix1 \<le> ix_n ix + 1" using one(5) by simp
    have "ix_n ix1 + length (filter (\<lambda>i. ix_used old ! i) ids) < ix_cap ix1"
      using le one(4) Cons.prems(3) True by simp
    from Cons.IH [OF one(2) _ this] Cons.prems(2)
    obtain ix2 where two: "oa_rehash hash old ids ix1 = Some ix2" "oa_ok hash ix2" "ix_cap ix2 = ix_cap ix1"
      "ix_n ix2 \<le> ix_n ix1 + length (filter (\<lambda>i. ix_used old ! i) ids)"
      "oa_map ix2 = (\<lambda>k. if \<exists>i\<in>set ids. ix_used old ! i \<and> ix_keys old ! i = k then oa_map old k else oa_map ix1 k)"
      by auto
    have old_i: "oa_map old ?k = Some ?v"
      using oa_map_at [OF assms(1), of i ?k] Cons.prems(2) True by simp
    show ?thesis
      by (intro exI [of _ ix2]) (use one two le True old_i in \<open>auto simp: fun_eq_iff\<close>)
  qed
qed simp

lemma oa_grow_spec:
  assumes "oa_ok hash ix" and "b < 32" and "ix_n ix < 2 ^ b"
  obtains ix' where "oa_grow hash z ix (2 ^ b) = Some ix'" and "oa_ok hash ix'"
    and "oa_map ix' = oa_map ix" and "ix_cap ix' = 2 ^ b" and "ix_n ix' \<le> ix_n ix"
proof -
  let ?new = "oa_calloc z (2 ^ b)"
  have new: "ix_n ?new = 0" "ix_cap ?new = 2 ^ b" by (simp_all add: oa_calloc_def)
  have cnt: "length (filter (\<lambda>i. ix_used ix ! i) [0..<ix_cap ix]) = ix_n ix"
    using oa_okD(6) [OF assms(1)] by simp
  obtain ix' where r: "oa_rehash hash ix [0..<ix_cap ix] ?new = Some ix'" "oa_ok hash ix'"
    "ix_cap ix' = ix_cap ?new" "ix_n ix' \<le> 0 + ix_n ix"
    "oa_map ix' = (\<lambda>k. if \<exists>i\<in>set [0..<ix_cap ix]. ix_used ix ! i \<and> ix_keys ix ! i = k
                      then oa_map ix k else oa_map ?new k)"
    using oa_rehash_spec [OF assms(1) oa_ok_calloc [OF assms(2)], of "[0..<ix_cap ix]" z] assms(3) cnt new
    by auto
  have "oa_map ix k = None" if "\<not> (\<exists>i\<in>set [0..<ix_cap ix]. ix_used ix ! i \<and> ix_keys ix ! i = k)" for k
    unfolding oa_map_None using that by auto
  then have "oa_map ix' = oa_map ix" using r(5) by (auto simp: oa_map_calloc fun_eq_iff)
  then show ?thesis using that [OF _ r(2)] r(1,3,4) new by (simp add: oa_grow_def)
qed

lemma double_pow2:
  assumes "c = 2 ^ b" and "c * 2 \<le> oa_INT_MAX"
  shows "c * 2 = 2 ^ Suc b" and "Suc b < 32"
proof -
  show "c * 2 = 2 ^ Suc b" using assms(1) by simp
  with assms(2) have "(2 :: nat) ^ Suc b < 2 ^ 31" by (simp add: oa_INT_MAX_def)
  then have "Suc b < 31" by (rule power_less_imp_less_exp [rotated]) simp
  then show "Suc b < 32" by simp
qed

text \<open>The growing step shared by the three maps: from the old capacity to the doubled or the first one.\<close>

lemma oa_grow_next:
  assumes "oa_ok hash ix" and "ix_cap ix * 2 \<le> oa_INT_MAX" and "first = 2 ^ fb" and "1 \<le> fb" and "fb < 32"
  obtains ix' where
    "oa_grow hash z ix (if ix_cap ix \<noteq> 0 then ix_cap ix * 2 else first) = Some ix'"
    and "oa_ok hash ix'" and "oa_map ix' = oa_map ix" and "ix_n ix' + 1 < ix_cap ix'"
proof (cases "ix_cap ix = 0")
  case True
  then have n0: "ix_n ix = 0" using oa_okD(6) [OF assms(1)] by simp
  then have "ix_n ix < 2 ^ fb" by simp
  then obtain ix' where g: "oa_grow hash z ix (2 ^ fb) = Some ix'" "oa_ok hash ix'"
    "oa_map ix' = oa_map ix" "ix_cap ix' = 2 ^ fb" "ix_n ix' \<le> ix_n ix"
    by (rule oa_grow_spec [OF assms(1,5)])
  have "(1 :: nat) < 2 ^ fb" using assms(4) by (intro one_less_power) simp_all
  then show ?thesis using g n0 True assms(3) by (intro that [OF _ g(2,3)]) simp_all
next
  case False
  obtain b where b: "ix_cap ix = 2 ^ b" using oa_okD(4) [OF assms(1) False] by blast
  note d = double_pow2 [OF b assms(2)]
  have n: "ix_n ix < ix_cap ix" by (rule oa_okD(5) [OF assms(1) False])
  then have "ix_n ix < 2 ^ Suc b" using b by simp
  then obtain ix' where g: "oa_grow hash z ix (2 ^ Suc b) = Some ix'" "oa_ok hash ix'"
    "oa_map ix' = oa_map ix" "ix_cap ix' = 2 ^ Suc b" "ix_n ix' \<le> ix_n ix"
    by (rule oa_grow_spec [OF assms(1) d(2)])
  show ?thesis using g n b d False by (intro that [OF _ g(2,3)]) (simp_all add: mult.commute)
qed

lemma oa_put_spec:
  assumes "oa_ok hash ix" and "first = 2 ^ fb" and "1 \<le> fb" and "fb < 32"
  obtains oc ix' where "oa_put hash z first refuse alloc ix k v = Some (oc, ix')" and "oa_ok hash ix'"
    and "oa_map ix' = (if oc = PutOk then (oa_map ix)(k \<mapsto> v) else oa_map ix)"
    and "oc \<noteq> PutOk \<longrightarrow> ix' = ix" and "oc = PutUB \<longrightarrow> ix_cap ix > 2 ^ 27"
proof -
  let ?put = "oa_put hash z first refuse alloc ix k v"
  let ?new = "if ix_cap ix \<noteq> 0 then ix_cap ix * 2 else first"
  have ins: "\<exists>ix'. oa_put_nogrow hash m k v = Some ix' \<and> oa_ok hash ix' \<and> oa_map ix' = (oa_map m)(k \<mapsto> v)"
    if m: "oa_ok hash m" "ix_n m + 1 < ix_cap m" for m
    by (rule oa_put_nogrow_spec [OF m, of k v]) blast
  show thesis
  proof (cases "ix_cap ix \<noteq> 0 \<and> oa_load_ub ix")
    case True
    have "ix_n ix < ix_cap ix" using oa_okD(5) [OF assms(1)] True by blast
    then have "ix_cap ix > 2 ^ 27" using True by (auto simp: oa_load_ub_def oa_INT_MAX_def)
    then show ?thesis using True assms(1) by (intro that [of PutUB ix]) (simp_all add: oa_put_def)
  next
    case noub: False
    show ?thesis
    proof (cases "ix_cap ix = 0 \<or> oa_load_full ix")
      case False
      then have "ix_n ix + 1 < ix_cap ix" by (auto simp: oa_load_full_def)
      then obtain ix' where "oa_put_nogrow hash ix k v = Some ix'" "oa_ok hash ix'"
        "oa_map ix' = (oa_map ix)(k \<mapsto> v)" using ins [OF assms(1)] by blast
      then show ?thesis using noub False by (intro that [of PutOk ix']) (simp_all add: oa_put_def)
    next
      case full: True
      consider "refuse (ix_cap ix)" | "\<not> refuse (ix_cap ix)" "ix_cap ix * 2 > oa_INT_MAX"
        | "\<not> refuse (ix_cap ix)" "\<not> ix_cap ix * 2 > oa_INT_MAX" "\<not> alloc ?new"
        | "\<not> refuse (ix_cap ix)" "\<not> ix_cap ix * 2 > oa_INT_MAX" "alloc ?new" by blast
      then show ?thesis
      proof cases
        case 4
        then have "ix_cap ix * 2 \<le> oa_INT_MAX" by simp
        then obtain m where m: "oa_grow hash z ix ?new = Some m" "oa_ok hash m" "oa_map m = oa_map ix"
          "ix_n m + 1 < ix_cap m"
          by (rule oa_grow_next [OF assms(1) _ assms(2-4)])
        from ins [OF m(2,4)] obtain ix' where "oa_put_nogrow hash m k v = Some ix'" "oa_ok hash ix'"
          "oa_map ix' = (oa_map ix)(k \<mapsto> v)" using m(3) by auto
        then show ?thesis
          using noub full 4 m(1) by (intro that [of PutOk ix']) (simp_all only: oa_put_def Let_def, auto)
      qed (use noub full assms(1) in \<open>auto simp: oa_put_def Let_def oa_INT_MAX_def intro!: that\<close>)
    qed
  qed
qed


section \<open>The triple map's slot\<close>

lemma triple_insert_spec:
  assumes "oa_ok pgwt_triple_map_hash m" and "ix_n m + 1 < ix_cap m"
  obtains h cr m' where "triple_slot_insert m k = Some (Slot h cr, m')" and "oa_ok pgwt_triple_map_hash m'"
    and "unat h < ix_cap m'" and "ix_used m' ! unat h" and "ix_keys m' ! unat h = k"
    and "cr \<longleftrightarrow> oa_map m k = None"
    and "oa_map m' = (if cr then (oa_map m)(k \<mapsto> 0) else oa_map m)"
    and "ix_n m' = (if cr then ix_n m + 1 else ix_n m)"
proof -
  have c: "ix_cap m \<noteq> 0" using assms(2) by simp
  obtain h d where h: "oa_probe m k (pgwt_triple_map_hash k AND oa_mask m) = Some h" "unat h < ix_cap m"
    "d < ix_cap m" "unat h = (unat (pgwt_triple_map_hash k) + d) mod ix_cap m"
    "\<forall>j<d. ix_used m ! ((unat (pgwt_triple_map_hash k) + j) mod ix_cap m)"
    "ix_used m ! unat h \<longrightarrow> ix_keys m ! unat h = k" "\<not> ix_used m ! unat h \<longrightarrow> oa_map m k = None"
    by (rule oa_probe_spec [OF assms(1) c, of k])
  show thesis
  proof (cases "ix_used m ! unat h")
    case True
    then show ?thesis
      using h(1,2,6) oa_map_at [OF assms(1) h(2) True] assms(1)
      by (intro that [of h False m]) (simp_all add: triple_slot_insert_def)
  next
    case False
    note none = h(7) [rule_format, OF False]
    note ok = oa_ok_fill [OF assms(1) h(2) False none h(4,3,5) assms(2), of 0]
    note mp = oa_map_fill [OF assms(1) ok h(2) none False]
    have "triple_slot_insert m k = Some (Slot h True, oa_fill m (unat h) k 0)"
      using h(1) False by (simp add: triple_slot_insert_def oa_fill_def)
    then show ?thesis
      by (rule that [OF _ ok]) (use h(2) oa_okD(1,3) [OF assms(1)] none mp in simp_all)
  qed
qed

text \<open>What every call of the slot function guarantees.\<close>

definition slot_post ::
  "pgwt_triple_map \<Rightarrow> u32 \<times> u32 \<times> u32 \<Rightarrow> slot_result \<Rightarrow> pgwt_triple_map \<Rightarrow> bool" where
  "slot_post m k r m' \<longleftrightarrow>
     oa_ok pgwt_triple_map_hash m' \<and>
     (case r of
        Slot h cr \<Rightarrow> unat h < ix_cap m' \<and> ix_used m' ! unat h \<and> ix_keys m' ! unat h = k \<and>
          (cr \<longleftrightarrow> oa_map m k = None) \<and>
          oa_map m' = (if cr then (oa_map m)(k \<mapsto> 0) else oa_map m)
      | SlotNoMem \<Rightarrow> m' = m \<and> oa_map m k = None
      | SlotUB \<Rightarrow> m' = m \<and> ix_cap m > 2 ^ 27)"

lemma triple_insert_post:
  assumes "oa_ok pgwt_triple_map_hash m" and "ix_n m + 1 < ix_cap m" and "oa_map m = oa_map m0"
  shows "\<exists>r m'. triple_slot_insert m k = Some (r, m') \<and> slot_post m0 k r m'"
  by (rule triple_insert_spec [OF assms(1,2), of k]) (auto simp: slot_post_def assms(3))

lemma triple_grow_post:
  assumes "oa_ok pgwt_triple_map_hash m" and "oa_map m k = None"
  shows "\<exists>r m'. triple_grow_insert alloc m k = Some (r, m') \<and> slot_post m k r m'"
proof -
  let ?new = "if ix_cap m \<noteq> 0 then ix_cap m * 2 else 256"
  consider "ix_cap m * 2 > oa_INT_MAX" | "\<not> ix_cap m * 2 > oa_INT_MAX" "\<not> alloc ?new"
    | "\<not> ix_cap m * 2 > oa_INT_MAX" "alloc ?new" by blast
  then show ?thesis
  proof cases
    case 1
    then show ?thesis
      using assms by (auto simp: triple_grow_insert_def slot_post_def oa_INT_MAX_def)
  next
    case 2
    then show ?thesis
      using assms by (simp add: triple_grow_insert_def pgwt_triple_map_grow_def slot_post_def)
  next
    case 3
    then have "ix_cap m * 2 \<le> oa_INT_MAX" by simp
    then obtain g where g: "oa_grow pgwt_triple_map_hash (0, 0, 0) m ?new = Some g"
      "oa_ok pgwt_triple_map_hash g" "oa_map g = oa_map m" "ix_n g + 1 < ix_cap g"
      by (rule oa_grow_next [OF assms(1), where fb = 8 and first = 256]) simp_all
    from triple_insert_post [OF g(2,4,3), of k] show ?thesis
      using 3 g(1) by (simp only: triple_grow_insert_def pgwt_triple_map_grow_def) simp
  qed
qed

lemma triple_slot_post:
  assumes "oa_ok pgwt_triple_map_hash m"
  shows "\<exists>r m'. pgwt_triple_map_slot alloc m k = Some (r, m') \<and> slot_post m k r m'"
proof (cases "ix_cap m = 0")
  case True
  then have "oa_map m k = None" by (simp add: oa_map_None)
  from triple_grow_post [OF assms this] show ?thesis using True by (simp add: pgwt_triple_map_slot_def)
next
  case False
  have n: "ix_n m < ix_cap m" by (rule oa_okD(5) [OF assms False])
  obtain h d where h: "oa_probe m k (pgwt_triple_map_hash k AND oa_mask m) = Some h" "unat h < ix_cap m"
    "d < ix_cap m" "unat h = (unat (pgwt_triple_map_hash k) + d) mod ix_cap m"
    "\<forall>j<d. ix_used m ! ((unat (pgwt_triple_map_hash k) + j) mod ix_cap m)"
    "ix_used m ! unat h \<longrightarrow> ix_keys m ! unat h = k" "\<not> ix_used m ! unat h \<longrightarrow> oa_map m k = None"
    by (rule oa_probe_spec [OF assms False, of k])
  consider "oa_load_ub m" | "\<not> oa_load_ub m" "\<not> oa_load_full m"
    | "\<not> oa_load_ub m" "oa_load_full m" "ix_used m ! unat h"
    | "\<not> oa_load_ub m" "oa_load_full m" "\<not> ix_used m ! unat h" by blast
  then show ?thesis
  proof cases
    case 1
    then have "ix_cap m > 2 ^ 27" using n by (auto simp: oa_load_ub_def oa_INT_MAX_def)
    then show ?thesis using 1 False assms by (simp add: pgwt_triple_map_slot_def slot_post_def)
  next
    case 2
    then have "ix_n m + 1 < ix_cap m" by (simp add: oa_load_full_def)
    from triple_insert_post [OF assms this refl, of k] show ?thesis
      using 2 False by (simp add: pgwt_triple_map_slot_def)
  next
    case 3
    then show ?thesis
      using False assms h(1,2,6) oa_map_at [OF assms h(2)]
      by (simp add: pgwt_triple_map_slot_def slot_post_def)
  next
    case 4
    then have "oa_map m k = None" using h(7) by blast
    from triple_grow_post [OF assms this, of alloc] show ?thesis
      using 4 False h(1) by (simp add: pgwt_triple_map_slot_def)
  qed
qed

text \<open>How large the arrays get: a growth only happens at seventy percent load.\<close>

lemma oa_n_card:
  assumes "oa_ok hash ix"
  shows "ix_n ix = card (dom (oa_map ix))"
proof -
  let ?U = "{i. i < ix_cap ix \<and> ix_used ix ! i}"
  have "dom (oa_map ix) = (\<lambda>i. ix_keys ix ! i) ` ?U"
    by (auto simp: dom_def oa_map_None simp del: not_None_eq)
  moreover have "inj_on (\<lambda>i. ix_keys ix ! i) ?U"
    using oa_okD(7) [OF assms] by (auto intro!: inj_onI)
  ultimately have "card (dom (oa_map ix)) = card ?U" by (simp add: card_image)
  also have "?U = set (filter (\<lambda>i. ix_used ix ! i) [0..<ix_cap ix])" by auto
  also have "card \<dots> = ix_n ix" using oa_okD(6) [OF assms] by (subst distinct_card) simp_all
  finally show ?thesis by simp
qed

lemma oa_grow_cap: "oa_grow hash z ix c = Some ix' \<Longrightarrow> ix_cap ix' = c"
proof -
  have "oa_rehash hash old ids jx = Some ix' \<Longrightarrow> ix_cap ix' = ix_cap jx" for old ids jx
    by (induction ids arbitrary: jx)
      (auto simp: oa_put_nogrow_def split: if_splits option.splits)
  then show "oa_grow hash z ix c = Some ix' \<Longrightarrow> ix_cap ix' = c"
    by (auto simp: oa_grow_def oa_calloc_def)
qed

lemma triple_insert_cap: "triple_slot_insert m k = Some (r, m') \<Longrightarrow> ix_cap m' = ix_cap m \<and> (\<exists>h cr. r = Slot h cr)"
  by (auto simp: triple_slot_insert_def split: option.splits if_splits)

lemma triple_grow_insert_cap:
  assumes "triple_grow_insert alloc m k = Some (r, m')" and "alloc = (\<lambda>_. True)" and "ix_cap m \<le> 2 ^ 27"
  shows "ix_cap m' = (if ix_cap m \<noteq> 0 then ix_cap m * 2 else 256)" and "\<exists>h cr. r = Slot h cr"
  using assms
  by (auto simp: triple_grow_insert_def pgwt_triple_map_grow_def oa_INT_MAX_def
      dest!: oa_grow_cap triple_insert_cap split: option.splits if_splits)

lemma triple_slot_cap:
  assumes "pgwt_triple_map_slot alloc m k = Some (r, m')" and "alloc = (\<lambda>_. True)" and "ix_cap m \<le> 2 ^ 27"
    and "ix_n m < 2 ^ 27"
  shows "ix_cap m' = ix_cap m \<or> ix_cap m' = 256 \<or> 7 * ix_cap m' \<le> 20 * (ix_n m + 1)" and "\<exists>h cr. r = Slot h cr"
proof -
  have ub: "\<not> oa_load_ub m" using assms(3,4) by (simp add: oa_load_ub_def oa_INT_MAX_def)
  show "ix_cap m' = ix_cap m \<or> ix_cap m' = 256 \<or> 7 * ix_cap m' \<le> 20 * (ix_n m + 1)" "\<exists>h cr. r = Slot h cr"
    using assms(1) ub triple_grow_insert_cap [OF _ assms(2,3), of k r m'] triple_insert_cap [of m k r m']
    by (auto simp: pgwt_triple_map_slot_def oa_load_full_def split: option.splits if_splits)
qed

lemma triple_clear_spec:
  assumes "oa_ok pgwt_triple_map_hash m"
  shows "oa_ok pgwt_triple_map_hash (pgwt_triple_map_clear m)" and "oa_map (pgwt_triple_map_clear m) = Map.empty"
    and "ix_cap (pgwt_triple_map_clear m) = ix_cap m"
proof -
  have used: "\<not> ix_used (pgwt_triple_map_clear m) ! i" if "i < ix_cap m" for i
    using that by (simp add: pgwt_triple_map_clear_def Let_def)
  show cap: "ix_cap (pgwt_triple_map_clear m) = ix_cap m"
    by (simp add: pgwt_triple_map_clear_def Let_def)
  have rest: "ix_keys (pgwt_triple_map_clear m) = ix_keys m" "ix_vals (pgwt_triple_map_clear m) = ix_vals m"
    "length (ix_used (pgwt_triple_map_clear m)) = ix_cap m" "ix_n (pgwt_triple_map_clear m) = 0"
    using oa_okD(3) [OF assms] by (simp_all add: pgwt_triple_map_clear_def Let_def)
  have "filter (\<lambda>i. ix_used (pgwt_triple_map_clear m) ! i) [0..<ix_cap m] = []"
    using used by (simp add: filter_empty_conv)
  then show "oa_ok pgwt_triple_map_hash (pgwt_triple_map_clear m)"
    unfolding oa_ok_def cap rest using oa_okD(1,2,4) [OF assms] used by auto
  show "oa_map (pgwt_triple_map_clear m) = Map.empty"
    by (rule ext) (simp add: oa_map_None cap used)
qed

section \<open>The interface the clients use\<close>

text \<open>
  What a client of an index relies on: an invariant, the finite map it stands for, a lookup that always
  returns, and a put that either updates the map at one key or changes nothing.
\<close>

locale slot_index =
  fixes inv :: "'m \<Rightarrow> bool" and contents :: "'m \<Rightarrow> 'k \<Rightarrow> int option" and empty :: 'm
    and find :: "'m \<Rightarrow> 'k \<Rightarrow> int option"
    and put :: "(nat \<Rightarrow> bool) \<Rightarrow> 'm \<Rightarrow> 'k \<Rightarrow> int \<Rightarrow> (put_outcome \<times> 'm) option"
  assumes inv_empty: "inv empty" and contents_empty: "contents empty = Map.empty"
    and find_contents: "inv m \<Longrightarrow> find m k = Some (case contents m k of None \<Rightarrow> -1 | Some v \<Rightarrow> v)"
    and put_returns: "inv m \<Longrightarrow> \<exists>oc m'. put alloc m k v = Some (oc, m')"
    and put_inv: "inv m \<Longrightarrow> put alloc m k v = Some (oc, m') \<Longrightarrow> inv m'"
    and put_contents: "inv m \<Longrightarrow> put alloc m k v = Some (oc, m') \<Longrightarrow>
      contents m' = (if oc = PutOk then (contents m)(k \<mapsto> v) else contents m)"
begin

lemma find_after_put:
  assumes "inv m" and "put alloc m k v = Some (PutOk, m')"
  shows "find m' k = Some v" and "k' \<noteq> k \<Longrightarrow> find m' k' = find m k'"
  using find_contents [OF put_inv [OF assms]] find_contents [OF assms(1)] put_contents [OF assms] by auto

lemma find_after_failed_put:
  assumes "inv m" and "put alloc m k v = Some (oc, m')" and "oc \<noteq> PutOk"
  shows "find m' k' = find m k'"
  using find_contents [OF put_inv [OF assms(1,2)]] find_contents [OF assms(1)]
    put_contents [OF assms(1,2)] assms(3) by simp

lemma find_empty: "find empty k = Some (-1)"
  using find_contents [OF inv_empty] contents_empty by simp

primrec put_all :: "(nat \<Rightarrow> bool) \<Rightarrow> ('k \<times> int) list \<Rightarrow> 'm \<Rightarrow> 'm option" where
  "put_all alloc [] m = Some m"
| "put_all alloc (kv # kvs) m =
     (case put alloc m (fst kv) (snd kv) of Some (PutOk, m') \<Rightarrow> put_all alloc kvs m' | _ \<Rightarrow> None)"

lemma put_all_contents:
  "inv m \<Longrightarrow> put_all alloc kvs m = Some m' \<Longrightarrow> inv m' \<and> contents m' = (contents m) ++ map_of (rev kvs)"
proof (induction kvs arbitrary: m)
  case (Cons kv kvs)
  then obtain m1 where m1: "put alloc m (fst kv) (snd kv) = Some (PutOk, m1)" "put_all alloc kvs m1 = Some m'"
    by (auto split: option.splits prod.splits put_outcome.splits)
  have "inv m1" "contents m1 = (contents m)(fst kv \<mapsto> snd kv)"
    using put_inv [OF Cons.prems(1) m1(1)] put_contents [OF Cons.prems(1) m1(1)] by auto
  then show ?case using Cons.IH [OF _ m1(2)] by (auto simp: map_add_def fun_eq_iff split: option.splits)
qed simp

end

interpretation pid_ix: slot_index "oa_ok pgwt_pid_index_hash" oa_map pgwt_pid_index_init
  pgwt_pid_index_find pgwt_pid_index_put
proof (unfold_locales, goal_cases)
  case (4 m alloc k v)
  then show ?case
    unfolding pgwt_pid_index_put_def
    by (rule oa_put_spec [where fb = 7 and first = 128 and z = 0 and refuse = "\<lambda>_. False"]) auto
next
  case (5 m alloc k v oc m')
  from 5(1) show ?case
    by (rule oa_put_spec [where fb = 7 and first = 128 and z = 0 and refuse = "\<lambda>_. False" and k = k and v = v and alloc = alloc])
      (use 5(2) in \<open>auto simp: pgwt_pid_index_put_def\<close>)
next
  case (6 m alloc k v oc m')
  from 6(1) show ?case
    by (rule oa_put_spec [where fb = 7 and first = 128 and z = 0 and refuse = "\<lambda>_. False" and k = k and v = v and alloc = alloc])
      (use 6(2) in \<open>auto simp: pgwt_pid_index_put_def\<close>)
qed (simp_all add: pgwt_pid_index_init_def oa_ok_init oa_map_init pgwt_pid_index_find_def oa_find_spec)

interpretation qid_ix: slot_index "oa_ok qid_hash32" oa_map pgwt_qid_index_init
  pgwt_qid_index_find pgwt_qid_index_put
proof (unfold_locales, goal_cases)
  case (4 m alloc k v)
  then show ?case
    unfolding pgwt_qid_index_put_def
    by (rule oa_put_spec [where fb = 7 and first = 128 and z = 0 and refuse = "\<lambda>c. c > 2 ^ 29"]) auto
next
  case (5 m alloc k v oc m')
  from 5(1) show ?case
    by (rule oa_put_spec [where fb = 7 and first = 128 and z = 0 and refuse = "\<lambda>c. c > 2 ^ 29" and k = k and v = v and alloc = alloc])
      (use 5(2) in \<open>auto simp: pgwt_qid_index_put_def\<close>)
next
  case (6 m alloc k v oc m')
  from 6(1) show ?case
    by (rule oa_put_spec [where fb = 7 and first = 128 and z = 0 and refuse = "\<lambda>c. c > 2 ^ 29" and k = k and v = v and alloc = alloc])
      (use 6(2) in \<open>auto simp: pgwt_qid_index_put_def\<close>)
qed (simp_all add: pgwt_qid_index_init_def oa_ok_init oa_map_init pgwt_qid_index_find_def oa_find_spec)


section \<open>Properties\<close>

text \<open>
  C26: the pid index is a map with no drop branch: from any well-formed index a put returns (probing ends);
  on success the key reads back with its value and every other key reads as before, growth included;
  when memory is refused the index is left untouched. The only other outcome is the signed overflow
  of the load test, which needs a capacity beyond 2 to the 27th.
\<close>

theorem pid_index_put_find:
  assumes "oa_ok pgwt_pid_index_hash ix"
  shows "\<exists>oc ix'. pgwt_pid_index_put alloc ix p v = Some (oc, ix') \<and> oa_ok pgwt_pid_index_hash ix' \<and>
     (oc = PutOk \<longrightarrow> pgwt_pid_index_find ix' p = Some v \<and>
        (\<forall>q. q \<noteq> p \<longrightarrow> pgwt_pid_index_find ix' q = pgwt_pid_index_find ix q)) \<and>
     (oc \<noteq> PutOk \<longrightarrow> ix' = ix) \<and> (oc = PutUB \<longrightarrow> ix_cap ix > 2 ^ 27)"
proof -
  obtain oc ix' where put: "pgwt_pid_index_put alloc ix p v = Some (oc, ix')" "oa_ok pgwt_pid_index_hash ix'"
    "oc \<noteq> PutOk \<longrightarrow> ix' = ix" "oc = PutUB \<longrightarrow> ix_cap ix > 2 ^ 27"
    unfolding pgwt_pid_index_put_def
    by (rule oa_put_spec [OF assms, where fb = 7 and first = 128]) auto
  then show ?thesis
    using pid_ix.find_after_put [OF assms, of alloc p v ix'] by (cases oc) auto
qed

theorem pid_index_put_find_witness:
  "\<exists>oc ix'. pgwt_pid_index_put (\<lambda>_. True) pgwt_pid_index_init 4711 3 = Some (oc, ix') \<and>
     oa_ok pgwt_pid_index_hash ix' \<and>
     (oc = PutOk \<longrightarrow> pgwt_pid_index_find ix' 4711 = Some 3 \<and>
        (\<forall>q. q \<noteq> 4711 \<longrightarrow> pgwt_pid_index_find ix' q = pgwt_pid_index_find pgwt_pid_index_init q)) \<and>
     (oc \<noteq> PutOk \<longrightarrow> ix' = pgwt_pid_index_init) \<and>
     (oc = PutUB \<longrightarrow> ix_cap (pgwt_pid_index_init :: pgwt_pid_index) > 2 ^ 27)"
  by (rule pid_index_put_find) (rule pid_ix.inv_empty)

text \<open>
  the triple map counts distinct keys: a slot call returns; the slot it hands out belongs to the key;
  it reports creation exactly when the key was absent, and then adds it with value zero; it refuses
  only for a key that is absent, leaving the map untouched; and clearing forgets every key while
  keeping the capacity.
\<close>

theorem triple_map_slot_correct:
  assumes "oa_ok pgwt_triple_map_hash m"
  shows "(\<exists>r m'. pgwt_triple_map_slot alloc m k = Some (r, m') \<and> oa_ok pgwt_triple_map_hash m' \<and>
     (case r of
        Slot h cr \<Rightarrow> unat h < ix_cap m' \<and> ix_used m' ! unat h \<and> ix_keys m' ! unat h = k \<and>
          (cr \<longleftrightarrow> oa_map m k = None) \<and> oa_map m' = (if cr then (oa_map m)(k \<mapsto> 0) else oa_map m)
      | SlotNoMem \<Rightarrow> m' = m \<and> oa_map m k = None
      | SlotUB \<Rightarrow> m' = m \<and> ix_cap m > 2 ^ 27)) \<and>
     oa_ok pgwt_triple_map_hash (pgwt_triple_map_clear m) \<and>
     oa_map (pgwt_triple_map_clear m) = Map.empty \<and> ix_cap (pgwt_triple_map_clear m) = ix_cap m"
  using triple_slot_post [OF assms, of alloc k] triple_clear_spec [OF assms]
  unfolding slot_post_def by blast

theorem triple_map_slot_correct_witness:
  "(\<exists>r m'. pgwt_triple_map_slot (\<lambda>_. True) pgwt_triple_map_init (1, 2, 3) = Some (r, m') \<and>
     oa_ok pgwt_triple_map_hash m' \<and>
     (case r of
        Slot h cr \<Rightarrow> unat h < ix_cap m' \<and> ix_used m' ! unat h \<and> ix_keys m' ! unat h = (1, 2, 3) \<and>
          (cr \<longleftrightarrow> oa_map pgwt_triple_map_init (1, 2, 3) = None) \<and>
          oa_map m' = (if cr then (oa_map pgwt_triple_map_init)((1, 2, 3) \<mapsto> 0)
                       else oa_map pgwt_triple_map_init)
      | SlotNoMem \<Rightarrow> m' = pgwt_triple_map_init \<and> oa_map pgwt_triple_map_init (1, 2, 3) = None
      | SlotUB \<Rightarrow> m' = pgwt_triple_map_init \<and> ix_cap pgwt_triple_map_init > 2 ^ 27)) \<and>
     oa_ok pgwt_triple_map_hash (pgwt_triple_map_clear pgwt_triple_map_init) \<and>
     oa_map (pgwt_triple_map_clear pgwt_triple_map_init) = Map.empty \<and>
     ix_cap (pgwt_triple_map_clear pgwt_triple_map_init) = ix_cap pgwt_triple_map_init"
  by (rule triple_map_slot_correct) (simp add: pgwt_triple_map_init_def oa_ok_init)

text \<open>
  The capacity guard of the query-id index stands after the load test, whose product overflows first:
  at the capacity 2 to the 29th, which the guard still admits, the test itself is undefined.
\<close>

lemma qid_load_test_overflows_before_guard:
  "ix_cap ix = 2 ^ 29 \<Longrightarrow> pgwt_qid_index_put alloc ix k v = Some (PutUB, ix)"
  by (simp add: pgwt_qid_index_put_def oa_put_def oa_load_ub_def oa_INT_MAX_def)

end
