(* ===== verification/Query_Ctx.thy ===== *)
theory Query_Ctx
  imports Hash_Index Trace_Event
begin

text \<open>
  The per-query context table of the Queries tab: src/src/query_ctx_index.h. One pass over the events
  keeps one slot per query id in an array indexed through the query-id index. The backend-metadata
  resolver is a parameter (a pure function of the pid, as the source requires). The lemmas show that
  the pass, with its two memos, computes for every id the verdict of the per-row rule it replaced, and
  that the verdict depends only on the set of contributing events.
\<close>

section \<open>The table\<close>

record pgwt_query_ctx =
  ctx_query_id :: u64
  databaseid :: u32
  userid :: u32
  ctx_state :: int
  has_synth :: bool

definition zero_ctx :: pgwt_query_ctx where
  "zero_ctx = \<lparr>ctx_query_id = 0, databaseid = 0, userid = 0, ctx_state = 0, has_synth = False\<rparr>"

record pgwt_query_ctx_index =
  by_qid :: pgwt_qid_index
  slots :: "pgwt_query_ctx list"
  qc_n :: nat
  qc_cap :: nat
  qc_failed :: bool

text \<open>Whether the growth of the slot array, and of the index arrays, to a capacity is served.\<close>

record qc_env =
  slots_grow_ok :: "nat \<Rightarrow> bool"
  index_grow_ok :: "nat \<Rightarrow> bool"

type_synonym bm_resolver = "u32 \<Rightarrow> (u32 \<times> u32) option"

definition pgwt_query_ctx_index_init :: pgwt_query_ctx_index where
  "pgwt_query_ctx_index_init = \<lparr>by_qid = pgwt_qid_index_init, slots = [], qc_n = 0, qc_cap = 0,
     qc_failed = False\<rparr>"

definition pgwt_query_ctx_lookup :: "pgwt_query_ctx_index \<Rightarrow> u64 \<Rightarrow> pgwt_query_ctx option option" where
  "pgwt_query_ctx_lookup qc q =
     (case pgwt_qid_index_find (by_qid qc) q of
        None \<Rightarrow> None
      | Some slot \<Rightarrow> Some (if slot < 0 \<or> slot \<ge> int (qc_n qc) then None else Some (slots qc ! nat slot)))"

text \<open>The array growth: refused beyond its guard or by the allocator; the new tail is zeroed.\<close>

definition slots_grow :: "qc_env \<Rightarrow> pgwt_query_ctx_index \<Rightarrow> pgwt_query_ctx_index option" where
  "slots_grow env qc =
     (if qc_cap qc > 2 ^ 29 then None
      else let newcap = (if qc_cap qc \<noteq> 0 then qc_cap qc * 2 else 64)
           in if \<not> slots_grow_ok env newcap then None
              else Some (qc\<lparr>slots := slots qc @ replicate (newcap - qc_cap qc) zero_ctx, qc_cap := newcap\<rparr>))"

text \<open>Grow or find; the index -1 is the refusal. The outer option is the probing loop returning.\<close>

definition pgwt_query_ctx_slot ::
  "qc_env \<Rightarrow> pgwt_query_ctx_index \<Rightarrow> u64 \<Rightarrow> (int \<times> pgwt_query_ctx_index) option" where
  "pgwt_query_ctx_slot env qc q =
     (case pgwt_qid_index_find (by_qid qc) q of
        None \<Rightarrow> None
      | Some slot \<Rightarrow>
          if slot \<ge> 0 then Some (slot, qc)
          else case (if qc_n qc = qc_cap qc then slots_grow env qc else Some qc) of
              None \<Rightarrow> Some (-1, qc)
            | Some qc \<Rightarrow>
                let slot = qc_n qc;
                    qc = qc\<lparr>slots := (slots qc)[slot := (slots qc ! slot)\<lparr>ctx_query_id := q\<rparr>]\<rparr>
                in case pgwt_qid_index_put (index_grow_ok env) (by_qid qc) q (int slot) of
                    None \<Rightarrow> None
                  | Some (oc, ix) \<Rightarrow>
                      if oc \<noteq> PutOk then Some (-1, qc\<lparr>by_qid := ix\<rparr>)
                      else Some (int slot, qc\<lparr>by_qid := ix, qc_n := slot + 1\<rparr>))"

section \<open>The pass\<close>

record build_memo =
  memo_pid :: u32
  memo_ok :: int
  memo_db :: u32
  memo_uid :: u32
  memo_qid :: u64
  memo_slot :: int

definition cold_memo :: build_memo where
  "cold_memo = \<lparr>memo_pid = 0, memo_ok = -1, memo_db = 0, memo_uid = 0, memo_qid = 0, memo_slot = -1\<rparr>"

definition refresh_memo :: "bm_resolver \<Rightarrow> u32 \<Rightarrow> build_memo \<Rightarrow> build_memo" where
  "refresh_memo resolve p m =
     (if memo_ok m < 0 \<or> memo_pid m \<noteq> p
      then case resolve p of
          Some (db, uid) \<Rightarrow> m\<lparr>memo_ok := 1, memo_pid := p, memo_db := db, memo_uid := uid\<rparr>
        | None \<Rightarrow> m\<lparr>memo_ok := 0, memo_pid := p, memo_db := 0, memo_uid := 0\<rparr>
      else m)"

definition merge_ctx :: "build_memo \<Rightarrow> pgwt_query_ctx \<Rightarrow> pgwt_query_ctx" where
  "merge_ctx m e =
     (if memo_ok m = 0 then e\<lparr>ctx_state := -1, databaseid := 0, userid := 0\<rparr>
      else if ctx_state e = 0 then e\<lparr>ctx_state := 1, databaseid := memo_db m, userid := memo_uid m\<rparr>
      else if databaseid e \<noteq> memo_db m \<or> userid e \<noteq> memo_uid m
      then e\<lparr>ctx_state := -1, databaseid := 0, userid := 0\<rparr>
      else e)"

fun build_loop :: "bm_resolver \<Rightarrow> qc_env \<Rightarrow> pgwt_trace_event list \<Rightarrow> pgwt_query_ctx_index \<Rightarrow> build_memo
    \<Rightarrow> (int \<times> pgwt_query_ctx_index) option" where
  "build_loop resolve env [] qc m = Some (0, qc)"
| "build_loop resolve env (ev # evs) qc m =
     (case (if memo_slot m \<ge> 0 \<and> memo_qid m = query_id ev then Some (memo_slot m, qc)
            else pgwt_query_ctx_slot env qc (query_id ev)) of
        None \<Rightarrow> None
      | Some (slot, qc) \<Rightarrow>
          if slot < 0 then Some (-1, qc\<lparr>qc_failed := True\<rparr>)
          else
            let m = m\<lparr>memo_qid := query_id ev, memo_slot := slot\<rparr>;
                e = slots qc ! nat slot;
                e = (if flags ev AND PGWT_EVENT_FLAG_QUERY_SYNTH \<noteq> 0 then e\<lparr>has_synth := True\<rparr> else e)
            in if ctx_state e < 0
               then build_loop resolve env evs (qc\<lparr>slots := (slots qc)[nat slot := e]\<rparr>) m
               else let m = refresh_memo resolve (pid ev) m;
                        e = merge_ctx m e
                    in build_loop resolve env evs (qc\<lparr>slots := (slots qc)[nat slot := e]\<rparr>) m)"

definition pgwt_query_ctx_index_build ::
  "bm_resolver option \<Rightarrow> qc_env \<Rightarrow> pgwt_trace_event list \<Rightarrow> (int \<times> pgwt_query_ctx_index) option" where
  "pgwt_query_ctx_index_build resolve env events =
     (case resolve of
        None \<Rightarrow> Some (-1, pgwt_query_ctx_index_init\<lparr>qc_failed := True\<rparr>)
      | Some r \<Rightarrow>
          if events = [] then Some (0, pgwt_query_ctx_index_init)
          else build_loop r env events pgwt_query_ctx_index_init cold_memo)"

section \<open>The rule: one event at a time, without memos or table\<close>

definition ctx_event :: "bm_resolver \<Rightarrow> pgwt_trace_event \<Rightarrow> pgwt_query_ctx \<Rightarrow> pgwt_query_ctx" where
  "ctx_event resolve ev e =
     (let e = (if flags ev AND PGWT_EVENT_FLAG_QUERY_SYNTH \<noteq> 0 then e\<lparr>has_synth := True\<rparr> else e)
      in if ctx_state e < 0 then e
         else case resolve (pid ev) of
             None \<Rightarrow> e\<lparr>ctx_state := -1, databaseid := 0, userid := 0\<rparr>
           | Some (db, uid) \<Rightarrow>
               if ctx_state e = 0 then e\<lparr>ctx_state := 1, databaseid := db, userid := uid\<rparr>
               else if databaseid e \<noteq> db \<or> userid e \<noteq> uid
               then e\<lparr>ctx_state := -1, databaseid := 0, userid := 0\<rparr>
               else e)"

definition ctx_of :: "bm_resolver \<Rightarrow> pgwt_trace_event list \<Rightarrow> u64 \<Rightarrow> pgwt_query_ctx" where
  "ctx_of resolve evs q =
     fold (ctx_event resolve) (filter (\<lambda>ev. query_id ev = q) evs) (zero_ctx\<lparr>ctx_query_id := q\<rparr>)"

definition memo_valid :: "bm_resolver \<Rightarrow> build_memo \<Rightarrow> bool" where
  "memo_valid resolve m \<longleftrightarrow>
     memo_ok m < 0 \<or>
     (case resolve (memo_pid m) of
        None \<Rightarrow> memo_ok m = 0
      | Some (db, uid) \<Rightarrow> memo_ok m = 1 \<and> memo_db m = db \<and> memo_uid m = uid)"

lemma refresh_valid:
  assumes "memo_valid resolve m"
  shows "memo_valid resolve (refresh_memo resolve p m)" and "memo_pid (refresh_memo resolve p m) = p"
    and "\<not> memo_ok (refresh_memo resolve p m) < 0"
    and "memo_qid (refresh_memo resolve p m) = memo_qid m"
    and "memo_slot (refresh_memo resolve p m) = memo_slot m"
  using assms by (auto simp: refresh_memo_def memo_valid_def split: option.splits)

lemma merge_refreshed:
  assumes "memo_valid resolve m" and "\<not> ctx_state e < 0"
  shows "merge_ctx (refresh_memo resolve p m) e =
    (case resolve p of
       None \<Rightarrow> e\<lparr>ctx_state := -1, databaseid := 0, userid := 0\<rparr>
     | Some (db, uid) \<Rightarrow>
         if ctx_state e = 0 then e\<lparr>ctx_state := 1, databaseid := db, userid := uid\<rparr>
         else if databaseid e \<noteq> db \<or> userid e \<noteq> uid
         then e\<lparr>ctx_state := -1, databaseid := 0, userid := 0\<rparr>
         else e)"
  using assms by (auto simp: refresh_memo_def memo_valid_def merge_ctx_def split: option.splits)

section \<open>The invariant of the table\<close>

definition qc_ok :: "pgwt_query_ctx_index \<Rightarrow> bool" where
  "qc_ok qc \<longleftrightarrow>
     oa_ok qid_hash32 (by_qid qc) \<and> length (slots qc) = qc_cap qc \<and> qc_n qc \<le> qc_cap qc \<and>
     (\<forall>q i. oa_map (by_qid qc) q = Some i \<longrightarrow> 0 \<le> i \<and> i < int (qc_n qc) \<and> ctx_query_id (slots qc ! nat i) = q) \<and>
     (\<forall>i<qc_n qc. oa_map (by_qid qc) (ctx_query_id (slots qc ! i)) = Some (int i)) \<and>
     (\<forall>i. qc_n qc \<le> i \<longrightarrow> i < qc_cap qc \<longrightarrow> slots qc ! i = zero_ctx)"

text \<open>Every slot holds the rule's verdict on the events so far, and every id seen has a slot.\<close>

definition qc_rel :: "bm_resolver \<Rightarrow> pgwt_trace_event list \<Rightarrow> pgwt_query_ctx_index \<Rightarrow> bool" where
  "qc_rel resolve evs qc \<longleftrightarrow>
     qc_ok qc \<and>
     (\<forall>i<qc_n qc. slots qc ! i = ctx_of resolve evs (ctx_query_id (slots qc ! i))) \<and>
     (\<forall>q. oa_map (by_qid qc) q = None \<longleftrightarrow> (\<forall>ev\<in>set evs. query_id ev \<noteq> q))"

lemma slots_grow_spec:
  assumes "slots_grow env qc = Some qc'" and "qc_ok qc" and "qc_n qc = qc_cap qc"
  shows "qc_ok qc'" and "by_qid qc' = by_qid qc" and "qc_n qc' = qc_n qc" and "qc_n qc' < qc_cap qc'"
    and "i < qc_n qc \<Longrightarrow> slots qc' ! i = slots qc ! i"
    and "qc_failed qc' = qc_failed qc"
proof -
  define newcap where "newcap = (if qc_cap qc \<noteq> 0 then qc_cap qc * 2 else 64)"
  have qc': "qc' = qc\<lparr>slots := slots qc @ replicate (newcap - qc_cap qc) zero_ctx, qc_cap := newcap\<rparr>"
    using assms(1) unfolding slots_grow_def newcap_def by (simp add: Let_def split: if_splits)
  have nc: "qc_cap qc < newcap" by (simp add: newcap_def)
  have len: "length (slots qc) = qc_cap qc" using assms(2) by (simp add: qc_ok_def)
  have same: "slots qc' ! i = slots qc ! i" if "i < qc_n qc" for i
    using that assms(3) len by (simp add: qc' nth_append)
  then show "i < qc_n qc \<Longrightarrow> slots qc' ! i = slots qc ! i" by simp
  show "by_qid qc' = by_qid qc" "qc_n qc' = qc_n qc" "qc_n qc' < qc_cap qc'" "qc_failed qc' = qc_failed qc"
    using nc assms(3) by (simp_all add: qc')
  have "slots qc' ! i = zero_ctx" if "qc_n qc \<le> i" "i < newcap" for i
    using that assms(3) len by (simp add: qc' nth_append)
  moreover have "length (slots qc') = newcap" using nc len by (simp add: qc')
  moreover have "nat i < qc_n qc" if "oa_map (by_qid qc) q = Some i" for q i
    using that assms(2) unfolding qc_ok_def by (metis nat_less_iff)
  ultimately show "qc_ok qc'"
    using assms(2) same nc assms(3) unfolding qc_ok_def by (simp add: qc')
qed


lemma qc_okD:
  assumes "qc_ok qc"
  shows "oa_ok qid_hash32 (by_qid qc)" and "length (slots qc) = qc_cap qc" and "qc_n qc \<le> qc_cap qc"
    and "oa_map (by_qid qc) q = Some i \<Longrightarrow> 0 \<le> i \<and> i < int (qc_n qc) \<and> ctx_query_id (slots qc ! nat i) = q"
    and "j < qc_n qc \<Longrightarrow> oa_map (by_qid qc) (ctx_query_id (slots qc ! j)) = Some (int j)"
    and "qc_n qc \<le> j \<Longrightarrow> j < qc_cap qc \<Longrightarrow> slots qc ! j = zero_ctx"
  using assms unfolding qc_ok_def by blast+

lemma qc_find:
  assumes "qc_ok qc"
  shows "pgwt_qid_index_find (by_qid qc) q = Some (case oa_map (by_qid qc) q of None \<Rightarrow> -1 | Some i \<Rightarrow> i)"
  by (rule qid_ix.find_contents [OF qc_okD(1) [OF assms]])

text \<open>The part after the array has room: the new slot is written and indexed.\<close>

lemma slot_append_ok:
  assumes "qc_ok qc" and "qc_n qc < qc_cap qc" and "oa_map (by_qid qc) q = None"
    and "oa_ok qid_hash32 ix" and "oa_map ix = (oa_map (by_qid qc))(q \<mapsto> int (qc_n qc))"
  shows "qc_ok (qc\<lparr>slots := (slots qc)[qc_n qc := (slots qc ! qc_n qc)\<lparr>ctx_query_id := q\<rparr>],
                   by_qid := ix, qc_n := qc_n qc + 1\<rparr>)"
proof -
  note ok = qc_okD [OF assms(1)]
  let ?s = "(slots qc)[qc_n qc := (slots qc ! qc_n qc)\<lparr>ctx_query_id := q\<rparr>]"
  have at: "?s ! i = (if i = qc_n qc then (slots qc ! qc_n qc)\<lparr>ctx_query_id := q\<rparr> else slots qc ! i)" for i
    using ok(2) assms(2) by (simp add: nth_list_update)
  have ne: "ctx_query_id (slots qc ! i) \<noteq> q" if "i < qc_n qc" for i
    using ok(5) [OF that] assms(3) by auto
  have a: "0 \<le> i \<and> i < int (qc_n qc + 1) \<and> ctx_query_id (?s ! nat i) = q'"
    if "oa_map ix q' = Some i" for q' i
  proof (cases "q' = q")
    case True
    then have "i = int (qc_n qc)" using that assms(5) by simp
    then show ?thesis using True at [of "qc_n qc"] by simp
  next
    case False
    then have o: "0 \<le> i \<and> i < int (qc_n qc) \<and> ctx_query_id (slots qc ! nat i) = q'"
      using that assms(5) ok(4) by simp
    then have "nat i \<noteq> qc_n qc" by auto
    then show ?thesis using o at [of "nat i"] by simp
  qed
  have b: "oa_map ix (ctx_query_id (?s ! i)) = Some (int i)" if "i < qc_n qc + 1" for i
    using that at [of i] ok(5) [of i] ne [of i] assms(5) by (cases "i = qc_n qc") auto
  have c: "?s ! i = zero_ctx" if "qc_n qc + 1 \<le> i" "i < qc_cap qc" for i
    using that at [of i] ok(6) [of i] by simp
  show ?thesis
    unfolding qc_ok_def using assms(2,4) ok(2) a b c by simp
qed

lemma query_ctx_slot_spec:
  assumes "qc_ok qc"
  obtains slot qc' where "pgwt_query_ctx_slot env qc q = Some (slot, qc')"
    and "slot < 0 \<or> qc_ok qc' \<and> oa_map (by_qid qc') q = Some slot \<and>
      (\<forall>i<qc_n qc. slots qc' ! i = slots qc ! i) \<and>
      (oa_map (by_qid qc) q \<noteq> None \<longrightarrow> qc' = qc) \<and>
      (oa_map (by_qid qc) q = None \<longrightarrow>
         qc_n qc' = qc_n qc + 1 \<and> slot = int (qc_n qc) \<and>
         slots qc' ! qc_n qc = zero_ctx\<lparr>ctx_query_id := q\<rparr> \<and>
         oa_map (by_qid qc') = (oa_map (by_qid qc))(q \<mapsto> int (qc_n qc)))"
proof (cases "oa_map (by_qid qc) q")
  case (Some i)
  then have "pgwt_query_ctx_slot env qc q = Some (i, qc)"
    using qc_find [OF assms, of q] qc_okD(4) [OF assms Some] by (simp add: pgwt_query_ctx_slot_def)
  then show ?thesis by (rule that) (use Some assms in simp)
next
  case None
  have find: "pgwt_qid_index_find (by_qid qc) q = Some (-1)" using qc_find [OF assms, of q] None by simp
  show ?thesis
  proof (cases "if qc_n qc = qc_cap qc then slots_grow env qc else Some qc")
    case refused: None
    then have "pgwt_query_ctx_slot env qc q = Some (-1, qc)"
      using find by (simp add: pgwt_query_ctx_slot_def)
    then show ?thesis by (rule that) simp
  next
    case (Some g)
    have g: "qc_ok g" "by_qid g = by_qid qc" "qc_n g = qc_n qc" "qc_n g < qc_cap g"
        "\<And>i. i < qc_n qc \<Longrightarrow> slots g ! i = slots qc ! i"
      using Some assms qc_okD(3) [OF assms] slots_grow_spec [of env qc g]
      by (auto split: if_splits)
    let ?w = "(slots g)[qc_n g := (slots g ! qc_n g)\<lparr>ctx_query_id := q\<rparr>]"
    obtain oc ix where put: "pgwt_qid_index_put (index_grow_ok env) (by_qid g) q (int (qc_n g)) = Some (oc, ix)"
      using qid_ix.put_returns [OF qc_okD(1) [OF g(1)]] by blast
    have res: "pgwt_query_ctx_slot env qc q =
        (if oc \<noteq> PutOk then Some (-1, g\<lparr>slots := ?w, by_qid := ix\<rparr>)
         else Some (int (qc_n g), g\<lparr>slots := ?w, by_qid := ix, qc_n := qc_n g + 1\<rparr>))"
      using find Some put by (simp add: pgwt_query_ctx_slot_def Let_def split: if_splits)
    show ?thesis
    proof (cases "oc = PutOk")
      case False
      then show ?thesis using res by (intro that) auto
    next
      case True
      have ixok: "oa_ok qid_hash32 ix" by (rule qid_ix.put_inv [OF qc_okD(1) [OF g(1)] put])
      have ixm: "oa_map ix = (oa_map (by_qid g))(q \<mapsto> int (qc_n g))"
        using qid_ix.put_contents [OF qc_okD(1) [OF g(1)] put] True by simp
      have "slots g ! qc_n g = zero_ctx" using qc_okD(6) [OF g(1)] g(4) by simp
      then show ?thesis
        using res True slot_append_ok [OF g(1,4) _ ixok ixm] None g ixm qc_okD(2) [OF g(1)]
        by (intro that) (auto simp: nth_list_update)
    qed
  qed
qed

section \<open>The pass computes the rule\<close>

lemma ctx_event_id: "ctx_query_id (ctx_event resolve ev e) = ctx_query_id e"
  by (auto simp: ctx_event_def Let_def split: option.split prod.split)

lemma ctx_of_snoc:
  "ctx_of resolve (evs @ [ev]) q =
     (if query_id ev = q then ctx_event resolve ev (ctx_of resolve evs q) else ctx_of resolve evs q)"
  by (simp add: ctx_of_def)

lemma ctx_of_absent:
  "\<forall>ev\<in>set evs. query_id ev \<noteq> q \<Longrightarrow> ctx_of resolve evs q = zero_ctx\<lparr>ctx_query_id := q\<rparr>"
proof -
  assume "\<forall>ev\<in>set evs. query_id ev \<noteq> q"
  then have "filter (\<lambda>ev. query_id ev = q) evs = []" by (simp add: filter_empty_conv)
  then show ?thesis by (simp add: ctx_of_def)
qed

text \<open>One event applied to its slot keeps the relation.\<close>

lemma qc_rel_apply:
  assumes "qc_ok qc" and "oa_map (by_qid qc) (query_id ev) = Some slot"
    and "\<forall>i<qc_n qc. slots qc ! i = ctx_of resolve evs (ctx_query_id (slots qc ! i))"
    and "\<forall>q. oa_map (by_qid qc) q = None \<longleftrightarrow> (\<forall>e\<in>set (evs @ [ev]). query_id e \<noteq> q)"
  shows "qc_rel resolve (evs @ [ev])
    (qc\<lparr>slots := (slots qc)[nat slot := ctx_event resolve ev (slots qc ! nat slot)]\<rparr>)"
proof -
  note ok = qc_okD [OF assms(1)]
  let ?e = "ctx_event resolve ev (slots qc ! nat slot)"
  let ?s = "(slots qc)[nat slot := ?e]"
  have sl: "0 \<le> slot" "nat slot < qc_n qc" "ctx_query_id (slots qc ! nat slot) = query_id ev"
    using ok(4) [OF assms(2)] by auto
  have at: "?s ! i = (if i = nat slot then ?e else slots qc ! i)" for i
    using ok(2,3) sl(2) by (simp add: nth_list_update)
  have qid: "ctx_query_id (?s ! i) = ctx_query_id (slots qc ! i)" for i
    by (simp add: at ctx_event_id)
  have "?s ! i = zero_ctx" if "qc_n qc \<le> i" "i < qc_cap qc" for i
    using at [of i] sl(2) ok(6) that by simp
  then have "qc_ok (qc\<lparr>slots := ?s\<rparr>)"
    unfolding qc_ok_def using ok(1-5) by (simp add: qid)
  moreover have "?s ! i = ctx_of resolve (evs @ [ev]) (ctx_query_id (?s ! i))" if "i < qc_n qc" for i
  proof (cases "i = nat slot")
    case True
    have "slots qc ! nat slot = ctx_of resolve evs (query_id ev)" using assms(3) sl(2,3) by metis
    then have "?s ! i = ctx_event resolve ev (ctx_of resolve evs (query_id ev))" using True at by metis
    moreover have "ctx_query_id (?s ! i) = query_id ev" using True sl(3) qid by metis
    ultimately show ?thesis by (simp only: ctx_of_snoc simp_thms if_True)
  next
    case False
    have "query_id ev \<noteq> ctx_query_id (slots qc ! i)"
      using ok(5) [OF that] assms(2) False sl(1) by auto
    then show ?thesis using assms(3) that False by (simp add: qid at ctx_of_snoc)
  qed
  ultimately show ?thesis using assms(4) unfolding qc_rel_def by simp
qed

definition memo_ok_for :: "bm_resolver \<Rightarrow> pgwt_query_ctx_index \<Rightarrow> build_memo \<Rightarrow> bool" where
  "memo_ok_for resolve qc m \<longleftrightarrow> memo_valid resolve m \<and>
     (memo_slot m \<ge> 0 \<longrightarrow> oa_map (by_qid qc) (memo_qid m) = Some (memo_slot m))"

lemma build_loop_spec:
  assumes "qc_rel resolve done qc" and "memo_ok_for resolve qc m"
  shows "\<exists>rc qc'. build_loop resolve env evs qc m = Some (rc, qc') \<and>
     (rc = 0 \<and> qc_rel resolve (done @ evs) qc' \<or> rc = -1 \<and> qc_failed qc')"
  using assms
proof (induction evs arbitrary: qc m "done")
  case (Cons ev evs)
  let ?q = "query_id ev"
  have ok: "qc_ok qc" using Cons.prems(1) by (simp add: qc_rel_def)
  obtain slot qc1 where s: "(if memo_slot m \<ge> 0 \<and> memo_qid m = ?q then Some (memo_slot m, qc)
        else pgwt_query_ctx_slot env qc ?q) = Some (slot, qc1)"
      and sp: "slot < 0 \<or> qc_ok qc1 \<and> oa_map (by_qid qc1) ?q = Some slot \<and>
        (\<forall>i<qc_n qc. slots qc1 ! i = slots qc ! i) \<and>
        (oa_map (by_qid qc) ?q \<noteq> None \<longrightarrow> qc1 = qc) \<and>
        (oa_map (by_qid qc) ?q = None \<longrightarrow>
           qc_n qc1 = qc_n qc + 1 \<and> slot = int (qc_n qc) \<and>
           slots qc1 ! qc_n qc = zero_ctx\<lparr>ctx_query_id := ?q\<rparr> \<and>
           oa_map (by_qid qc1) = (oa_map (by_qid qc))(?q \<mapsto> int (qc_n qc)))"
  proof (cases "memo_slot m \<ge> 0 \<and> memo_qid m = ?q")
    case True
    then have "oa_map (by_qid qc) ?q = Some (memo_slot m)"
      using Cons.prems(2) by (auto simp: memo_ok_for_def)
    then show ?thesis using that [of "memo_slot m" qc] True ok by simp
  next
    case False
    show ?thesis by (rule query_ctx_slot_spec [OF ok, of env ?q]) (use False that in auto)
  qed
  show ?case
  proof (cases "slot < 0")
    case True
    then show ?thesis using s by simp
  next
    case False
    note sp1 = sp [simplified False, simplified]
    have cover: "\<forall>q. oa_map (by_qid qc1) q = None \<longleftrightarrow> (\<forall>e\<in>set (done @ [ev]). query_id e \<noteq> q)"
    proof (cases "oa_map (by_qid qc) ?q")
      case None
      then show ?thesis using Cons.prems(1) sp1 unfolding qc_rel_def by auto
    next
      case (Some i)
      then have "\<exists>e\<in>set done. query_id e = ?q"
        using Cons.prems(1) unfolding qc_rel_def by (metis option.distinct(1))
      moreover have "qc1 = qc" using Some sp1 by simp
      ultimately show ?thesis using Cons.prems(1) unfolding qc_rel_def by fastforce
    qed
    have vals: "\<forall>i<qc_n qc1. slots qc1 ! i = ctx_of resolve done (ctx_query_id (slots qc1 ! i))"
    proof (cases "oa_map (by_qid qc) ?q")
      case None
      have "ctx_of resolve done ?q = zero_ctx\<lparr>ctx_query_id := ?q\<rparr>"
        using None Cons.prems(1) by (intro ctx_of_absent) (auto simp: qc_rel_def)
      then show ?thesis
        using None sp1 Cons.prems(1) by (auto simp: qc_rel_def less_Suc_eq)
    next
      case (Some i)
      then show ?thesis using sp1 Cons.prems(1) by (simp add: qc_rel_def)
    qed
    let ?qc2 = "qc1\<lparr>slots := (slots qc1)[nat slot := ctx_event resolve ev (slots qc1 ! nat slot)]\<rparr>"
    have rel2: "qc_rel resolve (done @ [ev]) ?qc2"
      using sp1 vals cover by (intro qc_rel_apply) auto
    let ?m1 = "m\<lparr>memo_qid := ?q, memo_slot := slot\<rparr>"
    have mv: "memo_valid resolve ?m1" using Cons.prems(2) by (auto simp: memo_ok_for_def memo_valid_def split: option.splits)
    have unf: "\<exists>m2. build_loop resolve env (ev # evs) qc m = build_loop resolve env evs ?qc2 m2 \<and>
        memo_ok_for resolve ?qc2 m2"
    proof -
      let ?e = "slots qc1 ! nat slot"
      let ?e1 = "if flags ev AND PGWT_EVENT_FLAG_QUERY_SYNTH \<noteq> 0 then ?e\<lparr>has_synth := True\<rparr> else ?e"
      show ?thesis
      proof (cases "ctx_state ?e1 < 0")
        case True
        then have "ctx_event resolve ev ?e = ?e1" by (simp add: ctx_event_def Let_def)
        then show ?thesis
          using s False True mv sp1 by (intro exI [of _ ?m1]) (simp add: Let_def memo_ok_for_def)
      next
        case act: False
        let ?m2 = "refresh_memo resolve (pid ev) ?m1"
        have "ctx_event resolve ev ?e = merge_ctx ?m2 ?e1"
          using act merge_refreshed [OF mv act] by (simp add: ctx_event_def Let_def)
        then show ?thesis
          using s False act refresh_valid [OF mv] sp1
          by (intro exI [of _ ?m2]) (simp add: Let_def memo_ok_for_def)
      qed
    qed
    then show ?thesis using Cons.IH [OF rel2] by auto
  qed
qed simp


section \<open>The verdict in closed form\<close>

text \<open>
  The per-row rule as the source documents it: synthetic when some contributor is, refused when some
  contributor has no metadata or two disagree, resolved to the common ids otherwise.
\<close>

definition ctx_verdict :: "bm_resolver \<Rightarrow> pgwt_trace_event list \<Rightarrow> pgwt_query_ctx \<Rightarrow> bool" where
  "ctx_verdict resolve cs e \<longleftrightarrow>
     (has_synth e \<longleftrightarrow> (\<exists>ev\<in>set cs. flags ev AND PGWT_EVENT_FLAG_QUERY_SYNTH \<noteq> 0)) \<and>
     (if cs = [] then ctx_state e = 0 \<and> databaseid e = 0 \<and> userid e = 0
      else if \<exists>db uid. \<forall>ev\<in>set cs. resolve (pid ev) = Some (db, uid)
      then ctx_state e = 1 \<and> (\<forall>ev\<in>set cs. resolve (pid ev) = Some (databaseid e, userid e))
      else ctx_state e = -1 \<and> databaseid e = 0 \<and> userid e = 0)"

lemma ctx_fold_verdict:
  "ctx_verdict resolve cs (fold (ctx_event resolve) cs (zero_ctx\<lparr>ctx_query_id := q\<rparr>))"
proof (induction cs rule: rev_induct)
  case Nil
  then show ?case by (simp add: ctx_verdict_def zero_ctx_def)
next
  case (snoc ev cs)
  let ?e = "fold (ctx_event resolve) cs (zero_ctx\<lparr>ctx_query_id := q\<rparr>)"
  have v: "ctx_verdict resolve cs ?e" by (rule snoc.IH)
  have synth: "has_synth (ctx_event resolve ev ?e) \<longleftrightarrow>
      has_synth ?e \<or> flags ev AND PGWT_EVENT_FLAG_QUERY_SYNTH \<noteq> 0"
    by (auto simp: ctx_event_def Let_def split: option.split prod.split)
  have all: "has_synth (fold (ctx_event resolve) (cs @ [ev]) (zero_ctx\<lparr>ctx_query_id := q\<rparr>)) \<longleftrightarrow>
      (\<exists>x\<in>set (cs @ [ev]). flags x AND PGWT_EVENT_FLAG_QUERY_SYNTH \<noteq> 0)"
    using synth v unfolding ctx_verdict_def by auto
  show ?case
  proof (cases "resolve (pid ev)")
    case None
    then have "\<not> (\<exists>db uid. \<forall>x\<in>set (cs @ [ev]). resolve (pid x) = Some (db, uid))" by simp
    moreover have "ctx_state (ctx_event resolve ev ?e) = -1 \<and> databaseid (ctx_event resolve ev ?e) = 0 \<and>
        userid (ctx_event resolve ev ?e) = 0"
      using None v by (auto simp: ctx_event_def Let_def ctx_verdict_def split: if_splits)
    ultimately show ?thesis using all unfolding ctx_verdict_def by simp
  next
    case (Some du)
    obtain db uid where du: "resolve (pid ev) = Some (db, uid)" using Some by (cases du) auto
    let ?n = "ctx_event resolve ev ?e"
    consider "cs = []" | "cs \<noteq> []" "\<exists>db uid. \<forall>x\<in>set cs. resolve (pid x) = Some (db, uid)"
      | "cs \<noteq> []" "\<not> (\<exists>db uid. \<forall>x\<in>set cs. resolve (pid x) = Some (db, uid))" by blast
    then show ?thesis
    proof cases
      case 1
      then show ?thesis using v du by (auto simp: ctx_event_def ctx_verdict_def zero_ctx_def Let_def)
    next
      case 2
      then have st: "ctx_state ?e = 1" "\<forall>x\<in>set cs. resolve (pid x) = Some (databaseid ?e, userid ?e)"
        using v unfolding ctx_verdict_def by (simp_all only: if_True if_False simp_thms) blast
      have n: "?n = (let e = (if flags ev AND PGWT_EVENT_FLAG_QUERY_SYNTH \<noteq> 0 then ?e\<lparr>has_synth := True\<rparr> else ?e)
          in if databaseid ?e \<noteq> db \<or> userid ?e \<noteq> uid then e\<lparr>ctx_state := -1, databaseid := 0, userid := 0\<rparr> else e)"
        using st(1) du by (simp add: ctx_event_def Let_def)
      show ?thesis
      proof (cases "databaseid ?e = db \<and> userid ?e = uid")
        case True
        then have "\<forall>x\<in>set (cs @ [ev]). resolve (pid x) = Some (databaseid ?e, userid ?e)" using st(2) du by simp
        moreover have "ctx_state ?n = 1" "databaseid ?n = databaseid ?e" "userid ?n = userid ?e"
          using True st(1) unfolding n by (simp_all add: Let_def)
        ultimately show ?thesis using all unfolding ctx_verdict_def by auto
      next
        case False
        obtain x where x: "x \<in> set cs" using 2(1) by (cases cs) auto
        then have "resolve (pid x) \<noteq> resolve (pid ev)" using st(2) du False by auto
        with x have "\<not> (\<exists>db uid. \<forall>x\<in>set (cs @ [ev]). resolve (pid x) = Some (db, uid))"
          by (metis UnI1 UnI2 list.set_intros(1) set_append)
        moreover have "ctx_state ?n = -1" "databaseid ?n = 0" "userid ?n = 0"
          using False unfolding n by (auto simp: Let_def)
        ultimately show ?thesis using all unfolding ctx_verdict_def by simp
      qed
    next
      case 3
      then have st: "ctx_state ?e = -1" "databaseid ?e = 0" "userid ?e = 0"
        using v unfolding ctx_verdict_def by (simp_all only: if_False simp_thms)
      then have "ctx_state ?n = -1" "databaseid ?n = 0" "userid ?n = 0"
        by (simp_all add: ctx_event_def Let_def)
      moreover have "\<not> (\<exists>db uid. \<forall>x\<in>set (cs @ [ev]). resolve (pid x) = Some (db, uid))"
        using 3(2) by auto
      ultimately show ?thesis using all unfolding ctx_verdict_def by simp
    qed
  qed
qed

lemma ctx_of_verdict: "ctx_verdict resolve (filter (\<lambda>ev. query_id ev = q) evs) (ctx_of resolve evs q)"
  unfolding ctx_of_def by (rule ctx_fold_verdict)

lemma build_lookup:
  assumes "qc_rel resolve evs qc"
  shows "pgwt_query_ctx_lookup qc q =
    Some (if \<exists>ev\<in>set evs. query_id ev = q then Some (ctx_of resolve evs q) else None)"
proof -
  have ok: "qc_ok qc" using assms by (simp add: qc_rel_def)
  show ?thesis
  proof (cases "oa_map (by_qid qc) q")
    case None
    then have "\<not> (\<exists>ev\<in>set evs. query_id ev = q)" using assms by (auto simp: qc_rel_def)
    then show ?thesis using None qc_find [OF ok, of q] by (simp add: pgwt_query_ctx_lookup_def)
  next
    case (Some i)
    then have "\<exists>ev\<in>set evs. query_id ev = q" using assms by (metis option.distinct(1) qc_rel_def)
    moreover have i: "0 \<le> i" "i < int (qc_n qc)" "ctx_query_id (slots qc ! nat i) = q"
      using qc_okD(4) [OF ok Some] by auto
    moreover have "slots qc ! nat i = ctx_of resolve evs q"
      using assms i unfolding qc_rel_def by (metis nat_less_iff)
    ultimately show ?thesis using Some qc_find [OF ok, of q] by (simp add: pgwt_query_ctx_lookup_def)
  qed
qed

lemma qc_rel_init: "qc_rel resolve [] pgwt_query_ctx_index_init"
  using qid_ix.inv_empty qid_ix.contents_empty
  by (simp add: qc_rel_def qc_ok_def pgwt_query_ctx_index_init_def)

section \<open>Properties\<close>

text \<open>
  C27: the one-pass table answers the per-row rule: the pass always returns; when it reports success, the
  row of every query id is absent exactly when no event carries the id, and otherwise gives the
  documented verdict on exactly the events that carry it (resolved to the common database and user,
  refused when one contributor has no metadata or two disagree, with the synthetic flag); when it
  reports failure it is flagged, so the response is refused and never short.
\<close>

theorem query_ctx_build_correct:
  "\<exists>rc qc. pgwt_query_ctx_index_build (Some resolve) env evs = Some (rc, qc) \<and>
     (rc = -1 \<and> qc_failed qc \<or>
      rc = 0 \<and>
      (\<forall>q. case pgwt_query_ctx_lookup qc q of
         Some None \<Rightarrow> (\<forall>ev\<in>set evs. query_id ev \<noteq> q)
       | Some (Some e) \<Rightarrow> (\<exists>ev\<in>set evs. query_id ev = q) \<and>
                         ctx_verdict resolve (filter (\<lambda>ev. query_id ev = q) evs) e
       | None \<Rightarrow> False))"
proof -
  have "memo_ok_for resolve pgwt_query_ctx_index_init cold_memo"
    by (simp add: memo_ok_for_def memo_valid_def cold_memo_def)
  from build_loop_spec [OF qc_rel_init this, of env evs]
  obtain rc qc where "build_loop resolve env evs pgwt_query_ctx_index_init cold_memo = Some (rc, qc)"
    and r: "rc = 0 \<and> qc_rel resolve evs qc \<or> rc = -1 \<and> qc_failed qc" by auto
  then have "pgwt_query_ctx_index_build (Some resolve) env evs = Some (rc, qc)"
    by (cases "evs = []") (simp_all add: pgwt_query_ctx_index_build_def)
  moreover have "\<forall>q. case pgwt_query_ctx_lookup qc q of
         Some None \<Rightarrow> (\<forall>ev\<in>set evs. query_id ev \<noteq> q)
       | Some (Some e) \<Rightarrow> (\<exists>ev\<in>set evs. query_id ev = q) \<and>
                         ctx_verdict resolve (filter (\<lambda>ev. query_id ev = q) evs) e
       | None \<Rightarrow> False" if "qc_rel resolve evs qc"
    using build_lookup [OF that] ctx_of_verdict by simp
  ultimately show ?thesis using r by blast
qed

text \<open>Two events of one query by two backends, one of which has no metadata.\<close>

definition witness_events :: "pgwt_trace_event list" where
  "witness_events =
     [\<lparr>timestamp_ns = 10, pid = 1, old_event = 5, new_event = 0, flags = 0, duration_ns = 3,
       query_id = 42, cpu_ns = 0\<rparr>,
      \<lparr>timestamp_ns = 20, pid = 2, old_event = 5, new_event = 0, flags = 0, duration_ns = 3,
       query_id = 42, cpu_ns = 0\<rparr>]"

theorem query_ctx_build_correct_witness:
  "\<exists>rc qc. pgwt_query_ctx_index_build (Some (\<lambda>p. if p = 1 then Some (16384, 10) else None))
             \<lparr>slots_grow_ok = \<lambda>_. True, index_grow_ok = \<lambda>_. True\<rparr> witness_events = Some (rc, qc) \<and>
     (rc = -1 \<and> qc_failed qc \<or>
      rc = 0 \<and>
      (\<forall>q. case pgwt_query_ctx_lookup qc q of
         Some None \<Rightarrow> (\<forall>ev\<in>set witness_events. query_id ev \<noteq> q)
       | Some (Some e) \<Rightarrow> (\<exists>ev\<in>set witness_events. query_id ev = q) \<and>
                         ctx_verdict (\<lambda>p. if p = 1 then Some (16384, 10) else None)
                           (filter (\<lambda>ev. query_id ev = q) witness_events) e
       | None \<Rightarrow> False))"
  by (rule query_ctx_build_correct)

end
