(* ===== verification/Query_Attr.thy ===== *)
theory Query_Attr
  imports Prelude
begin

text \<open>
  Deferred per-query attribution: src/src/query_attr.h. The emit callback is recorded as the list of
  its calls. The lemmas relate the bounded state machine to the rule the source states (the first id
  reported later in the same command, else the last id reported earlier in it, else unattributed) and
  show that no count and no nanosecond is ever lost, spills included.
\<close>

section \<open>The state machine\<close>

definition PGWT_QATTR_PENDING_MAX :: nat where [simp]: "PGWT_QATTR_PENDING_MAX = 16"

record pgwt_qattr_pending =
  pend_we :: u32
  pend_count :: u64
  pend_total_ns :: u64
  pend_min_ns :: u64
  pend_max_ns :: u64

record pgwt_qattr_pid =
  cmd_qid :: u64
  pending :: "pgwt_qattr_pending list"

definition fresh_qattr :: pgwt_qattr_pid where
  "fresh_qattr = \<lparr>cmd_qid = 0, pending = []\<rparr>"

lemma fresh_qattr_fields [simp]: "cmd_qid fresh_qattr = 0" "pending fresh_qattr = []"
  by (simp_all add: fresh_qattr_def)

text \<open>One call of the emit callback: query id, aggregate, backfilled.\<close>

type_synonym qattr_emit = "u64 \<times> pgwt_qattr_pending \<times> bool"

definition pgwt_qattr_flush :: "pgwt_qattr_pid \<Rightarrow> u64 \<Rightarrow> pgwt_qattr_pid \<times> qattr_emit list" where
  "pgwt_qattr_flush q qid = (q\<lparr>pending := []\<rparr>, map (\<lambda>p. (qid, p, qid \<noteq> 0)) (pending q))"

definition add_pending :: "pgwt_qattr_pending \<Rightarrow> pgwt_qattr_pending \<Rightarrow> pgwt_qattr_pending" where
  "add_pending slot p =
     slot\<lparr>pend_count := pend_count slot + pend_count p,
          pend_total_ns := pend_total_ns slot + pend_total_ns p,
          pend_min_ns := (if pend_min_ns p < pend_min_ns slot then pend_min_ns p else pend_min_ns slot),
          pend_max_ns := (if pend_max_ns p > pend_max_ns slot then pend_max_ns p else pend_max_ns slot)\<rparr>"

text \<open>The scan for the wait event's slot, adding to the first one found.\<close>

fun add_to_slot :: "u32 \<Rightarrow> pgwt_qattr_pending \<Rightarrow> pgwt_qattr_pending list \<Rightarrow> pgwt_qattr_pending list option" where
  "add_to_slot we p [] = None"
| "add_to_slot we p (s # ss) =
     (if pend_we s = we then Some (add_pending s p # ss)
      else map_option (Cons s) (add_to_slot we p ss))"

definition new_slot :: "u32 \<Rightarrow> pgwt_qattr_pending" where
  "new_slot we = \<lparr>pend_we = we, pend_count = 0, pend_total_ns = 0, pend_min_ns = UINT64_MAX, pend_max_ns = 0\<rparr>"

definition pgwt_qattr_defer_stats ::
  "pgwt_qattr_pid \<Rightarrow> u32 \<Rightarrow> pgwt_qattr_pending \<Rightarrow> bool \<times> pgwt_qattr_pid \<times> qattr_emit list" where
  "pgwt_qattr_defer_stats q we p =
     (case add_to_slot we p (pending q) of
        Some ps \<Rightarrow> (False, q\<lparr>pending := ps\<rparr>, [])
      | None \<Rightarrow>
          let spilled = length (pending q) \<ge> PGWT_QATTR_PENDING_MAX;
              (q, es) = (if spilled then pgwt_qattr_flush q 0 else (q, []))
          in (spilled, q\<lparr>pending := pending q @ [add_pending (new_slot we) p]\<rparr>, es))"

definition pgwt_qattr_defer ::
  "pgwt_qattr_pid \<Rightarrow> u32 \<Rightarrow> u64 \<Rightarrow> bool \<times> pgwt_qattr_pid \<times> qattr_emit list" where
  "pgwt_qattr_defer q we ns =
     pgwt_qattr_defer_stats q we
       \<lparr>pend_we = 0, pend_count = 1, pend_total_ns = ns, pend_min_ns = ns, pend_max_ns = ns\<rparr>"

definition pgwt_qattr_observe :: "pgwt_qattr_pid \<Rightarrow> u64 \<Rightarrow> pgwt_qattr_pid \<times> qattr_emit list" where
  "pgwt_qattr_observe q qid =
     (if qid = 0 then (q, [])
      else let (q, es) = pgwt_qattr_flush q qid in (q\<lparr>cmd_qid := qid\<rparr>, es))"

definition pgwt_qattr_boundary :: "pgwt_qattr_pid \<Rightarrow> bool \<Rightarrow> pgwt_qattr_pid \<times> qattr_emit list" where
  "pgwt_qattr_boundary q new_command =
     (let (q, es) = pgwt_qattr_flush q (cmd_qid q)
      in (if new_command then q\<lparr>cmd_qid := 0\<rparr> else q, es))"

definition pgwt_qattr_resolve_now :: "pgwt_qattr_pid option \<Rightarrow> u64" where
  "pgwt_qattr_resolve_now q = (case q of None \<Rightarrow> 0 | Some q \<Rightarrow> cmd_qid q)"

section \<open>Runs of one pid\<close>

datatype qattr_op = Defer u32 u64 | Observe u64 | Boundary bool

fun qattr_step :: "qattr_op \<Rightarrow> pgwt_qattr_pid \<Rightarrow> bool \<times> pgwt_qattr_pid \<times> qattr_emit list" where
  "qattr_step (Defer we ns) q = pgwt_qattr_defer q we ns"
| "qattr_step (Observe qid) q = (False, pgwt_qattr_observe q qid)"
| "qattr_step (Boundary nw) q = (False, pgwt_qattr_boundary q nw)"

fun qattr_run :: "qattr_op list \<Rightarrow> pgwt_qattr_pid \<Rightarrow> bool \<times> pgwt_qattr_pid \<times> qattr_emit list" where
  "qattr_run [] q = (False, q, [])"
| "qattr_run (op # ops) q =
     (case qattr_step op q of
        (sp, q', es) \<Rightarrow> (case qattr_run ops q' of (sp', q'', es') \<Rightarrow> (sp \<or> sp', q'', es @ es')))"

section \<open>Totals per wait event and per query\<close>

definition pend_sum :: "(pgwt_qattr_pending \<Rightarrow> u64) \<Rightarrow> u32 \<Rightarrow> pgwt_qattr_pending list \<Rightarrow> u64" where
  "pend_sum f we ps = sum_list (map f (filter (\<lambda>p. pend_we p = we) ps))"

definition emit_sum :: "(pgwt_qattr_pending \<Rightarrow> u64) \<Rightarrow> (u64 \<Rightarrow> bool) \<Rightarrow> u32 \<Rightarrow> qattr_emit list \<Rightarrow> u64" where
  "emit_sum f P we es = pend_sum f we (map (fst \<circ> snd) (filter (\<lambda>e. P (fst e)) es))"

fun deferred_sum :: "(u64 \<Rightarrow> u64) \<Rightarrow> u32 \<Rightarrow> qattr_op list \<Rightarrow> u64" where
  "deferred_sum g we [] = 0"
| "deferred_sum g we (Defer w ns # ops) = (if w = we then g ns else 0) + deferred_sum g we ops"
| "deferred_sum g we (op # ops) = deferred_sum g we ops"

text \<open>The stated rule: the owner of an interval deferred under \<open>c\<close>, given what follows it.\<close>

fun owner :: "u64 \<Rightarrow> qattr_op list \<Rightarrow> u64 option" where
  "owner c [] = None"
| "owner c (Defer we ns # ops) = owner c ops"
| "owner c (Observe q # ops) = (if q = 0 then owner c ops else Some q)"
| "owner c (Boundary nw # ops) = Some c"

fun owned_sum :: "(u64 \<Rightarrow> u64) \<Rightarrow> u64 \<Rightarrow> u32 \<Rightarrow> u64 \<Rightarrow> qattr_op list \<Rightarrow> u64" where
  "owned_sum g qid we c [] = 0"
| "owned_sum g qid we c (Defer w ns # ops) =
     (if w = we \<and> owner c ops = Some qid then g ns else 0) + owned_sum g qid we c ops"
| "owned_sum g qid we c (Observe q # ops) = owned_sum g qid we (if q = 0 then c else q) ops"
| "owned_sum g qid we c (Boundary nw # ops) = owned_sum g qid we (if nw then 0 else c) ops"

text \<open>The two summed fields and what one deferred interval adds to each.\<close>

definition summed :: "(pgwt_qattr_pending \<Rightarrow> u64) \<Rightarrow> (u64 \<Rightarrow> u64) \<Rightarrow> bool" where
  "summed f g \<longleftrightarrow>
     (\<forall>s p. f (add_pending s p) = f s + f p) \<and> (\<forall>we. f (new_slot we) = 0) \<and>
     (\<forall>ns. f \<lparr>pend_we = 0, pend_count = 1, pend_total_ns = ns, pend_min_ns = ns, pend_max_ns = ns\<rparr> = g ns)"

lemma summed_count: "summed pend_count (\<lambda>_. 1)"
  by (simp add: summed_def add_pending_def new_slot_def)

lemma summed_total: "summed pend_total_ns (\<lambda>ns. ns)"
  by (simp add: summed_def add_pending_def new_slot_def)

lemma add_pending_we [simp]: "pend_we (add_pending s p) = pend_we s"
  by (simp add: add_pending_def)

lemma new_slot_we [simp]: "pend_we (new_slot we) = we"
  by (simp add: new_slot_def)

lemma pend_sum_simps [simp]:
  "pend_sum f we [] = 0"
  "pend_sum f we (p # ps) = (if pend_we p = we then f p else 0) + pend_sum f we ps"
  "pend_sum f we (ps @ qs) = pend_sum f we ps + pend_sum f we qs"
  by (simp_all add: pend_sum_def)

lemma emit_sum_append [simp]: "emit_sum f P we (es @ es') = emit_sum f P we es + emit_sum f P we es'"
  by (simp add: emit_sum_def)

lemma emit_sum_Nil [simp]: "emit_sum f P we [] = 0"
  by (simp add: emit_sum_def)

lemma emit_sum_flush:
  "emit_sum f P we (map (\<lambda>p. (qid, p, b)) ps) = (if P qid then pend_sum f we ps else 0)"
  by (induction ps) (auto simp: emit_sum_def)

lemma add_to_slot_sum:
  "summed f g \<Longrightarrow> add_to_slot w p ps = Some ps' \<Longrightarrow>
   pend_sum f we ps' = pend_sum f we ps + (if w = we then f p else 0)"
proof (induction ps arbitrary: ps')
  case (Cons s ps)
  have add: "f (add_pending s p) = f s + f p" using Cons.prems(1) by (simp add: summed_def)
  show ?case
  proof (cases "pend_we s = w")
    case True
    then show ?thesis using Cons.prems(2) add by (auto simp: ac_simps)
  next
    case False
    then obtain qs where "add_to_slot w p ps = Some qs" "ps' = s # qs" using Cons.prems(2) by auto
    then show ?thesis using Cons.IH [OF Cons.prems(1)] by (simp add: ac_simps)
  qed
qed simp

lemma defer_sum:
  assumes "summed f g" and "pgwt_qattr_defer q w ns = (sp, q', es)"
  shows "emit_sum f (\<lambda>_. True) we es + pend_sum f we (pending q') =
           pend_sum f we (pending q) + (if w = we then g ns else 0)"
    and "\<not> sp \<Longrightarrow> es = []" and "cmd_qid q' = cmd_qid q" and "es \<noteq> [] \<Longrightarrow> \<forall>e\<in>set es. fst e = 0"
  using assms(2) add_to_slot_sum [OF assms(1)] assms(1)
  by (auto simp: pgwt_qattr_defer_def pgwt_qattr_defer_stats_def pgwt_qattr_flush_def Let_def
      emit_sum_flush summed_def split: option.splits if_splits)

text \<open>Conservation, spills included.\<close>

lemma run_conserves:
  assumes "summed f g"
  shows "qattr_run ops q = (sp, q', es) \<Longrightarrow>
     emit_sum f (\<lambda>_. True) we es + pend_sum f we (pending q') =
     pend_sum f we (pending q) + deferred_sum g we ops"
proof (induction ops arbitrary: q sp es)
  case (Cons op ops)
  obtain sp1 q1 es1 where st: "qattr_step op q = (sp1, q1, es1)" by (cases "qattr_step op q")
  obtain sp2 q2 es2 where rn: "qattr_run ops q1 = (sp2, q2, es2)" by (cases "qattr_run ops q1")
  have e: "q' = q2" "es = es1 @ es2" using Cons.prems st rn by auto
  note ih = Cons.IH [OF rn [folded e(1)]]
  have step: "emit_sum f (\<lambda>_. True) we es1 + pend_sum f we (pending q1) =
      pend_sum f we (pending q) + (case op of Defer w ns \<Rightarrow> if w = we then g ns else 0 | _ \<Rightarrow> 0)"
  proof (cases op)
    case (Defer w ns)
    then show ?thesis using defer_sum(1) [OF assms, of q w ns sp1 q1 es1 we] st by simp
  next
    case (Observe qid)
    then show ?thesis
      using st by (auto simp: pgwt_qattr_observe_def pgwt_qattr_flush_def emit_sum_flush split: if_splits)
  next
    case (Boundary nw)
    then show ?thesis
      using st by (auto simp: pgwt_qattr_boundary_def pgwt_qattr_flush_def emit_sum_flush Let_def split: if_splits)
  qed
  have ds: "deferred_sum g we (op # ops) =
      (case op of Defer w ns \<Rightarrow> if w = we then g ns else 0 | _ \<Rightarrow> 0) + deferred_sum g we ops"
    by (cases op) auto
  have "emit_sum f (\<lambda>_. True) we es + pend_sum f we (pending q') =
      emit_sum f (\<lambda>_. True) we es1 + (emit_sum f (\<lambda>_. True) we es2 + pend_sum f we (pending q2))"
    by (simp add: e add.assoc)
  also have "\<dots> = (emit_sum f (\<lambda>_. True) we es1 + pend_sum f we (pending q1)) + deferred_sum g we ops"
    using ih by (simp add: e(1) add.assoc)
  finally show ?case by (simp add: step ds add.assoc)
qed simp

text \<open>Attribution, for runs that never overflow the pending list.\<close>

lemma run_attributes:
  assumes "summed f g"
  shows "qattr_run ops q = (False, q', es) \<Longrightarrow>
     emit_sum f (\<lambda>x. x = qid) we es =
       (if owner (cmd_qid q) ops = Some qid then pend_sum f we (pending q) else 0) +
       owned_sum g qid we (cmd_qid q) ops"
proof (induction ops arbitrary: q es)
  case (Cons op ops)
  obtain sp1 q1 es1 where st: "qattr_step op q = (sp1, q1, es1)" by (cases "qattr_step op q")
  obtain sp2 q2 es2 where rn0: "qattr_run ops q1 = (sp2, q2, es2)" by (cases "qattr_run ops q1")
  have e: "q' = q2" "es = es1 @ es2" "\<not> sp1" and rn: "qattr_run ops q1 = (False, q2, es2)"
    using Cons.prems st rn0 by auto
  note ih = Cons.IH [OF rn [folded e(1)]]
  show ?case
  proof (cases op)
    case (Defer w ns)
    then have d: "pgwt_qattr_defer q w ns = (sp1, q1, es1)" using st by simp
    note ds = defer_sum [OF assms d]
    have "es1 = []" using ds(2) e(3) by simp
    moreover have "pend_sum f we (pending q1) = pend_sum f we (pending q) + (if w = we then g ns else 0)"
      using ds(1) [of we] \<open>es1 = []\<close> by simp
    ultimately show ?thesis using Defer e(2) ih ds(3) by (auto simp: algebra_simps)
  next
    case (Observe qq)
    then show ?thesis
      using st e(2) ih
      by (auto simp: pgwt_qattr_observe_def pgwt_qattr_flush_def emit_sum_flush split: if_splits)
  next
    case (Boundary nw)
    then show ?thesis
      using st e(2) ih
      by (auto simp: pgwt_qattr_boundary_def pgwt_qattr_flush_def emit_sum_flush Let_def split: if_splits)
  qed
qed simp

section \<open>Properties\<close>

text \<open>
  C28: attribution follows the rule: over any sequence of deferred intervals, reported ids and command
  boundaries that never overflows the 16 pending slots, the count and the time emitted under a query id
  for a wait event are exactly those of the intervals the rule gives it: the first id reported later
  in the same command, else the last one reported earlier in it, else the unattributed bucket.
\<close>

theorem qattr_follows_rule:
  assumes "fst (qattr_run ops fresh_qattr) = False"
  shows "emit_sum pend_count (\<lambda>x. x = qid) we (snd (snd (qattr_run ops fresh_qattr))) =
           owned_sum (\<lambda>_. 1) qid we 0 ops \<and>
         emit_sum pend_total_ns (\<lambda>x. x = qid) we (snd (snd (qattr_run ops fresh_qattr))) =
           owned_sum (\<lambda>ns. ns) qid we 0 ops"
proof -
  obtain q es where run: "qattr_run ops fresh_qattr = (False, q, es)"
    using assms by (cases "qattr_run ops fresh_qattr") auto
  from run_attributes [OF summed_count run, of qid we] run_attributes [OF summed_total run, of qid we]
  show ?thesis by (simp add: run)
qed

theorem qattr_follows_rule_witness:
  "let ops = [Boundary True, Defer 50331648 700, Observe 42, Defer 100663296 5, Boundary False] in
     emit_sum pend_count (\<lambda>x. x = 42) 50331648 (snd (snd (qattr_run ops fresh_qattr))) =
       owned_sum (\<lambda>_. 1) 42 50331648 0 ops \<and>
     emit_sum pend_total_ns (\<lambda>x. x = 42) 50331648 (snd (snd (qattr_run ops fresh_qattr))) =
       owned_sum (\<lambda>ns. ns) 42 50331648 0 ops"
  unfolding Let_def
  by (rule qattr_follows_rule)
    (simp add: fresh_qattr_def pgwt_qattr_boundary_def pgwt_qattr_flush_def pgwt_qattr_observe_def
      pgwt_qattr_defer_def pgwt_qattr_defer_stats_def)

text \<open>
  C29: nothing is lost: for every wait event, what was emitted (under any id, overflow spills included)
  plus what is still pending is what was deferred, in count and in nanoseconds.
\<close>

theorem qattr_conserves:
  "case qattr_run ops fresh_qattr of
     (sp, q, es) \<Rightarrow>
       emit_sum pend_count (\<lambda>_. True) we es + pend_sum pend_count we (pending q) = deferred_sum (\<lambda>_. 1) we ops \<and>
       emit_sum pend_total_ns (\<lambda>_. True) we es + pend_sum pend_total_ns we (pending q) = deferred_sum (\<lambda>ns. ns) we ops"
  using run_conserves [OF summed_count, of ops fresh_qattr] run_conserves [OF summed_total, of ops fresh_qattr]
  by (cases "qattr_run ops fresh_qattr") simp

end
