(* ===== verification/Ctrl_Outq.thy ===== *)
theory Ctrl_Outq
  imports Prelude
begin

text \<open>
  The per-client output queue of the control socket: src/src/ctrl_outq.h. The buffer is the whole
  allocated array, so compaction and growth are modelled as the moves they are. The write callback is
  a parameter that gives the answer to the k-th call; the reallocation is a parameter that gives the
  content of the new tail or refuses. The lemmas show that the queue is a byte stream: what reaches
  the socket followed by what is pending is what was accepted, in order, with nothing lost, repeated
  or shortened, and that the memory of one client is bounded.
\<close>

type_synonym byte = u8

definition PGWT_CTRL_OUTQ_MAX :: nat where "PGWT_CTRL_OUTQ_MAX = 2 * 1024 * 1024"

record pgwt_ctrl_outq =
  buf :: "byte list"
  cap :: nat
  len :: nat
  off :: nat
  overflow :: bool

definition pgwt_outq_init :: pgwt_ctrl_outq where
  "pgwt_outq_init = \<lparr>buf = [], cap = 0, len = 0, off = 0, overflow = False\<rparr>"

definition pgwt_outq_reset :: "pgwt_ctrl_outq \<Rightarrow> pgwt_ctrl_outq" where
  "pgwt_outq_reset q = pgwt_outq_init"

definition pgwt_outq_pending :: "pgwt_ctrl_outq \<Rightarrow> nat" where
  "pgwt_outq_pending q = len q - off q"

section \<open>Append\<close>

definition outq_compact :: "pgwt_ctrl_outq \<Rightarrow> pgwt_ctrl_outq" where
  "outq_compact q =
     (if off q > 0 \<and> off q = len q then q\<lparr>len := 0, off := 0\<rparr>
      else if off q > 0 then
        q\<lparr>buf := take (len q - off q) (drop (off q) (buf q)) @ drop (len q - off q) (buf q),
          len := len q - off q, off := 0\<rparr>
      else q)"

text \<open>The doubling of the wanted capacity; it starts from a positive capacity.\<close>

function want_loop :: "nat \<Rightarrow> nat \<Rightarrow> nat" where
  "want_loop want need = (if 0 < want \<and> want < need then want_loop (want * 2) need else want)"
  by pat_completeness auto
termination by (relation "measure (\<lambda>(w, n). n - w)") auto

declare want_loop.simps [simp del]

text \<open>A fresh tail of \<open>n\<close> bytes made from what the allocator left there.\<close>

definition tail_bytes :: "byte list \<Rightarrow> nat \<Rightarrow> byte list" where
  "tail_bytes t n = take n (t @ replicate n 0)"

definition pgwt_outq_append ::
  "(nat \<Rightarrow> byte list option) \<Rightarrow> pgwt_ctrl_outq \<Rightarrow> byte list \<Rightarrow> int \<times> pgwt_ctrl_outq" where
  "pgwt_outq_append realloc q p =
     (if overflow q then (-1, q)
      else
        let q = outq_compact q; n = length p
        in if len q + n > PGWT_CTRL_OUTQ_MAX then (-1, q\<lparr>overflow := True\<rparr>)
           else
             let want = (if len q + n > cap q
                         then want_loop (if cap q \<noteq> 0 then cap q else 4096) (len q + n) else cap q)
             in case (if len q + n > cap q then realloc want else Some []) of
                  None \<Rightarrow> (-1, q\<lparr>overflow := True\<rparr>)
                | Some t \<Rightarrow>
                    let q = q\<lparr>buf := buf q @ tail_bytes t (want - cap q), cap := want\<rparr>
                    in (0, q\<lparr>buf := take (len q) (buf q) @ p @ drop (len q + n) (buf q),
                             len := len q + n\<rparr>))"

section \<open>Flush\<close>

datatype errno = EINTR | EAGAIN | EWOULDBLOCK | EOTHER

datatype write_answer = Wrote nat | WriteError errno

text \<open>
  The callback gives answer number \<open>k\<close> when asked to write that many bytes; the loop carries the
  bytes handed to the socket so far.
\<close>

partial_function (option) flush_loop ::
  "(nat \<Rightarrow> nat \<Rightarrow> write_answer) \<Rightarrow> pgwt_ctrl_outq \<Rightarrow> nat \<Rightarrow> byte list \<Rightarrow> (int \<times> pgwt_ctrl_outq \<times> byte list) option" where
  "flush_loop fn q k sent =
     (if off q < len q then
        (case fn k (len q - off q) of
           Wrote w \<Rightarrow>
             if w > 0 then
               flush_loop fn (q\<lparr>off := off q + w\<rparr>) (k + 1) (sent @ take w (drop (off q) (buf q)))
             else Some (0, q, sent)
         | WriteError e \<Rightarrow>
             if e = EINTR then flush_loop fn q (k + 1) sent
             else if e = EAGAIN \<or> e = EWOULDBLOCK then Some (0, q, sent)
             else Some (-1, q, sent))
      else
        let q = q\<lparr>len := 0, off := 0\<rparr>
        in Some (1, if cap q > 64 * 1024 then q\<lparr>buf := [], cap := 0\<rparr> else q, sent))"

definition pgwt_outq_flush ::
  "(nat \<Rightarrow> nat \<Rightarrow> write_answer) \<Rightarrow> pgwt_ctrl_outq \<Rightarrow> (int \<times> pgwt_ctrl_outq \<times> byte list) option" where
  "pgwt_outq_flush fn q = flush_loop fn q 0 []"

section \<open>The byte stream\<close>

definition outq_ok :: "pgwt_ctrl_outq \<Rightarrow> bool" where
  "outq_ok q \<longleftrightarrow> length (buf q) = cap q \<and> off q \<le> len q \<and> len q \<le> cap q \<and> len q \<le> PGWT_CTRL_OUTQ_MAX \<and>
     (cap q = 0 \<or> (\<exists>k\<le>9. cap q = 4096 * 2 ^ k))"

definition outq_bytes :: "pgwt_ctrl_outq \<Rightarrow> byte list" where
  "outq_bytes q = take (len q - off q) (drop (off q) (buf q))"

lemma outq_ok_init: "outq_ok pgwt_outq_init" "outq_bytes pgwt_outq_init = []"
  by (simp_all add: outq_ok_def pgwt_outq_init_def outq_bytes_def)

lemma compact_ok:
  assumes "outq_ok q"
  shows "outq_ok (outq_compact q)" and "off (outq_compact q) = 0"
    and "outq_bytes (outq_compact q) = outq_bytes q" and "cap (outq_compact q) = cap q"
    and "overflow (outq_compact q) = overflow q" and "take (len (outq_compact q)) (buf (outq_compact q)) = outq_bytes q"
  using assms by (auto simp: outq_ok_def outq_compact_def outq_bytes_def)

lemma want_loop_ge: "0 < w \<Longrightarrow> need \<le> want_loop w need"
  by (induction w need rule: want_loop.induct) (subst want_loop.simps, auto)

lemma want_loop_pow2:
  "w = 4096 * 2 ^ k \<Longrightarrow> k \<le> 9 \<Longrightarrow> need \<le> PGWT_CTRL_OUTQ_MAX \<Longrightarrow> \<exists>j\<le>9. want_loop w need = 4096 * 2 ^ j"
proof (induction w need arbitrary: k rule: want_loop.induct)
  case (1 w need)
  show ?case
  proof (cases "w < need")
    case False
    then show ?thesis using 1 by (subst want_loop.simps) auto
  next
    case True
    have pos: "0 < w" using 1(2) by simp
    have "(2 :: nat) ^ k < 2 ^ 9" using True 1(2,4) by (simp add: PGWT_CTRL_OUTQ_MAX_def)
    then have "k < 9" by (rule power_less_imp_less_exp [rotated]) simp
    moreover have "want_loop w need = want_loop (w * 2) need" using True pos by (subst want_loop.simps) simp
    ultimately show ?thesis using 1(1) [of "Suc k"] 1(2,4) True pos by simp
  qed
qed

lemma want_loop_ge_start: "w \<le> want_loop w need"
  by (induction w need rule: want_loop.induct) (subst want_loop.simps, auto)

lemma length_tail_bytes [simp]: "length (tail_bytes t n) = n"
  by (simp add: tail_bytes_def)

text \<open>Writing \<open>p\<close> after the first \<open>len\<close> bytes of a buffer with room for it.\<close>

lemma append_write:
  assumes "q' = q\<lparr>buf := take (len q) (buf q) @ p @ drop (len q + length p) (buf q), len := len q + length p\<rparr>"
    and "length (buf q) = cap q" and "off q = 0" and "len q + length p \<le> cap q"
    and "len q + length p \<le> PGWT_CTRL_OUTQ_MAX" and "cap q = 0 \<or> (\<exists>k\<le>9. cap q = 4096 * 2 ^ k)"
  shows "outq_ok q'" and "outq_bytes q' = take (len q) (buf q) @ p"
  using assms(2-) by (auto simp: assms(1) outq_ok_def outq_bytes_def)

lemma append_spec:
  assumes "outq_ok q" and "pgwt_outq_append realloc q p = (rc, q')"
  shows "outq_ok q'"
    and "rc = 0 \<and> outq_bytes q' = outq_bytes q @ p \<and> overflow q' = overflow q \<or>
         rc = -1 \<and> outq_bytes q' = outq_bytes q \<and> overflow q'"
proof -
  let ?c = "outq_compact q" and ?n = "length p"
  note c = compact_ok [OF assms(1)]
  define want where "want = (if len ?c + ?n > cap ?c
      then want_loop (if cap ?c \<noteq> 0 then cap ?c else 4096) (len ?c + ?n) else cap ?c)"
  have cc: "length (buf ?c) = cap ?c" "len ?c \<le> cap ?c" "cap ?c = 0 \<or> (\<exists>k\<le>9. cap ?c = 4096 * 2 ^ k)"
    using c(1) by (auto simp: outq_ok_def)
  have over: "outq_ok (?c\<lparr>overflow := True\<rparr>)" "outq_bytes (?c\<lparr>overflow := True\<rparr>) = outq_bytes q"
    using c(1,3) by (simp_all add: outq_ok_def outq_bytes_def)
  have unf: "pgwt_outq_append realloc q p =
      (case (if len ?c + ?n > cap ?c then realloc want else Some []) of
         None \<Rightarrow> (-1, ?c\<lparr>overflow := True\<rparr>)
       | Some t \<Rightarrow>
           let g = ?c\<lparr>buf := buf ?c @ tail_bytes t (want - cap ?c), cap := want\<rparr>
           in (0, g\<lparr>buf := take (len g) (buf g) @ p @ drop (len g + ?n) (buf g), len := len g + ?n\<rparr>))"
    if "\<not> overflow q" "\<not> len ?c + ?n > PGWT_CTRL_OUTQ_MAX"
    unfolding pgwt_outq_append_def Let_def want_def [symmetric] using that by (simp only: if_False)
  show "outq_ok q'" "rc = 0 \<and> outq_bytes q' = outq_bytes q @ p \<and> overflow q' = overflow q \<or>
         rc = -1 \<and> outq_bytes q' = outq_bytes q \<and> overflow q'"
  proof -
    consider "overflow q" | "\<not> overflow q" "len ?c + ?n > PGWT_CTRL_OUTQ_MAX"
      | "\<not> overflow q" "\<not> len ?c + ?n > PGWT_CTRL_OUTQ_MAX"
        "(if len ?c + ?n > cap ?c then realloc want else Some []) = None"
      | t where "\<not> overflow q" "\<not> len ?c + ?n > PGWT_CTRL_OUTQ_MAX"
        "(if len ?c + ?n > cap ?c then realloc want else Some []) = Some t" by fastforce
    then have "outq_ok q' \<and> (rc = 0 \<and> outq_bytes q' = outq_bytes q @ p \<and> overflow q' = overflow q \<or>
         rc = -1 \<and> outq_bytes q' = outq_bytes q \<and> overflow q')"
    proof cases
      case 1
      then show ?thesis using assms by (simp add: pgwt_outq_append_def)
    next
      case 2
      then have "rc = -1" "q' = ?c\<lparr>overflow := True\<rparr>" using assms(2) by (simp_all add: pgwt_outq_append_def Let_def)
      then show ?thesis using over by simp
    next
      case 3
      then have "rc = -1" "q' = ?c\<lparr>overflow := True\<rparr>"
        using assms(2) unfolding unf [OF 3(1,2)] 3(3) by simp_all
      then show ?thesis using over by simp
    next
      case (4 t)
      let ?g = "?c\<lparr>buf := buf ?c @ tail_bytes t (want - cap ?c), cap := want\<rparr>"
      have q': "rc = 0" "q' = ?g\<lparr>buf := take (len ?g) (buf ?g) @ p @ drop (len ?g + length p) (buf ?g),
                                  len := len ?g + length p\<rparr>"
        using assms(2) unfolding unf [OF 4(1,2)] 4(3) by (simp_all add: Let_def)
      have wge: "cap ?c \<le> want" "len ?c + ?n \<le> want"
        using want_loop_ge [of "cap ?c" "len ?c + ?n"] want_loop_ge [of 4096 "len ?c + ?n"]
          want_loop_ge_start [of "cap ?c" "len ?c + ?n"] by (auto simp: want_def)
      have wk: "want = 0 \<or> (\<exists>k\<le>9. want = 4096 * 2 ^ k)"
      proof (cases "len ?c + ?n > cap ?c")
        case True
        have "\<exists>k\<le>9. (if cap ?c \<noteq> 0 then cap ?c else 4096) = 4096 * 2 ^ k"
          using cc(3) by (auto intro: exI [of _ 0])
        then obtain k where "(if cap ?c \<noteq> 0 then cap ?c else 4096) = 4096 * 2 ^ k" "k \<le> 9" by blast
        from want_loop_pow2 [OF this] 4(2) True show ?thesis unfolding want_def by auto
      next
        case False
        then show ?thesis using cc(3) by (simp add: want_def)
      qed
      have tk: "take (len ?g) (buf ?g) = outq_bytes q" using c(6) cc(1,2) by simp
      note w = append_write [OF q'(2)]
      have "outq_ok q' \<and> outq_bytes q' = take (len ?g) (buf ?g) @ p"
        using w wge cc(1) c(2) 4(2) wk by simp
      moreover have "overflow q' = overflow q" using q'(2) c(5) by simp
      ultimately show ?thesis using q'(1) unfolding tk by blast
    qed
    then show "outq_ok q'" "rc = 0 \<and> outq_bytes q' = outq_bytes q @ p \<and> overflow q' = overflow q \<or>
         rc = -1 \<and> outq_bytes q' = outq_bytes q \<and> overflow q'" by blast+
  qed
qed



text \<open>What the callback promises: it never claims to have written more than it was given.\<close>

definition write_contract :: "(nat \<Rightarrow> nat \<Rightarrow> write_answer) \<Rightarrow> bool" where
  "write_contract fn \<longleftrightarrow> (\<forall>k n w. fn k n = Wrote w \<longrightarrow> w \<le> n)"

lemma outq_bytes_advance:
  assumes "w \<le> len q - off q"
  shows "take w (drop (off q) (buf q)) @ outq_bytes (q\<lparr>off := off q + w\<rparr>) = outq_bytes q"
proof -
  have "len q - off q = w + (len q - (off q + w))" using assms by simp
  then have "outq_bytes q = take (w + (len q - (off q + w))) (drop (off q) (buf q))"
    unfolding outq_bytes_def by presburger
  then show ?thesis by (simp only: take_add drop_drop) (simp add: outq_bytes_def add.commute)
qed

definition flush_post :: "pgwt_ctrl_outq \<Rightarrow> byte list \<Rightarrow> int \<times> pgwt_ctrl_outq \<times> byte list \<Rightarrow> bool" where
  "flush_post q sent r \<longleftrightarrow> (case r of (rc, q', sent') \<Rightarrow>
     outq_ok q' \<and> sent' @ outq_bytes q' = sent @ outq_bytes q \<and> overflow q' = overflow q \<and>
     (rc = 1 \<and> outq_bytes q' = [] \<or> rc = 0 \<or> rc = -1))"

lemma flush_post_now:
  "outq_ok q \<Longrightarrow> flush_post q sent (0, q, sent)" "outq_ok q \<Longrightarrow> flush_post q sent (-1, q, sent)"
  by (simp_all add: flush_post_def)

lemma flush_post_drained:
  assumes "outq_ok q" and "\<not> off q < len q"
  shows "flush_post q sent (1, (let q = q\<lparr>len := 0, off := 0\<rparr> in
           if cap q > 64 * 1024 then q\<lparr>buf := [], cap := 0\<rparr> else q), sent)"
  using assms by (auto simp: flush_post_def outq_ok_def outq_bytes_def Let_def)

lemma flush_post_step:
  assumes "outq_ok q" and "w \<le> len q - off q" and "off q < len q"
    and "flush_post (q\<lparr>off := off q + w\<rparr>) (sent @ take w (drop (off q) (buf q))) r"
  shows "flush_post q sent r"
  using assms(4) outq_bytes_advance [OF assms(2)]
  by (auto simp: flush_post_def split: prod.splits)

lemma flush_loop_post:
  assumes "flush_loop fn q k sent = Some r" and "write_contract fn" and "outq_ok q"
  shows "flush_post q sent r"
proof -
  have "write_contract fn \<longrightarrow> outq_ok q \<longrightarrow> flush_post q sent r"
  proof (rule flush_loop.raw_induct [OF _ assms(1)])
    fix fl :: "(nat \<Rightarrow> nat \<Rightarrow> write_answer) \<Rightarrow> pgwt_ctrl_outq \<Rightarrow> nat \<Rightarrow> byte list \<Rightarrow> _" and g q k sent r
    assume ih: "\<And>g q k sent r. fl g q k sent = Some r \<Longrightarrow>
        write_contract g \<longrightarrow> outq_ok q \<longrightarrow> flush_post q sent r"
      and body: "(if off q < len q
          then case g k (len q - off q) of
               Wrote w \<Rightarrow> if w > 0 then fl g (q\<lparr>off := off q + w\<rparr>) (k + 1) (sent @ take w (drop (off q) (buf q)))
                          else Some (0, q, sent)
             | WriteError e \<Rightarrow> if e = EINTR then fl g q (k + 1) sent
                 else if e = EAGAIN \<or> e = EWOULDBLOCK then Some (0, q, sent) else Some (-1, q, sent)
          else let q = q\<lparr>len := 0, off := 0\<rparr>
               in Some (1, if cap q > 64 * 1024 then q\<lparr>buf := [], cap := 0\<rparr> else q, sent)) = Some r"
    show "write_contract g \<longrightarrow> outq_ok q \<longrightarrow> flush_post q sent r"
    proof (intro impI)
      assume wc: "write_contract g" and ok: "outq_ok q"
      show "flush_post q sent r"
      proof (cases "off q < len q")
        case False
        then show ?thesis using body flush_post_drained [OF ok False, of sent] by (auto simp: Let_def)
      next
        case True
        show ?thesis
        proof (cases "g k (len q - off q)")
          case (Wrote w)
          then have le: "w \<le> len q - off q" using wc by (auto simp: write_contract_def)
          have ok2: "outq_ok (q\<lparr>off := off q + w\<rparr>)" using ok le True by (auto simp: outq_ok_def)
          show ?thesis
          proof (cases "w > 0")
            case pos: True
            then have "fl g (q\<lparr>off := off q + w\<rparr>) (k + 1) (sent @ take w (drop (off q) (buf q))) = Some r"
              using body True Wrote by simp
            then show ?thesis using ih wc ok2 flush_post_step [OF ok le True] by blast
          qed (use body True Wrote flush_post_now(1) [OF ok] in auto)
        next
          case (WriteError e)
          then show ?thesis
            using body True ih [of g q "k + 1" sent r] wc ok flush_post_now [OF ok, of sent]
            by (auto split: if_splits)
        qed
      qed
    qed
  qed
  then show ?thesis using assms(2,3) by blast
qed

text \<open>A callback that keeps answering something else than an interruption makes the loop return.\<close>

definition not_interrupted_forever :: "(nat \<Rightarrow> nat \<Rightarrow> write_answer) \<Rightarrow> bool" where
  "not_interrupted_forever fn \<longleftrightarrow> (\<forall>k. \<exists>d. \<forall>n. fn (k + d) n \<noteq> WriteError EINTR)"

lemma flush_loop_returns:
  assumes "not_interrupted_forever fn"
  shows "\<exists>r. flush_loop fn q k sent = Some r"
proof (induction "len q - off q" arbitrary: q k sent rule: less_induct)
  case less
  obtain d where "\<forall>n. fn (k + d) n \<noteq> WriteError EINTR"
    using assms unfolding not_interrupted_forever_def by blast
  then show ?case
  proof (induction d arbitrary: k)
    case 0
    then show ?case
      using less by (subst flush_loop.simps) (auto split: write_answer.split simp: Let_def)
  next
    case (Suc d)
    have "\<exists>r. flush_loop fn q (k + 1) sent = Some r" by (rule Suc.IH) (use Suc.prems in simp)
    then show ?case
      using less by (subst flush_loop.simps) (auto split: write_answer.split simp: Let_def)
  qed
qed

section \<open>Runs\<close>

text \<open>
  A sequence of client operations, an append with what its reallocation gives or a flush with the
  answers of its socket: the bytes accepted, the bytes that reached the socket, the final queue.
\<close>

fun stream_run :: "('e \<Rightarrow> 'q \<Rightarrow> byte list \<Rightarrow> int \<times> 'q) \<Rightarrow> ('w \<Rightarrow> 'q \<Rightarrow> (int \<times> 'q \<times> byte list) option)
    \<Rightarrow> ('e \<times> byte list + 'w) list \<Rightarrow> 'q \<Rightarrow> (byte list \<times> byte list \<times> 'q) option" where
  "stream_run app fls [] q = Some ([], [], q)"
| "stream_run app fls (Inl (e, p) # ops) q =
     (case stream_run app fls ops (snd (app e q p)) of
        None \<Rightarrow> None
      | Some (acc, sent, q') \<Rightarrow> Some ((if fst (app e q p) = 0 then p else []) @ acc, sent, q'))"
| "stream_run app fls (Inr w # ops) q =
     (case fls w q of
        None \<Rightarrow> None
      | Some (rc, q1, s) \<Rightarrow>
          (case stream_run app fls ops q1 of
             None \<Rightarrow> None | Some (acc, sent, q') \<Rightarrow> Some (acc, s @ sent, q')))"

text \<open>
  A queue interface: what is queued, an append that adds at the end or refuses, a flush that moves a
  prefix to the socket. Clients rely on the stream law proved here.
\<close>

locale byte_stream =
  fixes ok :: "'q \<Rightarrow> bool" and bytes :: "'q \<Rightarrow> byte list"
    and append :: "'e \<Rightarrow> 'q \<Rightarrow> byte list \<Rightarrow> int \<times> 'q"
    and flush :: "'w \<Rightarrow> 'q \<Rightarrow> (int \<times> 'q \<times> byte list) option"
    and good :: "'w \<Rightarrow> bool"
  assumes append_ok: "ok q \<Longrightarrow> ok (snd (append e q p))"
    and append_bytes: "ok q \<Longrightarrow> bytes (snd (append e q p)) = (if fst (append e q p) = 0 then bytes q @ p else bytes q)"
    and flush_ok: "ok q \<Longrightarrow> good w \<Longrightarrow> flush w q = Some (rc, q', sent) \<Longrightarrow> ok q'"
    and flush_bytes: "ok q \<Longrightarrow> good w \<Longrightarrow> flush w q = Some (rc, q', sent) \<Longrightarrow> sent @ bytes q' = bytes q"
begin

lemma stream_law:
  "ok q \<Longrightarrow> (\<forall>w. Inr w \<in> set ops \<longrightarrow> good w) \<Longrightarrow> stream_run append flush ops q = Some (acc, sent, q') \<Longrightarrow>
   ok q' \<and> sent @ bytes q' = bytes q @ acc"
proof (induction ops arbitrary: q acc sent)
  case (Cons op ops)
  have g: "\<forall>w. Inr w \<in> set ops \<longrightarrow> good w" using Cons.prems(2) by simp
  show ?case
  proof (cases op)
    case (Inl ep)
    obtain e p where ep: "ep = (e, p)" by (cases ep)
    obtain a where r: "stream_run append flush ops (snd (append e q p)) = Some (a, sent, q')"
      "acc = (if fst (append e q p) = 0 then p else []) @ a"
      using Cons.prems(3) Inl ep by (auto split: option.splits)
    from Cons.IH [OF append_ok [OF Cons.prems(1)] g r(1)] show ?thesis
      using r(2) append_bytes [OF Cons.prems(1), of e p] by auto
  next
    case (Inr w)
    obtain rc q1 s1 s where r: "flush w q = Some (rc, q1, s1)" "stream_run append flush ops q1 = Some (acc, s, q')"
      "sent = s1 @ s"
      using Cons.prems(3) Inr by (auto split: option.splits)
    have w: "good w" using Cons.prems(2) Inr by simp
    from Cons.IH [OF flush_ok [OF Cons.prems(1) w r(1)] g r(2)] show ?thesis
      using r(3) flush_bytes [OF Cons.prems(1) w r(1)] by (metis append_assoc)
  qed
qed simp

end

interpretation outq: byte_stream outq_ok outq_bytes pgwt_outq_append pgwt_outq_flush write_contract
proof (unfold_locales, goal_cases)
  case (1 q e p)
  then show ?case using append_spec(1) [of q e p] by (cases "pgwt_outq_append e q p") simp
next
  case (2 q e p)
  then show ?case using append_spec(2) [of q e p] by (cases "pgwt_outq_append e q p") auto
next
  case (3 q w rc q' sent)
  then show ?case
    using flush_loop_post [of w q 0 "[]"] by (auto simp: pgwt_outq_flush_def flush_post_def)
next
  case (4 q w rc q' sent)
  then show ?case
    using flush_loop_post [of w q 0 "[]"] by (auto simp: pgwt_outq_flush_def flush_post_def)
qed

section \<open>Properties\<close>

text \<open>
  C30: the queue is a byte stream: over any sequence of appends and flushes, with any partial writes,
  interruptions and errors of the socket, the bytes that reached the socket followed by the bytes
  still pending are the accepted replies, whole and in order. A reply is accepted whole or refused
  whole, and the allocation of one client never exceeds the cap.
\<close>

theorem outq_stream_preserved:
  assumes "\<forall>w. Inr w \<in> set ops \<longrightarrow> write_contract w"
    and "stream_run pgwt_outq_append pgwt_outq_flush ops pgwt_outq_init = Some (accepted, sent, q)"
  shows "sent @ outq_bytes q = accepted \<and> length (outq_bytes q) = pgwt_outq_pending q \<and>
         cap q \<le> PGWT_CTRL_OUTQ_MAX"
proof -
  have r: "outq_ok q \<and> sent @ outq_bytes q = outq_bytes pgwt_outq_init @ accepted"
    by (rule outq.stream_law [OF outq_ok_init(1) assms])
  have "cap q \<le> PGWT_CTRL_OUTQ_MAX"
  proof (cases "cap q = 0")
    case False
    then obtain k where "k \<le> 9" "cap q = 4096 * 2 ^ k" using r by (auto simp: outq_ok_def)
    moreover from \<open>k \<le> 9\<close> have "(2 :: nat) ^ k \<le> 2 ^ 9" by (rule power_increasing) simp
    ultimately show ?thesis by (simp add: PGWT_CTRL_OUTQ_MAX_def)
  qed simp
  moreover have "length (outq_bytes q) = pgwt_outq_pending q"
    using r by (auto simp: outq_ok_def outq_bytes_def pgwt_outq_pending_def)
  ultimately show ?thesis using r by (simp add: outq_ok_init(2))
qed

theorem outq_stream_preserved_witness:
  "\<exists>accepted sent q.
     stream_run pgwt_outq_append pgwt_outq_flush
       [Inl (\<lambda>_. Some [], [1, 2, 3]), Inr (\<lambda>k n. if k = 0 \<and> 2 \<le> n then Wrote 2 else WriteError EAGAIN)]
       pgwt_outq_init = Some (accepted, sent, q) \<and>
     sent @ outq_bytes q = accepted \<and> length (outq_bytes q) = pgwt_outq_pending q \<and>
     cap q \<le> PGWT_CTRL_OUTQ_MAX"
proof -
  let ?fn = "\<lambda>k n :: nat. if (k :: nat) = 0 \<and> 2 \<le> n then Wrote 2 else WriteError EAGAIN"
  let ?q = "snd (pgwt_outq_append (\<lambda>_. Some []) pgwt_outq_init [1, 2, 3])"
  have "not_interrupted_forever ?fn" by (simp add: not_interrupted_forever_def)
  then obtain r where "pgwt_outq_flush ?fn ?q = Some r"
    using flush_loop_returns [of ?fn ?q 0 "[]"] by (auto simp: pgwt_outq_flush_def)
  then obtain accepted sent q where run: "stream_run pgwt_outq_append pgwt_outq_flush
       [Inl (\<lambda>_. Some [], [1, 2, 3]), Inr ?fn] pgwt_outq_init = Some (accepted, sent, q)"
    by (cases r) auto
  moreover have "\<forall>w. Inr w \<in> set [Inl (\<lambda>_. Some [], [1, 2, 3]), Inr ?fn] \<longrightarrow> write_contract w"
    by (auto simp: write_contract_def split: if_splits)
  ultimately show ?thesis using outq_stream_preserved by blast
qed

text \<open>
  C31: a flush returns whenever the socket is not interrupted forever, and its answer is right: it reports
  drained only with nothing pending, and a would-block or an error leaves the unsent rest in place.
\<close>

theorem outq_flush_returns:
  assumes "not_interrupted_forever fn" and "write_contract fn" and "outq_ok q"
  shows "\<exists>rc q' sent. pgwt_outq_flush fn q = Some (rc, q', sent) \<and> sent @ outq_bytes q' = outq_bytes q \<and>
           (rc = 1 \<and> outq_bytes q' = [] \<or> rc = 0 \<or> rc = -1)"
proof -
  obtain rc q' sent where "flush_loop fn q 0 [] = Some (rc, q', sent)"
    using flush_loop_returns [OF assms(1), of q 0 "[]"] by auto
  with flush_loop_post [OF this assms(2,3)] show ?thesis
    by (auto simp: pgwt_outq_flush_def flush_post_def)
qed

theorem outq_flush_returns_witness:
  "let fn = (\<lambda>k n. if k = 0 then WriteError EINTR else if n < 2 then Wrote n else Wrote 2);
       q = snd (pgwt_outq_append (\<lambda>_. Some []) pgwt_outq_init [1, 2, 3])
   in \<exists>rc q' sent. pgwt_outq_flush fn q = Some (rc, q', sent) \<and> sent @ outq_bytes q' = outq_bytes q \<and>
           (rc = 1 \<and> outq_bytes q' = [] \<or> rc = 0 \<or> rc = -1)"
  unfolding Let_def
proof (rule outq_flush_returns)
  show "not_interrupted_forever (\<lambda>k n. if k = 0 then WriteError EINTR else if n < 2 then Wrote n else Wrote 2)"
    unfolding not_interrupted_forever_def by (intro allI exI [of _ 1]) simp
  show "write_contract (\<lambda>k n. if k = 0 then WriteError EINTR else if n < 2 then Wrote n else Wrote 2)"
    by (auto simp: write_contract_def split: if_splits)
  show "outq_ok (snd (pgwt_outq_append (\<lambda>_. Some []) pgwt_outq_init [1, 2, 3]))"
    by (rule outq.append_ok) (rule outq_ok_init(1))
qed

end
