(* ===== verification/Trace_Closure.thy ===== *)
theory Trace_Closure
  imports Prelude
begin

text \<open>
  How a trace file ended, read from its header flags: src/src/trace_closure.h. The lemma shows that
  only positive, uncontradicted evidence certifies a file.
\<close>

definition PGWT_FLAG_CLOSURE_TRACKED :: u16 where [simp]: "PGWT_FLAG_CLOSURE_TRACKED = 0x0002"
definition PGWT_FLAG_CLOSED_CLEAN :: u16 where [simp]: "PGWT_FLAG_CLOSED_CLEAN = 0x0004"
definition PGWT_FLAG_ROTATED :: u16 where [simp]: "PGWT_FLAG_ROTATED = 0x0008"
definition PGWT_FLAG_RECOVERED :: u16 where [simp]: "PGWT_FLAG_RECOVERED = 0x0010"

datatype pgwt_closure_status =
    PGWT_CLOSURE_UNKNOWN
  | PGWT_CLOSURE_IN_PROGRESS
  | PGWT_CLOSURE_ROTATED
  | PGWT_CLOSURE_CLEAN
  | PGWT_CLOSURE_UNCLEAN

definition pgwt_closure_from_flags :: "u16 \<Rightarrow> pgwt_closure_status" where
  "pgwt_closure_from_flags fl =
     (if fl AND PGWT_FLAG_CLOSURE_TRACKED = 0 then PGWT_CLOSURE_UNKNOWN
      else if fl AND PGWT_FLAG_RECOVERED \<noteq> 0 then PGWT_CLOSURE_UNCLEAN
      else if fl AND PGWT_FLAG_CLOSED_CLEAN \<noteq> 0 \<and> fl AND PGWT_FLAG_ROTATED \<noteq> 0 then PGWT_CLOSURE_UNCLEAN
      else if fl AND PGWT_FLAG_CLOSED_CLEAN \<noteq> 0 then PGWT_CLOSURE_CLEAN
      else if fl AND PGWT_FLAG_ROTATED \<noteq> 0 then PGWT_CLOSURE_ROTATED
      else PGWT_CLOSURE_IN_PROGRESS)"

fun pgwt_closure_open_intervals_may_be_missing :: "pgwt_closure_status \<Rightarrow> bool \<Rightarrow> bool" where
  "pgwt_closure_open_intervals_may_be_missing PGWT_CLOSURE_CLEAN is_live = False"
| "pgwt_closure_open_intervals_may_be_missing PGWT_CLOSURE_ROTATED is_live = False"
| "pgwt_closure_open_intervals_may_be_missing PGWT_CLOSURE_IN_PROGRESS is_live = (\<not> is_live)"
| "pgwt_closure_open_intervals_may_be_missing PGWT_CLOSURE_UNKNOWN is_live = (\<not> is_live)"
| "pgwt_closure_open_intervals_may_be_missing PGWT_CLOSURE_UNCLEAN is_live = True"

definition pgwt_closure_warning :: "pgwt_closure_status \<Rightarrow> bool \<Rightarrow> string option" where
  "pgwt_closure_warning s is_live =
     (if \<not> pgwt_closure_open_intervals_may_be_missing s is_live then None
      else if s = PGWT_CLOSURE_UNKNOWN then Some ''Closure unknown; open intervals may be missing.''
      else Some ''This capture ended uncleanly; intervals open at the end may be missing.'')"

fun pgwt_closure_name :: "pgwt_closure_status \<Rightarrow> string" where
  "pgwt_closure_name PGWT_CLOSURE_UNKNOWN = ''unknown''"
| "pgwt_closure_name PGWT_CLOSURE_IN_PROGRESS = ''in_progress''"
| "pgwt_closure_name PGWT_CLOSURE_ROTATED = ''rotated''"
| "pgwt_closure_name PGWT_CLOSURE_CLEAN = ''clean''"
| "pgwt_closure_name PGWT_CLOSURE_UNCLEAN = ''unclean''"

section \<open>Properties\<close>

text \<open>
  Absence of evidence is never a certificate: a reader of a file nobody is writing is spared the
  missing-intervals warning exactly when the file's flags say that closure was tracked, that it was
  not recovered from a crash, and that it ended by exactly one of a clean close and a rotation.
\<close>

theorem closure_certified_iff:
  "pgwt_closure_warning (pgwt_closure_from_flags fl) False = None \<longleftrightarrow>
     fl AND PGWT_FLAG_CLOSURE_TRACKED \<noteq> 0 \<and> fl AND PGWT_FLAG_RECOVERED = 0 \<and>
     (fl AND PGWT_FLAG_CLOSED_CLEAN \<noteq> 0) \<noteq> (fl AND PGWT_FLAG_ROTATED \<noteq> 0)"
  by (simp add: pgwt_closure_warning_def pgwt_closure_from_flags_def
      del: PGWT_FLAG_CLOSURE_TRACKED_def PGWT_FLAG_CLOSED_CLEAN_def PGWT_FLAG_ROTATED_def PGWT_FLAG_RECOVERED_def)

end
