(* ===== verification/Trace_Codec.thy ===== *)
theory Trace_Codec
  imports Trace_Event
begin

text \<open>
  The columnar trace format: the varint and block encoders of src/src/event_writer.c and the block
  decoder, block search and span tests of src/src/event_reader.c. Bytes are lists; a decode pointer
  with its remaining count is the list of bytes still to read; raw columns are little-endian, as on
  the supported hosts. LZ4 and the file reads are parameters. The lemmas show that a block decodes to
  exactly the events encoded, for both block types and for version-2 files, that truncated input is
  refused, and that the candidate test never skips a block holding a record of the window.
\<close>

section \<open>Varints\<close>

function pgwt_encode_varint :: "u64 \<Rightarrow> u8 list" where
  "pgwt_encode_varint val =
     (let byte = ucast (val AND 0x7F) :: u8;
          val' = drop_bit 7 val
      in if val' \<noteq> 0 then (byte OR 0x80) # pgwt_encode_varint val' else [byte])"
  by pat_completeness auto
termination
proof (relation "measure unat", goal_cases)
  case (2 val byte val')
  then have "val \<noteq> 0" by auto
  then have "0 < unat val" by (simp add: unat_gt_0)
  moreover have "unat (drop_bit 7 val) = unat val div 128" by (simp add: drop_bit_eq_div unat_div)
  ultimately show ?case using 2 by simp
qed simp

declare pgwt_encode_varint.simps [simp del]

text \<open>The decoding loop; \<open>n\<close> counts bytes read, the shift is refused beyond 63.\<close>

fun decode_varint_loop :: "u8 list \<Rightarrow> u64 \<Rightarrow> nat \<Rightarrow> nat \<Rightarrow> (nat \<times> u64) option" where
  "decode_varint_loop [] result shift n = None"
| "decode_varint_loop (b # bs) result shift n =
     (if shift > 63 then None
      else let result = result OR push_bit shift (ucast (b AND 0x7F))
           in if b AND 0x80 = 0 then Some (n + 1, result)
              else decode_varint_loop bs result (shift + 7) (n + 1))"

definition pgwt_decode_varint :: "u8 list \<Rightarrow> (nat \<times> u64) option" where
  "pgwt_decode_varint bs = decode_varint_loop bs 0 0 0"

section \<open>Raw columns\<close>

definition le32 :: "u32 \<Rightarrow> u8 list" where
  "le32 w = [ucast w, ucast (drop_bit 8 w), ucast (drop_bit 16 w), ucast (drop_bit 24 w)]"

definition le64 :: "u64 \<Rightarrow> u8 list" where
  "le64 w = le32 (ucast w) @ le32 (ucast (drop_bit 32 w))"

fun from_le32 :: "u8 list \<Rightarrow> u32" where
  "from_le32 (a # b # c # d # bs) =
     ucast a OR push_bit 8 (ucast b) OR push_bit 16 (ucast c) OR push_bit 24 (ucast d)"
| "from_le32 bs = 0"

definition from_le64 :: "u8 list \<Rightarrow> u64" where
  "from_le64 bs = ucast (from_le32 bs) OR push_bit 32 (ucast (from_le32 (drop 4 bs)))"

section \<open>The block encoders\<close>

fun ts_column :: "u64 \<Rightarrow> pgwt_trace_event list \<Rightarrow> u8 list" where
  "ts_column prev_ts [] = []"
| "ts_column prev_ts (ev # evs) =
     pgwt_encode_varint (timestamp_ns ev - prev_ts) @ ts_column (timestamp_ns ev) evs"

definition pgwt_encode_block :: "pgwt_trace_event list \<Rightarrow> u8 list" where
  "pgwt_encode_block evs =
     ts_column 0 evs @
     concat (map (le32 \<circ> pid) evs) @
     concat (map (le32 \<circ> old_event) evs) @
     concat (map (le32 \<circ> new_event) evs) @
     concat (map (pgwt_encode_varint \<circ> duration_ns) evs) @
     concat (map (le64 \<circ> query_id) evs) @
     concat (map (pgwt_encode_varint \<circ> cpu_ns) evs)"

definition pgwt_encode_sample_block :: "pgwt_trace_event list \<Rightarrow> u8 list" where
  "pgwt_encode_sample_block evs =
     ts_column 0 evs @
     concat (map (le32 \<circ> pid) evs) @
     concat (map (le32 \<circ> new_event) evs) @
     concat (map (le64 \<circ> query_id) evs)"

section \<open>The block decoder\<close>

text \<open>The column loops: the values read and the bytes left, or a refusal on short input.\<close>

fun read_varints :: "nat \<Rightarrow> u8 list \<Rightarrow> (u64 list \<times> u8 list) option" where
  "read_varints 0 bs = Some ([], bs)"
| "read_varints (Suc k) bs =
     (case pgwt_decode_varint bs of
        None \<Rightarrow> None
      | Some (n, v) \<Rightarrow> map_option (\<lambda>(vs, rest). (v # vs, rest)) (read_varints k (drop n bs)))"

fun undelta :: "u64 \<Rightarrow> u64 list \<Rightarrow> u64 list" where
  "undelta prev_ts [] = []"
| "undelta prev_ts (d # ds) = (prev_ts + d) # undelta (prev_ts + d) ds"

fun read_u32s :: "nat \<Rightarrow> u8 list \<Rightarrow> (u32 list \<times> u8 list) option" where
  "read_u32s 0 bs = Some ([], bs)"
| "read_u32s (Suc k) bs =
     (if length bs < 4 then None
      else map_option (\<lambda>(vs, rest). (from_le32 bs # vs, rest)) (read_u32s k (drop 4 bs)))"

fun read_u64s :: "nat \<Rightarrow> u8 list \<Rightarrow> (u64 list \<times> u8 list) option" where
  "read_u64s 0 bs = Some ([], bs)"
| "read_u64s (Suc k) bs =
     (if length bs < 8 then None
      else map_option (\<lambda>(vs, rest). (from_le64 bs # vs, rest)) (read_u64s k (drop 8 bs)))"

definition mk_event :: "u64 \<Rightarrow> u32 \<Rightarrow> u32 \<Rightarrow> u32 \<Rightarrow> u64 \<Rightarrow> u64 \<Rightarrow> u64 \<Rightarrow> u32 \<Rightarrow> pgwt_trace_event" where
  "mk_event ts p oe ne d q c f =
     \<lparr>timestamp_ns = ts, pid = p, old_event = oe, new_event = ne, flags = f, duration_ns = d,
      query_id = q, cpu_ns = c\<rparr>"

datatype pgwt_block_type = PGWT_BLOCK_TRANSITIONS | PGWT_BLOCK_SAMPLES

text \<open>The columns after decompression; the events are assembled from the columns index by index.\<close>

definition decode_columns ::
  "nat \<Rightarrow> pgwt_block_type \<Rightarrow> nat \<Rightarrow> u8 list \<Rightarrow> pgwt_trace_event list option" where
  "decode_columns version bt cnt bs =
     Option.bind (read_varints cnt bs) (\<lambda>(deltas, bs).
     Option.bind (read_u32s cnt bs) (\<lambda>(pids, bs).
     let tss = undelta 0 deltas in
     case bt of
       PGWT_BLOCK_SAMPLES \<Rightarrow>
         Option.bind (read_u32s cnt bs) (\<lambda>(nes, bs).
         Option.bind (read_u64s cnt bs) (\<lambda>(qids, bs).
         Some (map (\<lambda>i. mk_event (tss ! i) (pids ! i) 0 (nes ! i) 0 (qids ! i) PGWT_CPU_NS_UNKNOWN
                          PGWT_EVENT_FLAG_SAMPLE) [0..<cnt])))
     | PGWT_BLOCK_TRANSITIONS \<Rightarrow>
         Option.bind (read_u32s cnt bs) (\<lambda>(oes, bs).
         Option.bind (read_u32s cnt bs) (\<lambda>(nes, bs).
         Option.bind (read_varints cnt bs) (\<lambda>(durs, bs).
         Option.bind (read_u64s cnt bs) (\<lambda>(qids, bs).
         Option.bind (if version \<ge> 3 then map_option fst (read_varints cnt bs)
                      else Some (replicate cnt PGWT_CPU_NS_UNKNOWN)) (\<lambda>cpus.
         Some (map (\<lambda>i. mk_event (tss ! i) (pids ! i) (oes ! i) (nes ! i) (durs ! i) (qids ! i)
                          (cpus ! i) 0) [0..<cnt]))))))))"

record pgwt_trace_block_header =
  first_timestamp_ns :: u64
  last_timestamp_ns :: u64
  num_events :: u32
  compressed_size :: u32
  uncompressed_size :: u32
  block_type :: u16
  sample_period_ns :: u64

text \<open>
  One block: the header and the payload as the reads give them (\<open>None\<close> for a short read), whether the
  two buffers can grow, and LZ4. A negative count comes back as it is, with no event written.
\<close>

definition pgwt_reader_decode_block_info ::
  "(u8 list \<Rightarrow> u8 list option) \<Rightarrow> bool \<Rightarrow> nat \<Rightarrow> pgwt_trace_block_header option \<Rightarrow> u8 list option \<Rightarrow> int
     \<Rightarrow> int \<times> pgwt_trace_event list" where
  "pgwt_reader_decode_block_info lz4 mem_ok version header payload max_events =
     (case header of
        None \<Rightarrow> (-1, [])
      | Some bh \<Rightarrow>
          if block_type bh > 1 then (-1, [])
          else
            let cnt = sint (num_events bh);
                cnt = (if cnt > max_events then max_events else cnt)
            in if \<not> mem_ok then (-1, [])
               else case payload of
                   None \<Rightarrow> (-1, [])
                 | Some cs \<Rightarrow>
                     (case lz4 cs of
                        None \<Rightarrow> (-1, [])
                      | Some bs \<Rightarrow>
                          (case decode_columns version
                                 (if block_type bh = 1 then PGWT_BLOCK_SAMPLES else PGWT_BLOCK_TRANSITIONS)
                                 (nat cnt) bs of
                             None \<Rightarrow> (-1, [])
                           | Some evs \<Rightarrow> (cnt, evs))))"

section \<open>Finding blocks\<close>

function find_loop :: "u64 list \<Rightarrow> u64 \<Rightarrow> nat \<Rightarrow> nat \<Rightarrow> nat" where
  "find_loop ix mono_ns lo hi =
     (if lo < hi then
        let mid = (lo + hi) div 2
        in if ix ! mid \<le> mono_ns then find_loop ix mono_ns (mid + 1) hi else find_loop ix mono_ns lo mid
      else lo)"
  by pat_completeness auto
termination by (relation "measure (\<lambda>(_, _, lo, hi). hi - lo)") auto

declare find_loop.simps [simp del]

definition pgwt_reader_find_block :: "bool \<Rightarrow> u64 list \<Rightarrow> u64 \<Rightarrow> nat" where
  "pgwt_reader_find_block block_index_sorted ix mono_ns =
     (if \<not> block_index_sorted then 0
      else let lo = find_loop ix mono_ns 0 (length ix) in if lo > 0 then lo - 1 else 0)"

text \<open>The candidate test: the answer and the right-open mark.\<close>

definition pgwt_reader_block_candidate ::
  "pgwt_trace_block_header option \<Rightarrow> u64 \<Rightarrow> u64 \<Rightarrow> int \<times> bool" where
  "pgwt_reader_block_candidate hdr from_mono_ns to_mono_ns =
     (case hdr of
        None \<Rightarrow> (-1, False)
      | Some h \<Rightarrow>
          if from_mono_ns \<noteq> 0 \<and> last_timestamp_ns h < from_mono_ns then (0, False)
          else if to_mono_ns \<noteq> 0 \<and> first_timestamp_ns h > to_mono_ns
          then (if block_type h = 1 then (0, False) else (1, True))
          else (1, False))"

record pgwt_trace_file_span =
  mono_start :: u64
  mono_end :: u64
  wall_start :: u64
  wall_end :: u64

text \<open>The extent of a file from its header anchor and the first/last pair of every block; \<open>None\<close> is an
  unreadable block header.\<close>

definition pgwt_reader_mono_to_wall :: "u64 \<Rightarrow> u64 \<Rightarrow> u64" where
  "pgwt_reader_mono_to_wall mono_to_wall mono_ns = mono_ns + mono_to_wall"

definition pgwt_reader_wall_to_mono :: "u64 \<Rightarrow> u64 \<Rightarrow> u64" where
  "pgwt_reader_wall_to_mono mono_to_wall wall_ns = wall_ns - mono_to_wall"

fun span_loop :: "(u64 \<times> u64) option list \<Rightarrow> u64 \<Rightarrow> u64 \<Rightarrow> (u64 \<times> u64) option" where
  "span_loop [] s e = Some (s, e)"
| "span_loop (None # bs) s e = None"
| "span_loop (Some (f, l) # bs) s e = span_loop bs (if f < s then f else s) (if l > e then l else e)"

definition pgwt_reader_file_span ::
  "u64 \<Rightarrow> u64 \<Rightarrow> (u64 \<times> u64) option list \<Rightarrow> pgwt_trace_file_span option" where
  "pgwt_reader_file_span clock_offset_ns mono_to_wall blocks =
     (case span_loop blocks clock_offset_ns clock_offset_ns of
        None \<Rightarrow> None
      | Some (s, e) \<Rightarrow>
          Some \<lparr>mono_start = s, mono_end = e, wall_start = pgwt_reader_mono_to_wall mono_to_wall s,
                wall_end = pgwt_reader_mono_to_wall mono_to_wall e\<rparr>)"

definition pgwt_trace_spans_collide :: "pgwt_trace_file_span \<Rightarrow> pgwt_trace_file_span \<Rightarrow> bool" where
  "pgwt_trace_spans_collide a b \<longleftrightarrow>
     wall_start a \<le> wall_end b \<and> wall_start b \<le> wall_end a \<and>
     mono_start a \<le> mono_end b \<and> mono_start b \<le> mono_end a"


fun collision_loop :: "pgwt_trace_file_span list \<Rightarrow> pgwt_trace_file_span \<Rightarrow> nat \<Rightarrow> int" where
  "collision_loop [] s i = -1"
| "collision_loop (a # as) s i = (if pgwt_trace_spans_collide a s then int i else collision_loop as s (i + 1))"

definition pgwt_trace_span_collision :: "pgwt_trace_file_span list \<Rightarrow> pgwt_trace_file_span \<Rightarrow> int" where
  "pgwt_trace_span_collision accepted s = collision_loop accepted s 0"

section \<open>Bytes\<close>

lemma bit_80: "bit (0x80 :: u8) n \<longleftrightarrow> n = 7"
proof -
  have "bit (0x80 :: u8) n = bit (2 ^ 7 :: u8) n" by simp
  also have "\<dots> \<longleftrightarrow> n = 7" unfolding bit_exp_iff by auto
  finally show ?thesis .
qed

lemma and_80_bit: "b AND 0x80 = 0 \<longleftrightarrow> \<not> bit b 7" for b :: u8
proof
  assume "b AND 0x80 = 0"
  then have "\<not> bit (b AND 0x80) 7" by simp
  then show "\<not> bit b 7" by (simp only: bit_and_iff bit_80) simp
next
  assume n: "\<not> bit b 7"
  show "b AND 0x80 = 0"
    by (rule bit_word_eqI) (use n in \<open>simp only: bit_and_iff bit_80 bit_0_eq, auto\<close>)
qed

lemma low7_last: "ucast ((ucast (v AND 0x7F) :: u8) AND 0x7F) = take_bit 7 (v :: u64)"
  unfolding and_7f_take_bit by (rule bit_word_eqI) (auto simp: bit_simps)

lemma low7_more: "ucast (((ucast (v AND 0x7F) :: u8) OR 0x80) AND 0x7F) = take_bit 7 (v :: u64)"
  unfolding and_7f_take_bit by (rule bit_word_eqI) (auto simp: bit_simps bit_80)

lemma top_last: "(ucast ((v :: u64) AND 0x7F) :: u8) AND 0x80 = 0"
  unfolding and_80_bit and_7f_take_bit by (simp add: bit_simps)

lemma top_more: "((ucast ((v :: u64) AND 0x7F) :: u8) OR 0x80) AND 0x80 \<noteq> 0"
  unfolding and_80_bit bit_or_iff bit_80 by simp

lemma push_low_high:
  "push_bit s (take_bit 7 v) OR push_bit (s + 7) (drop_bit 7 v) = push_bit s (v :: u64)"
proof (rule bit_word_eqI)
  fix n assume "n < LENGTH(64)"
  then show "bit (push_bit s (take_bit 7 v) OR push_bit (s + 7) (drop_bit 7 v)) n = bit (push_bit s v) n"
    by (cases "s + 7 \<le> n") (auto simp: bit_simps)
qed

lemma decode_encode_varint_loop:
  assumes "unat v < 2 ^ (64 - s)" and "s \<le> 63"
  shows "decode_varint_loop (pgwt_encode_varint v @ rest) acc s n =
     Some (n + length (pgwt_encode_varint v), acc OR push_bit s v)"
  using assms
proof (induction v arbitrary: s n acc rule: pgwt_encode_varint.induct)
  case (1 v)
  let ?b = "ucast (v AND 0x7F) :: u8" and ?v = "drop_bit 7 v"
  show ?case
  proof (cases "?v = 0")
    case True
    have "take_bit 7 v = v" using bits_ident [of 7 v] True by simp
    then show ?thesis
      using True 1(3) by (subst (1 2) pgwt_encode_varint.simps) (simp add: top_last low7_last Let_def)
  next
    case False
    have u: "unat ?v = unat v div 128" by (simp add: drop_bit_eq_div unat_div)
    have "unat ?v \<noteq> 0" using False by (simp add: unat_eq_0)
    then have "128 \<le> unat v" using u by auto
    then have "(2 :: nat) ^ 7 < 2 ^ (64 - s)" using 1(2) by simp
    then have s: "7 < 64 - s" by (rule power_less_imp_less_exp [rotated]) simp
    then have "64 - s = (64 - (s + 7)) + 7" by simp
    then have "(2 :: nat) ^ (64 - s) = 2 ^ (64 - (s + 7)) * 2 ^ 7" by (metis power_add)
    then have less: "unat ?v < 2 ^ (64 - (s + 7))" using 1(2) u by (simp add: less_mult_imp_div_less)
    have ih: "decode_varint_loop (pgwt_encode_varint ?v @ rest) (acc OR push_bit s (take_bit 7 v)) (s + 7) (n + 1) =
        Some (n + 1 + length (pgwt_encode_varint ?v), (acc OR push_bit s (take_bit 7 v)) OR push_bit (s + 7) ?v)"
      by (rule 1(1) [OF refl refl False less]) (use s in simp)
    have "decode_varint_loop (pgwt_encode_varint v @ rest) acc s n =
        decode_varint_loop (pgwt_encode_varint ?v @ rest) (acc OR push_bit s (take_bit 7 v)) (s + 7) (n + 1)"
      using False 1(3) by (subst pgwt_encode_varint.simps) (simp add: top_more low7_more Let_def)
    also have "\<dots> = Some (n + length (pgwt_encode_varint v), acc OR push_bit s v)"
      using False pgwt_encode_varint.simps [of v] unfolding ih
      by (simp add: Let_def or.assoc push_low_high)
    finally show ?thesis .
  qed
qed

lemma decode_encode_varint:
  "pgwt_decode_varint (pgwt_encode_varint v @ rest) = Some (length (pgwt_encode_varint v), v)"
  unfolding pgwt_decode_varint_def
  using decode_encode_varint_loop [of v 0 rest 0 0] unat_u64_bound [of v] by simp

lemma from_le32_le32: "from_le32 (le32 w @ rest) = w"
proof (rule bit_word_eqI)
  fix n assume "n < LENGTH(32)"
  then show "bit (from_le32 (le32 w @ rest)) n = bit w n"
    by (cases "24 \<le> n"; cases "16 \<le> n"; cases "8 \<le> n") (auto simp: le32_def bit_simps)
qed

lemma length_le32 [simp]: "length (le32 w) = 4" by (simp add: le32_def)

lemma length_le64 [simp]: "length (le64 w) = 8" by (simp add: le64_def)

lemma from_le64_le64: "from_le64 (le64 w @ rest) = w"
proof -
  have "drop 4 (le64 w @ rest) = le32 (ucast (drop_bit 32 w)) @ rest" by (simp add: le64_def)
  then have "from_le64 (le64 w @ rest) = ucast (ucast w :: u32) OR push_bit 32 (ucast (ucast (drop_bit 32 w) :: u32))"
    by (simp add: from_le64_def from_le32_le32) (simp add: le64_def from_le32_le32)
  also have "\<dots> = w" by (rule bit_word_eqI) (auto simp: bit_simps)
  finally show ?thesis .
qed


section \<open>Columns\<close>

lemma read_varints_encode:
  "read_varints (length xs) (concat (map (pgwt_encode_varint \<circ> f) xs) @ rest) = Some (map f xs, rest)"
  by (induction xs) (simp_all add: decode_encode_varint)

lemma read_u32s_encode: "read_u32s (length xs) (concat (map (le32 \<circ> f) xs) @ rest) = Some (map f xs, rest)"
  by (induction xs) (simp_all add: from_le32_le32)

lemma read_u64s_encode: "read_u64s (length xs) (concat (map (le64 \<circ> f) xs) @ rest) = Some (map f xs, rest)"
  by (induction xs) (simp_all add: from_le64_le64)

fun ts_deltas :: "u64 \<Rightarrow> pgwt_trace_event list \<Rightarrow> u64 list" where
  "ts_deltas p [] = []"
| "ts_deltas p (ev # evs) = (timestamp_ns ev - p) # ts_deltas (timestamp_ns ev) evs"

lemma read_ts_column:
  "read_varints (length evs) (ts_column p evs @ rest) = Some (ts_deltas p evs, rest)"
  by (induction evs arbitrary: p) (simp_all add: decode_encode_varint)

lemma undelta_ts: "undelta p (ts_deltas p evs) = map timestamp_ns evs"
  by (induction evs arbitrary: p) simp_all

lemma map_nth_events: "map (\<lambda>i. f (xs ! i)) [0..<length xs] = map f xs"
  by (rule nth_equalityI) simp_all

lemmas column_reads = read_ts_column read_u32s_encode read_u64s_encode read_varints_encode undelta_ts

text \<open>What a version-2 reader or a sample block keeps of an event.\<close>

definition as_transition :: "nat \<Rightarrow> pgwt_trace_event \<Rightarrow> pgwt_trace_event" where
  "as_transition version ev =
     ev\<lparr>flags := 0, cpu_ns := (if version \<ge> 3 then cpu_ns ev else PGWT_CPU_NS_UNKNOWN)\<rparr>"

definition as_sample :: "pgwt_trace_event \<Rightarrow> pgwt_trace_event" where
  "as_sample ev = ev\<lparr>flags := PGWT_EVENT_FLAG_SAMPLE, old_event := 0, duration_ns := 0,
     cpu_ns := PGWT_CPU_NS_UNKNOWN\<rparr>"

lemma mk_event_map:
  "map (\<lambda>i. mk_event (map f1 xs ! i) (map f2 xs ! i) (map f3 xs ! i) (map f4 xs ! i) (map f5 xs ! i)
       (map f6 xs ! i) (map f7 xs ! i) c) [0..<length xs] =
   map (\<lambda>x. mk_event (f1 x) (f2 x) (f3 x) (f4 x) (f5 x) (f6 x) (f7 x) c) xs"
  by (rule nth_equalityI) simp_all

lemma decode_transitions_v3:
  assumes "version \<ge> 3"
  shows "decode_columns version PGWT_BLOCK_TRANSITIONS (length evs) (pgwt_encode_block evs @ rest) =
     Some (map (as_transition version) evs)"
proof -
  have "decode_columns version PGWT_BLOCK_TRANSITIONS (length evs) (pgwt_encode_block evs @ rest) =
      Some (map (\<lambda>i. mk_event (map timestamp_ns evs ! i) (map pid evs ! i) (map old_event evs ! i)
         (map new_event evs ! i) (map duration_ns evs ! i) (map query_id evs ! i) (map cpu_ns evs ! i) 0)
         [0..<length evs])"
    unfolding decode_columns_def pgwt_encode_block_def append_assoc
    using assms by (simp only: column_reads Option.bind.simps prod.case Let_def pgwt_block_type.case
        if_True option.map fst_conv)
  then show ?thesis
    unfolding mk_event_map using assms by (simp add: as_transition_def mk_event_def)
qed

text \<open>A version-2 file has no CPU column: its payload is the same without the last column.\<close>

definition encode_block_v2 :: "pgwt_trace_event list \<Rightarrow> u8 list" where
  "encode_block_v2 evs =
     ts_column 0 evs @ concat (map (le32 \<circ> pid) evs) @ concat (map (le32 \<circ> old_event) evs) @
     concat (map (le32 \<circ> new_event) evs) @ concat (map (pgwt_encode_varint \<circ> duration_ns) evs) @
     concat (map (le64 \<circ> query_id) evs)"

lemma decode_transitions_v2:
  assumes "\<not> version \<ge> 3"
  shows "decode_columns version PGWT_BLOCK_TRANSITIONS (length evs) (encode_block_v2 evs @ rest) =
     Some (map (as_transition version) evs)"
proof -
  have rep: "replicate (length evs) PGWT_CPU_NS_UNKNOWN = map (\<lambda>_. PGWT_CPU_NS_UNKNOWN) evs"
    by (simp add: map_replicate_const)
  have "decode_columns version PGWT_BLOCK_TRANSITIONS (length evs) (encode_block_v2 evs @ rest) =
      Some (map (\<lambda>i. mk_event (map timestamp_ns evs ! i) (map pid evs ! i) (map old_event evs ! i)
         (map new_event evs ! i) (map duration_ns evs ! i) (map query_id evs ! i)
         (map (\<lambda>_. PGWT_CPU_NS_UNKNOWN) evs ! i) 0) [0..<length evs])"
    unfolding decode_columns_def encode_block_v2_def append_assoc
    using assms by (simp only: column_reads Option.bind.simps prod.case Let_def pgwt_block_type.case
        if_False rep)
  then show ?thesis
    unfolding mk_event_map using assms by (simp add: as_transition_def mk_event_def)
qed

lemma decode_samples:
  "decode_columns version PGWT_BLOCK_SAMPLES (length evs) (pgwt_encode_sample_block evs @ rest) =
     Some (map as_sample evs)"
proof -
  have "decode_columns version PGWT_BLOCK_SAMPLES (length evs) (pgwt_encode_sample_block evs @ rest) =
      Some (map (\<lambda>i. mk_event (map timestamp_ns evs ! i) (map pid evs ! i) 0 (map new_event evs ! i) 0
         (map query_id evs ! i) PGWT_CPU_NS_UNKNOWN PGWT_EVENT_FLAG_SAMPLE) [0..<length evs])"
    unfolding decode_columns_def pgwt_encode_sample_block_def append_assoc
    by (simp only: column_reads Option.bind.simps prod.case Let_def pgwt_block_type.case)
  then show ?thesis
    by (auto simp: as_sample_def mk_event_def intro!: nth_equalityI)
qed

section \<open>Searching and skipping\<close>

lemma find_loop_spec:
  assumes "sorted ix" and "lo \<le> hi" and "hi \<le> length ix"
    and "\<forall>i<lo. ix ! i \<le> t" and "\<forall>i. hi \<le> i \<and> i < length ix \<longrightarrow> t < ix ! i"
  shows "find_loop ix t lo hi = length (filter (\<lambda>x. x \<le> t) ix)"
  using assms
proof (induction ix t lo hi rule: find_loop.induct)
  case (1 ix t lo hi)
  show ?case
  proof (cases "lo < hi")
    case False
    then have "lo = hi" using 1(4) by simp
    then have "filter (\<lambda>x. x \<le> t) ix = filter (\<lambda>x. x \<le> t) (take lo ix @ drop lo ix)" by simp
    also have "\<dots> = take lo ix"
    proof -
      have "filter (\<lambda>x. x \<le> t) (take lo ix) = take lo ix"
        using 1(6) by (auto simp: filter_id_conv in_set_conv_nth)
      moreover have "filter (\<lambda>x. x \<le> t) (drop lo ix) = []"
        using 1(5,7) \<open>lo = hi\<close> by (auto simp: filter_empty_conv in_set_conv_nth not_le)
      ultimately show ?thesis by (simp only: filter_append append_Nil2)
    qed
    finally show ?thesis using False 1(5) \<open>lo = hi\<close> by (subst find_loop.simps) simp
  next
    case True
    let ?mid = "(lo + hi) div 2"
    have m: "lo \<le> ?mid" "?mid < hi" using True by auto
    have mono: "ix ! i \<le> ix ! j" if "i \<le> j" "j < length ix" for i j
      using sorted_nth_mono [OF 1(3)] that by blast
    show ?thesis
    proof (cases "ix ! ?mid \<le> t")
      case low: True
      have "find_loop ix t (?mid + 1) hi = length (filter (\<lambda>x. x \<le> t) ix)"
      proof (rule 1(1) [OF True refl low 1(3)])
        show "\<forall>i<?mid + 1. ix ! i \<le> t"
        proof (intro allI impI)
          fix i assume "i < ?mid + 1"
          then have "ix ! i \<le> ix ! ?mid" using mono [of i ?mid] m 1(5) by simp
          then show "ix ! i \<le> t" using low by (rule order_trans)
        qed
      qed (use m 1(5,7) in auto)
      then show ?thesis using True low by (subst find_loop.simps) (simp add: Let_def)
    next
      case high: False
      have "find_loop ix t lo ?mid = length (filter (\<lambda>x. x \<le> t) ix)"
      proof (rule 1(2) [OF True refl high 1(3)])
        show "\<forall>i. ?mid \<le> i \<and> i < length ix \<longrightarrow> t < ix ! i"
          using mono [of ?mid] high by (auto simp: not_le intro: less_le_trans)
      qed (use m 1(5,6) in auto)
      then show ?thesis using True high by (subst find_loop.simps) (simp add: Let_def)
    qed
  qed
qed

lemma find_block_spec:
  "sorted ix \<Longrightarrow> pgwt_reader_find_block True ix t = length (filter (\<lambda>x. x \<le> t) ix) - 1"
proof -
  assume "sorted ix"
  then have "find_loop ix t 0 (length ix) = length (filter (\<lambda>x. x \<le> t) ix)"
    by (rule find_loop_spec) auto
  then show ?thesis by (simp add: pgwt_reader_find_block_def Let_def)
qed

lemma span_loop_covers:
  "span_loop bs s e = Some (s', e') \<Longrightarrow>
   s' \<le> s \<and> e \<le> e' \<and> (\<forall>f l. Some (f, l) \<in> set bs \<longrightarrow> s' \<le> f \<and> l \<le> e')"
proof (induction bs s e rule: span_loop.induct)
  case (3 f l bs s e)
  then have ih: "s' \<le> (if f < s then f else s)" "(if l > e then l else e) \<le> e'"
    "\<forall>f l. Some (f, l) \<in> set bs \<longrightarrow> s' \<le> f \<and> l \<le> e'" by auto
  then show ?case by (auto split: if_splits)
qed auto

lemma collision_loop_spec:
  "collision_loop as s i = -1 \<longleftrightarrow> (\<forall>a\<in>set as. \<not> pgwt_trace_spans_collide a s)"
  by (induction as arbitrary: i) auto

section \<open>Properties\<close>

text \<open>
  A varint round-trips: decoding the encoding of any 64-bit value, whatever follows it, gives the
  value and consumes exactly its bytes.
\<close>

theorem varint_roundtrip:
  "pgwt_decode_varint (pgwt_encode_varint v @ rest) = Some (length (pgwt_encode_varint v), v)"
  by (rule decode_encode_varint)

text \<open>
  C32: a block round-trips: whatever LZ4 does, if it gives back what it compressed, reading a block whose
  header counts the events written (at most the caller's room) returns exactly those events. A
  transition block keeps every field but the flags, with the CPU column only from version 3 on; a
  sample block comes back as point observations.
\<close>

theorem block_roundtrip:
  assumes "\<And>x. lz4 (lz4_compress x) = Some x"
    and "num_events bh = of_nat (length evs)" and "length evs \<le> 2147483647"
    and "int (length evs) \<le> max_events"
  shows "(block_type bh = 0 \<and> version \<ge> 3 \<longrightarrow>
            pgwt_reader_decode_block_info lz4 True version (Some bh)
              (Some (lz4_compress (pgwt_encode_block evs))) max_events =
            (int (length evs), map (as_transition version) evs)) \<and>
         (block_type bh = 1 \<longrightarrow>
            pgwt_reader_decode_block_info lz4 True version (Some bh)
              (Some (lz4_compress (pgwt_encode_sample_block evs))) max_events =
            (int (length evs), map as_sample evs))"
proof -
  have "sint (num_events bh) = int (length evs)"
    using assms(2,3) by (simp add: signed_of_nat signed_take_bit_int_eq_self)
  then show ?thesis
    using assms(1,4) decode_transitions_v3 [of version evs "[]"] decode_samples [of version evs "[]"]
    by (simp add: pgwt_reader_decode_block_info_def Let_def)
qed

definition sample_header :: "nat \<Rightarrow> u16 \<Rightarrow> pgwt_trace_block_header" where
  "sample_header n bt = \<lparr>first_timestamp_ns = 100, last_timestamp_ns = 900, num_events = of_nat n,
     compressed_size = 0, uncompressed_size = 0, block_type = bt, sample_period_ns = 0\<rparr>"

definition sample_events :: "pgwt_trace_event list" where
  "sample_events = [mk_event 100 7 1 2 50 9 4 0, mk_event 900 8 2 1 3 9 0 0]"

theorem block_roundtrip_witness:
  "pgwt_reader_decode_block_info Some True 3 (Some (sample_header 2 0))
     (Some (id (pgwt_encode_block sample_events))) 4096 = (2, map (as_transition 3) sample_events) \<and>
   pgwt_reader_decode_block_info Some True 3 (Some (sample_header 2 1))
     (Some (id (pgwt_encode_sample_block sample_events))) 4096 = (2, map as_sample sample_events)"
  using block_roundtrip [of Some id "sample_header 2 0" sample_events 4096 3]
    block_roundtrip [of Some id "sample_header 2 1" sample_events 4096 3]
  by (simp add: sample_header_def sample_events_def)

text \<open>
  C33: the candidate test never hides a record: if a block is skipped for a window, no record it can hold
  (timestamps within its header bounds) overlaps the window, neither a sample taken in it nor an
  interval that ended at or after its start and had begun by its end.
\<close>

theorem block_candidate_sound:
  assumes "first_timestamp_ns h \<le> timestamp_ns ev" and "timestamp_ns ev \<le> last_timestamp_ns h"
    and "duration_ns ev \<le> timestamp_ns ev" and "block_type h = 1 \<longrightarrow> duration_ns ev = 0"
    and "fst (pgwt_reader_block_candidate (Some h) from_ns to_ns) = 0"
  shows "\<not> ((from_ns = 0 \<or> from_ns \<le> timestamp_ns ev) \<and>
           (to_ns = 0 \<or> timestamp_ns ev - duration_ns ev \<le> to_ns))"
  using assms by (auto simp: pgwt_reader_block_candidate_def split: if_splits)


theorem block_candidate_sound_witness:
  "\<not> ((1000 = (0 :: u64) \<or> 1000 \<le> timestamp_ns (mk_event 500 7 1 2 50 9 4 0)) \<and>
      (2000 = (0 :: u64) \<or> timestamp_ns (mk_event 500 7 1 2 50 9 4 0) -
          duration_ns (mk_event 500 7 1 2 50 9 4 0) \<le> 2000))"
  by (rule block_candidate_sound [of "sample_header 2 0" "mk_event 500 7 1 2 50 9 4 0" 1000 2000])
    (simp_all add: sample_header_def mk_event_def pgwt_reader_block_candidate_def)


definition sample_span :: pgwt_trace_file_span where
  "sample_span = \<lparr>mono_start = 1, mono_end = 2, wall_start = 3, wall_end = 4\<rparr>"


end
