(* ===== verification/Concurrency.thy ===== *)
theory Concurrency
  imports Hash_Index Idle_Rule "HOL-Library.Product_Lexorder"
begin

text \<open>
  The concurrency view: the record filter and the peak and burst computation of src/src/compute.c
  (pgwt_filter_matches, concurrency_qualifies, pgwt_compute_concurrency), over the triple map of
  Hash_Index. Phase 1 counts distinct sessions per bucket and event, phase 2 slides a window over the
  entry times of one event after the other. Allocation failures are parameters; an int overflow of the
  triple map's load test is an outcome of its own. The lemmas show that the peaks are the exact maxima
  of distinct sessions, that the bursts are those of a greedy reference pass, and that only qualifying
  records matter.
\<close>

section \<open>The record filter\<close>

record pgwt_filter =
  f_class_name :: string
  f_event_id :: u32
  f_has_event_filter :: bool
  f_pid :: u32
  f_query_id :: u64

definition to_lower :: "char \<Rightarrow> char" where
  "to_lower c = (let n = of_char c :: nat in if 65 \<le> n \<and> n \<le> 90 then char_of (n + 32) else c)"

definition strcaseeq :: "string \<Rightarrow> string \<Rightarrow> bool" where
  "strcaseeq a b \<longleftrightarrow> map to_lower a = map to_lower b"

definition pgwt_class_name :: "u32 \<Rightarrow> string" where
  "pgwt_class_name wei =
     (if wei = 0 then ''CPU''
      else if WE_CLASS wei = PG_WAIT_LWLOCK then ''LWLock''
      else if WE_CLASS wei = PG_WAIT_LOCK then ''Lock''
      else if WE_CLASS wei = PG_WAIT_BUFFERPIN then ''BufferPin''
      else if WE_CLASS wei = PG_WAIT_ACTIVITY then ''Activity''
      else if WE_CLASS wei = PG_WAIT_CLIENT then ''Client''
      else if WE_CLASS wei = PG_WAIT_EXTENSION then ''Extension''
      else if WE_CLASS wei = PG_WAIT_IPC then ''IPC''
      else if WE_CLASS wei = PG_WAIT_TIMEOUT then ''Timeout''
      else if WE_CLASS wei = PG_WAIT_IO then ''IO''
      else ''Unknown'')"

definition pgwt_filter_matches :: "pgwt_filter \<Rightarrow> pgwt_trace_event \<Rightarrow> bool" where
  "pgwt_filter_matches f ev =
     (if PGWT_IS_MARKER (old_event ev) then False
      else if duration_ns ev > timestamp_ns ev then False
      else if f_class_name f \<noteq> [] \<and> \<not> strcaseeq (pgwt_class_name (old_event ev)) (f_class_name f) then False
      else if f_has_event_filter f \<and> old_event ev \<noteq> f_event_id f then False
      else if f_pid f \<noteq> 0 \<and> pid ev \<noteq> f_pid f then False
      else if f_query_id f \<noteq> 0 \<and> query_id ev \<noteq> f_query_id f then False
      else True)"

definition concurrency_qualifies :: "idle_state \<Rightarrow> pgwt_trace_event \<Rightarrow> pgwt_filter \<Rightarrow> u64 \<Rightarrow> u64 \<Rightarrow> bool" where
  "concurrency_qualifies r ev f from_ns to_ns =
     (if \<not> pgwt_filter_matches f ev \<or> pgwt_is_idle_event r (old_event ev) then False
      else if old_event ev = 0 then False
      else if timestamp_ns ev < from_ns then False
      else if timestamp_ns ev > to_ns \<and> timestamp_ns ev - duration_ns ev > to_ns then False
      else True)"

section \<open>Phase 1: peaks\<close>

text \<open>
  What the allocator answers: the two peak arrays, the entry array of a given length, the growth of
  each triple map to a capacity, the per-bucket burst arrays, the compacted burst array.
\<close>

record conc_env =
  peaks_ok :: bool
  entries_ok :: "nat \<Rightarrow> bool"
  seen_ok :: "nat \<Rightarrow> bool"
  counts_ok :: "nat \<Rightarrow> bool"
  buckets_ok :: bool
  win_ok :: "nat \<Rightarrow> bool"
  bursts_ok :: "nat \<Rightarrow> bool"

datatype loop_exit = LoopDone | LoopFailed | LoopUB

record peaks =
  seen :: pgwt_triple_map
  counts :: pgwt_triple_map
  peak_sessions :: "int list"
  peak_event :: "u32 list"

definition set_slot :: "u32 \<Rightarrow> int \<Rightarrow> pgwt_triple_map \<Rightarrow> pgwt_triple_map" where
  "set_slot h v m = m\<lparr>ix_vals := (ix_vals m)[unat h := v]\<rparr>"

text \<open>The bucket range of one interval; the conversion of the upper quotient to int wraps.\<close>

definition to_int32 :: "u64 \<Rightarrow> int" where
  "to_int32 q = sint (ucast q :: u32)"

definition bucket_hi :: "u64 \<Rightarrow> u64 \<Rightarrow> int \<Rightarrow> u64 \<Rightarrow> int" where
  "bucket_hi from_ns bucket nb end_ns =
     (let into = end_ns - from_ns; b_hi = to_int32 ((into - 1) div bucket)
      in if b_hi > nb - 1 then nb - 1 else b_hi)"

definition bucket_lo :: "u64 \<Rightarrow> u64 \<Rightarrow> int \<Rightarrow> u64 \<Rightarrow> int" where
  "bucket_lo from_ns bucket nb start_ns =
     (if start_ns > from_ns
      then let q = (start_ns - from_ns) div bucket in if q > word_of_int nb then nb else to_int32 q
      else 0)"

fun bucket_loop :: "conc_env \<Rightarrow> pgwt_trace_event \<Rightarrow> int list \<Rightarrow> peaks \<Rightarrow> (loop_exit \<times> peaks) option" where
  "bucket_loop env ev [] st = Some (LoopDone, st)"
| "bucket_loop env ev (b # bs) st =
     (case pgwt_triple_map_slot (seen_ok env) (seen st) (word_of_int b, old_event ev, pid ev) of
        None \<Rightarrow> None
      | Some (SlotNoMem, m) \<Rightarrow> Some (LoopFailed, st\<lparr>seen := m\<rparr>)
      | Some (SlotUB, m) \<Rightarrow> Some (LoopUB, st\<lparr>seen := m\<rparr>)
      | Some (Slot h created, m) \<Rightarrow>
          let st = st\<lparr>seen := m\<rparr>
          in if \<not> created then bucket_loop env ev bs st
             else case pgwt_triple_map_slot (counts_ok env) (counts st) (word_of_int b, old_event ev, 0) of
                 None \<Rightarrow> None
               | Some (SlotNoMem, c) \<Rightarrow> Some (LoopFailed, st\<lparr>counts := c\<rparr>)
               | Some (SlotUB, c) \<Rightarrow> Some (LoopUB, st\<lparr>counts := c\<rparr>)
               | Some (Slot h created, c) \<Rightarrow>
                   let cnt = ix_vals c ! unat h + 1;
                       st = st\<lparr>counts := set_slot h cnt c\<rparr>
                   in bucket_loop env ev bs
                        (if cnt > peak_sessions st ! nat b
                         then st\<lparr>peak_sessions := (peak_sessions st)[nat b := cnt],
                                 peak_event := (peak_event st)[nat b := old_event ev]\<rparr>
                         else st))"

record burst_entry =
  be_start :: u64
  be_pid :: u32
  be_event :: u32

text \<open>The request: window, buckets, burst window and threshold, and the event's display name.\<close>

record conc_req =
  rq_from :: u64
  rq_to :: u64
  rq_buckets :: int
  rq_burst_window :: u64
  rq_threshold :: int
  rq_event_name :: "u32 \<Rightarrow> string"

definition conc_bucket_ns :: "conc_req \<Rightarrow> u64" where
  "conc_bucket_ns rq =
     (let b = (rq_to rq - rq_from rq) div word_of_int (rq_buckets rq) in if b = 0 then 1 else b)"

definition entry_of :: "pgwt_trace_event \<Rightarrow> burst_entry" where
  "entry_of ev = \<lparr>be_start = timestamp_ns ev - duration_ns ev, be_pid = pid ev, be_event = old_event ev\<rparr>"

fun entry_loop :: "conc_env \<Rightarrow> idle_state \<Rightarrow> pgwt_filter \<Rightarrow> conc_req \<Rightarrow> nat \<Rightarrow> pgwt_trace_event list \<Rightarrow> peaks
    \<Rightarrow> burst_entry list \<Rightarrow> (loop_exit \<times> peaks \<times> burst_entry list) option" where
  "entry_loop env r f rq nqual [] st es = Some (LoopDone, st, es)"
| "entry_loop env r f rq nqual (ev # evs) st es =
     (if \<not> concurrency_qualifies r ev f (rq_from rq) (rq_to rq) then entry_loop env r f rq nqual evs st es
      else
        let end_ns = timestamp_ns ev; start_ns = end_ns - duration_ns ev
        in case (if end_ns > rq_from rq
                 then bucket_loop env ev
                        [bucket_lo (rq_from rq) (conc_bucket_ns rq) (rq_buckets rq) start_ns ..
                         bucket_hi (rq_from rq) (conc_bucket_ns rq) (rq_buckets rq) end_ns] st
                 else Some (LoopDone, st)) of
             None \<Rightarrow> None
           | Some (LoopDone, st) \<Rightarrow>
               entry_loop env r f rq nqual evs st (if length es \<ge> nqual then es else es @ [entry_of ev])
           | Some (x, st) \<Rightarrow> Some (x, st, es))"

section \<open>Phase 2: bursts\<close>

definition PGWT_BURST_PID_SAMPLE :: nat where "PGWT_BURST_PID_SAMPLE = 64"

record pgwt_burst =
  bu_timestamp :: u64
  bu_event :: u32
  bu_name :: string
  bu_sessions :: int
  bu_pids :: "u32 list"

fun sample_pids :: "burst_entry list \<Rightarrow> u32 list \<Rightarrow> u32 list" where
  "sample_pids [] ps = ps"
| "sample_pids (e # es) ps =
     (if length ps < PGWT_BURST_PID_SAMPLE
      then sample_pids es (if be_pid e \<in> set ps then ps else ps @ [be_pid e])
      else ps)"

function win_fill :: "conc_env \<Rightarrow> burst_entry list \<Rightarrow> nat \<Rightarrow> u64 \<Rightarrow> nat \<Rightarrow> int \<Rightarrow> pgwt_triple_map
    \<Rightarrow> (loop_exit \<times> nat \<times> int \<times> pgwt_triple_map) option" where
  "win_fill env es gend wend j nd win =
     (if j < gend \<and> be_start (es ! j) \<le> wend
      then case pgwt_triple_map_slot (win_ok env) win (be_pid (es ! j), 0, 0) of
          None \<Rightarrow> None
        | Some (SlotNoMem, w) \<Rightarrow> Some (LoopFailed, j, nd, w)
        | Some (SlotUB, w) \<Rightarrow> Some (LoopUB, j, nd, w)
        | Some (Slot h created, w) \<Rightarrow>
            let m = ix_vals w ! unat h
            in win_fill env es gend wend (j + 1) (if m = 0 then nd + 1 else nd) (set_slot h (m + 1) w)
      else Some (LoopDone, j, nd, win))"
  by pat_completeness auto
termination by (relation "measure (\<lambda>(env, es, gend, wend, j, nd, win). gend - j)") auto

function win_drop :: "conc_env \<Rightarrow> burst_entry list \<Rightarrow> nat \<Rightarrow> nat \<Rightarrow> int \<Rightarrow> pgwt_triple_map
    \<Rightarrow> (loop_exit \<times> int \<times> pgwt_triple_map) option" where
  "win_drop env es consume_to i nd win =
     (if i < consume_to
      then case pgwt_triple_map_slot (win_ok env) win (be_pid (es ! i), 0, 0) of
          None \<Rightarrow> None
        | Some (SlotNoMem, w) \<Rightarrow> Some (LoopFailed, nd, w)
        | Some (SlotUB, w) \<Rightarrow> Some (LoopUB, nd, w)
        | Some (Slot h created, w) \<Rightarrow>
            let m = ix_vals w ! unat h - 1
            in win_drop env es consume_to (i + 1) (if m = 0 then nd - 1 else nd) (set_slot h m w)
      else Some (LoopDone, nd, win))"
  by pat_completeness auto
termination by (relation "measure (\<lambda>(env, es, consume_to, i, nd, win). consume_to - i)") auto

declare win_fill.simps [simp del] win_drop.simps [simp del]

function scan_while :: "(burst_entry \<Rightarrow> bool) \<Rightarrow> burst_entry list \<Rightarrow> nat \<Rightarrow> nat \<Rightarrow> nat" where
  "scan_while P es stop i = (if i < stop \<and> P (es ! i) then scan_while P es stop (i + 1) else i)"
  by pat_completeness auto
termination by (relation "measure (\<lambda>(P, es, stop, i). stop - i)") auto

declare scan_while.simps [simp del]

lemma scan_while_ge: "i \<le> scan_while P es stop i"
  by (induction P es stop i rule: scan_while.induct) (subst scan_while.simps, auto)

lemma scan_while_progress: "i < stop \<Longrightarrow> stop - scan_while P es stop (Suc i) < stop - i"
  using scan_while_ge [of "Suc i" P es stop] by linarith

definition burst_bucket :: "conc_req \<Rightarrow> u64 \<Rightarrow> int" where
  "burst_bucket rq s =
     (if s > rq_from rq
      then let q = (s - rq_from rq) div conc_bucket_ns rq
           in if q > word_of_int (rq_buckets rq - 1) then rq_buckets rq - 1 else to_int32 q
      else 0)"

definition new_burst :: "conc_req \<Rightarrow> burst_entry list \<Rightarrow> nat \<Rightarrow> nat \<Rightarrow> int \<Rightarrow> pgwt_burst" where
  "new_burst rq es i j nd =
     \<lparr>bu_timestamp = be_start (es ! i), bu_event = be_event (es ! i),
      bu_name = rq_event_name rq (be_event (es ! i)), bu_sessions = nd,
      bu_pids = sample_pids (take (j - i) (drop i es)) []\<rparr>"

text \<open>A bucket's slot is \<open>None\<close> while its \<open>has_burst\<close> flag is clear.\<close>

definition note_burst :: "conc_req \<Rightarrow> pgwt_burst \<Rightarrow> pgwt_burst option list \<Rightarrow> pgwt_burst option list" where
  "note_burst rq bu slots =
     (let b = nat (burst_bucket rq (bu_timestamp bu))
      in case slots ! b of
           None \<Rightarrow> slots[b := Some bu]
         | Some old \<Rightarrow> if bu_sessions bu > bu_sessions old then slots[b := Some bu] else slots)"

record burst_state =
  bs_win :: pgwt_triple_map
  bs_total :: int
  bs_slots :: "pgwt_burst option list"

function anchor_loop :: "conc_env \<Rightarrow> conc_req \<Rightarrow> burst_entry list \<Rightarrow> nat \<Rightarrow> nat \<Rightarrow> nat \<Rightarrow> int \<Rightarrow> burst_state
    \<Rightarrow> (loop_exit \<times> burst_state) option" where
  "anchor_loop env rq es gend i j nd st =
     (if i < gend
      then let wend = be_start (es ! i) + rq_burst_window rq
        in case win_fill env es gend wend j nd (bs_win st) of
             None \<Rightarrow> None
           | Some (LoopDone, j, nd, w) \<Rightarrow>
               let st = st\<lparr>bs_win := w\<rparr>;
                   onset = nd \<ge> rq_threshold rq;
                   st = (if onset then st\<lparr>bs_total := bs_total st + 1,
                              bs_slots := note_burst rq (new_burst rq es i j nd) (bs_slots st)\<rparr>
                         else st);
                   consume_to = (if onset then scan_while (\<lambda>e. be_start e \<le> wend) es gend (i + 1) else i + 1)
               in (case win_drop env es consume_to i nd (bs_win st) of
                     None \<Rightarrow> None
                   | Some (LoopDone, nd, w) \<Rightarrow>
                       anchor_loop env rq es gend consume_to j nd (st\<lparr>bs_win := w\<rparr>)
                   | Some (x, nd, w) \<Rightarrow> Some (x, st\<lparr>bs_win := w\<rparr>))
           | Some (x, j, nd, w) \<Rightarrow> Some (x, st\<lparr>bs_win := w\<rparr>)
      else Some (LoopDone, st))"
  by pat_completeness auto
termination
proof (relation "measure (\<lambda>(env, rq, es, gend, i, j, nd, st). gend - i)", goal_cases)
  case (2 env rq es gend i)
  then show ?case by (auto simp: scan_while_progress)
qed simp

declare anchor_loop.simps [simp del]


text \<open>The outer loop over the groups of one event.\<close>

lemma group_end_progress:
  "g < length es \<Longrightarrow> g < scan_while (\<lambda>e. be_event e = be_event (es ! g)) es (length es) g"
  using scan_while_ge [of "Suc g" "\<lambda>e. be_event e = be_event (es ! g)" es "length es"]
  by (subst scan_while.simps) simp

function group_loop :: "conc_env \<Rightarrow> conc_req \<Rightarrow> burst_entry list \<Rightarrow> nat \<Rightarrow> burst_state
    \<Rightarrow> (loop_exit \<times> burst_state) option" where
  "group_loop env rq es g st =
     (if g < length es
      then let eid = be_event (es ! g);
               gend = scan_while (\<lambda>e. be_event e = eid) es (length es) g
        in case anchor_loop env rq es gend g g 0 (st\<lparr>bs_win := pgwt_triple_map_clear (bs_win st)\<rparr>) of
             None \<Rightarrow> None
           | Some (LoopDone, st) \<Rightarrow> group_loop env rq es gend st
           | Some (x, st) \<Rightarrow> Some (x, st)
      else Some (LoopDone, st))"
  by pat_completeness auto
termination
  by (relation "measure (\<lambda>(env, rq, es, g, st). length es - g)") (auto intro: diff_less_mono2 group_end_progress)

declare group_loop.simps [simp del]

section \<open>The whole computation\<close>

record pgwt_concurrency_result =
  cr_peak_sessions :: "int list"
  cr_peak_event :: "u32 list"
  cr_num_buckets :: int
  cr_bucket_ns :: u64
  cr_bursts :: "pgwt_burst list"
  cr_num_bursts :: int
  cr_bursts_total :: int
  cr_failed :: bool

definition zero_conc :: pgwt_concurrency_result where
  "zero_conc = \<lparr>cr_peak_sessions = [], cr_peak_event = [], cr_num_buckets = 0, cr_bucket_ns = 0,
     cr_bursts = [], cr_num_bursts = 0, cr_bursts_total = 0, cr_failed = False\<rparr>"

datatype conc_outcome = Concluded pgwt_concurrency_result | Undefined

text \<open>\<open>cmp_burst_entry\<close> and \<open>cmp_burst_desc\<close> are total orders on their keys, so \<open>qsort\<close> has one answer.\<close>

definition burst_entry_key :: "burst_entry \<Rightarrow> u32 \<times> u64 \<times> u32" where
  "burst_entry_key e = (be_event e, be_start e, be_pid e)"

definition burst_desc_key :: "pgwt_burst \<Rightarrow> int \<times> u64 \<times> u32" where
  "burst_desc_key b = (- bu_sessions b, bu_timestamp b, bu_event b)"

definition compact_bursts :: "conc_env \<Rightarrow> pgwt_concurrency_result \<Rightarrow> burst_state \<Rightarrow> pgwt_concurrency_result" where
  "compact_bursts env res st =
     (let bursts = map the (filter (\<lambda>s. s \<noteq> None) (bs_slots st)); nbursts = length bursts
      in if nbursts > 0 \<and> \<not> bursts_ok env nbursts then res\<lparr>cr_failed := True\<rparr>
         else res\<lparr>cr_bursts := sort_key burst_desc_key bursts, cr_num_bursts := int nbursts,
                 cr_bursts_total := bs_total st\<rparr>)"

definition phase2 :: "conc_env \<Rightarrow> conc_req \<Rightarrow> pgwt_concurrency_result \<Rightarrow> burst_entry list \<Rightarrow> conc_outcome option" where
  "phase2 env rq res es =
     (let es = sort_key burst_entry_key es
      in if \<not> buckets_ok env then Some (Concluded (res\<lparr>cr_failed := True\<rparr>))
         else case group_loop env rq es 0
                     \<lparr>bs_win = pgwt_triple_map_init, bs_total = 0,
                      bs_slots = replicate (nat (rq_buckets rq)) None\<rparr> of
             None \<Rightarrow> None
           | Some (LoopDone, st) \<Rightarrow> Some (Concluded (compact_bursts env res st))
           | Some (LoopFailed, st) \<Rightarrow> Some (Concluded (res\<lparr>cr_failed := True\<rparr>))
           | Some (LoopUB, st) \<Rightarrow> Some Undefined)"

definition fresh_peaks :: "conc_req \<Rightarrow> peaks" where
  "fresh_peaks rq = \<lparr>seen = pgwt_triple_map_init, counts = pgwt_triple_map_init,
     peak_sessions = replicate (nat (rq_buckets rq)) 0, peak_event = replicate (nat (rq_buckets rq)) 0\<rparr>"

definition with_peaks :: "conc_req \<Rightarrow> peaks \<Rightarrow> pgwt_concurrency_result" where
  "with_peaks rq st = zero_conc\<lparr>cr_peak_sessions := peak_sessions st, cr_peak_event := peak_event st,
     cr_num_buckets := rq_buckets rq, cr_bucket_ns := conc_bucket_ns rq\<rparr>"

definition pgwt_compute_concurrency ::
  "conc_env \<Rightarrow> idle_state \<Rightarrow> pgwt_filter \<Rightarrow> conc_req \<Rightarrow> pgwt_trace_event list \<Rightarrow> conc_outcome option" where
  "pgwt_compute_concurrency env r f rq events =
     (if events = [] \<or> rq_from rq \<ge> rq_to rq \<or> rq_buckets rq \<le> 0 then Some (Concluded zero_conc)
      else
        let st = fresh_peaks rq
        in if \<not> peaks_ok env then
             Some (Concluded (zero_conc\<lparr>cr_num_buckets := rq_buckets rq, cr_bucket_ns := conc_bucket_ns rq,
               cr_failed := True\<rparr>))
           else
             let nqual = length (filter (\<lambda>ev. concurrency_qualifies r ev f (rq_from rq) (rq_to rq)) events)
             in if nqual > 0 \<and> \<not> entries_ok env nqual
                then Some (Concluded ((with_peaks rq st)\<lparr>cr_failed := True\<rparr>))
                else case entry_loop env r f rq nqual events st [] of
                    None \<Rightarrow> None
                  | Some (LoopDone, st, es) \<Rightarrow> phase2 env rq (with_peaks rq st) es
                  | Some (LoopFailed, st, es) \<Rightarrow> Some (Concluded ((with_peaks rq st)\<lparr>cr_failed := True\<rparr>))
                  | Some (LoopUB, st, es) \<Rightarrow> Some Undefined)"


section \<open>Using the triple map as counters\<close>

lemma slot_cases:
  assumes "oa_ok pgwt_triple_map_hash m"
  obtains (Slot) h cr m' where "pgwt_triple_map_slot alloc m k = Some (Slot h cr, m')"
      and "cr \<longleftrightarrow> oa_map m k = None" and "oa_ok pgwt_triple_map_hash m'"
      and "oa_map m' = (if cr then (oa_map m)(k \<mapsto> 0) else oa_map m)"
      and "ix_vals m' ! unat h = (case oa_map m k of None \<Rightarrow> 0 | Some v \<Rightarrow> v)"
      and "\<And>v. oa_ok pgwt_triple_map_hash (set_slot h v m') \<and>
                oa_map (set_slot h v m') = (oa_map m)(k \<mapsto> v)"
  | (NoMem) m' where "pgwt_triple_map_slot alloc m k = Some (SlotNoMem, m')"
  | (UB) m' where "pgwt_triple_map_slot alloc m k = Some (SlotUB, m')"
proof -
  from triple_slot_post [OF assms, of alloc k] obtain r m' where
    r: "pgwt_triple_map_slot alloc m k = Some (r, m')" "slot_post m k r m'" by blast
  show thesis
  proof (cases r)
    case (Slot h cr)
    with r(2) have p: "oa_ok pgwt_triple_map_hash m'" "unat h < ix_cap m'" "ix_used m' ! unat h"
      "ix_keys m' ! unat h = k" "cr \<longleftrightarrow> oa_map m k = None"
      "oa_map m' = (if cr then (oa_map m)(k \<mapsto> 0) else oa_map m)"
      by (simp_all add: slot_post_def)
    have "oa_map m' k = Some (ix_vals m' ! unat h)" by (rule oa_map_at [OF p(1-4)])
    then have "ix_vals m' ! unat h = (case oa_map m k of None \<Rightarrow> 0 | Some v \<Rightarrow> v)"
      using p(5,6) by (auto split: option.splits if_splits)
    moreover have "oa_ok pgwt_triple_map_hash (set_slot h v m') \<and>
        oa_map (set_slot h v m') = (oa_map m)(k \<mapsto> v)" for v
      using oa_ok_set_val [OF p(1-4), of v] p(6) by (simp add: set_slot_def)
    ultimately show thesis using that(1) r(1) Slot p by blast
  qed (use r that in auto)
qed

section \<open>Phase 1 counts distinct sessions\<close>

text \<open>The sessions seen on an event in a bucket, for a set of (bucket, event, pid) triples.\<close>

type_synonym triples = "(u32 \<times> u32 \<times> u32) set"

definition sessions :: "triples \<Rightarrow> int \<Rightarrow> u32 \<Rightarrow> u32 set" where
  "sessions T b e = {p. (word_of_int b, e, p) \<in> T}"

definition is_peak :: "triples \<Rightarrow> int \<Rightarrow> int \<Rightarrow> u32 \<Rightarrow> bool" where
  "is_peak T b n e \<longleftrightarrow> (\<forall>e'. int (card (sessions T b e')) \<le> n) \<and> int (card (sessions T b e)) = n"

definition peaks_inv :: "int \<Rightarrow> triples \<Rightarrow> peaks \<Rightarrow> bool" where
  "peaks_inv nb T st \<longleftrightarrow>
     finite T \<and> oa_ok pgwt_triple_map_hash (seen st) \<and> oa_ok pgwt_triple_map_hash (counts st) \<and>
     dom (oa_map (seen st)) = T \<and>
     (\<forall>w e. oa_map (counts st) (w, e, 0) =
        (let S = {p. (w, e, p) \<in> T} in if S = {} then None else Some (int (card S)))) \<and>
     length (peak_sessions st) = nat nb \<and> length (peak_event st) = nat nb \<and>
     (\<forall>b\<in>{0..<nb}. (peak_sessions st ! nat b = 0 \<longrightarrow> peak_event st ! nat b = 0) \<and>
        is_peak T b (peak_sessions st ! nat b) (peak_event st ! nat b))"

lemma sessions_finite: "finite T \<Longrightarrow> finite (sessions T b e)"
  by (rule finite_subset [of _ "(snd \<circ> snd) ` T"]) (force simp: sessions_def)+

lemma word_of_int_inj31:
  "0 \<le> b \<Longrightarrow> b < 2 ^ 31 \<Longrightarrow> 0 \<le> c \<Longrightarrow> c < 2 ^ 31 \<Longrightarrow> (word_of_int b :: u32) = word_of_int c \<longleftrightarrow> b = c"
  by (simp add: word_of_int_eq_iff take_bit_int_eq_self)

lemma sessions_insert:
  assumes "0 \<le> b" "b < 2 ^ 31" "0 \<le> c" "c < 2 ^ 31"
  shows "sessions (insert (word_of_int b, e, p) T) c e' =
    (if c = b \<and> e' = e then insert p (sessions T c e') else sessions T c e')"
  using word_of_int_inj31 [OF assms(3,4,1,2)] by (auto simp: sessions_def)

lemma is_peak_insert:
  assumes "0 \<le> b" "b < 2 ^ 31" "0 \<le> c" "c < 2 ^ 31" and "finite T" and "(word_of_int b, e, p) \<notin> T"
    and "is_peak T c n x"
  shows "is_peak (insert (word_of_int b, e, p) T) c
    (if c = b \<and> n < int (card (sessions T b e)) + 1 then int (card (sessions T b e)) + 1 else n)
    (if c = b \<and> n < int (card (sessions T b e)) + 1 then e else x)"
proof -
  have fin: "finite (sessions T c e)" for e by (rule sessions_finite [OF assms(5)])
  have "p \<notin> sessions T b e" using assms(6) by (simp add: sessions_def)
  then have new: "c = b \<Longrightarrow> card (insert p (sessions T b e)) = card (sessions T b e) + 1"
    using fin by simp
  have old: "int (card (sessions T c e')) \<le> n" for e' using assms(7) by (simp add: is_peak_def)
  have x: "int (card (sessions T c x)) = n" using assms(7) by (simp add: is_peak_def)
  show ?thesis
  proof (cases "c = b")
    case False
    then show ?thesis using assms(7) by (simp add: is_peak_def sessions_insert [OF assms(1-4)])
  next
    case True
    have o: "int (card (sessions T b e')) \<le> n" for e' using old True by simp
    show ?thesis
    proof (cases "n < int (card (sessions T b e)) + 1")
      case less: True
      have "int (card (sessions T b e')) \<le> int (card (sessions T b e)) + 1" for e'
        using o [of e'] less by linarith
      then show ?thesis
        using True less new by (auto simp: is_peak_def sessions_insert [OF assms(1,2,1,2)])
    next
      case False
      then have "x \<noteq> e" using x True by auto
      then show ?thesis
        using True False new o x by (auto simp: is_peak_def sessions_insert [OF assms(1,2,1,2)])
    qed
  qed
qed

lemma peaks_invD:
  assumes "peaks_inv nb T st"
  shows "finite T" and "oa_ok pgwt_triple_map_hash (seen st)" and "oa_ok pgwt_triple_map_hash (counts st)"
    and "oa_map (seen st) k = None \<longleftrightarrow> k \<notin> T"
    and "(case oa_map (counts st) (word_of_int b, e, 0) of None \<Rightarrow> 0 | Some v \<Rightarrow> v) = int (card (sessions T b e))"
    and "length (peak_sessions st) = nat nb" and "length (peak_event st) = nat nb"
    and "0 \<le> b \<Longrightarrow> b < nb \<Longrightarrow> is_peak T b (peak_sessions st ! nat b) (peak_event st ! nat b)"
    and "0 \<le> b \<Longrightarrow> b < nb \<Longrightarrow> peak_sessions st ! nat b = 0 \<Longrightarrow> peak_event st ! nat b = 0"
  using assms unfolding peaks_inv_def sessions_def Let_def by (auto simp: domIff)

lemma counts_insert:
  assumes "peaks_inv nb T st" and "(w, e, p) \<notin> T"
  shows "((oa_map (counts st))((w, e, 0) \<mapsto> int (card {q. (w, e, q) \<in> T}) + 1)) (w', e', 0) =
    (let S = {q. (w', e', q) \<in> insert (w, e, p) T} in if S = {} then None else Some (int (card S)))"
proof (cases "w' = w \<and> e' = e")
  case True
  have "{q. (w, e, q) \<in> insert (w, e, p) T} = insert p {q. (w, e, q) \<in> T}" by auto
  moreover have "finite {q. (w, e, q) \<in> T}"
    by (rule finite_subset [of _ "(snd \<circ> snd) ` T"]) (use peaks_invD(1) [OF assms(1)] in force)+
  ultimately show ?thesis using True assms(2) by (simp add: Let_def)
next
  case False
  then have "{q. (w', e', q) \<in> insert (w, e, p) T} = {q. (w', e', q) \<in> T}" by auto
  then show ?thesis using False assms(1) unfolding peaks_inv_def by auto
qed

text \<open>One bucket of one interval: either the session was counted already, or it is counted now.\<close>

definition put_peak :: "int \<Rightarrow> u32 \<Rightarrow> int \<Rightarrow> peaks \<Rightarrow> peaks" where
  "put_peak b e cnt st =
     (if cnt > peak_sessions st ! nat b
      then st\<lparr>peak_sessions := (peak_sessions st)[nat b := cnt], peak_event := (peak_event st)[nat b := e]\<rparr>
      else st)"

lemma put_peak_fields [simp]:
  "seen (put_peak b e cnt st) = seen st" "counts (put_peak b e cnt st) = counts st"
  "length (peak_sessions (put_peak b e cnt st)) = length (peak_sessions st)"
  "length (peak_event (put_peak b e cnt st)) = length (peak_event st)"
  by (simp_all add: put_peak_def)

lemma put_peak_nth:
  assumes "0 \<le> b" "0 \<le> c" "nat b < length (peak_sessions st)" "nat b < length (peak_event st)"
  shows "peak_sessions (put_peak b e cnt st) ! nat c =
      (if c = b \<and> peak_sessions st ! nat c < cnt then cnt else peak_sessions st ! nat c)"
    and "peak_event (put_peak b e cnt st) ! nat c =
      (if c = b \<and> peak_sessions st ! nat c < cnt then e else peak_event st ! nat c)"
  using assms by (auto simp: put_peak_def nth_list_update)

lemma peaks_inv_add:
  assumes inv: "peaks_inv nb T st" and b: "0 \<le> b" "b < nb" and nb: "nb < 2 ^ 31"
    and new: "(word_of_int b, e, p) \<notin> T"
    and seen: "oa_ok pgwt_triple_map_hash m" "oa_map m = (oa_map (seen st))((word_of_int b, e, p) \<mapsto> 0)"
    and cnt: "cnt = int (card (sessions T b e)) + 1" "oa_ok pgwt_triple_map_hash c"
      "oa_map c = (oa_map (counts st))((word_of_int b, e, 0) \<mapsto> cnt)"
  shows "peaks_inv nb (insert (word_of_int b, e, p) T) (put_peak b e cnt (st\<lparr>seen := m, counts := c\<rparr>))"
proof -
  let ?st = "st\<lparr>seen := m, counts := c\<rparr>" and ?T = "insert (word_of_int b, e, p) T"
  note D = peaks_invD [OF inv]
  have len: "nat b < length (peak_sessions ?st)" "nat b < length (peak_event ?st)"
    using b D(6,7) by simp_all
  have pk: "(peak_sessions (put_peak b e cnt ?st) ! nat x = 0 \<longrightarrow> peak_event (put_peak b e cnt ?st) ! nat x = 0) \<and>
      is_peak ?T x (peak_sessions (put_peak b e cnt ?st) ! nat x) (peak_event (put_peak b e cnt ?st) ! nat x)"
    if x: "0 \<le> x" "x < nb" for x
    using is_peak_insert [OF b(1) _ x(1) _ D(1) new D(8) [OF x]] b x nb D(9) [OF x]
    unfolding put_peak_nth [OF b(1) x(1) len] cnt(1) by (auto split: if_splits)
  have "dom (oa_map (seen st)) = T" using inv by (simp add: peaks_inv_def)
  then show ?thesis
    unfolding peaks_inv_def put_peak_fields
    using D(1,6,7) seen cnt(2,3) pk counts_insert [OF inv new] cnt(1) by (simp add: sessions_def)
qed

lemma bucket_loop_Cons_put:
  "bucket_loop env ev (b # bs) st =
     (case pgwt_triple_map_slot (seen_ok env) (seen st) (word_of_int b, old_event ev, pid ev) of
        None \<Rightarrow> None
      | Some (SlotNoMem, m) \<Rightarrow> Some (LoopFailed, st\<lparr>seen := m\<rparr>)
      | Some (SlotUB, m) \<Rightarrow> Some (LoopUB, st\<lparr>seen := m\<rparr>)
      | Some (Slot h created, m) \<Rightarrow>
          if \<not> created then bucket_loop env ev bs (st\<lparr>seen := m\<rparr>)
          else case pgwt_triple_map_slot (counts_ok env) (counts st) (word_of_int b, old_event ev, 0) of
              None \<Rightarrow> None
            | Some (SlotNoMem, c) \<Rightarrow> Some (LoopFailed, st\<lparr>seen := m, counts := c\<rparr>)
            | Some (SlotUB, c) \<Rightarrow> Some (LoopUB, st\<lparr>seen := m, counts := c\<rparr>)
            | Some (Slot h created, c) \<Rightarrow>
                bucket_loop env ev bs (put_peak b (old_event ev) (ix_vals c ! unat h + 1)
                  (st\<lparr>seen := m, counts := set_slot h (ix_vals c ! unat h + 1) c\<rparr>)))"
  by (simp add: put_peak_def Let_def split: option.split prod.split slot_result.split)

declare bucket_loop.simps(2) [simp del]

definition keys_of :: "pgwt_trace_event \<Rightarrow> int list \<Rightarrow> triples" where
  "keys_of ev bs = (\<lambda>b. (word_of_int b, old_event ev, pid ev)) ` set bs"

lemma bucket_loop_spec:
  assumes "peaks_inv nb T st" and "\<forall>b\<in>set bs. 0 \<le> b \<and> b < nb" and "nb < 2 ^ 31"
  shows "\<exists>x st'. bucket_loop env ev bs st = Some (x, st') \<and>
    (x = LoopDone \<longrightarrow> peaks_inv nb (T \<union> keys_of ev bs) st')"
  using assms(1,2)
proof (induction bs arbitrary: T st)
  case Nil
  then show ?case by (simp add: keys_of_def)
next
  case (Cons b bs)
  let ?k = "(word_of_int b, old_event ev, pid ev)"
  note D = peaks_invD [OF Cons.prems(1)]
  have b: "0 \<le> b" "b < nb" using Cons.prems(2) by simp_all
  have T: "T \<union> keys_of ev (b # bs) = insert ?k T \<union> keys_of ev bs" by (auto simp: keys_of_def)
  show ?case
  proof (cases rule: slot_cases [OF D(2), of "seen_ok env" ?k, case_names Slot NoMem UB])
    case s: (Slot h cr m)
    show ?thesis
    proof (cases cr)
      case False
      then have "?k \<in> T" "oa_map m = oa_map (seen st)" using s(2,4) D(4) by auto
      then have "peaks_inv nb (insert ?k T) (st\<lparr>seen := m\<rparr>)"
        using Cons.prems(1) s(3) by (simp add: peaks_inv_def insert_absorb)
      from Cons.IH [OF this] Cons.prems(2) show ?thesis using s(1) False T by (simp add: bucket_loop_Cons_put)
    next
      case True
      then have new: "?k \<notin> T" "oa_map m = (oa_map (seen st))(?k \<mapsto> 0)" using s(2,4) D(4) by auto
      show ?thesis
      proof (cases rule: slot_cases [OF D(3), of "counts_ok env" "(word_of_int b, old_event ev, 0)", case_names Slot NoMem UB])
        case c: (Slot h' cr' c)
        have v: "ix_vals c ! unat h' = int (card (sessions T b (old_event ev)))" using c(5) D(5) by simp
        from peaks_inv_add [OF Cons.prems(1) b assms(3) new(1) s(3) new(2) refl, of "set_slot h' (ix_vals c ! unat h' + 1) c"]
        have "peaks_inv nb (insert ?k T) (put_peak b (old_event ev) (ix_vals c ! unat h' + 1)
            (st\<lparr>seen := m, counts := set_slot h' (ix_vals c ! unat h' + 1) c\<rparr>))"
          using c(6) [of "ix_vals c ! unat h' + 1"] v by simp
        from Cons.IH [OF this] Cons.prems(2) show ?thesis
          using s(1) c(1) True T by (simp add: bucket_loop_Cons_put)
      qed (use s(1) True in \<open>simp_all add: bucket_loop_Cons_put\<close>)
    qed
  qed (simp_all add: bucket_loop_Cons_put)
qed

section \<open>Which buckets an interval occupies\<close>

definition occ_buckets :: "conc_req \<Rightarrow> pgwt_trace_event \<Rightarrow> int list" where
  "occ_buckets rq ev =
     (if timestamp_ns ev > rq_from rq
      then [bucket_lo (rq_from rq) (conc_bucket_ns rq) (rq_buckets rq) (timestamp_ns ev - duration_ns ev) ..
            bucket_hi (rq_from rq) (conc_bucket_ns rq) (rq_buckets rq) (timestamp_ns ev)]
      else [])"

lemma sint_of_nat32: "n < 2 ^ 31 \<Longrightarrow> sint (of_nat n :: u32) = int n"
  by (simp add: signed_of_nat signed_take_bit_int_eq_self)

lemma to_int32_small: "unat q < 2 ^ 31 \<Longrightarrow> to_int32 q = int (unat q)"
  using sint_of_nat32 [of "unat q"] by (simp only: to_int32_def of_nat_unat)

lemma unat_of_bucket_count: "0 \<le> nb \<Longrightarrow> nb < 2 ^ 31 \<Longrightarrow> unat (word_of_int nb :: u64) = nat nb"
  by (simp add: unat_eq_nat_uint take_bit_int_eq_self uint_word_of_int)

lemma conc_bucket_ns_pos: "conc_bucket_ns rq \<noteq> 0"
  by (simp add: conc_bucket_ns_def Let_def)

lemma bucket_lo_eq:
  assumes "0 < nb" "nb < 2 ^ 31"
  shows "bucket_lo f bn nb s = min nb (int ((unat s - unat f) div unat bn))"
proof (cases "s > f")
  case True
  let ?q = "(s - f) div bn"
  have q: "unat ?q = (unat s - unat f) div unat bn"
    using True by (simp add: unat_div unat_sub word_less_nat_alt word_le_nat_alt)
  have "?q > word_of_int nb \<longleftrightarrow> unat ?q > nat nb"
    using unat_of_bucket_count [of nb] assms by (simp add: word_less_nat_alt)
  moreover have "to_int32 ?q = int (unat ?q)" if "unat ?q \<le> nat nb"
    by (rule to_int32_small [OF le_less_trans [OF that]]) (use assms in \<open>simp add: nat_less_iff\<close>)
  ultimately show ?thesis
    using True assms q by (auto simp: bucket_lo_def Let_def not_less)
next
  case False
  then show ?thesis using assms by (simp add: bucket_lo_def word_less_nat_alt not_less)
qed

lemma bucket_hi_le: "bucket_hi f bn nb e \<le> nb - 1"
  by (simp add: bucket_hi_def Let_def)

lemma occ_buckets_range:
  assumes "0 < rq_buckets rq" "rq_buckets rq < 2 ^ 31" and "b \<in> set (occ_buckets rq ev)"
  shows "0 \<le> b \<and> b < rq_buckets rq"
  using assms(3) bucket_hi_le [of "rq_from rq" "conc_bucket_ns rq" "rq_buckets rq" "timestamp_ns ev"]
    bucket_lo_eq [OF assms(1,2), of "rq_from rq" "conc_bucket_ns rq" "timestamp_ns ev - duration_ns ev"] assms(1)
  by (auto simp: occ_buckets_def split: if_splits)

text \<open>The time of a bucket, and the upper quotient that the code converts to int.\<close>

definition overlaps_bucket :: "conc_req \<Rightarrow> pgwt_trace_event \<Rightarrow> int \<Rightarrow> bool" where
  "overlaps_bucket rq ev b \<longleftrightarrow>
     unat (rq_from rq) + nat b * unat (conc_bucket_ns rq) < unat (timestamp_ns ev) \<and>
     unat (timestamp_ns ev) - unat (duration_ns ev) < unat (rq_from rq) + (nat b + 1) * unat (conc_bucket_ns rq)"

definition quotient_fits :: "conc_req \<Rightarrow> pgwt_trace_event \<Rightarrow> bool" where
  "quotient_fits rq ev \<longleftrightarrow>
     (unat (timestamp_ns ev) - unat (rq_from rq) - 1) div unat (conc_bucket_ns rq) < 2 ^ 31"

lemma le_div_iff: "0 < c \<Longrightarrow> b \<le> (a - 1) div c \<and> 0 < a \<longleftrightarrow> b * c < a" for a b c :: nat
  by (cases a) (auto simp: less_eq_div_iff_mult_less_eq less_Suc_eq_le)

lemma occ_buckets_iff:
  assumes nb: "0 < rq_buckets rq" "rq_buckets rq < 2 ^ 31" and b: "0 \<le> b" "b < rq_buckets rq"
    and "duration_ns ev \<le> timestamp_ns ev" and fits: "quotient_fits rq ev"
  shows "b \<in> set (occ_buckets rq ev) \<longleftrightarrow> overlaps_bucket rq ev b"
proof (cases "timestamp_ns ev > rq_from rq")
  case False
  then show ?thesis by (simp add: occ_buckets_def overlaps_bucket_def word_less_nat_alt)
next
  case True
  let ?B = "unat (conc_bucket_ns rq)" and ?e = "unat (timestamp_ns ev)" and ?f = "unat (rq_from rq)"
  let ?s = "unat (timestamp_ns ev) - unat (duration_ns ev)"
  have B: "0 < ?B" using conc_bucket_ns_pos [of rq] by (simp add: unat_gt_0)
  have e: "?f < ?e" using True by (simp add: word_less_nat_alt)
  have start: "unat (timestamp_ns ev - duration_ns ev) = ?s" using assms(5) by (simp add: unat_sub)
  have "timestamp_ns ev - rq_from rq \<noteq> 0" using True by simp
  then have "unat (timestamp_ns ev - rq_from rq - 1) = ?e - ?f - 1"
    using True by (simp add: unat_minus_one unat_sub word_less_nat_alt word_le_nat_alt)
  then have q: "unat ((timestamp_ns ev - rq_from rq - 1) div conc_bucket_ns rq) = (?e - ?f - 1) div ?B"
    by (simp add: unat_div)
  then have "to_int32 ((timestamp_ns ev - rq_from rq - 1) div conc_bucket_ns rq) = int ((?e - ?f - 1) div ?B)"
    using fits by (simp add: to_int32_small quotient_fits_def)
  then have hi: "b \<le> bucket_hi (rq_from rq) (conc_bucket_ns rq) (rq_buckets rq) (timestamp_ns ev) \<longleftrightarrow>
      nat b \<le> (?e - ?f - 1) div ?B"
    using b by (auto simp: bucket_hi_def Let_def)
  have "nat b \<le> (?e - ?f - 1) div ?B \<longleftrightarrow> nat b * ?B < ?e - ?f"
    using le_div_iff [OF B, of "nat b" "?e - ?f"] e by auto
  with hi have hi': "b \<le> bucket_hi (rq_from rq) (conc_bucket_ns rq) (rq_buckets rq) (timestamp_ns ev) \<longleftrightarrow>
      ?f + nat b * ?B < ?e" by (simp add: less_diff_conv add.commute)
  have "bucket_lo (rq_from rq) (conc_bucket_ns rq) (rq_buckets rq) (timestamp_ns ev - duration_ns ev) \<le> b \<longleftrightarrow>
      (?s - ?f) div ?B \<le> nat b"
    unfolding bucket_lo_eq [OF nb] start using b by (auto simp: min_def)
  also have "\<dots> \<longleftrightarrow> ?s - ?f < (nat b + 1) * ?B"
    using div_less_iff_less_mult [OF B, of "?s - ?f" "nat b + 1"] by (simp add: less_Suc_eq_le)
  also have "\<dots> \<longleftrightarrow> ?s < ?f + (nat b + 1) * ?B" using B by (auto simp: less_diff_conv2)
  finally show ?thesis using True hi' by (auto simp: occ_buckets_def overlaps_bucket_def)
qed

section \<open>The pass over the records\<close>

abbreviation qualifying :: "idle_state \<Rightarrow> pgwt_filter \<Rightarrow> conc_req \<Rightarrow> pgwt_trace_event list \<Rightarrow> pgwt_trace_event list" where
  "qualifying r f rq evs \<equiv> filter (\<lambda>ev. concurrency_qualifies r ev f (rq_from rq) (rq_to rq)) evs"

definition triples_of :: "conc_req \<Rightarrow> pgwt_trace_event list \<Rightarrow> triples" where
  "triples_of rq evs = (\<Union>ev\<in>set evs. keys_of ev (occ_buckets rq ev))"

lemma entry_loop_Cons:
  "entry_loop env r f rq nqual (ev # evs) st es =
     (if \<not> concurrency_qualifies r ev f (rq_from rq) (rq_to rq) then entry_loop env r f rq nqual evs st es
      else case bucket_loop env ev (occ_buckets rq ev) st of
          None \<Rightarrow> None
        | Some (LoopDone, st) \<Rightarrow>
            entry_loop env r f rq nqual evs st (if length es \<ge> nqual then es else es @ [entry_of ev])
        | Some (x, st) \<Rightarrow> Some (x, st, es))"
  by (simp add: occ_buckets_def Let_def)

declare entry_loop.simps(2) [simp del]

lemma entry_loop_spec:
  assumes "0 < rq_buckets rq" "rq_buckets rq < 2 ^ 31" and "peaks_inv (rq_buckets rq) T st"
    and "length es + length (qualifying r f rq evs) = nqual"
  shows "\<exists>x st' es'. entry_loop env r f rq nqual evs st es = Some (x, st', es') \<and>
    (x = LoopDone \<longrightarrow> peaks_inv (rq_buckets rq) (T \<union> triples_of rq (qualifying r f rq evs)) st' \<and>
       es' = es @ map entry_of (qualifying r f rq evs))"
  using assms(3,4)
proof (induction evs arbitrary: T st es)
  case Nil
  then show ?case by (simp add: triples_of_def)
next
  case (Cons ev evs)
  show ?case
  proof (cases "concurrency_qualifies r ev f (rq_from rq) (rq_to rq)")
    case False
    then show ?thesis using Cons.IH [OF Cons.prems(1)] Cons.prems(2) by (simp add: entry_loop_Cons)
  next
    case True
    from bucket_loop_spec [OF Cons.prems(1) _ assms(2), of "occ_buckets rq ev" env ev]
    obtain x st' where x: "bucket_loop env ev (occ_buckets rq ev) st = Some (x, st')"
      "x = LoopDone \<longrightarrow> peaks_inv (rq_buckets rq) (T \<union> keys_of ev (occ_buckets rq ev)) st'"
      using occ_buckets_range [OF assms(1,2)] by blast
    show ?thesis
    proof (cases "x = LoopDone")
      case fin: True
      with x have "peaks_inv (rq_buckets rq) (T \<union> keys_of ev (occ_buckets rq ev)) st'" by simp
      from Cons.IH [OF this, of "es @ [entry_of ev]"] Cons.prems(2) show ?thesis
        using True fin x(1) by (simp add: entry_loop_Cons triples_of_def Un_assoc)
    next
      case False
      then show ?thesis using True x(1) by (cases x) (simp_all add: entry_loop_Cons)
    qed
  qed
qed

lemma entry_loop_qualifying:
  "entry_loop env r f rq nqual (qualifying r f rq evs) st es = entry_loop env r f rq nqual evs st es"
  by (induction evs arbitrary: st es)
    (auto simp: entry_loop_Cons split: option.split prod.split loop_exit.split)

lemma peaks_inv_fresh: "peaks_inv (rq_buckets rq) {} (fresh_peaks rq)"
  by (simp add: peaks_inv_def fresh_peaks_def pgwt_triple_map_init_def oa_ok_init oa_map_init is_peak_def
      sessions_def)

text \<open>Phase 2 never touches the peaks.\<close>

lemma phase2_peaks:
  "phase2 env rq res es = Some (Concluded out) \<Longrightarrow>
   cr_peak_sessions out = cr_peak_sessions res \<and> cr_peak_event out = cr_peak_event res \<and>
   cr_num_buckets out = cr_num_buckets res \<and> cr_bucket_ns out = cr_bucket_ns res"
  by (auto simp: phase2_def compact_bursts_def Let_def split: if_splits option.splits prod.splits loop_exit.splits)

lemma compute_cases:
  assumes "evs \<noteq> []" "rq_from rq < rq_to rq" "0 < rq_buckets rq" "rq_buckets rq < 2 ^ 31"
    and "pgwt_compute_concurrency env r f rq evs = Some (Concluded out)" "\<not> cr_failed out"
  obtains st where "peaks_inv (rq_buckets rq) (triples_of rq (qualifying r f rq evs)) st"
    and "phase2 env rq (with_peaks rq st) (map entry_of (qualifying r f rq evs)) = Some (Concluded out)"
proof -
  let ?n = "length (qualifying r f rq evs)"
  from entry_loop_spec [OF assms(3,4) peaks_inv_fresh, of "[]" r f evs ?n env]
  obtain x st es where e: "entry_loop env r f rq ?n evs (fresh_peaks rq) [] = Some (x, st, es)"
    "x = LoopDone \<longrightarrow> peaks_inv (rq_buckets rq) (triples_of rq (qualifying r f rq evs)) st \<and>
       es = map entry_of (qualifying r f rq evs)" by auto
  have "x = LoopDone"
    using assms e(1) by (cases x) (auto simp: pgwt_compute_concurrency_def Let_def split: if_splits)
  moreover have "phase2 env rq (with_peaks rq st) es = Some (Concluded out)"
    using assms e(1) \<open>x = LoopDone\<close> by (auto simp: pgwt_compute_concurrency_def Let_def split: if_splits)
  ultimately show thesis using that e(2) by blast
qed

lemma sessions_of_triples:
  assumes "0 < rq_buckets rq" "rq_buckets rq < 2 ^ 31" "0 \<le> b" "b < rq_buckets rq"
  shows "sessions (triples_of rq evs) b e =
    {pid ev |ev. ev \<in> set evs \<and> old_event ev = e \<and> b \<in> set (occ_buckets rq ev)}"
proof -
  have "word_of_int c = (word_of_int b :: u32) \<longleftrightarrow> c = b" if "c \<in> set (occ_buckets rq ev)" for c ev
    using occ_buckets_range [OF assms(1,2) that] assms by (intro word_of_int_inj31) auto
  then show ?thesis unfolding sessions_def triples_of_def keys_of_def by auto metis+
qed

text \<open>The sessions waiting on an event during a bucket.\<close>

definition waiting :: "idle_state \<Rightarrow> pgwt_filter \<Rightarrow> conc_req \<Rightarrow> pgwt_trace_event list \<Rightarrow> int \<Rightarrow> u32 \<Rightarrow> u32 set" where
  "waiting r f rq evs b e =
     {pid ev |ev. ev \<in> set (qualifying r f rq evs) \<and> old_event ev = e \<and> overlaps_bucket rq ev b}"

lemma qualifies_duration: "concurrency_qualifies r ev f from_ns to_ns \<Longrightarrow> duration_ns ev \<le> timestamp_ns ev"
  by (auto simp: concurrency_qualifies_def pgwt_filter_matches_def split: if_splits)

lemma sessions_waiting:
  assumes "0 < rq_buckets rq" "rq_buckets rq < 2 ^ 31" "0 \<le> b" "b < rq_buckets rq"
    and "\<forall>ev\<in>set (qualifying r f rq evs). quotient_fits rq ev"
  shows "sessions (triples_of rq (qualifying r f rq evs)) b e = waiting r f rq evs b e"
  unfolding sessions_of_triples [OF assms(1-4)] waiting_def
  using occ_buckets_iff [OF assms(1-4)] qualifies_duration assms(5) by auto

section \<open>Phase 2 is the greedy reference pass\<close>

definition seg :: "nat \<Rightarrow> nat \<Rightarrow> 'a list \<Rightarrow> 'a list" where
  "seg i j xs = take (j - i) (drop i xs)"

lemma seg_self [simp]: "seg i i xs = []"
  by (simp add: seg_def)

lemma seg_snoc: "i \<le> j \<Longrightarrow> j < length xs \<Longrightarrow> seg i (Suc j) xs = seg i j xs @ [xs ! j]"
  by (simp add: seg_def Suc_diff_le take_Suc_conv_app_nth)

lemma seg_cons: "i < j \<Longrightarrow> j \<le> length xs \<Longrightarrow> seg i j xs = xs ! i # seg (Suc i) j xs"
  by (simp add: seg_def Cons_nth_drop_Suc [symmetric] take_Cons')

lemma seg_append: "i \<le> j \<Longrightarrow> j \<le> k \<Longrightarrow> k \<le> length xs \<Longrightarrow> seg i k xs = seg i j xs @ seg j k xs"
  using take_add [of "j - i" "k - j" "drop i xs"] by (simp add: seg_def)

lemma in_seg: "k \<le> length xs \<Longrightarrow> x \<in> set (seg i k xs) \<longleftrightarrow> (\<exists>m. i \<le> m \<and> m < k \<and> x = xs ! m)"
proof (induction k)
  case (Suc k)
  then show ?case
  proof (cases "i \<le> k")
    case True
    then show ?thesis using Suc by (auto simp: seg_snoc less_Suc_eq)
  qed (auto simp: seg_def)
qed (simp add: seg_def)

lemma scan_while_le: "i \<le> stop \<Longrightarrow> scan_while P es stop i \<le> stop"
  by (induction P es stop i rule: scan_while.induct) (subst scan_while.simps, simp)

lemma scan_while_takeWhile:
  "i \<le> stop \<Longrightarrow> stop \<le> length es \<Longrightarrow>
   seg i (scan_while P es stop i) es = takeWhile P (seg i stop es) \<and>
   seg (scan_while P es stop i) stop es = dropWhile P (seg i stop es)"
proof (induction P es stop i rule: scan_while.induct)
  case (1 P es stop i)
  show ?case
  proof (cases "i < stop \<and> P (es ! i)")
    case True
    have "Suc i \<le> scan_while P es stop (Suc i)" by (rule scan_while_ge)
    moreover have "scan_while P es stop (Suc i) \<le> stop" using True by (intro scan_while_le) simp
    ultimately show ?thesis
      using 1 True by (simp add: scan_while.simps [of P es stop i] seg_cons [of i])
  next
    case False
    then show ?thesis
      using 1(2,3) by (cases "i = stop") (auto simp: scan_while.simps [of P es stop] seg_cons)
  qed
qed

text \<open>What the sliding map holds: the number of entries of each session in the window.\<close>

definition win_inv :: "pgwt_triple_map \<Rightarrow> burst_entry list \<Rightarrow> int \<Rightarrow> bool" where
  "win_inv m es nd \<longleftrightarrow> oa_ok pgwt_triple_map_hash m \<and> nd = int (card (be_pid ` set es)) \<and>
     (\<forall>p. (case oa_map m (p, 0, 0) of None \<Rightarrow> 0 | Some v \<Rightarrow> v) = int (count_list (map be_pid es) p))"

lemma win_invD:
  assumes "win_inv m es nd"
  shows "oa_ok pgwt_triple_map_hash m" and "nd = int (card (be_pid ` set es))"
    and "(case oa_map m (p, 0, 0) of None \<Rightarrow> 0 | Some v \<Rightarrow> v) = int (count_list (map be_pid es) p)"
  using assms unfolding win_inv_def by blast+

lemma win_inv_empty: "oa_ok pgwt_triple_map_hash m \<Longrightarrow> oa_map m = Map.empty \<Longrightarrow> win_inv m [] 0"
  by (simp add: win_inv_def)

lemma win_inv_enter:
  assumes "win_inv m es nd" and "v = int (count_list (map be_pid es) (be_pid e))"
    and "oa_ok pgwt_triple_map_hash m' \<and> oa_map m' = (oa_map m)((be_pid e, 0, 0) \<mapsto> v + 1)"
  shows "win_inv m' (es @ [e]) (if v = 0 then nd + 1 else nd)"
  using assms(2,3) win_invD(2,3) [OF assms(1)] count_list_0_iff [of "map be_pid es" "be_pid e"]
  by (auto simp: win_inv_def insert_absorb)

lemma win_inv_leave:
  assumes "win_inv m (e # es) nd" and "v = int (count_list (map be_pid es) (be_pid e))"
    and "oa_ok pgwt_triple_map_hash m' \<and> oa_map m' = (oa_map m)((be_pid e, 0, 0) \<mapsto> v)"
  shows "win_inv m' es (if v = 0 then nd - 1 else nd)"
  using assms(2,3) win_invD(2,3) [OF assms(1)] count_list_0_iff [of "map be_pid es" "be_pid e"]
  by (auto simp: win_inv_def insert_absorb split: if_splits)

lemma win_fill_spec:
  assumes "i \<le> j" "j \<le> gend" "gend \<le> length es" "win_inv win (seg i j es) nd"
  shows "\<exists>x j' nd' w. win_fill env es gend wend j nd win = Some (x, j', nd', w) \<and>
    (x = LoopDone \<longrightarrow> j' = scan_while (\<lambda>e. be_start e \<le> wend) es gend j \<and> win_inv w (seg i j' es) nd')"
  using assms
proof (induction "gend - j" arbitrary: j nd win)
  case 0
  then have "j = gend" by simp
  then show ?case
    using 0 by (simp add: win_fill.simps [of env es gend wend gend] scan_while.simps [of _ es gend gend])
next
  case (Suc n)
  show ?case
  proof (cases "be_start (es ! j) \<le> wend")
    case False
    then show ?thesis
      using Suc.prems by (simp add: win_fill.simps [of env es gend] scan_while.simps [of _ es gend])
  next
    case True
    have j: "j < gend" using Suc.hyps(2) by simp
    note D = win_invD [OF Suc.prems(4)]
    show ?thesis
    proof (cases rule: slot_cases [OF D(1), of "win_ok env" "(be_pid (es ! j), 0, 0)", case_names Slot NoMem UB])
      case s: (Slot h cr w)
      have v: "ix_vals w ! unat h = int (count_list (map be_pid (seg i j es)) (be_pid (es ! j)))"
        using s(5) D(3) by simp
      from win_inv_enter [OF Suc.prems(4) v s(6)]
      have "win_inv (set_slot h (ix_vals w ! unat h + 1) w) (seg i (Suc j) es)
          (if ix_vals w ! unat h = 0 then nd + 1 else nd)"
        using Suc.prems(1,3) j by (simp only: seg_snoc)
      from Suc.hyps(1) [OF _ _ _ Suc.prems(3) this] show ?thesis
        using Suc.hyps(2) Suc.prems True j s(1)
        by (simp add: win_fill.simps [of env es gend wend j] scan_while.simps [of _ es gend j] Let_def)
    qed (use True j in \<open>simp_all add: win_fill.simps [of env es gend wend j]\<close>)
  qed
qed

lemma win_drop_spec:
  assumes "i \<le> c" "c \<le> j" "j \<le> length es" "win_inv win (seg i j es) nd"
  shows "\<exists>x nd' w. win_drop env es c i nd win = Some (x, nd', w) \<and>
    (x = LoopDone \<longrightarrow> win_inv w (seg c j es) nd')"
  using assms
proof (induction "c - i" arbitrary: i nd win)
  case 0
  then have "i = c" by simp
  then show ?case using 0 by (simp add: win_drop.simps [of env es c c])
next
  case (Suc n)
  have i: "i < c" "i < j" using Suc.hyps(2) Suc.prems(2) by simp_all
  have sg: "seg i j es = es ! i # seg (Suc i) j es" using i(2) Suc.prems(3) by (rule seg_cons)
  note D = win_invD [OF Suc.prems(4)]
  show ?case
  proof (cases rule: slot_cases [OF D(1), of "win_ok env" "(be_pid (es ! i), 0, 0)", case_names Slot NoMem UB])
    case s: (Slot h cr w)
    have v: "ix_vals w ! unat h - 1 = int (count_list (map be_pid (seg (Suc i) j es)) (be_pid (es ! i)))"
      using s(5) D(3) by (simp add: sg)
    from win_inv_leave [OF Suc.prems(4) [unfolded sg] v s(6)]
    have "win_inv (set_slot h (ix_vals w ! unat h - 1) w) (seg (Suc i) j es)
        (if ix_vals w ! unat h - 1 = 0 then nd - 1 else nd)" .
    from Suc.hyps(1) [OF _ _ Suc.prems(2,3) this] show ?thesis
      using Suc.hyps(2) i s(1)
      by (simp add: win_drop.simps [of env es c i] Let_def)
  qed (use i in \<open>simp_all add: win_drop.simps [of env es c i]\<close>)
qed

text \<open>
  The reference: walk the entries of one event in time order; the entries within the burst window of
  the first one form a burst if they come from enough distinct sessions, and are then consumed.
\<close>

definition near :: "conc_req \<Rightarrow> burst_entry \<Rightarrow> burst_entry \<Rightarrow> bool" where
  "near rq e x \<longleftrightarrow> be_start x \<le> be_start e + rq_burst_window rq"

definition burst_at :: "conc_req \<Rightarrow> burst_entry list \<Rightarrow> pgwt_burst" where
  "burst_at rq es =
     (let ns = takeWhile (near rq (hd es)) es
      in \<lparr>bu_timestamp = be_start (hd es), bu_event = be_event (hd es), bu_name = rq_event_name rq (be_event (hd es)),
          bu_sessions = int (card (be_pid ` set ns)), bu_pids = sample_pids ns []\<rparr>)"

function onsets :: "conc_req \<Rightarrow> burst_entry list \<Rightarrow> pgwt_burst list" where
  "onsets rq [] = []"
| "onsets rq (e # es) =
     (if bu_sessions (burst_at rq (e # es)) \<ge> rq_threshold rq
      then burst_at rq (e # es) # onsets rq (dropWhile (near rq e) es)
      else onsets rq es)"
  by pat_completeness auto
termination by (relation "measure (\<lambda>(rq, es). length es)") (auto simp: le_imp_less_Suc length_dropWhile_le)

function all_onsets :: "conc_req \<Rightarrow> burst_entry list \<Rightarrow> pgwt_burst list" where
  "all_onsets rq [] = []"
| "all_onsets rq (e # es) =
     onsets rq (e # takeWhile (\<lambda>x. be_event x = be_event e) es) @
     all_onsets rq (dropWhile (\<lambda>x. be_event x = be_event e) es)"
  by pat_completeness auto
termination by (relation "measure (\<lambda>(rq, es). length es)") (auto simp: le_imp_less_Suc length_dropWhile_le)

definition bursts_of :: "conc_req \<Rightarrow> burst_entry list \<Rightarrow> pgwt_burst list" where
  "bursts_of rq es = all_onsets rq (sort_key burst_entry_key es)"

definition no_wrap :: "conc_req \<Rightarrow> burst_entry list \<Rightarrow> bool" where
  "no_wrap rq es \<longleftrightarrow> (\<forall>e\<in>set es. unat (be_start e) + unat (rq_burst_window rq) < 2 ^ 64)"

lemma wend_mono:
  assumes "no_wrap rq es" "a \<in> set es" "b \<in> set es" "be_start a \<le> be_start b"
  shows "be_start a + rq_burst_window rq \<le> be_start b + rq_burst_window rq"
    and "be_start b \<le> be_start b + rq_burst_window rq"
proof -
  have "unat (be_start x + rq_burst_window rq) = unat (be_start x) + unat (rq_burst_window rq)"
    if "x \<in> set es" for x
    using assms(1) that by (simp add: no_wrap_def unat_add_u64)
  then show "be_start a + rq_burst_window rq \<le> be_start b + rq_burst_window rq"
    "be_start b \<le> be_start b + rq_burst_window rq"
    using assms(2-4) by (simp_all add: word_le_nat_alt)
qed

lemma takeWhile_seg_split:
  assumes "i \<le> j" "j \<le> k" "k \<le> length xs" "\<forall>x\<in>set (seg i j xs). P x"
  shows "takeWhile P (seg i k xs) = seg i j xs @ takeWhile P (seg j k xs)"
    and "dropWhile P (seg i k xs) = dropWhile P (seg j k xs)"
  using assms(4) by (simp_all add: seg_append [OF assms(1-3)] dropWhile_append2)

text \<open>One anchor: after the fill, the window holds exactly the entries near the anchor.\<close>

lemma anchor_window:
  assumes "i < gend" "i \<le> j" "j \<le> gend" "gend \<le> length es"
    and "\<forall>x\<in>set (seg i j es). near rq (es ! i) x"
  defines "j' \<equiv> scan_while (near rq (es ! i)) es gend j"
  shows "seg i j' es = takeWhile (near rq (es ! i)) (seg i gend es)" and "j \<le> j'" and "j' \<le> gend"
    and "seg j' gend es = dropWhile (near rq (es ! i)) (seg i gend es)"
proof -
  note s = scan_while_takeWhile [OF assms(3,4), of "near rq (es ! i)", folded j'_def]
  show le: "j \<le> j'" "j' \<le> gend" using scan_while_ge scan_while_le [OF assms(3)] by (simp_all add: j'_def)
  show "seg i j' es = takeWhile (near rq (es ! i)) (seg i gend es)"
    using takeWhile_seg_split(1) [OF assms(2,3,4,5)] s le assms(2,4)
    by (simp add: seg_append [of i j j'])
  show "seg j' gend es = dropWhile (near rq (es ! i)) (seg i gend es)"
    using takeWhile_seg_split(2) [OF assms(2,3,4,5)] s by simp
qed

lemma note_new_burst:
  assumes "i < gend" "gend \<le> length es" "seg i j es = takeWhile (near rq (es ! i)) (seg i gend es)"
    and "nd = int (card (be_pid ` set (seg i j es)))"
  shows "new_burst rq es i j nd = burst_at rq (seg i gend es)"
    and "nd = bu_sessions (burst_at rq (seg i gend es))"
proof -
  have "hd (seg i gend es) = es ! i" using assms(1,2) by (simp add: seg_cons)
  then show "new_burst rq es i j nd = burst_at rq (seg i gend es)"
    "nd = bu_sessions (burst_at rq (seg i gend es))"
    using assms(3,4) by (simp_all add: new_burst_def burst_at_def Let_def seg_def)
qed

lemma near_trans:
  assumes "no_wrap rq es" "a \<in> set es" "b \<in> set es" "be_start a \<le> be_start b" "near rq a x"
  shows "near rq b x"
  using wend_mono(1) [OF assms(1-4)] assms(5) by (auto simp: near_def intro: order_trans)

lemma onsets_seg:
  assumes "i < gend" "gend \<le> length es" "near rq (es ! i) (es ! i)"
  shows "onsets rq (seg i gend es) =
    (if bu_sessions (burst_at rq (seg i gend es)) \<ge> rq_threshold rq
     then burst_at rq (seg i gend es) # onsets rq (dropWhile (near rq (es ! i)) (seg i gend es))
     else onsets rq (seg (Suc i) gend es))"
  using assms by (simp add: seg_cons)

text \<open>Scanning from anywhere inside a stretch that satisfies the test ends where scanning after it ends.\<close>

lemma scan_while_skip:
  assumes "i \<le> k" "k \<le> j" "j \<le> gend" "gend \<le> length es" "\<forall>x\<in>set (seg i j es). P x"
  shows "scan_while P es gend k = scan_while P es gend j"
  using assms(2,1)
proof (induction rule: inc_induct)
  case (step n)
  have "n \<ge> i" "n < j" "j \<le> length es" using step assms(3,4) by simp_all
  then have "es ! n \<in> set (seg i j es)" using in_seg [of j es "es ! n" i] by blast
  then have "P (es ! n)" using assms(5) by blast
  then show ?case using step assms(3) by (subst scan_while.simps) simp
qed simp

lemma scan_from_anchor:
  assumes "i < gend" "i \<le> j" "j \<le> gend" "gend \<le> length es" "\<forall>x\<in>set (seg i j es). P x" "P (es ! i)"
  shows "scan_while P es gend (Suc i) = scan_while P es gend j"
    and "Suc i \<le> scan_while P es gend j"
proof -
  have "scan_while P es gend i = scan_while P es gend j"
    by (rule scan_while_skip [OF order_refl assms(2-5)])
  moreover have "scan_while P es gend i = scan_while P es gend (Suc i)"
    using assms(1,6) by (subst scan_while.simps) simp
  ultimately show "scan_while P es gend (Suc i) = scan_while P es gend j" by simp
  then show "Suc i \<le> scan_while P es gend j" using scan_while_ge [of "Suc i" P es gend] by simp
qed

text \<open>The next anchor keeps the invariant: what is left of the window is near it as well.\<close>

lemma near_next_anchor:
  assumes "no_wrap rq es" "gend \<le> length es" "i < gend" "i \<le> c" "c \<le> j" "j \<le> gend" "c < gend"
    and "be_start (es ! i) \<le> be_start (es ! c)" and "\<forall>x\<in>set (seg i j es). near rq (es ! i) x"
  shows "\<forall>x\<in>set (seg c j es). near rq (es ! c) x"
proof
  fix x assume x: "x \<in> set (seg c j es)"
  have "seg i j es = seg i c es @ seg c j es" using assms(2,4-6) by (intro seg_append) simp_all
  then have "near rq (es ! i) x" using x assms(9) by simp
  then show "near rq (es ! c) x"
    using near_trans [OF assms(1) _ _ assms(8)] assms(2,3,7) by simp
qed

definition anchors_done :: "conc_req \<Rightarrow> burst_entry list \<Rightarrow> burst_state \<Rightarrow> burst_state \<Rightarrow> bool" where
  "anchors_done rq es st st' \<longleftrightarrow>
     bs_total st' = bs_total st + int (length (onsets rq es)) \<and>
     bs_slots st' = fold (note_burst rq) (onsets rq es) (bs_slots st) \<and>
     oa_ok pgwt_triple_map_hash (bs_win st')"

definition anchor_state :: "conc_req \<Rightarrow> burst_entry list \<Rightarrow> int \<Rightarrow> burst_state \<Rightarrow> burst_state" where
  "anchor_state rq es nd st =
     (if nd \<ge> rq_threshold rq
      then st\<lparr>bs_total := bs_total st + 1, bs_slots := note_burst rq (burst_at rq es) (bs_slots st)\<rparr> else st)"

text \<open>One round of the anchor loop, in terms of the reference.\<close>

lemma anchor_round:
  assumes wrap: "no_wrap rq es" and g: "gend \<le> length es" and i: "i < gend" "i \<le> j" "j \<le> gend"
    and win: "win_inv (bs_win st) (seg i j es) nd" and nears: "\<forall>x\<in>set (seg i j es). near rq (es ! i) x"
  obtains x st' where "anchor_loop env rq es gend i j nd st = Some (x, st')" "x \<noteq> LoopDone"
  | nd' c j' nd2 w2 where "Suc i \<le> c" "c \<le> j'" "j' \<le> gend" "win_inv w2 (seg c j' es) nd2"
      "\<forall>x\<in>set (seg i j' es). near rq (es ! i) x"
      "anchor_loop env rq es gend i j nd st =
         anchor_loop env rq es gend c j' nd2 ((anchor_state rq (seg i gend es) nd' st)\<lparr>bs_win := w2\<rparr>)"
      "onsets rq (seg i gend es) =
         (if nd' \<ge> rq_threshold rq then [burst_at rq (seg i gend es)] else []) @ onsets rq (seg c gend es)"
proof -
  let ?e = "es ! i" and ?near = "near rq (es ! i)" and ?j = "scan_while (near rq (es ! i)) es gend j"
  have "?e \<in> set es" using i(1) g by simp
  then have self: "?near ?e" unfolding near_def using wend_mono(2) [OF wrap _ _ order_refl] by blast
  note W = anchor_window [OF i g nears] and S = scan_from_anchor [OF i g nears self]
  have near_fun: "(\<lambda>e. be_start e \<le> be_start ?e + rq_burst_window rq) = ?near"
    by (simp add: near_def fun_eq_iff)
  have S1: "scan_while (\<lambda>e. be_start e \<le> be_start ?e + rq_burst_window rq) es gend (Suc i) = ?j"
    using S(1) by (simp only: near_fun)
  from win_fill_spec [OF i(2,3) g win, of env "be_start ?e + rq_burst_window rq"]
  obtain x j' nd' w where f:
    "win_fill env es gend (be_start ?e + rq_burst_window rq) j nd (bs_win st) = Some (x, j', nd', w)"
    "x = LoopDone \<longrightarrow> j' = ?j \<and> win_inv w (seg i ?j es) nd'" unfolding near_fun by blast
  show thesis
  proof (cases "x = LoopDone")
    case False
    then show thesis using that(1) i(1) f(1) by (cases x) (simp_all add: anchor_loop.simps [of env rq es gend i])
  next
    case True
    with f have inv: "win_inv w (seg i ?j es) nd'" by auto
    note N = note_new_burst [OF i(1) g W(1) win_invD(2) [OF inv]]
    let ?c = "if nd' \<ge> rq_threshold rq then ?j else Suc i"
    have c: "i \<le> ?c" "?c \<le> ?j" "Suc i \<le> ?c" using S(2) by auto
    have "?j \<le> length es" using W(3) g by simp
    from win_drop_spec [OF c(1,2) this inv, of env]
    obtain y nd2 w2 where d: "win_drop env es ?c i nd' w = Some (y, nd2, w2)"
      "y = LoopDone \<longrightarrow> win_inv w2 (seg ?c ?j es) nd2" by blast
    have step: "anchor_loop env rq es gend i j nd st =
        (case y of
           LoopDone \<Rightarrow> anchor_loop env rq es gend ?c ?j nd2 ((anchor_state rq (seg i gend es) nd' st)\<lparr>bs_win := w2\<rparr>)
         | _ \<Rightarrow> Some (y, (anchor_state rq (seg i gend es) nd' st)\<lparr>bs_win := w2\<rparr>))"
      using i(1) f True N(1) d(1) S1
      by (cases "rq_threshold rq \<le> nd'")
        (simp_all add: anchor_loop.simps [of env rq es gend i] Let_def anchor_state_def split: loop_exit.split)
    have "onsets rq (seg i gend es) =
        (if nd' \<ge> rq_threshold rq then [burst_at rq (seg i gend es)] else []) @ onsets rq (seg ?c gend es)"
      using onsets_seg [OF i(1) g self] N(2) W(4) by simp
    moreover have "\<forall>x\<in>set (seg i ?j es). near rq (es ! i) x" using W(1) set_takeWhileD by metis
    ultimately show thesis using that(2) [OF c(3,2) W(3)] that(1) step d(2) by (cases y) simp_all
  qed
qed

lemma anchor_loop_spec:
  assumes wrap: "no_wrap rq es" and g: "gend \<le> length es"
    and srt: "\<And>a b. lo \<le> a \<Longrightarrow> a \<le> b \<Longrightarrow> b < gend \<Longrightarrow> be_start (es ! a) \<le> be_start (es ! b)"
    and "lo \<le> i" "i \<le> j" "j \<le> gend" "win_inv (bs_win st) (seg i j es) nd"
    and "i < gend \<longrightarrow> (\<forall>x\<in>set (seg i j es). near rq (es ! i) x)"
  shows "\<exists>x st'. anchor_loop env rq es gend i j nd st = Some (x, st') \<and>
    (x = LoopDone \<longrightarrow> anchors_done rq (seg i gend es) st st')"
  using assms(4-)
proof (induction "gend - i" arbitrary: i j nd st rule: less_induct)
  case less
  show ?case
  proof (cases "i < gend")
    case False
    then show ?thesis
      using less.prems win_invD(1) [OF less.prems(4)]
      by (simp add: anchor_loop.simps [of env rq es gend i] anchors_done_def seg_def)
  next
    case True
    show ?thesis
    proof (rule anchor_round [OF wrap g True less.prems(2-4) mp [OF less.prems(5) True], of env], goal_cases)
      case (1 x st')
      then show ?case by blast
    next
      case (2 nd' c j' nd2 w2)
      let ?st = "(anchor_state rq (seg i gend es) nd' st)\<lparr>bs_win := w2\<rparr>"
      have "c < gend \<longrightarrow> (\<forall>x\<in>set (seg c j' es). near rq (es ! c) x)"
        using near_next_anchor [OF wrap g True _ 2(2,3)] srt less.prems(1) 2(1,5) by simp
      moreover have "gend - c < gend - i" "lo \<le> c" using 2(1) True less.prems(1) by simp_all
      ultimately obtain z st' where z: "anchor_loop env rq es gend c j' nd2 ?st = Some (z, st')"
        "z = LoopDone \<longrightarrow> anchors_done rq (seg c gend es) ?st st'"
        using less.hyps [of c j' ?st nd2] 2(2-4) by auto
      then show ?case using 2(6,7) by (auto simp: anchors_done_def anchor_state_def)
    qed
  qed
qed

lemma key_order:
  assumes "sorted (map burst_entry_key es)" "a \<le> b" "b < length es" "be_event (es ! a) = be_event (es ! b)"
  shows "be_start (es ! a) \<le> be_start (es ! b)"
proof -
  have "burst_entry_key (es ! a) \<le> burst_entry_key (es ! b)"
    using sorted_nth_mono [OF assms(1), of a b] assms(2,3) by simp
  then show ?thesis using assms(4) by (auto simp: burst_entry_key_def less_eq_prod_def)
qed

lemma group_loop_spec:
  assumes "no_wrap rq es" "sorted (map burst_entry_key es)" "g \<le> length es"
    and "oa_ok pgwt_triple_map_hash (bs_win st)"
  shows "\<exists>x st'. group_loop env rq es g st = Some (x, st') \<and>
    (x = LoopDone \<longrightarrow> bs_total st' = bs_total st + int (length (all_onsets rq (drop g es))) \<and>
       bs_slots st' = fold (note_burst rq) (all_onsets rq (drop g es)) (bs_slots st))"
  using assms(3,4)
proof (induction "length es - g" arbitrary: g st rule: less_induct)
  case less
  show ?case
  proof (cases "g < length es")
    case False
    then show ?thesis by (simp add: group_loop.simps [of env rq es g])
  next
    case True
    let ?P = "\<lambda>e. be_event e = be_event (es ! g)"
    let ?gend = "scan_while ?P es (length es) g"
    let ?st = "st\<lparr>bs_win := pgwt_triple_map_clear (bs_win st)\<rparr>"
    have gend: "g < ?gend" "?gend \<le> length es"
      using group_end_progress [OF True] scan_while_le [OF less.prems(1)] by auto
    have T: "seg g ?gend es = takeWhile ?P (drop g es)" "drop ?gend es = dropWhile ?P (drop g es)"
      using scan_while_takeWhile [OF less.prems(1) order_refl, of ?P] by (simp_all add: seg_def)
    have P: "?P (es ! k)" if "g \<le> k" "k < ?gend" for k
    proof -
      have "es ! k \<in> set (seg g ?gend es)" using that gend(2) in_seg [of ?gend es "es ! k" g] by blast
      then show ?thesis unfolding T(1) by (rule set_takeWhileD [THEN conjunct2])
    qed
    have srt: "be_start (es ! a) \<le> be_start (es ! b)" if ab: "g \<le> a" "a \<le> b" "b < ?gend" for a b
    proof (rule key_order [OF assms(2) ab(2)])
      show "b < length es" using ab(3) gend(2) by simp
      show "be_event (es ! a) = be_event (es ! b)"
        using P [OF ab(1) le_less_trans [OF ab(2,3)]] P [OF order_trans [OF ab(1,2)] ab(3)] by simp
    qed
    have "win_inv (bs_win ?st) (seg g g es) 0"
      using win_inv_empty [OF triple_clear_spec(1,2) [OF less.prems(2)]] by simp
    from anchor_loop_spec [OF assms(1) gend(2) srt order_refl order_refl less_imp_le [OF gend(1)] this, of env]
    obtain x st' where x: "anchor_loop env rq es ?gend g g 0 ?st = Some (x, st')"
      "x = LoopDone \<longrightarrow> anchors_done rq (seg g ?gend es) ?st st'" by auto
    show ?thesis
    proof (cases "x = LoopDone")
      case False
      then show ?thesis using x(1) True by (cases x) (simp_all add: group_loop.simps [of env rq es g] Let_def)
    next
      case xd: True
      then have d: "anchors_done rq (seg g ?gend es) ?st st'" using x(2) by simp
      have "drop g es = es ! g # drop (Suc g) es" using True by (simp add: Cons_nth_drop_Suc)
      then have "all_onsets rq (drop g es) = onsets rq (seg g ?gend es) @ all_onsets rq (drop ?gend es)"
        using T by simp
      then show ?thesis
        using less.hyps [OF diff_less_mono2 [OF gend(1) True] gend(2), of st'] d x(1) xd True
        by (auto simp: group_loop.simps [of env rq es g] Let_def anchors_done_def)
    qed
  qed
qed

section \<open>The reported bursts\<close>

abbreviation bu_bucket :: "conc_req \<Rightarrow> pgwt_burst \<Rightarrow> int" where
  "bu_bucket rq b \<equiv> burst_bucket rq (bu_timestamp b)"

fun slot_best :: "conc_req \<Rightarrow> pgwt_burst set \<Rightarrow> nat \<Rightarrow> pgwt_burst option \<Rightarrow> bool" where
  "slot_best rq B k None = (\<forall>x\<in>B. nat (bu_bucket rq x) \<noteq> k)"
| "slot_best rq B k (Some y) = (y \<in> B \<and> nat (bu_bucket rq y) = k \<and>
     (\<forall>x\<in>B. nat (bu_bucket rq x) = k \<longrightarrow> bu_sessions x \<le> bu_sessions y))"

definition best_slots :: "conc_req \<Rightarrow> pgwt_burst set \<Rightarrow> pgwt_burst option list \<Rightarrow> bool" where
  "best_slots rq B slots \<longleftrightarrow> length slots = nat (rq_buckets rq) \<and>
     (\<forall>k<nat (rq_buckets rq). slot_best rq B k (slots ! k))"

lemma best_slotsD: "best_slots rq B slots \<Longrightarrow> k < length slots \<Longrightarrow> slot_best rq B k (slots ! k)"
  by (simp add: best_slots_def)

lemma burst_bucket_range:
  assumes "0 < rq_buckets rq" "rq_buckets rq < 2 ^ 31"
  shows "0 \<le> burst_bucket rq s \<and> burst_bucket rq s < rq_buckets rq"
proof -
  let ?q = "(s - rq_from rq) div conc_bucket_ns rq"
  have n: "unat (word_of_int (rq_buckets rq - 1) :: u64) = nat (rq_buckets rq - 1)"
    using assms by (intro unat_of_bucket_count) auto
  have q: "to_int32 ?q = int (unat ?q) \<and> unat ?q \<le> nat (rq_buckets rq - 1)" if "\<not> ?q > word_of_int (rq_buckets rq - 1)"
  proof -
    have le: "unat ?q \<le> nat (rq_buckets rq - 1)" using that n by (simp add: word_less_nat_alt not_less)
    moreover have "nat (rq_buckets rq - 1) < 2 ^ 31" using assms by (simp add: nat_less_iff)
    ultimately show ?thesis using to_int32_small [of ?q] by simp
  qed
  have "0 \<le> to_int32 ?q \<and> to_int32 ?q < rq_buckets rq" if "\<not> ?q > word_of_int (rq_buckets rq - 1)"
    using q [OF that] assms(1) by linarith
  then show ?thesis using assms by (auto simp: burst_bucket_def Let_def)
qed

lemma best_slots_note:
  assumes "0 < rq_buckets rq" "rq_buckets rq < 2 ^ 31" "best_slots rq B slots"
  shows "best_slots rq (insert x B) (note_burst rq x slots)"
proof -
  let ?b = "nat (bu_bucket rq x)"
  have b: "?b < length slots" "?b < nat (rq_buckets rq)"
    using burst_bucket_range [OF assms(1,2), of "bu_timestamp x"] assms by (auto simp: best_slots_def)
  have "slot_best rq (insert x B) k (note_burst rq x slots ! k)" if k: "k < length slots" for k
  proof (cases "k = ?b")
    case False
    then have "note_burst rq x slots ! k = slots ! k"
      by (simp add: note_burst_def Let_def split: option.split)
    then show ?thesis using best_slotsD [OF assms(3) k] False by (cases "slots ! k") auto
  next
    case True
    then have "note_burst rq x slots ! k =
        (case slots ! k of None \<Rightarrow> Some x | Some y \<Rightarrow> Some (if bu_sessions x > bu_sessions y then x else y))"
      using b(1) by (simp add: note_burst_def Let_def split: option.split)
    then show ?thesis using best_slotsD [OF assms(3) k] True by (cases "slots ! k") auto
  qed
  moreover have "length (note_burst rq x slots) = length slots"
    by (simp add: note_burst_def Let_def split: option.split)
  ultimately show ?thesis using assms(3) by (simp add: best_slots_def)
qed

lemma best_slots_fold:
  assumes "0 < rq_buckets rq" "rq_buckets rq < 2 ^ 31" "best_slots rq B slots"
  shows "best_slots rq (set bs \<union> B) (fold (note_burst rq) bs slots)"
  using assms(3)
proof (induction bs arbitrary: B slots)
  case (Cons x bs)
  from Cons.IH [OF best_slots_note [OF assms(1,2) Cons.prems]] show ?case by simp
qed simp

lemma best_slots_fresh: "best_slots rq {} (replicate (nat (rq_buckets rq)) None)"
  by (simp add: best_slots_def)

text \<open>The compacted slots: one burst per bucket that has any, a largest one.\<close>

definition filled :: "pgwt_burst option list \<Rightarrow> pgwt_burst list" where
  "filled slots = map the (filter (\<lambda>s. s \<noteq> None) slots)"

lemma set_filled: "set (filled slots) = {y. Some y \<in> set slots}"
  by (force simp: filled_def)

lemma filled_spec:
  assumes "best_slots rq B slots" "y \<in> set (filled slots)"
  shows "y \<in> B \<and> (\<forall>x\<in>B. bu_bucket rq x = bu_bucket rq y \<longrightarrow> bu_sessions x \<le> bu_sessions y)"
proof -
  obtain k where "k < length slots" "slots ! k = Some y"
    using assms(2) by (auto simp: set_filled in_set_conv_nth)
  then show ?thesis using best_slotsD [OF assms(1), of k] by simp
qed

lemma filled_covers:
  assumes "0 < rq_buckets rq" "rq_buckets rq < 2 ^ 31" "best_slots rq B slots" "x \<in> B"
  shows "\<exists>y\<in>set (filled slots). bu_bucket rq y = bu_bucket rq x"
proof -
  let ?k = "nat (bu_bucket rq x)"
  have r: "0 \<le> bu_bucket rq z" for z using burst_bucket_range [OF assms(1,2)] by blast
  have k: "?k < length slots"
    using burst_bucket_range [OF assms(1,2), of "bu_timestamp x"] assms(1,3) by (simp add: best_slots_def)
  then obtain y where y: "slots ! ?k = Some y" "nat (bu_bucket rq y) = ?k"
    using best_slotsD [OF assms(3) k] assms(4) by (cases "slots ! ?k") auto
  have "Some y \<in> set slots" using y(1) k nth_mem by metis
  moreover have "bu_bucket rq y = bu_bucket rq x" using y(2) r by (metis int_nat_eq)
  ultimately show ?thesis by (auto simp: set_filled)
qed

lemma filled_distinct:
  assumes "\<And>k y. k < length slots \<Longrightarrow> slots ! k = Some y \<Longrightarrow> nat (bu_bucket rq y) = off + k"
  shows "distinct (map (bu_bucket rq) (filled slots)) \<and> (\<forall>y\<in>set (filled slots). off \<le> nat (bu_bucket rq y))"
  using assms
proof (induction slots arbitrary: off)
  case (Cons s slots)
  have "nat (bu_bucket rq y) = Suc off + k" if "k < length slots" "slots ! k = Some y" for k y
    using Cons.prems [of "Suc k" y] that by simp
  note IH = Cons.IH [OF this]
  show ?case
  proof (cases s)
    case None
    then show ?thesis using IH by (auto simp: filled_def)
  next
    case (Some y)
    then have "nat (bu_bucket rq y) = off" using Cons.prems [of 0 y] by simp
    then show ?thesis using IH Some by (force simp: filled_def)
  qed
qed (simp add: filled_def)

lemma best_slots_distinct:
  "best_slots rq B slots \<Longrightarrow> distinct (map (bu_bucket rq) (filled slots))"
  using filled_distinct [of slots rq 0] best_slotsD [of rq B slots] by fastforce

lemma phase2_spec:
  assumes "0 < rq_buckets rq" "rq_buckets rq < 2 ^ 31" "no_wrap rq es" "\<not> cr_failed res"
    and "phase2 env rq res es = Some (Concluded out)" "\<not> cr_failed out"
  obtains slots where "best_slots rq (set (bursts_of rq es)) slots"
    and "cr_bursts out = sort_key burst_desc_key (filled slots)"
    and "cr_num_bursts out = int (length (filled slots))"
    and "cr_bursts_total out = int (length (bursts_of rq es))"
proof -
  let ?es = "sort_key burst_entry_key es"
  let ?st = "\<lparr>bs_win = pgwt_triple_map_init, bs_total = 0, bs_slots = replicate (nat (rq_buckets rq)) None\<rparr>"
  have "no_wrap rq ?es" using assms(3) by (simp add: no_wrap_def)
  from group_loop_spec [OF this sorted_sort_key, of 0 ?st env]
  obtain x st where x: "group_loop env rq ?es 0 ?st = Some (x, st)"
    "x = LoopDone \<longrightarrow> bs_total st = int (length (bursts_of rq es)) \<and>
       bs_slots st = fold (note_burst rq) (bursts_of rq es) (replicate (nat (rq_buckets rq)) None)"
    by (auto simp: oa_ok_init pgwt_triple_map_init_def bursts_of_def)
  have xd: "x = LoopDone"
    using assms(5,6) x(1) by (cases x) (auto simp: phase2_def Let_def split: if_splits)
  have out: "out = compact_bursts env res st"
    using assms(5,6) x(1) xd by (auto simp: phase2_def Let_def split: if_splits)
  have "best_slots rq (set (bursts_of rq es)) (bs_slots st)"
    using best_slots_fold [OF assms(1,2) best_slots_fresh, of "bursts_of rq es"] x(2) xd by simp
  then show thesis
    using that [of "bs_slots st"] out assms(6) x(2) xd
    by (auto simp: compact_bursts_def filled_def Let_def split: if_splits)
qed

text \<open>The computation sees of a record only its end, its duration, its session and its event.\<close>

definition conc_view :: "pgwt_trace_event \<Rightarrow> u64 \<times> u64 \<times> u32 \<times> u32" where
  "conc_view ev = (timestamp_ns ev, duration_ns ev, pid ev, old_event ev)"

lemma bucket_loop_view: "conc_view a = conc_view b \<Longrightarrow> bucket_loop env a bs st = bucket_loop env b bs st"
  by (induction bs arbitrary: st) (auto simp: conc_view_def bucket_loop_Cons_put split: option.split prod.split slot_result.split)

lemma entry_loop_view:
  assumes "map conc_view evs = map conc_view evs'"
    and "\<forall>ev\<in>set evs \<union> set evs'. concurrency_qualifies r ev f (rq_from rq) (rq_to rq)"
  shows "entry_loop env r f rq n evs st es = entry_loop env r f rq n evs' st es"
  using assms
proof (induction evs arbitrary: evs' st es)
  case (Cons ev evs)
  then obtain ev' evs'' where evs': "evs' = ev' # evs''" by (cases evs') auto
  have v: "conc_view ev = conc_view ev'" using Cons.prems(1) evs' by simp
  then have "entry_of ev = entry_of ev'" "occ_buckets rq ev = occ_buckets rq ev'"
    by (simp_all add: conc_view_def entry_of_def occ_buckets_def)
  then show ?case
    using Cons evs' bucket_loop_view [OF v]
    by (auto simp: entry_loop_Cons split: option.split prod.split loop_exit.split)
qed simp

lemma compute_view:
  assumes "map conc_view (qualifying r f rq evs) = map conc_view (qualifying r f rq evs')" "evs \<noteq> []" "evs' \<noteq> []"
  shows "pgwt_compute_concurrency env r f rq evs = pgwt_compute_concurrency env r f rq evs'"
proof -
  have "entry_loop env r f rq n evs st es = entry_loop env r f rq n evs' st es" for n st es
  proof -
    have "entry_loop env r f rq n (qualifying r f rq evs) st es = entry_loop env r f rq n (qualifying r f rq evs') st es"
      by (rule entry_loop_view [OF assms(1)]) auto
    then show ?thesis by (simp only: entry_loop_qualifying)
  qed
  moreover have "length (qualifying r f rq evs) = length (qualifying r f rq evs')"
    using assms(1) by (metis length_map)
  ultimately show ?thesis
    unfolding pgwt_compute_concurrency_def using assms(2,3) by (simp only: simp_thms)
qed

section \<open>With memory the computation succeeds\<close>

definition small :: "nat \<Rightarrow> pgwt_triple_map \<Rightarrow> bool" where
  "small N m \<longleftrightarrow> oa_ok pgwt_triple_map_hash m \<and> ix_n m \<le> N \<and> ix_cap m \<le> 256 + 4 * N"

definition granted :: "conc_env \<Rightarrow> bool" where
  "granted env \<longleftrightarrow> peaks_ok env \<and> entries_ok env = (\<lambda>_. True) \<and> seen_ok env = (\<lambda>_. True) \<and>
     counts_ok env = (\<lambda>_. True) \<and> buckets_ok env \<and> win_ok env = (\<lambda>_. True) \<and> bursts_ok env = (\<lambda>_. True)"

lemma small_init: "small N pgwt_triple_map_init"
  by (simp add: small_def pgwt_triple_map_init_def oa_ok_init) (simp add: oa_init_def)

lemma small_mono: "small N m \<Longrightarrow> N \<le> M \<Longrightarrow> small M m"
  by (simp add: small_def)

lemma small_clear: "small N m \<Longrightarrow> small N (pgwt_triple_map_clear m)"
  using triple_clear_spec [of m] by (auto simp: small_def pgwt_triple_map_clear_def Let_def)

lemma small_slot:
  assumes "small N m" "N \<le> 2 ^ 24"
  obtains h cr m' where "pgwt_triple_map_slot (\<lambda>_. True) m k = Some (Slot h cr, m')"
    and "small (Suc N) m'" and "\<forall>v. small (Suc N) (set_slot h v m')"
proof -
  have ok: "oa_ok pgwt_triple_map_hash m" and n: "ix_n m \<le> N" and c: "ix_cap m \<le> 256 + 4 * N"
    using assms(1) by (simp_all add: small_def)
  from triple_slot_post [OF ok, of "\<lambda>_. True" k] obtain r m' where
    r: "pgwt_triple_map_slot (\<lambda>_. True) m k = Some (r, m')" "slot_post m k r m'" by blast
  have "ix_cap m \<le> 2 ^ 27" "ix_n m < 2 ^ 27" using n c assms(2) by simp_all
  note T = triple_slot_cap [OF r(1) refl this]
  from T(2) obtain h cr where h: "r = Slot h cr" by blast
  with r(2) have p: "oa_ok pgwt_triple_map_hash m'" "unat h < ix_cap m'" "ix_used m' ! unat h"
    "ix_keys m' ! unat h = k" "oa_map m' = (if cr then (oa_map m)(k \<mapsto> 0) else oa_map m)"
    by (simp_all add: slot_post_def)
  have fin: "finite (dom (oa_map m))"
  proof -
    have "k \<in> set (ix_keys m)" if "k \<in> dom (oa_map m)" for k
    proof -
      have "oa_map m k \<noteq> None" using that by blast
      then obtain i where "i < ix_cap m" "ix_keys m ! i = k" unfolding oa_map_None by blast
      then show ?thesis using oa_okD(1) [OF ok] nth_mem by metis
    qed
    then have "dom (oa_map m) \<subseteq> set (ix_keys m)" by blast
    then show ?thesis by (rule finite_subset) simp
  qed
  have "card (insert k (dom (oa_map m))) \<le> Suc (card (dom (oa_map m)))" by (rule card_insert_le_m1) auto
  then have "ix_n m' \<le> Suc (ix_n m)"
    using p(5) fin by (auto simp: oa_n_card [OF p(1)] oa_n_card [OF ok] card_insert_if)
  moreover have "ix_cap m' \<le> 256 + 4 * Suc N" using T(1) n c by auto
  ultimately have "small (Suc N) m'" using p(1) n by (simp add: small_def)
  moreover have "small (Suc N) (set_slot h v m')" for v
    using oa_ok_set_val(1) [OF p(1-4), of v] \<open>small (Suc N) m'\<close> by (simp add: small_def set_slot_def)
  ultimately show thesis using that r(1) h by blast
qed

lemma put_peak_maps [simp]: "small N (seen (put_peak b e c st)) = small N (seen st)"
  "small N (counts (put_peak b e c st)) = small N (counts st)"
  by simp_all

lemma bucket_loop_done:
  assumes "granted env" "small N (seen st)" "small N (counts st)" "N + length bs \<le> 2 ^ 24"
  shows "\<exists>st'. bucket_loop env ev bs st = Some (LoopDone, st') \<and>
    small (N + length bs) (seen st') \<and> small (N + length bs) (counts st')"
  using assms(2-)
proof (induction bs arbitrary: N st)
  case (Cons b bs)
  have g: "seen_ok env = (\<lambda>_. True)" "counts_ok env = (\<lambda>_. True)" using assms(1) by (simp_all add: granted_def)
  have N: "N \<le> 2 ^ 24" "Suc N + length bs \<le> 2 ^ 24" using Cons.prems(3) by simp_all
  obtain h cr m where s: "pgwt_triple_map_slot (\<lambda>_. True) (seen st) (word_of_int b, old_event ev, pid ev) = Some (Slot h cr, m)"
    "small (Suc N) m" "\<forall>v. small (Suc N) (set_slot h v m)"
    by (rule small_slot [OF Cons.prems(1) N(1), of "(word_of_int b, old_event ev, pid ev)"])
  obtain h' cr' c where c: "pgwt_triple_map_slot (\<lambda>_. True) (counts st) (word_of_int b, old_event ev, 0) = Some (Slot h' cr', c)"
    "small (Suc N) c" "\<forall>v. small (Suc N) (set_slot h' v c)"
    by (rule small_slot [OF Cons.prems(2) N(1), of "(word_of_int b, old_event ev, 0)"])
  have "small (Suc N) (counts st)" using Cons.prems(2) by (rule small_mono) simp
  then show ?case
    using Cons.IH [of "Suc N", OF _ _ N(2)] s(1,2) c(1,3) g by (cases cr) (simp_all add: bucket_loop_Cons_put)
qed simp

lemma length_occ_buckets:
  assumes "0 < rq_buckets rq" "rq_buckets rq < 2 ^ 31"
  shows "length (occ_buckets rq ev) \<le> nat (rq_buckets rq)"
  using bucket_hi_le [of "rq_from rq" "conc_bucket_ns rq" "rq_buckets rq" "timestamp_ns ev"]
    bucket_lo_eq [OF assms, of "rq_from rq" "conc_bucket_ns rq" "timestamp_ns ev - duration_ns ev"] assms(1)
  by (auto simp: occ_buckets_def)

lemma entry_loop_done:
  assumes "granted env" "0 < rq_buckets rq" "rq_buckets rq < 2 ^ 31"
    and "small N (seen st)" "small N (counts st)" "N + length evs * nat (rq_buckets rq) \<le> 2 ^ 24"
  shows "\<exists>st' es'. entry_loop env r f rq nqual evs st es = Some (LoopDone, st', es') \<and>
    length es' \<le> length es + length evs"
  using assms(4-)
proof (induction evs arbitrary: N st es)
  case (Cons ev evs)
  let ?n = "length (occ_buckets rq ev)"
  have n: "?n \<le> nat (rq_buckets rq)" by (rule length_occ_buckets [OF assms(2,3)])
  have "N + ?n \<le> 2 ^ 24" "(N + ?n) + length evs * nat (rq_buckets rq) \<le> 2 ^ 24"
    "N + length evs * nat (rq_buckets rq) \<le> 2 ^ 24"
    using n Cons.prems(3) by simp_all
  note le = this
  from bucket_loop_done [OF assms(1) Cons.prems(1,2) le(1), of ev]
  obtain st' where b: "bucket_loop env ev (occ_buckets rq ev) st = Some (LoopDone, st')"
    "small (N + ?n) (seen st')" "small (N + ?n) (counts st')" by blast
  show ?case
  proof (cases "concurrency_qualifies r ev f (rq_from rq) (rq_to rq)")
    case False
    from Cons.IH [OF Cons.prems(1,2) le(3), of es] False show ?thesis
      by (auto simp: entry_loop_Cons)
  next
    case True
    from Cons.IH [OF b(2,3) le(2), of "if length es \<ge> nqual then es else es @ [entry_of ev]"] True b(1)
    show ?thesis by (auto simp: entry_loop_Cons split: if_splits)
  qed
qed simp

lemma win_fill_done:
  assumes "granted env" "small N win" "N + (gend - j) \<le> 2 ^ 24"
  shows "\<exists>j' nd' w. win_fill env es gend wend j nd win = Some (LoopDone, j', nd', w) \<and>
    j \<le> j' \<and> j' \<le> max j gend \<and> small (N + (j' - j)) w"
  using assms(2,3)
proof (induction "gend - j" arbitrary: j nd win N)
  case 0
  then show ?case by (simp add: win_fill.simps [of env es gend wend j])
next
  case (Suc n)
  have j: "j < gend" "N \<le> 2 ^ 24" "Suc N + (gend - Suc j) \<le> 2 ^ 24" "n = gend - Suc j"
    using Suc.hyps(2) Suc.prems(2) by simp_all
  have g: "win_ok env = (\<lambda>_. True)" using assms(1) by (simp add: granted_def)
  show ?case
  proof (cases "be_start (es ! j) \<le> wend")
    case False
    then show ?thesis using Suc.prems(1) by (simp add: win_fill.simps [of env es gend wend j])
  next
    case True
    obtain h cr w where s: "pgwt_triple_map_slot (\<lambda>_. True) win (be_pid (es ! j), 0, 0) = Some (Slot h cr, w)"
      "small (Suc N) w" "\<forall>v. small (Suc N) (set_slot h v w)"
      by (rule small_slot [OF Suc.prems(1) j(2), of "(be_pid (es ! j), 0, 0)"])
    let ?nd = "if ix_vals w ! unat h = 0 then nd + 1 else nd"
    obtain j' nd' w' where "win_fill env es gend wend (Suc j) ?nd (set_slot h (ix_vals w ! unat h + 1) w) =
        Some (LoopDone, j', nd', w')" "Suc j \<le> j'" "j' \<le> max (Suc j) gend" "small (Suc N + (j' - Suc j)) w'"
      using Suc.hyps(1) [OF j(4) s(3) [rule_format] j(3)] by blast
    then show ?thesis
      using j(1) s(1) True g by (auto simp: win_fill.simps [of env es gend wend j] Let_def Suc_diff_Suc)
  qed
qed

lemma win_drop_done:
  assumes "granted env" "small N win" "N + (c - i) \<le> 2 ^ 24"
  shows "\<exists>nd' w. win_drop env es c i nd win = Some (LoopDone, nd', w) \<and> small (N + (c - i)) w"
  using assms(2,3)
proof (induction "c - i" arbitrary: i nd win N)
  case 0
  then show ?case by (simp add: win_drop.simps [of env es c i])
next
  case (Suc n)
  have i: "i < c" "N \<le> 2 ^ 24" "Suc N + (c - Suc i) \<le> 2 ^ 24" "n = c - Suc i"
    using Suc.hyps(2) Suc.prems(2) by simp_all
  have g: "win_ok env = (\<lambda>_. True)" using assms(1) by (simp add: granted_def)
  obtain h cr w where s: "pgwt_triple_map_slot (\<lambda>_. True) win (be_pid (es ! i), 0, 0) = Some (Slot h cr, w)"
    "small (Suc N) w" "\<forall>v. small (Suc N) (set_slot h v w)"
    by (rule small_slot [OF Suc.prems(1) i(2), of "(be_pid (es ! i), 0, 0)"])
  let ?m = "ix_vals w ! unat h - 1"
  obtain nd' w' where "win_drop env es c (Suc i) (if ?m = 0 then nd - 1 else nd) (set_slot h ?m w) =
      Some (LoopDone, nd', w')" "small (Suc N + (c - Suc i)) w'"
    using Suc.hyps(1) [OF i(4) s(3) [rule_format] i(3)] by blast
  moreover have "Suc N + (c - Suc i) = N + (c - i)" using i(1) by simp
  ultimately show ?case
    using i(1) s(1) g by (simp add: win_drop.simps [of env es c i] Let_def del: add_Suc)
qed

lemma anchor_loop_done:
  assumes "granted env" "small N (bs_win st)" "N + (gend - i) + (gend - j) \<le> 2 ^ 24"
  shows "\<exists>st'. anchor_loop env rq es gend i j nd st = Some (LoopDone, st') \<and>
    small (N + (gend - i) + (gend - j)) (bs_win st')"
  using assms(2,3)
proof (induction "gend - i" arbitrary: i j nd st N rule: less_induct)
  case less
  show ?case
  proof (cases "i < gend")
    case False
    then show ?thesis using less.prems small_mono by (fastforce simp: anchor_loop.simps [of env rq es gend i])
  next
    case True
    let ?wend = "be_start (es ! i) + rq_burst_window rq"
    have "N + (gend - j) \<le> 2 ^ 24" using less.prems(2) by simp
    from win_fill_done [OF assms(1) less.prems(1) this, of es ?wend nd]
    obtain j' nd' w where f: "win_fill env es gend ?wend j nd (bs_win st) = Some (LoopDone, j', nd', w)"
      "j \<le> j'" "j' \<le> max j gend" "small (N + (j' - j)) w" by blast
    define c where "c = (if nd' \<ge> rq_threshold rq then scan_while (\<lambda>e. be_start e \<le> ?wend) es gend (i + 1) else i + 1)"
    define st1 where "st1 = (if nd' \<ge> rq_threshold rq then st\<lparr>bs_win := w, bs_total := bs_total st + 1,
        bs_slots := note_burst rq (new_burst rq es i j' nd') (bs_slots st)\<rparr> else st\<lparr>bs_win := w\<rparr>)"
    have c: "Suc i \<le> c" "c \<le> gend"
      using True scan_while_ge [of "Suc i"] scan_while_le [of "Suc i" gend] by (auto simp: c_def)
    have st1: "bs_win st1 = w" by (simp add: st1_def)
    have "N + (j' - j) + (c - i) \<le> 2 ^ 24" using f(2,3) c less.prems(2) by linarith
    from win_drop_done [OF assms(1) f(4) this, of es nd']
    obtain nd2 w2 where d: "win_drop env es c i nd' w = Some (LoopDone, nd2, w2)"
      "small (N + (j' - j) + (c - i)) w2" by blast
    have eq: "N + (j' - j) + (c - i) + (gend - c) + (gend - j') = N + (gend - i) + (gend - j)"
      using f(2,3) c by linarith
    have "anchor_loop env rq es gend i j nd st = anchor_loop env rq es gend c j' nd2 (st1\<lparr>bs_win := w2\<rparr>)"
      using True f(1) d(1) st1
      by (cases "rq_threshold rq \<le> nd'")
        (simp_all add: anchor_loop.simps [of env rq es gend i] Let_def c_def st1_def)
    then show ?thesis
      using less.hyps [of c "N + (j' - j) + (c - i)" "st1\<lparr>bs_win := w2\<rparr>" j' nd2] c True d(2) eq less.prems(2) by simp
  qed
qed

lemma group_loop_done:
  assumes "granted env" "small N (bs_win st)" "N + 2 * (length es - g) \<le> 2 ^ 24"
  shows "\<exists>st'. group_loop env rq es g st = Some (LoopDone, st')"
  using assms(2,3)
proof (induction "length es - g" arbitrary: g st N rule: less_induct)
  case less
  show ?case
  proof (cases "g < length es")
    case False
    then show ?thesis by (simp add: group_loop.simps [of env rq es g])
  next
    case True
    let ?e = "scan_while (\<lambda>e. be_event e = be_event (es ! g)) es (length es) g"
    have e: "g < ?e" "?e \<le> length es"
      using group_end_progress [OF True] True by (simp_all add: scan_while_le)
    have "N + (?e - g) + (?e - g) \<le> 2 ^ 24" using less.prems(2) e by linarith
    from anchor_loop_done [OF assms(1) _ this, of "st\<lparr>bs_win := pgwt_triple_map_clear (bs_win st)\<rparr>" rq es 0]
    obtain st' where a: "anchor_loop env rq es ?e g g 0 (st\<lparr>bs_win := pgwt_triple_map_clear (bs_win st)\<rparr>) =
        Some (LoopDone, st')" "small (N + (?e - g) + (?e - g)) (bs_win st')"
      using small_clear [OF less.prems(1)] by auto
    have "N + (?e - g) + (?e - g) + 2 * (length es - ?e) \<le> 2 ^ 24" using less.prems(2) e by linarith
    from less.hyps [OF diff_less_mono2 [OF e(1) True] a(2) this] a(1) True show ?thesis
      by (auto simp: group_loop.simps [of env rq es g] Let_def)
  qed
qed

lemma compute_succeeds:
  assumes "granted env" "rq_buckets rq < 2 ^ 31" "length evs * nat (rq_buckets rq) \<le> 2 ^ 23"
  shows "\<exists>out. pgwt_compute_concurrency env r f rq evs = Some (Concluded out) \<and> \<not> cr_failed out"
proof (cases "evs = [] \<or> rq_from rq \<ge> rq_to rq \<or> rq_buckets rq \<le> 0")
  case True
  then show ?thesis by (auto simp: pgwt_compute_concurrency_def zero_conc_def)
next
  case False
  then have nb: "0 < rq_buckets rq" by simp
  let ?n = "length (qualifying r f rq evs)"
  have "0 + length evs * nat (rq_buckets rq) \<le> 2 ^ 24" using assms(3) by simp
  from entry_loop_done [OF assms(1) nb assms(2) _ _ this, of "fresh_peaks rq" r f ?n "[]"]
  obtain st es where e: "entry_loop env r f rq ?n evs (fresh_peaks rq) [] = Some (LoopDone, st, es)"
    "length es \<le> length evs" by (auto simp: fresh_peaks_def small_init)
  have "length evs * 1 \<le> length evs * nat (rq_buckets rq)" using nb by (intro mult_le_mono2) simp
  then have "length es \<le> 2 ^ 23" using e(2) assms(3) by linarith
  then have "0 + 2 * (length (sort_key burst_entry_key es) - 0) \<le> 2 ^ 24" by simp
  from group_loop_done [OF assms(1) _ this] small_init
  obtain st' where "group_loop env rq (sort_key burst_entry_key es) 0
      \<lparr>bs_win = pgwt_triple_map_init, bs_total = 0, bs_slots = replicate (nat (rq_buckets rq)) None\<rparr> =
      Some (LoopDone, st')" by force
  then show ?thesis
    using False e(1) assms(1)
    by (simp add: pgwt_compute_concurrency_def phase2_def compact_bursts_def granted_def with_peaks_def
        zero_conc_def Let_def)
qed

text \<open>Evaluation on one request, for the witnesses.\<close>

definition sample_env :: conc_env where
  "sample_env = \<lparr>peaks_ok = True, entries_ok = \<lambda>_. True, seen_ok = \<lambda>_. True, counts_ok = \<lambda>_. True,
     buckets_ok = True, win_ok = \<lambda>_. True, bursts_ok = \<lambda>_. True\<rparr>"

definition sample_req :: conc_req where
  "sample_req = \<lparr>rq_from = 1000, rq_to = 1100, rq_buckets = 1, rq_burst_window = 10, rq_threshold = 1,
     rq_event_name = \<lambda>_. ''IO:DataFileRead''\<rparr>"

definition no_filter :: pgwt_filter where
  "no_filter = \<lparr>f_class_name = [], f_event_id = 0, f_has_event_filter = False, f_pid = 0, f_query_id = 0\<rparr>"

definition sample_wait :: pgwt_trace_event where
  "sample_wait = \<lparr>timestamp_ns = 1050, pid = 7, old_event = 0x0A000001, new_event = 0, flags = 0,
     duration_ns = 40, query_id = 0, cpu_ns = 0\<rparr>"


lemma sample_granted: "granted sample_env"
  by (simp add: granted_def sample_env_def)

section \<open>Properties\<close>

text \<open>
  C36: the concurrency peaks are exact: with memory granted and at most 2 to the 23rd records times
  buckets, the computation ends without failure, and for every bucket the reported number is the
  largest number of distinct sessions waiting on one event during the bucket, the reported event is
  one that reaches it, and no event is named where nobody waits. The bucket quotient of every
  qualifying record must fit an int (see the lemma after it).
\<close>

theorem concurrency_peak_exact:
  assumes "granted env" and "evs \<noteq> []" and "rq_from rq < rq_to rq"
    and "0 < rq_buckets rq" and "rq_buckets rq < 2 ^ 31"
    and "length evs * nat (rq_buckets rq) \<le> 2 ^ 23"
    and "\<forall>ev\<in>set (qualifying r f rq evs). quotient_fits rq ev"
  shows "\<exists>out. pgwt_compute_concurrency env r f rq evs = Some (Concluded out) \<and> \<not> cr_failed out \<and>
    length (cr_peak_sessions out) = nat (rq_buckets rq) \<and>
    (\<forall>b. 0 \<le> b \<and> b < rq_buckets rq \<longrightarrow>
       (\<forall>e. int (card (waiting r f rq evs b e)) \<le> cr_peak_sessions out ! nat b) \<and>
       int (card (waiting r f rq evs b (cr_peak_event out ! nat b))) = cr_peak_sessions out ! nat b \<and>
       (cr_peak_sessions out ! nat b = 0 \<longrightarrow> cr_peak_event out ! nat b = 0))"
proof -
  obtain out where out: "pgwt_compute_concurrency env r f rq evs = Some (Concluded out)" "\<not> cr_failed out"
    using compute_succeeds [OF assms(1,5,6)] by blast
  obtain st where st: "peaks_inv (rq_buckets rq) (triples_of rq (qualifying r f rq evs)) st"
    "phase2 env rq (with_peaks rq st) (map entry_of (qualifying r f rq evs)) = Some (Concluded out)"
    by (rule compute_cases [OF assms(2-5) out])
  have same: "cr_peak_sessions out = peak_sessions st" "cr_peak_event out = peak_event st"
    using phase2_peaks [OF st(2)] by (simp_all add: with_peaks_def)
  have "sessions (triples_of rq (qualifying r f rq evs)) b e = waiting r f rq evs b e"
    if "0 \<le> b" "b < rq_buckets rq" for b e
    using sessions_waiting [OF assms(4,5) that assms(7)] .
  then show ?thesis
    using out peaks_invD(6,8,9) [OF st(1)] by (intro exI [of _ out]) (simp add: same is_peak_def)
qed

theorem concurrency_peak_exact_witness:
  "\<exists>out. pgwt_compute_concurrency sample_env idle_state_init no_filter sample_req [sample_wait] = Some (Concluded out) \<and>
    \<not> cr_failed out \<and> length (cr_peak_sessions out) = nat (rq_buckets sample_req) \<and>
    (\<forall>b. 0 \<le> b \<and> b < rq_buckets sample_req \<longrightarrow>
       (\<forall>e. int (card (waiting idle_state_init no_filter sample_req [sample_wait] b e)) \<le> cr_peak_sessions out ! nat b) \<and>
       int (card (waiting idle_state_init no_filter sample_req [sample_wait] b (cr_peak_event out ! nat b))) =
         cr_peak_sessions out ! nat b \<and>
       (cr_peak_sessions out ! nat b = 0 \<longrightarrow> cr_peak_event out ! nat b = 0))"
  by (rule concurrency_peak_exact [OF sample_granted])
    (auto simp: sample_req_def quotient_fits_def conc_bucket_ns_def sample_wait_def)

text \<open>
  The conversion of the upper bucket quotient to int wraps: a wait that covers the whole window but ends
  more than 2 to the 31st buckets after its start gets an empty bucket range, so it is counted nowhere.
\<close>

lemma long_wait_lost:
  "occ_buckets (sample_req\<lparr>rq_from := 1000, rq_to := 1010, rq_buckets := 10\<rparr>)
     (sample_wait\<lparr>timestamp_ns := 2147484649, duration_ns := 2147484000\<rparr>) = []"
  by (simp add: occ_buckets_def bucket_hi_def bucket_lo_def conc_bucket_ns_def to_int32_def sample_req_def
      sample_wait_def Let_def)

text \<open>
  C37: the reported bursts are those of the reference pass: the declared total counts every onset, each
  reported burst is an onset, every bucket with an onset reports exactly one burst, no onset of that
  bucket has more sessions, and they are listed by size.
\<close>

theorem concurrency_bursts_exact:
  assumes "granted env" and "evs \<noteq> []" and "rq_from rq < rq_to rq"
    and "0 < rq_buckets rq" and "rq_buckets rq < 2 ^ 31"
    and "length evs * nat (rq_buckets rq) \<le> 2 ^ 23"
    and "no_wrap rq (map entry_of (qualifying r f rq evs))"
  shows "\<exists>out. pgwt_compute_concurrency env r f rq evs = Some (Concluded out) \<and> \<not> cr_failed out \<and>
    (let B = bursts_of rq (map entry_of (qualifying r f rq evs)) in
       cr_bursts_total out = int (length B) \<and> cr_num_bursts out = int (length (cr_bursts out)) \<and>
       set (cr_bursts out) \<subseteq> set B \<and> distinct (map (bu_bucket rq) (cr_bursts out)) \<and>
       (\<forall>x\<in>set B. \<exists>y\<in>set (cr_bursts out). bu_bucket rq y = bu_bucket rq x \<and> bu_sessions x \<le> bu_sessions y) \<and>
       sorted (map burst_desc_key (cr_bursts out)))"
proof -
  obtain out where out: "pgwt_compute_concurrency env r f rq evs = Some (Concluded out)" "\<not> cr_failed out"
    using compute_succeeds [OF assms(1,5,6)] by blast
  obtain st where st: "phase2 env rq (with_peaks rq st) (map entry_of (qualifying r f rq evs)) = Some (Concluded out)"
    by (rule compute_cases [OF assms(2-5) out])
  have "\<not> cr_failed (with_peaks rq st)" by (simp add: with_peaks_def zero_conc_def)
  obtain slots where s: "best_slots rq (set (bursts_of rq (map entry_of (qualifying r f rq evs)))) slots"
    "cr_bursts out = sort_key burst_desc_key (filled slots)" "cr_num_bursts out = int (length (filled slots))"
    "cr_bursts_total out = int (length (bursts_of rq (map entry_of (qualifying r f rq evs))))"
    by (rule phase2_spec [OF assms(4,5,7) \<open>\<not> cr_failed (with_peaks rq st)\<close> st out(2)])
  have "distinct (map (bu_bucket rq) (sort_key burst_desc_key (filled slots)))"
    using best_slots_distinct [OF s(1)] by (simp add: distinct_map)
  moreover have "\<exists>y\<in>set (filled slots). bu_bucket rq y = bu_bucket rq x \<and> bu_sessions x \<le> bu_sessions y"
    if "x \<in> set (bursts_of rq (map entry_of (qualifying r f rq evs)))" for x
    using filled_covers [OF assms(4,5) s(1) that] filled_spec [OF s(1)] that by metis
  ultimately show ?thesis using out s(2-4) filled_spec [OF s(1)] by (auto simp: Let_def)
qed

theorem concurrency_bursts_exact_witness:
  "\<exists>out. pgwt_compute_concurrency sample_env idle_state_init no_filter sample_req [sample_wait] = Some (Concluded out) \<and>
    \<not> cr_failed out \<and>
    (let B = bursts_of sample_req (map entry_of (qualifying idle_state_init no_filter sample_req [sample_wait])) in
       cr_bursts_total out = int (length B) \<and> cr_num_bursts out = int (length (cr_bursts out)) \<and>
       set (cr_bursts out) \<subseteq> set B \<and> distinct (map (bu_bucket sample_req) (cr_bursts out)) \<and>
       (\<forall>x\<in>set B. \<exists>y\<in>set (cr_bursts out). bu_bucket sample_req y = bu_bucket sample_req x \<and> bu_sessions x \<le> bu_sessions y) \<and>
       sorted (map burst_desc_key (cr_bursts out)))"
  by (rule concurrency_bursts_exact [OF sample_granted])
    (auto simp: sample_req_def no_wrap_def entry_of_def sample_wait_def)

end
