(* ===== verification/Interval_Index.thy ===== *)
theory Interval_Index
  imports Concurrency
begin

text \<open>
  The wait-interval index of src/src/interval_index.c: blocks of decoded records are fed in order, each
  wait is stored once with its true start, chunks carry prefilter bounds, and a query selects the rows
  that overlap a window and hands them to pgwt_compute_concurrency. The lemmas show that a well-formed
  feed is accepted, that the prefilter, the binary search and the scan limit never lose a row, and that
  a query gives exactly what the raw computation gives on every record fed. Row and chunk counts are
  naturals: they agree with the C int counts up to INT_MAX.
\<close>

section \<open>The index\<close>

datatype pgwt_interval_index_refusal =
    IX_OK | REFUSE_NULL | REFUSE_VERSION | REFUSE_UNSEALED | REFUSE_BUILD_FAILED | REFUSE_EMPTY
  | REFUSE_RANGE | REFUSE_BAD_WINDOW | REFUSE_BAD_BUCKETS | REFUSE_GAP | REFUSE_ALLOC | REFUSE_FILTERED
  | REFUSE_NO_INTERVALS | REFUSE_COMPUTE

fun pgwt_interval_index_refusal_str :: "pgwt_interval_index_refusal \<Rightarrow> string" where
  "pgwt_interval_index_refusal_str IX_OK = ''ok''"
| "pgwt_interval_index_refusal_str REFUSE_NULL = ''null-argument''"
| "pgwt_interval_index_refusal_str REFUSE_VERSION = ''version-mismatch''"
| "pgwt_interval_index_refusal_str REFUSE_UNSEALED = ''unsealed''"
| "pgwt_interval_index_refusal_str REFUSE_BUILD_FAILED = ''build-failed''"
| "pgwt_interval_index_refusal_str REFUSE_EMPTY = ''empty-index''"
| "pgwt_interval_index_refusal_str REFUSE_RANGE = ''window-outside-coverage''"
| "pgwt_interval_index_refusal_str REFUSE_BAD_WINDOW = ''bad-window''"
| "pgwt_interval_index_refusal_str REFUSE_BAD_BUCKETS = ''bad-bucket-count''"
| "pgwt_interval_index_refusal_str REFUSE_GAP = ''block-gap-or-reorder''"
| "pgwt_interval_index_refusal_str REFUSE_ALLOC = ''allocation-failure''"
| "pgwt_interval_index_refusal_str REFUSE_FILTERED = ''filtered-request''"
| "pgwt_interval_index_refusal_str REFUSE_NO_INTERVALS = ''no-intervals-selected''"
| "pgwt_interval_index_refusal_str REFUSE_COMPUTE = ''compute-failed''"

record pgwt_wait_interval =
  iv_start :: u64
  iv_end :: u64
  iv_pid :: u32
  iv_event :: u32

record pgwt_interval_index_chunk =
  ch_block_idx :: int
  ch_first_row :: nat
  ch_n_rows :: nat
  ch_block_first :: u64
  ch_block_last :: u64
  ch_min_end :: u64
  ch_max_end :: u64
  ch_min_start :: u64
  ch_max_duration :: u64

record pgwt_interval_index =
  ix_version :: u32
  ix_sealed :: bool
  ix_failed :: bool
  ix_build_refusal :: pgwt_interval_index_refusal
  ix_rows :: "pgwt_wait_interval list"
  ix_cap_rows :: nat
  ix_chunks :: "pgwt_interval_index_chunk list"
  ix_cap_chunks :: nat
  ix_cover_from :: u64
  ix_cover_to :: u64
  ix_next_block :: int
  ix_last_event :: u64
  ix_have_last :: bool
  ix_n_intervals :: int
  ix_n_cross_block :: int
  ix_n_start_before_cover :: int
  ix_n_fed :: int
  ix_n_skipped :: int

definition PGWT_INTERVAL_INDEX_VERSION :: u32 where [simp]: "PGWT_INTERVAL_INDEX_VERSION = 2"

definition pgwt_interval_index_init :: pgwt_interval_index where
  "pgwt_interval_index_init =
     \<lparr>ix_version = PGWT_INTERVAL_INDEX_VERSION, ix_sealed = False, ix_failed = False, ix_build_refusal = IX_OK,
      ix_rows = [], ix_cap_rows = 0, ix_chunks = [], ix_cap_chunks = 0, ix_cover_from = 0, ix_cover_to = 0,
      ix_next_block = 0, ix_last_event = 0, ix_have_last = False, ix_n_intervals = 0, ix_n_cross_block = 0,
      ix_n_start_before_cover = 0, ix_n_fed = 0, ix_n_skipped = 0\<rparr>"

text \<open>Whether growing the row array, the chunk array, and the query's event array is served.\<close>

record index_env =
  rows_ok :: "nat \<Rightarrow> bool"
  chunks_ok :: "nat \<Rightarrow> bool"
  query_ok :: "nat \<Rightarrow> bool"

section \<open>Building\<close>

definition fail_build :: "pgwt_interval_index_refusal \<Rightarrow> pgwt_interval_index \<Rightarrow> int \<times> pgwt_interval_index" where
  "fail_build why idx =
     (-1, idx\<lparr>ix_failed := True,
              ix_build_refusal := (if ix_build_refusal idx = IX_OK then why else ix_build_refusal idx),
              ix_sealed := False\<rparr>)"

definition pgwt_interval_index_stores :: "idle_state \<Rightarrow> pgwt_filter \<Rightarrow> pgwt_trace_event \<Rightarrow> bool" where
  "pgwt_interval_index_stores r f ev =
     (if \<not> pgwt_filter_matches f ev \<or> pgwt_is_idle_event r (old_event ev) then False
      else if old_event ev = 0 then False
      else True)"

function grow_cap :: "nat \<Rightarrow> nat \<Rightarrow> nat" where
  "grow_cap nc need = (if 0 < nc \<and> nc < need then grow_cap (nc * 2) need else nc)"
  by pat_completeness auto
termination by (relation "measure (\<lambda>(nc, need). need - nc)") auto

declare grow_cap.simps [simp del]

definition rows_reserve :: "index_env \<Rightarrow> pgwt_interval_index \<Rightarrow> nat \<Rightarrow> pgwt_interval_index option" where
  "rows_reserve env idx need =
     (if length (ix_rows idx) + need \<le> ix_cap_rows idx then Some idx
      else let nc = grow_cap (if ix_cap_rows idx \<noteq> 0 then ix_cap_rows idx * 2 else 256) (length (ix_rows idx) + need)
           in if \<not> rows_ok env nc then None else Some (idx\<lparr>ix_cap_rows := nc\<rparr>))"

definition chunks_reserve :: "index_env \<Rightarrow> pgwt_interval_index \<Rightarrow> pgwt_interval_index option" where
  "chunks_reserve env idx =
     (if length (ix_chunks idx) + 1 \<le> ix_cap_chunks idx then Some idx
      else let nc = (if ix_cap_chunks idx \<noteq> 0 then ix_cap_chunks idx * 2 else 16)
           in if \<not> chunks_ok env nc then None else Some (idx\<lparr>ix_cap_chunks := nc\<rparr>))"

text \<open>The four bounds (smallest end, largest end, smallest start, largest duration) of a list of rows.\<close>

type_synonym bounds = "u64 \<times> u64 \<times> u64 \<times> u64"

fun bounds_step :: "pgwt_wait_interval \<Rightarrow> bounds \<Rightarrow> bounds" where
  "bounds_step iv (mine, maxe, mins, maxd) =
     (let s = iv_start iv; e = iv_end iv
      in (if e < mine then e else mine, if e > maxe then e else maxe, if s < mins then s else mins,
          if e - s > maxd then e - s else maxd))"

definition chunk_bounds_from_rows :: "pgwt_wait_interval list \<Rightarrow> nat \<Rightarrow> nat \<Rightarrow> bounds" where
  "chunk_bounds_from_rows rows first_row n_rows =
     fold bounds_step (seg first_row (first_row + n_rows) rows) (UINT64_MAX, 0, UINT64_MAX, 0)"

definition row_of :: "pgwt_trace_event \<Rightarrow> pgwt_wait_interval" where
  "row_of ev = \<lparr>iv_start = timestamp_ns ev - duration_ns ev, iv_end = timestamp_ns ev, iv_pid = pid ev,
     iv_event = old_event ev\<rparr>"

definition unfiltered_filter :: pgwt_filter where
  "unfiltered_filter = \<lparr>f_class_name = [], f_event_id = 0, f_has_event_filter = False, f_pid = 0, f_query_id = 0\<rparr>"

text \<open>
  The record loop; the sum's left side is the refusal with the index as it was left. The running
  last timestamp is local until the block is complete.
\<close>

fun feed_loop :: "index_env \<Rightarrow> idle_state \<Rightarrow> u64 \<Rightarrow> u64 \<Rightarrow> pgwt_trace_event list \<Rightarrow> u64 \<Rightarrow> bool \<Rightarrow> pgwt_interval_index
    \<Rightarrow> (pgwt_interval_index_refusal \<times> pgwt_interval_index) + (u64 \<times> bool \<times> pgwt_interval_index)" where
  "feed_loop env r bf bl [] last_ts have_last idx = Inr (last_ts, have_last, idx)"
| "feed_loop env r bf bl (ev # evs) last_ts have_last idx =
     (if timestamp_ns ev < bf \<or> timestamp_ns ev > bl then Inl (REFUSE_GAP, idx)
      else if have_last \<and> timestamp_ns ev < last_ts then Inl (REFUSE_GAP, idx)
      else
        let idx = idx\<lparr>ix_n_fed := ix_n_fed idx + 1\<rparr>
        in if \<not> pgwt_interval_index_stores r unfiltered_filter ev
           then feed_loop env r bf bl evs (timestamp_ns ev) True (idx\<lparr>ix_n_skipped := ix_n_skipped idx + 1\<rparr>)
           else case rows_reserve env idx 1 of
               None \<Rightarrow> Inl (REFUSE_ALLOC, idx)
             | Some idx \<Rightarrow>
                 feed_loop env r bf bl evs (timestamp_ns ev) True
                   (idx\<lparr>ix_rows := ix_rows idx @ [row_of ev], ix_n_intervals := ix_n_intervals idx + 1,
                        ix_n_cross_block := (if ix_chunks idx \<noteq> [] \<and> iv_start (row_of ev) < bf
                                             then ix_n_cross_block idx + 1 else ix_n_cross_block idx)\<rparr>))"

definition finish_block :: "int \<Rightarrow> u64 \<Rightarrow> u64 \<Rightarrow> nat \<Rightarrow> u64 \<Rightarrow> bool \<Rightarrow> pgwt_interval_index \<Rightarrow> pgwt_interval_index" where
  "finish_block block_idx bf bl first_row last_ts have_last idx =
     (let n = length (ix_rows idx) - first_row;
          (mine, maxe, mins, maxd) = chunk_bounds_from_rows (ix_rows idx) first_row n;
          ch = \<lparr>ch_block_idx = block_idx, ch_first_row = first_row, ch_n_rows = n, ch_block_first = bf,
                ch_block_last = bl, ch_min_end = mine, ch_max_end = maxe, ch_min_start = mins,
                ch_max_duration = maxd\<rparr>
      in idx\<lparr>ix_last_event := last_ts, ix_have_last := have_last,
             ix_cover_from := (if ix_chunks idx = [] then bf else ix_cover_from idx), ix_cover_to := bl,
             ix_chunks := ix_chunks idx @ [ch], ix_next_block := block_idx + 1, ix_sealed := False\<rparr>)"

text \<open>\<open>None\<close> for the records is a null pointer with a positive count, or a negative count.\<close>

definition pgwt_interval_index_add_block ::
  "index_env \<Rightarrow> idle_state \<Rightarrow> pgwt_interval_index \<Rightarrow> int \<Rightarrow> u64 \<Rightarrow> u64 \<Rightarrow> pgwt_trace_event list option
     \<Rightarrow> int \<times> pgwt_interval_index" where
  "pgwt_interval_index_add_block env r idx block_idx bf bl events =
     (if ix_version idx \<noteq> PGWT_INTERVAL_INDEX_VERSION then fail_build REFUSE_VERSION idx
      else if ix_failed idx then (-1, idx)
      else case events of
          None \<Rightarrow> fail_build REFUSE_NULL idx
        | Some evs \<Rightarrow>
            if block_idx \<noteq> ix_next_block idx then fail_build REFUSE_GAP idx
            else if bf > bl then fail_build REFUSE_GAP idx
            else if ix_chunks idx \<noteq> [] \<and> bf < ch_block_last (last (ix_chunks idx)) then fail_build REFUSE_GAP idx
            else case chunks_reserve env idx of
                None \<Rightarrow> fail_build REFUSE_ALLOC idx
              | Some idx \<Rightarrow>
                  (case feed_loop env r bf bl evs (ix_last_event idx) (ix_have_last idx) idx of
                     Inl (why, idx) \<Rightarrow> fail_build why idx
                   | Inr (last_ts, have_last, idx') \<Rightarrow>
                       (0, finish_block block_idx bf bl (length (ix_rows idx)) last_ts have_last idx')))"

definition ends_sorted :: "pgwt_wait_interval list \<Rightarrow> bool" where
  "ends_sorted rows = (\<forall>i\<in>set [1..<length rows]. \<not> iv_end (rows ! i) < iv_end (rows ! (i - 1)))"

definition chunk_sound :: "pgwt_wait_interval list \<Rightarrow> pgwt_interval_index_chunk \<Rightarrow> bool" where
  "chunk_sound rows ch \<longleftrightarrow>
     \<not> ch_first_row ch + ch_n_rows ch > length rows \<and>
     (ch_min_end ch, ch_max_end ch, ch_min_start ch, ch_max_duration ch) =
       chunk_bounds_from_rows rows (ch_first_row ch) (ch_n_rows ch)"

definition pgwt_interval_index_seal :: "pgwt_interval_index \<Rightarrow> int \<times> pgwt_interval_index" where
  "pgwt_interval_index_seal idx =
     (if ix_version idx \<noteq> PGWT_INTERVAL_INDEX_VERSION then fail_build REFUSE_VERSION idx
      else if ix_failed idx then (-1, idx)
      else if ix_chunks idx = [] then (0, idx\<lparr>ix_sealed := True\<rparr>)
      else if \<not> ends_sorted (ix_rows idx) then fail_build REFUSE_GAP idx
      else
        let idx = idx\<lparr>ix_n_start_before_cover :=
                        int (length (filter (\<lambda>iv. iv_start iv < ix_cover_from idx) (ix_rows idx)))\<rparr>
        in if \<not> list_all (chunk_sound (ix_rows idx)) (ix_chunks idx) then fail_build REFUSE_GAP idx
           else (0, idx\<lparr>ix_sealed := True\<rparr>))"

section \<open>Querying\<close>

definition is_unfiltered :: "pgwt_filter \<Rightarrow> bool" where
  "is_unfiltered f \<longleftrightarrow> f_class_name f = [] \<and> \<not> f_has_event_filter f \<and> f_pid f = 0 \<and> f_query_id f = 0"

function lower_bound_end :: "pgwt_wait_interval list \<Rightarrow> nat \<Rightarrow> nat \<Rightarrow> u64 \<Rightarrow> nat" where
  "lower_bound_end rows lo hi from_ns =
     (if lo < hi
      then let mid = lo + (hi - lo) div 2
           in if iv_end (rows ! mid) < from_ns then lower_bound_end rows (mid + 1) hi from_ns
              else lower_bound_end rows lo mid from_ns
      else lo)"
  by pat_completeness auto
termination
proof (relation "measure (\<lambda>(rows, lo, hi, from_ns). hi - lo)", goal_cases)
  case (2 rows lo hi from_ns x)
  then show ?case by simp
next
  case (3 rows lo hi from_ns x)
  then have "(hi - lo) div 2 < hi - lo" by simp
  then show ?case using 3 by simp
qed simp

declare lower_bound_end.simps [simp del]

record pgwt_interval_index_query_result =
  qr_result :: pgwt_concurrency_result
  qr_have_result :: bool
  qr_refused :: pgwt_interval_index_refusal
  qr_chunks_total :: int
  qr_chunks_scanned :: int
  qr_chunks_overlap_rescued :: int
  qr_chunks_scan_limited :: int
  qr_rows_examined :: int
  qr_intervals_used :: int
  qr_excluded_end_before_from :: int
  qr_clipped_open_past_to :: int
  qr_excluded_start_past_to :: int
  qr_bytes_materialised :: int

definition zero_query :: pgwt_interval_index_query_result where
  "zero_query = \<lparr>qr_result = zero_conc, qr_have_result = False, qr_refused = IX_OK, qr_chunks_total = 0,
     qr_chunks_scanned = 0, qr_chunks_overlap_rescued = 0, qr_chunks_scan_limited = 0, qr_rows_examined = 0,
     qr_intervals_used = 0, qr_excluded_end_before_from = 0, qr_clipped_open_past_to = 0,
     qr_excluded_start_past_to = 0, qr_bytes_materialised = 0\<rparr>"

definition materialise :: "pgwt_wait_interval \<Rightarrow> pgwt_trace_event" where
  "materialise iv = \<lparr>timestamp_ns = iv_end iv, pid = iv_pid iv, old_event = iv_event iv, new_event = 0, flags = 0,
     duration_ns = iv_end iv - iv_start iv, query_id = 0, cpu_ns = PGWT_CPU_NS_UNKNOWN\<rparr>"

text \<open>
  The walk; the counting pass uses the length and the counters, the filling pass the records. Rows of
  one chunk from the lower bound on, stopping at the scan limit.
\<close>

fun scan_rows :: "u64 \<Rightarrow> u64 \<Rightarrow> pgwt_wait_interval list \<Rightarrow> pgwt_interval_index_query_result
    \<Rightarrow> pgwt_trace_event list \<times> pgwt_interval_index_query_result" where
  "scan_rows to_ns limit [] q = ([], q)"
| "scan_rows to_ns limit (iv # ivs) q =
     (if iv_end iv > limit then ([], q\<lparr>qr_chunks_scan_limited := qr_chunks_scan_limited q + 1\<rparr>)
      else if iv_start iv > to_ns
      then scan_rows to_ns limit ivs (q\<lparr>qr_excluded_start_past_to := qr_excluded_start_past_to q + 1\<rparr>)
      else
        let q = q\<lparr>qr_rows_examined := qr_rows_examined q + 1,
                  qr_clipped_open_past_to := (if iv_end iv > to_ns then qr_clipped_open_past_to q + 1
                                              else qr_clipped_open_past_to q)\<rparr>;
            (es, q) = scan_rows to_ns limit ivs q
        in (materialise iv # es, q))"

definition scan_limit :: "u64 \<Rightarrow> pgwt_interval_index_chunk \<Rightarrow> u64" where
  "scan_limit to_ns ch =
     (if ch_max_duration ch > UINT64_MAX - to_ns then UINT64_MAX else to_ns + ch_max_duration ch)"

definition chunk_skipped :: "u64 \<Rightarrow> u64 \<Rightarrow> pgwt_interval_index_chunk \<Rightarrow> bool" where
  "chunk_skipped from_ns to_ns ch \<longleftrightarrow> ch_n_rows ch = 0 \<or> ch_max_end ch < from_ns \<or> ch_min_start ch > to_ns"

fun select_walk :: "pgwt_wait_interval list \<Rightarrow> u64 \<Rightarrow> u64 \<Rightarrow> pgwt_interval_index_chunk list
    \<Rightarrow> pgwt_interval_index_query_result \<Rightarrow> pgwt_trace_event list \<times> pgwt_interval_index_query_result" where
  "select_walk rows from_ns to_ns [] q = ([], q)"
| "select_walk rows from_ns to_ns (ch # chs) q =
     (if chunk_skipped from_ns to_ns ch then select_walk rows from_ns to_ns chs q
      else
        let stop = ch_first_row ch + ch_n_rows ch;
            lb = lower_bound_end rows (ch_first_row ch) stop from_ns;
            q = q\<lparr>qr_chunks_scanned := qr_chunks_scanned q + 1,
                  qr_chunks_overlap_rescued := (if ch_min_end ch > to_ns then qr_chunks_overlap_rescued q + 1
                                                else qr_chunks_overlap_rescued q),
                  qr_excluded_end_before_from := qr_excluded_end_before_from q + (int lb - int (ch_first_row ch))\<rparr>;
            (es, q) = scan_rows to_ns (scan_limit to_ns ch) (seg lb stop rows) q;
            (es', q) = select_walk rows from_ns to_ns chs q
        in (es @ es', q))"

definition query_refuse :: "pgwt_interval_index_refusal \<Rightarrow> int \<times> pgwt_interval_index_query_result" where
  "query_refuse why = (-1, zero_query\<lparr>qr_refused := why\<rparr>)"

text \<open>What a query does: it answers with a return code and a result, or its computation is undefined.\<close>

datatype query_outcome = Answered "int \<times> pgwt_interval_index_query_result" | QueryUndefined

definition query_compute ::
  "index_env \<Rightarrow> conc_env \<Rightarrow> idle_state \<Rightarrow> pgwt_interval_index \<Rightarrow> pgwt_filter \<Rightarrow> conc_req \<Rightarrow> query_outcome option" where
  "query_compute env cenv r idx f rq =
     (let (sel, q) = select_walk (ix_rows idx) (rq_from rq) (rq_to rq) (ix_chunks idx)
                       (zero_query\<lparr>qr_chunks_total := int (length (ix_chunks idx))\<rparr>);
          nsel = length sel
      in if nsel = 0 then Some (Answered (query_refuse REFUSE_NO_INTERVALS))
         else if \<not> query_ok env nsel then Some (Answered (query_refuse REFUSE_ALLOC))
         else
           let arr = fst (select_walk (ix_rows idx) (rq_from rq) (rq_to rq) (ix_chunks idx) zero_query)
           in if length arr \<noteq> nsel then Some (Answered (query_refuse REFUSE_ALLOC))
              else case pgwt_compute_concurrency cenv r f rq arr of
                  None \<Rightarrow> None
                | Some Undefined \<Rightarrow> Some QueryUndefined
                | Some (Concluded out) \<Rightarrow>
                    if cr_failed out then Some (Answered (query_refuse REFUSE_COMPUTE))
                    else Some (Answered (0, q\<lparr>qr_intervals_used := int nsel, qr_bytes_materialised := int nsel * 48,
                                              qr_result := out, qr_have_result := True, qr_refused := IX_OK\<rparr>)))"

definition pgwt_interval_index_query ::
  "index_env \<Rightarrow> conc_env \<Rightarrow> idle_state \<Rightarrow> pgwt_interval_index \<Rightarrow> pgwt_filter \<Rightarrow> conc_req \<Rightarrow> query_outcome option" where
  "pgwt_interval_index_query env cenv r idx f rq =
     (if ix_version idx \<noteq> PGWT_INTERVAL_INDEX_VERSION then Some (Answered (query_refuse REFUSE_VERSION))
      else if ix_failed idx
      then Some (Answered (query_refuse (if ix_build_refusal idx \<noteq> IX_OK then ix_build_refusal idx
                                         else REFUSE_BUILD_FAILED)))
      else if \<not> ix_sealed idx then Some (Answered (query_refuse REFUSE_UNSEALED))
      else if ix_chunks idx = [] then Some (Answered (query_refuse REFUSE_EMPTY))
      else if \<not> is_unfiltered f then Some (Answered (query_refuse REFUSE_FILTERED))
      else if rq_from rq \<ge> rq_to rq then Some (Answered (query_refuse REFUSE_BAD_WINDOW))
      else if rq_buckets rq \<le> 0 then Some (Answered (query_refuse REFUSE_BAD_BUCKETS))
      else if rq_from rq < ix_cover_from idx \<or> rq_to rq > ix_cover_to idx
      then Some (Answered (query_refuse REFUSE_RANGE))
      else query_compute env cenv r idx f rq)"

section \<open>The walk selects exactly the overlapping rows\<close>

definition overlaps :: "u64 \<Rightarrow> u64 \<Rightarrow> pgwt_wait_interval \<Rightarrow> bool" where
  "overlaps from_ns to_ns iv \<longleftrightarrow> iv_end iv \<ge> from_ns \<and> iv_start iv \<le> to_ns"

lemma lower_bound_spec:
  assumes srt: "\<And>i j. a \<le> i \<Longrightarrow> i \<le> j \<Longrightarrow> j < b \<Longrightarrow> iv_end (rows ! i) \<le> iv_end (rows ! j)"
    and "a \<le> lo" "lo \<le> hi" "hi \<le> b"
    and "\<And>i. a \<le> i \<Longrightarrow> i < lo \<Longrightarrow> iv_end (rows ! i) < from_ns"
    and "\<And>i. hi \<le> i \<Longrightarrow> i < b \<Longrightarrow> from_ns \<le> iv_end (rows ! i)"
  defines "m \<equiv> lower_bound_end rows lo hi from_ns"
  shows "lo \<le> m \<and> m \<le> hi \<and> (\<forall>i. a \<le> i \<and> i < m \<longrightarrow> iv_end (rows ! i) < from_ns) \<and>
    (\<forall>i. m \<le> i \<and> i < b \<longrightarrow> from_ns \<le> iv_end (rows ! i))"
  unfolding m_def using assms(2-6)
proof (induction "hi - lo" arbitrary: lo hi rule: less_induct)
  case less
  show ?case
  proof (cases "lo < hi")
    case False
    then have "lo = hi" using less.prems(2) by simp
    then show ?thesis using less.prems by (simp add: lower_bound_end.simps [of rows hi])
  next
    case True
    define mid where "mid = lo + (hi - lo) div 2"
    have mid: "lo \<le> mid" "mid < hi" using True by (auto simp: mid_def)
    show ?thesis
    proof (cases "iv_end (rows ! mid) < from_ns")
      case low: True
      have eq: "lower_bound_end rows lo hi from_ns = lower_bound_end rows (mid + 1) hi from_ns"
        using True low by (simp add: lower_bound_end.simps [of rows lo] Let_def mid_def)
      have below: "iv_end (rows ! i) < from_ns" if "a \<le> i" "i < mid + 1" for i
        using le_less_trans [OF srt [of i mid] low] that mid less.prems(3) by simp
      have "hi - (mid + 1) < hi - lo" "a \<le> mid + 1" "mid + 1 \<le> hi" using mid less.prems(1) by linarith+
      from less.hyps [OF this less.prems(3) below less.prems(5)] show ?thesis
        using mid unfolding eq by auto
    next
      case high: False
      have eq: "lower_bound_end rows lo hi from_ns = lower_bound_end rows lo mid from_ns"
        using True high by (simp add: lower_bound_end.simps [of rows lo] Let_def mid_def)
      have above: "from_ns \<le> iv_end (rows ! i)" if "mid \<le> i" "i < b" for i
        using order_trans [OF _ srt [of mid i], of from_ns] that mid less.prems(1) high by simp
      have "mid - lo < hi - lo" "mid \<le> b" using mid less.prems(3) by linarith+
      from less.hyps [OF this(1) less.prems(1) mid(1) this(2) less.prems(4) above] show ?thesis
        using mid unfolding eq by auto
    qed
  qed
qed

definition bounded :: "bounds \<Rightarrow> pgwt_wait_interval \<Rightarrow> bool" where
  "bounded bs iv = (case bs of (mine, maxe, mins, maxd) \<Rightarrow>
     mine \<le> iv_end iv \<and> iv_end iv \<le> maxe \<and> mins \<le> iv_start iv \<and> iv_end iv - iv_start iv \<le> maxd)"

lemma bounds_fold:
  "(\<forall>iv\<in>S. bounded bs iv) \<Longrightarrow> \<forall>iv\<in>S \<union> set ivs. bounded (fold bounds_step ivs bs) iv"
proof (induction ivs arbitrary: bs S)
  case (Cons x ivs)
  obtain a b c d where bs: "bs = (a, b, c, d)" by (cases bs)
  have "\<forall>iv\<in>insert x S. bounded (bounds_step x bs) iv"
    using Cons.prems by (auto simp: bs bounded_def Let_def)
  from Cons.IH [OF this] show ?case by simp
qed simp

lemma bounds_sound:
  "chunk_bounds_from_rows rows a n = bs \<Longrightarrow> iv \<in> set (seg a (a + n) rows) \<Longrightarrow> bounded bs iv"
  using bounds_fold [of "{}"] by (auto simp: chunk_bounds_from_rows_def)

lemma scan_rows_fst:
  assumes "sorted (map iv_end ivs)" and "\<forall>iv\<in>set ivs. limit < iv_end iv \<longrightarrow> to_ns < iv_start iv"
  shows "fst (scan_rows to_ns limit ivs q) = map materialise (filter (\<lambda>iv. iv_start iv \<le> to_ns) ivs)"
  using assms
proof (induction ivs arbitrary: q)
  case (Cons iv ivs)
  show ?case
  proof (cases "iv_end iv > limit")
    case True
    have "\<forall>x\<in>set (iv # ivs). to_ns < iv_start x"
      using Cons.prems True by (auto intro: less_le_trans)
    then have "filter (\<lambda>x. iv_start x \<le> to_ns) (iv # ivs) = []"
      by (simp add: filter_empty_conv not_le)
    then show ?thesis using True by simp
  next
    case False
    then show ?thesis using Cons by (auto simp: Let_def case_prod_beta)
  qed
qed simp

text \<open>A chunk's part of the selection.\<close>

lemma chunk_scan:
  fixes from_ns to_ns :: u64
  assumes snd: "chunk_sound rows ch" and srt: "sorted (map iv_end rows)"
    and wf: "\<forall>iv\<in>set rows. iv_start iv \<le> iv_end iv"
  defines "stop \<equiv> ch_first_row ch + ch_n_rows ch"
  defines "lb \<equiv> lower_bound_end rows (ch_first_row ch) stop from_ns"
  shows "fst (scan_rows to_ns (scan_limit to_ns ch) (seg lb stop rows) q) =
    map materialise (filter (overlaps from_ns to_ns) (seg (ch_first_row ch) stop rows))"
proof -
  have stop: "stop \<le> length rows" using snd by (simp add: chunk_sound_def stop_def)
  have mono: "iv_end (rows ! i) \<le> iv_end (rows ! j)" if "i \<le> j" "j < stop" for i j
    using sorted_nth_mono [OF srt, of i j] that stop by simp
  have "ch_first_row ch \<le> lb \<and> lb \<le> stop \<and>
      (\<forall>i. ch_first_row ch \<le> i \<and> i < lb \<longrightarrow> iv_end (rows ! i) < from_ns) \<and>
      (\<forall>i. lb \<le> i \<and> i < stop \<longrightarrow> from_ns \<le> iv_end (rows ! i))"
    unfolding lb_def
    by (rule lower_bound_spec [where a = "ch_first_row ch" and b = stop]) (use mono in \<open>auto simp: stop_def\<close>)
  then have lb: "ch_first_row ch \<le> lb" "lb \<le> stop" "\<forall>iv\<in>set (seg (ch_first_row ch) lb rows). iv_end iv < from_ns"
    "\<forall>iv\<in>set (seg lb stop rows). from_ns \<le> iv_end iv"
    using stop by (auto simp: in_seg)
  have "sorted (map iv_end (seg lb stop rows))"
    using srt by (simp add: seg_def take_map [symmetric] drop_map [symmetric] sorted_wrt_take sorted_wrt_drop)
  moreover have "to_ns < iv_start iv" if iv: "iv \<in> set (seg lb stop rows)" "scan_limit to_ns ch < iv_end iv" for iv
  proof -
    have "iv \<in> set (seg (ch_first_row ch) stop rows)" using iv(1) seg_append [OF lb(1,2) stop] by simp
    then have d: "iv_end iv - iv_start iv \<le> ch_max_duration ch"
      using bounds_sound [of rows "ch_first_row ch" "ch_n_rows ch", OF refl, of iv] snd
      by (auto simp: chunk_sound_def bounded_def stop_def [symmetric])
    have "iv \<in> set rows" using iv(1) stop by (auto simp: in_seg)
    then have "unat (iv_end iv - iv_start iv) = unat (iv_end iv) - unat (iv_start iv)"
      "unat (iv_start iv) \<le> unat (iv_end iv)" using wf by (simp_all add: unat_sub word_le_nat_alt)
    moreover have "\<not> ch_max_duration ch > UINT64_MAX - to_ns"
    proof
      assume "ch_max_duration ch > UINT64_MAX - to_ns"
      then have "UINT64_MAX < iv_end iv" using iv(2) by (simp add: scan_limit_def)
      then show False by simp
    qed
    ultimately show ?thesis
      using d iv(2) word_max_sub_less [of to_ns "ch_max_duration ch"]
      by (auto simp: scan_limit_def word_less_nat_alt word_le_nat_alt unat_add_u64)
  qed
  ultimately have "fst (scan_rows to_ns (scan_limit to_ns ch) (seg lb stop rows) q) =
      map materialise (filter (\<lambda>iv. iv_start iv \<le> to_ns) (seg lb stop rows))"
    by (intro scan_rows_fst) auto
  moreover have "filter (overlaps from_ns to_ns) (seg (ch_first_row ch) stop rows) =
      filter (\<lambda>iv. iv_start iv \<le> to_ns) (seg lb stop rows)"
  proof -
    have "filter (overlaps from_ns to_ns) (seg (ch_first_row ch) lb rows) = []"
      using lb(3) by (auto simp: filter_empty_conv overlaps_def not_le)
    moreover have "filter (overlaps from_ns to_ns) (seg lb stop rows) = filter (\<lambda>iv. iv_start iv \<le> to_ns) (seg lb stop rows)"
      using lb(4) by (intro filter_cong) (auto simp: overlaps_def)
    ultimately show ?thesis using seg_append [OF lb(1,2) stop] by simp
  qed
  ultimately show ?thesis by simp
qed

lemma skipped_empty:
  assumes "chunk_sound rows ch" "chunk_skipped from_ns to_ns ch"
  shows "filter (overlaps from_ns to_ns) (seg (ch_first_row ch) (ch_first_row ch + ch_n_rows ch) rows) = []"
proof -
  have "\<not> overlaps from_ns to_ns iv" if iv: "iv \<in> set (seg (ch_first_row ch) (ch_first_row ch + ch_n_rows ch) rows)" for iv
  proof -
    have "bounded (ch_min_end ch, ch_max_end ch, ch_min_start ch, ch_max_duration ch) iv"
      using bounds_sound [OF refl iv] assms(1) by (simp add: chunk_sound_def)
    then have "iv_end iv \<le> ch_max_end ch" "ch_min_start ch \<le> iv_start iv" by (simp_all add: bounded_def)
    moreover have "ch_n_rows ch \<noteq> 0" using iv by (cases "ch_n_rows ch = 0") simp_all
    ultimately show ?thesis using assms(2) by (auto simp: chunk_skipped_def overlaps_def)
  qed
  then show ?thesis by (simp add: filter_empty_conv)
qed

lemma select_walk_fst:
  assumes "sorted (map iv_end rows)" "\<forall>iv\<in>set rows. iv_start iv \<le> iv_end iv" "\<forall>ch\<in>set chs. chunk_sound rows ch"
  shows "fst (select_walk rows from_ns to_ns chs q) =
    map materialise (filter (overlaps from_ns to_ns)
      (concat (map (\<lambda>ch. seg (ch_first_row ch) (ch_first_row ch + ch_n_rows ch) rows) chs)))"
  using assms(3)
proof (induction chs arbitrary: q)
  case (Cons ch chs)
  have ch: "chunk_sound rows ch" using Cons.prems by simp
  show ?case
  proof (cases "chunk_skipped from_ns to_ns ch")
    case True
    then show ?thesis using Cons skipped_empty [OF ch] by simp
  next
    case False
    then show ?thesis using Cons chunk_scan [OF ch assms(1,2)] by (simp add: Let_def case_prod_beta)
  qed
qed simp

section \<open>A well-formed feed builds the index of its waits\<close>

type_synonym fed_block = "u64 \<times> u64 \<times> pgwt_trace_event list"

definition fed_events :: "fed_block list \<Rightarrow> pgwt_trace_event list" where
  "fed_events blocks = concat (map (\<lambda>(bf, bl, evs). evs) blocks)"

definition stored :: "idle_state \<Rightarrow> pgwt_trace_event list \<Rightarrow> pgwt_wait_interval list" where
  "stored r evs = map row_of (filter (pgwt_interval_index_stores r unfiltered_filter) evs)"

definition block_ok :: "fed_block \<Rightarrow> bool" where
  "block_ok b = (case b of (bf, bl, evs) \<Rightarrow> bf \<le> bl \<and> (\<forall>ev\<in>set evs. bf \<le> timestamp_ns ev \<and> timestamp_ns ev \<le> bl))"

definition well_fed :: "fed_block list \<Rightarrow> bool" where
  "well_fed blocks \<longleftrightarrow> list_all block_ok blocks \<and>
     sorted_wrt (\<lambda>b c. fst (snd b) \<le> fst c) blocks \<and> sorted (map timestamp_ns (fed_events blocks))"

text \<open>The caller: blocks in order, with a running number, then the seal.\<close>

fun feed_blocks :: "index_env \<Rightarrow> idle_state \<Rightarrow> int \<Rightarrow> fed_block list \<Rightarrow> pgwt_interval_index \<Rightarrow> int \<times> pgwt_interval_index" where
  "feed_blocks env r k [] idx = pgwt_interval_index_seal idx"
| "feed_blocks env r k ((bf, bl, evs) # bs) idx =
     (case pgwt_interval_index_add_block env r idx k bf bl (Some evs) of
        (rc, idx) \<Rightarrow> if rc < 0 then (rc, idx) else feed_blocks env r (k + 1) bs idx)"

definition index_granted :: "index_env \<Rightarrow> bool" where
  "index_granted env \<longleftrightarrow> rows_ok env = (\<lambda>_. True) \<and> chunks_ok env = (\<lambda>_. True) \<and> query_ok env = (\<lambda>_. True)"

definition frame :: "pgwt_interval_index \<Rightarrow> pgwt_interval_index \<Rightarrow> bool" where
  "frame a b \<longleftrightarrow> ix_chunks b = ix_chunks a \<and> ix_version b = ix_version a \<and> ix_failed b = ix_failed a \<and>
     ix_next_block b = ix_next_block a \<and> ix_cover_from b = ix_cover_from a"

lemma rows_reserve_granted:
  assumes "rows_ok env = (\<lambda>_. True)"
  shows "\<exists>c. rows_reserve env idx n = Some (idx\<lparr>ix_cap_rows := c\<rparr>)"
proof (cases "length (ix_rows idx) + n \<le> ix_cap_rows idx")
  case True
  then show ?thesis by (intro exI [of _ "ix_cap_rows idx"]) (simp add: rows_reserve_def)
next
  case False
  then show ?thesis using assms by (auto simp: rows_reserve_def Let_def)
qed

lemma chunks_reserve_granted:
  assumes "chunks_ok env = (\<lambda>_. True)"
  shows "\<exists>c. chunks_reserve env idx = Some (idx\<lparr>ix_cap_chunks := c\<rparr>)"
proof (cases "length (ix_chunks idx) + 1 \<le> ix_cap_chunks idx")
  case True
  then show ?thesis by (intro exI [of _ "ix_cap_chunks idx"]) (simp add: chunks_reserve_def)
next
  case False
  then show ?thesis using assms by (auto simp: chunks_reserve_def Let_def)
qed

lemma feed_loop_spec:
  assumes "rows_ok env = (\<lambda>_. True)"
    and "\<forall>ev\<in>set evs. bf \<le> timestamp_ns ev \<and> timestamp_ns ev \<le> bl" "sorted (map timestamp_ns evs)"
    and "h \<longrightarrow> (\<forall>ev\<in>set evs. l \<le> timestamp_ns ev)"
  shows "\<exists>l' h' idx'. feed_loop env r bf bl evs l h idx = Inr (l', h', idx') \<and> frame idx idx' \<and>
    ix_rows idx' = ix_rows idx @ stored r evs \<and> h' = (h \<or> evs \<noteq> []) \<and>
    l' = (if evs = [] then l else timestamp_ns (last evs))"
  using assms(2-)
proof (induction evs arbitrary: l h idx)
  case Nil
  then show ?case by (simp add: frame_def stored_def)
next
  case (Cons ev evs)
  have p: "\<forall>e\<in>set evs. bf \<le> timestamp_ns e \<and> timestamp_ns e \<le> bl" "sorted (map timestamp_ns evs)"
    "True \<longrightarrow> (\<forall>e\<in>set evs. timestamp_ns ev \<le> timestamp_ns e)" using Cons.prems by simp_all
  have go: "\<not> (timestamp_ns ev < bf \<or> timestamp_ns ev > bl)" "\<not> (h \<and> timestamp_ns ev < l)"
    using Cons.prems by auto
  obtain idx1 where one: "frame idx idx1" "ix_rows idx1 = ix_rows idx @ stored r [ev]"
    "feed_loop env r bf bl (ev # evs) l h idx = feed_loop env r bf bl evs (timestamp_ns ev) True idx1"
  proof (cases "pgwt_interval_index_stores r unfiltered_filter ev")
    case False
    show thesis
      by (rule that [of "idx\<lparr>ix_n_fed := ix_n_fed idx + 1, ix_n_skipped := ix_n_skipped idx + 1\<rparr>"])
        (use False go in \<open>auto simp: frame_def stored_def Let_def\<close>)
  next
    case True
    obtain idx2 where r: "rows_reserve env (idx\<lparr>ix_n_fed := ix_n_fed idx + 1\<rparr>) 1 = Some idx2"
      "frame idx idx2" "ix_rows idx2 = ix_rows idx"
      using rows_reserve_granted [OF assms(1), of "idx\<lparr>ix_n_fed := ix_n_fed idx + 1\<rparr>" 1]
      by (auto simp: frame_def)
    show thesis
      by (rule that [of "idx2\<lparr>ix_rows := ix_rows idx2 @ [row_of ev], ix_n_intervals := ix_n_intervals idx2 + 1,
            ix_n_cross_block := (if ix_chunks idx2 \<noteq> [] \<and> iv_start (row_of ev) < bf
                                 then ix_n_cross_block idx2 + 1 else ix_n_cross_block idx2)\<rparr>"])
        (use True go r in \<open>auto simp: frame_def stored_def Let_def\<close>)
  qed
  from Cons.IH [OF p, of idx1] show ?case
    using one by (auto simp: frame_def stored_def)
qed

text \<open>What the index holds after some blocks.\<close>

definition chunk_rows :: "pgwt_wait_interval list \<Rightarrow> pgwt_interval_index_chunk \<Rightarrow> pgwt_wait_interval list" where
  "chunk_rows rows ch = seg (ch_first_row ch) (ch_first_row ch + ch_n_rows ch) rows"

definition index_inv :: "idle_state \<Rightarrow> fed_block list \<Rightarrow> pgwt_interval_index \<Rightarrow> bool" where
  "index_inv r blocks idx \<longleftrightarrow>
     ix_version idx = PGWT_INTERVAL_INDEX_VERSION \<and> \<not> ix_failed idx \<and> ix_next_block idx = int (length blocks) \<and>
     ix_rows idx = stored r (fed_events blocks) \<and> length (ix_chunks idx) = length blocks \<and>
     (\<forall>ch\<in>set (ix_chunks idx). chunk_sound (ix_rows idx) ch) \<and>
     concat (map (chunk_rows (ix_rows idx)) (ix_chunks idx)) = ix_rows idx \<and>
     (ix_have_last idx \<longleftrightarrow> fed_events blocks \<noteq> []) \<and>
     (fed_events blocks \<noteq> [] \<longrightarrow> ix_last_event idx = timestamp_ns (last (fed_events blocks))) \<and>
     (blocks \<noteq> [] \<longrightarrow> ch_block_last (last (ix_chunks idx)) = fst (snd (last blocks)) \<and>
        ix_cover_from idx = fst (hd blocks) \<and> ix_cover_to idx = fst (snd (last blocks)))"

lemma index_invD:
  assumes "index_inv r blocks idx"
  shows "ix_version idx = PGWT_INTERVAL_INDEX_VERSION" and "\<not> ix_failed idx"
    and "ix_next_block idx = int (length blocks)" and "ix_rows idx = stored r (fed_events blocks)"
    and "length (ix_chunks idx) = length blocks" and "\<forall>ch\<in>set (ix_chunks idx). chunk_sound (ix_rows idx) ch"
    and "concat (map (chunk_rows (ix_rows idx)) (ix_chunks idx)) = ix_rows idx"
    and "ix_have_last idx \<longleftrightarrow> fed_events blocks \<noteq> []"
    and "fed_events blocks \<noteq> [] \<Longrightarrow> ix_last_event idx = timestamp_ns (last (fed_events blocks))"
    and "blocks \<noteq> [] \<Longrightarrow> ch_block_last (last (ix_chunks idx)) = fst (snd (last blocks))"
    and "blocks \<noteq> [] \<Longrightarrow> ix_cover_from idx = fst (hd blocks)"
    and "blocks \<noteq> [] \<Longrightarrow> ix_cover_to idx = fst (snd (last blocks))"
  using assms unfolding index_inv_def by blast+

lemma chunk_rows_extend: "chunk_sound rows ch \<Longrightarrow> chunk_rows (rows @ rs) ch = chunk_rows rows ch"
  by (simp add: chunk_sound_def chunk_rows_def seg_def)

lemma chunk_sound_extend: "chunk_sound rows ch \<Longrightarrow> chunk_sound (rows @ rs) ch"
  using chunk_rows_extend [of rows ch rs]
  by (simp add: chunk_sound_def chunk_bounds_from_rows_def chunk_rows_def)

lemma index_inv_init: "index_inv r [] pgwt_interval_index_init"
  by (simp add: index_inv_def pgwt_interval_index_init_def fed_events_def stored_def)

lemma stored_append: "stored r (a @ b) = stored r a @ stored r b"
  by (simp add: stored_def)

lemma finish_block_chunk:
  assumes "first \<le> length (ix_rows idx)"
  obtains ch where "ix_chunks (finish_block k bf bl first l h idx) = ix_chunks idx @ [ch]"
    and "chunk_sound (ix_rows idx) ch" "chunk_rows (ix_rows idx) ch = drop first (ix_rows idx)" "ch_block_last ch = bl"
proof -
  obtain a b c d where bs: "chunk_bounds_from_rows (ix_rows idx) first (length (ix_rows idx) - first) = (a, b, c, d)"
    by (metis prod_cases4)
  show thesis
    by (rule that [of "\<lparr>ch_block_idx = k, ch_first_row = first, ch_n_rows = length (ix_rows idx) - first,
          ch_block_first = bf, ch_block_last = bl, ch_min_end = a, ch_max_end = b, ch_min_start = c,
          ch_max_duration = d\<rparr>"])
      (use assms bs in \<open>simp_all add: finish_block_def Let_def chunk_sound_def chunk_rows_def seg_def\<close>)
qed

lemma finish_block_fields:
  "ix_version (finish_block k bf bl first l h idx) = ix_version idx"
  "ix_failed (finish_block k bf bl first l h idx) = ix_failed idx"
  "ix_rows (finish_block k bf bl first l h idx) = ix_rows idx"
  "ix_next_block (finish_block k bf bl first l h idx) = k + 1"
  "ix_last_event (finish_block k bf bl first l h idx) = l"
  "ix_have_last (finish_block k bf bl first l h idx) = h"
  "ix_cover_from (finish_block k bf bl first l h idx) = (if ix_chunks idx = [] then bf else ix_cover_from idx)"
  "ix_cover_to (finish_block k bf bl first l h idx) = bl"
  by (simp_all add: finish_block_def Let_def case_prod_beta)

lemma well_fed_snoc:
  assumes "well_fed (blocks @ [(bf, bl, evs)])"
  shows "well_fed blocks" and "bf \<le> bl" and "\<forall>ev\<in>set evs. bf \<le> timestamp_ns ev \<and> timestamp_ns ev \<le> bl"
    and "sorted (map timestamp_ns evs)" and "blocks \<noteq> [] \<Longrightarrow> fst (snd (last blocks)) \<le> bf"
    and "fed_events blocks \<noteq> [] \<Longrightarrow> \<forall>ev\<in>set evs. timestamp_ns (last (fed_events blocks)) \<le> timestamp_ns ev"
proof -
  have ev: "fed_events (blocks @ [(bf, bl, evs)]) = fed_events blocks @ evs" by (simp add: fed_events_def)
  then have srt: "sorted (map timestamp_ns (fed_events blocks))" "sorted (map timestamp_ns evs)"
    "\<forall>a\<in>set (fed_events blocks). \<forall>ev\<in>set evs. timestamp_ns a \<le> timestamp_ns ev"
    using assms by (simp_all add: well_fed_def sorted_append)
  then show "well_fed blocks" "bf \<le> bl" "\<forall>ev\<in>set evs. bf \<le> timestamp_ns ev \<and> timestamp_ns ev \<le> bl"
    "sorted (map timestamp_ns evs)" "blocks \<noteq> [] \<Longrightarrow> fst (snd (last blocks)) \<le> bf"
    using assms by (auto simp: well_fed_def block_ok_def sorted_wrt_append)
  show "fed_events blocks \<noteq> [] \<Longrightarrow> \<forall>ev\<in>set evs. timestamp_ns (last (fed_events blocks)) \<le> timestamp_ns ev"
    using srt(3) by simp
qed

lemma add_block_ok:
  assumes inv: "index_inv r blocks idx" and env: "index_granted env" and wf: "well_fed (blocks @ [(bf, bl, evs)])"
  shows "\<exists>idx'. pgwt_interval_index_add_block env r idx (int (length blocks)) bf bl (Some evs) = (0, idx') \<and>
    index_inv r (blocks @ [(bf, bl, evs)]) idx'"
proof -
  note W = well_fed_snoc [OF wf] and I = index_invD [OF inv]
  have g: "rows_ok env = (\<lambda>_. True)" "chunks_ok env = (\<lambda>_. True)" using env by (simp_all add: index_granted_def)
  obtain idx1 where one: "chunks_reserve env idx = Some idx1" "frame idx idx1" "ix_rows idx1 = ix_rows idx"
    "ix_last_event idx1 = ix_last_event idx" "ix_have_last idx1 = ix_have_last idx"
    using chunks_reserve_granted [OF g(2), of idx] by (auto simp: frame_def)
  have "ix_have_last idx1 \<longrightarrow> (\<forall>ev\<in>set evs. ix_last_event idx1 \<le> timestamp_ns ev)"
    using inv W(6) one(4,5) by (auto simp: index_inv_def)
  from feed_loop_spec [OF g(1) W(3,4) this, of r idx1]
  obtain l' h' idx2 where two: "feed_loop env r bf bl evs (ix_last_event idx1) (ix_have_last idx1) idx1 = Inr (l', h', idx2)"
    "frame idx1 idx2" "ix_rows idx2 = ix_rows idx1 @ stored r evs" "h' = (ix_have_last idx1 \<or> evs \<noteq> [])"
    "l' = (if evs = [] then ix_last_event idx1 else timestamp_ns (last evs))" by blast
  have gap: "\<not> (ix_chunks idx \<noteq> [] \<and> bf < ch_block_last (last (ix_chunks idx)))"
    using inv W(5) by (cases "blocks = []") (auto simp: index_inv_def not_less)
  let ?out = "finish_block (int (length blocks)) bf bl (length (ix_rows idx1)) l' h' idx2"
  have "pgwt_interval_index_add_block env r idx (int (length blocks)) bf bl (Some evs) = (0, ?out)"
  proof -
    have "ix_version idx = PGWT_INTERVAL_INDEX_VERSION" "\<not> ix_failed idx" "ix_next_block idx = int (length blocks)"
      using inv by (simp_all add: index_inv_def)
    then show ?thesis using W(2) one(1) two(1) gap by (auto simp: pgwt_interval_index_add_block_def)
  qed
  moreover obtain ch where ch: "ix_chunks ?out = ix_chunks idx2 @ [ch]" "chunk_sound (ix_rows idx2) ch"
    "chunk_rows (ix_rows idx2) ch = drop (length (ix_rows idx1)) (ix_rows idx2)" "ch_block_last ch = bl"
    by (rule finish_block_chunk [of "length (ix_rows idx1)" idx2]) (use two(3) in auto)
  have fr: "ix_chunks idx2 = ix_chunks idx" "ix_version idx2 = ix_version idx" "ix_failed idx2 = ix_failed idx"
    "ix_cover_from idx2 = ix_cover_from idx" using one(2) two(2) by (auto simp: frame_def)
  have rows: "ix_rows idx2 = ix_rows idx @ stored r evs" using one(3) two(3) by simp
  have sound: "\<forall>c\<in>set (ix_chunks idx). chunk_sound (ix_rows idx) c" by (rule I(6))
  have tiles: "map (chunk_rows (ix_rows idx2)) (ix_chunks idx) = map (chunk_rows (ix_rows idx)) (ix_chunks idx)"
    using sound rows chunk_rows_extend by (intro map_cong) auto
  have "concat (map (chunk_rows (ix_rows idx2)) (ix_chunks ?out)) =
      concat (map (chunk_rows (ix_rows idx)) (ix_chunks idx)) @ chunk_rows (ix_rows idx2) ch"
    by (simp only: ch(1) fr(1) map_append concat_append tiles) simp
  then have "concat (map (chunk_rows (ix_rows idx2)) (ix_chunks ?out)) = ix_rows idx2"
    using ch(3) I(7) one(3) rows by simp
  moreover have "\<forall>c\<in>set (ix_chunks ?out). chunk_sound (ix_rows idx2) c"
    using ch(1,2) fr(1) sound chunk_sound_extend rows by auto
  moreover have "ix_rows ?out = stored r (fed_events (blocks @ [(bf, bl, evs)]))"
    using rows I(4) by (simp add: finish_block_fields fed_events_def stored_append)
  moreover have "h' \<longleftrightarrow> fed_events (blocks @ [(bf, bl, evs)]) \<noteq> []"
    "fed_events (blocks @ [(bf, bl, evs)]) \<noteq> [] \<longrightarrow> l' = timestamp_ns (last (fed_events (blocks @ [(bf, bl, evs)])))"
    using I(8,9) one(4,5) two(4,5) by (auto simp: fed_events_def)
  moreover have "ix_cover_from ?out = fst (hd (blocks @ [(bf, bl, evs)]))"
    using I(5,11) fr(1,4) by (cases "blocks = []") (auto simp: finish_block_fields)
  ultimately show ?thesis
    using I(1,2,5) ch(1,4) fr(1-3) unfolding index_inv_def by (simp add: finish_block_fields)
qed

lemma stores_duration: "pgwt_interval_index_stores r f ev \<Longrightarrow> duration_ns ev \<le> timestamp_ns ev"
  by (auto simp: pgwt_interval_index_stores_def pgwt_filter_matches_def split: if_splits)

lemma stored_wf: "iv \<in> set (stored r evs) \<Longrightarrow> iv_start iv \<le> iv_end iv"
  using stores_duration by (fastforce simp: stored_def row_of_def word_sub_le)

lemma stored_sorted: "sorted (map timestamp_ns evs) \<Longrightarrow> sorted (map iv_end (stored r evs))"
  by (induction evs) (auto simp: stored_def row_of_def)

lemma ends_sortedI: "sorted (map iv_end rows) \<Longrightarrow> ends_sorted rows"
  unfolding ends_sorted_def
proof
  fix i assume s: "sorted (map iv_end rows)" and i: "i \<in> set [1..<length rows]"
  then have "iv_end (rows ! (i - 1)) \<le> iv_end (rows ! i)"
    using sorted_nth_mono [OF s, of "i - 1" i] by (auto simp: nth_map less_imp_diff_less)
  then show "\<not> iv_end (rows ! i) < iv_end (rows ! (i - 1))" by simp
qed

lemma seal_ok:
  assumes "index_inv r blocks idx" "well_fed blocks"
  shows "\<exists>idx'. pgwt_interval_index_seal idx = (0, idx') \<and> index_inv r blocks idx' \<and> ix_sealed idx'"
proof -
  note I = index_invD [OF assms(1)]
  have "ends_sorted (ix_rows idx)"
    using assms(2) by (auto simp: I(4) well_fed_def intro: ends_sortedI stored_sorted)
  moreover have "list_all (chunk_sound (ix_rows idx)) (ix_chunks idx)" using I(6) by (simp add: list_all_iff)
  moreover have "index_inv r blocks (idx\<lparr>ix_n_start_before_cover := n, ix_sealed := True\<rparr>)"
    "index_inv r blocks (idx\<lparr>ix_sealed := True\<rparr>)" for n
    using assms(1) unfolding index_inv_def by auto
  ultimately show ?thesis using I(1,2) by (auto simp: pgwt_interval_index_seal_def Let_def)
qed

lemma feed_blocks_ok:
  assumes "index_granted env" "well_fed (old @ blocks)" "index_inv r old idx"
  shows "\<exists>idx'. feed_blocks env r (int (length old)) blocks idx = (0, idx') \<and>
    index_inv r (old @ blocks) idx' \<and> ix_sealed idx'"
  using assms(2,3)
proof (induction blocks arbitrary: old idx)
  case Nil
  then show ?case using seal_ok by simp
next
  case (Cons b blocks)
  obtain bf bl evs where b: "b = (bf, bl, evs)" by (cases b)
  have "well_fed (old @ [(bf, bl, evs)])"
    using Cons.prems(1) by (auto simp: b well_fed_def fed_events_def sorted_append sorted_wrt_append)
  from add_block_ok [OF Cons.prems(2) assms(1) this]
  obtain idx' where "pgwt_interval_index_add_block env r idx (int (length old)) bf bl (Some evs) = (0, idx')"
    "index_inv r (old @ [(bf, bl, evs)]) idx'" by blast
  then show ?case using Cons.IH [of "old @ [b]" idx'] Cons.prems(1) by (simp add: b add.commute)
qed

section \<open>The index answers what the raw computation answers\<close>

lemma qualifies_iff_stored:
  assumes "is_unfiltered f"
  shows "concurrency_qualifies r ev f from_ns to_ns \<longleftrightarrow>
    pgwt_interval_index_stores r unfiltered_filter ev \<and> overlaps from_ns to_ns (row_of ev)"
proof -
  have m: "pgwt_filter_matches f ev = pgwt_filter_matches unfiltered_filter ev"
    using assms by (auto simp: pgwt_filter_matches_def is_unfiltered_def unfiltered_filter_def)
  have "timestamp_ns ev - duration_ns ev \<le> timestamp_ns ev" if "pgwt_filter_matches unfiltered_filter ev"
    using that by (auto simp: pgwt_filter_matches_def word_sub_le split: if_splits)
  then show ?thesis
    unfolding concurrency_qualifies_def pgwt_interval_index_stores_def m
    by (auto simp: overlaps_def row_of_def not_less intro: order_trans)
qed

lemma materialise_view: "conc_view (materialise (row_of ev)) = conc_view ev"
  by (simp add: conc_view_def materialise_def row_of_def)

lemma materialise_row: "row_of (materialise (row_of ev)) = row_of ev"
  by (simp add: materialise_def row_of_def)

lemma materialise_stores:
  assumes "pgwt_interval_index_stores r unfiltered_filter ev"
  shows "pgwt_interval_index_stores r unfiltered_filter (materialise (row_of ev))"
  using assms by (auto simp: pgwt_interval_index_stores_def pgwt_filter_matches_def unfiltered_filter_def
      materialise_def row_of_def split: if_splits)

lemma selection_eq:
  assumes "is_unfiltered f"
  shows "map materialise (filter (overlaps (rq_from rq) (rq_to rq)) (stored r evs)) =
    map (materialise \<circ> row_of) (qualifying r f rq evs)"
  by (induction evs) (auto simp: stored_def qualifies_iff_stored [OF assms])

lemma selection_qualifying:
  assumes "is_unfiltered f"
  shows "map conc_view (qualifying r f rq (map (materialise \<circ> row_of) (qualifying r f rq evs))) =
    map conc_view (qualifying r f rq evs)"
  by (induction evs)
    (auto simp: qualifies_iff_stored [OF assms] materialise_view materialise_row materialise_stores)

lemma walk_selects:
  assumes "index_inv r blocks idx" "well_fed blocks" "is_unfiltered f"
  shows "fst (select_walk (ix_rows idx) (rq_from rq) (rq_to rq) (ix_chunks idx) q) =
    map (materialise \<circ> row_of) (qualifying r f rq (fed_events blocks))"
proof -
  note I = index_invD [OF assms(1)]
  have "sorted (map iv_end (ix_rows idx))" using assms(2) by (simp add: I(4) well_fed_def stored_sorted)
  moreover have "\<forall>iv\<in>set (ix_rows idx). iv_start iv \<le> iv_end iv" using stored_wf by (auto simp: I(4))
  ultimately have "fst (select_walk (ix_rows idx) (rq_from rq) (rq_to rq) (ix_chunks idx) q) =
      map materialise (filter (overlaps (rq_from rq) (rq_to rq)) (ix_rows idx))"
    using select_walk_fst [of "ix_rows idx" "ix_chunks idx"] I(6,7) unfolding chunk_rows_def by simp
  then show ?thesis by (simp only: I(4) selection_eq [OF assms(3)])
qed

definition answer_of :: "conc_outcome option \<Rightarrow> query_outcome option \<Rightarrow> bool" where
  "answer_of raw got =
     (case raw of
        None \<Rightarrow> got = None
      | Some Undefined \<Rightarrow> got = Some QueryUndefined
      | Some (Concluded out) \<Rightarrow>
          if cr_failed out then got = Some (Answered (query_refuse REFUSE_COMPUTE))
          else (\<exists>q. got = Some (Answered (0, q)) \<and> qr_have_result q \<and> qr_result q = out))"

lemma query_answers:
  assumes inv: "index_inv r blocks idx" "ix_sealed idx" and wf: "well_fed blocks" "blocks \<noteq> []"
    and env: "index_granted env" and f: "is_unfiltered f" and rq: "rq_from rq < rq_to rq" "0 < rq_buckets rq"
    and cov: "fst (hd blocks) \<le> rq_from rq" "rq_to rq \<le> fst (snd (last blocks))"
  shows "if qualifying r f rq (fed_events blocks) = []
    then pgwt_interval_index_query env cenv r idx f rq = Some (Answered (query_refuse REFUSE_NO_INTERVALS))
    else answer_of (pgwt_compute_concurrency cenv r f rq (fed_events blocks))
           (pgwt_interval_index_query env cenv r idx f rq)"
proof -
  note I = index_invD [OF inv(1)]
  let ?sel = "map (materialise \<circ> row_of) (qualifying r f rq (fed_events blocks))"
  have walk: "fst (select_walk (ix_rows idx) (rq_from rq) (rq_to rq) (ix_chunks idx) q) = ?sel" for q
    by (rule walk_selects [OF inv(1) wf(1) f])
  have "ix_chunks idx \<noteq> []" using I(5) wf(2) by auto
  then have q: "pgwt_interval_index_query env cenv r idx f rq = query_compute env cenv r idx f rq"
    using I(1,2) I(11,12) [OF wf(2)] inv(2) f rq cov by (auto simp: pgwt_interval_index_query_def)
  show ?thesis
  proof (cases "qualifying r f rq (fed_events blocks) = []")
    case True
    then show ?thesis using walk by (simp add: q query_compute_def case_prod_beta Let_def)
  next
    case False
    then have "fed_events blocks \<noteq> []" "?sel \<noteq> []" by auto
    then have "pgwt_compute_concurrency cenv r f rq ?sel = pgwt_compute_concurrency cenv r f rq (fed_events blocks)"
      by (intro compute_view selection_qualifying [OF f])
    then show ?thesis
      using False walk env
      by (auto simp: q query_compute_def case_prod_beta Let_def answer_of_def index_granted_def
          split: option.split conc_outcome.split)
  qed
qed

section \<open>Failure is permanent\<close>

datatype index_op = AddBlock int u64 u64 "pgwt_trace_event list option" | Seal

fun index_step :: "index_env \<Rightarrow> idle_state \<Rightarrow> index_op \<Rightarrow> pgwt_interval_index \<Rightarrow> int \<times> pgwt_interval_index" where
  "index_step env r (AddBlock k bf bl evs) idx = pgwt_interval_index_add_block env r idx k bf bl evs"
| "index_step env r Seal idx = pgwt_interval_index_seal idx"

lemma fail_build_latches: "ix_failed (snd (fail_build why idx)) \<and> fst (fail_build why idx) = -1"
  by (simp add: fail_build_def)

lemma index_step_negative: "fst (index_step env r op idx) < 0 \<Longrightarrow> ix_failed (snd (index_step env r op idx))"
  using fail_build_latches
  by (cases op) (auto simp: pgwt_interval_index_add_block_def pgwt_interval_index_seal_def Let_def
      split: option.splits sum.splits if_splits prod.splits)

lemma index_step_latched: "ix_failed idx \<Longrightarrow> ix_failed (snd (index_step env r op idx)) \<and> fst (index_step env r op idx) = -1"
  using fail_build_latches
  by (cases op) (auto simp: pgwt_interval_index_add_block_def pgwt_interval_index_seal_def)

lemma index_run_latched: "ix_failed idx \<Longrightarrow> ix_failed (fold (\<lambda>op i. snd (index_step env r op i)) ops idx)"
  by (induction ops arbitrary: idx) (simp_all add: index_step_latched)

definition refusal :: "int \<times> pgwt_interval_index_query_result \<Rightarrow> bool" where
  "refusal a \<longleftrightarrow> (\<exists>why. why \<noteq> IX_OK \<and> a = query_refuse why)"

definition full_answer :: "int \<times> pgwt_interval_index_query_result \<Rightarrow> bool" where
  "full_answer a \<longleftrightarrow> fst a = 0 \<and> qr_have_result (snd a) \<and> qr_refused (snd a) = IX_OK \<and> \<not> cr_failed (qr_result (snd a))"

lemma query_compute_total:
  assumes "query_compute env cenv r idx f rq = Some (Answered a)"
  shows "full_answer a \<or> refusal a"
proof -
  let ?w = "select_walk (ix_rows idx) (rq_from rq) (rq_to rq) (ix_chunks idx)
      (zero_query\<lparr>qr_chunks_total := int (length (ix_chunks idx))\<rparr>)"
  let ?arr = "fst (select_walk (ix_rows idx) (rq_from rq) (rq_to rq) (ix_chunks idx) zero_query)"
  obtain sel q where w: "?w = (sel, q)" by (cases ?w)
  have r: "refusal (query_refuse why)" if "why \<noteq> IX_OK" for why using that by (auto simp: refusal_def)
  consider "a = query_refuse REFUSE_NO_INTERVALS" | "a = query_refuse REFUSE_ALLOC"
    | "a = query_refuse REFUSE_COMPUTE"
    | out where "\<not> cr_failed out" "a = (0, q\<lparr>qr_intervals_used := int (length sel),
        qr_bytes_materialised := int (length sel) * 48, qr_result := out, qr_have_result := True, qr_refused := IX_OK\<rparr>)"
    using assms unfolding query_compute_def w Let_def split
    by (cases "pgwt_compute_concurrency cenv r f rq ?arr")
      (auto split: if_splits conc_outcome.splits)
  then show ?thesis by cases (use r in \<open>auto simp: full_answer_def\<close>)
qed

lemma query_total:
  assumes "pgwt_interval_index_query env cenv r idx f rq = Some (Answered a)"
  shows "full_answer a \<or> refusal a"
proof -
  have r: "refusal (query_refuse why)" if "why \<noteq> IX_OK" for why using that by (auto simp: refusal_def)
  consider why where "why \<noteq> IX_OK" "a = query_refuse why" | "query_compute env cenv r idx f rq = Some (Answered a)"
    using assms by (auto simp: pgwt_interval_index_query_def split: if_splits)
  then show ?thesis by cases (use r query_compute_total in auto)
qed

lemma query_failed:
  assumes "ix_failed idx"
  shows "\<exists>a. pgwt_interval_index_query env cenv r idx f rq = Some (Answered a) \<and> refusal a"
proof -
  let ?why = "if ix_version idx \<noteq> PGWT_INTERVAL_INDEX_VERSION then REFUSE_VERSION
     else if ix_build_refusal idx \<noteq> IX_OK then ix_build_refusal idx else REFUSE_BUILD_FAILED"
  have "?why \<noteq> IX_OK" by simp
  moreover have "pgwt_interval_index_query env cenv r idx f rq = Some (Answered (query_refuse ?why))"
    using assms by (simp add: pgwt_interval_index_query_def)
  ultimately show ?thesis unfolding refusal_def by blast
qed

section \<open>Properties\<close>

definition sample_index_env :: index_env where
  "sample_index_env = \<lparr>rows_ok = \<lambda>_. True, chunks_ok = \<lambda>_. True, query_ok = \<lambda>_. True\<rparr>"

definition sample_blocks :: "fed_block list" where
  "sample_blocks = [(900, 1040, []), (1040, 1200, [sample_wait])]"

text \<open>
  C35: the interval index refines the raw path: a feed of consecutive blocks with non-decreasing record
  times is accepted and sealed, and then an unfiltered query whose window lies in the coverage gives
  exactly the result of the raw computation on all the records fed, its failure as a refusal; a window
  that no wait overlaps is refused instead of answered empty. Prefilter, binary search and scan limit
  lose nothing, also for waits that cross block boundaries or are still open at the window's end.
\<close>

theorem interval_index_refines_raw:
  assumes "index_granted env" and "well_fed blocks" and "blocks \<noteq> []" and "is_unfiltered f"
    and "rq_from rq < rq_to rq" and "0 < rq_buckets rq"
    and "fst (hd blocks) \<le> rq_from rq" and "rq_to rq \<le> fst (snd (last blocks))"
  shows "\<exists>idx. feed_blocks env r 0 blocks pgwt_interval_index_init = (0, idx) \<and>
    (if qualifying r f rq (fed_events blocks) = []
     then pgwt_interval_index_query env cenv r idx f rq = Some (Answered (query_refuse REFUSE_NO_INTERVALS))
     else answer_of (pgwt_compute_concurrency cenv r f rq (fed_events blocks))
            (pgwt_interval_index_query env cenv r idx f rq))"
proof -
  obtain idx where "feed_blocks env r 0 blocks pgwt_interval_index_init = (0, idx)"
    "index_inv r blocks idx" "ix_sealed idx"
    using feed_blocks_ok [of env "[]" blocks r pgwt_interval_index_init] assms(1,2) index_inv_init by auto
  then show ?thesis
    using query_answers [OF _ _ assms(2,3,1,4-8)] by blast
qed

theorem interval_index_refines_raw_witness:
  "\<exists>idx. feed_blocks sample_index_env idle_state_init 0 sample_blocks pgwt_interval_index_init = (0, idx) \<and>
    (if qualifying idle_state_init no_filter sample_req (fed_events sample_blocks) = []
     then pgwt_interval_index_query sample_index_env sample_env idle_state_init idx no_filter sample_req =
            Some (Answered (query_refuse REFUSE_NO_INTERVALS))
     else answer_of (pgwt_compute_concurrency sample_env idle_state_init no_filter sample_req (fed_events sample_blocks))
            (pgwt_interval_index_query sample_index_env sample_env idle_state_init idx no_filter sample_req))"
  by (rule interval_index_refines_raw)
    (simp_all add: index_granted_def sample_index_env_def well_fed_def block_ok_def sample_blocks_def fed_events_def
      sample_wait_def is_unfiltered_def no_filter_def sample_req_def)

text \<open>
  a failed build never answers: once a block or the seal is refused, no later sequence of blocks and
  seals makes the index queryable, and the query reports a refusal without a result; and no query ever
  returns a partial result: it either succeeds with a result that did not fail, or returns -1 with a
  reason and everything else cleared.
\<close>

theorem interval_index_fails_closed:
  assumes "fst (index_step env r op idx) < 0"
  shows "(let idx' = fold (\<lambda>op i. snd (index_step env r op i)) ops (snd (index_step env r op idx)) in
      \<exists>a. pgwt_interval_index_query env cenv r idx' f rq = Some (Answered a) \<and> refusal a) \<and>
    (\<forall>i a. pgwt_interval_index_query env cenv r i f rq = Some (Answered a) \<longrightarrow> full_answer a \<or> refusal a)"
  unfolding Let_def
  using query_failed [OF index_run_latched [OF index_step_negative [OF assms]]] query_total by blast

theorem interval_index_fails_closed_witness:
  "fst (index_step sample_index_env idle_state_init (AddBlock 5 0 9 (Some [])) pgwt_interval_index_init) < 0 \<and>
   (let idx' = fold (\<lambda>op i. snd (index_step sample_index_env idle_state_init op i)) [Seal]
       (snd (index_step sample_index_env idle_state_init (AddBlock 5 0 9 (Some [])) pgwt_interval_index_init)) in
      \<exists>a. pgwt_interval_index_query sample_index_env sample_env idle_state_init idx' no_filter sample_req =
        Some (Answered a) \<and> refusal a)"
proof -
  have g: "fst (index_step sample_index_env idle_state_init (AddBlock 5 0 9 (Some [])) pgwt_interval_index_init) < 0"
    by (simp add: pgwt_interval_index_add_block_def pgwt_interval_index_init_def fail_build_def)
  from interval_index_fails_closed [OF g] show ?thesis using g by blast
qed

end
