(* ===== verification/Executions.thy ===== *)
theory Executions
  imports Concurrency
begin

text \<open>
  Execution rows of src/src/compute.c (pgwt_compute_executions and its helpers): one pass over the
  records pairs the plan, execution and command markers of each backend into rows, counts the waits
  and workers that belong to the row just started, and keeps the rows that touch the window.
  Allocation answers are parameters; row indices are naturals. The marker machine at the end is the
  abstract meaning of the markers that this pass and the executions index both implement.
\<close>

section \<open>Data\<close>

record pgwt_backend_link =
  bl_pid :: u32
  bl_leader_pid :: u32

record pgwt_execution =
  ex_pid :: u32
  ex_query_id :: u64
  ex_start_ns :: u64
  ex_end_ns :: u64
  ex_plan_start_ns :: u64
  ex_plan_end_ns :: u64
  ex_has_plan :: bool
  ex_in_progress :: bool
  ex_end_inferred :: bool
  ex_started_before_window :: bool
  ex_matches_event_filter :: int
  ex_n_events :: int
  ex_n_workers :: int

text \<open>The open stack has its innermost row last, as the array has.\<close>

record exec_pid_state =
  ps_pid :: u32
  ps_open_rows :: "nat list"
  ps_cap_open :: nat
  ps_top_attributable :: bool
  ps_plan_start_ns :: u64
  ps_plan_query_id :: u64
  ps_plan_open :: bool
  ps_ready_plan_start_ns :: u64
  ps_ready_plan_end_ns :: u64
  ps_ready_plan_query_id :: u64
  ps_plan_ready :: bool

definition zero_pid_state :: "u32 \<Rightarrow> exec_pid_state" where
  "zero_pid_state p = \<lparr>ps_pid = p, ps_open_rows = [], ps_cap_open = 0, ps_top_attributable = False,
     ps_plan_start_ns = 0, ps_plan_query_id = 0, ps_plan_open = False, ps_ready_plan_start_ns = 0,
     ps_ready_plan_end_ns = 0, ps_ready_plan_query_id = 0, ps_plan_ready = False\<rparr>"

text \<open>Whether an array of a given capacity is served: states, open stacks, rows, the worker array.\<close>

record exec_env =
  xn_states :: "nat \<Rightarrow> bool"
  xn_open :: "nat \<Rightarrow> bool"
  xn_rows :: "nat \<Rightarrow> bool"
  xn_links :: "nat \<Rightarrow> bool"

record exec_acc =
  xa_rows :: "pgwt_execution list"
  xa_cap_rows :: nat
  xa_states :: "exec_pid_state list"
  xa_cap_states :: nat
  xa_worker_last :: "nat option list"

definition PGWT_EVENT_FLAG_RIGHT_OPEN :: u32 where [simp]: "PGWT_EVENT_FLAG_RIGHT_OPEN = 0x800"
definition PGWT_EVENT_FLAG_EDGE_CLOSE :: u32 where [simp]: "PGWT_EVENT_FLAG_EDGE_CLOSE = 0x1000"

definition event_right_open_flagged :: "pgwt_trace_event \<Rightarrow> bool" where
  "event_right_open_flagged ev \<longleftrightarrow>
     flags ev AND (PGWT_EVENT_FLAG_RIGHT_OPEN OR PGWT_EVENT_FLAG_EDGE_CLOSE) \<noteq> 0"

section \<open>Per-backend state\<close>

fun state_scan :: "u32 \<Rightarrow> exec_pid_state list \<Rightarrow> nat \<Rightarrow> nat option" where
  "state_scan p [] i = None"
| "state_scan p (st # sts) i = (if ps_pid st = p then Some i else state_scan p sts (i + 1))"

definition exec_pid_state_get :: "exec_env \<Rightarrow> exec_acc \<Rightarrow> u32 \<Rightarrow> (nat \<times> exec_acc) option" where
  "exec_pid_state_get env acc p =
     (case state_scan p (xa_states acc) 0 of
        Some i \<Rightarrow> Some (i, acc)
      | None \<Rightarrow>
          let n = length (xa_states acc);
              new_cap = (if xa_cap_states acc \<noteq> 0 then xa_cap_states acc * 2 else 64);
              acc' = acc\<lparr>xa_states := xa_states acc @ [zero_pid_state p]\<rparr>
          in if n \<ge> xa_cap_states acc
             then if xn_states env new_cap then Some (n, acc'\<lparr>xa_cap_states := new_cap\<rparr>) else None
             else Some (n, acc'))"

definition exec_pid_push_row :: "exec_env \<Rightarrow> exec_pid_state \<Rightarrow> nat \<Rightarrow> exec_pid_state option" where
  "exec_pid_push_row env st row_idx =
     (let new_cap = (if ps_cap_open st \<noteq> 0 then ps_cap_open st * 2 else 4);
          st' = st\<lparr>ps_open_rows := ps_open_rows st @ [row_idx], ps_top_attributable := True\<rparr>
      in if length (ps_open_rows st) \<ge> ps_cap_open st
         then if xn_open env new_cap then Some (st'\<lparr>ps_cap_open := new_cap\<rparr>) else None
         else Some st')"

definition exec_pid_pop_row :: "exec_pid_state \<Rightarrow> nat option \<times> exec_pid_state" where
  "exec_pid_pop_row st =
     (let st = st\<lparr>ps_top_attributable := False\<rparr>
      in if ps_open_rows st = [] then (None, st)
         else (Some (last (ps_open_rows st)), st\<lparr>ps_open_rows := butlast (ps_open_rows st)\<rparr>))"

definition exec_pid_peek_row :: "exec_pid_state \<Rightarrow> nat option" where
  "exec_pid_peek_row st = (if ps_open_rows st \<noteq> [] then Some (last (ps_open_rows st)) else None)"

definition exec_pid_attributable_row :: "exec_pid_state \<Rightarrow> nat option" where
  "exec_pid_attributable_row st = (if ps_top_attributable st then exec_pid_peek_row st else None)"

definition execution_append :: "exec_env \<Rightarrow> exec_acc \<Rightarrow> pgwt_execution \<Rightarrow> (nat \<times> exec_acc) option" where
  "execution_append env acc row =
     (let n = length (xa_rows acc);
          new_cap = (if xa_cap_rows acc \<noteq> 0 then xa_cap_rows acc * 2 else 128);
          acc' = acc\<lparr>xa_rows := xa_rows acc @ [row]\<rparr>
      in if n \<ge> xa_cap_rows acc
         then if xn_rows env new_cap then Some (n, acc'\<lparr>xa_cap_rows := new_cap\<rparr>) else None
         else Some (n, acc'))"

section \<open>Workers\<close>

function link_search :: "pgwt_backend_link list \<Rightarrow> u32 \<Rightarrow> nat \<Rightarrow> nat \<Rightarrow> nat" where
  "link_search links p lo hi =
     (if lo < hi
      then let mid = (lo + hi) div 2
           in if bl_pid (links ! mid) < p then link_search links p (mid + 1) hi else link_search links p lo mid
      else lo)"
  by pat_completeness auto
termination by (relation "measure (\<lambda>(links, p, lo, hi). hi - lo)") auto

declare link_search.simps [simp del]

definition worker_link_index :: "pgwt_backend_link list \<Rightarrow> u32 \<Rightarrow> nat option" where
  "worker_link_index links p =
     (let lo = link_search links p 0 (length links)
      in if lo < length links \<and> bl_pid (links ! lo) = p \<and> bl_leader_pid (links ! lo) \<noteq> 0 then Some lo else None)"

definition interval_overlaps :: "u64 \<Rightarrow> u64 \<Rightarrow> u64 \<Rightarrow> u64 \<Rightarrow> bool" where
  "interval_overlaps event_end duration from_ns to_ns =
     (let event_start = (if event_end \<ge> duration then event_end - duration else 0)
      in event_start < to_ns \<and> event_end > from_ns)"

section \<open>One record\<close>

definition set_state :: "exec_acc \<Rightarrow> nat \<Rightarrow> exec_pid_state \<Rightarrow> exec_acc" where
  "set_state acc si st = acc\<lparr>xa_states := (xa_states acc)[si := st]\<rparr>"

definition set_row :: "exec_acc \<Rightarrow> nat \<Rightarrow> (pgwt_execution \<Rightarrow> pgwt_execution) \<Rightarrow> exec_acc" where
  "set_row acc i g = acc\<lparr>xa_rows := (xa_rows acc)[i := g (xa_rows acc ! i)]\<rparr>"

definition plan_start :: "pgwt_trace_event \<Rightarrow> exec_pid_state \<Rightarrow> exec_pid_state" where
  "plan_start ev st = st\<lparr>ps_plan_start_ns := timestamp_ns ev, ps_plan_query_id := query_id ev, ps_plan_open := True\<rparr>"

definition plan_end :: "pgwt_trace_event \<Rightarrow> exec_pid_state \<Rightarrow> exec_pid_state" where
  "plan_end ev st =
     (let st = (if ps_plan_open st \<and> timestamp_ns ev \<ge> ps_plan_start_ns st
                then st\<lparr>ps_ready_plan_start_ns := ps_plan_start_ns st, ps_ready_plan_end_ns := timestamp_ns ev,
                        ps_ready_plan_query_id := (if ps_plan_query_id st \<noteq> 0 then ps_plan_query_id st else query_id ev),
                        ps_plan_ready := True\<rparr>
                else st)
      in st\<lparr>ps_plan_open := False\<rparr>)"

definition start_row :: "u64 \<Rightarrow> pgwt_trace_event \<Rightarrow> exec_pid_state \<Rightarrow> pgwt_execution" where
  "start_row from_ns ev st =
     (let row = \<lparr>ex_pid = pid ev, ex_query_id = query_id ev, ex_start_ns = timestamp_ns ev, ex_end_ns = 0,
                 ex_plan_start_ns = 0, ex_plan_end_ns = 0, ex_has_plan = False, ex_in_progress = True,
                 ex_end_inferred = False, ex_started_before_window = timestamp_ns ev < from_ns,
                 ex_matches_event_filter = 0, ex_n_events = 0, ex_n_workers = 0\<rparr>
      in if ps_plan_ready st \<and>
            (ps_ready_plan_query_id st = 0 \<or> ex_query_id row = 0 \<or> ps_ready_plan_query_id st = ex_query_id row)
         then row\<lparr>ex_plan_start_ns := ps_ready_plan_start_ns st, ex_plan_end_ns := ps_ready_plan_end_ns st,
                  ex_has_plan := True\<rparr>
         else row)"

definition exec_start :: "exec_env \<Rightarrow> u64 \<Rightarrow> u64 \<Rightarrow> pgwt_trace_event \<Rightarrow> exec_acc \<Rightarrow> nat \<Rightarrow> exec_acc option" where
  "exec_start env from_ns to_ns ev acc si =
     (let st = xa_states acc ! si in
      if timestamp_ns ev \<le> to_ns then
        (case execution_append env acc (start_row from_ns ev st) of
           None \<Rightarrow> None
         | Some (row_idx, acc) \<Rightarrow>
             (case exec_pid_push_row env st row_idx of
                None \<Rightarrow> None
              | Some st \<Rightarrow> Some (set_state acc si (st\<lparr>ps_plan_ready := False\<rparr>))))
      else Some (set_state acc si (st\<lparr>ps_top_attributable := False, ps_plan_ready := False\<rparr>)))"

definition end_row :: "pgwt_trace_event \<Rightarrow> pgwt_execution \<Rightarrow> pgwt_execution" where
  "end_row ev row = row\<lparr>ex_end_ns := timestamp_ns ev, ex_in_progress := False,
     ex_query_id := (if ex_query_id row = 0 then query_id ev else ex_query_id row)\<rparr>"

definition exec_end :: "pgwt_trace_event \<Rightarrow> exec_acc \<Rightarrow> nat \<Rightarrow> exec_acc" where
  "exec_end ev acc si =
     (let (popped, st) = exec_pid_pop_row (xa_states acc ! si);
          acc = set_state acc si st
      in case popped of
           Some i \<Rightarrow> if i < length (xa_rows acc) \<and> timestamp_ns ev \<ge> ex_start_ns (xa_rows acc ! i)
                     then set_row acc i (end_row ev) else acc
         | None \<Rightarrow> acc)"

definition infer_row :: "pgwt_trace_event \<Rightarrow> pgwt_execution \<Rightarrow> pgwt_execution" where
  "infer_row ev row = row\<lparr>ex_end_ns := timestamp_ns ev, ex_in_progress := False, ex_end_inferred := True\<rparr>"

text \<open>The pop loop of a command's end, over the stack from its top.\<close>

fun cmd_close :: "pgwt_trace_event \<Rightarrow> nat list \<Rightarrow> exec_acc \<Rightarrow> exec_acc" where
  "cmd_close ev [] acc = acc"
| "cmd_close ev (i # is) acc =
     cmd_close ev is
       (if i < length (xa_rows acc) \<and> ex_in_progress (xa_rows acc ! i) \<and>
           timestamp_ns ev \<ge> ex_start_ns (xa_rows acc ! i)
        then set_row acc i (infer_row ev) else acc)"

definition cmd_end :: "pgwt_trace_event \<Rightarrow> exec_acc \<Rightarrow> nat \<Rightarrow> exec_acc" where
  "cmd_end ev acc si =
     (let st = xa_states acc ! si;
          acc = cmd_close ev (rev (ps_open_rows st)) acc
      in set_state acc si (st\<lparr>ps_open_rows := [], ps_top_attributable := False, ps_plan_open := False,
                              ps_plan_ready := False\<rparr>))"

definition zero_filter :: pgwt_filter where
  "zero_filter = \<lparr>f_class_name = [], f_event_id = 0, f_has_event_filter = False, f_pid = 0, f_query_id = 0\<rparr>"

definition count_wait :: "exec_env \<Rightarrow> u64 \<Rightarrow> u64 \<Rightarrow> pgwt_filter option \<Rightarrow> pgwt_backend_link list
    \<Rightarrow> pgwt_trace_event \<Rightarrow> exec_acc \<Rightarrow> nat \<Rightarrow> exec_acc option" where
  "count_wait env from_ns to_ns f links ev acc si =
     (let event_filter = (case f of None \<Rightarrow> zero_filter | Some g \<Rightarrow> g)\<lparr>f_pid := 0\<rparr>;
          event_matches = interval_overlaps (timestamp_ns ev) (duration_ns ev) from_ns to_ns \<and>
                          pgwt_filter_matches event_filter ev;
          acc = (case exec_pid_attributable_row (xa_states acc ! si) of
                   Some i \<Rightarrow> if event_matches \<and> i < length (xa_rows acc)
                             then set_row acc i (\<lambda>r. r\<lparr>ex_n_events := ex_n_events r + 1, ex_matches_event_filter := 1\<rparr>)
                             else acc
                 | None \<Rightarrow> acc)
      in case (if links = [] then None else worker_link_index links (pid ev)) of
           None \<Rightarrow> Some acc
         | Some wi \<Rightarrow>
             (case exec_pid_state_get env acc (bl_leader_pid (links ! wi)) of
                None \<Rightarrow> None
              | Some (li, acc) \<Rightarrow>
                  (case exec_pid_attributable_row (xa_states acc ! li) of
                     Some i \<Rightarrow>
                       if event_matches \<and> i < length (xa_rows acc) \<and> xa_worker_last acc ! wi \<noteq> Some i
                       then Some ((set_row acc i (\<lambda>r. r\<lparr>ex_n_workers := ex_n_workers r + 1,
                                     ex_matches_event_filter := 1\<rparr>))\<lparr>xa_worker_last := (xa_worker_last acc)[wi := Some i]\<rparr>)
                       else Some acc
                   | None \<Rightarrow> Some acc)))"

definition exec_event :: "exec_env \<Rightarrow> u64 \<Rightarrow> u64 \<Rightarrow> pgwt_filter option \<Rightarrow> pgwt_backend_link list
    \<Rightarrow> pgwt_trace_event \<Rightarrow> exec_acc \<Rightarrow> exec_acc option" where
  "exec_event env from_ns to_ns f links ev acc =
     (if event_right_open_flagged ev then Some acc
      else case exec_pid_state_get env acc (pid ev) of
          None \<Rightarrow> None
        | Some (si, acc) \<Rightarrow>
            let st = xa_states acc ! si; marker = old_event ev in
            if marker = PGWT_MARKER_PLAN_START then Some (set_state acc si (plan_start ev st))
            else if marker = PGWT_MARKER_PLAN_END then Some (set_state acc si (plan_end ev st))
            else if marker = PGWT_MARKER_EXEC_START then exec_start env from_ns to_ns ev acc si
            else if marker = PGWT_MARKER_EXEC_END then Some (exec_end ev acc si)
            else if marker = PGWT_MARKER_CMD_END then Some (cmd_end ev acc si)
            else if PGWT_IS_MARKER marker \<or> flags ev AND PGWT_EVENT_FLAG_SAMPLE \<noteq> 0 then Some acc
            else count_wait env from_ns to_ns f links ev acc si)"

fun exec_loop :: "exec_env \<Rightarrow> u64 \<Rightarrow> u64 \<Rightarrow> pgwt_filter option \<Rightarrow> pgwt_backend_link list
    \<Rightarrow> pgwt_trace_event list \<Rightarrow> exec_acc \<Rightarrow> exec_acc option" where
  "exec_loop env from_ns to_ns f links [] acc = Some acc"
| "exec_loop env from_ns to_ns f links (ev # evs) acc =
     (case exec_event env from_ns to_ns f links ev acc of
        None \<Rightarrow> None | Some acc \<Rightarrow> exec_loop env from_ns to_ns f links evs acc)"

definition exec_kept :: "u64 \<Rightarrow> u64 \<Rightarrow> pgwt_execution \<Rightarrow> bool" where
  "exec_kept from_ns to_ns row \<longleftrightarrow>
     \<not> ex_start_ns row > to_ns \<and> \<not> (\<not> ex_in_progress row \<and> ex_end_ns row < from_ns)"

text \<open>\<open>None\<close> is the failed flag: an allocation was refused and no row is usable.\<close>

definition pgwt_compute_executions :: "exec_env \<Rightarrow> pgwt_trace_event list \<Rightarrow> u64 \<Rightarrow> u64 \<Rightarrow> pgwt_filter option
    \<Rightarrow> pgwt_backend_link list \<Rightarrow> pgwt_execution list option" where
  "pgwt_compute_executions env events from_ns to_ns f links =
     (if links \<noteq> [] \<and> \<not> xn_links env (length links) then None
      else case exec_loop env from_ns to_ns f links events
                  \<lparr>xa_rows = [], xa_cap_rows = 0, xa_states = [], xa_cap_states = 0,
                   xa_worker_last = replicate (length links) None\<rparr> of
          None \<Rightarrow> None
        | Some acc \<Rightarrow> Some (filter (exec_kept from_ns to_ns) (xa_rows acc)))"

section \<open>Arrays looked up by a key\<close>

definition keyed :: "('a \<Rightarrow> 'k) \<Rightarrow> 'a list \<Rightarrow> 'k \<Rightarrow> 'a option" where
  "keyed key xs k = find (\<lambda>x. key x = k) xs"

lemma keyed_None: "keyed key xs k = None \<longleftrightarrow> k \<notin> key ` set xs"
  by (auto simp: keyed_def find_None_iff)

lemma keyed_nth: "distinct (map key xs) \<Longrightarrow> i < length xs \<Longrightarrow> keyed key xs (key (xs ! i)) = Some (xs ! i)"
proof (induction xs arbitrary: i)
  case (Cons x xs)
  then show ?case by (cases i) (auto simp: keyed_def)
qed simp

lemma keyed_append: "keyed key (xs @ [y]) k = (case keyed key xs k of None \<Rightarrow> if key y = k then Some y else None | Some x \<Rightarrow> Some x)"
  by (induction xs) (auto simp: keyed_def)

lemma keyed_update:
  "distinct (map key xs) \<Longrightarrow> i < length xs \<Longrightarrow> key y = key (xs ! i) \<Longrightarrow>
   keyed key (xs[i := y]) = (keyed key xs)(key y \<mapsto> y)"
proof (induction xs arbitrary: i)
  case (Cons x xs)
  show ?case
  proof (cases i)
    case 0
    then show ?thesis using Cons.prems by (auto simp: keyed_def fun_eq_iff)
  next
    case (Suc j)
    then have "key x \<noteq> key y" using Cons.prems nth_mem [of j xs] by auto
    moreover have "keyed key (xs[j := y]) = (keyed key xs)(key y \<mapsto> y)" using Suc Cons by auto
    ultimately show ?thesis using Suc by (auto simp: keyed_def fun_eq_iff)
  qed
qed simp

lemma map_key_update: "key y = key (xs ! i) \<Longrightarrow> map key (xs[i := y]) = map key xs"
  by (metis list_update_id map_update)

section \<open>The marker machine\<close>

text \<open>
  What the markers mean, backend by backend: a stack of open executions, a plan in progress and a
  finished plan waiting for its execution. A row keeps how it was closed: when, with which query id,
  and whether the close was inferred from the command's end.
\<close>

record xrow =
  xr_pid :: u32
  xr_query_id :: u64
  xr_start :: u64
  xr_plan :: "(u64 \<times> u64) option"
  xr_close :: "(u64 \<times> u64 \<times> bool) option"

record carry =
  cy_open :: "nat list"
  cy_plan :: "(u64 \<times> u64) option"
  cy_ready :: "(u64 \<times> u64 \<times> u64) option"

definition empty_carry :: carry where
  "empty_carry = \<lparr>cy_open = [], cy_plan = None, cy_ready = None\<rparr>"

type_synonym marker_state = "xrow list \<times> (u32 \<Rightarrow> carry)"

definition is_exec_marker :: "pgwt_trace_event \<Rightarrow> bool" where
  "is_exec_marker ev \<longleftrightarrow> old_event ev \<in> {PGWT_MARKER_PLAN_START, PGWT_MARKER_PLAN_END, PGWT_MARKER_EXEC_START,
     PGWT_MARKER_EXEC_END, PGWT_MARKER_CMD_END}"

definition m_plan_end :: "pgwt_trace_event \<Rightarrow> carry \<Rightarrow> carry" where
  "m_plan_end ev c = c\<lparr>cy_plan := None,
     cy_ready := (case cy_plan c of
        Some (s, q) \<Rightarrow> if s \<le> timestamp_ns ev
          then Some (s, timestamp_ns ev, if q \<noteq> 0 then q else query_id ev) else cy_ready c
      | None \<Rightarrow> cy_ready c)\<rparr>"

definition m_row :: "pgwt_trace_event \<Rightarrow> carry \<Rightarrow> xrow" where
  "m_row ev c = \<lparr>xr_pid = pid ev, xr_query_id = query_id ev, xr_start = timestamp_ns ev,
     xr_plan = (case cy_ready c of
        Some (s, e, q) \<Rightarrow> if q = 0 \<or> query_id ev = 0 \<or> q = query_id ev then Some (s, e) else None
      | None \<Rightarrow> None), xr_close = None\<rparr>"

definition m_close :: "pgwt_trace_event \<Rightarrow> u64 \<Rightarrow> bool \<Rightarrow> xrow \<Rightarrow> xrow" where
  "m_close ev q inferred r = r\<lparr>xr_close := Some (timestamp_ns ev, q, inferred)\<rparr>"

definition m_end :: "pgwt_trace_event \<Rightarrow> nat \<Rightarrow> xrow list \<Rightarrow> xrow list" where
  "m_end ev i rows =
     (if i < length rows \<and> xr_start (rows ! i) \<le> timestamp_ns ev
      then rows[i := m_close ev (query_id ev) False (rows ! i)] else rows)"

definition m_infer :: "pgwt_trace_event \<Rightarrow> nat \<Rightarrow> xrow list \<Rightarrow> xrow list" where
  "m_infer ev i rows =
     (if i < length rows \<and> xr_close (rows ! i) = None \<and> xr_start (rows ! i) \<le> timestamp_ns ev
      then rows[i := m_close ev 0 True (rows ! i)] else rows)"

definition m_step :: "pgwt_trace_event \<Rightarrow> marker_state \<Rightarrow> marker_state" where
  "m_step ev s =
     (let (rows, cs) = s; p = pid ev; c = cs p; m = old_event ev in
      if m = PGWT_MARKER_PLAN_START then (rows, cs(p := c\<lparr>cy_plan := Some (timestamp_ns ev, query_id ev)\<rparr>))
      else if m = PGWT_MARKER_PLAN_END then (rows, cs(p := m_plan_end ev c))
      else if m = PGWT_MARKER_EXEC_START
      then (rows @ [m_row ev c], cs(p := c\<lparr>cy_open := cy_open c @ [length rows], cy_ready := None\<rparr>))
      else if m = PGWT_MARKER_EXEC_END
      then (if cy_open c = [] then rows else m_end ev (last (cy_open c)) rows,
            cs(p := c\<lparr>cy_open := butlast (cy_open c)\<rparr>))
      else if m = PGWT_MARKER_CMD_END
      then (fold (m_infer ev) (rev (cy_open c)) rows, cs(p := empty_carry))
      else s)"

definition m_run :: "pgwt_trace_event list \<Rightarrow> marker_state" where
  "m_run evs = fold m_step evs ([], \<lambda>_. empty_carry)"

lemma m_step_inert: "\<not> is_exec_marker ev \<Longrightarrow> m_step ev s = s"
  by (simp add: is_exec_marker_def m_step_def Let_def case_prod_unfold
      del: PGWT_MARKER_PLAN_START_def PGWT_MARKER_PLAN_END_def PGWT_MARKER_EXEC_START_def PGWT_MARKER_EXEC_END_def
        PGWT_MARKER_CMD_END_def)

lemma m_step_simps:
  "old_event ev = PGWT_MARKER_PLAN_START \<Longrightarrow>
     m_step ev (rows, cs) = (rows, cs(pid ev := (cs (pid ev))\<lparr>cy_plan := Some (timestamp_ns ev, query_id ev)\<rparr>))"
  "old_event ev = PGWT_MARKER_PLAN_END \<Longrightarrow> m_step ev (rows, cs) = (rows, cs(pid ev := m_plan_end ev (cs (pid ev))))"
  "old_event ev = PGWT_MARKER_EXEC_START \<Longrightarrow> m_step ev (rows, cs) =
     (rows @ [m_row ev (cs (pid ev))],
      cs(pid ev := (cs (pid ev))\<lparr>cy_open := cy_open (cs (pid ev)) @ [length rows], cy_ready := None\<rparr>))"
  "old_event ev = PGWT_MARKER_EXEC_END \<Longrightarrow> m_step ev (rows, cs) =
     (if cy_open (cs (pid ev)) = [] then rows else m_end ev (last (cy_open (cs (pid ev)))) rows,
      cs(pid ev := (cs (pid ev))\<lparr>cy_open := butlast (cy_open (cs (pid ev)))\<rparr>))"
  "old_event ev = PGWT_MARKER_CMD_END \<Longrightarrow> m_step ev (rows, cs) =
     (fold (m_infer ev) (rev (cy_open (cs (pid ev)))) rows, cs(pid ev := empty_carry))"
  by (simp_all add: m_step_def Let_def)

lemma m_run_markers: "m_run (filter is_exec_marker evs) = m_run evs"
proof -
  have "fold m_step (filter is_exec_marker evs) s = fold m_step evs s" for s
    by (induction evs arbitrary: s) (simp_all add: m_step_inert)
  then show ?thesis by (simp add: m_run_def)
qed

text \<open>
  An implementation of the machine: a step function that may be refused and a relation to the machine's
  states that every accepted step keeps, on the records the implementation is given.
\<close>

locale marker_implementation =
  fixes step :: "pgwt_trace_event \<Rightarrow> 's \<Rightarrow> 's option" and rel :: "'s \<Rightarrow> marker_state \<Rightarrow> bool"
    and given :: "pgwt_trace_event \<Rightarrow> bool"
  assumes step_rel: "rel s m \<Longrightarrow> given ev \<Longrightarrow> step ev s = Some s' \<Longrightarrow> rel s' (m_step ev m)"
begin

fun run :: "pgwt_trace_event list \<Rightarrow> 's \<Rightarrow> 's option" where
  "run [] s = Some s"
| "run (ev # evs) s = (case step ev s of None \<Rightarrow> None | Some s \<Rightarrow> run evs s)"

lemma run_rel:
  "rel s m \<Longrightarrow> list_all given evs \<Longrightarrow> run evs s = Some s' \<Longrightarrow> rel s' (fold m_step evs m)"
proof (induction evs arbitrary: s m)
  case (Cons ev evs)
  then obtain s1 where s1: "step ev s = Some s1" "run evs s1 = Some s'" by (auto split: option.splits)
  have "rel s1 (m_step ev m)" using Cons.prems s1(1) by (auto intro: step_rel)
  from Cons.IH [OF this _ s1(2)] Cons.prems(2) show ?case by simp
qed simp

end

text \<open>The stacks hold distinct, open rows of their own backend.\<close>

definition m_inv :: "marker_state \<Rightarrow> bool" where
  "m_inv m \<longleftrightarrow> (\<forall>p. distinct (cy_open (snd m p)) \<and>
     (\<forall>i \<in> set (cy_open (snd m p)). i < length (fst m) \<and> xr_close (fst m ! i) = None \<and> xr_pid (fst m ! i) = p))"

lemma m_invD:
  assumes "m_inv (rows, cs)" and "i \<in> set (cy_open (cs p))"
  shows "i < length rows" "xr_close (rows ! i) = None" "xr_pid (rows ! i) = p"
  using assms by (auto simp: m_inv_def)

lemma m_infer_facts:
  "length (m_infer ev i rows) = length rows" "map xr_pid (m_infer ev i rows) = map xr_pid rows"
  "j \<noteq> i \<Longrightarrow> m_infer ev i rows ! j = rows ! j"
  using map_key_update [of xr_pid "m_close ev 0 True (rows ! i)" rows i] by (auto simp: m_infer_def m_close_def)

lemma m_infer_fold:
  "length (fold (m_infer ev) js rows) = length rows \<and> map xr_pid (fold (m_infer ev) js rows) = map xr_pid rows \<and>
   (\<forall>j. j \<notin> set js \<longrightarrow> fold (m_infer ev) js rows ! j = rows ! j)"
  by (induction js arbitrary: rows) (simp_all add: m_infer_facts)

lemma m_end_facts:
  "length (m_end ev i rows) = length rows" "j \<noteq> i \<Longrightarrow> m_end ev i rows ! j = rows ! j"
  by (simp_all add: m_end_def)

lemma m_inv_update:
  assumes "m_inv (rows, cs)" and "length rows \<le> length rows'" and "distinct (cy_open c)"
    and "\<forall>i \<in> set (cy_open c). i < length rows' \<and> xr_close (rows' ! i) = None \<and> xr_pid (rows' ! i) = p"
    and "\<forall>i < length rows. xr_pid (rows ! i) \<noteq> p \<longrightarrow> rows' ! i = rows ! i"
  shows "m_inv (rows', cs(p := c))"
proof -
  have "i < length rows' \<and> xr_close (rows' ! i) = None \<and> xr_pid (rows' ! i) = q"
    if "q \<noteq> p" "i \<in> set (cy_open (cs q))" for q i
    using m_invD [OF assms(1) that(2)] that(1) assms(2,5) by force
  then show ?thesis using assms(1,3,4) by (auto simp: m_inv_def)
qed

lemma m_inv_step: "m_inv m \<Longrightarrow> m_inv (m_step ev m)"
proof -
  assume i: "m_inv m"
  obtain rows cs where m: "m = (rows, cs)" by (cases m)
  let ?c = "cs (pid ev)"
  note I = i [unfolded m] and D = m_invD [OF i [unfolded m]]
  have d: "distinct (cy_open ?c)" using I by (simp add: m_inv_def)
  have keep: "m_inv (rows, cs(pid ev := c))" if "cy_open c = cy_open ?c" for c
    by (rule m_inv_update [OF I]) (use that d D in auto)
  have start: "m_inv (rows @ [m_row ev ?c], cs(pid ev := ?c\<lparr>cy_open := cy_open ?c @ [length rows], cy_ready := None\<rparr>))"
    by (rule m_inv_update [OF I]) (use d D in \<open>auto simp: nth_append m_row_def dest: D(1)\<close>)
  have stop: "m_inv (if cy_open ?c = [] then rows else m_end ev (last (cy_open ?c)) rows,
      cs(pid ev := ?c\<lparr>cy_open := butlast (cy_open ?c)\<rparr>))"
  proof (cases "cy_open ?c = []")
    case False
    then have l: "last (cy_open ?c) \<in> set (cy_open ?c)" "last (cy_open ?c) \<notin> set (butlast (cy_open ?c))"
      using d by (simp, metis append_butlast_last_id distinct_butlast not_distinct_conv_prefix)
    have bb: "i \<in> set (cy_open ?c) \<and> i \<noteq> last (cy_open ?c)" if "i \<in> set (butlast (cy_open ?c))" for i
      using that l(2) by (auto dest: in_set_butlastD)
    have b: "i < length rows \<and> xr_close (m_end ev (last (cy_open ?c)) rows ! i) = None \<and>
        xr_pid (m_end ev (last (cy_open ?c)) rows ! i) = pid ev" if "i \<in> set (butlast (cy_open ?c))" for i
      using bb [OF that] D [of i "pid ev"] m_end_facts(2) [of i "last (cy_open ?c)" ev rows] by simp
    have "m_inv (m_end ev (last (cy_open ?c)) rows, cs(pid ev := ?c\<lparr>cy_open := butlast (cy_open ?c)\<rparr>))"
      by (rule m_inv_update [OF I])
        (use d D(3) [OF l(1)] b m_end_facts in \<open>auto simp: distinct_butlast intro!: m_end_facts(2)\<close>)
    then show ?thesis using False by simp
  qed (use keep in simp)
  have "fold (m_infer ev) (rev (cy_open ?c)) rows ! i = rows ! i" if "xr_pid (rows ! i) \<noteq> pid ev" for i
    using that D(3) [of i "pid ev"] m_infer_fold [of ev "rev (cy_open ?c)" rows] by auto
  then have cmd: "m_inv (fold (m_infer ev) (rev (cy_open ?c)) rows, cs(pid ev := empty_carry))"
    using m_infer_fold [of ev "rev (cy_open ?c)" rows]
    by (intro m_inv_update [OF I]) (auto simp: empty_carry_def)
  show "m_inv (m_step ev m)"
    using keep start stop cmd I
    by (simp add: m_step_def m Let_def m_plan_end_def del: PGWT_MARKER_PLAN_START_def PGWT_MARKER_PLAN_END_def
        PGWT_MARKER_EXEC_START_def PGWT_MARKER_EXEC_END_def PGWT_MARKER_CMD_END_def)
qed

lemma m_inv_run: "m_inv m \<Longrightarrow> m_inv (fold m_step evs m)"
  by (induction evs arbitrary: m) (simp_all add: m_inv_step)

lemma m_inv_init: "m_inv ([], \<lambda>_. empty_carry)"
  by (simp add: m_inv_def empty_carry_def)

section \<open>The pass implements the machine\<close>

text \<open>A row of the machine as a window that ends at \<open>to_ns\<close> shows it, its counts left at zero.\<close>

definition x_exec :: "u64 \<Rightarrow> u64 \<Rightarrow> xrow \<Rightarrow> pgwt_execution" where
  "x_exec from_ns to_ns r =
     (let row = \<lparr>ex_pid = xr_pid r, ex_query_id = xr_query_id r, ex_start_ns = xr_start r, ex_end_ns = 0,
           ex_plan_start_ns = (case xr_plan r of Some (s, e) \<Rightarrow> s | None \<Rightarrow> 0),
           ex_plan_end_ns = (case xr_plan r of Some (s, e) \<Rightarrow> e | None \<Rightarrow> 0), ex_has_plan = xr_plan r \<noteq> None,
           ex_in_progress = True, ex_end_inferred = False, ex_started_before_window = xr_start r < from_ns,
           ex_matches_event_filter = 0, ex_n_events = 0, ex_n_workers = 0\<rparr>
      in case xr_close r of
           None \<Rightarrow> row
         | Some (t, q, inferred) \<Rightarrow>
             if t > to_ns then row
             else row\<lparr>ex_end_ns := t, ex_in_progress := False, ex_end_inferred := inferred,
                      ex_query_id := (if xr_query_id r = 0 \<and> \<not> inferred then q else xr_query_id r)\<rparr>)"

definition bare :: "pgwt_execution \<Rightarrow> pgwt_execution" where
  "bare r = r\<lparr>ex_matches_event_filter := 0, ex_n_events := 0, ex_n_workers := 0\<rparr>"

definition state_carry :: "exec_pid_state \<Rightarrow> carry" where
  "state_carry st = \<lparr>cy_open = ps_open_rows st,
     cy_plan = (if ps_plan_open st then Some (ps_plan_start_ns st, ps_plan_query_id st) else None),
     cy_ready = (if ps_plan_ready st
       then Some (ps_ready_plan_start_ns st, ps_ready_plan_end_ns st, ps_ready_plan_query_id st) else None)\<rparr>"

definition states_carry :: "exec_pid_state list \<Rightarrow> u32 \<Rightarrow> carry" where
  "states_carry sts p = (case keyed ps_pid sts p of None \<Rightarrow> empty_carry | Some st \<Rightarrow> state_carry st)"

definition closed_by :: "u64 \<Rightarrow> xrow list \<Rightarrow> bool" where
  "closed_by to_ns rows \<longleftrightarrow> (\<forall>r \<in> set rows. case xr_close r of None \<Rightarrow> True | Some (t, _) \<Rightarrow> t \<le> to_ns)"

definition exec_rel :: "u64 \<Rightarrow> u64 \<Rightarrow> exec_acc \<Rightarrow> marker_state \<Rightarrow> bool" where
  "exec_rel from_ns to_ns acc m \<longleftrightarrow> m_inv m \<and> closed_by to_ns (fst m) \<and> distinct (map ps_pid (xa_states acc)) \<and>
     map bare (xa_rows acc) = map (x_exec from_ns to_ns) (fst m) \<and> states_carry (xa_states acc) = snd m"

lemma state_scan_None: "state_scan p sts i = None \<Longrightarrow> p \<notin> ps_pid ` set sts"
  by (induction sts arbitrary: i) (auto split: if_splits)

lemma state_scan_Some:
  "state_scan p sts i = Some j \<Longrightarrow> i \<le> j \<and> j < i + length sts \<and> ps_pid (sts ! (j - i)) = p"
proof (induction sts arbitrary: i)
  case (Cons st sts)
  show ?case
  proof (cases "ps_pid st = p")
    case False
    then have "i + 1 \<le> j \<and> j < i + 1 + length sts \<and> ps_pid (sts ! (j - (i + 1))) = p"
      using Cons.prems Cons.IH [of "i + 1"] by simp
    moreover from this have "j - i = Suc (j - (i + 1))" by arith
    ultimately show ?thesis by simp
  qed (use Cons.prems in auto)
qed simp

lemma state_get:
  assumes "exec_pid_state_get env acc p = Some (i, acc')" and "distinct (map ps_pid (xa_states acc))"
  shows "i < length (xa_states acc')" "ps_pid (xa_states acc' ! i) = p" "distinct (map ps_pid (xa_states acc'))"
    "states_carry (xa_states acc') = states_carry (xa_states acc)" "xa_rows acc' = xa_rows acc"
    "states_carry (xa_states acc) p = state_carry (xa_states acc' ! i)"
proof -
  have "i < length (xa_states acc') \<and> ps_pid (xa_states acc' ! i) = p \<and> distinct (map ps_pid (xa_states acc')) \<and>
    states_carry (xa_states acc') = states_carry (xa_states acc) \<and> xa_rows acc' = xa_rows acc"
  proof (cases "state_scan p (xa_states acc) 0")
    case None
    let ?z = "zero_pid_state p"
    have k: "keyed ps_pid (xa_states acc) p = None" using state_scan_None [OF None] by (simp add: keyed_None)
    have "states_carry (xa_states acc @ [?z]) = states_carry (xa_states acc)"
      using k by (auto simp: states_carry_def keyed_append fun_eq_iff zero_pid_state_def state_carry_def empty_carry_def
          split: option.splits)
    moreover have "xa_states acc' = xa_states acc @ [?z] \<and> i = length (xa_states acc) \<and> xa_rows acc' = xa_rows acc"
      using assms(1) None by (auto simp: exec_pid_state_get_def Let_def split: if_splits)
    ultimately show ?thesis using assms(2) state_scan_None [OF None] by (simp add: zero_pid_state_def image_iff)
  next
    case (Some j)
    then show ?thesis using assms state_scan_Some [OF Some] by (auto simp: exec_pid_state_get_def)
  qed
  then show "i < length (xa_states acc')" "ps_pid (xa_states acc' ! i) = p" "distinct (map ps_pid (xa_states acc'))"
    "states_carry (xa_states acc') = states_carry (xa_states acc)" "xa_rows acc' = xa_rows acc" by simp_all
  then show "states_carry (xa_states acc) p = state_carry (xa_states acc' ! i)"
    using keyed_nth [of ps_pid "xa_states acc'" i] by (metis option.simps(5) states_carry_def)
qed

lemma states_carry_update:
  assumes "distinct (map ps_pid sts)" and "i < length sts" and "ps_pid st = ps_pid (sts ! i)"
  shows "states_carry (sts[i := st]) = (states_carry sts)(ps_pid st := state_carry st)"
  using keyed_update [of ps_pid sts i st] assms by (auto simp: states_carry_def fun_eq_iff)

lemma exec_rel_state:
  assumes "exec_rel from_ns to_ns acc (rows, cs)" and "i < length (xa_states acc)"
    and "ps_pid st = ps_pid (xa_states acc ! i)" and "state_carry st = c"
    and "map bare rs = map (x_exec from_ns to_ns) rows'" and "m_inv (rows', cs(ps_pid st := c))"
    and "closed_by to_ns rows'"
  shows "exec_rel from_ns to_ns (acc\<lparr>xa_rows := rs, xa_states := (xa_states acc)[i := st]\<rparr>)
    (rows', cs(ps_pid st := c))"
  using assms states_carry_update [of "xa_states acc" i st] map_key_update [of ps_pid st "xa_states acc" i]
  by (simp add: exec_rel_def)

lemma exec_rel_length: "exec_rel from_ns to_ns acc (rows, cs) \<Longrightarrow> length (xa_rows acc) = length rows"
  by (metis exec_rel_def fst_conv length_map)

lemma exec_rel_nth:
  assumes "exec_rel from_ns to_ns acc (rows, cs)" and "i < length rows"
  shows "bare (xa_rows acc ! i) = x_exec from_ns to_ns (rows ! i)"
  using assms exec_rel_length [OF assms(1)] by (metis exec_rel_def fst_conv nth_map)

lemma map_bare_update:
  assumes "map bare rs = map (x_exec from_ns to_ns) rows" and "i < length rows"
    and "bare r = x_exec from_ns to_ns x"
  shows "map bare (rs[i := r]) = map (x_exec from_ns to_ns) (rows[i := x])"
  using assms by (simp add: map_update)

text \<open>What the view shows of a row.\<close>

lemma x_exec_start [simp]: "ex_start_ns (x_exec from_ns to_ns r) = xr_start r"
  by (auto simp: x_exec_def Let_def split: option.splits)

lemma x_exec_open:
  "ex_in_progress (x_exec from_ns to_ns r) \<longleftrightarrow> (case xr_close r of None \<Rightarrow> True | Some (t, _) \<Rightarrow> t > to_ns)"
  by (auto simp: x_exec_def Let_def split: option.splits)

lemma bare_fields [simp]:
  "ex_start_ns (bare r) = ex_start_ns r" "ex_in_progress (bare r) = ex_in_progress r" "ex_end_ns (bare r) = ex_end_ns r"
  "ex_query_id (bare r) = ex_query_id r"
  by (simp_all add: bare_def)

lemma x_exec_end:
  assumes "bare r = x_exec from_ns to_ns x" and "xr_close x = None" and "timestamp_ns ev \<le> to_ns"
  shows "bare (end_row ev r) = x_exec from_ns to_ns (m_close ev (query_id ev) False x)"
    "bare (infer_row ev r) = x_exec from_ns to_ns (m_close ev 0 True x)"
proof -
  have "ex_query_id (x_exec from_ns to_ns x) = xr_query_id x" by (simp add: x_exec_def Let_def assms(2))
  then have q: "ex_query_id r = xr_query_id x" using bare_fields(4) [of r] assms(1) by simp
  have "bare (end_row ev r) = (bare r)\<lparr>ex_end_ns := timestamp_ns ev, ex_in_progress := False,
      ex_query_id := (if ex_query_id r = 0 then query_id ev else ex_query_id r)\<rparr>"
    "bare (infer_row ev r) = (bare r)\<lparr>ex_end_ns := timestamp_ns ev, ex_in_progress := False, ex_end_inferred := True\<rparr>"
    by (simp_all add: bare_def end_row_def infer_row_def)
  then show "bare (end_row ev r) = x_exec from_ns to_ns (m_close ev (query_id ev) False x)"
    "bare (infer_row ev r) = x_exec from_ns to_ns (m_close ev 0 True x)"
    using assms q by (auto simp: x_exec_def m_close_def Let_def)
qed

lemma cmd_close_states [simp]: "xa_states (cmd_close ev js acc) = xa_states acc"
  by (induction js arbitrary: acc) (simp_all add: set_row_def)

lemma exec_rel_row:
  assumes "map bare rs = map (x_exec from_ns to_ns) rows" and "i < length rows"
  shows "bare (rs ! i) = x_exec from_ns to_ns (rows ! i)" "ex_start_ns (rs ! i) = xr_start (rows ! i)"
    "ex_in_progress (rs ! i) = (case xr_close (rows ! i) of None \<Rightarrow> True | Some (t, _) \<Rightarrow> t > to_ns)"
proof -
  show b: "bare (rs ! i) = x_exec from_ns to_ns (rows ! i)" using assms by (metis length_map nth_map)
  show "ex_start_ns (rs ! i) = xr_start (rows ! i)"
    "ex_in_progress (rs ! i) = (case xr_close (rows ! i) of None \<Rightarrow> True | Some (t, _) \<Rightarrow> t > to_ns)"
    using b by (metis bare_fields(1) x_exec_start, metis bare_fields(2) x_exec_open)
qed

lemma closed_by_update: "closed_by to_ns rows \<Longrightarrow> timestamp_ns ev \<le> to_ns \<Longrightarrow> closed_by to_ns (rows[i := m_close ev q b r])"
  by (auto simp: closed_by_def m_close_def dest!: set_update_subset_insert [THEN subsetD])

lemma closed_by_nth: "closed_by to_ns rows \<Longrightarrow> i < length rows \<Longrightarrow> xr_close (rows ! i) = Some (t, q, b) \<Longrightarrow> t \<le> to_ns"
proof -
  assume c: "closed_by to_ns rows" "i < length rows" "xr_close (rows ! i) = Some (t, q, b)"
  then have "case xr_close (rows ! i) of None \<Rightarrow> True | Some (t, _) \<Rightarrow> t \<le> to_ns"
    unfolding closed_by_def by (meson nth_mem)
  then show "t \<le> to_ns" using c(3) by simp
qed

lemma closed_by_infer: "closed_by to_ns rows \<Longrightarrow> timestamp_ns ev \<le> to_ns \<Longrightarrow> closed_by to_ns (m_infer ev i rows)"
  by (simp add: m_infer_def closed_by_update)

lemma cmd_close_rows:
  assumes "map bare (xa_rows acc) = map (x_exec from_ns to_ns) rows" and "timestamp_ns ev \<le> to_ns"
    and "closed_by to_ns rows"
  shows "map bare (xa_rows (cmd_close ev js acc)) = map (x_exec from_ns to_ns) (fold (m_infer ev) js rows) \<and>
    closed_by to_ns (fold (m_infer ev) js rows)"
  using assms
proof (induction js arbitrary: acc rows)
  case (Cons i js)
  have len: "length (xa_rows acc) = length rows" using Cons.prems(1) by (metis length_map)
  note row = exec_rel_row [OF Cons.prems(1)]
  let ?go = "i < length rows \<and> xr_close (rows ! i) = None \<and> xr_start (rows ! i) \<le> timestamp_ns ev"
  have go: "i < length (xa_rows acc) \<and> ex_in_progress (xa_rows acc ! i) \<and>
      timestamp_ns ev \<ge> ex_start_ns (xa_rows acc ! i) \<longleftrightarrow> ?go"
    using len row(2,3) [of i] closed_by_nth [OF Cons.prems(3), of i] by (auto split: option.splits)
  show ?case
  proof (cases ?go)
    case False
    then have "m_infer ev i rows = rows" by (auto simp: m_infer_def)
    moreover have "cmd_close ev (i # js) acc = cmd_close ev js acc"
      using False unfolding go [symmetric] by (simp only: cmd_close.simps if_False)
    ultimately show ?thesis using Cons.IH [OF Cons.prems] by simp
  next
    case True
    let ?acc = "set_row acc i (infer_row ev)"
    have "map bare (xa_rows ?acc) = map (x_exec from_ns to_ns) (m_infer ev i rows)"
      using True x_exec_end(2) [OF row(1)] Cons.prems(1,2)
      by (auto simp: set_row_def m_infer_def intro!: map_bare_update)
    moreover have "cmd_close ev (i # js) acc = cmd_close ev js ?acc"
      using True unfolding go [symmetric] by (simp only: cmd_close.simps if_True conj_absorb)
    ultimately show ?thesis
      using Cons.IH [of ?acc "m_infer ev i rows"] closed_by_infer [OF Cons.prems(3,2)] Cons.prems(2) by simp
  qed
qed simp

lemma push_row:
  assumes "exec_pid_push_row env st i = Some st'"
  shows "ps_pid st' = ps_pid st" "state_carry (st'\<lparr>ps_plan_ready := False\<rparr>) =
    (state_carry st)\<lparr>cy_open := ps_open_rows st @ [i], cy_ready := None\<rparr>"
  using assms by (auto simp: exec_pid_push_row_def state_carry_def Let_def split: if_splits)

lemma append_row:
  assumes "execution_append env acc row = Some (i, acc')"
  shows "i = length (xa_rows acc)" "xa_rows acc' = xa_rows acc @ [row]" "xa_states acc' = xa_states acc"
  using assms by (auto simp: execution_append_def Let_def split: if_splits)

lemma start_row_view: "bare (start_row from_ns ev st) = x_exec from_ns to_ns (m_row ev (state_carry st))"
  by (simp add: start_row_def m_row_def state_carry_def x_exec_def bare_def Let_def)

lemmas marker_ids = PGWT_MARKER_PLAN_START_def PGWT_MARKER_PLAN_END_def PGWT_MARKER_EXEC_START_def
  PGWT_MARKER_EXEC_END_def PGWT_MARKER_CMD_END_def

text \<open>Counting a wait leaves the boundaries alone.\<close>

lemma set_row_bare:
  assumes "\<And>r. bare (g r) = bare r"
  shows "map bare (xa_rows (set_row acc i g)) = map bare (xa_rows acc)"
  using map_key_update [of bare "g (xa_rows acc ! i)" "xa_rows acc" i] assms by (simp add: set_row_def)

lemma exec_rel_counts:
  assumes "exec_rel from_ns to_ns acc m" and "map bare (xa_rows acc') = map bare (xa_rows acc)"
    and "xa_states acc' = xa_states acc"
  shows "exec_rel from_ns to_ns acc' m"
  using assms by (simp add: exec_rel_def)

lemma exec_rel_get:
  assumes "exec_rel from_ns to_ns acc m" and "exec_pid_state_get env acc p = Some (i, acc')"
  shows "exec_rel from_ns to_ns acc' m" "i < length (xa_states acc')" "ps_pid (xa_states acc' ! i) = p"
    "state_carry (xa_states acc' ! i) = snd m p"
  using assms state_get [OF assms(2)] by (auto simp: exec_rel_def)

lemma count_wait_rel:
  assumes "exec_rel from_ns to_ns acc m" and "count_wait env from_ns to_ns f links ev acc si = Some acc'"
  shows "exec_rel from_ns to_ns acc' m"
proof -
  define acc1 where "acc1 = (case exec_pid_attributable_row (xa_states acc ! si) of
      Some i \<Rightarrow> if (interval_overlaps (timestamp_ns ev) (duration_ns ev) from_ns to_ns \<and>
            pgwt_filter_matches ((case f of None \<Rightarrow> zero_filter | Some g \<Rightarrow> g)\<lparr>f_pid := 0\<rparr>) ev) \<and> i < length (xa_rows acc)
          then set_row acc i (\<lambda>r. r\<lparr>ex_n_events := ex_n_events r + 1, ex_matches_event_filter := 1\<rparr>) else acc
    | None \<Rightarrow> acc)"
  have "map bare (xa_rows acc1) = map bare (xa_rows acc)" "xa_states acc1 = xa_states acc"
    by (auto simp: acc1_def set_row_bare bare_def split: option.splits) (auto simp: set_row_def split: option.splits)
  then have r1: "exec_rel from_ns to_ns acc1 m" by (rule exec_rel_counts [OF assms(1)])
  show ?thesis
  proof (cases "if links = [] then None else worker_link_index links (pid ev)")
    case None
    then show ?thesis using assms(2) r1 by (simp add: count_wait_def acc1_def Let_def)
  next
    case (Some wi)
    then obtain li acc2 where g: "exec_pid_state_get env acc1 (bl_leader_pid (links ! wi)) = Some (li, acc2)"
      using assms(2) by (auto simp: count_wait_def acc1_def Let_def split: option.splits)
    note r2 = exec_rel_get(1) [OF r1 g]
    have "acc' = acc2 \<or> (\<exists>i. acc' = (set_row acc2 i (\<lambda>r. r\<lparr>ex_n_workers := ex_n_workers r + 1,
        ex_matches_event_filter := 1\<rparr>))\<lparr>xa_worker_last := (xa_worker_last acc2)[wi := Some i]\<rparr>)"
      using assms(2) Some g by (auto simp: count_wait_def acc1_def Let_def split: option.splits if_splits)
    then show ?thesis
    proof
      assume "\<exists>i. acc' = (set_row acc2 i (\<lambda>r. r\<lparr>ex_n_workers := ex_n_workers r + 1,
        ex_matches_event_filter := 1\<rparr>))\<lparr>xa_worker_last := (xa_worker_last acc2)[wi := Some i]\<rparr>"
      then show ?thesis
        by (auto intro!: exec_rel_counts [OF r2] simp: set_row_bare bare_def) (simp add: set_row_def)
    qed (use r2 in simp)
  qed
qed

definition given_marker :: "u64 \<Rightarrow> pgwt_trace_event \<Rightarrow> bool" where
  "given_marker to_ns ev \<longleftrightarrow> (is_exec_marker ev \<longrightarrow> timestamp_ns ev \<le> to_ns \<and> \<not> event_right_open_flagged ev)"

lemma state_carry_plan:
  "state_carry (plan_start ev st) = (state_carry st)\<lparr>cy_plan := Some (timestamp_ns ev, query_id ev)\<rparr>"
  "state_carry (plan_end ev st) = m_plan_end ev (state_carry st)"
  "ps_pid (plan_start ev st) = ps_pid st" "ps_pid (plan_end ev st) = ps_pid st"
  by (simp_all add: plan_start_def plan_end_def state_carry_def m_plan_end_def Let_def)

lemma pop_row:
  assumes "exec_pid_pop_row st = (popped, st')"
  shows "ps_pid st' = ps_pid st" "state_carry st' = (state_carry st)\<lparr>cy_open := butlast (ps_open_rows st)\<rparr>"
    "popped = (if ps_open_rows st = [] then None else Some (last (ps_open_rows st)))"
  using assms by (auto simp: exec_pid_pop_row_def state_carry_def Let_def split: if_splits)

lemma exec_end_rows:
  assumes "map bare rs = map (x_exec from_ns to_ns) rows" and "closed_by to_ns rows" and "timestamp_ns ev \<le> to_ns"
    and "i < length rows" and "xr_close (rows ! i) = None"
  shows "map bare (if i < length rs \<and> timestamp_ns ev \<ge> ex_start_ns (rs ! i) then rs[i := end_row ev (rs ! i)] else rs) =
    map (x_exec from_ns to_ns) (m_end ev i rows)" "closed_by to_ns (m_end ev i rows)"
proof -
  have len: "length rs = length rows" using assms(1) by (metis length_map)
  note row = exec_rel_row [OF assms(1,4)]
  show "map bare (if i < length rs \<and> timestamp_ns ev \<ge> ex_start_ns (rs ! i) then rs[i := end_row ev (rs ! i)] else rs) =
    map (x_exec from_ns to_ns) (m_end ev i rows)"
    using len row(2) x_exec_end(1) [OF row(1) assms(5,3)] assms(1,4)
    by (auto simp: m_end_def intro!: map_bare_update)
  show "closed_by to_ns (m_end ev i rows)" using assms(2,3) by (simp add: m_end_def closed_by_update)
qed

text \<open>The five markers, one at a time, on a backend whose state is at hand.\<close>

lemma marker_rel:
  assumes "exec_rel from_ns to_ns acc (rows, cs)" and "si < length (xa_states acc)"
    and "ps_pid (xa_states acc ! si) = pid ev" and "state_carry (xa_states acc ! si) = cs (pid ev)"
    and "timestamp_ns ev \<le> to_ns"
  defines "st \<equiv> xa_states acc ! si"
  shows "old_event ev = PGWT_MARKER_PLAN_START \<Longrightarrow>
      exec_rel from_ns to_ns (set_state acc si (plan_start ev st)) (m_step ev (rows, cs))"
    and "old_event ev = PGWT_MARKER_PLAN_END \<Longrightarrow>
      exec_rel from_ns to_ns (set_state acc si (plan_end ev st)) (m_step ev (rows, cs))"
    and "old_event ev = PGWT_MARKER_EXEC_START \<Longrightarrow> exec_start env from_ns to_ns ev acc si = Some acc' \<Longrightarrow>
      exec_rel from_ns to_ns acc' (m_step ev (rows, cs))"
    and "old_event ev = PGWT_MARKER_EXEC_END \<Longrightarrow>
      exec_rel from_ns to_ns (exec_end ev acc si) (m_step ev (rows, cs))"
    and "old_event ev = PGWT_MARKER_CMD_END \<Longrightarrow>
      exec_rel from_ns to_ns (cmd_end ev acc si) (m_step ev (rows, cs))"
proof -
  have R: "m_inv (rows, cs)" "closed_by to_ns rows" "map bare (xa_rows acc) = map (x_exec from_ns to_ns) rows"
    using assms(1) by (simp_all add: exec_rel_def)
  have len: "length (xa_rows acc) = length rows" by (rule exec_rel_length [OF assms(1)])
  have inv: "m_inv (m_step ev (rows, cs))" by (rule m_inv_step [OF R(1)])
  have upd: "exec_rel from_ns to_ns acc2 (m_step ev (rows, cs))"
    if "m_step ev (rows, cs) = (rows', cs(pid ev := state_carry st'))" "ps_pid st' = pid ev"
      "map bare (xa_rows acc2) = map (x_exec from_ns to_ns) rows'" "closed_by to_ns rows'"
      "xa_states acc2 = (xa_states acc)[si := st']" for acc2 rows' st'
    using that inv assms(1-3) states_carry_update [of "xa_states acc" si st'] map_key_update [of ps_pid st' "xa_states acc" si]
    by (simp add: exec_rel_def)
  have c: "state_carry st = cs (pid ev)" "ps_pid st = pid ev" "ps_open_rows st = cy_open (cs (pid ev))"
    using assms(3,4) by (simp_all add: st_def state_carry_def [of "xa_states acc ! si", symmetric])
      (metis carry.select_convs(1) state_carry_def)
  show "exec_rel from_ns to_ns (set_state acc si (plan_start ev st)) (m_step ev (rows, cs))"
    if "old_event ev = PGWT_MARKER_PLAN_START"
    by (rule upd [of rows "plan_start ev st"]) (use R c that in \<open>simp_all add: m_step_simps(1) state_carry_plan set_state_def\<close>)
  show "exec_rel from_ns to_ns (set_state acc si (plan_end ev st)) (m_step ev (rows, cs))"
    if "old_event ev = PGWT_MARKER_PLAN_END"
    by (rule upd [of rows "plan_end ev st"]) (use R c that in \<open>simp_all add: m_step_simps(2) state_carry_plan set_state_def\<close>)
  show "exec_rel from_ns to_ns (exec_end ev acc si) (m_step ev (rows, cs))"
    if m: "old_event ev = PGWT_MARKER_EXEC_END"
  proof -
    obtain popped st' where po: "exec_pid_pop_row st = (popped, st')" by (cases "exec_pid_pop_row st")
    note P = pop_row [OF po]
    show ?thesis
    proof (cases "cy_open (cs (pid ev)) = []")
      case True
      show ?thesis
        by (rule upd [of rows st'])
          (use True R P po c m in \<open>simp_all add: m_step_simps(4) exec_end_def st_def [symmetric] set_state_def\<close>)
    next
      case False
      let ?i = "last (cy_open (cs (pid ev)))"
      have i: "?i < length rows" "xr_close (rows ! ?i) = None" using m_invD [OF R(1), of ?i "pid ev"] False by auto
      note E = exec_end_rows [OF R(3,2) assms(5) i]
      have x: "xa_rows (exec_end ev acc si) =
          (if ?i < length (xa_rows acc) \<and> timestamp_ns ev \<ge> ex_start_ns (xa_rows acc ! ?i)
           then (xa_rows acc)[?i := end_row ev (xa_rows acc ! ?i)] else xa_rows acc)"
        "xa_states (exec_end ev acc si) = (xa_states acc)[si := st']"
        using False P(3) po c by (auto simp: exec_end_def st_def [symmetric] set_state_def set_row_def Let_def)
      show ?thesis
        by (rule upd [of "m_end ev ?i rows" st']) (use False E P c m x in \<open>simp_all add: m_step_simps(4)\<close>)
    qed
  qed
  show "exec_rel from_ns to_ns (cmd_end ev acc si) (m_step ev (rows, cs))"
    if m: "old_event ev = PGWT_MARKER_CMD_END"
    by (rule upd [of "fold (m_infer ev) (rev (cy_open (cs (pid ev)))) rows"
          "st\<lparr>ps_open_rows := [], ps_top_attributable := False, ps_plan_open := False, ps_plan_ready := False\<rparr>"])
      (use cmd_close_rows [OF R(3) assms(5) R(2)] c m in
        \<open>simp_all add: m_step_simps(5) cmd_end_def st_def [symmetric] set_state_def Let_def empty_carry_def
          state_carry_def [of "_\<lparr>ps_plan_ready := False\<rparr>"]\<close>)
  show "exec_rel from_ns to_ns acc' (m_step ev (rows, cs))"
    if m: "old_event ev = PGWT_MARKER_EXEC_START" "exec_start env from_ns to_ns ev acc si = Some acc'"
  proof -
    obtain i acc1 st' where a: "execution_append env acc (start_row from_ns ev st) = Some (i, acc1)"
      "exec_pid_push_row env st i = Some st'" "acc' = set_state acc1 si (st'\<lparr>ps_plan_ready := False\<rparr>)"
      using m(2) assms(5) by (auto simp: exec_start_def st_def Let_def split: option.splits)
    note A = append_row [OF a(1)] and P = push_row [OF a(2)]
    have "closed_by to_ns (rows @ [m_row ev (cs (pid ev))])" using R(2) by (simp add: closed_by_def m_row_def)
    then show ?thesis
      by (intro upd [of "rows @ [m_row ev (cs (pid ev))]" "st'\<lparr>ps_plan_ready := False\<rparr>"])
        (use R A P a(3) c len start_row_view [of from_ns ev st to_ns] m(1) in
          \<open>simp_all add: m_step_simps(3) set_state_def\<close>)
  qed
qed

lemma exec_event_rel:
  assumes "exec_rel from_ns to_ns acc m" and "given_marker to_ns ev"
    and "exec_event env from_ns to_ns f links ev acc = Some acc'"
  shows "exec_rel from_ns to_ns acc' (m_step ev m)"
proof (cases "event_right_open_flagged ev")
  case True
  then have "\<not> is_exec_marker ev" using assms(2) by (simp add: given_marker_def)
  then show ?thesis using True assms by (simp add: exec_event_def m_step_inert)
next
  case False
  obtain rows cs where m: "m = (rows, cs)" by (cases m)
  obtain si acc1 where g: "exec_pid_state_get env acc (pid ev) = Some (si, acc1)"
    using assms(3) False by (auto simp: exec_event_def split: option.splits)
  note G = exec_rel_get [OF assms(1) [unfolded m] g]
  have c: "state_carry (xa_states acc1 ! si) = cs (pid ev)" using G(4) by simp
  show ?thesis
  proof (cases "is_exec_marker ev")
    case True
    then have ts: "timestamp_ns ev \<le> to_ns" using assms(2) by (simp add: given_marker_def)
    note K = marker_rel [OF G(1-3) c ts]
    show ?thesis
      using True assms(3) False g K unfolding m
      by (auto simp: exec_event_def is_exec_marker_def Let_def simp del: marker_ids split: if_splits)
  next
    case nm: False
    then have "acc' = acc1 \<or> count_wait env from_ns to_ns f links ev acc1 si = Some acc'"
      using assms(3) False g by (auto simp: exec_event_def is_exec_marker_def Let_def simp del: marker_ids split: if_splits)
    then show ?thesis using G(1) count_wait_rel [OF G(1)] nm by (auto simp: m m_step_inert)
  qed
qed

interpretation compute: marker_implementation "\<lambda>ev acc. exec_event env from_ns to_ns f links ev acc"
    "exec_rel from_ns to_ns" "given_marker to_ns" for env from_ns to_ns f links
  by unfold_locales (rule exec_event_rel)

lemma exec_loop_run: "exec_loop env from_ns to_ns f links evs acc = compute.run env from_ns to_ns f links evs acc"
  by (induction evs arbitrary: acc) (auto split: option.splits)

text \<open>What a request returns is what the markers mean, seen through its window.\<close>

lemma compute_executions_spec:
  assumes "pgwt_compute_executions env events from_ns to_ns f links = Some rows"
    and "list_all (given_marker to_ns) events"
  shows "map bare rows = filter (exec_kept from_ns to_ns) (map (x_exec from_ns to_ns) (fst (m_run events)))"
proof -
  define a0 where "a0 = \<lparr>xa_rows = [], xa_cap_rows = 0, xa_states = [], xa_cap_states = 0,
    xa_worker_last = replicate (length links) None\<rparr>"
  from assms(1) obtain acc where acc: "exec_loop env from_ns to_ns f links events a0 = Some acc"
    "rows = filter (exec_kept from_ns to_ns) (xa_rows acc)"
    by (auto simp: pgwt_compute_executions_def a0_def split: if_splits option.splits)
  have "exec_rel from_ns to_ns a0 ([], \<lambda>_. empty_carry)"
    using m_inv_init by (simp add: exec_rel_def a0_def closed_by_def states_carry_def keyed_def fun_eq_iff)
  from compute.run_rel [OF this assms(2) acc(1) [unfolded exec_loop_run]]
  have "map bare (xa_rows acc) = map (x_exec from_ns to_ns) (fst (m_run events))"
    by (simp add: exec_rel_def m_run_def)
  moreover have "exec_kept from_ns to_ns (bare r) = exec_kept from_ns to_ns r" for r by (simp add: exec_kept_def)
  ultimately show ?thesis unfolding acc(2) by (metis (mono_tags, lifting) comp_apply filter_cong filter_map)
qed

end
