(* ===== verification/Exec_Index.thy ===== *)
theory Exec_Index
  imports Executions
begin

text \<open>
  The executions index of src/src/exec_index.c: committed blocks are fed in order, the markers of each
  backend open and close rows across block boundaries, sealing computes the prefilter bounds of every
  block, and a query answers a window from the rows alone. Allocation answers are parameters; the pid
  index is the one of Hash_Index, whose undefined outcomes (a probe that would not end, an int overflow
  of its load test) are the outcome \<open>None\<close> here. The lemmas relate the index to the marker machine of
  Executions and, through it, to pgwt_compute_executions on the raw records.
\<close>

section \<open>The index\<close>

datatype pgwt_exec_index_refusal =
    EXEC_INDEX_OK | EXEC_REFUSE_NULL | EXEC_REFUSE_VERSION | EXEC_REFUSE_UNSEALED | EXEC_REFUSE_BUILD_FAILED
  | EXEC_REFUSE_EMPTY | EXEC_REFUSE_RANGE | EXEC_REFUSE_BAD_WINDOW | EXEC_REFUSE_GAP | EXEC_REFUSE_ALLOC

fun pgwt_exec_index_refusal_str :: "pgwt_exec_index_refusal \<Rightarrow> string" where
  "pgwt_exec_index_refusal_str EXEC_INDEX_OK = ''ok''"
| "pgwt_exec_index_refusal_str EXEC_REFUSE_NULL = ''null-argument''"
| "pgwt_exec_index_refusal_str EXEC_REFUSE_VERSION = ''version-mismatch''"
| "pgwt_exec_index_refusal_str EXEC_REFUSE_UNSEALED = ''unsealed''"
| "pgwt_exec_index_refusal_str EXEC_REFUSE_BUILD_FAILED = ''build-failed''"
| "pgwt_exec_index_refusal_str EXEC_REFUSE_EMPTY = ''empty-index''"
| "pgwt_exec_index_refusal_str EXEC_REFUSE_RANGE = ''window-outside-coverage''"
| "pgwt_exec_index_refusal_str EXEC_REFUSE_BAD_WINDOW = ''bad-window''"
| "pgwt_exec_index_refusal_str EXEC_REFUSE_GAP = ''block-gap-or-reorder''"
| "pgwt_exec_index_refusal_str EXEC_REFUSE_ALLOC = ''allocation-failure''"

record pgwt_exec_index_entry =
  xe_pid :: u32
  xe_query_id :: u64
  xe_start_ns :: u64
  xe_close_ns :: u64
  xe_close_query_id :: u64
  xe_plan_start_ns :: u64
  xe_plan_end_ns :: u64
  xe_has_plan :: bool
  xe_closed :: bool
  xe_close_inferred :: bool

record pgwt_exec_index_chunk =
  xc_block_idx :: int
  xc_first_row :: nat
  xc_n_rows :: nat
  xc_block_first_ns :: u64
  xc_block_last_ns :: u64
  xc_min_start_ns :: u64
  xc_max_end_ns :: u64

record exec_pid_carry =
  xy_pid :: u32
  xy_open_rows :: "nat list"
  xy_cap_open :: nat
  xy_plan_start_ns :: u64
  xy_plan_query_id :: u64
  xy_plan_open :: bool
  xy_ready_plan_start_ns :: u64
  xy_ready_plan_end_ns :: u64
  xy_ready_plan_query_id :: u64
  xy_plan_ready :: bool

record pgwt_exec_index =
  xi_version :: u32
  xi_sealed :: bool
  xi_failed :: bool
  xi_build_refusal :: pgwt_exec_index_refusal
  xi_rows :: "pgwt_exec_index_entry list"
  xi_cap_rows :: nat
  xi_chunks :: "pgwt_exec_index_chunk list"
  xi_cap_chunks :: nat
  xi_cover_from_ns :: u64
  xi_cover_to_ns :: u64
  xi_next_block_idx :: int
  xi_last_event_ns :: u64
  xi_have_last_event :: bool
  xi_pids :: "exec_pid_carry list"
  xi_cap_pids :: nat
  xi_pid_ix :: "pgwt_pid_index option"

definition PGWT_EXEC_INDEX_VERSION :: u32 where [simp]: "PGWT_EXEC_INDEX_VERSION = 1"
definition PGWT_EXEC_INDEX_NOT_INDEXED :: int where [simp]: "PGWT_EXEC_INDEX_NOT_INDEXED = -1"

definition pgwt_exec_index_init :: pgwt_exec_index where
  "pgwt_exec_index_init =
     \<lparr>xi_version = PGWT_EXEC_INDEX_VERSION, xi_sealed = False, xi_failed = False, xi_build_refusal = EXEC_INDEX_OK,
      xi_rows = [], xi_cap_rows = 0, xi_chunks = [], xi_cap_chunks = 0, xi_cover_from_ns = 0, xi_cover_to_ns = 0,
      xi_next_block_idx = 0, xi_last_event_ns = 0, xi_have_last_event = False, xi_pids = [], xi_cap_pids = 0,
      xi_pid_ix = None\<rparr>"

text \<open>Whether a capacity is served: rows, chunks, backends, open stacks, the pid index and its growth, query rows.\<close>

record exec_index_env =
  xm_rows :: "nat \<Rightarrow> bool"
  xm_chunks :: "nat \<Rightarrow> bool"
  xm_pids :: "nat \<Rightarrow> bool"
  xm_open :: "nat \<Rightarrow> bool"
  xm_pid_ix :: bool
  xm_pid_grow :: "nat \<Rightarrow> bool"
  xm_query :: "nat \<Rightarrow> bool"

definition exec_fail_build :: "pgwt_exec_index_refusal \<Rightarrow> pgwt_exec_index \<Rightarrow> int \<times> pgwt_exec_index" where
  "exec_fail_build why idx =
     (-1, idx\<lparr>xi_failed := True,
              xi_build_refusal := (if xi_build_refusal idx = EXEC_INDEX_OK then why else xi_build_refusal idx),
              xi_sealed := False\<rparr>)"

section \<open>Carried state\<close>

definition zero_carry :: "u32 \<Rightarrow> exec_pid_carry" where
  "zero_carry p = \<lparr>xy_pid = p, xy_open_rows = [], xy_cap_open = 0, xy_plan_start_ns = 0, xy_plan_query_id = 0,
     xy_plan_open = False, xy_ready_plan_start_ns = 0, xy_ready_plan_end_ns = 0, xy_ready_plan_query_id = 0,
     xy_plan_ready = False\<rparr>"

text \<open>The slot of a new backend, once its array entry is available.\<close>

definition carry_put :: "exec_index_env \<Rightarrow> pgwt_exec_index \<Rightarrow> pgwt_pid_index \<Rightarrow> u32
    \<Rightarrow> (nat option \<times> pgwt_exec_index) option" where
  "carry_put env idx ix p =
     (let at = length (xi_pids idx) in
      case pgwt_pid_index_put (xm_pid_grow env) ix p (int at) of
        Some (PutOk, ix) \<Rightarrow> Some (Some at, idx\<lparr>xi_pid_ix := Some ix, xi_pids := xi_pids idx @ [zero_carry p]\<rparr>)
      | Some (PutNoMem, ix) \<Rightarrow> Some (None, idx\<lparr>xi_pid_ix := Some ix\<rparr>)
      | _ \<Rightarrow> None)"

definition carry_get :: "exec_index_env \<Rightarrow> pgwt_exec_index \<Rightarrow> u32 \<Rightarrow> (nat option \<times> pgwt_exec_index) option" where
  "carry_get env idx p =
     (if xi_pid_ix idx = None \<and> \<not> xm_pid_ix env then Some (None, idx)
      else
        let ix = (case xi_pid_ix idx of Some ix \<Rightarrow> ix | None \<Rightarrow> pgwt_pid_index_init);
            idx = idx\<lparr>xi_pid_ix := Some ix\<rparr>
        in case pgwt_pid_index_find ix p of
             None \<Rightarrow> None
           | Some slot \<Rightarrow>
               if slot \<ge> 0 then Some (Some (nat slot), idx)
               else if length (xi_pids idx) \<ge> xi_cap_pids idx
               then let nc = (if xi_cap_pids idx \<noteq> 0 then xi_cap_pids idx * 2 else 64)
                    in if \<not> xm_pids env nc then Some (None, idx)
                       else carry_put env (idx\<lparr>xi_cap_pids := nc\<rparr>) ix p
               else carry_put env idx ix p)"

definition carry_push :: "exec_index_env \<Rightarrow> exec_pid_carry \<Rightarrow> nat \<Rightarrow> exec_pid_carry option" where
  "carry_push env st row_idx =
     (let nc = (if xy_cap_open st \<noteq> 0 then xy_cap_open st * 2 else 4);
          st' = st\<lparr>xy_open_rows := xy_open_rows st @ [row_idx]\<rparr>
      in if length (xy_open_rows st) \<ge> xy_cap_open st
         then if xm_open env nc then Some (st'\<lparr>xy_cap_open := nc\<rparr>) else None
         else Some st')"

definition carry_pop :: "exec_pid_carry \<Rightarrow> nat option \<times> exec_pid_carry" where
  "carry_pop st = (if xy_open_rows st = [] then (None, st)
     else (Some (last (xy_open_rows st)), st\<lparr>xy_open_rows := butlast (xy_open_rows st)\<rparr>))"

definition rows_append :: "exec_index_env \<Rightarrow> pgwt_exec_index \<Rightarrow> pgwt_exec_index_entry \<Rightarrow> (nat \<times> pgwt_exec_index) option" where
  "rows_append env idx e =
     (let n = length (xi_rows idx);
          nc = (if xi_cap_rows idx \<noteq> 0 then xi_cap_rows idx * 2 else 128);
          idx' = idx\<lparr>xi_rows := xi_rows idx @ [e]\<rparr>
      in if n \<ge> xi_cap_rows idx
         then if xm_rows env nc then Some (n, idx'\<lparr>xi_cap_rows := nc\<rparr>) else None
         else Some (n, idx'))"

section \<open>One record\<close>

definition set_carry :: "pgwt_exec_index \<Rightarrow> nat \<Rightarrow> exec_pid_carry \<Rightarrow> pgwt_exec_index" where
  "set_carry idx ci st = idx\<lparr>xi_pids := (xi_pids idx)[ci := st]\<rparr>"

definition index_plan_end :: "pgwt_trace_event \<Rightarrow> exec_pid_carry \<Rightarrow> exec_pid_carry" where
  "index_plan_end ev st =
     (let st = (if xy_plan_open st \<and> timestamp_ns ev \<ge> xy_plan_start_ns st
                then st\<lparr>xy_ready_plan_start_ns := xy_plan_start_ns st, xy_ready_plan_end_ns := timestamp_ns ev,
                        xy_ready_plan_query_id := (if xy_plan_query_id st \<noteq> 0 then xy_plan_query_id st else query_id ev),
                        xy_plan_ready := True\<rparr>
                else st)
      in st\<lparr>xy_plan_open := False\<rparr>)"

definition index_entry :: "pgwt_trace_event \<Rightarrow> exec_pid_carry \<Rightarrow> pgwt_exec_index_entry" where
  "index_entry ev st =
     (let e = \<lparr>xe_pid = pid ev, xe_query_id = query_id ev, xe_start_ns = timestamp_ns ev, xe_close_ns = 0,
               xe_close_query_id = 0, xe_plan_start_ns = 0, xe_plan_end_ns = 0, xe_has_plan = False,
               xe_closed = False, xe_close_inferred = False\<rparr>
      in if xy_plan_ready st \<and>
            (xy_ready_plan_query_id st = 0 \<or> xe_query_id e = 0 \<or> xy_ready_plan_query_id st = xe_query_id e)
         then e\<lparr>xe_plan_start_ns := xy_ready_plan_start_ns st, xe_plan_end_ns := xy_ready_plan_end_ns st,
                xe_has_plan := True\<rparr>
         else e)"

definition index_start :: "exec_index_env \<Rightarrow> pgwt_trace_event \<Rightarrow> pgwt_exec_index \<Rightarrow> nat
    \<Rightarrow> pgwt_exec_index + pgwt_exec_index" where
  "index_start env ev idx ci =
     (let st = xi_pids idx ! ci in
      case rows_append env idx (index_entry ev st) of
        None \<Rightarrow> Inl idx
      | Some (row_idx, idx) \<Rightarrow>
          (case carry_push env st row_idx of
             None \<Rightarrow> Inl idx
           | Some st \<Rightarrow> Inr (set_carry idx ci (st\<lparr>xy_plan_ready := False\<rparr>))))"

definition close_entry :: "pgwt_trace_event \<Rightarrow> u64 \<Rightarrow> bool \<Rightarrow> pgwt_exec_index_entry \<Rightarrow> pgwt_exec_index_entry" where
  "close_entry ev q inferred e = e\<lparr>xe_closed := True, xe_close_ns := timestamp_ns ev, xe_close_inferred := inferred,
     xe_close_query_id := q\<rparr>"

definition index_end :: "pgwt_trace_event \<Rightarrow> pgwt_exec_index \<Rightarrow> nat \<Rightarrow> pgwt_exec_index" where
  "index_end ev idx ci =
     (let (popped, st) = carry_pop (xi_pids idx ! ci);
          idx = set_carry idx ci st
      in case popped of
           Some i \<Rightarrow> if i < length (xi_rows idx) \<and> timestamp_ns ev \<ge> xe_start_ns (xi_rows idx ! i)
                     then idx\<lparr>xi_rows := (xi_rows idx)[i := close_entry ev (query_id ev) False (xi_rows idx ! i)]\<rparr>
                     else idx
         | None \<Rightarrow> idx)"

fun index_cmd_close :: "pgwt_trace_event \<Rightarrow> nat list \<Rightarrow> pgwt_exec_index_entry list \<Rightarrow> pgwt_exec_index_entry list" where
  "index_cmd_close ev [] rows = rows"
| "index_cmd_close ev (i # is) rows =
     index_cmd_close ev is
       (if i < length rows \<and> \<not> xe_closed (rows ! i) \<and> timestamp_ns ev \<ge> xe_start_ns (rows ! i)
        then rows[i := close_entry ev 0 True (rows ! i)] else rows)"

definition index_cmd_end :: "pgwt_trace_event \<Rightarrow> pgwt_exec_index \<Rightarrow> nat \<Rightarrow> pgwt_exec_index" where
  "index_cmd_end ev idx ci =
     (let st = xi_pids idx ! ci
      in set_carry (idx\<lparr>xi_rows := index_cmd_close ev (rev (xy_open_rows st)) (xi_rows idx)\<rparr>) ci
           (st\<lparr>xy_open_rows := [], xy_plan_open := False, xy_plan_ready := False\<rparr>))"

text \<open>A record inside the loop: \<open>Inl\<close> is an allocation refusal, \<open>None\<close> an undefined pid index.\<close>

definition index_event :: "exec_index_env \<Rightarrow> pgwt_trace_event \<Rightarrow> pgwt_exec_index
    \<Rightarrow> (pgwt_exec_index + pgwt_exec_index) option" where
  "index_event env ev idx =
     (let marker = old_event ev in
      if marker \<noteq> PGWT_MARKER_PLAN_START \<and> marker \<noteq> PGWT_MARKER_PLAN_END \<and> marker \<noteq> PGWT_MARKER_EXEC_START \<and>
         marker \<noteq> PGWT_MARKER_EXEC_END \<and> marker \<noteq> PGWT_MARKER_CMD_END
      then Some (Inr idx)
      else case carry_get env idx (pid ev) of
          None \<Rightarrow> None
        | Some (None, idx) \<Rightarrow> Some (Inl idx)
        | Some (Some ci, idx) \<Rightarrow>
            let st = xi_pids idx ! ci in
            if marker = PGWT_MARKER_PLAN_START
            then Some (Inr (set_carry idx ci (st\<lparr>xy_plan_start_ns := timestamp_ns ev,
                                                xy_plan_query_id := query_id ev, xy_plan_open := True\<rparr>)))
            else if marker = PGWT_MARKER_PLAN_END then Some (Inr (set_carry idx ci (index_plan_end ev st)))
            else if marker = PGWT_MARKER_EXEC_START then Some (index_start env ev idx ci)
            else if marker = PGWT_MARKER_EXEC_END then Some (Inr (index_end ev idx ci))
            else Some (Inr (index_cmd_end ev idx ci)))"

fun index_loop :: "exec_index_env \<Rightarrow> u64 \<Rightarrow> u64 \<Rightarrow> pgwt_trace_event list \<Rightarrow> u64 \<Rightarrow> bool \<Rightarrow> pgwt_exec_index
    \<Rightarrow> ((pgwt_exec_index_refusal \<times> pgwt_exec_index) + (u64 \<times> bool \<times> pgwt_exec_index)) option" where
  "index_loop env bf bl [] last_ts have_last idx = Some (Inr (last_ts, have_last, idx))"
| "index_loop env bf bl (ev # evs) last_ts have_last idx =
     (if timestamp_ns ev < bf \<or> timestamp_ns ev > bl then Some (Inl (EXEC_REFUSE_GAP, idx))
      else if have_last \<and> timestamp_ns ev < last_ts then Some (Inl (EXEC_REFUSE_GAP, idx))
      else case index_event env ev idx of
          None \<Rightarrow> None
        | Some (Inl idx) \<Rightarrow> Some (Inl (EXEC_REFUSE_ALLOC, idx))
        | Some (Inr idx) \<Rightarrow> index_loop env bf bl evs (timestamp_ns ev) True idx)"

section \<open>Blocks\<close>

definition index_finish :: "int \<Rightarrow> u64 \<Rightarrow> u64 \<Rightarrow> nat \<Rightarrow> u64 \<Rightarrow> bool \<Rightarrow> pgwt_exec_index \<Rightarrow> pgwt_exec_index" where
  "index_finish block_idx bf bl first_row last_ts have_last idx =
     (let ch = \<lparr>xc_block_idx = block_idx, xc_first_row = first_row, xc_n_rows = length (xi_rows idx) - first_row,
                xc_block_first_ns = bf, xc_block_last_ns = bl, xc_min_start_ns = 0, xc_max_end_ns = 0\<rparr>
      in idx\<lparr>xi_last_event_ns := last_ts, xi_have_last_event := have_last,
             xi_cover_from_ns := (if xi_chunks idx = [] then bf else xi_cover_from_ns idx), xi_cover_to_ns := bl,
             xi_chunks := xi_chunks idx @ [ch], xi_next_block_idx := block_idx + 1, xi_sealed := False\<rparr>)"

text \<open>\<open>None\<close> for the records is a null pointer with a positive count, or a negative count.\<close>

definition pgwt_exec_index_add_block :: "exec_index_env \<Rightarrow> pgwt_exec_index \<Rightarrow> int \<Rightarrow> u64 \<Rightarrow> u64
    \<Rightarrow> pgwt_trace_event list option \<Rightarrow> (int \<times> pgwt_exec_index) option" where
  "pgwt_exec_index_add_block env idx block_idx bf bl events =
     (if xi_version idx \<noteq> PGWT_EXEC_INDEX_VERSION then Some (exec_fail_build EXEC_REFUSE_VERSION idx)
      else if xi_failed idx then Some (-1, idx)
      else case events of
          None \<Rightarrow> Some (exec_fail_build EXEC_REFUSE_NULL idx)
        | Some evs \<Rightarrow>
            if block_idx \<noteq> xi_next_block_idx idx then Some (exec_fail_build EXEC_REFUSE_GAP idx)
            else if bl < bf then Some (exec_fail_build EXEC_REFUSE_GAP idx)
            else if xi_chunks idx \<noteq> [] \<and> (bf < xc_block_first_ns (last (xi_chunks idx)) \<or>
                                            bl < xc_block_last_ns (last (xi_chunks idx)))
            then Some (exec_fail_build EXEC_REFUSE_GAP idx)
            else
              let nc = (if xi_cap_chunks idx \<noteq> 0 then xi_cap_chunks idx * 2 else 32) in
              if length (xi_chunks idx) \<ge> xi_cap_chunks idx \<and> \<not> xm_chunks env nc
              then Some (exec_fail_build EXEC_REFUSE_ALLOC idx)
              else
                let idx = (if length (xi_chunks idx) \<ge> xi_cap_chunks idx then idx\<lparr>xi_cap_chunks := nc\<rparr> else idx)
                in case index_loop env bf bl evs (xi_last_event_ns idx) (xi_have_last_event idx) idx of
                     None \<Rightarrow> None
                   | Some (Inl (why, idx)) \<Rightarrow> Some (exec_fail_build why idx)
                   | Some (Inr (last_ts, have_last, idx')) \<Rightarrow>
                       Some (0, index_finish block_idx bf bl (length (xi_rows idx)) last_ts have_last idx'))"

definition entry_bounds :: "pgwt_exec_index_entry \<Rightarrow> u64 \<times> u64 \<Rightarrow> u64 \<times> u64" where
  "entry_bounds e b =
     (let (mn, mx) = b; end_ns = (if xe_closed e then xe_close_ns e else UINT64_MAX)
      in (if xe_start_ns e < mn then xe_start_ns e else mn, if end_ns > mx then end_ns else mx))"

definition seal_chunk :: "pgwt_exec_index_entry list \<Rightarrow> pgwt_exec_index_chunk \<Rightarrow> pgwt_exec_index_chunk" where
  "seal_chunk rows ch =
     (if xc_n_rows ch = 0 then ch\<lparr>xc_min_start_ns := UINT64_MAX, xc_max_end_ns := 0\<rparr>
      else let (mn, mx) = fold entry_bounds (seg (xc_first_row ch) (xc_first_row ch + xc_n_rows ch) rows) (UINT64_MAX, 0)
           in ch\<lparr>xc_min_start_ns := mn, xc_max_end_ns := mx\<rparr>)"

definition pgwt_exec_index_seal :: "pgwt_exec_index \<Rightarrow> int \<times> pgwt_exec_index" where
  "pgwt_exec_index_seal idx =
     (if xi_version idx \<noteq> PGWT_EXEC_INDEX_VERSION then exec_fail_build EXEC_REFUSE_VERSION idx
      else if xi_failed idx then (-1, idx)
      else if xi_chunks idx = [] then (0, idx\<lparr>xi_sealed := True\<rparr>)
      else (0, idx\<lparr>xi_chunks := map (seal_chunk (xi_rows idx)) (xi_chunks idx), xi_sealed := True\<rparr>))"

definition pgwt_exec_index_open_at_end :: "pgwt_exec_index \<Rightarrow> int" where
  "pgwt_exec_index_open_at_end idx =
     (if xi_failed idx \<or> \<not> xi_sealed idx \<or> xi_version idx \<noteq> PGWT_EXEC_INDEX_VERSION then -1
      else int (length (filter (\<lambda>e. \<not> xe_closed e) (xi_rows idx))))"

section \<open>Queries\<close>

definition pgwt_exec_index_retains :: "u64 \<Rightarrow> u64 \<Rightarrow> bool \<Rightarrow> u64 \<Rightarrow> u64 \<Rightarrow> bool" where
  "pgwt_exec_index_retains start_ns end_ns in_progress from_ns to_ns =
     (if start_ns > to_ns then False else if \<not> in_progress \<and> end_ns < from_ns then False else True)"

record pgwt_exec_index_query_result =
  xq_rows :: "pgwt_execution list"
  xq_counts_indexed :: bool
  xq_refused :: pgwt_exec_index_refusal
  xq_chunks_total :: int
  xq_chunks_scanned :: int
  xq_rows_examined :: int

definition zero_exec_query :: pgwt_exec_index_query_result where
  "zero_exec_query = \<lparr>xq_rows = [], xq_counts_indexed = False, xq_refused = EXEC_INDEX_OK, xq_chunks_total = 0,
     xq_chunks_scanned = 0, xq_rows_examined = 0\<rparr>"

definition exec_query_refuse :: "pgwt_exec_index_refusal \<Rightarrow> int \<times> pgwt_exec_index_query_result" where
  "exec_query_refuse why = (-1, zero_exec_query\<lparr>xq_refused := why\<rparr>)"

definition entry_in_progress :: "u64 \<Rightarrow> pgwt_exec_index_entry \<Rightarrow> bool" where
  "entry_in_progress to_ns e \<longleftrightarrow> \<not> xe_closed e \<or> xe_close_ns e > to_ns"

definition query_row :: "u64 \<Rightarrow> u64 \<Rightarrow> pgwt_exec_index_entry \<Rightarrow> pgwt_execution" where
  "query_row from_ns to_ns e =
     (let in_progress = entry_in_progress to_ns e
      in \<lparr>ex_pid = xe_pid e,
          ex_query_id = (if xe_query_id e = 0 \<and> \<not> in_progress \<and> \<not> xe_close_inferred e
                         then xe_close_query_id e else xe_query_id e),
          ex_start_ns = xe_start_ns e, ex_end_ns = (if in_progress then 0 else xe_close_ns e),
          ex_plan_start_ns = xe_plan_start_ns e, ex_plan_end_ns = xe_plan_end_ns e, ex_has_plan = xe_has_plan e,
          ex_in_progress = in_progress, ex_end_inferred = (if in_progress then False else xe_close_inferred e),
          ex_started_before_window = xe_start_ns e < from_ns,
          ex_matches_event_filter = PGWT_EXEC_INDEX_NOT_INDEXED, ex_n_events = PGWT_EXEC_INDEX_NOT_INDEXED,
          ex_n_workers = PGWT_EXEC_INDEX_NOT_INDEXED\<rparr>)"

text \<open>The rows of one chunk; the capacity of the output array is carried along.\<close>

fun query_scan :: "exec_index_env \<Rightarrow> u64 \<Rightarrow> u64 \<Rightarrow> pgwt_exec_index_entry list \<Rightarrow> nat \<Rightarrow> pgwt_exec_index_query_result
    \<Rightarrow> (nat \<times> pgwt_exec_index_query_result) option" where
  "query_scan env from_ns to_ns [] cap out = Some (cap, out)"
| "query_scan env from_ns to_ns (e # es) cap out =
     (let out = out\<lparr>xq_rows_examined := xq_rows_examined out + 1\<rparr>;
          in_progress = entry_in_progress to_ns e;
          end_ns = (if in_progress then 0 else xe_close_ns e)
      in if \<not> pgwt_exec_index_retains (xe_start_ns e) end_ns in_progress from_ns to_ns
         then query_scan env from_ns to_ns es cap out
         else
           let nc = (if cap \<noteq> 0 then cap * 2 else 128);
               out' = out\<lparr>xq_rows := xq_rows out @ [query_row from_ns to_ns e]\<rparr>
           in if length (xq_rows out) \<ge> cap
              then if xm_query env nc then query_scan env from_ns to_ns es nc out' else None
              else query_scan env from_ns to_ns es cap out')"

definition exec_chunk_skipped :: "u64 \<Rightarrow> u64 \<Rightarrow> pgwt_exec_index_chunk \<Rightarrow> bool" where
  "exec_chunk_skipped from_ns to_ns ch \<longleftrightarrow> xc_n_rows ch = 0 \<or> xc_min_start_ns ch > to_ns \<or> xc_max_end_ns ch < from_ns"

fun query_chunks :: "exec_index_env \<Rightarrow> pgwt_exec_index_entry list \<Rightarrow> u64 \<Rightarrow> u64 \<Rightarrow> pgwt_exec_index_chunk list
    \<Rightarrow> nat \<Rightarrow> pgwt_exec_index_query_result \<Rightarrow> pgwt_exec_index_query_result option" where
  "query_chunks env rows from_ns to_ns [] cap out = Some out"
| "query_chunks env rows from_ns to_ns (ch # chs) cap out =
     (if exec_chunk_skipped from_ns to_ns ch then query_chunks env rows from_ns to_ns chs cap out
      else case query_scan env from_ns to_ns (seg (xc_first_row ch) (xc_first_row ch + xc_n_rows ch) rows) cap
                  (out\<lparr>xq_chunks_scanned := xq_chunks_scanned out + 1\<rparr>) of
          None \<Rightarrow> None
        | Some (cap, out) \<Rightarrow> query_chunks env rows from_ns to_ns chs cap out)"

definition pgwt_exec_index_query :: "exec_index_env \<Rightarrow> pgwt_exec_index \<Rightarrow> u64 \<Rightarrow> u64
    \<Rightarrow> int \<times> pgwt_exec_index_query_result" where
  "pgwt_exec_index_query env idx from_ns to_ns =
     (if xi_version idx \<noteq> PGWT_EXEC_INDEX_VERSION then exec_query_refuse EXEC_REFUSE_VERSION
      else if xi_failed idx
      then exec_query_refuse (if xi_build_refusal idx \<noteq> EXEC_INDEX_OK then xi_build_refusal idx
                              else EXEC_REFUSE_BUILD_FAILED)
      else if \<not> xi_sealed idx then exec_query_refuse EXEC_REFUSE_UNSEALED
      else if xi_chunks idx = [] then exec_query_refuse EXEC_REFUSE_EMPTY
      else if from_ns > to_ns then exec_query_refuse EXEC_REFUSE_BAD_WINDOW
      else if from_ns < xi_cover_from_ns idx \<or> to_ns > xi_cover_to_ns idx then exec_query_refuse EXEC_REFUSE_RANGE
      else case query_chunks env (xi_rows idx) from_ns to_ns (xi_chunks idx) 0
                  (zero_exec_query\<lparr>xq_chunks_total := int (length (xi_chunks idx))\<rparr>) of
          None \<Rightarrow> exec_query_refuse EXEC_REFUSE_ALLOC
        | Some out \<Rightarrow> (0, out))"

section \<open>The index implements the machine\<close>

definition entry_row :: "pgwt_exec_index_entry \<Rightarrow> xrow" where
  "entry_row e = \<lparr>xr_pid = xe_pid e, xr_query_id = xe_query_id e, xr_start = xe_start_ns e,
     xr_plan = (if xe_has_plan e then Some (xe_plan_start_ns e, xe_plan_end_ns e) else None),
     xr_close = (if xe_closed e then Some (xe_close_ns e, xe_close_query_id e, xe_close_inferred e) else None)\<rparr>"

definition entry_ok :: "pgwt_exec_index_entry \<Rightarrow> bool" where
  "entry_ok e \<longleftrightarrow> (if xe_has_plan e then True else xe_plan_start_ns e = 0 \<and> xe_plan_end_ns e = 0)"

definition carry_of :: "exec_pid_carry \<Rightarrow> carry" where
  "carry_of st = \<lparr>cy_open = xy_open_rows st,
     cy_plan = (if xy_plan_open st then Some (xy_plan_start_ns st, xy_plan_query_id st) else None),
     cy_ready = (if xy_plan_ready st
       then Some (xy_ready_plan_start_ns st, xy_ready_plan_end_ns st, xy_ready_plan_query_id st) else None)\<rparr>"

definition carries :: "exec_pid_carry list \<Rightarrow> u32 \<Rightarrow> carry" where
  "carries sts p = (case keyed xy_pid sts p of None \<Rightarrow> empty_carry | Some st \<Rightarrow> carry_of st)"

text \<open>The pid index maps every backend to its place in the array.\<close>

definition slots_ok :: "pgwt_pid_index \<Rightarrow> u32 list \<Rightarrow> bool" where
  "slots_ok ix ps \<longleftrightarrow> oa_ok pgwt_pid_index_hash ix \<and>
     (\<forall>p v. oa_map ix p = Some v \<longleftrightarrow> (\<exists>i < length ps. v = int i \<and> ps ! i = p))"

definition pids_ok :: "pgwt_pid_index option \<Rightarrow> u32 list \<Rightarrow> bool" where
  "pids_ok ixo ps \<longleftrightarrow> distinct ps \<and> (case ixo of None \<Rightarrow> ps = [] | Some ix \<Rightarrow> slots_ok ix ps)"

lemma slots_ok_init: "slots_ok pgwt_pid_index_init []"
  using pid_ix.inv_empty pid_ix.contents_empty by (simp add: slots_ok_def)

lemma slots_ok_find:
  assumes "slots_ok ix ps" and "pgwt_pid_index_find ix p = Some slot"
  shows "slot \<ge> 0 \<Longrightarrow> nat slot < length ps \<and> ps ! nat slot = p" and "\<not> slot \<ge> 0 \<Longrightarrow> p \<notin> set ps"
proof -
  have f: "slot = (case oa_map ix p of None \<Rightarrow> -1 | Some v \<Rightarrow> v)"
    using pid_ix.find_contents [of ix p] assms by (simp add: slots_ok_def)
  show "nat slot < length ps \<and> ps ! nat slot = p" if "slot \<ge> 0"
  proof -
    have "oa_map ix p = Some slot" using f that by (cases "oa_map ix p") auto
    then obtain i where "i < length ps" "slot = int i" "ps ! i = p" using assms(1) unfolding slots_ok_def by blast
    then show ?thesis by simp
  qed
  show "p \<notin> set ps" if n: "\<not> slot \<ge> 0"
  proof
    assume "p \<in> set ps"
    then obtain i where "i < length ps" "ps ! i = p" by (auto simp: in_set_conv_nth)
    then have "oa_map ix p = Some (int i)" using assms(1) unfolding slots_ok_def by blast
    then show False using f n by simp
  qed
qed

lemma slots_ok_put:
  assumes "slots_ok ix ps" and "p \<notin> set ps"
    and "pgwt_pid_index_put alloc ix p (int (length ps)) = Some (PutOk, ix')"
  shows "slots_ok ix' (ps @ [p])"
proof -
  have ok: "oa_ok pgwt_pid_index_hash ix" using assms(1) by (simp add: slots_ok_def)
  have m: "oa_map ix' = (oa_map ix)(p \<mapsto> int (length ps))" using pid_ix.put_contents [OF ok assms(3)] by simp
  have "oa_map ix' q = Some v \<longleftrightarrow> (\<exists>i < length (ps @ [p]). v = int i \<and> (ps @ [p]) ! i = q)" for q v
  proof (cases "q = p")
    case True
    have "i = length ps" if "i < length (ps @ [p])" "(ps @ [p]) ! i = p" for i
      using that assms(2) by (auto simp: nth_append split: if_splits)
    then show ?thesis using True m by auto
  next
    case False
    have "(\<exists>i < length (ps @ [p]). v = int i \<and> (ps @ [p]) ! i = q) \<longleftrightarrow> (\<exists>i < length ps. v = int i \<and> ps ! i = q)"
      using False by (auto simp: nth_append less_Suc_eq split: if_splits)
    then show ?thesis using False m assms(1) by (simp add: slots_ok_def)
  qed
  then show ?thesis using pid_ix.put_inv [OF ok assms(3)] by (simp add: slots_ok_def)
qed

definition index_rel :: "pgwt_exec_index \<Rightarrow> marker_state \<Rightarrow> bool" where
  "index_rel idx m \<longleftrightarrow> m_inv m \<and> map entry_row (xi_rows idx) = fst m \<and> list_all entry_ok (xi_rows idx) \<and>
     pids_ok (xi_pid_ix idx) (map xy_pid (xi_pids idx)) \<and> carries (xi_pids idx) = snd m"

text \<open>What a step leaves alone.\<close>

definition same_frame :: "pgwt_exec_index \<Rightarrow> pgwt_exec_index \<Rightarrow> bool" where
  "same_frame idx idx' \<longleftrightarrow> xi_version idx' = xi_version idx \<and> xi_failed idx' = xi_failed idx \<and>
     xi_chunks idx' = xi_chunks idx \<and> xi_cover_from_ns idx' = xi_cover_from_ns idx \<and>
     xi_next_block_idx idx' = xi_next_block_idx idx \<and> length (xi_rows idx) \<le> length (xi_rows idx')"

lemma carry_put_spec:
  assumes "carry_put env idx ix p = Some (Some ci, idx')" and "slots_ok ix (map xy_pid (xi_pids idx))"
    and "p \<notin> set (map xy_pid (xi_pids idx))" and "distinct (map xy_pid (xi_pids idx))"
  shows "ci < length (xi_pids idx') \<and> xy_pid (xi_pids idx' ! ci) = p \<and>
    pids_ok (xi_pid_ix idx') (map xy_pid (xi_pids idx')) \<and> carries (xi_pids idx') = carries (xi_pids idx) \<and>
    xi_rows idx' = xi_rows idx \<and> same_frame idx idx'"
proof -
  obtain ix' where put: "pgwt_pid_index_put (xm_pid_grow env) ix p (int (length (xi_pids idx))) = Some (PutOk, ix')"
    and idx': "ci = length (xi_pids idx)" "idx' = idx\<lparr>xi_pid_ix := Some ix', xi_pids := xi_pids idx @ [zero_carry p]\<rparr>"
    using assms(1) by (auto simp: carry_put_def Let_def split: option.splits prod.splits put_outcome.splits)
  have sl: "slots_ok ix' (map xy_pid (xi_pids idx) @ [p])"
    using slots_ok_put [OF assms(2,3)] put by simp
  have "keyed xy_pid (xi_pids idx) p = None" using assms(3) by (simp add: keyed_None)
  then have "carries (xi_pids idx @ [zero_carry p]) = carries (xi_pids idx)"
    by (auto simp: carries_def keyed_append fun_eq_iff zero_carry_def carry_of_def empty_carry_def split: option.splits)
  then show ?thesis using idx' sl assms(3,4) by (simp add: pids_ok_def zero_carry_def same_frame_def)
qed

lemma carry_get_spec:
  assumes "carry_get env idx p = Some (Some ci, idx')" and "pids_ok (xi_pid_ix idx) (map xy_pid (xi_pids idx))"
  shows "ci < length (xi_pids idx') \<and> xy_pid (xi_pids idx' ! ci) = p \<and>
    pids_ok (xi_pid_ix idx') (map xy_pid (xi_pids idx')) \<and> carries (xi_pids idx') = carries (xi_pids idx) \<and>
    xi_rows idx' = xi_rows idx \<and> same_frame idx idx'"
proof -
  define ix where "ix = (case xi_pid_ix idx of Some ix \<Rightarrow> ix | None \<Rightarrow> pgwt_pid_index_init)"
  define idx1 where "idx1 = idx\<lparr>xi_pid_ix := Some ix\<rparr>"
  have dis: "distinct (map xy_pid (xi_pids idx))" using assms(2) by (simp add: pids_ok_def)
  have sl: "slots_ok ix (map xy_pid (xi_pids idx))"
    using assms(2) slots_ok_init by (auto simp: pids_ok_def ix_def split: option.splits)
  have ns: "\<not> (xi_pid_ix idx = None \<and> \<not> xm_pid_ix env)" using assms(1) by (auto simp: carry_get_def split: if_splits)
  obtain slot where f: "pgwt_pid_index_find ix p = Some slot"
    using assms(1) ns by (auto simp: carry_get_def ix_def [symmetric] Let_def split: option.splits)
  note F = slots_ok_find [OF sl f]
  show ?thesis
  proof (cases "slot \<ge> 0")
    case True
    then have "ci = nat slot" "idx' = idx1"
      using assms(1) ns f by (auto simp: carry_get_def ix_def [symmetric] idx1_def Let_def)
    then show ?thesis using F(1) [OF True] sl dis by (auto simp: idx1_def pids_ok_def same_frame_def nth_map)
  next
    case False
    then obtain nc where "carry_put env (idx1\<lparr>xi_cap_pids := nc\<rparr>) ix p = Some (Some ci, idx')"
      using assms(1) ns f that [of "xi_cap_pids idx"]
      by (auto simp: carry_get_def ix_def [symmetric] idx1_def Let_def split: if_splits)
    from carry_put_spec [OF this] show ?thesis
      using sl dis F(2) [OF False] by (simp add: idx1_def same_frame_def)
  qed
qed

lemma carries_update:
  assumes "distinct (map xy_pid sts)" and "i < length sts" and "xy_pid st = xy_pid (sts ! i)"
  shows "carries (sts[i := st]) = (carries sts)(xy_pid st := carry_of st)"
  using keyed_update [of xy_pid sts i st] assms by (auto simp: carries_def fun_eq_iff)

lemma carries_nth: "distinct (map xy_pid sts) \<Longrightarrow> i < length sts \<Longrightarrow> carries sts (xy_pid (sts ! i)) = carry_of (sts ! i)"
  by (simp add: carries_def keyed_nth)

lemma entry_row_facts [simp]:
  "xr_start (entry_row e) = xe_start_ns e" 
  "xr_close (entry_row e) = (if xe_closed e then Some (xe_close_ns e, xe_close_query_id e, xe_close_inferred e) else None)"
  "entry_row (close_entry ev q b e) = m_close ev q b (entry_row e)" "entry_ok (close_entry ev q b e) = entry_ok e"
  by (simp_all add: entry_row_def close_entry_def m_close_def entry_ok_def)

lemma index_entry_row: "entry_row (index_entry ev st) = m_row ev (carry_of st)" "entry_ok (index_entry ev st)"
  by (simp_all add: index_entry_def entry_row_def entry_ok_def m_row_def carry_of_def Let_def)

lemma index_plan_end_carry: "carry_of (index_plan_end ev st) = m_plan_end ev (carry_of st)"
    "xy_pid (index_plan_end ev st) = xy_pid st"
  by (simp_all add: index_plan_end_def carry_of_def m_plan_end_def Let_def)

lemma carry_push_spec:
  assumes "carry_push env st i = Some st'"
  shows "xy_pid st' = xy_pid st" "carry_of (st'\<lparr>xy_plan_ready := False\<rparr>) =
    (carry_of st)\<lparr>cy_open := cy_open (carry_of st) @ [i], cy_ready := None\<rparr>"
  using assms by (auto simp: carry_push_def carry_of_def Let_def split: if_splits)

lemma carry_pop_spec:
  assumes "carry_pop st = (popped, st')"
  shows "xy_pid st' = xy_pid st" "carry_of st' = (carry_of st)\<lparr>cy_open := butlast (cy_open (carry_of st))\<rparr>"
    "popped = (if cy_open (carry_of st) = [] then None else Some (last (cy_open (carry_of st))))"
  using assms by (auto simp: carry_pop_def carry_of_def split: if_splits)

lemma index_cmd_close_rows:
  "map entry_row (index_cmd_close ev js rows) = fold (m_infer ev) js (map entry_row rows) \<and>
   (list_all entry_ok rows \<longrightarrow> list_all entry_ok (index_cmd_close ev js rows)) \<and>
   length (index_cmd_close ev js rows) = length rows"
proof (induction js arbitrary: rows)
  case (Cons i js)
  let ?go = "i < length rows \<and> \<not> xe_closed (rows ! i) \<and> timestamp_ns ev \<ge> xe_start_ns (rows ! i)"
  let ?rows = "if ?go then rows[i := close_entry ev 0 True (rows ! i)] else rows"
  have "map entry_row ?rows = m_infer ev i (map entry_row rows)" by (auto simp: m_infer_def map_update)
  moreover have "list_all entry_ok rows \<longrightarrow> list_all entry_ok ?rows"
    by (auto simp: list_all_length nth_list_update)
  ultimately show ?case using Cons.IH [of ?rows] by simp
qed simp

lemma index_end_rows:
  "map entry_row (if i < length rows \<and> timestamp_ns ev \<ge> xe_start_ns (rows ! i)
     then rows[i := close_entry ev (query_id ev) False (rows ! i)] else rows) = m_end ev i (map entry_row rows)"
  by (auto simp: m_end_def map_update)

lemma index_event_rel:
  assumes "index_rel idx m" and "index_event env ev idx = Some (Inr idx')"
  shows "index_rel idx' (m_step ev m) \<and> same_frame idx idx'"
proof (cases "is_exec_marker ev")
  case False
  then have "idx' = idx" using assms(2) by (auto simp: index_event_def is_exec_marker_def Let_def split: if_splits)
  then show ?thesis using assms(1) m_step_inert [OF False] by (simp add: same_frame_def)
next
  case mk: True
  obtain rows cs where m: "m = (rows, cs)" by (cases m)
  from mk obtain ci idx1 where g: "carry_get env idx (pid ev) = Some (Some ci, idx1)"
    using assms(2) by (auto simp: index_event_def is_exec_marker_def Let_def simp del: marker_ids split: if_splits option.splits)
  have R: "m_inv (rows, cs)" "map entry_row (xi_rows idx) = rows" "list_all entry_ok (xi_rows idx)"
    "pids_ok (xi_pid_ix idx) (map xy_pid (xi_pids idx))" "carries (xi_pids idx) = cs"
    using assms(1) by (simp_all add: index_rel_def m)
  note G = carry_get_spec [OF g R(4)]
  define st where "st = xi_pids idx1 ! ci"
  have dis: "distinct (map xy_pid (xi_pids idx1))" using G by (simp add: pids_ok_def)
  have c: "carry_of st = cs (pid ev)" "xy_pid st = pid ev" "xy_open_rows st = cy_open (cs (pid ev))"
    using G carries_nth [OF dis, of ci] R(5) by (auto simp: st_def carry_of_def)
  have inv: "m_inv (m_step ev (rows, cs))" by (rule m_inv_step [OF R(1)])
  have len: "length (xi_rows idx) = length rows" using R(2) by (metis length_map)
  have upd: "index_rel idx2 (m_step ev m) \<and> same_frame idx idx2"
    if "m_step ev (rows, cs) = (rows', cs(pid ev := carry_of st'))" "xy_pid st' = pid ev"
      "idx2 = (set_carry idx1 ci st')\<lparr>xi_rows := rs, xi_cap_rows := cap\<rparr>" "map entry_row rs = rows'" "list_all entry_ok rs"
      "length rows \<le> length rs" for idx2 rows' st' rs cap
    using that inv G R(5) dis carries_update [of "xi_pids idx1" ci st'] map_key_update [of xy_pid st' "xi_pids idx1" ci] len
    by (auto simp: index_rel_def m set_carry_def pids_ok_def same_frame_def)
  consider "old_event ev = PGWT_MARKER_PLAN_START" | "old_event ev = PGWT_MARKER_PLAN_END"
    | "old_event ev = PGWT_MARKER_EXEC_START" | "old_event ev = PGWT_MARKER_EXEC_END" | "old_event ev = PGWT_MARKER_CMD_END"
    using mk by (auto simp: is_exec_marker_def simp del: marker_ids)
  then show ?thesis
  proof cases
    case 1
    have p: "carry_of (st\<lparr>xy_plan_start_ns := timestamp_ns ev, xy_plan_query_id := query_id ev, xy_plan_open := True\<rparr>) =
        (carry_of st)\<lparr>cy_plan := Some (timestamp_ns ev, query_id ev)\<rparr>" by (simp add: carry_of_def)
    show ?thesis
      by (rule upd [where rows' = rows and rs = "xi_rows idx" and cap = "xi_cap_rows idx1" and
            st' = "st\<lparr>xy_plan_start_ns := timestamp_ns ev, xy_plan_query_id := query_id ev, xy_plan_open := True\<rparr>"])
        (use assms(2) g 1 c R G len p in \<open>auto simp: index_event_def m_step_simps(1) st_def [symmetric] set_carry_def\<close>)
  next
    case 2
    show ?thesis
      by (rule upd [where rows' = rows and st' = "index_plan_end ev st" and rs = "xi_rows idx" and cap = "xi_cap_rows idx1"])
        (use assms(2) g 2 c R G len in \<open>auto simp: index_event_def m_step_simps(2) st_def [symmetric] set_carry_def
          index_plan_end_carry\<close>)
  next
    case 3
    obtain i idx2 st2 where a: "rows_append env idx1 (index_entry ev st) = Some (i, idx2)"
      "carry_push env st i = Some st2" "idx' = set_carry idx2 ci (st2\<lparr>xy_plan_ready := False\<rparr>)"
      using assms(2) g 3 by (auto simp: index_event_def index_start_def st_def [symmetric] Let_def split: option.splits)
    have i: "i = length rows" "\<exists>cap. idx2 = idx1\<lparr>xi_rows := xi_rows idx @ [index_entry ev st], xi_cap_rows := cap\<rparr>"
      using a(1) G len by (auto simp: rows_append_def Let_def split: if_splits intro: exI [of _ "xi_cap_rows idx1"])
    then obtain cap where i2: "idx2 = idx1\<lparr>xi_rows := xi_rows idx @ [index_entry ev st], xi_cap_rows := cap\<rparr>" by blast
    have p: "xy_pid st2 = pid ev" "carry_of (st2\<lparr>xy_plan_ready := False\<rparr>) =
        (cs (pid ev))\<lparr>cy_open := cy_open (cs (pid ev)) @ [length rows], cy_ready := None\<rparr>"
      using carry_push_spec [OF a(2)] i(1) c by simp_all
    show ?thesis
      by (rule upd [where rows' = "rows @ [m_row ev (cs (pid ev))]" and st' = "st2\<lparr>xy_plan_ready := False\<rparr>" and
            rs = "xi_rows idx @ [index_entry ev st]" and cap = cap])
        (use a(3) i2 p c R len 3 index_entry_row in \<open>simp_all add: m_step_simps(3) set_carry_def\<close>)
  next
    case 4
    obtain popped st2 where po: "carry_pop st = (popped, st2)" by (cases "carry_pop st")
    then have p: "xy_pid st2 = pid ev" "carry_of st2 = (cs (pid ev))\<lparr>cy_open := butlast (cy_open (cs (pid ev)))\<rparr>"
      "popped = (if cy_open (cs (pid ev)) = [] then None else Some (last (cy_open (cs (pid ev)))))"
      using carry_pop_spec [OF po] c by simp_all
    let ?i = "last (cy_open (cs (pid ev)))" and ?r = "xi_rows idx"
    let ?rs = "if cy_open (cs (pid ev)) = [] then ?r else if ?i < length ?r \<and> timestamp_ns ev \<ge> xe_start_ns (?r ! ?i)
       then ?r[?i := close_entry ev (query_id ev) False (?r ! ?i)] else ?r"
    have e: "idx' = (set_carry idx1 ci st2)\<lparr>xi_rows := ?rs, xi_cap_rows := xi_cap_rows idx1\<rparr>"
      using assms(2) g 4 po p(3) G by (auto simp: index_event_def index_end_def st_def [symmetric] set_carry_def Let_def)
    have ok: "list_all entry_ok ?rs" using R(3) by (auto simp: list_all_length nth_list_update)
    show ?thesis
      by (rule upd [where rows' = "if cy_open (cs (pid ev)) = [] then rows else m_end ev ?i rows" and st' = st2 and
            rs = ?rs and cap = "xi_cap_rows idx1", OF _ p(1) e _ ok])
        (use p 4 R(2) len index_end_rows [of ?i ?r ev] in \<open>auto simp: m_step_simps(4)\<close>)
  next
    case 5
    show ?thesis
      by (rule upd [where rows' = "fold (m_infer ev) (rev (cy_open (cs (pid ev)))) rows" and
            st' = "st\<lparr>xy_open_rows := [], xy_plan_open := False, xy_plan_ready := False\<rparr>" and
            rs = "index_cmd_close ev (rev (xy_open_rows st)) (xi_rows idx)" and cap = "xi_cap_rows idx1"])
        (use assms(2) g 5 c R G len index_cmd_close_rows [of ev "rev (xy_open_rows st)" "xi_rows idx"] in
          \<open>auto simp: index_event_def m_step_simps(5) st_def [symmetric] set_carry_def index_cmd_end_def Let_def
            carry_of_def empty_carry_def\<close>)
  qed
qed

definition index_step :: "exec_index_env \<Rightarrow> pgwt_trace_event \<Rightarrow> pgwt_exec_index \<Rightarrow> pgwt_exec_index option" where
  "index_step env ev idx = (case index_event env ev idx of Some (Inr idx) \<Rightarrow> Some idx | _ \<Rightarrow> None)"

lemma index_step_Some: "index_step env ev idx = Some idx' \<longleftrightarrow> index_event env ev idx = Some (Inr idx')"
  by (auto simp: index_step_def split: option.splits sum.splits)

interpretation index: marker_implementation "index_step env" index_rel "\<lambda>_. True" for env
  by unfold_locales (use index_event_rel in \<open>auto simp: index_step_def split: option.splits sum.splits\<close>)

section \<open>Records past the window\<close>

text \<open>
  A record stamped after \<open>to_ns\<close> is invisible through the window: it can only close a row that the
  window shows as open, or open a row that the window drops.
\<close>

definition visible :: "u64 \<Rightarrow> u64 \<Rightarrow> marker_state \<Rightarrow> pgwt_execution list" where
  "visible from_ns to_ns m = filter (exec_kept from_ns to_ns) (map (x_exec from_ns to_ns) (fst m))"

lemma x_exec_late_close:
  "xr_close r = None \<Longrightarrow> timestamp_ns ev > to_ns \<Longrightarrow> x_exec from_ns to_ns (m_close ev q b r) = x_exec from_ns to_ns r"
  by (simp add: x_exec_def m_close_def Let_def)

lemma late_infer:
  "timestamp_ns ev > to_ns \<Longrightarrow>
   map (x_exec from_ns to_ns) (fold (m_infer ev) js rows) = map (x_exec from_ns to_ns) rows"
proof (induction js arbitrary: rows)
  case (Cons i js)
  have "map (x_exec from_ns to_ns) (m_infer ev i rows) = map (x_exec from_ns to_ns) rows"
    using Cons.prems by (auto simp: m_infer_def x_exec_late_close intro!: map_key_update)
  then show ?case using Cons.IH [OF Cons.prems, of "m_infer ev i rows"] by simp
qed simp

lemma late_end:
  assumes "timestamp_ns ev > to_ns" and "xr_close (rows ! i) = None"
  shows "map (x_exec from_ns to_ns) (m_end ev i rows) = map (x_exec from_ns to_ns) rows"
  using assms by (auto simp: m_end_def x_exec_late_close intro!: map_key_update)

lemma late_start: "timestamp_ns ev > to_ns \<Longrightarrow> \<not> exec_kept from_ns to_ns (x_exec from_ns to_ns (m_row ev c))"
  by (simp add: exec_kept_def m_row_def)

lemma visible_late:
  assumes "m_inv m" and "timestamp_ns ev > to_ns"
  shows "visible from_ns to_ns (m_step ev m) = visible from_ns to_ns m"
proof -
  obtain rows cs where m: "m = (rows, cs)" by (cases m)
  have e: "xr_close (rows ! last (cy_open (cs (pid ev)))) = None" if "cy_open (cs (pid ev)) \<noteq> []"
    using m_invD(2) [OF assms(1) [unfolded m], of "last (cy_open (cs (pid ev)))" "pid ev"] that by simp
  show ?thesis
  proof (cases "is_exec_marker ev")
    case False
    then show ?thesis by (simp add: m_step_inert)
  next
    case True
    then consider "old_event ev = PGWT_MARKER_PLAN_START" | "old_event ev = PGWT_MARKER_PLAN_END"
      | "old_event ev = PGWT_MARKER_EXEC_START" | "old_event ev = PGWT_MARKER_EXEC_END" | "old_event ev = PGWT_MARKER_CMD_END"
      by (auto simp: is_exec_marker_def simp del: marker_ids)
    then show ?thesis
      using assms(2) e late_infer [OF assms(2)] late_end [OF assms(2)] late_start [OF assms(2)]
      by cases (auto simp: m visible_def m_step_simps)
  qed
qed

lemma visible_late_run:
  "m_inv m \<Longrightarrow> \<forall>ev \<in> set evs. timestamp_ns ev > to_ns \<Longrightarrow>
   visible from_ns to_ns (fold m_step evs m) = visible from_ns to_ns m"
  by (induction evs arbitrary: m) (simp_all add: visible_late m_inv_step)

lemma sorted_split:
  "sorted (map timestamp_ns evs) \<Longrightarrow>
   evs = filter (\<lambda>ev. timestamp_ns ev \<le> t) evs @ filter (\<lambda>ev. timestamp_ns ev > t) evs"
proof (induction evs)
  case (Cons ev evs)
  show ?case
  proof (cases "timestamp_ns ev \<le> t")
    case False
    with Cons.prems have "\<forall>e \<in> set evs. \<not> timestamp_ns e \<le> t" by force
    with False show ?thesis by (simp add: not_le filter_empty_conv [THEN iffD2])
  qed (use Cons in \<open>simp add: not_le\<close>)
qed simp

lemma visible_prefix:
  assumes "sorted (map timestamp_ns evs)"
  shows "visible from_ns to_ns (m_run evs) = visible from_ns to_ns (m_run (filter (\<lambda>ev. timestamp_ns ev \<le> to_ns) evs))"
proof -
  let ?a = "filter (\<lambda>ev. timestamp_ns ev \<le> to_ns) evs" and ?b = "filter (\<lambda>ev. timestamp_ns ev > to_ns) evs"
  have "m_run evs = fold m_step ?b (m_run ?a)"
    using sorted_split [OF assms, of to_ns] by (metis comp_apply fold_append m_run_def)
  moreover have "m_inv (m_run ?a)" by (simp add: m_run_def m_inv_run m_inv_init)
  ultimately show ?thesis using visible_late_run [of "m_run ?a" ?b to_ns from_ns] by simp
qed

section \<open>Feeding blocks\<close>

text \<open>Feeding a capture's blocks in order, as far as every call reports success.\<close>

type_synonym exec_block = "u64 \<times> u64 \<times> pgwt_trace_event list"

fun exec_feed :: "exec_index_env \<Rightarrow> int \<Rightarrow> exec_block list \<Rightarrow> pgwt_exec_index \<Rightarrow> pgwt_exec_index option" where
  "exec_feed env k [] idx = Some idx"
| "exec_feed env k ((bf, bl, evs) # bs) idx =
     (case pgwt_exec_index_add_block env idx k bf bl (Some evs) of
        Some (r, idx) \<Rightarrow> if r = 0 then exec_feed env (k + 1) bs idx else None
      | None \<Rightarrow> None)"

definition tiled :: "pgwt_exec_index \<Rightarrow> bool" where
  "tiled idx \<longleftrightarrow> concat (map (\<lambda>ch. [xc_first_row ch ..< xc_first_row ch + xc_n_rows ch]) (xi_chunks idx)) =
     [0 ..< length (xi_rows idx)]"

text \<open>After the records \<open>evs\<close>: the index stands for their markers, its chunks tile the rows, and time went forward.\<close>

definition fed :: "pgwt_trace_event list \<Rightarrow> pgwt_exec_index \<Rightarrow> bool" where
  "fed evs idx \<longleftrightarrow> index_rel idx (m_run evs) \<and> tiled idx \<and> sorted (map timestamp_ns evs) \<and>
     (\<forall>ev \<in> set evs. xi_have_last_event idx \<and> timestamp_ns ev \<le> xi_last_event_ns idx) \<and>
     xi_version idx = PGWT_EXEC_INDEX_VERSION \<and> \<not> xi_failed idx"

lemma index_loop_spec:
  assumes "index_loop env bf bl evs last_ts have_last idx = Some (Inr (last_ts', have_last', idx'))"
  shows "index.run env evs idx = Some idx' \<and> sorted (map timestamp_ns evs) \<and>
    (\<forall>ev \<in> set evs. have_last' \<and> timestamp_ns ev \<le> last_ts') \<and>
    (have_last \<longrightarrow> have_last' \<and> last_ts \<le> last_ts' \<and> (\<forall>ev \<in> set evs. last_ts \<le> timestamp_ns ev))"
  using assms
proof (induction evs arbitrary: last_ts have_last idx)
  case (Cons ev evs)
  let ?t = "timestamp_ns ev"
  obtain idx1 where st: "index_event env ev idx = Some (Inr idx1)"
    "index_loop env bf bl evs ?t True idx1 = Some (Inr (last_ts', have_last', idx'))" "have_last \<longrightarrow> last_ts \<le> ?t"
    using Cons.prems by (auto simp: not_less split: if_splits option.splits sum.splits)
  from Cons.IH [OF st(2)] st(1,3) show ?case by (auto simp: index_step_Some [THEN iffD2])
qed simp

lemma index_loop_frame:
  "index.run env evs idx = Some idx' \<Longrightarrow> index_rel idx m \<Longrightarrow> same_frame idx idx'"
proof (induction evs arbitrary: idx m)
  case (Cons ev evs)
  then obtain idx1 where st: "index_event env ev idx = Some (Inr idx1)" "index.run env evs idx1 = Some idx'"
    by (auto simp: index_step_Some split: option.splits)
  note E = index_event_rel [OF Cons.prems(2) st(1)]
  from Cons.IH [OF st(2), of "m_step ev m"] E show ?case by (simp add: same_frame_def)
qed (simp add: same_frame_def)

lemma fed_init: "fed [] pgwt_exec_index_init"
  using m_inv_init
  by (simp add: fed_def index_rel_def pgwt_exec_index_init_def m_run_def pids_ok_def carries_def keyed_def tiled_def fun_eq_iff)

lemma fed_add_block:
  assumes "fed evs idx" and "pgwt_exec_index_add_block env idx k bf bl (Some es) = Some (0, idx')"
  shows "fed (evs @ es) idx'"
proof -
  note F = assms(1) [unfolded fed_def]
  obtain cap last_ts have_last idx2 where l: "index_loop env bf bl es (xi_last_event_ns idx) (xi_have_last_event idx)
      (idx\<lparr>xi_cap_chunks := cap\<rparr>) = Some (Inr (last_ts, have_last, idx2))"
    and idx': "idx' = index_finish k bf bl (length (xi_rows idx)) last_ts have_last idx2"
    using assms(2) F that [of "xi_cap_chunks idx"]
    by (auto simp: pgwt_exec_index_add_block_def exec_fail_build_def Let_def split: if_splits option.splits sum.splits prod.splits)
  let ?idx1 = "idx\<lparr>xi_cap_chunks := cap\<rparr>"
  note L = index_loop_spec [OF l]
  have r1: "index_rel ?idx1 (m_run evs)" using F by (simp add: index_rel_def)
  have "list_all (\<lambda>_. True) es" by (simp add: list_all_iff)
  then have r2: "index_rel idx2 (m_run (evs @ es))"
    using index.run_rel [OF r1 _ conjunct1 [OF L]] by (simp add: m_run_def)
  have fr: "same_frame ?idx1 idx2" using index_loop_frame L r1 by blast
  have "sorted (map timestamp_ns (evs @ es))" using F L by (auto simp: sorted_append) (meson order_trans)
  moreover have "[0..<length (xi_rows idx)] @ [length (xi_rows idx)..<length (xi_rows idx2)] = [0..<length (xi_rows idx2)]"
    using fr upt_add_eq_append [of 0 "length (xi_rows idx)" "length (xi_rows idx2) - length (xi_rows idx)"]
    by (simp add: same_frame_def)
  then have "tiled idx'"
    using F fr by (simp add: tiled_def idx' index_finish_def same_frame_def Let_def)
  ultimately show ?thesis
    using F r2 fr L by (auto simp: fed_def idx' index_finish_def same_frame_def Let_def index_rel_def intro: order_trans)
qed

lemma fed_feed:
  "fed evs idx \<Longrightarrow> exec_feed env k bs idx = Some idx' \<Longrightarrow> fed (evs @ concat (map (\<lambda>b. snd (snd b)) bs)) idx'"
proof (induction env k bs idx arbitrary: evs rule: exec_feed.induct)
  case (2 env k bf bl es bs idx)
  then obtain idx1 where a: "pgwt_exec_index_add_block env idx k bf bl (Some es) = Some (0, idx1)"
    "exec_feed env (k + 1) bs idx1 = Some idx'"
    by (auto split: option.splits if_splits)
  have "fed ((evs @ es) @ concat (map (\<lambda>b. snd (snd b)) bs)) idx'"
    by (rule "2.IH" [OF a(1) refl _ fed_add_block [OF "2.prems"(1) a(1)] a(2)]) simp
  then show ?case by simp
qed simp

section \<open>Answering a window\<close>

definition entry_kept :: "u64 \<Rightarrow> u64 \<Rightarrow> pgwt_exec_index_entry \<Rightarrow> bool" where
  "entry_kept from_ns to_ns e \<longleftrightarrow> exec_kept from_ns to_ns (query_row from_ns to_ns e)"

lemma retains_kept:
  "pgwt_exec_index_retains (xe_start_ns e) (if entry_in_progress to_ns e then 0 else xe_close_ns e)
     (entry_in_progress to_ns e) from_ns to_ns \<longleftrightarrow> entry_kept from_ns to_ns e"
  by (auto simp: pgwt_exec_index_retains_def entry_kept_def exec_kept_def query_row_def Let_def)

lemma query_scan_rows:
  "query_scan env from_ns to_ns es cap out = Some (cap', out') \<Longrightarrow>
   xq_rows out' = xq_rows out @ map (query_row from_ns to_ns) (filter (entry_kept from_ns to_ns) es) \<and>
   xq_refused out' = xq_refused out"
proof (induction es arbitrary: cap out)
  case (Cons e es)
  then show ?case by (auto simp: Let_def retains_kept split: if_splits dest!: Cons.IH)
qed simp

lemma entry_bounds_fold:
  assumes "fold entry_bounds es (mn, mx) = (mn', mx')"
  shows "mn' \<le> mn \<and> mx \<le> mx' \<and> (\<forall>e \<in> set es. mn' \<le> xe_start_ns e \<and>
    (if xe_closed e then xe_close_ns e else UINT64_MAX) \<le> mx')"
  using assms
proof (induction es arbitrary: mn mx)
  case (Cons e es)
  obtain mn1 mx1 where b: "entry_bounds e (mn, mx) = (mn1, mx1)" by (cases "entry_bounds e (mn, mx)")
  then have "mn1 \<le> mn" "mx \<le> mx1" "mn1 \<le> xe_start_ns e" "(if xe_closed e then xe_close_ns e else UINT64_MAX) \<le> mx1"
    by (auto simp: entry_bounds_def Let_def split: if_splits)
  with Cons.IH [of mn1 mx1] Cons.prems b show ?case by (auto split: if_splits)
qed simp

lemma skipped_sound:
  assumes "exec_chunk_skipped from_ns to_ns (seal_chunk rows ch)" and "from_ns \<le> to_ns"
  shows "filter (entry_kept from_ns to_ns) (seg (xc_first_row ch) (xc_first_row ch + xc_n_rows ch) rows) = []"
proof (cases "xc_n_rows ch = 0")
  case False
  let ?es = "seg (xc_first_row ch) (xc_first_row ch + xc_n_rows ch) rows"
  obtain mn mx where f: "fold entry_bounds ?es (UINT64_MAX, 0) = (mn, mx)" by (cases "fold entry_bounds ?es (UINT64_MAX, 0)")
  note B = entry_bounds_fold [OF f]
  have sk: "mn > to_ns \<or> mx < from_ns" using assms(1) False f by (simp add: exec_chunk_skipped_def seal_chunk_def)
  have "\<not> entry_kept from_ns to_ns e" if "e \<in> set ?es" for e
  proof -
    have b: "mn \<le> xe_start_ns e" "(if xe_closed e then xe_close_ns e else UINT64_MAX) \<le> mx" using B that by blast+
    show ?thesis
    proof (cases "mn > to_ns")
      case True
      then have "xe_start_ns e > to_ns" using b(1) by simp
      then show ?thesis by (simp add: entry_kept_def exec_kept_def query_row_def Let_def)
    next
      case False
      then have mx: "mx < from_ns" using sk by blast
      then have "\<not> UINT64_MAX \<le> mx" by (metis leD order_trans word_order.extremum)
      then have c: "xe_closed e" using b(2) by (auto split: if_splits)
      then have "xe_close_ns e < from_ns" using b(2) mx by simp
      then show ?thesis using c assms(2) by (auto simp: entry_kept_def exec_kept_def query_row_def entry_in_progress_def Let_def)
    qed
  qed
  then show ?thesis by (simp add: filter_empty_conv)
qed simp

lemma query_chunks_rows:
  assumes "query_chunks env rows from_ns to_ns (map (seal_chunk rows) chs) cap out = Some out'" and "from_ns \<le> to_ns"
  shows "xq_rows out' = xq_rows out @ map (query_row from_ns to_ns) (filter (entry_kept from_ns to_ns)
      (concat (map (\<lambda>ch. seg (xc_first_row ch) (xc_first_row ch + xc_n_rows ch) rows) chs)))"
  using assms(1)
proof (induction chs arbitrary: cap out)
  case (Cons ch chs)
  let ?c = "seal_chunk rows ch" and ?es = "seg (xc_first_row ch) (xc_first_row ch + xc_n_rows ch) rows"
  have f: "xc_first_row ?c = xc_first_row ch" "xc_n_rows ?c = xc_n_rows ch"
    by (simp_all add: seal_chunk_def split: prod.splits)
  show ?case
  proof (cases "exec_chunk_skipped from_ns to_ns ?c")
    case True
    then show ?thesis using Cons skipped_sound [OF True assms(2)] by simp
  next
    case False
    then obtain cap1 out1 where q: "query_scan env from_ns to_ns ?es cap (out\<lparr>xq_chunks_scanned := xq_chunks_scanned out + 1\<rparr>) =
        Some (cap1, out1)" "query_chunks env rows from_ns to_ns (map (seal_chunk rows) chs) cap1 out1 = Some out'"
      using Cons.prems f by (auto split: option.splits)
    show ?thesis using Cons.IH [OF q(2)] query_scan_rows [OF q(1)] by simp
  qed
qed simp

lemma seg_nths: "j \<le> length xs \<Longrightarrow> seg i j xs = map ((!) xs) [i..<j]"
  by (rule nth_equalityI) (auto simp: seg_def)

lemma tiled_rows:
  assumes "tiled idx"
  shows "concat (map (\<lambda>ch. seg (xc_first_row ch) (xc_first_row ch + xc_n_rows ch) (xi_rows idx)) (xi_chunks idx)) = xi_rows idx"
proof -
  let ?ix = "\<lambda>ch. [xc_first_row ch ..< xc_first_row ch + xc_n_rows ch]"
  have "xc_first_row ch + xc_n_rows ch \<le> length (xi_rows idx)" if "ch \<in> set (xi_chunks idx)" "xc_n_rows ch \<noteq> 0" for ch
  proof -
    have "xc_first_row ch + xc_n_rows ch - 1 \<in> set (concat (map ?ix (xi_chunks idx)))" using that by force
    then have "xc_first_row ch + xc_n_rows ch - 1 \<in> set [0..<length (xi_rows idx)]" using assms by (simp only: tiled_def)
    then show ?thesis using that(2) by simp
  qed
  then have "seg (xc_first_row ch) (xc_first_row ch + xc_n_rows ch) (xi_rows idx) = map ((!) (xi_rows idx)) (?ix ch)"
    if "ch \<in> set (xi_chunks idx)" for ch
    using that by (cases "xc_n_rows ch = 0") (simp_all add: seg_nths)
  then have "concat (map (\<lambda>ch. seg (xc_first_row ch) (xc_first_row ch + xc_n_rows ch) (xi_rows idx)) (xi_chunks idx)) =
      map ((!) (xi_rows idx)) (concat (map ?ix (xi_chunks idx)))"
    by (simp add: map_concat comp_def cong: map_cong)
  then show ?thesis using assms by (simp add: tiled_def map_nth)
qed

lemma query_row_view: "entry_ok e \<Longrightarrow> bare (query_row from_ns to_ns e) = x_exec from_ns to_ns (entry_row e)"
  by (auto simp: query_row_def bare_def x_exec_def entry_row_def entry_ok_def entry_in_progress_def Let_def
      split: if_splits)

lemma query_spec:
  assumes "fed evs idx" and "pgwt_exec_index_seal idx = (0, idx')" and "pgwt_exec_index_query env idx' from_ns to_ns = (0, out)"
  shows "map bare (xq_rows out) = visible from_ns to_ns (m_run evs)"
proof -
  note F = assms(1) [unfolded fed_def index_rel_def]
  have idx': "xi_rows idx' = xi_rows idx" "xi_chunks idx' = map (seal_chunk (xi_rows idx)) (xi_chunks idx)"
    using assms(2) F by (auto simp: pgwt_exec_index_seal_def split: if_splits)
  from assms(3) have le: "from_ns \<le> to_ns"
    and q: "query_chunks env (xi_rows idx) from_ns to_ns (map (seal_chunk (xi_rows idx)) (xi_chunks idx)) 0
        (zero_exec_query\<lparr>xq_chunks_total := int (length (xi_chunks idx'))\<rparr>) = Some out"
    by (auto simp: pgwt_exec_index_query_def exec_query_refuse_def idx' split: if_splits option.splits)
  have rows: "xq_rows out = map (query_row from_ns to_ns) (filter (entry_kept from_ns to_ns) (xi_rows idx))"
    using query_chunks_rows [OF q le] tiled_rows [of idx] F by (simp add: zero_exec_query_def)
  have ok: "\<And>e. e \<in> set (xi_rows idx) \<Longrightarrow> entry_ok e" using F by (simp add: list_all_iff)
  let ?v = "\<lambda>e. x_exec from_ns to_ns (entry_row e)"
  have view: "bare (query_row from_ns to_ns e) = ?v e" if "e \<in> set (xi_rows idx)" for e
    by (rule query_row_view [OF ok [OF that]])
  have kept: "entry_kept from_ns to_ns e = exec_kept from_ns to_ns (?v e)" if "e \<in> set (xi_rows idx)" for e
  proof -
    have "exec_kept from_ns to_ns (bare (query_row from_ns to_ns e)) = entry_kept from_ns to_ns e"
      by (simp add: exec_kept_def entry_kept_def)
    then show ?thesis using view [OF that] by simp
  qed
  have "map bare (xq_rows out) = map ?v (filter (entry_kept from_ns to_ns) (xi_rows idx))"
    using rows view by simp
  also have "filter (entry_kept from_ns to_ns) (xi_rows idx) = filter (\<lambda>e. exec_kept from_ns to_ns (?v e)) (xi_rows idx)"
    by (rule filter_cong [OF refl kept])
  also have "map ?v \<dots> = filter (exec_kept from_ns to_ns) (map ?v (xi_rows idx))" by (simp add: filter_map comp_def)
  also have "map ?v (xi_rows idx) = map (x_exec from_ns to_ns) (fst (m_run evs))"
    using F by (metis (no_types, lifting) comp_apply list.map_comp map_eq_conv)
  also have "filter (exec_kept from_ns to_ns) \<dots> = visible from_ns to_ns (m_run evs)" by (simp add: visible_def)
  finally show ?thesis .
qed

lemma scan_poisoned:
  "query_scan env from_ns to_ns es cap out = Some (cap', out') \<Longrightarrow>
   list_all (\<lambda>r. ex_n_events r = -1 \<and> ex_n_workers r = -1 \<and> ex_matches_event_filter r = -1) (xq_rows out) \<Longrightarrow>
   list_all (\<lambda>r. ex_n_events r = -1 \<and> ex_n_workers r = -1 \<and> ex_matches_event_filter r = -1) (xq_rows out')"
  using query_scan_rows [of env from_ns to_ns es cap out cap' out'] by (auto simp: list_all_iff query_row_def Let_def)

lemma chunks_poisoned:
  "query_chunks env rows from_ns to_ns chs cap out = Some out' \<Longrightarrow>
   list_all (\<lambda>r. ex_n_events r = -1 \<and> ex_n_workers r = -1 \<and> ex_matches_event_filter r = -1) (xq_rows out) \<Longrightarrow>
   list_all (\<lambda>r. ex_n_events r = -1 \<and> ex_n_workers r = -1 \<and> ex_matches_event_filter r = -1) (xq_rows out')"
proof (induction chs arbitrary: cap out)
  case (Cons ch chs)
  then show ?case by (auto split: if_splits option.splits prod.splits dest!: scan_poisoned)
qed simp

lemma query_poisoned:
  "pgwt_exec_index_query env idx from_ns to_ns = (0, out) \<Longrightarrow>
   list_all (\<lambda>r. ex_n_events r = -1 \<and> ex_n_workers r = -1 \<and> ex_matches_event_filter r = -1) (xq_rows out)"
  by (auto simp: pgwt_exec_index_query_def exec_query_refuse_def zero_exec_query_def split: if_splits option.splits
      dest!: chunks_poisoned)

section \<open>Properties\<close>

text \<open>
  C38: The executions index answers a window exactly as the raw computation does. When a capture's
  blocks were all accepted in order, the index was sealed and the query answered, its rows are, row for
  row and in the same order, those of pgwt_compute_executions on any records whose plan, execution and
  command-end markers are the capture's markers up to the window's end, whatever the other records, the
  filter and the worker links: pid, query id, start, end, plan bounds, whether still in progress,
  whether the end was inferred and whether it started before the window all agree, and the three counts
  the index does not carry read as the poison value.
\<close>

theorem exec_index_refines_raw:
  assumes "exec_feed env 0 blocks pgwt_exec_index_init = Some idx" and "pgwt_exec_index_seal idx = (0, idx')"
    and "pgwt_exec_index_query env idx' from_ns to_ns = (0, out)"
    and "pgwt_compute_executions xenv events from_ns to_ns f links = Some rows"
    and "filter is_exec_marker events = filter is_exec_marker
           (filter (\<lambda>ev. timestamp_ns ev \<le> to_ns) (concat (map (\<lambda>b. snd (snd b)) blocks)))"
    and "list_all (\<lambda>ev. is_exec_marker ev \<longrightarrow> \<not> event_right_open_flagged ev) events"
  shows "map bare (xq_rows out) = map bare rows \<and>
    list_all (\<lambda>r. ex_n_events r = -1 \<and> ex_n_workers r = -1 \<and> ex_matches_event_filter r = -1) (xq_rows out)"
proof -
  let ?all = "concat (map (\<lambda>b. snd (snd b)) blocks)" and ?upto = "filter (\<lambda>ev. timestamp_ns ev \<le> to_ns)"
  have fed: "fed ?all idx" using fed_feed [OF fed_init assms(1)] by simp
  then have srt: "sorted (map timestamp_ns ?all)" by (simp add: fed_def)
  have "timestamp_ns ev \<le> to_ns" if "ev \<in> set events" "is_exec_marker ev" for ev
  proof -
    have "ev \<in> set (filter is_exec_marker events)" using that by simp
    then show ?thesis unfolding assms(5) by simp
  qed
  then have g: "list_all (given_marker to_ns) events" using assms(6) by (auto simp: list_all_iff given_marker_def)
  have "map bare (xq_rows out) = visible from_ns to_ns (m_run (filter is_exec_marker (?upto ?all)))"
    using query_spec [OF fed assms(2,3)] visible_prefix [OF srt, of from_ns to_ns] unfolding m_run_markers by simp
  also have "\<dots> = map bare rows"
    using compute_executions_spec [OF assms(4) g] unfolding assms(5) [symmetric] m_run_markers visible_def by simp
  finally show ?thesis using query_poisoned [OF assms(3)] by blast
qed

definition sample_exec_env :: exec_index_env where
  "sample_exec_env = \<lparr>xm_rows = (\<lambda>_. True), xm_chunks = (\<lambda>_. True), xm_pids = (\<lambda>_. True), xm_open = (\<lambda>_. True),
     xm_pid_ix = True, xm_pid_grow = (\<lambda>_. True), xm_query = (\<lambda>_. True)\<rparr>"

definition marker_at :: "u64 \<Rightarrow> u32 \<Rightarrow> u64 \<Rightarrow> pgwt_trace_event" where
  "marker_at t m q = \<lparr>timestamp_ns = t, pid = 7, old_event = m, new_event = m, flags = 0, duration_ns = 0, query_id = q,
     cpu_ns = 0\<rparr>"

definition sample_blocks :: "exec_block list" where
  "sample_blocks = [(10, 20, [marker_at 10 PGWT_MARKER_EXEC_START 5]), (20, 40, [marker_at 30 PGWT_MARKER_EXEC_END 5])]"

lemma first_put: "\<exists>ix. pgwt_pid_index_put (\<lambda>_. True) pgwt_pid_index_init p v = Some (PutOk, ix)"
proof -
  obtain oc ix where p: "pgwt_pid_index_put (\<lambda>_. True) pgwt_pid_index_init p v = Some (oc, ix)"
    using pid_ix.put_returns [OF pid_ix.inv_empty] by blast
  then have "oc = PutOk"
    by (auto simp: pgwt_pid_index_put_def oa_put_def pgwt_pid_index_init_def oa_init_def oa_INT_MAX_def Let_def split: option.splits)
  with p show ?thesis by blast
qed

lemma sample_feed:
  "\<exists>idx. exec_feed sample_exec_env 0 sample_blocks pgwt_exec_index_init = Some idx \<and>
     xi_chunks idx \<noteq> [] \<and> xi_cover_from_ns idx = 10 \<and> xi_cover_to_ns idx = 40 \<and> xi_version idx = 1 \<and> \<not> xi_failed idx"
proof -
  obtain ix where put: "pgwt_pid_index_put (\<lambda>_. True) pgwt_pid_index_init 7 0 = Some (PutOk, ix)"
    using first_put by blast
  have f: "pgwt_pid_index_find pgwt_pid_index_init 7 = Some (-1)" "pgwt_pid_index_find ix 7 = Some 0"
    using pid_ix.find_empty pid_ix.find_after_put(1) [OF pid_ix.inv_empty put] by blast+
  show ?thesis
    by (simp add: sample_blocks_def pgwt_exec_index_add_block_def pgwt_exec_index_init_def sample_exec_env_def
        marker_at_def index_event_def carry_get_def carry_put_def put f index_start_def rows_append_def carry_push_def
        index_end_def carry_pop_def set_carry_def zero_carry_def index_finish_def Let_def index_entry_def)
qed

lemma query_scan_total: "\<forall>c. xm_query env c \<Longrightarrow> \<exists>r. query_scan env from_ns to_ns es cap out = Some r"
  by (induction es arbitrary: cap out) (simp_all add: Let_def)

lemma query_chunks_total: "\<forall>c. xm_query env c \<Longrightarrow> \<exists>r. query_chunks env rows from_ns to_ns chs cap out = Some r"
proof (induction chs arbitrary: cap out)
  case (Cons ch chs)
  then show ?case
    using query_scan_total [OF Cons.prems, of from_ns to_ns _ cap "out\<lparr>xq_chunks_scanned := xq_chunks_scanned out + 1\<rparr>"]
    by (auto split: option.splits) (metis option.distinct(1))
qed simp

text \<open>With memory, a sealed index answers every window inside its coverage.\<close>

lemma exec_query_answers:
  assumes "\<forall>c. xm_query env c" and "xi_version idx = PGWT_EXEC_INDEX_VERSION" "\<not> xi_failed idx" "xi_sealed idx"
    and "xi_chunks idx \<noteq> []" "from_ns \<le> to_ns" "xi_cover_from_ns idx \<le> from_ns" "to_ns \<le> xi_cover_to_ns idx"
  shows "\<exists>out. pgwt_exec_index_query env idx from_ns to_ns = (0, out)"
  using assms query_chunks_total [OF assms(1), of "xi_rows idx" from_ns to_ns "xi_chunks idx" 0
      "zero_exec_query\<lparr>xq_chunks_total := int (length (xi_chunks idx))\<rparr>"]
  by (auto simp: pgwt_exec_index_query_def not_less)

definition sample_compute_env :: exec_env where
  "sample_compute_env = \<lparr>xn_states = (\<lambda>_. True), xn_open = (\<lambda>_. True), xn_rows = (\<lambda>_. True), xn_links = (\<lambda>_. True)\<rparr>"

definition sample_rows :: "pgwt_execution list" where
  "sample_rows = [\<lparr>ex_pid = 7, ex_query_id = 5, ex_start_ns = 10, ex_end_ns = 30, ex_plan_start_ns = 0, ex_plan_end_ns = 0,
     ex_has_plan = False, ex_in_progress = False, ex_end_inferred = False, ex_started_before_window = True,
     ex_matches_event_filter = 0, ex_n_events = 0, ex_n_workers = 0\<rparr>]"

theorem exec_index_refines_raw_witness:
  "\<exists>idx out. exec_feed sample_exec_env 0 sample_blocks pgwt_exec_index_init = Some idx \<and>
     pgwt_exec_index_query sample_exec_env (snd (pgwt_exec_index_seal idx)) 15 40 = (0, out) \<and>
     map bare (xq_rows out) = sample_rows"
proof -
  obtain idx where idx: "exec_feed sample_exec_env 0 sample_blocks pgwt_exec_index_init = Some idx"
    "xi_chunks idx \<noteq> []" "xi_cover_from_ns idx = 10" "xi_cover_to_ns idx = 40" "xi_version idx = 1" "\<not> xi_failed idx"
    using sample_feed by blast
  let ?s = "idx\<lparr>xi_chunks := map (seal_chunk (xi_rows idx)) (xi_chunks idx), xi_sealed := True\<rparr>"
  have seal: "pgwt_exec_index_seal idx = (0, ?s)" using idx by (simp add: pgwt_exec_index_seal_def)
  obtain out where out: "pgwt_exec_index_query sample_exec_env ?s 15 40 = (0, out)"
    using exec_query_answers [of sample_exec_env ?s 15 40] idx by (auto simp: sample_exec_env_def)
  let ?evs = "[marker_at 10 PGWT_MARKER_EXEC_START 5, marker_at 30 PGWT_MARKER_EXEC_END 5]"
  have raw: "pgwt_compute_executions sample_compute_env ?evs 15 40 None [] = Some sample_rows" by code_simp
  have "filter is_exec_marker ?evs = filter is_exec_marker
      (filter (\<lambda>ev. timestamp_ns ev \<le> 40) (concat (map (\<lambda>b. snd (snd b)) sample_blocks)))" by code_simp
  moreover have "list_all (\<lambda>ev. is_exec_marker ev \<longrightarrow> \<not> event_right_open_flagged ev) ?evs" by code_simp
  ultimately have "map bare (xq_rows out) = map bare sample_rows"
    using exec_index_refines_raw [OF idx(1) seal out raw] by blast
  then have "map bare (xq_rows out) = sample_rows" by (simp add: sample_rows_def bare_def)
  then show ?thesis using idx(1) seal out by auto
qed

end
