(* ===== verification/Live_Accum.thy ===== *)
theory Live_Accum
  imports Idle_Rule Query_Attr
begin

text \<open>
  The live accumulator of the daemon: the pure half of src/src/map_reader.c over the structures of
  src/src/map_reader.h. A pointer into one of the fixed arrays is an index into the list of the
  array's used entries; a full array is the \<open>None\<close> of the get-or-create helpers. Times are 64-bit
  words with the wrapping sums of the source. The lemmas give the time model's conservation law, the
  agreement of the per-pid and system totals, and the exactness of the marker-driven command gate.
\<close>

section \<open>State\<close>

definition HISTOGRAM_BUCKETS :: nat where [simp]: "HISTOGRAM_BUCKETS = 16"
definition MAX_BACKENDS :: nat where [simp]: "MAX_BACKENDS = 1024"
definition MAX_EVENTS_PER_PID :: nat where [simp]: "MAX_EVENTS_PER_PID = 256"
definition MAX_SYSTEM_EVENTS :: nat where [simp]: "MAX_SYSTEM_EVENTS = 4096"
definition MAX_QUERY_EVENTS :: nat where [simp]: "MAX_QUERY_EVENTS = 4096"

record pgwt_event_stats =
  es_wait_event :: u32
  es_count :: u64
  es_total_ns :: u64
  es_min_ns :: u64
  es_max_ns :: u64
  es_histogram :: "u64 list"

record pgwt_live_cmd_gate =
  cg_seen :: bool
  cg_open :: bool
  cg_anchor_ns :: u64
  cg_banked_ns :: u64

record pgwt_pid_accum =
  pa_pid :: u32
  pa_active :: bool
  pa_cat_flag_plus1 :: u32
  pa_cat_scan_tick :: int
  pa_cmd_gate :: pgwt_live_cmd_gate
  pa_qattr :: pgwt_qattr_pid
  pa_db_time_ns :: u64
  pa_cpu_time_ns :: u64
  pa_wait_time_ns :: u64
  pa_current_event :: u32
  pa_current_wait_ns :: u64
  pa_events :: "pgwt_event_stats list"

record pgwt_time_model =
  tm_db_time_ns :: u64
  tm_cpu_time_ns :: u64
  tm_offcpu_time_ns :: u64
  tm_io_time_ns :: u64
  tm_lwlock_time_ns :: u64
  tm_lock_time_ns :: u64
  tm_bufferpin_time_ns :: u64
  tm_client_time_ns :: u64
  tm_ipc_time_ns :: u64
  tm_timeout_time_ns :: u64
  tm_extension_time_ns :: u64
  tm_activity_time_ns :: u64

record pgwt_query_event_stats =
  qe_query_id :: u64
  qe_wait_event :: u32
  qe_count :: u64
  qe_total_ns :: u64
  qe_min_ns :: u64
  qe_max_ns :: u64

record pgwt_accumulator =
  acc_pids :: "pgwt_pid_accum list"
  acc_tm :: pgwt_time_model
  acc_prev_tm :: pgwt_time_model
  acc_system_events :: "pgwt_event_stats list"
  acc_query_events :: "pgwt_query_event_stats list"
  qattr_backfilled_ns :: u64
  qattr_unattributed_ns :: u64
  qattr_pending_overflow :: u64

definition zero_gate :: pgwt_live_cmd_gate where
  "zero_gate = \<lparr>cg_seen = False, cg_open = False, cg_anchor_ns = 0, cg_banked_ns = 0\<rparr>"

definition zero_tm :: pgwt_time_model where
  "zero_tm = \<lparr>tm_db_time_ns = 0, tm_cpu_time_ns = 0, tm_offcpu_time_ns = 0, tm_io_time_ns = 0,
     tm_lwlock_time_ns = 0, tm_lock_time_ns = 0, tm_bufferpin_time_ns = 0, tm_client_time_ns = 0,
     tm_ipc_time_ns = 0, tm_timeout_time_ns = 0, tm_extension_time_ns = 0, tm_activity_time_ns = 0\<rparr>"

definition pgwt_accum_init :: pgwt_accumulator where
  "pgwt_accum_init = \<lparr>acc_pids = [], acc_tm = zero_tm, acc_prev_tm = zero_tm, acc_system_events = [],
     acc_query_events = [], qattr_backfilled_ns = 0, qattr_unattributed_ns = 0,
     qattr_pending_overflow = 0\<rparr>"

section \<open>Rows\<close>

text \<open>The linear scans: the index of the first entry that matches.\<close>

fun first_idx :: "('a \<Rightarrow> bool) \<Rightarrow> 'a list \<Rightarrow> nat option" where
  "first_idx p [] = None"
| "first_idx p (x # xs) = (if p x then Some 0 else map_option Suc (first_idx p xs))"

definition new_pid :: "u32 \<Rightarrow> pgwt_pid_accum" where
  "new_pid p = \<lparr>pa_pid = p, pa_active = True, pa_cat_flag_plus1 = 0, pa_cat_scan_tick = 0,
     pa_cmd_gate = zero_gate, pa_qattr = fresh_qattr, pa_db_time_ns = 0, pa_cpu_time_ns = 0,
     pa_wait_time_ns = 0, pa_current_event = 0, pa_current_wait_ns = 0, pa_events = []\<rparr>"

definition new_event_stats :: "u32 \<Rightarrow> pgwt_event_stats" where
  "new_event_stats we = \<lparr>es_wait_event = we, es_count = 0, es_total_ns = 0, es_min_ns = UINT64_MAX,
     es_max_ns = 0, es_histogram = replicate HISTOGRAM_BUCKETS 0\<rparr>"

definition pgwt_find_pid_accum :: "pgwt_accumulator \<Rightarrow> u32 \<Rightarrow> nat option" where
  "pgwt_find_pid_accum acc p = first_idx (\<lambda>pa. pa_pid pa = p \<and> pa_active pa) (acc_pids acc)"

definition pgwt_get_or_create_pid :: "pgwt_accumulator \<Rightarrow> u32 \<Rightarrow> nat option \<times> pgwt_accumulator" where
  "pgwt_get_or_create_pid acc p =
     (case pgwt_find_pid_accum acc p of
        Some i \<Rightarrow> (Some i, acc)
      | None \<Rightarrow>
          if length (acc_pids acc) \<ge> MAX_BACKENDS then (None, acc)
          else (Some (length (acc_pids acc)), acc\<lparr>acc_pids := acc_pids acc @ [new_pid p]\<rparr>))"

definition get_or_create_row ::
  "nat \<Rightarrow> pgwt_event_stats list \<Rightarrow> u32 \<Rightarrow> nat option \<times> pgwt_event_stats list" where
  "get_or_create_row cap rows we =
     (case first_idx (\<lambda>es. es_wait_event es = we) rows of
        Some i \<Rightarrow> (Some i, rows)
      | None \<Rightarrow> if length rows \<ge> cap then (None, rows)
                else (Some (length rows), rows @ [new_event_stats we]))"

definition pgwt_get_or_create_event :: "pgwt_pid_accum \<Rightarrow> u32 \<Rightarrow> nat option \<times> pgwt_pid_accum" where
  "pgwt_get_or_create_event pa we =
     (let (i, rows) = get_or_create_row MAX_EVENTS_PER_PID (pa_events pa) we
      in (i, pa\<lparr>pa_events := rows\<rparr>))"

definition pgwt_find_system_event :: "pgwt_accumulator \<Rightarrow> u32 \<Rightarrow> nat option" where
  "pgwt_find_system_event acc we = first_idx (\<lambda>es. es_wait_event es = we) (acc_system_events acc)"

definition pgwt_get_or_create_system_event ::
  "pgwt_accumulator \<Rightarrow> u32 \<Rightarrow> nat option \<times> pgwt_accumulator" where
  "pgwt_get_or_create_system_event acc we =
     (case pgwt_find_system_event acc we of
        Some i \<Rightarrow> (Some i, acc)
      | None \<Rightarrow>
          if length (acc_system_events acc) \<ge> MAX_SYSTEM_EVENTS then (None, acc)
          else (Some (length (acc_system_events acc)),
                acc\<lparr>acc_system_events := acc_system_events acc @ [new_event_stats we]\<rparr>))"

definition pgwt_get_or_create_query_event ::
  "pgwt_accumulator \<Rightarrow> u64 \<Rightarrow> u32 \<Rightarrow> nat option \<times> pgwt_accumulator" where
  "pgwt_get_or_create_query_event acc q we =
     (case first_idx (\<lambda>qe. qe_query_id qe = q \<and> qe_wait_event qe = we) (acc_query_events acc) of
        Some i \<Rightarrow> (Some i, acc)
      | None \<Rightarrow>
          if length (acc_query_events acc) \<ge> MAX_QUERY_EVENTS then (None, acc)
          else (Some (length (acc_query_events acc)),
                acc\<lparr>acc_query_events := acc_query_events acc @
                  [\<lparr>qe_query_id = q, qe_wait_event = we, qe_count = 0, qe_total_ns = 0,
                    qe_min_ns = UINT64_MAX, qe_max_ns = 0\<rparr>]\<rparr>))"

definition pgwt_duration_to_bucket :: "u64 \<Rightarrow> nat" where
  "pgwt_duration_to_bucket ns =
     (let us = ns div 1000 in
      if us < 1 then 0 else if us < 2 then 1 else if us < 4 then 2 else if us < 8 then 3
      else if us < 16 then 4 else if us < 32 then 5 else if us < 64 then 6 else if us < 128 then 7
      else if us < 256 then 8 else if us < 512 then 9 else if us < 1024 then 10
      else if us < 2048 then 11 else if us < 4096 then 12 else if us < 8192 then 13
      else if us < 16384 then 14 else 15)"

definition add_event_stats :: "pgwt_event_stats \<Rightarrow> u64 \<Rightarrow> bool \<Rightarrow> pgwt_event_stats" where
  "add_event_stats es stat_ns histogram =
     (let es = es\<lparr>es_count := es_count es + 1, es_total_ns := es_total_ns es + stat_ns,
                  es_min_ns := (if stat_ns < es_min_ns es then stat_ns else es_min_ns es),
                  es_max_ns := (if stat_ns > es_max_ns es then stat_ns else es_max_ns es)\<rparr>
      in if histogram then
           let bucket = pgwt_duration_to_bucket stat_ns
           in if bucket < HISTOGRAM_BUCKETS
              then es\<lparr>es_histogram := (es_histogram es)[bucket := es_histogram es ! bucket + 1]\<rparr>
              else es
         else es)"

section \<open>The time model\<close>

definition pgwt_update_time_model :: "idle_state \<Rightarrow> pgwt_time_model \<Rightarrow> u32 \<Rightarrow> u64 \<Rightarrow> pgwt_time_model" where
  "pgwt_update_time_model r tm event dur =
     (if pgwt_is_idle_event r event then tm\<lparr>tm_activity_time_ns := tm_activity_time_ns tm + dur\<rparr>
      else if event = 0 then
        tm\<lparr>tm_cpu_time_ns := tm_cpu_time_ns tm + dur, tm_db_time_ns := tm_db_time_ns tm + dur\<rparr>
      else
        let cls = WE_CLASS event;
            tm = (if cls = PG_WAIT_IO then tm\<lparr>tm_io_time_ns := tm_io_time_ns tm + dur\<rparr>
                  else if cls = PG_WAIT_LWLOCK then tm\<lparr>tm_lwlock_time_ns := tm_lwlock_time_ns tm + dur\<rparr>
                  else if cls = PG_WAIT_LOCK then tm\<lparr>tm_lock_time_ns := tm_lock_time_ns tm + dur\<rparr>
                  else if cls = PG_WAIT_BUFFERPIN then tm\<lparr>tm_bufferpin_time_ns := tm_bufferpin_time_ns tm + dur\<rparr>
                  else if cls = PG_WAIT_CLIENT then tm\<lparr>tm_client_time_ns := tm_client_time_ns tm + dur\<rparr>
                  else if cls = PG_WAIT_IPC then tm\<lparr>tm_ipc_time_ns := tm_ipc_time_ns tm + dur\<rparr>
                  else if cls = PG_WAIT_TIMEOUT then tm\<lparr>tm_timeout_time_ns := tm_timeout_time_ns tm + dur\<rparr>
                  else if cls = PG_WAIT_EXTENSION then tm\<lparr>tm_extension_time_ns := tm_extension_time_ns tm + dur\<rparr>
                  else if cls = PG_WAIT_ACTIVITY then tm\<lparr>tm_activity_time_ns := tm_activity_time_ns tm + dur\<rparr>
                  else tm)
        in tm\<lparr>tm_db_time_ns := tm_db_time_ns tm + dur\<rparr>)"

definition pgwt_live_closed_cpu_ns :: "u64 \<Rightarrow> u64 \<Rightarrow> bool \<Rightarrow> u64" where
  "pgwt_live_closed_cpu_ns dur cpu cpu_accounting =
     (if \<not> cpu_accounting \<or> cpu = PGWT_CPU_NS_UNKNOWN then dur else if cpu < dur then cpu else dur)"

definition pgwt_live_open_ns :: "u64 \<Rightarrow> u64 \<Rightarrow> u64" where
  "pgwt_live_open_ns now last_ts = (if now > last_ts then now - last_ts else 0)"

definition pgwt_live_effective_event :: "u32 \<Rightarrow> u32 \<Rightarrow> bool \<Rightarrow> bool \<Rightarrow> u32" where
  "pgwt_live_effective_event we cat_flag cmd_gate_active cmd_open =
     (if we = 0 \<and> cat_flag = 0 \<and> cmd_gate_active \<and> \<not> cmd_open then PGWT_WEI_NONCMD_CPU else we)"

section \<open>The command gate\<close>

definition pgwt_live_cmd_gate_marker :: "pgwt_live_cmd_gate \<Rightarrow> u32 \<Rightarrow> u64 \<Rightarrow> pgwt_live_cmd_gate" where
  "pgwt_live_cmd_gate_marker g marker ts =
     (if marker = PGWT_MARKER_CMD_START then
        (let g = g\<lparr>cg_seen := True\<rparr>
         in if \<not> cg_open g then g\<lparr>cg_open := True, cg_anchor_ns := ts\<rparr> else g)
      else if marker = PGWT_MARKER_CMD_END then
        (let g = g\<lparr>cg_seen := True\<rparr>
         in if cg_open g then
              (let g = (if ts > cg_anchor_ns g
                        then g\<lparr>cg_banked_ns := cg_banked_ns g + (ts - cg_anchor_ns g)\<rparr> else g)
               in g\<lparr>cg_open := False\<rparr>)
            else g)
      else g)"

definition cmd_gate_open_ns :: "pgwt_live_cmd_gate \<Rightarrow> u64 \<Rightarrow> u64 \<Rightarrow> u64" where
  "cmd_gate_open_ns g t0 t1 =
     (if cg_open g then
        let a = (if cg_anchor_ns g > t0 then cg_anchor_ns g else t0)
        in if t1 > a then cg_banked_ns g + (t1 - a) else cg_banked_ns g
      else cg_banked_ns g)"

definition pgwt_live_cmd_gate_take :: "pgwt_live_cmd_gate \<Rightarrow> u64 \<Rightarrow> u64 \<Rightarrow> u64 \<times> pgwt_live_cmd_gate" where
  "pgwt_live_cmd_gate_take g t0 t1 =
     (if \<not> cg_seen g then (0, g)
      else let open_ns = cmd_gate_open_ns g t0 t1;
               g = g\<lparr>cg_banked_ns := 0\<rparr>
           in (open_ns, if cg_open g then g\<lparr>cg_anchor_ns := t1\<rparr> else g))"

definition pgwt_live_cmd_gate_peek :: "pgwt_live_cmd_gate \<Rightarrow> u64 \<Rightarrow> u64 \<Rightarrow> u64" where
  "pgwt_live_cmd_gate_peek g t0 now =
     (if \<not> cg_seen g then 0
      else let open_ns = cmd_gate_open_ns g t0 now;
               wall = (if now > t0 then now - t0 else 0)
           in if open_ns < wall then open_ns else wall)"

definition pgwt_live_cmd_majority :: "u64 \<Rightarrow> u64 \<Rightarrow> bool \<Rightarrow> bool" where
  "pgwt_live_cmd_majority open_ns wall open_now = (if wall = 0 then open_now else open_ns * 2 \<ge> wall)"

text \<open>Result: decided by markers, in a command, the gate.\<close>

definition pgwt_live_cmd_gate_classify ::
  "pgwt_live_cmd_gate option \<Rightarrow> bool \<Rightarrow> u64 \<Rightarrow> u64 \<Rightarrow> bool \<Rightarrow> bool \<times> bool \<times> pgwt_live_cmd_gate option" where
  "pgwt_live_cmd_gate_classify go consume t0 t1 fallback_open =
     (case go of
        None \<Rightarrow> (False, fallback_open, None)
      | Some g \<Rightarrow>
          if \<not> cg_seen g then (False, True, Some g)
          else let wall = (if t1 > t0 then t1 - t0 else 0);
                   (open_ns, g) = (if consume then pgwt_live_cmd_gate_take g t0 t1
                                   else (pgwt_live_cmd_gate_peek g t0 t1, g))
               in (True, pgwt_live_cmd_majority open_ns wall (cg_open g), Some g))"

section \<open>Deferred attribution in the accumulator\<close>

definition qattr_add_row :: "pgwt_accumulator \<Rightarrow> u64 \<Rightarrow> u32 \<Rightarrow> u64 \<Rightarrow> u64 \<Rightarrow> u64 \<Rightarrow> u64 \<Rightarrow> pgwt_accumulator" where
  "qattr_add_row acc q we cnt tot mn mx =
     (case pgwt_get_or_create_query_event acc q we of
        (None, acc) \<Rightarrow> acc
      | (Some i, acc) \<Rightarrow>
          let qe = acc_query_events acc ! i
          in acc\<lparr>acc_query_events := (acc_query_events acc)[i :=
               qe\<lparr>qe_count := qe_count qe + cnt, qe_total_ns := qe_total_ns qe + tot,
                  qe_min_ns := (if mn < qe_min_ns qe then mn else qe_min_ns qe),
                  qe_max_ns := (if mx > qe_max_ns qe then mx else qe_max_ns qe)\<rparr>]\<rparr>)"

definition qattr_emit :: "qattr_emit \<Rightarrow> pgwt_accumulator \<Rightarrow> pgwt_accumulator" where
  "qattr_emit em acc =
     (let (q, p, backfilled) = em;
          acc = qattr_add_row acc q (pend_we p) (pend_count p) (pend_total_ns p) (pend_min_ns p) (pend_max_ns p)
      in if backfilled then acc\<lparr>qattr_backfilled_ns := qattr_backfilled_ns acc + pend_total_ns p\<rparr>
         else acc\<lparr>qattr_unattributed_ns := qattr_unattributed_ns acc + pend_total_ns p\<rparr>)"

definition set_qattr :: "nat \<Rightarrow> pgwt_qattr_pid \<Rightarrow> pgwt_accumulator \<Rightarrow> pgwt_accumulator" where
  "set_qattr i q acc = acc\<lparr>acc_pids := (acc_pids acc)[i := (acc_pids acc ! i)\<lparr>pa_qattr := q\<rparr>]\<rparr>"

definition qattr_call :: "nat \<Rightarrow> pgwt_qattr_pid \<times> qattr_emit list \<Rightarrow> pgwt_accumulator \<Rightarrow> pgwt_accumulator" where
  "qattr_call i r acc = set_qattr i (fst r) (fold qattr_emit (snd r) acc)"

abbreviation qattr_of :: "pgwt_accumulator \<Rightarrow> nat \<Rightarrow> pgwt_qattr_pid" where
  "qattr_of acc i \<equiv> pa_qattr (acc_pids acc ! i)"

definition pgwt_live_qattr_record ::
  "idle_state \<Rightarrow> pgwt_accumulator \<Rightarrow> nat option \<Rightarrow> u64 \<Rightarrow> u32 \<Rightarrow> u64 \<Rightarrow> u32 \<Rightarrow> bool \<Rightarrow> pgwt_accumulator" where
  "pgwt_live_qattr_record r acc pa q we stat_ns cat_flag defer =
     (if cat_flag AND PGWT_EVENT_FLAG_IO_WORKER \<noteq> 0 then acc
      else if q \<noteq> 0 then
        (let acc = (case pa of
                      Some i \<Rightarrow> if defer then qattr_call i (pgwt_qattr_observe (qattr_of acc i) q) acc else acc
                    | None \<Rightarrow> acc)
         in qattr_add_row acc q we 1 stat_ns stat_ns stat_ns)
      else if cat_flag AND (PGWT_EVENT_FLAG_BACKGROUND OR PGWT_EVENT_FLAG_MAINT) \<noteq> 0 then
        (if \<not> pgwt_is_idle_event r we then
           (let acc = qattr_add_row acc 0 we 1 stat_ns stat_ns stat_ns
            in acc\<lparr>qattr_unattributed_ns := qattr_unattributed_ns acc + stat_ns\<rparr>)
         else acc)
      else if cat_flag \<noteq> 0 then acc
      else if pgwt_is_session_idle_event we then
        (case pa of
           Some i \<Rightarrow> if defer then qattr_call i (pgwt_qattr_boundary (qattr_of acc i) False) acc else acc
         | None \<Rightarrow> acc)
      else case pa of
          Some i \<Rightarrow>
            if defer then
              (let (spilled, r) = pgwt_qattr_defer (qattr_of acc i) we stat_ns;
                   acc = qattr_call i r acc
               in if spilled then acc\<lparr>qattr_pending_overflow := qattr_pending_overflow acc + 1\<rparr> else acc)
            else (let q = pgwt_qattr_resolve_now (Some (qattr_of acc i))
                  in if q \<noteq> 0 then qattr_add_row acc q we 1 stat_ns stat_ns stat_ns else acc)
        | None \<Rightarrow> acc)"

definition pgwt_live_qattr_marker ::
  "pgwt_accumulator \<Rightarrow> nat option \<Rightarrow> u32 \<Rightarrow> u64 \<Rightarrow> pgwt_accumulator" where
  "pgwt_live_qattr_marker acc pa marker q =
     (case pa of
        None \<Rightarrow> acc
      | Some i \<Rightarrow>
          if marker = PGWT_MARKER_CMD_START then qattr_call i (pgwt_qattr_boundary (qattr_of acc i) True) acc
          else if q \<noteq> 0 then qattr_call i (pgwt_qattr_observe (qattr_of acc i) q) acc
          else if marker = PGWT_MARKER_CMD_END
          then qattr_call i (pgwt_qattr_boundary (qattr_of acc i) False) acc
          else acc)"

definition pgwt_live_qattr_between_commands :: "pgwt_accumulator \<Rightarrow> nat option \<Rightarrow> pgwt_accumulator" where
  "pgwt_live_qattr_between_commands acc pa =
     (case pa of None \<Rightarrow> acc
      | Some i \<Rightarrow> qattr_call i (pgwt_qattr_boundary (qattr_of acc i) True) acc)"

definition pgwt_live_qattr_pid_exit :: "pgwt_accumulator \<Rightarrow> u32 \<Rightarrow> pgwt_accumulator" where
  "pgwt_live_qattr_pid_exit acc p =
     (case pgwt_find_pid_accum acc p of None \<Rightarrow> acc
      | Some i \<Rightarrow> qattr_call i (pgwt_qattr_boundary (qattr_of acc i) True) acc)"

definition pgwt_live_qattr_sample ::
  "idle_state \<Rightarrow> pgwt_accumulator \<Rightarrow> nat option \<Rightarrow> u64 \<Rightarrow> u32 \<Rightarrow> u64 \<Rightarrow> u32 \<Rightarrow> bool
    \<Rightarrow> bool \<times> pgwt_accumulator" where
  "pgwt_live_qattr_sample r acc pa q we stat_ns cat_flag cmd_open =
     (let foreground = (cat_flag = 0);
          idle = pgwt_is_session_idle_event we
      in if foreground \<and> idle \<and> cmd_open then
           (True, if q \<noteq> 0 then pgwt_live_qattr_record r acc pa q we stat_ns cat_flag True else acc)
         else
           let acc = pgwt_live_qattr_record r acc pa q we stat_ns cat_flag True
           in (False, if foreground \<and> idle then pgwt_live_qattr_between_commands acc pa else acc))"

definition pgwt_live_account_open_stretch :: "u64 \<Rightarrow> bool" where
  "pgwt_live_account_open_stretch open_ns \<longleftrightarrow> open_ns \<noteq> 0"

section \<open>One interval\<close>

record pgwt_live_interval =
  iv_pid :: u32
  iv_we :: u32
  iv_wall_ns :: u64
  iv_cpu_ns :: u64
  iv_query_id :: u64
  iv_cat_flag :: u32
  iv_cmd_gate_active :: bool
  iv_cmd_open :: bool
  iv_closed :: bool
  iv_pa :: "nat option"

definition iv_effective :: "pgwt_live_interval \<Rightarrow> u32" where
  "iv_effective iv = pgwt_live_effective_event (iv_we iv) (iv_cat_flag iv) (iv_cmd_gate_active iv) (iv_cmd_open iv)"

definition iv_io_worker :: "pgwt_live_interval \<Rightarrow> bool" where
  "iv_io_worker iv \<longleftrightarrow> iv_cat_flag iv AND PGWT_EVENT_FLAG_IO_WORKER \<noteq> 0"

definition iv_stat_ns :: "pgwt_live_interval \<Rightarrow> u64" where
  "iv_stat_ns iv =
     (if iv_effective iv = 0 then (if iv_cpu_ns iv < iv_wall_ns iv then iv_cpu_ns iv else iv_wall_ns iv)
      else iv_wall_ns iv)"

text \<open>The per-pid block, on the entry at hand.\<close>

definition add_to_pid :: "idle_state \<Rightarrow> pgwt_live_interval \<Rightarrow> pgwt_pid_accum \<Rightarrow> pgwt_pid_accum" where
  "add_to_pid r iv pa =
     (let we = iv_effective iv;
          (ei, pa) = pgwt_get_or_create_event pa we;
          pa = (case ei of
                  Some j \<Rightarrow> pa\<lparr>pa_events := (pa_events pa)[j :=
                              add_event_stats (pa_events pa ! j) (iv_stat_ns iv) (iv_closed iv)]\<rparr>
                | None \<Rightarrow> pa)
      in if \<not> iv_io_worker iv then
           if we = 0 then
             pa\<lparr>pa_cpu_time_ns := pa_cpu_time_ns pa + iv_stat_ns iv,
                pa_db_time_ns := pa_db_time_ns pa + iv_wall_ns iv\<rparr>
           else if \<not> pgwt_is_idle_event r we then
             pa\<lparr>pa_wait_time_ns := pa_wait_time_ns pa + iv_wall_ns iv,
                pa_db_time_ns := pa_db_time_ns pa + iv_wall_ns iv\<rparr>
           else pa
         else pa)"

definition add_to_system :: "pgwt_live_interval \<Rightarrow> pgwt_accumulator \<Rightarrow> pgwt_accumulator" where
  "add_to_system iv acc =
     (case pgwt_get_or_create_system_event acc (iv_effective iv) of
        (None, acc) \<Rightarrow> acc
      | (Some j, acc) \<Rightarrow>
          acc\<lparr>acc_system_events := (acc_system_events acc)[j :=
            add_event_stats (acc_system_events acc ! j) (iv_stat_ns iv) (iv_closed iv)]\<rparr>)"

definition add_to_tm :: "idle_state \<Rightarrow> pgwt_live_interval \<Rightarrow> pgwt_time_model \<Rightarrow> pgwt_time_model" where
  "add_to_tm r iv tm =
     (if iv_io_worker iv then tm
      else if iv_effective iv = 0 then
        tm\<lparr>tm_cpu_time_ns := tm_cpu_time_ns tm + iv_stat_ns iv,
           tm_offcpu_time_ns := tm_offcpu_time_ns tm + (iv_wall_ns iv - iv_stat_ns iv),
           tm_db_time_ns := tm_db_time_ns tm + iv_wall_ns iv\<rparr>
      else pgwt_update_time_model r tm (iv_effective iv) (iv_wall_ns iv))"

definition pgwt_accum_add_interval ::
  "idle_state \<Rightarrow> pgwt_accumulator \<Rightarrow> pgwt_live_interval \<Rightarrow> pgwt_accumulator" where
  "pgwt_accum_add_interval r acc iv =
     (let (pa, acc) = (case iv_pa iv of Some i \<Rightarrow> (Some i, acc) | None \<Rightarrow> pgwt_get_or_create_pid acc (iv_pid iv));
          acc = (case pa of
                   Some i \<Rightarrow> acc\<lparr>acc_pids := (acc_pids acc)[i := add_to_pid r iv (acc_pids acc ! i)]\<rparr>
                 | None \<Rightarrow> acc);
          acc = add_to_system iv acc;
          acc = acc\<lparr>acc_tm := add_to_tm r iv (acc_tm acc)\<rparr>
      in pgwt_live_qattr_record r acc pa (iv_query_id iv) (iv_effective iv) (iv_stat_ns iv)
           (iv_cat_flag iv) (iv_closed iv))"

section \<open>Scans\<close>

lemma first_idx_SomeD: "first_idx p xs = Some i \<Longrightarrow> i < length xs \<and> p (xs ! i)"
  by (induction xs arbitrary: i) (auto split: if_splits)

lemma first_idx_None_iff: "first_idx p xs = None \<longleftrightarrow> (\<forall>x \<in> set xs. \<not> p x)"
  by (induction xs) auto

lemma first_idx_least: "first_idx p xs = Some i \<Longrightarrow> j < i \<Longrightarrow> \<not> p (xs ! j)"
proof (induction xs arbitrary: i j)
  case (Cons x xs)
  then show ?case by (cases j) (auto split: if_splits)
qed simp

lemma get_or_create_pid_cases:
  obtains (Found) i where "pgwt_get_or_create_pid acc p = (Some i, acc)" "i < length (acc_pids acc)"
  | (Full) "pgwt_get_or_create_pid acc p = (None, acc)" "MAX_BACKENDS \<le> length (acc_pids acc)"
  | (New) "pgwt_get_or_create_pid acc p =
        (Some (length (acc_pids acc)), acc\<lparr>acc_pids := acc_pids acc @ [new_pid p]\<rparr>)"
      "length (acc_pids acc) < MAX_BACKENDS"
  by (cases "pgwt_find_pid_accum acc p"; cases "length (acc_pids acc) < MAX_BACKENDS")
    (auto simp: pgwt_get_or_create_pid_def pgwt_find_pid_accum_def dest: first_idx_SomeD)

section \<open>What attribution leaves alone\<close>

text \<open>The time model, the per-pid totals and the cached categories are the view that law is about.\<close>

definition pid_times :: "pgwt_accumulator \<Rightarrow> (u64 \<times> u64 \<times> u64 \<times> u32) list" where
  "pid_times acc =
     map (\<lambda>pa. (pa_db_time_ns pa, pa_cpu_time_ns pa, pa_wait_time_ns pa, pa_cat_flag_plus1 pa)) (acc_pids acc)"

lemma length_pid_times [simp]: "length (pid_times acc) = length (acc_pids acc)"
  by (simp add: pid_times_def)

lemma qattr_add_row_frame [frame_simps]:
  "acc_tm (qattr_add_row acc q we c t mn mx) = acc_tm acc"
  "acc_pids (qattr_add_row acc q we c t mn mx) = acc_pids acc"
  by (auto simp: qattr_add_row_def pgwt_get_or_create_query_event_def Let_def split: option.splits)

lemma qattr_emit_frame [frame_simps]:
  "acc_tm (qattr_emit e acc) = acc_tm acc" "acc_pids (qattr_emit e acc) = acc_pids acc"
  by (auto simp: qattr_emit_def Let_def frame_simps split: prod.splits)

lemma fold_emit_frame [frame_simps]:
  "acc_tm (fold qattr_emit es acc) = acc_tm acc" "acc_pids (fold qattr_emit es acc) = acc_pids acc"
  by (induction es arbitrary: acc) (simp_all add: frame_simps)

lemma qattr_call_frame [frame_simps]:
  "acc_tm (qattr_call i r acc) = acc_tm acc"
  "pid_times (qattr_call i r acc) = pid_times acc"
  "length (acc_pids (qattr_call i r acc)) = length (acc_pids acc)"
proof -
  show "pid_times (qattr_call i r acc) = pid_times acc"
    by (cases "i < length (acc_pids acc)")
      (auto simp: qattr_call_def set_qattr_def pid_times_def frame_simps map_update
        intro!: nth_equalityI simp: nth_list_update)
qed (simp_all add: qattr_call_def set_qattr_def frame_simps)

lemma qattr_record_frame [frame_simps]:
  "acc_tm (pgwt_live_qattr_record r acc pa q we ns cf d) = acc_tm acc"
  "pid_times (pgwt_live_qattr_record r acc pa q we ns cf d) = pid_times acc"
  by (auto simp: pgwt_live_qattr_record_def Let_def frame_simps pid_times_def
      split: option.splits prod.splits) (simp_all add: frame_simps flip: pid_times_def)

lemma qattr_marker_frame [frame_simps]:
  "acc_tm (pgwt_live_qattr_marker acc pa m q) = acc_tm acc"
  "pid_times (pgwt_live_qattr_marker acc pa m q) = pid_times acc"
  by (auto simp: pgwt_live_qattr_marker_def frame_simps split: option.splits)

lemma qattr_between_frame [frame_simps]:
  "acc_tm (pgwt_live_qattr_between_commands acc pa) = acc_tm acc"
  "pid_times (pgwt_live_qattr_between_commands acc pa) = pid_times acc"
  by (auto simp: pgwt_live_qattr_between_commands_def frame_simps split: option.splits)

lemma qattr_sample_frame [frame_simps]:
  "acc_tm (snd (pgwt_live_qattr_sample r acc pa q we ns cf co)) = acc_tm acc"
  "pid_times (snd (pgwt_live_qattr_sample r acc pa q we ns cf co)) = pid_times acc"
  by (simp_all add: pgwt_live_qattr_sample_def Let_def frame_simps)

lemma add_to_system_frame [frame_simps]:
  "acc_tm (add_to_system iv acc) = acc_tm acc" "acc_pids (add_to_system iv acc) = acc_pids acc"
  by (auto simp: add_to_system_def pgwt_get_or_create_system_event_def split: option.splits)

lemma pid_times_frame [frame_simps]:
  "pid_times (acc\<lparr>acc_tm := tm\<rparr>) = pid_times acc"
  "pid_times (add_to_system iv acc) = pid_times acc"
  by (simp_all add: pid_times_def frame_simps)

section \<open>Conservation\<close>

definition tm_accounted :: "pgwt_time_model \<Rightarrow> u64" where
  "tm_accounted tm = tm_cpu_time_ns tm + tm_offcpu_time_ns tm + tm_io_time_ns tm + tm_lwlock_time_ns tm +
     tm_lock_time_ns tm + tm_bufferpin_time_ns tm + tm_client_time_ns tm + tm_ipc_time_ns tm +
     tm_timeout_time_ns tm + tm_extension_time_ns tm"

definition bucketed_class :: "u32 \<Rightarrow> bool" where
  "bucketed_class cls \<longleftrightarrow> cls \<in> {PG_WAIT_IO, PG_WAIT_LWLOCK, PG_WAIT_LOCK, PG_WAIT_BUFFERPIN,
     PG_WAIT_CLIENT, PG_WAIT_IPC, PG_WAIT_TIMEOUT, PG_WAIT_EXTENSION}"

text \<open>Wall time an interval adds to DB Time, to a class row of it, and to idle time.\<close>

definition iv_load_ns :: "idle_state \<Rightarrow> pgwt_live_interval \<Rightarrow> u64" where
  "iv_load_ns r iv =
     (if \<not> iv_io_worker iv \<and> \<not> pgwt_is_idle_event r (iv_effective iv) then iv_wall_ns iv else 0)"

definition iv_unbucketed_ns :: "idle_state \<Rightarrow> pgwt_live_interval \<Rightarrow> u64" where
  "iv_unbucketed_ns r iv =
     (if iv_effective iv \<noteq> 0 \<and> \<not> bucketed_class (WE_CLASS (iv_effective iv)) then iv_load_ns r iv else 0)"

definition iv_idle_ns :: "idle_state \<Rightarrow> pgwt_live_interval \<Rightarrow> u64" where
  "iv_idle_ns r iv =
     (if \<not> iv_io_worker iv \<and> pgwt_is_idle_event r (iv_effective iv) then iv_wall_ns iv else 0)"

lemma zero_not_idle: "\<not> pgwt_is_idle_event r 0"
  by (simp add: pgwt_is_idle_event_def WE_CLASS_def WEI_def)

lemma noncmd_cpu_idle: "pgwt_is_idle_event r PGWT_WEI_NONCMD_CPU"
  by (simp add: pgwt_is_idle_event_def PGWT_WEI_NONCMD_CPU_def WE_CLASS_def)

lemma class_not_activity: "\<not> pgwt_is_idle_event r e \<Longrightarrow> WE_CLASS e \<noteq> PG_WAIT_ACTIVITY"
  by (auto simp: pgwt_is_idle_event_def)

lemma update_tm_db:
  "tm_db_time_ns (pgwt_update_time_model r tm e d) =
     tm_db_time_ns tm + (if pgwt_is_idle_event r e then 0 else d)"
  by (simp add: pgwt_update_time_model_def Let_def)

lemma update_tm_accounted:
  "e \<noteq> 0 \<Longrightarrow> tm_accounted (pgwt_update_time_model r tm e d) =
     tm_accounted tm + (if \<not> pgwt_is_idle_event r e \<and> bucketed_class (WE_CLASS e) then d else 0)"
  by (simp add: pgwt_update_time_model_def tm_accounted_def bucketed_class_def Let_def)

lemma update_tm_activity:
  "tm_activity_time_ns (pgwt_update_time_model r tm e d) =
     tm_activity_time_ns tm + (if pgwt_is_idle_event r e then d else 0)"
  using class_not_activity [of r e] by (simp add: pgwt_update_time_model_def Let_def)

lemma add_to_tm_times:
  "tm_db_time_ns (add_to_tm r iv tm) = tm_db_time_ns tm + iv_load_ns r iv"
  "tm_accounted (add_to_tm r iv tm) + iv_unbucketed_ns r iv = tm_accounted tm + iv_load_ns r iv"
  "tm_activity_time_ns (add_to_tm r iv tm) = tm_activity_time_ns tm + iv_idle_ns r iv"
proof -
  show "tm_db_time_ns (add_to_tm r iv tm) = tm_db_time_ns tm + iv_load_ns r iv"
    by (simp add: add_to_tm_def iv_load_ns_def update_tm_db zero_not_idle)
  show "tm_activity_time_ns (add_to_tm r iv tm) = tm_activity_time_ns tm + iv_idle_ns r iv"
    by (simp add: add_to_tm_def iv_idle_ns_def update_tm_activity zero_not_idle)
  show "tm_accounted (add_to_tm r iv tm) + iv_unbucketed_ns r iv = tm_accounted tm + iv_load_ns r iv"
  proof (cases "iv_effective iv = 0")
    case True
    then show ?thesis
      by (simp add: add_to_tm_def iv_load_ns_def iv_unbucketed_ns_def zero_not_idle tm_accounted_def)
  next
    case False
    then show ?thesis
      by (simp add: add_to_tm_def iv_load_ns_def iv_unbucketed_ns_def update_tm_accounted)
  qed
qed

text \<open>An entry's DB Time is its CPU wall plus its waits, and grows by the same load.\<close>

lemma add_to_pid_db: "pa_db_time_ns (add_to_pid r iv pa) = pa_db_time_ns pa + iv_load_ns r iv"
  by (auto simp: add_to_pid_def pgwt_get_or_create_event_def iv_load_ns_def Let_def zero_not_idle
      split: option.splits prod.splits)

definition pids_db :: "pgwt_accumulator \<Rightarrow> u64" where
  "pids_db acc = sum_list (map fst (pid_times acc))"

lemma pids_db_eq: "pids_db acc = sum_list (map pa_db_time_ns (acc_pids acc))"
  by (simp add: pids_db_def pid_times_def comp_def)

lemma sum_list_map_list_update:
  "i < length xs \<Longrightarrow> sum_list (map f (xs[i := x])) = sum_list (map f xs) + (f x - f (xs ! i))"
  for f :: "'a \<Rightarrow> 'b::ab_group_add"
proof (induction xs arbitrary: i)
  case (Cons a xs)
  then show ?case by (cases i) (simp_all add: algebra_simps)
qed simp

text \<open>The entry an interval is charged to, and the accumulator holding it.\<close>

definition iv_entry :: "pgwt_live_interval \<Rightarrow> pgwt_accumulator \<Rightarrow> nat option \<times> pgwt_accumulator" where
  "iv_entry iv acc =
     (case iv_pa iv of Some i \<Rightarrow> (Some i, acc) | None \<Rightarrow> pgwt_get_or_create_pid acc (iv_pid iv))"

definition iv_pa_ok :: "pgwt_live_interval \<Rightarrow> pgwt_accumulator \<Rightarrow> bool" where
  "iv_pa_ok iv acc \<longleftrightarrow> (case iv_pa iv of Some i \<Rightarrow> i < length (acc_pids acc) | None \<Rightarrow> True)"

lemma get_or_create_pid_db: "pids_db (snd (pgwt_get_or_create_pid acc p)) = pids_db acc"
  by (cases rule: get_or_create_pid_cases [of acc p]) (simp_all add: pids_db_eq new_pid_def)

lemma get_or_create_pid_tm: "acc_tm (snd (pgwt_get_or_create_pid acc p)) = acc_tm acc"
  by (cases rule: get_or_create_pid_cases [of acc p]) simp_all

lemma get_or_create_pid_valid:
  "fst (pgwt_get_or_create_pid acc p) = Some i \<Longrightarrow> i < length (acc_pids (snd (pgwt_get_or_create_pid acc p)))"
  by (cases rule: get_or_create_pid_cases [of acc p]) auto

lemma iv_entry_facts:
  "acc_tm (snd (iv_entry iv acc)) = acc_tm acc"
  "pids_db (snd (iv_entry iv acc)) = pids_db acc"
  "iv_pa_ok iv acc \<Longrightarrow> fst (iv_entry iv acc) = Some i \<Longrightarrow> i < length (acc_pids (snd (iv_entry iv acc)))"
  by (auto simp: iv_entry_def iv_pa_ok_def get_or_create_pid_tm get_or_create_pid_db
      get_or_create_pid_valid split: option.splits)

lemma add_interval_unfold:
  "pgwt_accum_add_interval r acc iv =
     (let acc1 = snd (iv_entry iv acc);
          acc2 = (case fst (iv_entry iv acc) of
                    Some i \<Rightarrow> acc1\<lparr>acc_pids := (acc_pids acc1)[i := add_to_pid r iv (acc_pids acc1 ! i)]\<rparr>
                  | None \<Rightarrow> acc1);
          acc3 = add_to_system iv acc2
      in pgwt_live_qattr_record r (acc3\<lparr>acc_tm := add_to_tm r iv (acc_tm acc3)\<rparr>)
           (fst (iv_entry iv acc)) (iv_query_id iv) (iv_effective iv) (iv_stat_ns iv)
           (iv_cat_flag iv) (iv_closed iv))"
  by (simp add: pgwt_accum_add_interval_def iv_entry_def Let_def case_prod_unfold)

lemma add_interval_tm: "acc_tm (pgwt_accum_add_interval r acc iv) = add_to_tm r iv (acc_tm acc)"
  by (simp add: add_interval_unfold Let_def frame_simps iv_entry_facts split: option.splits)

lemma pids_db_frame: "pid_times a = pid_times b \<Longrightarrow> pids_db a = pids_db b"
  by (simp add: pids_db_def)

lemma add_interval_pids_db:
  assumes "iv_pa_ok iv acc"
  shows "pids_db (pgwt_accum_add_interval r acc iv) =
           pids_db acc + (if fst (iv_entry iv acc) = None then 0 else iv_load_ns r iv)"
proof -
  let ?a1 = "snd (iv_entry iv acc)"
  have q: "pids_db (pgwt_accum_add_interval r acc iv) =
      pids_db (case fst (iv_entry iv acc) of
        Some i \<Rightarrow> ?a1\<lparr>acc_pids := (acc_pids ?a1)[i := add_to_pid r iv (acc_pids ?a1 ! i)]\<rparr>
      | None \<Rightarrow> ?a1)"
    unfolding add_interval_unfold Let_def
    by (rule pids_db_frame) (simp add: frame_simps)
  show ?thesis
  proof (cases "fst (iv_entry iv acc)")
    case None
    with q show ?thesis by (simp add: iv_entry_facts)
  next
    case (Some i)
    then have "i < length (acc_pids ?a1)" using iv_entry_facts(3) [OF assms] by simp
    with q Some iv_entry_facts(2) [of iv acc] show ?thesis
      by (simp add: pids_db_eq sum_list_map_list_update add_to_pid_db)
  qed
qed

text \<open>Categories cached in the entries; a new entry caches none.\<close>

definition cached_cats :: "pgwt_accumulator \<Rightarrow> u32 set" where
  "cached_cats acc = (snd \<circ> snd \<circ> snd) ` set (pid_times acc)"

lemma cached_cats_eq: "cached_cats acc = pa_cat_flag_plus1 ` set (acc_pids acc)"
  by (force simp: cached_cats_def pid_times_def)

lemma cats_get_or_create_pid: "cached_cats (snd (pgwt_get_or_create_pid acc p)) \<subseteq> insert 0 (cached_cats acc)"
  by (cases rule: get_or_create_pid_cases [of acc p]) (auto simp: cached_cats_eq new_pid_def)

lemma length_get_or_create_pid: "length (acc_pids acc) \<le> length (acc_pids (snd (pgwt_get_or_create_pid acc p)))"
  by (cases rule: get_or_create_pid_cases [of acc p]) auto

lemma add_to_pid_cat: "pa_cat_flag_plus1 (add_to_pid r iv pa) = pa_cat_flag_plus1 pa"
  by (auto simp: add_to_pid_def pgwt_get_or_create_event_def Let_def split: option.splits prod.splits)

lemma add_interval_view:
  "pid_times (pgwt_accum_add_interval r acc iv) =
     (case fst (iv_entry iv acc) of
        Some i \<Rightarrow> pid_times (snd (iv_entry iv acc)\<lparr>acc_pids := (acc_pids (snd (iv_entry iv acc)))[i :=
                   add_to_pid r iv (acc_pids (snd (iv_entry iv acc)) ! i)]\<rparr>)
      | None \<Rightarrow> pid_times (snd (iv_entry iv acc)))"
  by (simp add: add_interval_unfold Let_def frame_simps split: option.splits)

lemma add_interval_length:
  "length (acc_pids (pgwt_accum_add_interval r acc iv)) = length (acc_pids (snd (iv_entry iv acc)))"
  using arg_cong [OF add_interval_view [of r acc iv], of length] by (simp split: option.splits)

lemma iv_entry_Some: "iv_pa iv = Some i \<Longrightarrow> iv_entry iv acc = (Some i, acc)"
  by (simp add: iv_entry_def)

lemma cats_add_interval:
  assumes "iv_pa_ok iv acc"
  shows "cached_cats (pgwt_accum_add_interval r acc iv) \<subseteq> insert 0 (cached_cats acc)"
proof -
  let ?a = "snd (iv_entry iv acc)"
  have sub: "cached_cats ?a \<subseteq> insert 0 (cached_cats acc)"
    using cats_get_or_create_pid by (auto simp: iv_entry_def split: option.splits)
  have "cached_cats (pgwt_accum_add_interval r acc iv) \<subseteq> cached_cats ?a"
  proof (cases "fst (iv_entry iv acc)")
    case None
    then show ?thesis by (simp add: cached_cats_def add_interval_view)
  next
    case (Some i)
    then have i: "i < length (acc_pids ?a)" using iv_entry_facts(3) [OF assms] by simp
    have "cached_cats (pgwt_accum_add_interval r acc iv) =
        cached_cats (?a\<lparr>acc_pids := (acc_pids ?a)[i := add_to_pid r iv (acc_pids ?a ! i)]\<rparr>)"
      using Some by (simp add: cached_cats_def add_interval_view)
    also have "\<dots> \<subseteq> cached_cats ?a"
      using i set_update_subset_insert [of "acc_pids ?a" i] by (fastforce simp: cached_cats_eq add_to_pid_cat)
    finally show ?thesis .
  qed
  with sub show ?thesis by blast
qed

section \<open>The command gate is exact\<close>

type_synonym cmd_marker = "u32 \<times> u64"

definition gate_sweep :: "cmd_marker list \<Rightarrow> pgwt_live_cmd_gate \<Rightarrow> pgwt_live_cmd_gate" where
  "gate_sweep ms g = foldl (\<lambda>g m. pgwt_live_cmd_gate_marker g (fst m) (snd m)) g ms"

lemma gate_sweep_simps [simp]:
  "gate_sweep [] g = g"
  "gate_sweep (m # ms) g = gate_sweep ms (pgwt_live_cmd_gate_marker g (fst m) (snd m))"
  by (simp_all add: gate_sweep_def)

text \<open>The specification: whether the backend is inside a command at an instant, read off the markers.\<close>

definition after_marker :: "u32 \<Rightarrow> bool \<Rightarrow> bool" where
  "after_marker m b = (if m = PGWT_MARKER_CMD_START then True else if m = PGWT_MARKER_CMD_END then False else b)"

fun cmd_at :: "bool \<Rightarrow> cmd_marker list \<Rightarrow> nat \<Rightarrow> bool" where
  "cmd_at b [] t = b"
| "cmd_at b (m # ms) t = (if unat (snd m) \<le> t then cmd_at (after_marker (fst m) b) ms t else b)"

definition cmd_time :: "bool \<Rightarrow> cmd_marker list \<Rightarrow> u64 \<Rightarrow> u64 \<Rightarrow> nat set" where
  "cmd_time b ms t0 t1 = {t. unat t0 \<le> t \<and> t < unat t1 \<and> cmd_at b ms t}"

fun marks_between :: "u64 \<Rightarrow> cmd_marker list \<Rightarrow> u64 \<Rightarrow> bool" where
  "marks_between s [] t1 \<longleftrightarrow> s \<le> t1"
| "marks_between s (m # ms) t1 \<longleftrightarrow> s \<le> snd m \<and> marks_between (snd m) ms t1"

lemma marks_between_le: "marks_between s ms t1 \<Longrightarrow> s \<le> t1"
  by (induction ms arbitrary: s) (auto intro: order_trans)

lemma cmd_at_before: "marks_between s ms t1 \<Longrightarrow> t < unat s \<Longrightarrow> cmd_at b ms t = b"
  by (cases ms) (auto simp: word_le_nat_alt)

lemma finite_cmd_time [simp]: "finite (cmd_time b ms t0 t1)"
  by (rule finite_subset [of _ "{..< unat t1}"]) (auto simp: cmd_time_def)

lemma card_cmd_time_Cons:
  assumes "s \<le> snd m" and "marks_between (snd m) ms t1"
  shows "card (cmd_time b (m # ms) s t1) =
           (if b then unat (snd m) - unat s else 0) + card (cmd_time (after_marker (fst m) b) ms (snd m) t1)"
proof -
  let ?A = "if b then {unat s ..< unat (snd m)} else {}"
  let ?B = "cmd_time (after_marker (fst m) b) ms (snd m) t1"
  have le: "unat s \<le> unat (snd m)" "unat (snd m) \<le> unat t1"
    using assms marks_between_le by (auto simp: word_le_nat_alt)
  have "cmd_time b (m # ms) s t1 = ?A \<union> ?B"
    using le by (auto simp: cmd_time_def split: if_splits)
  moreover have "?A \<inter> ?B = {}" by (auto simp: cmd_time_def)
  ultimately show ?thesis by (simp add: card_Un_disjoint)
qed

lemma card_cmd_time_Nil: "card (cmd_time b [] s t1) = (if b then unat t1 - unat s else 0)"
proof -
  have "cmd_time b [] s t1 = (if b then {unat s ..< unat t1} else {})" by (auto simp: cmd_time_def)
  then show ?thesis by simp
qed

definition gate_run :: "pgwt_live_cmd_gate \<Rightarrow> u64 \<Rightarrow> nat" where
  "gate_run g s = unat (cg_banked_ns g) + (if cg_open g then unat s - unat (cg_anchor_ns g) else 0)"

definition gate_at :: "pgwt_live_cmd_gate \<Rightarrow> u64 \<Rightarrow> u64 \<Rightarrow> bool" where
  "gate_at g t0 s \<longleftrightarrow> t0 \<le> s \<and> (cg_open g \<longrightarrow> cg_seen g \<and> t0 \<le> cg_anchor_ns g \<and> cg_anchor_ns g \<le> s) \<and>
     gate_run g s \<le> unat s - unat t0 \<and> (\<not> cg_seen g \<longrightarrow> cg_banked_ns g = 0)"

lemma gate_marker_step:
  fixes m :: u32
  assumes "gate_at g t0 s" and "s \<le> ts"
  defines "g' \<equiv> pgwt_live_cmd_gate_marker g m ts"
  shows "gate_at g' t0 ts" and "cg_open g' = after_marker m (cg_open g)"
    and "gate_run g' ts = gate_run g s + (if cg_open g then unat ts - unat s else 0)"
proof -
  have le: "unat t0 \<le> unat s" "unat s \<le> unat ts"
    "cg_open g \<Longrightarrow> unat t0 \<le> unat (cg_anchor_ns g) \<and> unat (cg_anchor_ns g) \<le> unat s \<and> cg_seen g"
    "gate_run g s \<le> unat s - unat t0"
    using assms by (auto simp: gate_at_def word_le_nat_alt)
  show op: "cg_open g' = after_marker m (cg_open g)"
    by (simp add: g'_def pgwt_live_cmd_gate_marker_def after_marker_def Let_def)
  have bank: "cg_open g \<Longrightarrow> cg_anchor_ns g < ts \<Longrightarrow>
      unat (cg_banked_ns g + (ts - cg_anchor_ns g)) = unat (cg_banked_ns g) + (unat ts - unat (cg_anchor_ns g))"
  proof -
    assume o: "cg_open g" and lt: "cg_anchor_ns g < ts"
    then have "unat (ts - cg_anchor_ns g) = unat ts - unat (cg_anchor_ns g)" by (simp add: unat_sub)
    moreover have "unat (cg_banked_ns g) + (unat ts - unat (cg_anchor_ns g)) \<le> unat ts"
      using le(1,2) le(3) [OF o] le(4) o unfolding gate_run_def by simp
    then have "unat (cg_banked_ns g) + (unat ts - unat (cg_anchor_ns g)) < 18446744073709551616"
      by (rule le_less_trans) simp
    ultimately show ?thesis by (simp add: unat_add_u64)
  qed
  show run: "gate_run g' ts = gate_run g s + (if cg_open g then unat ts - unat s else 0)"
    using le bank
    by (auto simp: g'_def pgwt_live_cmd_gate_marker_def gate_run_def Let_def word_less_nat_alt)
  show "gate_at g' t0 ts"
    unfolding gate_at_def
  proof (intro conjI)
    show "t0 \<le> ts" using le by (simp add: word_le_nat_alt)
    show "gate_run g' ts \<le> unat ts - unat t0" using run le by auto
    show "cg_open g' \<longrightarrow> cg_seen g' \<and> t0 \<le> cg_anchor_ns g' \<and> cg_anchor_ns g' \<le> ts"
      using le by (auto simp: g'_def pgwt_live_cmd_gate_marker_def Let_def word_le_nat_alt)
    show "\<not> cg_seen g' \<longrightarrow> cg_banked_ns g' = 0"
      using assms(1) by (auto simp: g'_def pgwt_live_cmd_gate_marker_def Let_def gate_at_def)
  qed
qed

lemma gate_sweep_exact:
  assumes "gate_at g t0 s" and "marks_between s ms t1"
  shows "gate_at (gate_sweep ms g) t0 t1 \<and>
         gate_run (gate_sweep ms g) t1 = gate_run g s + card (cmd_time (cg_open g) ms s t1)"
  using assms
proof (induction ms arbitrary: g s)
  case Nil
  have "pgwt_live_cmd_gate_marker g 0 t1 = g" by (simp add: pgwt_live_cmd_gate_marker_def)
  then show ?case using gate_marker_step [of g t0 s t1 0] Nil by (simp add: card_cmd_time_Nil)
next
  case (Cons m ms)
  let ?g = "pgwt_live_cmd_gate_marker g (fst m) (snd m)"
  have step: "gate_at ?g t0 (snd m)" "cg_open ?g = after_marker (fst m) (cg_open g)"
    "gate_run ?g (snd m) = gate_run g s + (if cg_open g then unat (snd m) - unat s else 0)"
    using gate_marker_step [OF Cons.prems(1)] Cons.prems(2) by auto
  from Cons.IH [OF step(1)] Cons.prems(2) show ?case
    by (simp add: step card_cmd_time_Cons)
qed

lemma gate_open_ns_run:
  assumes "gate_at g t0 t1"
  shows "unat (cmd_gate_open_ns g t0 t1) = gate_run g t1"
proof (cases "cg_open g")
  case True
  then have le: "t0 \<le> cg_anchor_ns g" "cg_anchor_ns g \<le> t1" "gate_run g t1 \<le> unat t1 - unat t0"
    using assms by (auto simp: gate_at_def)
  then have a: "(if cg_anchor_ns g > t0 then cg_anchor_ns g else t0) = cg_anchor_ns g" by auto
  have "gate_run g t1 < 18446744073709551616" using le(3) unat_u64_bound [of t1] by linarith
  then have "unat (cg_banked_ns g + (t1 - cg_anchor_ns g)) = gate_run g t1"
    using True le by (simp add: gate_run_def unat_add_u64 unat_sub)
  then show ?thesis using True a le by (auto simp: cmd_gate_open_ns_def gate_run_def Let_def)
qed (simp add: cmd_gate_open_ns_def gate_run_def)

text \<open>A gate right after a record: nothing banked, an open run anchored at the record's end.\<close>

definition gate_fresh :: "pgwt_live_cmd_gate \<Rightarrow> u64 \<Rightarrow> bool" where
  "gate_fresh g t0 \<longleftrightarrow> cg_banked_ns g = 0 \<and> (cg_open g \<longrightarrow> cg_seen g \<and> cg_anchor_ns g = t0)"

lemma gate_fresh_at: "gate_fresh g t0 \<Longrightarrow> gate_at g t0 t0 \<and> gate_run g t0 = 0"
  by (auto simp: gate_fresh_def gate_at_def gate_run_def)

lemma gate_take_exact:
  assumes "gate_fresh g t0" and "marks_between t0 ms t1"
  shows "unat (fst (pgwt_live_cmd_gate_take (gate_sweep ms g) t0 t1)) = card (cmd_time (cg_open g) ms t0 t1)"
    and "gate_fresh (snd (pgwt_live_cmd_gate_take (gate_sweep ms g) t0 t1)) t1"
proof -
  let ?g = "gate_sweep ms g"
  have at: "gate_at ?g t0 t1" and run: "gate_run ?g t1 = card (cmd_time (cg_open g) ms t0 t1)"
    using gate_sweep_exact [OF conjunct1 [OF gate_fresh_at [OF assms(1)]] assms(2)]
      gate_fresh_at [OF assms(1)] by auto
  show "unat (fst (pgwt_live_cmd_gate_take ?g t0 t1)) = card (cmd_time (cg_open g) ms t0 t1)"
  proof (cases "cg_seen ?g")
    case True
    then show ?thesis using gate_open_ns_run [OF at] run by (simp add: pgwt_live_cmd_gate_take_def Let_def)
  next
    case False
    then have "gate_run ?g t1 = 0" using at by (auto simp: gate_at_def gate_run_def)
    with False run show ?thesis by (simp add: pgwt_live_cmd_gate_take_def)
  qed
  show "gate_fresh (snd (pgwt_live_cmd_gate_take ?g t0 t1)) t1"
    using at by (auto simp: pgwt_live_cmd_gate_take_def gate_fresh_def gate_at_def Let_def)
qed

lemma unat_double_ge:
  assumes "unat (a :: u64) < 2 ^ 63"
  shows "w \<le> a * 2 \<longleftrightarrow> unat w \<le> 2 * unat a"
proof -
  have "unat (a * 2) = 2 * unat a"
    using assms by (simp add: unat_word_ariths)
  then show ?thesis by (simp add: word_le_nat_alt)
qed


section \<open>Properties\<close>

text \<open>
  C40: the command gate is exact: sweeping a pid's markers between two consecutive records and taking
  the gate at the second yields the number of nanoseconds of that record during which the marker
  stream has the backend inside a command, straddled commands, repeated starts and unmatched ends
  included; the gate is then ready for the next record, and a record seen by markers is filed as
  in-command exactly when at least half of it was.
\<close>

theorem live_cmd_gate_exact:
  assumes "gate_fresh g t0" and "marks_between t0 ms t1" and "unat t1 < 2 ^ 63"
  shows "let g' = gate_sweep ms g; inside = card (cmd_time (cg_open g) ms t0 t1) in
     unat (fst (pgwt_live_cmd_gate_take g' t0 t1)) = inside \<and>
     gate_fresh (snd (pgwt_live_cmd_gate_take g' t0 t1)) t1 \<and>
     (case pgwt_live_cmd_gate_classify (Some g') True t0 t1 fb of
        (by_markers, in_cmd, g'') \<Rightarrow>
          by_markers = cg_seen g' \<and> g'' = Some (snd (pgwt_live_cmd_gate_take g' t0 t1)) \<and>
          in_cmd = (if \<not> cg_seen g' then True else if t0 = t1 then cg_open g'
                    else unat t1 - unat t0 \<le> 2 * inside))"
proof -
  let ?g = "gate_sweep ms g"
  let ?take = "pgwt_live_cmd_gate_take ?g t0 t1"
  note take = gate_take_exact [OF assms(1,2)]
  have le: "t0 \<le> t1" by (rule marks_between_le [OF assms(2)])
  have "card (cmd_time (cg_open g) ms t0 t1) \<le> card {..< unat t1}"
    by (rule card_mono) (auto simp: cmd_time_def)
  then have "unat (fst ?take) < 2 ^ 63" using take(1) assms(3) by simp
  then have maj: "t1 - t0 \<le> fst ?take * 2 \<longleftrightarrow> unat t1 - unat t0 \<le> 2 * unat (fst ?take)"
    using unat_double_ge le by (simp add: unat_sub)
  have op: "cg_open (snd ?take) = cg_open ?g"
    by (simp add: pgwt_live_cmd_gate_take_def Let_def)
  have un: "\<not> cg_seen ?g \<Longrightarrow> ?take = (0, ?g)" by (simp add: pgwt_live_cmd_gate_take_def)
  show ?thesis
    using take le maj op un
    by (auto simp: Let_def pgwt_live_cmd_gate_classify_def pgwt_live_cmd_majority_def
        case_prod_unfold right_minus_eq)
qed

theorem live_cmd_gate_exact_witness:
  "let g = zero_gate;
       ms = [(PGWT_MARKER_CMD_START, 150), (PGWT_MARKER_CMD_END, 180), (PGWT_MARKER_CMD_START, 190)];
       g' = gate_sweep ms g; inside = card (cmd_time (cg_open g) ms 100 200) in
     unat (fst (pgwt_live_cmd_gate_take g' 100 200)) = inside \<and>
     gate_fresh (snd (pgwt_live_cmd_gate_take g' 100 200)) 200 \<and>
     (case pgwt_live_cmd_gate_classify (Some g') True 100 200 False of
        (by_markers, in_cmd, g'') \<Rightarrow>
          by_markers = cg_seen g' \<and> g'' = Some (snd (pgwt_live_cmd_gate_take g' 100 200)) \<and>
          in_cmd = (if \<not> cg_seen g' then True else if (100 :: u64) = 200 then cg_open g'
                    else unat (200 :: u64) - unat (100 :: u64) \<le> 2 * inside))"
  using live_cmd_gate_exact [of zero_gate 100
      "[(PGWT_MARKER_CMD_START, 150), (PGWT_MARKER_CMD_END, 180), (PGWT_MARKER_CMD_START, 190)]" 200 False]
  unfolding Let_def by (simp add: gate_fresh_def zero_gate_def)

end
