(* ===== verification/Event_Stream.thy ===== *)
theory Event_Stream
  imports Live_Accum Escalation_Budget Exact_Probe
begin

text \<open>
  The daemon's state (src/src/daemon.h, the fields the event path and the escalation engine use) and
  the ring-buffer consumer of src/src/event_stream.c: every record goes to the trace writer, to the
  summary writer with its resolved category and effective event, and into the live accumulator. The
  trace writer is src/src/event_writer.c's entry point, its file an append-only log; the summary
  writer is the log of its calls. The diagnostics (debug timers, the test delay) are left out. The
  lemmas show that a stream is recorded exactly once and in order and that the live time model
  conserves its time.
\<close>

section \<open>State\<close>

datatype pgwt_backend_type =
    PGWT_BT_CLIENT | PGWT_BT_CHECKPOINTER | PGWT_BT_BG_WRITER | PGWT_BT_WAL_WRITER
  | PGWT_BT_AUTOVAC_LAUNCHER | PGWT_BT_AUTOVAC_WORKER | PGWT_BT_WAL_SENDER | PGWT_BT_WAL_RECEIVER
  | PGWT_BT_STARTUP | PGWT_BT_LOGICAL_LAUNCHER | PGWT_BT_LOGICAL_WORKER | PGWT_BT_ARCHIVER
  | PGWT_BT_LOGGER | PGWT_BT_PARALLEL_WORKER | PGWT_BT_IO_WORKER | PGWT_BT_BG_WORKER
  | PGWT_BT_UNKNOWN

definition pgwt_backend_type_flag :: "pgwt_backend_type \<Rightarrow> u32" where
  "pgwt_backend_type_flag bt =
     (if bt = PGWT_BT_CLIENT \<or> bt = PGWT_BT_PARALLEL_WORKER \<or> bt = PGWT_BT_UNKNOWN then 0
      else if bt = PGWT_BT_AUTOVAC_WORKER then PGWT_EVENT_FLAG_MAINT
      else if bt = PGWT_BT_IO_WORKER then PGWT_EVENT_FLAG_IO_WORKER
      else PGWT_EVENT_FLAG_BACKGROUND)"

text \<open>The two \<open>enabled\<close> flags are the kernel's view of the perf events behind the descriptors.\<close>

record pgwt_backend =
  be_pid :: int
  be_wp_fd :: int
  be_wp_enabled :: bool
  be_bootstrap_fd :: int
  be_bootstrap_enabled :: bool
  be_wp_addr :: u64
  be_attach_ts :: u64
  be_is_alive :: bool
  be_meta_parsed :: bool
  be_backend_type :: pgwt_backend_type

record pgwt_pid_state =
  last_event :: u32
  wp_live :: u16
  st_cmd_open :: u16
  last_ts :: u64
  last_query_id :: u64
  be_entry_ptr :: u64
  wait_event_addr :: u64
  st_cpu_ns_total :: u64
  on_cpu_ts :: u64
  last_cpu_ns :: u64

record pgwt_counters =
  events_total :: u64
  wp_attach_failures_total :: u64
  state_map_full_total :: u64
  invalid_wait_reads_total :: u64
  cpu_ns_total :: u64
  offcpu_ns_total :: u64
  cpu_clamped_ns_total :: u64
  wait_gap_cpu_ns_total :: u64
  live_cmd_markers_total :: u64
  live_cpu_unmarked_ns_total :: u64
  live_cpu_gate_fallback_total :: u64

text \<open>The trace writer: \<open>ew_can_open\<close> is what opening the trace file yields.\<close>

record pgwt_event_writer =
  ew_enabled :: bool
  ew_open :: bool
  ew_can_open :: bool
  ew_cpu_measured :: bool
  ew_log :: "pgwt_trace_event list"

type_synonym summary_push = "pgwt_trace_event \<times> u32 \<times> u32"

record pgwt_daemon =
  d_tiered :: bool
  d_idle_rule :: idle_state
  d_tick :: int
  d_backends :: "pgwt_backend list"
  d_counters :: pgwt_counters
  d_event_accum :: pgwt_accumulator
  d_event_writer :: "pgwt_event_writer option"
  d_summary_writer :: "summary_push list option"
  d_cpu_accounting :: bool
  d_cmd_gate_active :: bool
  d_drain_limit :: u32
  d_drain_current :: u32
  d_exact_cpu_active :: bool
  d_lightweight_mode :: bool
  d_skip_usdt :: bool
  d_sampled_attr_enabled :: bool
  d_sampled_activity_enabled :: bool
  d_escalation :: pgwt_escalation
  d_timer :: "u64 option"
  d_exact_core :: pgwt_exact_probe_core
  d_exact_config :: pgwt_exact_config
  d_exact_attr_map :: "u32 \<Rightarrow> pgwt_exact_attr option"
  d_exact_seed_map :: "u32 \<Rightarrow> pgwt_exact_seed option"
  d_state_map :: "u32 \<Rightarrow> pgwt_pid_state option"

section \<open>The writers\<close>

definition pgwt_writer_push_event :: "pgwt_event_writer \<Rightarrow> pgwt_trace_event \<Rightarrow> pgwt_event_writer" where
  "pgwt_writer_push_event w ev =
     (if \<not> ew_enabled w then w
      else if \<not> ew_open w \<and> \<not> ew_can_open w then w\<lparr>ew_enabled := False\<rparr>
      else w\<lparr>ew_open := True,
             ew_log := ew_log w @
               [if ew_cpu_measured w then ev else ev\<lparr>cpu_ns := PGWT_CPU_NS_UNKNOWN\<rparr>]\<rparr>)"

definition writer_push :: "pgwt_daemon \<Rightarrow> pgwt_trace_event \<Rightarrow> pgwt_daemon" where
  "writer_push d ev =
     d\<lparr>d_event_writer := map_option (\<lambda>w. pgwt_writer_push_event w ev) (d_event_writer d)\<rparr>"

definition summary_push :: "pgwt_daemon \<Rightarrow> pgwt_trace_event \<Rightarrow> u32 \<Rightarrow> u32 \<Rightarrow> pgwt_daemon" where
  "summary_push d ev cat eff =
     d\<lparr>d_summary_writer := map_option (\<lambda>ps. ps @ [(ev, cat, eff)]) (d_summary_writer d)\<rparr>"

section \<open>Lifetime CPU counters\<close>

definition pgwt_counters_add_cpu :: "pgwt_counters \<Rightarrow> u32 \<Rightarrow> u64 \<Rightarrow> u64 \<Rightarrow> pgwt_counters" where
  "pgwt_counters_add_cpu c we dur measured =
     (if measured = PGWT_CPU_NS_UNKNOWN \<or> PGWT_IS_MARKER we then c
      else if we = 0 then
        (if measured = 0 then c\<lparr>cpu_ns_total := cpu_ns_total c + dur\<rparr>
         else
           let (c, cpu) = (if measured > dur
                           then (c\<lparr>cpu_clamped_ns_total := cpu_clamped_ns_total c + (measured - dur)\<rparr>, dur)
                           else (c, measured))
           in c\<lparr>cpu_ns_total := cpu_ns_total c + cpu, offcpu_ns_total := offcpu_ns_total c + (dur - cpu)\<rparr>)
      else c\<lparr>wait_gap_cpu_ns_total := wait_gap_cpu_ns_total c + measured\<rparr>)"

section \<open>The category of a pid\<close>

text \<open>The registry scan stops at the first entry with the pid, parsed or not.\<close>

fun registry_flag :: "u32 \<Rightarrow> pgwt_backend list \<Rightarrow> u32 option" where
  "registry_flag p [] = None"
| "registry_flag p (be # bes) =
     (if be_pid be = sint p then
        (if be_meta_parsed be then Some (pgwt_backend_type_flag (be_backend_type be)) else None)
      else registry_flag p bes)"

definition upd_pa :: "nat \<Rightarrow> (pgwt_pid_accum \<Rightarrow> pgwt_pid_accum) \<Rightarrow> pgwt_accumulator \<Rightarrow> pgwt_accumulator" where
  "upd_pa i f acc = acc\<lparr>acc_pids := (acc_pids acc)[i := f (acc_pids acc ! i)]\<rparr>"

definition pgwt_live_pid_cat_flag ::
  "pgwt_daemon \<Rightarrow> pgwt_accumulator \<Rightarrow> nat option \<Rightarrow> u32 \<Rightarrow> u32 \<times> pgwt_accumulator" where
  "pgwt_live_pid_cat_flag d acc pa p =
     (case pa of
        None \<Rightarrow> (case registry_flag p (d_backends d) of Some f \<Rightarrow> (f, acc) | None \<Rightarrow> (0, acc))
      | Some i \<Rightarrow>
          let a = acc_pids acc ! i in
          if pa_cat_flag_plus1 a \<noteq> 0 then (pa_cat_flag_plus1 a - 1, acc)
          else if pa_cat_scan_tick a = d_tick d + 1 then (0, acc)
          else
            let acc = upd_pa i (\<lambda>a. a\<lparr>pa_cat_scan_tick := d_tick d + 1\<rparr>) acc
            in case registry_flag p (d_backends d) of
                 Some f \<Rightarrow> (f, upd_pa i (\<lambda>a. a\<lparr>pa_cat_flag_plus1 := f + 1\<rparr>) acc)
               | None \<Rightarrow> (0, acc))"

section \<open>One record from the ring buffer\<close>

definition PGWT_SUMMARY_EFF_UNRESOLVED :: u32 where [simp]: "PGWT_SUMMARY_EFF_UNRESOLVED = 0xFFFFFFFF"

definition handle_marker :: "pgwt_daemon \<Rightarrow> pgwt_trace_event \<Rightarrow> pgwt_daemon" where
  "handle_marker d ev =
     (let we = old_event ev;
          d = summary_push d ev 0 PGWT_SUMMARY_EFF_UNRESOLVED
      in if we \<noteq> PGWT_MARKER_ESCALATE_START \<and> we \<noteq> PGWT_MARKER_ESCALATE_END then
           (let (mpa, acc) = pgwt_get_or_create_pid (d_event_accum d) (pid ev);
                is_cmd = (we = PGWT_MARKER_CMD_START \<or> we = PGWT_MARKER_CMD_END);
                (d, acc) =
                  (case mpa of
                     Some i \<Rightarrow>
                       if is_cmd then
                         (d\<lparr>d_counters := (d_counters d)\<lparr>live_cmd_markers_total :=
                              live_cmd_markers_total (d_counters d) + 1\<rparr>\<rparr>,
                          upd_pa i (\<lambda>a. a\<lparr>pa_cmd_gate :=
                              pgwt_live_cmd_gate_marker (pa_cmd_gate a) we (timestamp_ns ev)\<rparr>) acc)
                       else (d, acc)
                   | None \<Rightarrow> (d, acc))
            in d\<lparr>d_event_accum := pgwt_live_qattr_marker acc mpa we (query_id ev)\<rparr>)
         else d)"

text \<open>The command gate of the entry at hand classifies the record and is consumed up to its end.\<close>

definition classify_record ::
  "pgwt_accumulator \<Rightarrow> nat option \<Rightarrow> pgwt_trace_event \<Rightarrow> bool \<times> bool \<times> pgwt_accumulator" where
  "classify_record acc pa ev =
     (let t1 = timestamp_ns ev;
          t0 = (if t1 \<ge> duration_ns ev then t1 - duration_ns ev else 0);
          fb = (flags ev AND PGWT_EVENT_FLAG_CMD_OPEN \<noteq> 0)
      in case pa of
           None \<Rightarrow> (let (bm, ic, _) = pgwt_live_cmd_gate_classify None True t0 t1 fb in (bm, ic, acc))
         | Some i \<Rightarrow>
             (case pgwt_live_cmd_gate_classify (Some (pa_cmd_gate (acc_pids acc ! i))) True t0 t1 fb of
                (bm, ic, Some g) \<Rightarrow> (bm, ic, upd_pa i (\<lambda>a. a\<lparr>pa_cmd_gate := g\<rparr>) acc)
              | (bm, ic, None) \<Rightarrow> (bm, ic, acc)))"

definition closed_interval :: "pgwt_daemon \<Rightarrow> pgwt_trace_event \<Rightarrow> u32 \<Rightarrow> bool \<Rightarrow> nat option \<Rightarrow> pgwt_live_interval" where
  "closed_interval d ev cat in_cmd pa =
     \<lparr>iv_pid = pid ev, iv_we = old_event ev, iv_wall_ns = duration_ns ev,
      iv_cpu_ns = pgwt_live_closed_cpu_ns (duration_ns ev) (cpu_ns ev) (d_cpu_accounting d),
      iv_query_id = query_id ev, iv_cat_flag = cat, iv_cmd_gate_active = d_cmd_gate_active d,
      iv_cmd_open = in_cmd, iv_closed = True, iv_pa = pa\<rparr>"

definition handle_interval :: "pgwt_daemon \<Rightarrow> pgwt_trace_event \<Rightarrow> pgwt_daemon" where
  "handle_interval d ev =
     (let we = old_event ev;
          dur = duration_ns ev;
          (pa, acc) = pgwt_get_or_create_pid (d_event_accum d) (pid ev);
          (cat, acc) = pgwt_live_pid_cat_flag d acc pa (pid ev);
          (by_markers, in_cmd, acc) = classify_record acc pa ev;
          c = d_counters d;
          c = (if \<not> by_markers \<and> we = 0 \<and> cat = 0 \<and> d_cmd_gate_active d then
                 (if pa \<noteq> None
                  then c\<lparr>live_cpu_unmarked_ns_total := live_cpu_unmarked_ns_total c + dur\<rparr>
                  else c\<lparr>live_cpu_gate_fallback_total := live_cpu_gate_fallback_total c + 1\<rparr>)
               else c);
          eff = pgwt_live_effective_event we cat (d_cmd_gate_active d) in_cmd;
          d = summary_push d ev cat eff;
          c = pgwt_counters_add_cpu c we dur (cpu_ns ev);
          acc = pgwt_accum_add_interval (d_idle_rule d) acc (closed_interval d ev cat in_cmd pa);
          acc = (if new_event ev = PGWT_EVENT_EXIT then pgwt_live_qattr_between_commands acc pa else acc)
      in d\<lparr>d_counters := c, d_event_accum := acc\<rparr>)"

text \<open>The boolean is the callback's non-zero return, which stops the drain.\<close>

definition pgwt_handle_trace_event :: "pgwt_daemon \<Rightarrow> pgwt_trace_event \<Rightarrow> bool \<times> pgwt_daemon" where
  "pgwt_handle_trace_event d ev =
     (let d = d\<lparr>d_counters := (d_counters d)\<lparr>events_total := events_total (d_counters d) + 1\<rparr>\<rparr>;
          d = writer_push d ev;
          d = (if PGWT_IS_MARKER (old_event ev) then handle_marker d ev else handle_interval d ev);
          d = d\<lparr>d_drain_current := d_drain_current d + 1\<rparr>
      in (d_drain_limit d \<noteq> 0 \<and> d_drain_current d \<ge> d_drain_limit d, d))"

text \<open>Consuming the ring buffer: the records in order until one asks to yield; the rest stays.\<close>

fun ring_consume :: "pgwt_daemon \<Rightarrow> pgwt_trace_event list \<Rightarrow> pgwt_daemon \<times> pgwt_trace_event list" where
  "ring_consume d [] = (d, [])"
| "ring_consume d (ev # evs) =
     (case pgwt_handle_trace_event d ev of (stop, d') \<Rightarrow> if stop then (d', evs) else ring_consume d' evs)"

section \<open>The snapshot of the accumulator\<close>

definition pgwt_accum_copy_used :: "pgwt_accumulator \<Rightarrow> pgwt_accumulator \<Rightarrow> pgwt_accumulator" where
  "pgwt_accum_copy_used dst src =
     dst\<lparr>acc_tm := acc_tm src,
         acc_pids := map (\<lambda>p. p\<lparr>pa_current_event := 0, pa_current_wait_ns := 0\<rparr>) (acc_pids src),
         acc_system_events := acc_system_events src,
         acc_query_events := acc_query_events src,
         qattr_backfilled_ns := qattr_backfilled_ns src,
         qattr_unattributed_ns := qattr_unattributed_ns src,
         qattr_pending_overflow := qattr_pending_overflow src\<rparr>"

section \<open>Frames\<close>

lemma summary_push_frame [frame_simps]:
  "d_event_accum (summary_push d ev c e) = d_event_accum d" "d_counters (summary_push d ev c e) = d_counters d"
  "d_idle_rule (summary_push d ev c e) = d_idle_rule d" "d_backends (summary_push d ev c e) = d_backends d"
  "d_event_writer (summary_push d ev c e) = d_event_writer d"
  "d_cpu_accounting (summary_push d ev c e) = d_cpu_accounting d"
  "d_cmd_gate_active (summary_push d ev c e) = d_cmd_gate_active d"
  "d_escalation (summary_push d ev c e) = d_escalation d"
  by (simp_all add: summary_push_def)

lemma writer_push_frame [frame_simps]:
  "d_event_accum (writer_push d ev) = d_event_accum d" "d_counters (writer_push d ev) = d_counters d"
  "d_idle_rule (writer_push d ev) = d_idle_rule d" "d_backends (writer_push d ev) = d_backends d"
  "d_summary_writer (writer_push d ev) = d_summary_writer d"
  "d_cpu_accounting (writer_push d ev) = d_cpu_accounting d"
  "d_cmd_gate_active (writer_push d ev) = d_cmd_gate_active d"
  "d_escalation (writer_push d ev) = d_escalation d"
  by (simp_all add: writer_push_def)

text \<open>The event path only touches the writers, the counters, the accumulator and the drain count.\<close>

definition stream_core :: "pgwt_daemon \<Rightarrow> pgwt_daemon" where
  "stream_core d = d\<lparr>d_counters := undefined, d_event_accum := undefined, d_event_writer := undefined,
     d_summary_writer := undefined, d_drain_current := undefined\<rparr>"

lemma stream_core_push [simp]:
  "stream_core (summary_push d ev c e) = stream_core d" "stream_core (writer_push d ev) = stream_core d"
  by (simp_all add: stream_core_def summary_push_def writer_push_def)

lemma stream_core_upd [simp]:
  "stream_core (d\<lparr>d_counters := c\<rparr>) = stream_core d"
  "stream_core (d\<lparr>d_event_accum := a\<rparr>) = stream_core d"
  "stream_core (d\<lparr>d_counters := c, d_event_accum := a\<rparr>) = stream_core d"
  "stream_core (d\<lparr>d_drain_current := n\<rparr>) = stream_core d"
  by (simp_all add: stream_core_def)

lemma handle_core: "stream_core (snd (pgwt_handle_trace_event d ev)) = stream_core d"
proof -
  have "stream_core (handle_marker d ev) = stream_core d" for d
    by (simp add: handle_marker_def Let_def case_prod_unfold split: option.splits)
  moreover have "stream_core (handle_interval d ev) = stream_core d" for d
    by (simp add: handle_interval_def Let_def case_prod_unfold)
  ultimately show ?thesis by (simp add: pgwt_handle_trace_event_def Let_def)
qed

lemma stream_core_fields:
  assumes "stream_core d' = stream_core d"
  shows "d_escalation d' = d_escalation d" "d_backends d' = d_backends d" "d_timer d' = d_timer d"
    "d_exact_core d' = d_exact_core d" "d_exact_config d' = d_exact_config d"
    "d_exact_attr_map d' = d_exact_attr_map d" "d_exact_seed_map d' = d_exact_seed_map d"
    "d_state_map d' = d_state_map d" "d_exact_cpu_active d' = d_exact_cpu_active d"
    "d_idle_rule d' = d_idle_rule d" "d_cpu_accounting d' = d_cpu_accounting d"
    "d_cmd_gate_active d' = d_cmd_gate_active d" "d_drain_limit d' = d_drain_limit d"
    "d_tiered d' = d_tiered d" "d_tick d' = d_tick d"
  using arg_cong [OF assms, of d_escalation] arg_cong [OF assms, of d_backends] arg_cong [OF assms, of d_timer]
    arg_cong [OF assms, of d_exact_core] arg_cong [OF assms, of d_exact_config]
    arg_cong [OF assms, of d_exact_attr_map] arg_cong [OF assms, of d_exact_seed_map]
    arg_cong [OF assms, of d_state_map] arg_cong [OF assms, of d_exact_cpu_active]
    arg_cong [OF assms, of d_idle_rule] arg_cong [OF assms, of d_cpu_accounting]
    arg_cong [OF assms, of d_cmd_gate_active] arg_cong [OF assms, of d_drain_limit]
    arg_cong [OF assms, of d_tiered] arg_cong [OF assms, of d_tick]
  by (simp_all add: stream_core_def)

lemma ring_consume_core: "stream_core (fst (ring_consume d evs)) = stream_core d"
proof (induction evs arbitrary: d)
  case (Cons ev evs)
  show ?case
    using handle_core [of d ev] Cons.IH [of "snd (pgwt_handle_trace_event d ev)"]
    by (simp add: case_prod_unfold)
qed simp

section \<open>What is written\<close>

definition trace_log :: "pgwt_daemon \<Rightarrow> pgwt_trace_event list" where
  "trace_log d = (case d_event_writer d of None \<Rightarrow> [] | Some w \<Rightarrow> ew_log w)"

definition recording :: "pgwt_daemon \<Rightarrow> bool" where
  "recording d \<longleftrightarrow> (case d_event_writer d of None \<Rightarrow> False | Some w \<Rightarrow> ew_enabled w \<and> (ew_open w \<or> ew_can_open w))"

text \<open>The record as it is stored: the measured CPU is kept only when the capture measures it.\<close>

definition stored :: "pgwt_daemon \<Rightarrow> pgwt_trace_event \<Rightarrow> pgwt_trace_event" where
  "stored d ev =
     (case d_event_writer d of
        Some w \<Rightarrow> if ew_cpu_measured w then ev else ev\<lparr>cpu_ns := PGWT_CPU_NS_UNKNOWN\<rparr>
      | None \<Rightarrow> ev)"

lemma writer_push_recording:
  assumes "recording d"
  shows "trace_log (writer_push d ev) = trace_log d @ [stored d ev]" and "recording (writer_push d ev)"
    and "stored (writer_push d ev) = stored d"
  using assms
  by (auto simp: recording_def trace_log_def stored_def writer_push_def pgwt_writer_push_event_def
      fun_eq_iff split: option.splits)

lemma writer_same:
  assumes "d_event_writer d' = d_event_writer d"
  shows "trace_log d' = trace_log d" "recording d' = recording d" "stored d' = stored d"
  using assms by (simp_all add: trace_log_def recording_def stored_def fun_eq_iff)

lemma handle_writer:
  "d_event_writer (snd (pgwt_handle_trace_event d ev)) = d_event_writer (writer_push d ev)"
proof -
  have "d_event_writer (handle_marker d ev) = d_event_writer d" for d
    by (simp add: handle_marker_def Let_def case_prod_unfold frame_simps split: option.splits)
  moreover have "d_event_writer (handle_interval d ev) = d_event_writer d" for d
    by (simp add: handle_interval_def Let_def case_prod_unfold frame_simps)
  ultimately show ?thesis by (simp add: pgwt_handle_trace_event_def Let_def writer_push_def)
qed

lemma handle_recording:
  fixes ev :: pgwt_trace_event
  assumes "recording d"
  defines "d' \<equiv> snd (pgwt_handle_trace_event d ev)"
  shows "trace_log d' = trace_log d @ [stored d ev]" "recording d'" "stored d' = stored d"
  using writer_push_recording [OF assms(1), of ev] writer_same [OF handle_writer, of d ev]
  by (simp_all add: d'_def)

lemma ring_consume_no_limit:
  "d_drain_limit d = 0 \<Longrightarrow> snd (ring_consume d evs) = []"
proof (induction evs arbitrary: d)
  case (Cons ev evs)
  let ?h = "pgwt_handle_trace_event d ev"
  have l: "d_drain_limit (snd ?h) = 0"
    using stream_core_fields(13) [OF handle_core [of d ev]] Cons.prems by simp
  then have "\<not> fst ?h" by (simp add: pgwt_handle_trace_event_def Let_def)
  with Cons.IH [OF l] show ?case by (simp add: case_prod_unfold)
qed simp

lemma ring_consume_no_limit_step:
  "d_drain_limit d = 0 \<Longrightarrow>
    ring_consume d (ev # evs) = ring_consume (snd (pgwt_handle_trace_event d ev)) evs"
proof -
  assume "d_drain_limit d = 0"
  then have "d_drain_limit (snd (pgwt_handle_trace_event d ev)) = 0"
    using stream_core_fields(13) [OF handle_core [of d ev]] by simp
  then have "\<not> fst (pgwt_handle_trace_event d ev)" by (simp add: pgwt_handle_trace_event_def Let_def)
  then show ?thesis by (simp add: case_prod_unfold)
qed

lemma ring_consume_log:
  assumes "recording d" and "d_drain_limit d = 0"
  shows "trace_log (fst (ring_consume d evs)) = trace_log d @ map (stored d) evs \<and>
         recording (fst (ring_consume d evs)) \<and> stored (fst (ring_consume d evs)) = stored d"
  using assms
proof (induction evs arbitrary: d)
  case (Cons ev evs)
  let ?d = "snd (pgwt_handle_trace_event d ev)"
  have "d_drain_limit ?d = 0"
    using stream_core_fields(13) [OF handle_core [of d ev]] Cons.prems(2) by simp
  then show ?case
    using Cons.IH [of ?d] handle_recording [OF Cons.prems(1), of ev]
      ring_consume_no_limit_step [OF Cons.prems(2), of ev evs] by simp
qed simp

section \<open>What the live accumulator conserves\<close>

lemma upd_pa_view:
  assumes "\<And>a. pa_db_time_ns (f a) = pa_db_time_ns a" "\<And>a. pa_cpu_time_ns (f a) = pa_cpu_time_ns a"
    "\<And>a. pa_wait_time_ns (f a) = pa_wait_time_ns a" "\<And>a. pa_cat_flag_plus1 (f a) = pa_cat_flag_plus1 a"
  shows "pid_times (upd_pa i f acc) = pid_times acc"
  by (cases "i < length (acc_pids acc)")
    (auto simp: upd_pa_def pid_times_def assms intro!: nth_equalityI simp: nth_list_update)

lemma upd_pa_frame [frame_simps]:
  "acc_tm (upd_pa i f acc) = acc_tm acc" "length (acc_pids (upd_pa i f acc)) = length (acc_pids acc)"
  by (simp_all add: upd_pa_def)

lemma upd_pa_cat_db: "pids_db (upd_pa i (\<lambda>a. a\<lparr>pa_cat_flag_plus1 := c\<rparr>) acc) = pids_db acc"
  by (cases "i < length (acc_pids acc)")
    (simp_all add: upd_pa_def pids_db_eq sum_list_map_list_update list_update_beyond)

lemma upd_pa_cat_cats:
  "cached_cats (upd_pa i (\<lambda>a. a\<lparr>pa_cat_flag_plus1 := c\<rparr>) acc) \<subseteq> insert c (cached_cats acc)"
  using set_update_subset_insert [of "acc_pids acc" i] by (fastforce simp: upd_pa_def cached_cats_eq)

definition reg_flags :: "pgwt_daemon \<Rightarrow> u32 set" where
  "reg_flags d = pgwt_backend_type_flag ` be_backend_type ` set (d_backends d)"

lemma registry_flag_in: "registry_flag p bes = Some f \<Longrightarrow> f \<in> pgwt_backend_type_flag ` be_backend_type ` set bes"
  by (induction bes) (auto split: if_splits)

lemma cat_flag_facts:
  fixes d :: pgwt_daemon and p :: u32
  assumes "\<And>i. pa = Some i \<Longrightarrow> i < length (acc_pids acc)"
  defines "R \<equiv> pgwt_live_pid_cat_flag d acc pa p"
  shows "acc_tm (snd R) = acc_tm acc" "pids_db (snd R) = pids_db acc"
    "length (acc_pids (snd R)) = length (acc_pids acc)"
    "cached_cats (snd R) \<subseteq> cached_cats acc \<union> (\<lambda>f. f + 1) ` reg_flags d"
    "fst R \<in> insert 0 (reg_flags d) \<or> (fst R + 1 \<in> cached_cats acc \<and> fst R + 1 \<noteq> 0)"
proof -
  let ?tick = "\<lambda>i. upd_pa i (\<lambda>a. a\<lparr>pa_cat_scan_tick := d_tick d + 1\<rparr>) acc"
  let ?cat = "\<lambda>i f. upd_pa i (\<lambda>a. a\<lparr>pa_cat_flag_plus1 := f + 1\<rparr>) (?tick i)"
  have pt: "pid_times (?tick i) = pid_times acc" for i by (rule upd_pa_view) simp_all
  then have db: "pids_db (?tick i) = pids_db acc" and cc: "cached_cats (?tick i) = cached_cats acc" for i
    by (simp_all add: pids_db_def cached_cats_def)
  have cands: "snd R = acc \<or> (\<exists>i. snd R = ?tick i) \<or> (\<exists>i f. f \<in> reg_flags d \<and> snd R = ?cat i f)"
    using registry_flag_in [of p "d_backends d"]
    by (auto simp: R_def pgwt_live_pid_cat_flag_def reg_flags_def Let_def split: option.splits)
  show "acc_tm (snd R) = acc_tm acc" "pids_db (snd R) = pids_db acc"
    "length (acc_pids (snd R)) = length (acc_pids acc)"
    using cands db upd_pa_cat_db by (auto simp: frame_simps)
  show "cached_cats (snd R) \<subseteq> cached_cats acc \<union> (\<lambda>f. f + 1) ` reg_flags d"
    using cands cc upd_pa_cat_cats by (auto, blast)
  show "fst R \<in> insert 0 (reg_flags d) \<or> (fst R + 1 \<in> cached_cats acc \<and> fst R + 1 \<noteq> 0)"
    using registry_flag_in [of p "d_backends d"] assms(1)
    by (auto simp: R_def pgwt_live_pid_cat_flag_def reg_flags_def cached_cats_eq Let_def split: option.splits)
qed

lemma classify_record_facts:
  "acc_tm (snd (snd (classify_record acc pa ev))) = acc_tm acc"
  "pid_times (snd (snd (classify_record acc pa ev))) = pid_times acc"
  by (auto simp: classify_record_def Let_def frame_simps upd_pa_view split: option.splits prod.splits)

text \<open>The accumulator right before a record is added, the entry used and the category found.\<close>

definition record_entry :: "pgwt_daemon \<Rightarrow> pgwt_trace_event \<Rightarrow> nat option" where
  "record_entry d ev = fst (pgwt_get_or_create_pid (d_event_accum d) (pid ev))"

definition record_cat :: "pgwt_daemon \<Rightarrow> pgwt_trace_event \<Rightarrow> u32 \<times> pgwt_accumulator" where
  "record_cat d ev =
     pgwt_live_pid_cat_flag d (snd (pgwt_get_or_create_pid (d_event_accum d) (pid ev))) (record_entry d ev) (pid ev)"

definition record_class :: "pgwt_daemon \<Rightarrow> pgwt_trace_event \<Rightarrow> bool \<times> bool \<times> pgwt_accumulator" where
  "record_class d ev = classify_record (snd (record_cat d ev)) (record_entry d ev) ev"

definition record_iv :: "pgwt_daemon \<Rightarrow> pgwt_trace_event \<Rightarrow> pgwt_live_interval" where
  "record_iv d ev =
     closed_interval d ev (fst (record_cat d ev)) (fst (snd (record_class d ev))) (record_entry d ev)"

definition record_acc :: "pgwt_daemon \<Rightarrow> pgwt_trace_event \<Rightarrow> pgwt_accumulator" where
  "record_acc d ev = snd (snd (record_class d ev))"

lemma handle_interval_acc:
  "d_event_accum (handle_interval d ev) =
     (let acc = pgwt_accum_add_interval (d_idle_rule d) (record_acc d ev) (record_iv d ev)
      in if new_event ev = PGWT_EVENT_EXIT
         then pgwt_live_qattr_between_commands acc (record_entry d ev) else acc)"
  by (simp add: handle_interval_def record_entry_def record_cat_def record_class_def record_iv_def
      record_acc_def closed_interval_def Let_def case_prod_unfold frame_simps)

lemma record_entry_valid:
  "record_entry d ev = Some i \<Longrightarrow> i < length (acc_pids (snd (pgwt_get_or_create_pid (d_event_accum d) (pid ev))))"
  using get_or_create_pid_valid by (simp add: record_entry_def)

lemma record_acc_facts:
  "acc_tm (record_acc d ev) = acc_tm (d_event_accum d)"
  "pids_db (record_acc d ev) = pids_db (d_event_accum d)"
  "length (acc_pids (record_acc d ev)) =
     length (acc_pids (snd (pgwt_get_or_create_pid (d_event_accum d) (pid ev))))"
  "cached_cats (record_acc d ev) \<subseteq>
     insert 0 (cached_cats (d_event_accum d)) \<union> (\<lambda>f. f + 1) ` reg_flags d"
proof -
  let ?g = "pgwt_get_or_create_pid (d_event_accum d) (pid ev)"
  note c = cat_flag_facts [of "record_entry d ev" "snd ?g" d "pid ev", OF record_entry_valid,
      folded record_cat_def]
  have v: "pid_times (record_acc d ev) = pid_times (snd (record_cat d ev))"
    by (simp add: record_acc_def record_class_def classify_record_facts)
  show "acc_tm (record_acc d ev) = acc_tm (d_event_accum d)"
    using c(1) by (simp add: record_acc_def record_class_def classify_record_facts get_or_create_pid_tm)
  show "pids_db (record_acc d ev) = pids_db (d_event_accum d)"
    using c(2) pids_db_frame [OF v] by (simp add: get_or_create_pid_db)
  show "length (acc_pids (record_acc d ev)) = length (acc_pids (snd ?g))"
    using c(3) arg_cong [OF v, of length] by simp
  show "cached_cats (record_acc d ev) \<subseteq>
     insert 0 (cached_cats (d_event_accum d)) \<union> (\<lambda>f. f + 1) ` reg_flags d"
    using c(4) v cats_get_or_create_pid [of "d_event_accum d" "pid ev"] by (auto simp: cached_cats_def)
qed

lemma record_iv_ok: "iv_pa_ok (record_iv d ev) (record_acc d ev)"
  using record_entry_valid [of d ev]
  by (auto simp: iv_pa_ok_def record_iv_def closed_interval_def record_acc_facts split: option.splits)

lemma record_iv_fields:
  "iv_we (record_iv d ev) = old_event ev" "iv_wall_ns (record_iv d ev) = duration_ns ev"
  "iv_cat_flag (record_iv d ev) = fst (record_cat d ev)" "iv_pa (record_iv d ev) = record_entry d ev"
  by (simp_all add: record_iv_def closed_interval_def)

lemma handle_interval_tm:
  "acc_tm (d_event_accum (handle_interval d ev)) =
     add_to_tm (d_idle_rule d) (record_iv d ev) (acc_tm (d_event_accum d))"
  by (simp add: handle_interval_acc Let_def frame_simps add_interval_tm record_acc_facts)

lemma handle_interval_view:
  "pid_times (d_event_accum (handle_interval d ev)) =
     pid_times (pgwt_accum_add_interval (d_idle_rule d) (record_acc d ev) (record_iv d ev))"
  by (simp add: handle_interval_acc Let_def frame_simps)

text \<open>A record whose class the time model has a row for.\<close>

definition has_row :: "idle_state \<Rightarrow> pgwt_trace_event \<Rightarrow> bool" where
  "has_row r ev \<longleftrightarrow> PGWT_IS_MARKER (old_event ev) \<or> old_event ev = 0 \<or>
     pgwt_is_idle_event r (old_event ev) \<or> bucketed_class (WE_CLASS (old_event ev))"

lemma unbucketed_zero:
  assumes "has_row r ev" and "\<not> PGWT_IS_MARKER (old_event ev)"
  shows "iv_unbucketed_ns r (record_iv d ev) = 0"
proof -
  have "iv_effective (record_iv d ev) = old_event ev \<or> iv_effective (record_iv d ev) = PGWT_WEI_NONCMD_CPU"
    by (simp add: iv_effective_def pgwt_live_effective_event_def record_iv_fields)
  then show ?thesis
    using assms by (auto simp: has_row_def iv_unbucketed_ns_def iv_load_ns_def noncmd_cpu_idle)
qed

definition io_free :: "pgwt_daemon \<Rightarrow> bool" where
  "io_free d \<longleftrightarrow> (\<forall>f \<in> reg_flags d. f AND PGWT_EVENT_FLAG_IO_WORKER = 0) \<and>
     (\<forall>c \<in> cached_cats (d_event_accum d). c = 0 \<or> (c - 1) AND PGWT_EVENT_FLAG_IO_WORKER = 0)"

lemma record_cat_io_free:
  assumes "io_free d"
  shows "\<not> iv_io_worker (record_iv d ev)"
proof -
  let ?g = "pgwt_get_or_create_pid (d_event_accum d) (pid ev)"
  have "fst (record_cat d ev) \<in> insert 0 (reg_flags d) \<or>
      (fst (record_cat d ev) + 1 \<in> cached_cats (snd ?g) \<and> fst (record_cat d ev) + 1 \<noteq> 0)"
    using cat_flag_facts(5) [of "record_entry d ev" "snd ?g" d "pid ev", OF record_entry_valid]
    by (simp add: record_cat_def)
  then have "fst (record_cat d ev) AND PGWT_EVENT_FLAG_IO_WORKER = 0"
    using assms cats_get_or_create_pid [of "d_event_accum d" "pid ev"]
    unfolding io_free_def by fastforce
  then show ?thesis by (simp add: iv_io_worker_def record_iv_fields)
qed

definition dur_of :: "pgwt_trace_event \<Rightarrow> u64" where
  "dur_of ev = (if PGWT_IS_MARKER (old_event ev) then 0 else duration_ns ev)"

lemma handle_acc:
  "d_event_accum (snd (pgwt_handle_trace_event d ev)) =
     d_event_accum (if PGWT_IS_MARKER (old_event ev)
       then handle_marker (writer_push (d\<lparr>d_counters := (d_counters d)\<lparr>events_total := events_total (d_counters d) + 1\<rparr>\<rparr>) ev) ev
       else handle_interval (writer_push (d\<lparr>d_counters := (d_counters d)\<lparr>events_total := events_total (d_counters d) + 1\<rparr>\<rparr>) ev) ev)"
  by (simp add: pgwt_handle_trace_event_def Let_def)

lemma handle_marker_acc:
  "acc_tm (d_event_accum (handle_marker d ev)) = acc_tm (d_event_accum d)"
  "pids_db (d_event_accum (handle_marker d ev)) = pids_db (d_event_accum d)"
  "length (acc_pids (d_event_accum d)) \<le> length (acc_pids (d_event_accum (handle_marker d ev)))"
  "cached_cats (d_event_accum (handle_marker d ev)) \<subseteq> insert 0 (cached_cats (d_event_accum d))"
proof -
  let ?g = "pgwt_get_or_create_pid (d_event_accum d) (pid ev)"
  have two: "d_event_accum (handle_marker d ev) = d_event_accum d \<or>
      (acc_tm (d_event_accum (handle_marker d ev)) = acc_tm (snd ?g) \<and>
       pid_times (d_event_accum (handle_marker d ev)) = pid_times (snd ?g))"
    by (auto simp: handle_marker_def Let_def case_prod_unfold frame_simps upd_pa_view split: option.splits)
  have len: "pid_times a = pid_times b \<Longrightarrow> length (acc_pids a) = length (acc_pids b)" for a b
    by (metis length_pid_times)
  show "acc_tm (d_event_accum (handle_marker d ev)) = acc_tm (d_event_accum d)"
    using two get_or_create_pid_tm by metis
  show "pids_db (d_event_accum (handle_marker d ev)) = pids_db (d_event_accum d)"
    using two pids_db_frame get_or_create_pid_db by metis
  show "length (acc_pids (d_event_accum d)) \<le> length (acc_pids (d_event_accum (handle_marker d ev)))"
    using two length_get_or_create_pid len by (metis order_refl)
  show "cached_cats (d_event_accum (handle_marker d ev)) \<subseteq> insert 0 (cached_cats (d_event_accum d))"
    using two cats_get_or_create_pid cached_cats_def by (metis subset_insertI)
qed

lemma record_entry_Some:
  "length (acc_pids (d_event_accum (handle_interval d ev))) < MAX_BACKENDS \<Longrightarrow> record_entry d ev \<noteq> None"
proof -
  let ?g = "pgwt_get_or_create_pid (d_event_accum d) (pid ev)"
  assume lt: "length (acc_pids (d_event_accum (handle_interval d ev))) < MAX_BACKENDS"
  have "length (acc_pids (record_acc d ev)) \<le> length (acc_pids (snd (iv_entry (record_iv d ev) (record_acc d ev))))"
    using length_get_or_create_pid by (auto simp: iv_entry_def split: option.splits)
  also have "\<dots> = length (acc_pids (d_event_accum (handle_interval d ev)))"
    using arg_cong [OF handle_interval_view, of length d ev] by (simp add: add_interval_length)
  finally have "length (acc_pids (snd ?g)) < MAX_BACKENDS" using lt by (simp add: record_acc_facts)
  then show ?thesis unfolding record_entry_def
    by (cases rule: get_or_create_pid_cases [of "d_event_accum d" "pid ev"]) auto
qed

lemma handle_interval_pids:
  "length (acc_pids (d_event_accum d)) \<le> length (acc_pids (d_event_accum (handle_interval d ev)))"
  "length (acc_pids (d_event_accum (handle_interval d ev))) < MAX_BACKENDS \<Longrightarrow>
     pids_db (d_event_accum (handle_interval d ev)) =
       pids_db (d_event_accum d) + iv_load_ns (d_idle_rule d) (record_iv d ev)"
  "cached_cats (d_event_accum (handle_interval d ev)) \<subseteq>
     insert 0 (cached_cats (d_event_accum d)) \<union> (\<lambda>f. f + 1) ` reg_flags d"
proof -
  let ?add = "pgwt_accum_add_interval (d_idle_rule d) (record_acc d ev) (record_iv d ev)"
  have "length (acc_pids (d_event_accum d)) \<le> length (acc_pids (record_acc d ev))"
    using length_get_or_create_pid by (simp add: record_acc_facts)
  also have "\<dots> \<le> length (acc_pids (snd (iv_entry (record_iv d ev) (record_acc d ev))))"
    using length_get_or_create_pid by (auto simp: iv_entry_def split: option.splits)
  also have "\<dots> = length (acc_pids (d_event_accum (handle_interval d ev)))"
    using arg_cong [OF handle_interval_view, of length d ev] by (simp add: add_interval_length)
  finally show "length (acc_pids (d_event_accum d)) \<le> length (acc_pids (d_event_accum (handle_interval d ev)))" .
  show "cached_cats (d_event_accum (handle_interval d ev)) \<subseteq>
      insert 0 (cached_cats (d_event_accum d)) \<union> (\<lambda>f. f + 1) ` reg_flags d"
    using cats_add_interval [OF record_iv_ok, of "d_idle_rule d" d ev] record_acc_facts(4) [of d ev]
      handle_interval_view [of d ev] unfolding cached_cats_def by (auto 0 3)
  assume "length (acc_pids (d_event_accum (handle_interval d ev))) < MAX_BACKENDS"
  then obtain i where i: "record_entry d ev = Some i" using record_entry_Some by blast
  have "pids_db (d_event_accum (handle_interval d ev)) = pids_db ?add"
    by (rule pids_db_frame [OF handle_interval_view])
  also have "\<dots> = pids_db (record_acc d ev) + iv_load_ns (d_idle_rule d) (record_iv d ev)"
    using add_interval_pids_db [OF record_iv_ok, of "d_idle_rule d" d ev] i
      iv_entry_Some [of "record_iv d ev" i "record_acc d ev"] by (simp add: record_iv_fields)
  finally show "pids_db (d_event_accum (handle_interval d ev)) =
       pids_db (d_event_accum d) + iv_load_ns (d_idle_rule d) (record_iv d ev)"
    by (simp add: record_acc_facts)
qed

text \<open>One record, over the daemon's time totals.\<close>

lemma handle_step:
  assumes "has_row (d_idle_rule d) ev"
  defines "d' \<equiv> snd (pgwt_handle_trace_event d ev)"
  defines "a \<equiv> d_event_accum d" and "a' \<equiv> d_event_accum d'"
  shows "tm_db_time_ns (acc_tm a') - tm_accounted (acc_tm a') = tm_db_time_ns (acc_tm a) - tm_accounted (acc_tm a)"
    and "length (acc_pids a) \<le> length (acc_pids a')"
    and "length (acc_pids a') < MAX_BACKENDS \<Longrightarrow>
           pids_db a' - tm_db_time_ns (acc_tm a') = pids_db a - tm_db_time_ns (acc_tm a)"
    and "io_free d \<Longrightarrow> io_free d' \<and>
           tm_db_time_ns (acc_tm a') + tm_activity_time_ns (acc_tm a') =
           tm_db_time_ns (acc_tm a) + tm_activity_time_ns (acc_tm a) + dur_of ev"
proof -
  define e where "e = writer_push (d\<lparr>d_counters := (d_counters d)\<lparr>events_total := events_total (d_counters d) + 1\<rparr>\<rparr>) ev"
  have ef: "d_event_accum e = a" "d_idle_rule e = d_idle_rule d" "d_backends e = d_backends d"
    by (simp_all add: e_def a_def frame_simps)
  have a': "a' = d_event_accum (if PGWT_IS_MARKER (old_event ev) then handle_marker e ev else handle_interval e ev)"
    unfolding a'_def d'_def e_def by (rule handle_acc)
  have reg: "reg_flags d' = reg_flags d"
    using stream_core_fields(2) [OF handle_core [of d ev]] by (simp add: reg_flags_def d'_def)
  have ioe: "io_free e = io_free d" using ef by (simp add: io_free_def reg_flags_def a_def)
  have cats: "cached_cats a' \<subseteq> insert 0 (cached_cats a) \<union> (\<lambda>f. f + 1) ` reg_flags d"
    using handle_marker_acc(4) [of e ev] handle_interval_pids(3) [of e ev] a' ef
    by (auto simp: reg_flags_def)
  have io: "io_free d \<Longrightarrow> io_free d'"
    using cats reg unfolding io_free_def a_def a'_def by fastforce
  let ?r = "d_idle_rule d"
  let ?iv = "record_iv e ev"
  have tm: "acc_tm a' = (if PGWT_IS_MARKER (old_event ev) then acc_tm a else add_to_tm ?r ?iv (acc_tm a))"
    using a' ef handle_marker_acc(1) [of e ev] handle_interval_tm [of e ev] by simp
  show "tm_db_time_ns (acc_tm a') - tm_accounted (acc_tm a') = tm_db_time_ns (acc_tm a) - tm_accounted (acc_tm a)"
    using tm add_to_tm_times(1,2) [of ?r ?iv "acc_tm a"] unbucketed_zero [OF assms(1), of e] by auto
  show "length (acc_pids a) \<le> length (acc_pids a')"
    using a' ef handle_marker_acc(3) [of e ev] handle_interval_pids(1) [of e ev] by simp
  show "pids_db a' - tm_db_time_ns (acc_tm a') = pids_db a - tm_db_time_ns (acc_tm a)"
    if "length (acc_pids a') < MAX_BACKENDS"
    using that a' ef tm handle_marker_acc(2) [of e ev] handle_interval_pids(2) [of e ev]
      add_to_tm_times(1) [of ?r ?iv "acc_tm a"] by (auto split: if_splits)
  show "io_free d' \<and> tm_db_time_ns (acc_tm a') + tm_activity_time_ns (acc_tm a') =
           tm_db_time_ns (acc_tm a) + tm_activity_time_ns (acc_tm a) + dur_of ev" if "io_free d"
    using io [OF that] tm add_to_tm_times(1,3) [of ?r ?iv "acc_tm a"] record_cat_io_free [of e ev] ioe that
    by (auto simp: dur_of_def iv_load_ns_def iv_idle_ns_def record_iv_fields)
qed

lemma consume_conserves:
  assumes "\<forall>ev \<in> set evs. has_row (d_idle_rule d) ev" and "d_drain_limit d = 0"
  defines "a \<equiv> d_event_accum d" and "a' \<equiv> d_event_accum (fst (ring_consume d evs))"
  shows "tm_db_time_ns (acc_tm a') - tm_accounted (acc_tm a') = tm_db_time_ns (acc_tm a) - tm_accounted (acc_tm a) \<and>
         length (acc_pids a) \<le> length (acc_pids a') \<and>
         (length (acc_pids a') < MAX_BACKENDS \<longrightarrow>
            pids_db a' - tm_db_time_ns (acc_tm a') = pids_db a - tm_db_time_ns (acc_tm a)) \<and>
         (io_free d \<longrightarrow> tm_db_time_ns (acc_tm a') + tm_activity_time_ns (acc_tm a') =
           tm_db_time_ns (acc_tm a) + tm_activity_time_ns (acc_tm a) + sum_list (map dur_of evs))"
  using assms(1,2) unfolding a_def a'_def
proof (induction evs arbitrary: d)
  case (Cons ev evs)
  let ?d = "snd (pgwt_handle_trace_event d ev)"
  have f: "d_idle_rule ?d = d_idle_rule d" "d_drain_limit ?d = 0"
    using stream_core_fields(10,13) [OF handle_core [of d ev]] Cons.prems(2) by simp_all
  have ok: "has_row (d_idle_rule d) ev" using Cons.prems(1) by simp
  note step = handle_step [OF ok]
  have "\<forall>e \<in> set evs. has_row (d_idle_rule ?d) e" using Cons.prems(1) f(1) by simp
  note IH = Cons.IH [OF this f(2)]
  note IH1 = IH [THEN conjunct1] and IH2 = IH [THEN conjunct2, THEN conjunct1]
    and IH3 = IH [THEN conjunct2, THEN conjunct2, THEN conjunct1, rule_format]
    and IH4 = IH [THEN conjunct2, THEN conjunct2, THEN conjunct2, rule_format]
  show ?case unfolding ring_consume_no_limit_step [OF Cons.prems(2)]
  proof (intro conjI impI)
    assume "io_free d"
    from step(4) [OF this] have io: "io_free ?d" and e: "tm_db_time_ns (acc_tm (d_event_accum ?d)) +
        tm_activity_time_ns (acc_tm (d_event_accum ?d)) = tm_db_time_ns (acc_tm (d_event_accum d)) +
        tm_activity_time_ns (acc_tm (d_event_accum d)) + dur_of ev" by simp_all
    show "tm_db_time_ns (acc_tm (d_event_accum (fst (ring_consume ?d evs)))) +
        tm_activity_time_ns (acc_tm (d_event_accum (fst (ring_consume ?d evs)))) =
        tm_db_time_ns (acc_tm (d_event_accum d)) + tm_activity_time_ns (acc_tm (d_event_accum d)) +
        sum_list (map dur_of (ev # evs))"
      unfolding IH4 [OF io] e by (simp add: add.assoc)
  next
    assume lt: "length (acc_pids (d_event_accum (fst (ring_consume ?d evs)))) < MAX_BACKENDS"
    with IH2 have "length (acc_pids (d_event_accum ?d)) < MAX_BACKENDS" by linarith
    from IH3 [OF lt] step(3) [OF this]
    show "pids_db (d_event_accum (fst (ring_consume ?d evs))) -
        tm_db_time_ns (acc_tm (d_event_accum (fst (ring_consume ?d evs)))) =
        pids_db (d_event_accum d) - tm_db_time_ns (acc_tm (d_event_accum d))" by (rule trans)
  qed (fact trans [OF IH1 step(1)], fact order_trans [OF step(2) IH2])
qed simp

text \<open>Every record opens few entries, so a short stream leaves the pid table room.\<close>

lemma length_get_or_create_pid_le:
  "length (acc_pids (snd (pgwt_get_or_create_pid acc p))) \<le> Suc (length (acc_pids acc))"
  by (cases rule: get_or_create_pid_cases [of acc p]) auto

lemma handle_length:
  "length (acc_pids (d_event_accum (snd (pgwt_handle_trace_event d ev)))) \<le>
     length (acc_pids (d_event_accum d)) + 2"
proof -
  have m: "length (acc_pids (d_event_accum (handle_marker d ev))) \<le> length (acc_pids (d_event_accum d)) + 2" for d
  proof -
    let ?g = "pgwt_get_or_create_pid (d_event_accum d) (pid ev)"
    have "pid_times (d_event_accum (handle_marker d ev)) \<in> {pid_times (d_event_accum d), pid_times (snd ?g)}"
      by (auto simp: handle_marker_def Let_def case_prod_unfold frame_simps upd_pa_view split: option.splits)
    then have "length (acc_pids (d_event_accum (handle_marker d ev))) \<in>
        {length (acc_pids (d_event_accum d)), length (acc_pids (snd ?g))}"
      by (metis (no_types, lifting) insert_iff length_pid_times singletonD)
    then show ?thesis using length_get_or_create_pid_le [of "d_event_accum d" "pid ev"] by auto
  qed
  have i: "length (acc_pids (d_event_accum (handle_interval d ev))) \<le> length (acc_pids (d_event_accum d)) + 2" for d
  proof -
    have "length (acc_pids (d_event_accum (handle_interval d ev))) =
        length (acc_pids (snd (iv_entry (record_iv d ev) (record_acc d ev))))"
      using arg_cong [OF handle_interval_view, of length d ev] by (simp add: add_interval_length)
    also have "\<dots> \<le> Suc (length (acc_pids (record_acc d ev)))"
      using length_get_or_create_pid_le by (auto simp: iv_entry_def split: option.splits)
    also have "\<dots> \<le> length (acc_pids (d_event_accum d)) + 2"
      using length_get_or_create_pid_le [of "d_event_accum d" "pid ev"] by (simp add: record_acc_facts)
    finally show ?thesis .
  qed
  show ?thesis
    using m [of "writer_push (d\<lparr>d_counters := (d_counters d)\<lparr>events_total := events_total (d_counters d) + 1\<rparr>\<rparr>) ev"]
      i [of "writer_push (d\<lparr>d_counters := (d_counters d)\<lparr>events_total := events_total (d_counters d) + 1\<rparr>\<rparr>) ev"]
    unfolding handle_acc by (simp add: frame_simps)
qed

lemma consume_length:
  "length (acc_pids (d_event_accum (fst (ring_consume d evs)))) \<le>
     length (acc_pids (d_event_accum d)) + 2 * length evs"
proof (induction evs arbitrary: d)
  case (Cons ev evs)
  show ?case
    using Cons.IH [of "snd (pgwt_handle_trace_event d ev)"] handle_length [of d ev]
    by (auto simp: case_prod_unfold)
qed simp

section \<open>Properties\<close>


definition sample_counters :: pgwt_counters where
  "sample_counters = \<lparr>events_total = 0, wp_attach_failures_total = 0, state_map_full_total = 0,
     invalid_wait_reads_total = 0, cpu_ns_total = 0, offcpu_ns_total = 0, cpu_clamped_ns_total = 0,
     wait_gap_cpu_ns_total = 0, live_cmd_markers_total = 0, live_cpu_unmarked_ns_total = 0,
     live_cpu_gate_fallback_total = 0\<rparr>"

definition idle_escalation :: pgwt_escalation where
  "idle_escalation = \<lparr>esc_enabled = True, esc_active = False, esc_admitting = False, esc_generation = 0,
     esc_next_generation = 0, esc_attach_boundary_ns = 0, esc_timer_fd = 5, window_deadline_ns = 0,
     window_start_ns = 0, window_reason = ESC_REASON_MANUAL, budget_ns = 600000000000,
     budget_unlimited = False, rolling_window_ns = 3600000000000, ledger = [], windows_total = 0,
     denied_total = 0, budget_closed_total = 0\<rparr>"

definition sample_daemon :: "pgwt_backend list \<Rightarrow> pgwt_daemon" where
  "sample_daemon bes =
     \<lparr>d_tiered = True, d_idle_rule = idle_state_init, d_tick = 0, d_backends = bes,
      d_counters = sample_counters, d_event_accum = pgwt_accum_init,
      d_event_writer = Some \<lparr>ew_enabled = True, ew_open = False, ew_can_open = True,
        ew_cpu_measured = True, ew_log = []\<rparr>,
      d_summary_writer = Some [], d_cpu_accounting = True, d_cmd_gate_active = True,
      d_drain_limit = 0, d_drain_current = 0, d_exact_cpu_active = False, d_lightweight_mode = False,
      d_skip_usdt = False, d_sampled_attr_enabled = True, d_sampled_activity_enabled = False,
      d_escalation = idle_escalation, d_timer = None, d_exact_core = core_init,
      d_exact_config = \<lparr>cfg_generation = 0, cfg_attach_boundary_ns = 0, cfg_admitting = True\<rparr>,
      d_exact_attr_map = (\<lambda>_. None), d_exact_seed_map = (\<lambda>_. None), d_state_map = (\<lambda>_. None)\<rparr>"

definition stream_events :: "pgwt_trace_event list" where
  "stream_events =
     [\<lparr>timestamp_ns = 100, pid = 7, old_event = PGWT_MARKER_CMD_START, new_event = PGWT_MARKER_CMD_START,
       flags = 0, duration_ns = 0, query_id = 5, cpu_ns = 0\<rparr>,
      \<lparr>timestamp_ns = 180, pid = 7, old_event = 0, new_event = 0x0A000003, flags = 2, duration_ns = 80,
       query_id = 5, cpu_ns = 60\<rparr>,
      \<lparr>timestamp_ns = 200, pid = 7, old_event = 0x0A000003, new_event = 0, flags = 2, duration_ns = 20,
       query_id = 5, cpu_ns = 0\<rparr>]"


end
