(* ===== verification/Exact_Window.thy ===== *)
theory Exact_Window
  imports Event_Stream
begin

text \<open>
  The exact window over the daemon: the libbpf half of src/src/exact_probe.c (acquire, quiesce,
  release, resolve, seed) and the watchpoint attach of src/src/backend.c with its state-map seed. What
  the kernel and the traced processes answer is the record \<open>kernel\<close>, an argument of every
  operation: the outcomes of map updates, of opening and enabling watchpoints, of the reads of
  another process's memory, and the readings of the monotonic clock. The skeleton is loaded. The
  query-text store, the context observation and the test hooks are left out.
\<close>

section \<open>What the kernel answers\<close>

text \<open>A coherent PgBackendStatus read; \<open>sa_synth\<close> is the synthetic id of its activity text.\<close>

record sampled_attr =
  sa_query_id :: u64
  sa_cmd_open :: u16
  sa_synth :: "u64 option"

record kernel =
  k_t0 :: u64
  k_t1 :: u64
  k_t2 :: u64
  k_seed_ts :: "int \<Rightarrow> u64"
  k_attach :: attach_fn
  k_cfg_open :: bool
  k_cfg_undo :: bool
  k_cfg_quiesce :: bool
  k_cfg_release :: bool
  k_wp_open :: "int \<Rightarrow> int"
  k_wp_enable :: "int \<Rightarrow> bool"
  k_seed_update :: "u32 \<Rightarrow> bool"
  k_state_update :: "u32 \<Rightarrow> bool"
  k_read_attr :: "int \<Rightarrow> sampled_attr option"
  k_cmd_gate :: "int \<Rightarrow> bool \<times> u64 \<Rightarrow> bool \<times> u64"
  k_proc_alive :: "int \<Rightarrow> bool"
  k_backend_type :: "int \<Rightarrow> pgwt_backend_type option"
  k_read_wei :: "int \<Rightarrow> u32 option"
  k_read_qid :: "int \<Rightarrow> u64"
  k_in_command :: "int \<Rightarrow> bool"
  k_ring :: "pgwt_trace_event list"

definition pid_key :: "int \<Rightarrow> u32" where
  "pid_key p = word_of_int p"

section \<open>Configuration and links\<close>

definition set_config :: "bool \<Rightarrow> pgwt_daemon \<Rightarrow> u64 \<Rightarrow> u64 \<Rightarrow> bool \<Rightarrow> bool \<times> pgwt_daemon" where
  "set_config ok d generation boundary admitting =
     (if ok then (True, d\<lparr>d_exact_config := \<lparr>cfg_generation = generation,
                   cfg_attach_boundary_ns = boundary, cfg_admitting = admitting\<rparr>\<rparr>)
      else (False, d))"

definition pgwt_exact_probe_acquire :: "kernel \<Rightarrow> pgwt_daemon \<Rightarrow> u64 \<Rightarrow> u64 \<Rightarrow> bool \<times> pgwt_daemon" where
  "pgwt_exact_probe_acquire k d generation boundary =
     (case set_config (k_cfg_open k) d generation boundary True of
        (False, d) \<Rightarrow> (False, d)
      | (True, d) \<Rightarrow>
          let m = pgwt_exact_probe_acquire_mask (d_lightweight_mode d) (d_skip_usdt d)
          in (case pgwt_exact_probe_core_acquire (k_attach k) (d_exact_core d) m generation of
                (False, c) \<Rightarrow> (False, snd (set_config (k_cfg_undo k) (d\<lparr>d_exact_core := c\<rparr>) 0 0 True))
              | (True, c) \<Rightarrow> (True, d\<lparr>d_exact_core := c, d_cmd_gate_active := True\<rparr>)))"

definition pgwt_exact_probe_quiesce :: "kernel \<Rightarrow> pgwt_daemon \<Rightarrow> bool \<times> pgwt_daemon" where
  "pgwt_exact_probe_quiesce k d =
     (if k_cfg_quiesce k
      then (True, d\<lparr>d_exact_config := (d_exact_config d)\<lparr>cfg_admitting := False\<rparr>\<rparr>) else (False, d))"

definition PGWT_EXACT_PROBE_ACTIVITY :: nat where [simp]: "PGWT_EXACT_PROBE_ACTIVITY = 1"

definition gate_maintained :: "pgwt_daemon \<Rightarrow> bool" where
  "gate_maintained d \<longleftrightarrow> d_sampled_attr_enabled d \<or>
     attached_mask (d_exact_core d) AND PGWT_EXACT_PROBE_BIT PGWT_EXACT_PROBE_ACTIVITY \<noteq> 0"

definition pgwt_exact_probe_release :: "kernel \<Rightarrow> pgwt_daemon \<Rightarrow> pgwt_daemon" where
  "pgwt_exact_probe_release k d =
     (let d = d\<lparr>d_exact_core := pgwt_exact_probe_core_release (d_exact_core d)\<rparr>;
          d = (if consumers (d_exact_core d) = 0 then snd (set_config (k_cfg_release k) d 0 0 True) else d)
      in d\<lparr>d_cmd_gate_active := gate_maintained d\<rparr>)"

definition pgwt_exact_probe_reconcile_sampled :: "bool \<Rightarrow> pgwt_daemon \<Rightarrow> pgwt_daemon" where
  "pgwt_exact_probe_reconcile_sampled sampled_or_tiered d =
     (if \<not> sampled_or_tiered \<or> \<not> d_sampled_attr_enabled d then d
      else d\<lparr>d_exact_core := pgwt_exact_probe_core_unpin (d_exact_core d) PGWT_EXACT_PROBE_ATTR_MASK,
             d_cmd_gate_active := True\<rparr>)"

section \<open>Resolving a pid's attribution\<close>

record resolved_attr =
  ra_query_id :: u64
  ra_cmd_open :: u16
  ra_quality :: u16
  ra_phase_flags :: u16
  ra_plan_start :: u64
  ra_exec_start :: u64

definition no_attr :: resolved_attr where
  "no_attr = \<lparr>ra_query_id = 0, ra_cmd_open = 0, ra_quality = PGWT_QUERY_QUALITY_NONE, ra_phase_flags = 0,
     ra_plan_start = 0, ra_exec_start = 0\<rparr>"

text \<open>The boolean is the return value 0; the out-parameters are filled either way.\<close>

definition pgwt_exact_resolve_attr :: "pgwt_daemon \<Rightarrow> int \<Rightarrow> bool \<times> resolved_attr" where
  "pgwt_exact_resolve_attr d p =
     (if p \<le> 0 then (False, no_attr)
      else
        let cfg = d_exact_config d;
            edge = d_exact_attr_map d (pid_key p);
            seed = d_exact_seed_map d (pid_key p);
            (qid, packed) = pgwt_exact_merge_attr (Some cfg) edge seed;
            r = no_attr\<lparr>ra_query_id := qid, ra_cmd_open := ucast (packed AND 0xFFFF),
                        ra_quality := ucast (drop_bit 16 packed)\<rparr>;
            r = (case edge of
                   Some e \<Rightarrow> if phase_generation e = cfg_generation cfg
                             then r\<lparr>ra_phase_flags := phase_flags e, ra_plan_start := plan_start_ts e,
                                    ra_exec_start := exec_start_ts e\<rparr> else r
                 | None \<Rightarrow> r)
        in (edge \<noteq> None \<or> seed \<noteq> None, r))"

section \<open>Seeding a generation\<close>

definition find_backend :: "pgwt_daemon \<Rightarrow> int \<Rightarrow> bool" where
  "find_backend d p \<longleftrightarrow> list_ex (\<lambda>be. be_pid be = p) (d_backends d)"

definition quality_of :: "u64 \<Rightarrow> u16" where
  "quality_of q = (if q \<noteq> 0 then PGWT_QUERY_QUALITY_REAL else PGWT_QUERY_QUALITY_NONE)"

text \<open>The first source that answers: \<open>(coherent, query id, command open, quality)\<close>.\<close>

definition seed_source :: "kernel \<Rightarrow> pgwt_daemon \<Rightarrow> int \<Rightarrow> bool \<Rightarrow> bool \<times> u64 \<times> u16 \<times> u16" where
  "seed_source k d p require_coherent =
     (let activity = d_sampled_activity_enabled d in
      if d_sampled_attr_enabled d \<and> activity \<and> \<not> require_coherent
      then (True, 0, 0, PGWT_QUERY_QUALITY_NONE)
      else if d_sampled_attr_enabled d then
        (case (if activity \<and> \<not> find_backend d p then None else k_read_attr k p) of
           None \<Rightarrow> (False, 0, 0, PGWT_QUERY_QUALITY_NONE)
         | Some a \<Rightarrow>
             if activity \<and> sa_cmd_open a \<noteq> 0 then
               (case sa_synth a of
                  Some q \<Rightarrow> (True, q, sa_cmd_open a, PGWT_QUERY_QUALITY_PG13_SYNTH)
                | None \<Rightarrow> (True, 0, sa_cmd_open a, PGWT_QUERY_QUALITY_NONE))
             else (True, sa_query_id a, sa_cmd_open a, quality_of (sa_query_id a)))
      else
        let (q, op, ql) = (case d_exact_attr_map d (pid_key p) of
                             Some e \<Rightarrow> (edge_query_id e, edge_cmd_open e, quality_of (edge_query_id e))
                           | None \<Rightarrow> (0, 0, PGWT_QUERY_QUALITY_NONE));
            (gate, q) = k_cmd_gate k p (op \<noteq> 0, q)
        in (True, q, if gate then 1 else 0, ql))"

text \<open>A post-boundary probe edge of the generation is authoritative on its own.\<close>

definition edge_source :: "pgwt_daemon \<Rightarrow> int \<Rightarrow> u64 \<Rightarrow> (u64 \<times> u16 \<times> u16) option" where
  "edge_source d p generation =
     (case d_exact_attr_map d (pid_key p) of
        None \<Rightarrow> None
      | Some e \<Rightarrow>
          if (query_generation e = generation \<and> query_edge_ts e \<ge> cfg_attach_boundary_ns (d_exact_config d)) \<or>
             (cmd_generation e = generation \<and> cmd_edge_ts e \<ge> cfg_attach_boundary_ns (d_exact_config d))
          then let r = snd (pgwt_exact_resolve_attr d p)
               in Some (ra_query_id r, ra_cmd_open r, quality_of (ra_query_id r))
          else None)"

definition pgwt_exact_seed_backend ::
  "kernel \<Rightarrow> pgwt_daemon \<Rightarrow> int \<Rightarrow> u64 \<Rightarrow> bool \<Rightarrow> bool \<times> pgwt_daemon" where
  "pgwt_exact_seed_backend k d p generation require_coherent =
     (if p \<le> 0 \<or> generation = 0 then (False, d)
      else
        let (coherent, q, op, ql) = seed_source k d p require_coherent;
            (coherent, q, op, ql) =
              (if coherent then (True, q, op, ql)
               else case edge_source d p generation of
                      Some (q, op, ql) \<Rightarrow> (True, q, op, ql)
                    | None \<Rightarrow> (False, q, op, ql))
        in if \<not> coherent \<and> require_coherent then (False, d)
           else if k_seed_update k (pid_key p) then
             (True, d\<lparr>d_exact_seed_map := (d_exact_seed_map d)(pid_key p \<mapsto>
                \<lparr>seed_generation = generation, seed_snapshot_ts = k_seed_ts k p, seed_query_id = q,
                 seed_cmd_open = op, seed_query_quality = ql\<rparr>)\<rparr>)
           else (False, d))"

definition parse_meta :: "kernel \<Rightarrow> pgwt_backend \<Rightarrow> pgwt_backend" where
  "parse_meta k be =
     (if be_meta_parsed be then be
      else case k_backend_type k (be_pid be) of
             Some t \<Rightarrow> be\<lparr>be_backend_type := t, be_meta_parsed := True\<rparr>
           | None \<Rightarrow> be)"

fun seed_loop :: "kernel \<Rightarrow> u64 \<Rightarrow> nat list \<Rightarrow> pgwt_daemon \<Rightarrow> bool \<times> pgwt_daemon" where
  "seed_loop k generation [] d = (True, d)"
| "seed_loop k generation (i # is) d =
     (let be = d_backends d ! i in
      if \<not> be_is_alive be \<or> be_pid be \<le> 0 then seed_loop k generation is d
      else
        let be = parse_meta k be;
            d = d\<lparr>d_backends := (d_backends d)[i := be]\<rparr>;
            needs_attr = (\<not> be_meta_parsed be \<or> be_backend_type be = PGWT_BT_CLIENT \<or>
                          be_backend_type be = PGWT_BT_PARALLEL_WORKER);
            (ok, d) = pgwt_exact_seed_backend k d (be_pid be) generation needs_attr
        in if \<not> ok \<and> k_proc_alive k (be_pid be) then (False, d) else seed_loop k generation is d)"

definition pgwt_exact_seed_all :: "kernel \<Rightarrow> pgwt_daemon \<Rightarrow> u64 \<Rightarrow> bool \<times> pgwt_daemon" where
  "pgwt_exact_seed_all k d generation = seed_loop k generation [0..<length (d_backends d)] d"

definition pgwt_exact_seed_clear :: "pgwt_daemon \<Rightarrow> u64 \<Rightarrow> pgwt_daemon" where
  "pgwt_exact_seed_clear d generation =
     d\<lparr>d_exact_seed_map := (\<lambda>p. case d_exact_seed_map d p of
         Some s \<Rightarrow> if seed_generation s = generation then None else Some s | None \<Rightarrow> None)\<rparr>"

section \<open>Attaching a watchpoint\<close>

definition bump :: "(pgwt_counters \<Rightarrow> pgwt_counters) \<Rightarrow> pgwt_daemon \<Rightarrow> pgwt_daemon" where
  "bump f d = d\<lparr>d_counters := f (d_counters d)\<rparr>"

definition preseed_state_map :: "kernel \<Rightarrow> pgwt_daemon \<Rightarrow> int \<Rightarrow> u64 \<Rightarrow> u64 \<Rightarrow> pgwt_daemon" where
  "preseed_state_map k d p addr attach_ts =
     (case k_read_wei k p of
        None \<Rightarrow> d
      | Some raw \<Rightarrow>
          let garbage = (pgwt_classify_wei raw = PGWT_WEI_GARBAGE);
              d = (if garbage then bump (\<lambda>c. c\<lparr>invalid_wait_reads_total := invalid_wait_reads_total c + 1\<rparr>) d
                   else d);
              wei = (if garbage then 0 else raw);
              prev = (case d_state_map d (pid_key p) of Some s \<Rightarrow> st_cmd_open s | None \<Rightarrow> 0);
              op = (if prev = 0 \<and> k_in_command k p then 1 else prev)
          in if k_state_update k (pid_key p) then
               d\<lparr>d_state_map := (d_state_map d)(pid_key p \<mapsto>
                 \<lparr>last_event = wei, wp_live = 1, st_cmd_open = op, last_ts = attach_ts,
                  last_query_id = k_read_qid k p, be_entry_ptr = 0, wait_event_addr = addr,
                  st_cpu_ns_total = 0,
                  on_cpu_ts = (if d_cpu_accounting d \<and> wei = 0 then attach_ts else 0),
                  last_cpu_ns = 0\<rparr>)\<rparr>
             else bump (\<lambda>c. c\<lparr>state_map_full_total := state_map_full_total c + 1\<rparr>) d)"

abbreviation set_be :: "nat \<Rightarrow> pgwt_backend \<Rightarrow> pgwt_daemon \<Rightarrow> pgwt_daemon" where
  "set_be i be d \<equiv> d\<lparr>d_backends := (d_backends d)[i := be]\<rparr>"

definition pgwt_attach_backend_watchpoint :: "kernel \<Rightarrow> pgwt_daemon \<Rightarrow> nat \<Rightarrow> bool \<times> pgwt_daemon" where
  "pgwt_attach_backend_watchpoint k d i =
     (let be = d_backends d ! i in
      if be_wp_addr be = 0 \<or> be_wp_fd be \<ge> 0 then (be_wp_fd be \<ge> 0, d)
      else
        let fd = k_wp_open k (be_pid be);
            be = be\<lparr>be_wp_fd := fd, be_wp_enabled := False\<rparr>
        in if fd < 0 then
             (False, bump (\<lambda>c. c\<lparr>wp_attach_failures_total := wp_attach_failures_total c + 1\<rparr>) (set_be i be d))
           else
             let be = (if be_attach_ts be = 0 then be\<lparr>be_attach_ts := k_t2 k\<rparr> else be);
                 d = set_be i be d;
                 d = (if core_generation (d_exact_core d) \<noteq> 0
                      then snd (pgwt_exact_seed_backend k d (be_pid be) (core_generation (d_exact_core d)) False)
                      else d);
                 d = preseed_state_map k d (be_pid be) (be_wp_addr be) (be_attach_ts be)
             in if k_wp_enable k fd then (True, set_be i (be\<lparr>be_wp_enabled := True\<rparr>) d)
                else (False, bump (\<lambda>c. c\<lparr>wp_attach_failures_total := wp_attach_failures_total c + 1\<rparr>)
                               (set_be i (be\<lparr>be_wp_fd := - 1\<rparr>) d)))"

end
