(* ===== verification/Open_Interval.thy ===== *)
theory Open_Interval
  imports Event_Stream
begin

text \<open>
  A backend's still-open stretch: src/src/open_interval.h. The skip rules and the measured-CPU
  arithmetic that turn the BPF state of a pid into a closing record, shared by the de-escalation
  flush, the shutdown flush and the live snapshot.
\<close>

section \<open>The builder\<close>

datatype pgwt_open_stretch_rc =
    PGWT_OPEN_STRETCH_BUILT
  | PGWT_OPEN_STRETCH_SKIP_SEED
  | PGWT_OPEN_STRETCH_SKIP_NOT_OPEN
  | PGWT_OPEN_STRETCH_SKIP_MARKER

record pgwt_open_stretch_attr =
  osa_query_id :: u64
  osa_cmd_open :: u16
  osa_quality :: u16

definition pgwt_open_stretch_cpu_ns :: "u64 \<Rightarrow> u64 \<Rightarrow> u64 \<Rightarrow> u64 \<Rightarrow> bool \<Rightarrow> u64" where
  "pgwt_open_stretch_cpu_ns tot on_ts base now cpu_accounting =
     (if \<not> cpu_accounting then PGWT_CPU_NS_UNKNOWN
      else let exact = (if on_ts \<noteq> 0 \<and> now \<ge> on_ts then tot + (now - on_ts) else tot)
           in if exact \<ge> base then exact - base else 0)"

definition pgwt_open_stretch_gate :: "pgwt_pid_state \<Rightarrow> u64 \<Rightarrow> pgwt_open_stretch_rc" where
  "pgwt_open_stretch_gate st now =
     (if wp_live st = 0 then PGWT_OPEN_STRETCH_SKIP_SEED
      else if now \<le> last_ts st then PGWT_OPEN_STRETCH_SKIP_NOT_OPEN
      else if PGWT_IS_MARKER (last_event st) then PGWT_OPEN_STRETCH_SKIP_MARKER
      else PGWT_OPEN_STRETCH_BUILT)"

text \<open>\<open>Inr\<close> is \<open>*out\<close> under \<open>PGWT_OPEN_STRETCH_BUILT\<close>, \<open>Inl\<close> the reason there is none.\<close>

definition pgwt_build_open_stretch ::
  "u32 \<Rightarrow> pgwt_pid_state \<Rightarrow> u64 \<Rightarrow> bool \<Rightarrow> pgwt_open_stretch_attr \<Rightarrow> pgwt_open_stretch_rc + pgwt_trace_event" where
  "pgwt_build_open_stretch p st now cpu_accounting attr =
     (let rc = pgwt_open_stretch_gate st now in
      if rc \<noteq> PGWT_OPEN_STRETCH_BUILT then Inl rc
      else Inr \<lparr>timestamp_ns = now, pid = p, old_event = last_event st, new_event = last_event st,
        flags = (if osa_cmd_open attr \<noteq> 0 then PGWT_EVENT_FLAG_CMD_OPEN else 0) OR
                (if osa_quality attr = PGWT_QUERY_QUALITY_PG13_SYNTH then PGWT_EVENT_FLAG_QUERY_SYNTH else 0),
        duration_ns = now - last_ts st, query_id = osa_query_id attr,
        cpu_ns = pgwt_open_stretch_cpu_ns (st_cpu_ns_total st) (on_cpu_ts st) (last_cpu_ns st) now cpu_accounting\<rparr>)"

section \<open>What is built\<close>

lemma gate_built_iff:
  "pgwt_open_stretch_gate st now = PGWT_OPEN_STRETCH_BUILT \<longleftrightarrow>
     wp_live st \<noteq> 0 \<and> last_ts st < now \<and> \<not> PGWT_IS_MARKER (last_event st)"
  by (auto simp: pgwt_open_stretch_gate_def)

lemma build_Inr_iff:
  "(\<exists>ev. pgwt_build_open_stretch p st now ca attr = Inr ev) \<longleftrightarrow>
     pgwt_open_stretch_gate st now = PGWT_OPEN_STRETCH_BUILT"
  by (auto simp: pgwt_build_open_stretch_def Let_def)

text \<open>The duration cannot wrap: the gate rejects a start at or after the boundary.\<close>

lemma build_fields:
  assumes "pgwt_build_open_stretch p st now ca attr = Inr ev"
  shows "timestamp_ns ev = now" "pid ev = p" "old_event ev = last_event st" "new_event ev = last_event st"
    "unat (duration_ns ev) = unat now - unat (last_ts st)" "query_id ev = osa_query_id attr"
    "duration_ns ev \<noteq> 0" "\<not> PGWT_IS_MARKER (old_event ev)"
    "cpu_ns ev = pgwt_open_stretch_cpu_ns (st_cpu_ns_total st) (on_cpu_ts st) (last_cpu_ns st) now ca"
proof -
  have g: "wp_live st \<noteq> 0" "last_ts st < now" "\<not> PGWT_IS_MARKER (last_event st)"
    using assms build_Inr_iff [of p st now ca attr] gate_built_iff by auto
  have ev: "ev = \<lparr>timestamp_ns = now, pid = p, old_event = last_event st, new_event = last_event st,
        flags = (if osa_cmd_open attr \<noteq> 0 then PGWT_EVENT_FLAG_CMD_OPEN else 0) OR
                (if osa_quality attr = PGWT_QUERY_QUALITY_PG13_SYNTH then PGWT_EVENT_FLAG_QUERY_SYNTH else 0),
        duration_ns = now - last_ts st, query_id = osa_query_id attr,
        cpu_ns = pgwt_open_stretch_cpu_ns (st_cpu_ns_total st) (on_cpu_ts st) (last_cpu_ns st) now ca\<rparr>"
    using assms by (auto simp: pgwt_build_open_stretch_def Let_def split: if_splits)
  show "timestamp_ns ev = now" "pid ev = p" "old_event ev = last_event st" "new_event ev = last_event st"
    "query_id ev = osa_query_id attr" "\<not> PGWT_IS_MARKER (old_event ev)"
    "cpu_ns ev = pgwt_open_stretch_cpu_ns (st_cpu_ns_total st) (on_cpu_ts st) (last_cpu_ns st) now ca"
    "unat (duration_ns ev) = unat now - unat (last_ts st)" "duration_ns ev \<noteq> 0"
    using g by (auto simp: ev unat_sub right_minus_eq)
qed

section \<open>The measured CPU of the open stretch\<close>

text \<open>
  A measured pid is consistent at an instant when its accumulator has not wrapped, an on-CPU run began
  no later than now, and its boundary base is not ahead of the exact figure.
\<close>

definition exact_cpu :: "pgwt_pid_state \<Rightarrow> u64 \<Rightarrow> nat" where
  "exact_cpu st now = unat (st_cpu_ns_total st) + (if on_cpu_ts st \<noteq> 0 then unat now - unat (on_cpu_ts st) else 0)"

lemma open_stretch_cpu_exact:
  assumes "on_cpu_ts st \<le> now" and "exact_cpu st now < 2 ^ 64"
  shows "unat (pgwt_open_stretch_cpu_ns (st_cpu_ns_total st) (on_cpu_ts st) (last_cpu_ns st) now True) =
           exact_cpu st now - unat (last_cpu_ns st)"
proof -
  let ?e = "if on_cpu_ts st \<noteq> 0 \<and> now \<ge> on_cpu_ts st then st_cpu_ns_total st + (now - on_cpu_ts st) else st_cpu_ns_total st"
  have "unat ?e = exact_cpu st now"
  proof (cases "on_cpu_ts st = 0")
    case False
    then have "unat (now - on_cpu_ts st) = unat now - unat (on_cpu_ts st)" using assms(1) by (simp add: unat_sub)
    with False assms show ?thesis by (simp add: exact_cpu_def unat_add_u64)
  qed (simp add: exact_cpu_def)
  then show ?thesis
    by (auto simp: pgwt_open_stretch_cpu_ns_def Let_def word_le_nat_alt unat_sub)
qed

end
