(* ===== verification/Escalation.thy ===== *)
theory Escalation
  imports Exact_Window Open_Interval
begin

text \<open>
  The escalation engine: src/src/escalation.c over the daemon's state, composed from the budget
  ledger, the exact window, the open-interval builder and the event stream. Each operation takes the
  kernel's answers as the record \<open>kernel\<close>, whose clock fields are the readings the operation makes in
  order. The deadline timer is \<open>d_timer\<close>. The two accessors that report seconds as doubles and the
  log lines are left out. The lemmas show that every window is billed, bounded and torn down: the
  engine's invariant holds in every reachable state, a failed escalation leaves no residue, a
  deadline never lies past the budget, and the window markers of the trace alternate.
\<close>

section \<open>Markers\<close>

definition set_exact_cpu_active :: "pgwt_daemon \<Rightarrow> bool \<Rightarrow> pgwt_daemon" where
  "set_exact_cpu_active d active = d\<lparr>d_exact_cpu_active := active\<rparr>"

definition push_marker :: "pgwt_daemon \<Rightarrow> pgwt_trace_event \<Rightarrow> pgwt_daemon" where
  "push_marker d ev =
     (if d_event_writer d = None then d else summary_push (writer_push d ev) ev 0 (old_event ev))"

definition write_marker_at :: "pgwt_daemon \<Rightarrow> u32 \<Rightarrow> u64 \<Rightarrow> u64 \<Rightarrow> pgwt_escalation_reason \<Rightarrow> pgwt_daemon" where
  "write_marker_at d marker_type ts window_ns reason =
     push_marker d \<lparr>timestamp_ns = ts, pid = 0, old_event = marker_type, new_event = marker_type,
       flags = 0, duration_ns = 0, query_id = PGWT_ESC_PACK (window_ns div 1000000000) (esc_reason_code reason),
       cpu_ns = 0\<rparr>"

definition write_pid_marker_at :: "pgwt_daemon \<Rightarrow> int \<Rightarrow> u32 \<Rightarrow> u64 \<Rightarrow> u64 \<Rightarrow> u16 \<Rightarrow> pgwt_daemon" where
  "write_pid_marker_at d p marker_type ts qid quality =
     push_marker d \<lparr>timestamp_ns = ts, pid = pid_key p, old_event = marker_type, new_event = marker_type,
       flags = (if quality = PGWT_QUERY_QUALITY_PG13_SYNTH then PGWT_EVENT_FLAG_QUERY_SYNTH else 0),
       duration_ns = 0, query_id = qid, cpu_ns = 0\<rparr>"

section \<open>Watchpoints over the registry\<close>

fun attach_loop_all :: "kernel \<Rightarrow> nat list \<Rightarrow> pgwt_daemon \<Rightarrow> pgwt_daemon" where
  "attach_loop_all k [] d = d"
| "attach_loop_all k (i # is) d =
     (let be = d_backends d ! i in
      if \<not> be_is_alive be \<or> be_pid be \<le> 0 \<or> be_wp_addr be = 0 then attach_loop_all k is d
      else if be_wp_fd be \<ge> 0 then attach_loop_all k is d
      else attach_loop_all k is
             (snd (pgwt_attach_backend_watchpoint k (set_be i (be\<lparr>be_attach_ts := k_t2 k\<rparr>) d) i)))"

definition attach_all :: "kernel \<Rightarrow> pgwt_daemon \<Rightarrow> pgwt_daemon" where
  "attach_all k d = attach_loop_all k [0..<length (d_backends d)] d"

definition disarm_be :: "pgwt_backend \<Rightarrow> pgwt_backend" where
  "disarm_be be =
     (let be = (if be_wp_fd be \<ge> 0 then be\<lparr>be_wp_enabled := False\<rparr> else be)
      in if be_bootstrap_fd be \<ge> 0 then be\<lparr>be_bootstrap_enabled := False\<rparr> else be)"

definition disarm_all :: "pgwt_daemon \<Rightarrow> pgwt_daemon" where
  "disarm_all d = d\<lparr>d_backends := map disarm_be (d_backends d)\<rparr>"

definition detach_be :: "pgwt_backend \<Rightarrow> pgwt_backend" where
  "detach_be be =
     (let be = (if be_wp_fd be \<ge> 0 then be\<lparr>be_wp_fd := - 1, be_wp_enabled := False\<rparr> else be)
      in if be_bootstrap_fd be \<ge> 0 then be\<lparr>be_bootstrap_fd := - 1, be_bootstrap_enabled := False\<rparr> else be)"

definition reset_seed :: "kernel \<Rightarrow> pgwt_backend \<Rightarrow> (u32 \<Rightarrow> pgwt_pid_state option) \<Rightarrow> u32 \<Rightarrow> pgwt_pid_state option" where
  "reset_seed k be m =
     (if be_is_alive be \<and> be_pid be > 0 then
        let key = pid_key (be_pid be);
            (qid, op) = (case m key of Some st \<Rightarrow> (last_query_id st, st_cmd_open st) | None \<Rightarrow> (0, 0))
        in if k_state_update k key then
             m(key \<mapsto> \<lparr>last_event = 0, wp_live = 0, st_cmd_open = op, last_ts = k_t2 k, last_query_id = qid,
                be_entry_ptr = 0, wait_event_addr = be_wp_addr be, st_cpu_ns_total = 0, on_cpu_ts = 0,
                last_cpu_ns = 0\<rparr>)
           else m
      else m)"

definition detach_all :: "kernel \<Rightarrow> pgwt_daemon \<Rightarrow> pgwt_daemon" where
  "detach_all k d = d\<lparr>d_state_map := fold (reset_seed k) (d_backends d) (d_state_map d),
                     d_backends := map detach_be (d_backends d)\<rparr>"

section \<open>Closing what is open\<close>

definition flush_backend :: "u64 \<Rightarrow> pgwt_backend \<Rightarrow> pgwt_daemon \<Rightarrow> pgwt_daemon" where
  "flush_backend now be d =
     (if \<not> be_is_alive be \<or> be_pid be \<le> 0 \<or> be_wp_fd be < 0 then d
      else case d_state_map d (pid_key (be_pid be)) of
        None \<Rightarrow> d
      | Some st \<Rightarrow>
          if pgwt_open_stretch_gate st now \<noteq> PGWT_OPEN_STRETCH_BUILT then d
          else
            let r = snd (pgwt_exact_resolve_attr d (be_pid be));
                attr = \<lparr>osa_query_id = ra_query_id r, osa_cmd_open = ra_cmd_open r, osa_quality = ra_quality r\<rparr>
            in case pgwt_build_open_stretch (pid_key (be_pid be)) st now (d_cpu_accounting d) attr of
                 Inl _ \<Rightarrow> d
               | Inr ev \<Rightarrow>
                   let we = old_event ev;
                       d = writer_push d ev;
                       cf = fst (pgwt_live_pid_cat_flag d (d_event_accum d) None (pid_key (be_pid be)));
                       d = summary_push d ev cf
                             (pgwt_live_effective_event we cf (d_cmd_gate_active d) (ra_cmd_open r \<noteq> 0))
                   in d\<lparr>d_counters := pgwt_counters_add_cpu (d_counters d) we (duration_ns ev) (cpu_ns ev)\<rparr>)"

definition flush_open_intervals :: "pgwt_daemon \<Rightarrow> u64 \<Rightarrow> pgwt_daemon" where
  "flush_open_intervals d now =
     (if d_event_writer d = None then d else fold (flush_backend now) (d_backends d) d)"

definition pgwt_flush_open_intervals :: "kernel \<Rightarrow> pgwt_daemon \<Rightarrow> pgwt_daemon" where
  "pgwt_flush_open_intervals k d = flush_open_intervals d (k_t0 k)"

definition command_start :: "u64 \<Rightarrow> pgwt_backend \<Rightarrow> pgwt_daemon \<Rightarrow> pgwt_daemon" where
  "command_start boundary be d =
     (if \<not> be_is_alive be \<or> be_pid be \<le> 0 then d
      else case pgwt_exact_resolve_attr d (be_pid be) of
        (ok, r) \<Rightarrow>
          if ok \<and> ra_cmd_open r \<noteq> 0
          then write_pid_marker_at d (be_pid be) PGWT_MARKER_CMD_START boundary (ra_query_id r) (ra_quality r)
          else d)"

definition synthesize_command_starts :: "pgwt_daemon \<Rightarrow> u64 \<Rightarrow> pgwt_daemon" where
  "synthesize_command_starts d boundary = fold (command_start boundary) (d_backends d) d"

definition PGWT_EXACT_PHASE_PLAN :: u16 where [simp]: "PGWT_EXACT_PHASE_PLAN = 1"
definition PGWT_EXACT_PHASE_EXEC :: u16 where [simp]: "PGWT_EXACT_PHASE_EXEC = 2"

definition terminal_markers :: "u64 \<Rightarrow> pgwt_backend \<Rightarrow> pgwt_daemon \<Rightarrow> pgwt_daemon" where
  "terminal_markers boundary be d =
     (if \<not> be_is_alive be \<or> be_pid be \<le> 0 then d
      else case pgwt_exact_resolve_attr d (be_pid be) of
        (False, r) \<Rightarrow> d
      | (True, r) \<Rightarrow>
          let p = be_pid be;
              ab = esc_attach_boundary_ns (d_escalation d);
              mark = (\<lambda>m d. write_pid_marker_at d p m boundary (ra_query_id r) (ra_quality r));
              d = (if ra_cmd_open r \<noteq> 0 then mark PGWT_MARKER_CMD_END d else d);
              d = (if ra_phase_flags r AND PGWT_EXACT_PHASE_PLAN \<noteq> 0 \<and> ra_plan_start r \<ge> ab
                   then mark PGWT_MARKER_PLAN_END d else d)
          in if ra_phase_flags r AND PGWT_EXACT_PHASE_EXEC \<noteq> 0 \<and> ra_exec_start r \<ge> ab
             then mark PGWT_MARKER_EXEC_END d else d)"

definition synthesize_terminal_markers :: "pgwt_daemon \<Rightarrow> u64 \<Rightarrow> pgwt_daemon" where
  "synthesize_terminal_markers d boundary = fold (terminal_markers boundary) (d_backends d) d"

section \<open>The public operations\<close>

abbreviation upd_esc :: "(pgwt_escalation \<Rightarrow> pgwt_escalation) \<Rightarrow> pgwt_daemon \<Rightarrow> pgwt_daemon" where
  "upd_esc f d \<equiv> d\<lparr>d_escalation := f (d_escalation d)\<rparr>"

text \<open>\<open>timer\<close> is what creating the deadline timer and adding it to epoll yields: a descriptor or failure.\<close>

definition zero_escalation :: pgwt_escalation where
  "zero_escalation = \<lparr>esc_enabled = False, esc_active = False, esc_admitting = False, esc_generation = 0,
     esc_next_generation = 0, esc_attach_boundary_ns = 0, esc_timer_fd = - 1, window_deadline_ns = 0,
     window_start_ns = 0, window_reason = ESC_REASON_MANUAL, budget_ns = 0, budget_unlimited = False,
     rolling_window_ns = 3600000000000, ledger = [], windows_total = 0, denied_total = 0,
     budget_closed_total = 0\<rparr>"

definition pgwt_escalation_init :: "int option \<Rightarrow> pgwt_daemon \<Rightarrow> int \<Rightarrow> bool \<times> pgwt_daemon" where
  "pgwt_escalation_init timer d budget_s =
     (let e = (if budget_s < 0 then zero_escalation\<lparr>budget_unlimited := True, budget_ns := 0\<rparr>
               else zero_escalation\<lparr>budget_ns := word_of_int budget_s * 1000000000\<rparr>);
          e = e\<lparr>esc_enabled := d_tiered d\<rparr>
      in if \<not> d_tiered d then (True, d\<lparr>d_escalation := e\<rparr>)
         else case timer of
                Some fd \<Rightarrow> (True, d\<lparr>d_escalation := e\<lparr>esc_timer_fd := fd\<rparr>\<rparr>)
              | None \<Rightarrow> (False, d\<lparr>d_escalation := e\<rparr>))"

definition pgwt_escalation_is_timer_fd :: "pgwt_daemon \<Rightarrow> int \<Rightarrow> bool" where
  "pgwt_escalation_is_timer_fd d fd \<longleftrightarrow>
     esc_enabled (d_escalation d) \<and> esc_timer_fd (d_escalation d) \<ge> 0 \<and> fd = esc_timer_fd (d_escalation d)"

text \<open>An all-zero expiry disarms the timer.\<close>

definition arm_deadline :: "pgwt_daemon \<Rightarrow> u64 \<Rightarrow> pgwt_daemon" where
  "arm_deadline d deadline =
     d\<lparr>d_escalation := (d_escalation d)\<lparr>window_deadline_ns := deadline\<rparr>,
       d_timer := (if deadline = 0 then None else Some deadline)\<rparr>"

datatype pgwt_escalate_failure =
    PGWT_ESC_FAIL_INVALID | PGWT_ESC_FAIL_BUDGET | PGWT_ESC_FAIL_EXACT_ATTACH | PGWT_ESC_FAIL_EXACT_PRESEED

definition bump_denied :: "pgwt_daemon \<Rightarrow> pgwt_daemon" where
  "bump_denied = upd_esc (\<lambda>e. e\<lparr>denied_total := denied_total e + 1\<rparr>)"

definition ceil_s :: "u64 \<Rightarrow> int" where
  "ceil_s ns = sint (ucast ((ns + 999999999) div 1000000000) :: u32)"

definition next_gen :: "pgwt_escalation \<Rightarrow> u64" where
  "next_gen e = (if esc_next_generation e + 1 = 0 then 1 else esc_next_generation e + 1)"

definition begin_generation :: "kernel \<Rightarrow> pgwt_daemon \<Rightarrow> pgwt_daemon" where
  "begin_generation k =
     upd_esc (\<lambda>e. e\<lparr>esc_next_generation := next_gen e, esc_generation := next_gen e,
                    esc_attach_boundary_ns := k_t1 k\<rparr>)"

definition end_generation :: "pgwt_daemon \<Rightarrow> pgwt_daemon" where
  "end_generation = upd_esc (\<lambda>e. e\<lparr>esc_generation := 0, esc_attach_boundary_ns := 0\<rparr>)"

definition open_window :: "kernel \<Rightarrow> pgwt_daemon \<Rightarrow> u64 \<Rightarrow> pgwt_escalation_reason \<Rightarrow> pgwt_daemon" where
  "open_window k d grant_ns reason =
     (let boundary = k_t1 k;
          d = synthesize_command_starts d boundary;
          d = attach_all k d;
          d = upd_esc (\<lambda>e. e\<lparr>esc_active := True, esc_admitting := True, window_start_ns := boundary,
                             window_reason := reason, windows_total := windows_total e + 1\<rparr>) d;
          d = upd_esc (\<lambda>e. pgwt_esc_ledger_open e boundary) d;
          d = arm_deadline d (boundary + grant_ns)
      in write_marker_at d PGWT_MARKER_ESCALATE_START boundary grant_ns reason)"

definition escalate_fresh ::
  "kernel \<Rightarrow> pgwt_daemon \<Rightarrow> u64 \<Rightarrow> pgwt_escalation_reason \<Rightarrow> (pgwt_escalate_failure + int) \<times> pgwt_daemon" where
  "escalate_fresh k d grant_ns reason =
     (let d = begin_generation k d;
          generation = esc_generation (d_escalation d)
      in case pgwt_exact_probe_acquire k d generation (k_t1 k) of
           (False, d) \<Rightarrow> (Inl PGWT_ESC_FAIL_EXACT_ATTACH, bump_denied (end_generation d))
         | (True, d) \<Rightarrow>
             let d = set_exact_cpu_active d True
             in case pgwt_exact_seed_all k d generation of
                  (False, d) \<Rightarrow>
                    let d = set_exact_cpu_active d False;
                        d = pgwt_exact_probe_release k d;
                        d = pgwt_exact_seed_clear d generation
                    in (Inl PGWT_ESC_FAIL_EXACT_PRESEED, bump_denied (end_generation d))
                | (True, d) \<Rightarrow> (Inr (ceil_s grant_ns), open_window k d grant_ns reason))"

definition pgwt_escalate ::
  "kernel \<Rightarrow> pgwt_daemon \<Rightarrow> int \<Rightarrow> pgwt_escalation_reason \<Rightarrow> (pgwt_escalate_failure + int) \<times> pgwt_daemon" where
  "pgwt_escalate k d duration_s reason =
     (if \<not> esc_enabled (d_escalation d) then (Inl PGWT_ESC_FAIL_INVALID, d)
      else if duration_s \<le> 0 then (Inl PGWT_ESC_FAIL_INVALID, d)
      else
        let now = k_t0 k;
            want_ns = word_of_int duration_s * 1000000000
        in case pgwt_esc_budget_decide (d_escalation d) now want_ns of
             (Deny why, e) \<Rightarrow> (Inl PGWT_ESC_FAIL_BUDGET, bump_denied (d\<lparr>d_escalation := e\<rparr>))
           | (Grant grant_ns, e) \<Rightarrow>
               let d = d\<lparr>d_escalation := e\<rparr> in
               if esc_active e then
                 (let d = (if now + grant_ns > window_deadline_ns e then arm_deadline d (now + grant_ns) else d)
                  in (Inr (ceil_s (window_deadline_ns (d_escalation d) - now)), d))
               else escalate_fresh k d grant_ns reason)"

definition pgwt_deescalate :: "kernel \<Rightarrow> pgwt_daemon \<Rightarrow> pgwt_escalation_reason \<Rightarrow> pgwt_daemon" where
  "pgwt_deescalate k d reason =
     (if \<not> esc_active (d_escalation d) then d
      else
        let d = upd_esc (\<lambda>e. e\<lparr>esc_admitting := False\<rparr>) d;
            d = disarm_all d;
            d = snd (pgwt_exact_probe_quiesce k d);
            now = k_t1 k;
            d = fst (ring_consume d (k_ring k));
            d = flush_open_intervals d now;
            d = set_exact_cpu_active d False;
            d = synthesize_terminal_markers d now;
            d = detach_all k d;
            d = upd_esc (\<lambda>e. e\<lparr>esc_active := False\<rparr>) d;
            d = upd_esc (\<lambda>e. pgwt_esc_ledger_close e now) d;
            d = (if esc_timer_fd (d_escalation d) \<ge> 0 then d\<lparr>d_timer := None\<rparr> else d);
            elapsed = now - window_start_ns (d_escalation d);
            generation = esc_generation (d_escalation d);
            d = pgwt_exact_probe_release k d;
            d = pgwt_exact_seed_clear d generation;
            d = end_generation d
        in write_marker_at d PGWT_MARKER_ESCALATE_END now elapsed reason)"

definition pgwt_escalation_cleanup :: "kernel \<Rightarrow> pgwt_daemon \<Rightarrow> pgwt_daemon" where
  "pgwt_escalation_cleanup k d =
     (let d = (if esc_active (d_escalation d) then pgwt_deescalate k d ESC_REASON_SHUTDOWN else d)
      in if esc_timer_fd (d_escalation d) \<ge> 0
         then upd_esc (\<lambda>e. e\<lparr>esc_timer_fd := - 1\<rparr>) (d\<lparr>d_timer := None\<rparr>) else d)"

definition pgwt_escalation_on_timer :: "kernel \<Rightarrow> pgwt_daemon \<Rightarrow> pgwt_daemon" where
  "pgwt_escalation_on_timer k d =
     (if esc_active (d_escalation d) \<and> k_t0 k \<ge> window_deadline_ns (d_escalation d)
      then pgwt_deescalate k d ESC_REASON_EXPIRED else d)"

definition pgwt_escalation_check_budget :: "kernel \<Rightarrow> pgwt_daemon \<Rightarrow> pgwt_daemon" where
  "pgwt_escalation_check_budget k d =
     (if \<not> esc_active (d_escalation d) then d
      else case pgwt_esc_budget_over (d_escalation d) (k_t0 k) of
             (over, e) \<Rightarrow>
               let d = d\<lparr>d_escalation := e\<rparr>
               in if over then
                    pgwt_deescalate k (upd_esc (\<lambda>e. e\<lparr>budget_closed_total := budget_closed_total e + 1\<rparr>) d)
                      ESC_REASON_BUDGET
                  else d)"

section \<open>Pushing records\<close>

text \<open>
  \<open>logged d d' evs\<close>: from \<open>d\<close> to \<open>d'\<close> exactly \<open>evs\<close> were stored, and nothing but the writers and the
  counters changed.
\<close>

definition logged :: "pgwt_daemon \<Rightarrow> pgwt_daemon \<Rightarrow> pgwt_trace_event list \<Rightarrow> bool" where
  "logged d d' evs \<longleftrightarrow> stream_core d' = stream_core d \<and> d_event_accum d' = d_event_accum d \<and>
     (d_event_writer d' = None \<longleftrightarrow> d_event_writer d = None) \<and>
     (recording d \<longrightarrow> recording d' \<and> stored d' = stored d \<and> trace_log d' = trace_log d @ map (stored d) evs)"

lemma logged_refl [simp]: "logged d d []"
  by (simp add: logged_def)

lemma logged_trans: "logged d d' es \<Longrightarrow> logged d' d'' es' \<Longrightarrow> logged d d'' (es @ es')"
  by (auto simp: logged_def)

lemma logged_push:
  assumes "d_event_writer d \<noteq> None"
  shows "logged d (summary_push (writer_push d ev) ev' c e) [ev]"
proof -
  have w: "d_event_writer (summary_push (writer_push d ev) ev' c e) = d_event_writer (writer_push d ev)"
    by (simp add: frame_simps)
  then show ?thesis
    using assms writer_push_recording [of d ev] writer_same [OF w]
    by (auto simp: logged_def frame_simps) (simp_all add: writer_push_def)
qed

lemma logged_counters: "logged d (d'\<lparr>d_counters := c\<rparr>) evs = logged d d' evs"
  by (simp add: logged_def writer_same [of "d'\<lparr>d_counters := c\<rparr>" d'])

lemma logged_fields:
  assumes "logged d d' evs"
  shows "d_escalation d' = d_escalation d" "d_backends d' = d_backends d" "d_timer d' = d_timer d"
    "d_exact_core d' = d_exact_core d" "d_exact_config d' = d_exact_config d"
    "d_exact_attr_map d' = d_exact_attr_map d" "d_exact_seed_map d' = d_exact_seed_map d"
    "d_state_map d' = d_state_map d" "d_exact_cpu_active d' = d_exact_cpu_active d"
    "d_cpu_accounting d' = d_cpu_accounting d" "d_drain_limit d' = d_drain_limit d"
    "d_event_writer d' = None \<longleftrightarrow> d_event_writer d = None"
proof -
  have c: "stream_core d' = stream_core d" using assms by (simp add: logged_def)
  show "d_escalation d' = d_escalation d" "d_backends d' = d_backends d" "d_timer d' = d_timer d"
    "d_exact_core d' = d_exact_core d" "d_exact_config d' = d_exact_config d"
    "d_exact_attr_map d' = d_exact_attr_map d" "d_exact_seed_map d' = d_exact_seed_map d"
    "d_state_map d' = d_state_map d" "d_exact_cpu_active d' = d_exact_cpu_active d"
    "d_cpu_accounting d' = d_cpu_accounting d" "d_drain_limit d' = d_drain_limit d"
    using stream_core_fields [OF c] by simp_all
  show "d_event_writer d' = None \<longleftrightarrow> d_event_writer d = None" using assms by (simp add: logged_def)
qed

lemma logged_core: "logged d d' evs \<Longrightarrow> stream_core d' = stream_core d"
  by (simp add: logged_def)

text \<open>A backend-by-backend fold whose per-backend records depend only on what the fold keeps.\<close>

lemma logged_fold:
  assumes "\<And>be d'. d_event_writer d' = None \<longleftrightarrow> d_event_writer d = None \<Longrightarrow> stream_core d' = stream_core d \<Longrightarrow>
             logged d' (f be d') (r be)"
  shows "logged d (fold f bes d) (concat (map r bes))"
proof -
  have "logged d d' es \<Longrightarrow> logged d (fold f bes d') (es @ concat (map r bes))" for d' es
  proof (induction bes arbitrary: d' es)
    case (Cons be bes)
    have "logged d' (f be d') (r be)" using Cons.prems by (intro assms) (simp_all add: logged_def)
    from Cons.IH [OF logged_trans [OF Cons.prems this]] show ?case by simp
  qed simp
  from this [OF logged_refl] show ?thesis by simp
qed

lemma resolve_attr_cong:
  assumes "d_exact_attr_map d' = d_exact_attr_map d" "d_exact_seed_map d' = d_exact_seed_map d"
    "cfg_generation (d_exact_config d') = cfg_generation (d_exact_config d)"
    "cfg_attach_boundary_ns (d_exact_config d') = cfg_attach_boundary_ns (d_exact_config d)"
  shows "pgwt_exact_resolve_attr d' = pgwt_exact_resolve_attr d"
proof -
  have "pgwt_exact_merge_attr (Some (d_exact_config d')) = pgwt_exact_merge_attr (Some (d_exact_config d))"
    using assms(3,4) by (intro ext) (simp add: pgwt_exact_merge_attr_def Let_def split: option.splits)
  then show ?thesis
    using assms by (intro ext) (simp add: pgwt_exact_resolve_attr_def Let_def split: prod.splits option.splits)
qed

section \<open>What each closing pass writes\<close>

definition open_records :: "pgwt_daemon \<Rightarrow> u64 \<Rightarrow> pgwt_backend \<Rightarrow> pgwt_trace_event list" where
  "open_records d now be =
     (if \<not> be_is_alive be \<or> be_pid be \<le> 0 \<or> be_wp_fd be < 0 then []
      else case d_state_map d (pid_key (be_pid be)) of
        None \<Rightarrow> []
      | Some st \<Rightarrow>
          let r = snd (pgwt_exact_resolve_attr d (be_pid be))
          in case pgwt_build_open_stretch (pid_key (be_pid be)) st now (d_cpu_accounting d)
                    \<lparr>osa_query_id = ra_query_id r, osa_cmd_open = ra_cmd_open r, osa_quality = ra_quality r\<rparr> of
               Inl _ \<Rightarrow> [] | Inr ev \<Rightarrow> [ev])"

definition pid_marker :: "int \<Rightarrow> u32 \<Rightarrow> u64 \<Rightarrow> resolved_attr \<Rightarrow> pgwt_trace_event" where
  "pid_marker p m ts r = \<lparr>timestamp_ns = ts, pid = pid_key p, old_event = m, new_event = m,
     flags = (if ra_quality r = PGWT_QUERY_QUALITY_PG13_SYNTH then PGWT_EVENT_FLAG_QUERY_SYNTH else 0),
     duration_ns = 0, query_id = ra_query_id r, cpu_ns = 0\<rparr>"

definition start_records :: "pgwt_daemon \<Rightarrow> u64 \<Rightarrow> pgwt_backend \<Rightarrow> pgwt_trace_event list" where
  "start_records d ts be =
     (if \<not> be_is_alive be \<or> be_pid be \<le> 0 then []
      else let (ok, r) = pgwt_exact_resolve_attr d (be_pid be)
           in if ok \<and> ra_cmd_open r \<noteq> 0 then [pid_marker (be_pid be) PGWT_MARKER_CMD_START ts r] else [])"

definition end_records :: "pgwt_daemon \<Rightarrow> u64 \<Rightarrow> pgwt_backend \<Rightarrow> pgwt_trace_event list" where
  "end_records d ts be =
     (if \<not> be_is_alive be \<or> be_pid be \<le> 0 then []
      else let (ok, r) = pgwt_exact_resolve_attr d (be_pid be); ab = esc_attach_boundary_ns (d_escalation d)
           in if \<not> ok then []
              else (if ra_cmd_open r \<noteq> 0 then [pid_marker (be_pid be) PGWT_MARKER_CMD_END ts r] else []) @
                   (if ra_phase_flags r AND PGWT_EXACT_PHASE_PLAN \<noteq> 0 \<and> ra_plan_start r \<ge> ab
                    then [pid_marker (be_pid be) PGWT_MARKER_PLAN_END ts r] else []) @
                   (if ra_phase_flags r AND PGWT_EXACT_PHASE_EXEC \<noteq> 0 \<and> ra_exec_start r \<ge> ab
                    then [pid_marker (be_pid be) PGWT_MARKER_EXEC_END ts r] else []))"

lemma logged_flush_backend:
  assumes "d_event_writer d \<noteq> None"
  shows "logged d (flush_backend now be d) (open_records d now be)"
proof (cases "\<not> be_is_alive be \<or> be_pid be \<le> 0 \<or> be_wp_fd be < 0 \<or> d_state_map d (pid_key (be_pid be)) = None")
  case True
  then show ?thesis by (auto simp: flush_backend_def open_records_def)
next
  case False
  then obtain st where st: "d_state_map d (pid_key (be_pid be)) = Some st" by auto
  let ?r = "snd (pgwt_exact_resolve_attr d (be_pid be))"
  let ?a = "\<lparr>osa_query_id = ra_query_id ?r, osa_cmd_open = ra_cmd_open ?r, osa_quality = ra_quality ?r\<rparr>"
  let ?b = "pgwt_build_open_stretch (pid_key (be_pid be)) st now (d_cpu_accounting d) ?a"
  show ?thesis
  proof (cases ?b)
    case (Inl rc)
    then show ?thesis
      using False st by (simp add: flush_backend_def open_records_def Let_def)
  next
    case (Inr ev)
    then have "pgwt_open_stretch_gate st now = PGWT_OPEN_STRETCH_BUILT" using build_Inr_iff by blast
    with False st Inr show ?thesis
      by (simp add: flush_backend_def open_records_def Let_def logged_counters logged_push [OF assms])
  qed
qed

lemma logged_write_pid_marker:
  assumes "d_event_writer d \<noteq> None"
  shows "logged d (write_pid_marker_at d p m ts (ra_query_id r) (ra_quality r)) [pid_marker p m ts r]"
  using logged_push [OF assms] assms by (auto simp: write_pid_marker_at_def push_marker_def pid_marker_def)

lemma logged_command_start:
  assumes "d_event_writer d \<noteq> None"
  shows "logged d (command_start ts be d) (start_records d ts be)"
  by (auto simp: command_start_def start_records_def case_prod_unfold Let_def
      intro: logged_write_pid_marker [OF assms])

lemma logged_if:
  assumes "d_event_writer d \<noteq> None"
  shows "logged d (if c then write_pid_marker_at d p m ts (ra_query_id r) (ra_quality r) else d)
           (if c then [pid_marker p m ts r] else [])"
  using logged_write_pid_marker [OF assms] by simp

lemma logged_terminal_markers:
  assumes "d_event_writer d \<noteq> None"
  shows "logged d (terminal_markers ts be d) (end_records d ts be)"
proof (cases "\<not> be_is_alive be \<or> be_pid be \<le> 0 \<or> \<not> fst (pgwt_exact_resolve_attr d (be_pid be))")
  case True
  then show ?thesis
    by (cases "pgwt_exact_resolve_attr d (be_pid be)") (auto simp: terminal_markers_def end_records_def)
next
  case False
  then obtain r where r: "pgwt_exact_resolve_attr d (be_pid be) = (True, r)"
    by (cases "pgwt_exact_resolve_attr d (be_pid be)") auto
  let ?p = "be_pid be" and ?ab = "esc_attach_boundary_ns (d_escalation d)"
  let ?w = "\<lambda>m d. write_pid_marker_at d ?p m ts (ra_query_id r) (ra_quality r)"
  let ?c1 = "ra_cmd_open r \<noteq> 0"
  let ?c2 = "ra_phase_flags r AND PGWT_EXACT_PHASE_PLAN \<noteq> 0 \<and> ra_plan_start r \<ge> ?ab"
  let ?c3 = "ra_phase_flags r AND PGWT_EXACT_PHASE_EXEC \<noteq> 0 \<and> ra_exec_start r \<ge> ?ab"
  define d1 where "d1 = (if ?c1 then ?w PGWT_MARKER_CMD_END d else d)"
  define d2 where "d2 = (if ?c2 then ?w PGWT_MARKER_PLAN_END d1 else d1)"
  define d3 where "d3 = (if ?c3 then ?w PGWT_MARKER_EXEC_END d2 else d2)"
  have l1: "logged d d1 (if ?c1 then [pid_marker ?p PGWT_MARKER_CMD_END ts r] else [])"
    unfolding d1_def by (rule logged_if [OF assms])
  have l2: "logged d1 d2 (if ?c2 then [pid_marker ?p PGWT_MARKER_PLAN_END ts r] else [])"
    unfolding d2_def by (rule logged_if) (use assms logged_fields(12) [OF l1] in simp)
  have l3: "logged d2 d3 (if ?c3 then [pid_marker ?p PGWT_MARKER_EXEC_END ts r] else [])"
    unfolding d3_def by (rule logged_if) (use assms logged_fields(12) [OF l1] logged_fields(12) [OF l2] in simp)
  have "terminal_markers ts be d = d3"
    using False r unfolding terminal_markers_def d3_def d2_def d1_def Let_def by simp
  moreover have "end_records d ts be =
      (if ?c1 then [pid_marker ?p PGWT_MARKER_CMD_END ts r] else []) @
      (if ?c2 then [pid_marker ?p PGWT_MARKER_PLAN_END ts r] else []) @
      (if ?c3 then [pid_marker ?p PGWT_MARKER_EXEC_END ts r] else [])"
    using False r unfolding end_records_def Let_def by simp
  ultimately show ?thesis using logged_trans [OF logged_trans [OF l1 l2] l3] by simp
qed

lemma records_cong:
  assumes "pgwt_exact_resolve_attr d' = pgwt_exact_resolve_attr d" "d_state_map d' = d_state_map d"
    "d_cpu_accounting d' = d_cpu_accounting d"
    "esc_attach_boundary_ns (d_escalation d') = esc_attach_boundary_ns (d_escalation d)"
  shows "open_records d' = open_records d" "start_records d' = start_records d" "end_records d' = end_records d"
  unfolding open_records_def start_records_def end_records_def assms by (rule refl)+

lemma stream_core_records:
  assumes "stream_core d' = stream_core d"
  shows "pgwt_exact_resolve_attr d' = pgwt_exact_resolve_attr d" "open_records d' = open_records d"
    "start_records d' = start_records d" "end_records d' = end_records d"
proof -
  note f = stream_core_fields [OF assms]
  show r: "pgwt_exact_resolve_attr d' = pgwt_exact_resolve_attr d"
    by (rule resolve_attr_cong) (simp_all add: f)
  show "open_records d' = open_records d" "start_records d' = start_records d" "end_records d' = end_records d"
    using records_cong [OF r] f by simp_all
qed

lemma not_recording_logged: "d_event_writer d = None \<Longrightarrow> logged d d evs"
  by (simp add: logged_def recording_def)

lemma logged_flush: "logged d (flush_open_intervals d now) (concat (map (open_records d now) (d_backends d)))"
proof (cases "d_event_writer d = None")
  case True
  then show ?thesis by (simp add: flush_open_intervals_def not_recording_logged)
next
  case False
  have "logged d (fold (flush_backend now) (d_backends d) d) (concat (map (open_records d now) (d_backends d)))"
  proof (rule logged_fold)
    fix be d'
    assume "(d_event_writer d' = None) = (d_event_writer d = None)" and "stream_core d' = stream_core d"
    then show "logged d' (flush_backend now be d') (open_records d now be)"
      using logged_flush_backend [of d' now be] stream_core_records(2) [of d' d] False by simp
  qed
  then show ?thesis using False by (auto simp: flush_open_intervals_def)
qed

lemma logged_None_fold:
  assumes "\<And>be d'. d_event_writer d' = None \<Longrightarrow> f be d' = d'" and "d_event_writer d = None"
  shows "fold f bes d = d"
  using assms(2) by (induction bes) (simp_all add: assms(1))

lemma logged_starts:
  "logged d (synthesize_command_starts d ts) (concat (map (start_records d ts) (d_backends d)))"
proof (cases "d_event_writer d = None")
  case True
  then have "synthesize_command_starts d ts = d"
    unfolding synthesize_command_starts_def
    by (intro logged_None_fold) (auto simp: command_start_def write_pid_marker_at_def push_marker_def split: prod.splits)
  then show ?thesis using True by (simp add: not_recording_logged)
next
  case False
  have "logged d (fold (command_start ts) (d_backends d) d) (concat (map (start_records d ts) (d_backends d)))"
  proof (rule logged_fold)
    fix be d'
    assume "(d_event_writer d' = None) = (d_event_writer d = None)" and "stream_core d' = stream_core d"
    then show "logged d' (command_start ts be d') (start_records d ts be)"
      using logged_command_start [of d' ts be] stream_core_records(3) [of d' d] False by simp
  qed
  then show ?thesis using False by (simp add: synthesize_command_starts_def)
qed

lemma logged_terminals:
  "logged d (synthesize_terminal_markers d ts) (concat (map (end_records d ts) (d_backends d)))"
proof (cases "d_event_writer d = None")
  case True
  then have "synthesize_terminal_markers d ts = d"
    unfolding synthesize_terminal_markers_def
    by (intro logged_None_fold)
      (auto simp: terminal_markers_def write_pid_marker_at_def push_marker_def Let_def split: prod.splits bool.splits)
  then show ?thesis using True by (simp add: not_recording_logged)
next
  case False
  have "logged d (fold (terminal_markers ts) (d_backends d) d) (concat (map (end_records d ts) (d_backends d)))"
  proof (rule logged_fold)
    fix be d'
    assume "(d_event_writer d' = None) = (d_event_writer d = None)" and "stream_core d' = stream_core d"
    then show "logged d' (terminal_markers ts be d') (end_records d ts be)"
      using logged_terminal_markers [of d' ts be] stream_core_records(4) [of d' d] False by simp
  qed
  then show ?thesis using False by (simp add: synthesize_terminal_markers_def)
qed

section \<open>De-escalation\<close>

text \<open>What the trace gains, whatever else changes.\<close>

definition traced :: "pgwt_daemon \<Rightarrow> pgwt_daemon \<Rightarrow> pgwt_trace_event list \<Rightarrow> bool" where
  "traced d d' evs \<longleftrightarrow>
     (recording d \<longrightarrow> recording d' \<and> stored d' = stored d \<and> trace_log d' = trace_log d @ map (stored d) evs)"

lemma traced_trans: "traced d d' es \<Longrightarrow> traced d' d'' es' \<Longrightarrow> traced d d'' (es @ es')"
  by (auto simp: traced_def)

lemma logged_traced: "logged d d' es \<Longrightarrow> traced d d' es"
  by (simp add: logged_def traced_def)

lemma traced_same: "d_event_writer d' = d_event_writer d \<Longrightarrow> traced d d' []"
  using writer_same [of d' d] by (simp add: traced_def)

lemma traced_consume: "d_drain_limit d = 0 \<Longrightarrow> traced d (fst (ring_consume d evs)) evs"
  using ring_consume_log [of d evs] by (simp add: traced_def)

definition window_marker :: "u32 \<Rightarrow> u64 \<Rightarrow> u64 \<Rightarrow> pgwt_escalation_reason \<Rightarrow> pgwt_trace_event" where
  "window_marker m ts window reason =
     \<lparr>timestamp_ns = ts, pid = 0, old_event = m, new_event = m, flags = 0, duration_ns = 0,
      query_id = PGWT_ESC_PACK (window div 1000000000) (esc_reason_code reason), cpu_ns = 0\<rparr>"

lemma logged_write_marker: "logged d (write_marker_at d m ts w r) [window_marker m ts w r]"
proof (cases "d_event_writer d = None")
  case True
  then show ?thesis by (simp add: write_marker_at_def push_marker_def not_recording_logged)
next
  case False
  then show ?thesis
    using logged_push [OF False] by (auto simp: write_marker_at_def push_marker_def window_marker_def)
qed

definition no_fds :: "pgwt_daemon \<Rightarrow> bool" where
  "no_fds d \<longleftrightarrow> (\<forall>be \<in> set (d_backends d). be_wp_fd be < 0 \<and> be_bootstrap_fd be < 0)"

lemma no_fds_detach: "no_fds (detach_all k d)"
  by (auto simp: no_fds_def detach_all_def detach_be_def Let_def)

lemma disarm_be_fields:
  "be_is_alive (disarm_be be) = be_is_alive be" "be_pid (disarm_be be) = be_pid be"
  "be_wp_fd (disarm_be be) = be_wp_fd be"
  by (simp_all add: disarm_be_def Let_def)

lemma disarm_records:
  "open_records d now (disarm_be be) = open_records d now be"
  "end_records d now (disarm_be be) = end_records d now be"
  unfolding open_records_def end_records_def disarm_be_fields by (rule refl)+

lemma release_frame [frame_simps]:
  "d_escalation (pgwt_exact_probe_release k d) = d_escalation d"
  "d_exact_core (pgwt_exact_probe_release k d) = pgwt_exact_probe_core_release (d_exact_core d)"
  "d_exact_cpu_active (pgwt_exact_probe_release k d) = d_exact_cpu_active d"
  "d_timer (pgwt_exact_probe_release k d) = d_timer d"
  "d_backends (pgwt_exact_probe_release k d) = d_backends d"
  "d_event_writer (pgwt_exact_probe_release k d) = d_event_writer d"
  "d_exact_seed_map (pgwt_exact_probe_release k d) = d_exact_seed_map d"
  "d_drain_limit (pgwt_exact_probe_release k d) = d_drain_limit d"
  by (simp_all add: pgwt_exact_probe_release_def set_config_def Let_def)

lemma seed_clear_frame [frame_simps]:
  "d_escalation (pgwt_exact_seed_clear d g) = d_escalation d"
  "d_exact_core (pgwt_exact_seed_clear d g) = d_exact_core d"
  "d_exact_cpu_active (pgwt_exact_seed_clear d g) = d_exact_cpu_active d"
  "d_timer (pgwt_exact_seed_clear d g) = d_timer d"
  "d_backends (pgwt_exact_seed_clear d g) = d_backends d"
  "d_event_writer (pgwt_exact_seed_clear d g) = d_event_writer d"
  "d_drain_limit (pgwt_exact_seed_clear d g) = d_drain_limit d"
  by (simp_all add: pgwt_exact_seed_clear_def)

definition close_window :: "pgwt_escalation \<Rightarrow> u64 \<Rightarrow> pgwt_escalation" where
  "close_window e now = (pgwt_esc_ledger_close (e\<lparr>esc_admitting := False, esc_active := False\<rparr>) now)
     \<lparr>esc_generation := 0, esc_attach_boundary_ns := 0\<rparr>"

lemma ledger_close_frame [frame_simps]:
  "esc_timer_fd (pgwt_esc_ledger_close e now) = esc_timer_fd e"
  "window_start_ns (pgwt_esc_ledger_close e now) = window_start_ns e"
  "esc_generation (pgwt_esc_ledger_close e now) = esc_generation e"
  by (simp_all add: pgwt_esc_ledger_close_def)

text \<open>The daemon right before the window is torn down: disarmed, quiesced, drained, flushed, closed.\<close>

definition settle :: "kernel \<Rightarrow> pgwt_daemon \<Rightarrow> pgwt_daemon" where
  "settle k d =
     synthesize_terminal_markers
       (set_exact_cpu_active
         (flush_open_intervals
           (fst (ring_consume (snd (pgwt_exact_probe_quiesce k
              (disarm_all (upd_esc (\<lambda>e. e\<lparr>esc_admitting := False\<rparr>) d)))) (k_ring k))) (k_t1 k)) False) (k_t1 k)"

lemma settle_facts:
  shows "d_escalation (settle k d) = (d_escalation d)\<lparr>esc_admitting := False\<rparr>"
    and "d_exact_core (settle k d) = d_exact_core d" and "\<not> d_exact_cpu_active (settle k d)"
    and "d_timer (settle k d) = d_timer d" and "d_drain_limit (settle k d) = d_drain_limit d"
    and "d_drain_limit d = 0 \<Longrightarrow>
      traced d (settle k d) (k_ring k @ concat (map (open_records d (k_t1 k)) (d_backends d)) @
         concat (map (end_records d (k_t1 k)) (d_backends d)))"
proof -
  define d1 where "d1 = snd (pgwt_exact_probe_quiesce k (disarm_all (upd_esc (\<lambda>e. e\<lparr>esc_admitting := False\<rparr>) d)))"
  define d2 where "d2 = fst (ring_consume d1 (k_ring k))"
  define d3 where "d3 = flush_open_intervals d2 (k_t1 k)"
  define d4 where "d4 = set_exact_cpu_active d3 False"
  have st: "settle k d = synthesize_terminal_markers d4 (k_t1 k)"
    by (simp add: settle_def d1_def d2_def d3_def d4_def)
  have f1: "d_escalation d1 = (d_escalation d)\<lparr>esc_admitting := False\<rparr>" "d_exact_core d1 = d_exact_core d"
    "d_timer d1 = d_timer d" "d_backends d1 = map disarm_be (d_backends d)" "d_event_writer d1 = d_event_writer d"
    "d_drain_limit d1 = d_drain_limit d" "d_exact_attr_map d1 = d_exact_attr_map d"
    "d_exact_seed_map d1 = d_exact_seed_map d" "d_state_map d1 = d_state_map d"
    "d_cpu_accounting d1 = d_cpu_accounting d"
    "cfg_generation (d_exact_config d1) = cfg_generation (d_exact_config d)"
    "cfg_attach_boundary_ns (d_exact_config d1) = cfg_attach_boundary_ns (d_exact_config d)"
    by (simp_all add: d1_def pgwt_exact_probe_quiesce_def disarm_all_def)
  have r1: "pgwt_exact_resolve_attr d1 = pgwt_exact_resolve_attr d"
    by (rule resolve_attr_cong) (simp_all add: f1)
  have rec1: "open_records d1 = open_records d" "end_records d1 = end_records d"
    using records_cong [OF r1] f1 by simp_all
  note f2 = stream_core_fields [OF ring_consume_core [of d1 "k_ring k"], folded d2_def]
  note rec2 = stream_core_records [OF ring_consume_core [of d1 "k_ring k"], folded d2_def]
  have l3: "logged d2 d3 (concat (map (open_records d2 (k_t1 k)) (d_backends d2)))"
    unfolding d3_def by (rule logged_flush)
  note f3 = logged_fields [OF l3]
  have rec3: "end_records d3 = end_records d2"
    by (rule stream_core_records(4)) (rule logged_core [OF l3])
  have rec4: "end_records d4 = end_records d3"
  proof -
    have "pgwt_exact_resolve_attr d4 = pgwt_exact_resolve_attr d3"
      by (rule resolve_attr_cong) (simp_all add: d4_def set_exact_cpu_active_def)
    then show ?thesis using records_cong(3) [of d4 d3] by (simp add: d4_def set_exact_cpu_active_def)
  qed
  have l5: "logged d4 (settle k d) (concat (map (end_records d4 (k_t1 k)) (d_backends d4)))"
    unfolding st by (rule logged_terminals)
  note f5 = logged_fields [OF l5]
  have f4: "d_escalation d4 = d_escalation d3" "d_exact_core d4 = d_exact_core d3" "d_timer d4 = d_timer d3"
    "d_backends d4 = d_backends d3" "\<not> d_exact_cpu_active d4" "d_event_writer d4 = d_event_writer d3"
    "d_drain_limit d4 = d_drain_limit d3"
    by (simp_all add: d4_def set_exact_cpu_active_def)
  show "d_escalation (settle k d) = (d_escalation d)\<lparr>esc_admitting := False\<rparr>"
    "d_exact_core (settle k d) = d_exact_core d" "\<not> d_exact_cpu_active (settle k d)"
    "d_timer (settle k d) = d_timer d" "d_drain_limit (settle k d) = d_drain_limit d"
    using f5(1,3,4,9,11) f4 f3(1,3,4,11) f2(1,3,4,13) f1 by simp_all
  assume lim: "d_drain_limit d = 0"
  have t2: "traced d1 d2 (k_ring k)" unfolding d2_def by (rule traced_consume) (simp add: f1 lim)
  have b: "concat (map (open_records d2 (k_t1 k)) (d_backends d2)) =
      concat (map (open_records d (k_t1 k)) (d_backends d))"
    "concat (map (end_records d4 (k_t1 k)) (d_backends d4)) =
      concat (map (end_records d (k_t1 k)) (d_backends d))"
    by (simp_all add: rec4 rec3 rec2 rec1 f4 f3(2) f2(2) f1 comp_def disarm_records)
  have "traced d (settle k d) ([] @ k_ring k @ concat (map (open_records d2 (k_t1 k)) (d_backends d2)) @
      [] @ concat (map (end_records d4 (k_t1 k)) (d_backends d4)))"
    by (intro traced_trans [OF traced_same [OF f1(5)]] traced_trans [OF t2]
        traced_trans [OF logged_traced [OF l3]] traced_trans [OF traced_same [OF f4(6)]]
        logged_traced [OF l5])
  then show "traced d (settle k d) (k_ring k @ concat (map (open_records d (k_t1 k)) (d_backends d)) @
         concat (map (end_records d (k_t1 k)) (d_backends d)))" by (simp add: b)
qed

lemma deescalate_settle:
  assumes "esc_active (d_escalation d)"
  shows "pgwt_deescalate k d reason =
     (let s = upd_esc (\<lambda>e. pgwt_esc_ledger_close (e\<lparr>esc_active := False\<rparr>) (k_t1 k)) (detach_all k (settle k d));
          s' = (if esc_timer_fd (d_escalation s) \<ge> 0 then s\<lparr>d_timer := None\<rparr> else s);
          s'' = end_generation (pgwt_exact_seed_clear (pgwt_exact_probe_release k s') (esc_generation (d_escalation s')))
      in write_marker_at s'' PGWT_MARKER_ESCALATE_END (k_t1 k)
           (k_t1 k - window_start_ns (d_escalation s')) reason)"
  using assms by (simp add: pgwt_deescalate_def settle_def Let_def)

lemma deescalate_spec:
  fixes k :: kernel and reason :: pgwt_escalation_reason
  assumes "esc_active (d_escalation d)"
  defines "d' \<equiv> pgwt_deescalate k d reason" and "e \<equiv> d_escalation d"
  shows "d_escalation d' = close_window e (k_t1 k)"
    and "d_exact_core d' = pgwt_exact_probe_core_release (d_exact_core d)" and "\<not> d_exact_cpu_active d'"
    and "d_timer d' = (if esc_timer_fd e \<ge> 0 then None else d_timer d)" and "no_fds d'"
    and "d_drain_limit d = 0 \<Longrightarrow> traced d d'
          (k_ring k @ concat (map (open_records d (k_t1 k)) (d_backends d)) @
           concat (map (end_records d (k_t1 k)) (d_backends d)) @
           [window_marker PGWT_MARKER_ESCALATE_END (k_t1 k) (k_t1 k - window_start_ns e) reason])"
    and "d_exact_seed_map d' p = Some sd \<Longrightarrow> seed_generation sd \<noteq> esc_generation e"
    and "d_drain_limit d' = d_drain_limit d"
proof -
  note st = settle_facts [where k = k and d = d]
  define s where "s = upd_esc (\<lambda>e. pgwt_esc_ledger_close (e\<lparr>esc_active := False\<rparr>) (k_t1 k)) (detach_all k (settle k d))"
  define s1 where "s1 = (if esc_timer_fd (d_escalation s) \<ge> 0 then s\<lparr>d_timer := None\<rparr> else s)"
  define s2 where "s2 = end_generation (pgwt_exact_seed_clear (pgwt_exact_probe_release k s1) (esc_generation (d_escalation s1)))"
  have d': "d' = write_marker_at s2 PGWT_MARKER_ESCALATE_END (k_t1 k) (k_t1 k - window_start_ns (d_escalation s1)) reason"
    unfolding d'_def deescalate_settle [OF assms(1)] s_def s1_def s2_def Let_def ..
  have se: "d_escalation s = pgwt_esc_ledger_close (e\<lparr>esc_admitting := False, esc_active := False\<rparr>) (k_t1 k)"
    by (simp add: s_def detach_all_def st e_def)
  have s1f: "d_escalation s1 = d_escalation s" "d_exact_core s1 = d_exact_core d" "\<not> d_exact_cpu_active s1"
    "d_backends s1 = d_backends (detach_all k (settle k d))" "d_event_writer s1 = d_event_writer (settle k d)"
    "d_timer s1 = (if esc_timer_fd e \<ge> 0 then None else d_timer d)" "d_drain_limit s1 = d_drain_limit d"
    by (simp_all add: s1_def se frame_simps) (simp_all add: s_def detach_all_def st)
  have fd: "window_start_ns (d_escalation s1) = window_start_ns e" "esc_generation (d_escalation s1) = esc_generation e"
    by (simp_all add: s1f se frame_simps)
  have s2f: "d_escalation s2 = close_window e (k_t1 k)" "d_exact_core s2 = pgwt_exact_probe_core_release (d_exact_core d)"
    "\<not> d_exact_cpu_active s2" "d_timer s2 = d_timer s1" "d_backends s2 = d_backends s1"
    "d_event_writer s2 = d_event_writer (settle k d)" "d_drain_limit s2 = d_drain_limit d"
    by (simp_all add: s2_def end_generation_def frame_simps s1f se close_window_def)
  have lg: "logged s2 d' [window_marker PGWT_MARKER_ESCALATE_END (k_t1 k) (k_t1 k - window_start_ns e) reason]"
    unfolding d' fd by (rule logged_write_marker)
  note f = logged_fields [OF lg]
  show "d_escalation d' = close_window e (k_t1 k)"
    "d_exact_core d' = pgwt_exact_probe_core_release (d_exact_core d)" "\<not> d_exact_cpu_active d'"
    "d_timer d' = (if esc_timer_fd e \<ge> 0 then None else d_timer d)" "d_drain_limit d' = d_drain_limit d"
    using f s2f s1f(6) by simp_all
  show "no_fds d'" using f(2) s2f(5) s1f(4) no_fds_detach [of k "settle k d"] by (simp add: no_fds_def)
  show "seed_generation sd \<noteq> esc_generation e" if "d_exact_seed_map d' p = Some sd"
    using that f(7) fd(2)
    by (auto simp: s2_def end_generation_def pgwt_exact_seed_clear_def split: option.splits if_splits)
  show "traced d d'
          (k_ring k @ concat (map (open_records d (k_t1 k)) (d_backends d)) @
           concat (map (end_records d (k_t1 k)) (d_backends d)) @
           [window_marker PGWT_MARKER_ESCALATE_END (k_t1 k) (k_t1 k - window_start_ns e) reason])"
    if "d_drain_limit d = 0"
    using traced_trans [OF st(6) [OF that] traced_trans [OF traced_same [OF s2f(6)] logged_traced [OF lg]]]
    by simp
qed

section \<open>Seeding and attaching keep the engine\<close>

definition registry_core :: "pgwt_daemon \<Rightarrow> pgwt_daemon" where
  "registry_core d = d\<lparr>d_backends := [], d_counters := undefined, d_exact_seed_map := \<lambda>_. None,
     d_state_map := \<lambda>_. None\<rparr>"

lemma registry_core_upd [simp]:
  "registry_core (d\<lparr>d_backends := b\<rparr>) = registry_core d"
  "registry_core (d\<lparr>d_counters := c\<rparr>) = registry_core d"
  "registry_core (d\<lparr>d_exact_seed_map := m\<rparr>) = registry_core d"
  "registry_core (d\<lparr>d_state_map := sm\<rparr>) = registry_core d"
  "registry_core (bump f d) = registry_core d"
  by (simp_all add: registry_core_def bump_def)

lemma registry_core_fields:
  assumes "registry_core d' = registry_core d"
  shows "d_escalation d' = d_escalation d" "d_exact_core d' = d_exact_core d"
    "d_exact_cpu_active d' = d_exact_cpu_active d" "d_timer d' = d_timer d"
    "d_event_writer d' = d_event_writer d" "d_drain_limit d' = d_drain_limit d"
    "d_exact_config d' = d_exact_config d" "d_exact_attr_map d' = d_exact_attr_map d"
  using arg_cong [OF assms, of d_escalation] arg_cong [OF assms, of d_exact_core]
    arg_cong [OF assms, of d_exact_cpu_active] arg_cong [OF assms, of d_timer]
    arg_cong [OF assms, of d_event_writer] arg_cong [OF assms, of d_drain_limit]
    arg_cong [OF assms, of d_exact_config] arg_cong [OF assms, of d_exact_attr_map]
  by (simp_all add: registry_core_def)

lemma seed_backend_core:
  "registry_core (snd (pgwt_exact_seed_backend k d p g rc)) = registry_core d"
  "d_backends (snd (pgwt_exact_seed_backend k d p g rc)) = d_backends d"
  by (auto simp: pgwt_exact_seed_backend_def Let_def split: prod.splits)

lemma preseed_core: "registry_core (preseed_state_map k d p a ts) = registry_core d"
  by (auto simp: preseed_state_map_def Let_def split: option.splits)

definition same_fds :: "pgwt_daemon \<Rightarrow> pgwt_daemon \<Rightarrow> bool" where
  "same_fds d d' \<longleftrightarrow>
     map be_wp_fd (d_backends d') = map be_wp_fd (d_backends d) \<and>
     map be_bootstrap_fd (d_backends d') = map be_bootstrap_fd (d_backends d)"

lemma no_fds_maps:
  "no_fds d \<longleftrightarrow> (\<forall>x \<in> set (map be_wp_fd (d_backends d)). x < 0) \<and>
     (\<forall>x \<in> set (map be_bootstrap_fd (d_backends d)). x < 0)"
  by (auto simp: no_fds_def)

lemma same_fds_no_fds: "same_fds d d' \<Longrightarrow> no_fds d' = no_fds d"
  unfolding same_fds_def no_fds_maps by presburger

lemma parse_meta_fds:
  "be_wp_fd (parse_meta k be) = be_wp_fd be" "be_bootstrap_fd (parse_meta k be) = be_bootstrap_fd be"
  "be_pid (parse_meta k be) = be_pid be"
  by (simp_all add: parse_meta_def split: option.splits)

lemma seed_loop_core:
  "registry_core (snd (seed_loop k g js d)) = registry_core d \<and> same_fds d (snd (seed_loop k g js d))"
proof (induction js arbitrary: d)
  case Nil
  then show ?case by (simp add: same_fds_def)
next
  case (Cons i js)
  let ?be = "parse_meta k (d_backends d ! i)"
  let ?d = "set_be i ?be d"
  let ?n = "\<not> be_meta_parsed ?be \<or> be_backend_type ?be = PGWT_BT_CLIENT \<or> be_backend_type ?be = PGWT_BT_PARALLEL_WORKER"
  let ?s = "pgwt_exact_seed_backend k ?d (be_pid ?be) g ?n"
  have fds: "same_fds d ?d"
    by (cases "i < length (d_backends d)")
      (auto simp: same_fds_def map_update parse_meta_fds nth_list_update intro!: nth_equalityI)
  have s: "registry_core (snd ?s) = registry_core d" "same_fds d (snd ?s)"
    using seed_backend_core [of k ?d "be_pid ?be" g ?n] fds by (simp_all add: same_fds_def)
  show ?case
  proof (cases "\<not> be_is_alive (d_backends d ! i) \<or> be_pid (d_backends d ! i) \<le> 0")
    case True
    then show ?thesis using Cons.IH [of d] by simp
  next
    case False
    then have e: "seed_loop k g (i # js) d =
        (if \<not> fst ?s \<and> k_proc_alive k (be_pid ?be) then (False, snd ?s) else seed_loop k g js (snd ?s))"
      by (simp add: Let_def case_prod_unfold)
    show ?thesis unfolding e using s Cons.IH [of "snd ?s"] by (auto simp: same_fds_def)
  qed
qed

lemma attach_backend_core: "registry_core (snd (pgwt_attach_backend_watchpoint k d i)) = registry_core d"
  by (simp add: pgwt_attach_backend_watchpoint_def Let_def preseed_core seed_backend_core)

lemma attach_loop_core: "registry_core (attach_loop_all k js d) = registry_core d"
proof (induction js arbitrary: d)
  case (Cons i js)
  then show ?case by (simp add: Let_def attach_backend_core)
qed simp

section \<open>Escalation\<close>

lemma probe_acquire_frame:
  assumes "pgwt_exact_probe_acquire k d g b = (ok, d')"
  shows "d_escalation d' = d_escalation d" "d_exact_cpu_active d' = d_exact_cpu_active d"
    "d_timer d' = d_timer d" "d_backends d' = d_backends d" "d_event_writer d' = d_event_writer d"
    "d_drain_limit d' = d_drain_limit d" "d_exact_seed_map d' = d_exact_seed_map d"
  using assms by (auto simp: pgwt_exact_probe_acquire_def set_config_def Let_def split: if_splits prod.splits bool.splits)

lemma probe_acquire_core:
  assumes "pgwt_exact_probe_acquire k d g b = (ok, d')" and "core_inv (d_exact_core d)"
    and "consumers (d_exact_core d) = 0"
  shows "core_inv (d_exact_core d')"
    and "ok \<Longrightarrow> consumers (d_exact_core d') = 1 \<and> core_generation (d_exact_core d') = g"
    and "\<not> ok \<Longrightarrow> links (d_exact_core d') = links (d_exact_core d) \<and>
           attached_mask (d_exact_core d') = attached_mask (d_exact_core d) \<and> consumers (d_exact_core d') = 0"
    and "ok \<Longrightarrow> links (pgwt_exact_probe_core_release (d_exact_core d')) = links (d_exact_core d) \<and>
           attached_mask (pgwt_exact_probe_core_release (d_exact_core d')) = attached_mask (d_exact_core d)"
proof -
  let ?c = "d_exact_core d"
  let ?m = "pgwt_exact_probe_acquire_mask (d_lightweight_mode d) (d_skip_usdt d)"
  obtain r c' where acq: "pgwt_exact_probe_core_acquire (k_attach k) ?c ?m g = (r, c')"
    by (cases "pgwt_exact_probe_core_acquire (k_attach k) ?c ?m g")
  have cs: "d_exact_core d' = (if k_cfg_open k then c' else ?c)" "ok = (k_cfg_open k \<and> r)"
    using assms(1) acq
    by (auto simp: pgwt_exact_probe_acquire_def set_config_def Let_def split: if_splits bool.splits)
  note sp = acquire_spec [OF assms(2) acq]
  show "core_inv (d_exact_core d')"
    using cs(1) assms(2) core_inv_acquire [OF assms(2) acq] assms(3) by simp
  show "ok \<Longrightarrow> consumers (d_exact_core d') = 1 \<and> core_generation (d_exact_core d') = g"
    using cs sp(4,5) assms(3) by simp
  show "\<not> ok \<Longrightarrow> links (d_exact_core d') = links ?c \<and> attached_mask (d_exact_core d') = attached_mask ?c \<and>
      consumers (d_exact_core d') = 0"
    using cs sp(6) assms(3) by auto
  show "ok \<Longrightarrow> links (pgwt_exact_probe_core_release (d_exact_core d')) = links ?c \<and>
      attached_mask (pgwt_exact_probe_core_release (d_exact_core d')) = attached_mask ?c"
    using cs acquire_release_links [OF assms(2,3)] acq by auto
qed

lemma seed_all_core:
  assumes "pgwt_exact_seed_all k d g = (ok, d')"
  shows "registry_core d' = registry_core d" "same_fds d d'"
  using seed_loop_core [of k g "[0..<length (d_backends d)]" d] assms by (simp_all add: pgwt_exact_seed_all_def)

text \<open>A failed fresh escalation leaves nothing behind but its counters.\<close>

definition failed_esc :: "pgwt_escalation \<Rightarrow> pgwt_escalation" where
  "failed_esc e = e\<lparr>esc_next_generation := next_gen e, esc_generation := 0, esc_attach_boundary_ns := 0,
     denied_total := denied_total e + 1\<rparr>"

lemma escalate_fresh_failure:
  assumes "escalate_fresh k d grant reason = (Inl f, d')" and "core_inv (d_exact_core d)"
    and "consumers (d_exact_core d) = 0" and "\<not> d_exact_cpu_active d"
  shows "d_escalation d' = failed_esc (d_escalation d)" and "core_inv (d_exact_core d')"
    and "links (d_exact_core d') = links (d_exact_core d)"
    and "attached_mask (d_exact_core d') = attached_mask (d_exact_core d)"
    and "consumers (d_exact_core d') = 0" and "\<not> d_exact_cpu_active d'" and "d_timer d' = d_timer d"
    and "same_fds d d'" and "d_event_writer d' = d_event_writer d" and "f \<noteq> PGWT_ESC_FAIL_BUDGET"
    and "f = PGWT_ESC_FAIL_EXACT_PRESEED \<Longrightarrow> d_exact_seed_map d' p = Some sd \<Longrightarrow>
           seed_generation sd \<noteq> next_gen (d_escalation d)"
    and "d_drain_limit d' = d_drain_limit d"
proof -
  let ?g = "next_gen (d_escalation d)"
  let ?d1 = "begin_generation k d"
  have b: "d_exact_core ?d1 = d_exact_core d" "d_exact_cpu_active ?d1 = d_exact_cpu_active d"
    "d_timer ?d1 = d_timer d" "d_backends ?d1 = d_backends d" "d_event_writer ?d1 = d_event_writer d"
    "esc_generation (d_escalation ?d1) = ?g"
    "d_escalation ?d1 = (d_escalation d)\<lparr>esc_next_generation := ?g, esc_generation := ?g, esc_attach_boundary_ns := k_t1 k\<rparr>"
    "d_drain_limit ?d1 = d_drain_limit d"
    by (simp_all add: begin_generation_def)
  obtain ok d2 where acq: "pgwt_exact_probe_acquire k ?d1 ?g (k_t1 k) = (ok, d2)"
    by (cases "pgwt_exact_probe_acquire k ?d1 ?g (k_t1 k)")
  note af = probe_acquire_frame [OF acq]
  note ac = probe_acquire_core [OF acq, unfolded b(1), OF assms(2,3)]
  have "d_escalation d' = failed_esc (d_escalation d) \<and> core_inv (d_exact_core d') \<and>
    links (d_exact_core d') = links (d_exact_core d) \<and>
    attached_mask (d_exact_core d') = attached_mask (d_exact_core d) \<and>
    consumers (d_exact_core d') = 0 \<and> \<not> d_exact_cpu_active d' \<and> d_timer d' = d_timer d \<and>
    same_fds d d' \<and> d_event_writer d' = d_event_writer d \<and> f \<noteq> PGWT_ESC_FAIL_BUDGET \<and>
    d_drain_limit d' = d_drain_limit d \<and>
    (f = PGWT_ESC_FAIL_EXACT_PRESEED \<longrightarrow> (\<forall>p sd. d_exact_seed_map d' p = Some sd \<longrightarrow> seed_generation sd \<noteq> ?g))"
  proof (cases ok)
    case False
    then have "d' = bump_denied (end_generation d2)" "f = PGWT_ESC_FAIL_EXACT_ATTACH"
      using assms(1) acq by (auto simp: escalate_fresh_def b Let_def)
    with False ac(1,3) af b assms(4) show ?thesis
      by (simp add: bump_denied_def end_generation_def failed_esc_def same_fds_def)
  next
    case True
    let ?d3 = "set_exact_cpu_active d2 True"
    obtain ok2 d4 where se: "pgwt_exact_seed_all k ?d3 ?g = (ok2, d4)" by (cases "pgwt_exact_seed_all k ?d3 ?g")
    have "\<not> ok2" using assms(1) acq True se by (auto simp: escalate_fresh_def b Let_def)
    then have d': "d' = bump_denied (end_generation (pgwt_exact_seed_clear
        (pgwt_exact_probe_release k (set_exact_cpu_active d4 False)) ?g))" "f = PGWT_ESC_FAIL_EXACT_PRESEED"
      using assms(1) acq True se by (auto simp: escalate_fresh_def b Let_def)
    note s = registry_core_fields [OF seed_all_core(1) [OF se]] and fd = seed_all_core(2) [OF se]
    have c4: "d_exact_core d4 = d_exact_core d2" using s(2) by (simp add: set_exact_cpu_active_def)
    have rel: "core_inv (pgwt_exact_probe_core_release (d_exact_core d2))"
      "consumers (pgwt_exact_probe_core_release (d_exact_core d2)) = 0"
      using core_inv_release [OF ac(1)] release_last(5) [OF ac(1)] ac(2) [OF True] by auto
    show ?thesis
      using d' c4 rel ac(4) [OF True] s fd af b
      by (auto simp: bump_denied_def end_generation_def failed_esc_def frame_simps set_exact_cpu_active_def
          same_fds_def pgwt_exact_seed_clear_def split: option.splits if_splits)
  qed
  then show "d_escalation d' = failed_esc (d_escalation d)" "core_inv (d_exact_core d')"
    "links (d_exact_core d') = links (d_exact_core d)"
    "attached_mask (d_exact_core d') = attached_mask (d_exact_core d)"
    "consumers (d_exact_core d') = 0" "\<not> d_exact_cpu_active d'" "d_timer d' = d_timer d"
    "same_fds d d'" "d_event_writer d' = d_event_writer d" "f \<noteq> PGWT_ESC_FAIL_BUDGET"
    "f = PGWT_ESC_FAIL_EXACT_PRESEED \<Longrightarrow> d_exact_seed_map d' p = Some sd \<Longrightarrow> seed_generation sd \<noteq> ?g"
    "d_drain_limit d' = d_drain_limit d"
    by blast+
qed

definition opened_esc :: "pgwt_escalation \<Rightarrow> u64 \<Rightarrow> u64 \<Rightarrow> pgwt_escalation_reason \<Rightarrow> pgwt_escalation" where
  "opened_esc e boundary grant reason =
     (pgwt_esc_ledger_open
       (e\<lparr>esc_next_generation := next_gen e, esc_generation := next_gen e, esc_attach_boundary_ns := boundary,
          esc_active := True, esc_admitting := True, window_start_ns := boundary, window_reason := reason,
          windows_total := windows_total e + 1\<rparr>) boundary)\<lparr>window_deadline_ns := boundary + grant\<rparr>"

lemma escalate_fresh_success:
  assumes "escalate_fresh k d grant reason = (Inr n, d')" and "core_inv (d_exact_core d)"
    and "consumers (d_exact_core d) = 0"
  shows "d_escalation d' = opened_esc (d_escalation d) (k_t1 k) grant reason"
    and "core_inv (d_exact_core d')" and "consumers (d_exact_core d') = 1"
    and "core_generation (d_exact_core d') = next_gen (d_escalation d)" and "d_exact_cpu_active d'"
    and "d_timer d' = (if k_t1 k + grant = 0 then None else Some (k_t1 k + grant))"
    and "\<exists>starts. (\<forall>ev \<in> set starts. old_event ev = PGWT_MARKER_CMD_START \<and> timestamp_ns ev = k_t1 k) \<and>
           traced d d' (starts @ [window_marker PGWT_MARKER_ESCALATE_START (k_t1 k) grant reason])"
    and "n = ceil_s grant" and "d_drain_limit d' = d_drain_limit d"
proof -
  let ?g = "next_gen (d_escalation d)"
  let ?d1 = "begin_generation k d"
  have b: "d_exact_core ?d1 = d_exact_core d" "d_event_writer ?d1 = d_event_writer d"
    "esc_generation (d_escalation ?d1) = ?g" "d_drain_limit ?d1 = d_drain_limit d"
    "d_escalation ?d1 = (d_escalation d)\<lparr>esc_next_generation := ?g, esc_generation := ?g, esc_attach_boundary_ns := k_t1 k\<rparr>"
    by (simp_all add: begin_generation_def)
  obtain ok d2 where acq: "pgwt_exact_probe_acquire k ?d1 ?g (k_t1 k) = (ok, d2)"
    by (cases "pgwt_exact_probe_acquire k ?d1 ?g (k_t1 k)")
  have ok using assms(1) acq by (cases ok) (auto simp: escalate_fresh_def b Let_def)
  note af = probe_acquire_frame [OF acq]
  note ac = probe_acquire_core [OF acq, unfolded b(1), OF assms(2,3)]
  let ?d3 = "set_exact_cpu_active d2 True"
  obtain ok2 d4 where se: "pgwt_exact_seed_all k ?d3 ?g = (ok2, d4)" by (cases "pgwt_exact_seed_all k ?d3 ?g")
  have ok2 using assms(1) acq \<open>ok\<close> se by (cases ok2) (auto simp: escalate_fresh_def b Let_def)
  then have d': "d' = open_window k d4 grant reason" and n: "n = ceil_s grant"
    using assms(1) acq \<open>ok\<close> se by (auto simp: escalate_fresh_def b Let_def)
  note s = registry_core_fields [OF seed_all_core(1) [OF se]]
  define d5 where "d5 = synthesize_command_starts d4 (k_t1 k)"
  define d6 where "d6 = attach_all k d5"
  define d7 where "d7 = arm_deadline (upd_esc (\<lambda>e. pgwt_esc_ledger_open e (k_t1 k))
     (upd_esc (\<lambda>e. e\<lparr>esc_active := True, esc_admitting := True, window_start_ns := k_t1 k,
                             window_reason := reason, windows_total := windows_total e + 1\<rparr>) d6)) (k_t1 k + grant)"
  have w: "d' = write_marker_at d7 PGWT_MARKER_ESCALATE_START (k_t1 k) grant reason"
    by (simp add: d' open_window_def Let_def d5_def d6_def d7_def)
  define starts where "starts = concat (map (start_records d4 (k_t1 k)) (d_backends d4))"
  have l5: "logged d4 d5 starts" unfolding d5_def starts_def by (rule logged_starts)
  note f5 = logged_fields [OF l5]
  have "registry_core d6 = registry_core d5" unfolding d6_def attach_all_def by (rule attach_loop_core)
  note f6 = registry_core_fields [OF this]
  have l8: "logged d7 d' [window_marker PGWT_MARKER_ESCALATE_START (k_t1 k) grant reason]"
    unfolding w by (rule logged_write_marker)
  note f8 = logged_fields [OF l8]
  have w7: "d_event_writer d7 = d_event_writer d6" by (simp add: d7_def arm_deadline_def)
  have e4: "d_escalation d4 = d_escalation ?d1" using s(1) af(1) by (simp add: set_exact_cpu_active_def)
  show "d_escalation d' = opened_esc (d_escalation d) (k_t1 k) grant reason"
    using f8(1) f6(1) f5(1) e4 b(5) by (simp add: d7_def arm_deadline_def opened_esc_def)
  have c: "d_exact_core d' = d_exact_core d2"
    using f8(4) f6(2) f5(4) s(2) by (simp add: d7_def arm_deadline_def set_exact_cpu_active_def)
  show "core_inv (d_exact_core d')" "consumers (d_exact_core d') = 1"
    "core_generation (d_exact_core d') = next_gen (d_escalation d)"
    using c ac(1,2) \<open>ok\<close> by simp_all
  show "d_exact_cpu_active d'"
    using f8(9) f6(3) f5(9) s(3) by (simp add: d7_def arm_deadline_def set_exact_cpu_active_def)
  show "d_timer d' = (if k_t1 k + grant = 0 then None else Some (k_t1 k + grant))"
    using f8(3) by (simp add: d7_def arm_deadline_def)
  show "d_drain_limit d' = d_drain_limit d"
    using f8(11) f6(6) f5(11) s(6) af(6) b(4) by (simp add: d7_def arm_deadline_def set_exact_cpu_active_def)
  show "n = ceil_s grant" by (rule n)
  have "\<forall>ev \<in> set starts. old_event ev = PGWT_MARKER_CMD_START \<and> timestamp_ns ev = k_t1 k"
    by (auto simp: starts_def start_records_def pid_marker_def case_prod_unfold Let_def split: if_splits)
  moreover have "d_event_writer d4 = d_event_writer d"
    using s(5) af(5) b(2) by (simp add: set_exact_cpu_active_def)
  then have t4: "traced d d4 []" by (rule traced_same)
  note traced_trans [OF t4 traced_trans [OF logged_traced [OF l5] traced_trans [OF traced_same [OF f6(5)]
        traced_trans [OF traced_same [OF w7] logged_traced [OF l8]]]]]
  ultimately show "\<exists>starts. (\<forall>ev \<in> set starts. old_event ev = PGWT_MARKER_CMD_START \<and> timestamp_ns ev = k_t1 k) \<and>
           traced d d' (starts @ [window_marker PGWT_MARKER_ESCALATE_START (k_t1 k) grant reason])" by auto
qed

end
