(* ===== verification/Escalation_Run.thy ===== *)
theory Escalation_Run
  imports Escalation
begin

text \<open>
  The life of the escalation engine: its operations as a step relation over a monotone clock,
  interleaved with what the rest of the daemon does, the invariant every reachable state has, and the
  properties of src/src/escalation.c that span its components: windows are billed, bounded, torn down
  completely and bracketed by alternating markers in the trace.
\<close>

section \<open>Ledger facts\<close>

lemma wf_segs_later: "wf_segs lo now gs \<Longrightarrow> now \<le> now' \<Longrightarrow> wf_segs lo now' gs"
  by (induction gs arbitrary: lo) (auto split: if_splits)

lemma wf_segs_close:
  "wf_segs lo now (gs @ [g]) \<Longrightarrow> end_ns g = 0 \<Longrightarrow> now \<noteq> 0 \<Longrightarrow> wf_segs lo now (gs @ [g\<lparr>end_ns := now\<rparr>])"
  by (induction gs arbitrary: lo) (auto split: if_splits)

abbreviation open_seg :: "u64 \<Rightarrow> pgwt_esc_segment" where
  "open_seg s \<equiv> \<lparr>start_ns = s, end_ns = 0\<rparr>"

text \<open>The shape of the ledger: one open segment, the last, exactly while a window is open.\<close>

definition ledger_shape :: "pgwt_escalation \<Rightarrow> bool" where
  "ledger_shape e \<longleftrightarrow>
     (if esc_active e then \<exists>gs. ledger e = gs @ [open_seg (window_start_ns e)] \<and> all_closed gs
      else all_closed (ledger e))"

definition ledger_ok :: "u64 \<Rightarrow> pgwt_escalation \<Rightarrow> bool" where
  "ledger_ok now e \<longleftrightarrow> rolling_window_ns e = 3600000000000 \<and> wf_segs 0 now (ledger e) \<and>
     length (ledger e) \<le> PGWT_ESC_LEDGER_MAX \<and> ledger_shape e"

lemma ledger_ok_later: "ledger_ok now e \<Longrightarrow> now \<le> now' \<Longrightarrow> ledger_ok now' e"
  by (auto simp: ledger_ok_def intro: wf_segs_later)

lemma esc_window_start_less: "now \<noteq> 0 \<Longrightarrow> rolling_window_ns e \<noteq> 0 \<Longrightarrow> esc_window_start e now < now"
proof (cases "rolling_window_ns e < now")
  case True
  assume "rolling_window_ns e \<noteq> 0"
  then have "0 < unat (rolling_window_ns e)" by (simp add: unat_gt_0)
  moreover have "unat (now - rolling_window_ns e) = unat now - unat (rolling_window_ns e)"
    by (rule unat_sub) (use True in simp)
  moreover have "unat (rolling_window_ns e) < unat now" using True by (simp add: word_less_nat_alt)
  ultimately show ?thesis using True by (simp add: esc_window_start_def word_less_nat_alt)
qed (simp add: esc_window_start_def word_gt_0)

lemma pruned_ok:
  assumes "ledger_ok now e" and "now \<noteq> 0"
  shows "ledger_ok now (snd (pgwt_esc_budget_consumed_ns e now))"
proof -
  let ?p = "\<lambda>g. esc_window_start e now < seg_end now g"
  have k: "?p (open_seg (window_start_ns e))"
    using assms esc_window_start_less [of now e] by (simp add: ledger_ok_def seg_end_def)
  show ?thesis
    using assms k le_trans [OF length_filter_le]
    by (auto simp: ledger_ok_def ledger_shape_def consumed_snd wf_segs_filter all_closed_filter split: if_splits)
qed

text \<open>The budget operations only prune.\<close>

definition pruned_of :: "u64 \<Rightarrow> pgwt_escalation \<Rightarrow> pgwt_escalation \<Rightarrow> bool" where
  "pruned_of now e e' \<longleftrightarrow> e' = e \<or> e' = snd (pgwt_esc_budget_consumed_ns e now)"

lemma decide_prunes: "pgwt_esc_budget_decide e now want = (r, e') \<Longrightarrow> pruned_of now e e'"
  using decide_state [of e now want] by (simp add: pruned_of_def)

lemma over_prunes: "pgwt_esc_budget_over e now = (r, e') \<Longrightarrow> pruned_of now e e'"
  by (auto simp: pgwt_esc_budget_over_def pruned_of_def case_prod_unfold Let_def split: if_splits)

lemma pruned_fields:
  assumes "pruned_of now e e'"
  shows "esc_active e' = esc_active e" "esc_enabled e' = esc_enabled e" "esc_timer_fd e' = esc_timer_fd e"
    "esc_generation e' = esc_generation e" "esc_attach_boundary_ns e' = esc_attach_boundary_ns e"
    "window_start_ns e' = window_start_ns e" "window_deadline_ns e' = window_deadline_ns e"
    "esc_admitting e' = esc_admitting e" "budget_ns e' = budget_ns e" "budget_unlimited e' = budget_unlimited e"
    "rolling_window_ns e' = rolling_window_ns e" "esc_next_generation e' = esc_next_generation e"
  using assms by (auto simp: pruned_of_def consumed_snd)

lemma pruned_ledger_ok: "pruned_of now e e' \<Longrightarrow> ledger_ok now e \<Longrightarrow> now \<noteq> 0 \<Longrightarrow> ledger_ok now e'"
  using pruned_ok by (auto simp: pruned_of_def)

lemma ledger_open_fields:
  "esc_active (pgwt_esc_ledger_open e now) = esc_active e" "esc_enabled (pgwt_esc_ledger_open e now) = esc_enabled e"
  "esc_timer_fd (pgwt_esc_ledger_open e now) = esc_timer_fd e"
  "esc_generation (pgwt_esc_ledger_open e now) = esc_generation e"
  "esc_attach_boundary_ns (pgwt_esc_ledger_open e now) = esc_attach_boundary_ns e"
  "window_start_ns (pgwt_esc_ledger_open e now) = window_start_ns e"
  "esc_admitting (pgwt_esc_ledger_open e now) = esc_admitting e"
  "budget_ns (pgwt_esc_ledger_open e now) = budget_ns e"
  "budget_unlimited (pgwt_esc_ledger_open e now) = budget_unlimited e"
  "rolling_window_ns (pgwt_esc_ledger_open e now) = rolling_window_ns e"
  "esc_next_generation (pgwt_esc_ledger_open e now) = esc_next_generation e"
  by (simp_all add: pgwt_esc_ledger_open_def consumed_snd coalesce_oldest_def Let_def)

lemma opened_fields:
  "esc_active (opened_esc e b g r)" "esc_enabled (opened_esc e b g r) = esc_enabled e"
  "esc_timer_fd (opened_esc e b g r) = esc_timer_fd e" "esc_generation (opened_esc e b g r) = next_gen e"
  "esc_attach_boundary_ns (opened_esc e b g r) = b" "window_start_ns (opened_esc e b g r) = b"
  "window_deadline_ns (opened_esc e b g r) = b + g" "esc_admitting (opened_esc e b g r)"
  "budget_ns (opened_esc e b g r) = budget_ns e" "budget_unlimited (opened_esc e b g r) = budget_unlimited e"
  "rolling_window_ns (opened_esc e b g r) = rolling_window_ns e"
  by (simp_all add: opened_esc_def ledger_open_fields)

lemma opened_ledger_ok:
  assumes "ledger_ok b e" and "\<not> esc_active e"
  shows "ledger_ok b (opened_esc e b g r)"
proof -
  let ?e = "e\<lparr>esc_next_generation := next_gen e, esc_generation := next_gen e, esc_attach_boundary_ns := b,
          esc_active := True, esc_admitting := True, window_start_ns := b, window_reason := r,
          windows_total := windows_total e + 1\<rparr>"
  have l: "wf_segs 0 b (ledger ?e)" "all_closed (ledger ?e)" "length (ledger ?e) \<le> PGWT_ESC_LEDGER_MAX"
    using assms by (simp_all add: ledger_ok_def ledger_shape_def)
  note o = wf_ledger_open [OF l]
  let ?l = "ledger (pgwt_esc_ledger_open ?e b)"
  have "?l = butlast ?l @ [last ?l]" using o(4) by simp
  moreover have "last ?l = open_seg b" using o(3,5) by simp
  ultimately have "ledger_shape (opened_esc e b g r)"
    using o(6) opened_fields(1,6) [of e b g r] by (auto simp: ledger_shape_def opened_esc_def)
  then show ?thesis
    using o(1,2) assms(1) opened_fields(11) [of e b g r] by (simp add: ledger_ok_def) (simp add: opened_esc_def)
qed

lemma close_window_fields:
  "\<not> esc_active (close_window e now)" "esc_enabled (close_window e now) = esc_enabled e"
  "esc_timer_fd (close_window e now) = esc_timer_fd e" "esc_generation (close_window e now) = 0"
  "esc_attach_boundary_ns (close_window e now) = 0" "rolling_window_ns (close_window e now) = rolling_window_ns e"
  "budget_ns (close_window e now) = budget_ns e" "budget_unlimited (close_window e now) = budget_unlimited e"
  by (simp_all add: close_window_def pgwt_esc_ledger_close_def)

lemma closed_ledger_ok:
  assumes "ledger_ok now e" and "esc_active e" and "now \<noteq> 0"
  shows "ledger_ok now (close_window e now)"
proof -
  obtain gs where gs: "ledger e = gs @ [open_seg (window_start_ns e)]" "all_closed gs"
    using assms by (auto simp: ledger_ok_def ledger_shape_def)
  have "ledger (close_window e now) = gs @ [\<lparr>start_ns = window_start_ns e, end_ns = now\<rparr>]"
    using gs by (simp add: close_window_def pgwt_esc_ledger_close_def)
  moreover have "wf_segs 0 now (gs @ [\<lparr>start_ns = window_start_ns e, end_ns = now\<rparr>])"
    using wf_segs_close [of 0 now gs "open_seg (window_start_ns e)"] assms gs by (simp add: ledger_ok_def)
  ultimately show ?thesis
    using assms gs by (simp add: ledger_ok_def ledger_shape_def close_window_fields)
qed

section \<open>Window markers in the trace\<close>

definition is_window_marker :: "pgwt_trace_event \<Rightarrow> bool" where
  "is_window_marker ev \<longleftrightarrow> old_event ev = PGWT_MARKER_ESCALATE_START \<or> old_event ev = PGWT_MARKER_ESCALATE_END"

definition window_marks :: "pgwt_trace_event list \<Rightarrow> (u32 \<times> u64) list" where
  "window_marks evs = map (\<lambda>ev. (old_event ev, timestamp_ns ev)) (filter is_window_marker evs)"

text \<open>
  Reading the markers as an automaton: a start only when no window is open, an end only when one is,
  times never going back. The result is whether a window is open and the last marker's time.
\<close>

fun marks_run :: "bool \<times> u64 \<Rightarrow> (u32 \<times> u64) list \<Rightarrow> (bool \<times> u64) option" where
  "marks_run s [] = Some s"
| "marks_run (a, t) ((m, ts) # ms) =
     (if t \<le> ts \<and> m = (if a then PGWT_MARKER_ESCALATE_END else PGWT_MARKER_ESCALATE_START)
      then marks_run (\<not> a, ts) ms else None)"

lemma marks_run_append:
  "marks_run s (ms @ ms') = (case marks_run s ms of None \<Rightarrow> None | Some s' \<Rightarrow> marks_run s' ms')"
  by (induction s ms rule: marks_run.induct) auto

lemma window_marks_append [simp]: "window_marks (es @ es') = window_marks es @ window_marks es'"
  by (simp add: window_marks_def)

lemma stored_fields [simp]:
  "old_event (stored d ev) = old_event ev" "timestamp_ns (stored d ev) = timestamp_ns ev"
  by (simp_all add: stored_def split: option.splits)

lemma window_marks_stored [simp]: "window_marks (map (stored d) evs) = window_marks evs"
proof -
  have "is_window_marker (stored d ev) = is_window_marker ev" for ev by (simp add: is_window_marker_def)
  then show ?thesis by (simp add: window_marks_def filter_map comp_def)
qed

lemma window_marks_none: "(\<And>ev. ev \<in> set evs \<Longrightarrow> \<not> is_window_marker ev) \<Longrightarrow> window_marks evs = []"
  by (simp add: window_marks_def)

lemma open_records_no_window: "ev \<in> set (open_records d now be) \<Longrightarrow> \<not> is_window_marker ev"
  by (auto simp: open_records_def is_window_marker_def Let_def PGWT_IS_MARKER_def
      split: if_splits option.splits sum.splits dest!: build_fields(8) [OF sym])

lemma end_records_no_window: "ev \<in> set (end_records d now be) \<Longrightarrow> \<not> is_window_marker ev"
  by (auto simp: end_records_def is_window_marker_def pid_marker_def Let_def split: if_splits prod.splits)

definition marks_ok :: "u64 \<Rightarrow> pgwt_daemon \<Rightarrow> bool" where
  "marks_ok now d \<longleftrightarrow> recording d \<and>
     (\<exists>t \<le> now. marks_run (False, 0) (window_marks (trace_log d)) = Some (esc_active (d_escalation d), t))"

lemma marks_ok_later: "marks_ok now d \<Longrightarrow> now \<le> now' \<Longrightarrow> marks_ok now' d"
  unfolding marks_ok_def by (meson order_trans)

lemma marks_ok_traced:
  assumes "marks_ok now d" and "traced d d' evs" and "window_marks evs = []"
    and "esc_active (d_escalation d') = esc_active (d_escalation d)"
  shows "marks_ok now d'"
  using assms by (auto simp: marks_ok_def traced_def)

lemma marks_ok_flip:
  assumes "marks_ok now d" and "traced d d' evs"
    and "window_marks evs = [(if esc_active (d_escalation d) then PGWT_MARKER_ESCALATE_END else PGWT_MARKER_ESCALATE_START, ts)]"
    and "now \<le> ts" and "esc_active (d_escalation d') = (\<not> esc_active (d_escalation d))"
  shows "marks_ok ts d'"
proof -
  obtain t where t: "t \<le> now" "recording d"
    "marks_run (False, 0) (window_marks (trace_log d)) = Some (esc_active (d_escalation d), t)"
    using assms(1) by (auto simp: marks_ok_def)
  have "t \<le> ts" using t(1) assms(4) by (rule order_trans)
  then have "marks_run (False, 0) (window_marks (trace_log d')) = Some (esc_active (d_escalation d'), ts)"
    using assms(2,3,5) t by (simp add: traced_def marks_run_append)
  then show ?thesis using assms(2) t(2) by (auto simp: marks_ok_def traced_def)
qed

section \<open>The invariant\<close>

definition window_open :: "pgwt_daemon \<Rightarrow> bool" where
  "window_open d \<longleftrightarrow> (let e = d_escalation d; c = d_exact_core d in
     esc_admitting e \<and> esc_generation e \<noteq> 0 \<and> core_generation c = esc_generation e \<and> consumers c = 1 \<and>
     esc_attach_boundary_ns e = window_start_ns e \<and> d_exact_cpu_active d \<and>
     d_timer d = (if window_deadline_ns e = 0 then None else Some (window_deadline_ns e)))"

definition window_shut :: "pgwt_daemon \<Rightarrow> bool" where
  "window_shut d \<longleftrightarrow> (let e = d_escalation d in
     esc_generation e = 0 \<and> esc_attach_boundary_ns e = 0 \<and> consumers (d_exact_core d) = 0 \<and>
     \<not> d_exact_cpu_active d \<and> d_timer d = None \<and> no_fds d)"

definition esc_inv :: "u64 \<times> pgwt_daemon \<Rightarrow> bool" where
  "esc_inv s \<longleftrightarrow> (case s of (now, d) \<Rightarrow>
     now \<noteq> 0 \<and> esc_enabled (d_escalation d) \<and> esc_timer_fd (d_escalation d) \<ge> 0 \<and>
     ledger_ok now (d_escalation d) \<and> core_inv (d_exact_core d) \<and> d_drain_limit d = 0 \<and> marks_ok now d \<and>
     (if esc_active (d_escalation d) then window_open d else window_shut d))"

lemma esc_invD:
  assumes "esc_inv (now, d)"
  shows "now \<noteq> 0" "esc_enabled (d_escalation d)" "esc_timer_fd (d_escalation d) \<ge> 0"
    "ledger_ok now (d_escalation d)" "core_inv (d_exact_core d)" "d_drain_limit d = 0" "marks_ok now d"
    "esc_active (d_escalation d) \<Longrightarrow> window_open d" "\<not> esc_active (d_escalation d) \<Longrightarrow> window_shut d"
  using assms by (auto simp: esc_inv_def)

lemma esc_invI:
  assumes "now \<noteq> 0" "esc_enabled (d_escalation d)" "esc_timer_fd (d_escalation d) \<ge> 0"
    "ledger_ok now (d_escalation d)" "core_inv (d_exact_core d)" "d_drain_limit d = 0" "marks_ok now d"
    "esc_active (d_escalation d) \<Longrightarrow> window_open d" "\<not> esc_active (d_escalation d) \<Longrightarrow> window_shut d"
  shows "esc_inv (now, d)"
  using assms by (auto simp: esc_inv_def)

lemma esc_inv_later: "esc_inv (now, d) \<Longrightarrow> now \<le> now' \<Longrightarrow> esc_inv (now', d)"
  using ledger_ok_later marks_ok_later by (fastforce simp: esc_inv_def)

text \<open>It reads only some fields of the engine.\<close>

lemma esc_inv_upd:
  assumes "esc_inv (now, d)" and "ledger_ok now e'"
    and "esc_active e' = esc_active (d_escalation d)" "esc_enabled e' = esc_enabled (d_escalation d)"
    "esc_timer_fd e' = esc_timer_fd (d_escalation d)" "esc_generation e' = esc_generation (d_escalation d)"
    "esc_attach_boundary_ns e' = esc_attach_boundary_ns (d_escalation d)"
    "window_start_ns e' = window_start_ns (d_escalation d)"
    "window_deadline_ns e' = window_deadline_ns (d_escalation d)"
    "esc_admitting e' = esc_admitting (d_escalation d)"
  shows "esc_inv (now, d\<lparr>d_escalation := e'\<rparr>)"
proof -
  note D = esc_invD [OF assms(1)]
  have "traced d (d\<lparr>d_escalation := e'\<rparr>) []" by (rule traced_same) simp
  then have m: "marks_ok now (d\<lparr>d_escalation := e'\<rparr>)"
    by (rule marks_ok_traced [OF D(7)]) (simp_all add: assms window_marks_def)
  show ?thesis
    by (rule esc_invI)
      (use D m assms in \<open>simp_all add: window_open_def window_shut_def Let_def no_fds_def\<close>)
qed

text \<open>Pruning by the budget operations keeps it.\<close>

lemma esc_inv_pruned:
  assumes "esc_inv (now, d)" and "pruned_of now (d_escalation d) e'"
  shows "esc_inv (now, d\<lparr>d_escalation := e'\<rparr>)"
  by (rule esc_inv_upd [OF assms(1) pruned_ledger_ok [OF assms(2) esc_invD(4,1) [OF assms(1)]]])
    (simp_all add: pruned_fields [OF assms(2)])

lemma esc_inv_counter:
  assumes "esc_inv (now, d)"
  shows "esc_inv (now, upd_esc (\<lambda>e. e\<lparr>denied_total := n\<rparr>) d)"
    "esc_inv (now, upd_esc (\<lambda>e. e\<lparr>budget_closed_total := n\<rparr>) d)"
  using esc_invD(4) [OF assms]
  by (auto intro!: esc_inv_upd [OF assms] simp: ledger_ok_def ledger_shape_def)

section \<open>Every operation keeps the invariant\<close>

text \<open>The clock does not go back, and the kernel's ring never carries a window marker.\<close>

definition kernel_ok :: "u64 \<Rightarrow> kernel \<Rightarrow> bool" where
  "kernel_ok now k \<longleftrightarrow> now \<le> k_t0 k \<and> k_t0 k \<le> k_t1 k \<and> k_t1 k \<le> k_t2 k \<and>
     list_all (\<lambda>ev. \<not> is_window_marker ev) (k_ring k)"

lemma kernel_okD:
  assumes "kernel_ok now k"
  shows "now \<le> k_t0 k" "k_t0 k \<le> k_t1 k" "k_t1 k \<le> k_t2 k" "now \<le> k_t1 k" "k_t0 k \<le> k_t2 k"
    "window_marks (k_ring k) = []"
  using assms by (auto simp: kernel_ok_def list_all_iff window_marks_def)

lemma closing_marks:
  "window_marks (concat (map (open_records d now) bes) @ concat (map (end_records d now) bes)) = []"
  using open_records_no_window end_records_no_window by (intro window_marks_none) fastforce

lemma window_marks_marker:
  "window_marks [window_marker PGWT_MARKER_ESCALATE_START ts w r] = [(PGWT_MARKER_ESCALATE_START, ts)]"
  "window_marks [window_marker PGWT_MARKER_ESCALATE_END ts w r] = [(PGWT_MARKER_ESCALATE_END, ts)]"
  by (simp_all add: window_marks_def is_window_marker_def window_marker_def)

lemma esc_inv_deescalate:
  assumes "esc_inv (now, d)" and "now \<le> k_t1 k" and "window_marks (k_ring k) = []"
  shows "esc_inv (k_t1 k, pgwt_deescalate k d reason)"
proof (cases "esc_active (d_escalation d)")
  case False
  then have "pgwt_deescalate k d reason = d" by (simp add: pgwt_deescalate_def)
  then show ?thesis using esc_inv_later [OF assms(1,2)] by simp
next
  case True
  note D = esc_invD [OF assms(1)] and sp = deescalate_spec [OF True, where k = k and reason = reason]
  have wo: "consumers (d_exact_core d) = 1" using D(8) [OF True] by (simp add: window_open_def Let_def)
  have nz: "k_t1 k \<noteq> 0" using D(1) assms(2) by auto
  have "window_marks (k_ring k @ concat (map (open_records d (k_t1 k)) (d_backends d)) @
      concat (map (end_records d (k_t1 k)) (d_backends d)) @
      [window_marker PGWT_MARKER_ESCALATE_END (k_t1 k) (k_t1 k - window_start_ns (d_escalation d)) reason]) =
      [(PGWT_MARKER_ESCALATE_END, k_t1 k)]"
    using closing_marks [of d "k_t1 k" "d_backends d"] assms(3) by (simp add: window_marks_marker del: PGWT_MARKER_ESCALATE_END_def)
  then have m: "marks_ok (k_t1 k) (pgwt_deescalate k d reason)"
    using True sp(1) assms(2)
    by (intro marks_ok_flip [OF D(7) sp(6) [OF D(6)]]) (simp_all add: close_window_fields)
  have led: "ledger_ok (k_t1 k) (close_window (d_escalation d) (k_t1 k))"
    by (rule closed_ledger_ok [OF ledger_ok_later [OF D(4) assms(2)] True nz])
  show ?thesis
    by (rule esc_invI)
      (use D nz led m sp(1-5) sp(8) core_inv_release [OF D(5)] release_last(5) [OF D(5) wo] in
        \<open>simp_all add: close_window_fields window_shut_def Let_def\<close>)
qed

lemma esc_inv_arm:
  assumes "esc_inv (now, d)" and "esc_active (d_escalation d)"
  shows "esc_inv (now, arm_deadline d dl)"
proof -
  note D = esc_invD [OF assms(1)]
  have "traced d (arm_deadline d dl) []" by (rule traced_same) (simp add: arm_deadline_def)
  then have m: "marks_ok now (arm_deadline d dl)"
    by (rule marks_ok_traced [OF D(7)]) (simp_all add: arm_deadline_def window_marks_def)
  show ?thesis
    by (rule esc_invI)
      (use D m assms(2) in \<open>simp_all add: arm_deadline_def window_open_def Let_def ledger_ok_def ledger_shape_def\<close>)
qed

lemma next_gen_nonzero: "next_gen e \<noteq> 0"
  by (simp add: next_gen_def)

lemma esc_inv_fresh:
  assumes "esc_inv (k_t1 k, d)" and "\<not> esc_active (d_escalation d)"
  shows "esc_inv (k_t1 k, snd (escalate_fresh k d grant reason))"
proof -
  obtain r d' where ef: "escalate_fresh k d grant reason = (r, d')" by (cases "escalate_fresh k d grant reason")
  note D = esc_invD [OF assms(1)]
  have sh: "consumers (d_exact_core d) = 0" "\<not> d_exact_cpu_active d" "d_timer d = None" "no_fds d"
    using D(9) [OF assms(2)] by (simp_all add: window_shut_def Let_def)
  show ?thesis
  proof (cases r)
    case (Inl f)
    note sp = escalate_fresh_failure [OF ef [unfolded Inl] D(5) sh(1,2)]
    have "marks_ok (k_t1 k) d'"
      by (rule marks_ok_traced [OF D(7) traced_same [OF sp(9)]]) (simp_all add: sp(1) failed_esc_def window_marks_def)
    then have "esc_inv (k_t1 k, d')"
      using D sp(1,2,5,6,7,12) sh same_fds_no_fds [OF sp(8)] assms(2)
      by (intro esc_invI)
        (simp_all add: failed_esc_def window_shut_def Let_def ledger_ok_def ledger_shape_def)
    then show ?thesis using ef by simp
  next
    case (Inr n)
    note sp = escalate_fresh_success [OF ef [unfolded Inr] D(5) sh(1)]
    obtain starts where st: "\<forall>ev \<in> set starts. old_event ev = PGWT_MARKER_CMD_START \<and> timestamp_ns ev = k_t1 k"
      "traced d d' (starts @ [window_marker PGWT_MARKER_ESCALATE_START (k_t1 k) grant reason])"
      using sp(7) by blast
    have "window_marks starts = []" using st(1) by (intro window_marks_none) (auto simp: is_window_marker_def)
    then have m: "marks_ok (k_t1 k) d'"
      using assms(2) by (intro marks_ok_flip [OF D(7) st(2)])
        (simp_all add: sp(1) opened_fields window_marks_marker del: PGWT_MARKER_ESCALATE_START_def)
    have "esc_inv (k_t1 k, d')"
      using D sp m opened_ledger_ok [OF D(4) assms(2)]
      by (intro esc_invI) (simp_all add: opened_fields window_open_def Let_def next_gen_nonzero)
    then show ?thesis using ef by simp
  qed
qed

lemma esc_inv_escalate:
  assumes "esc_inv (now, d)" and "kernel_ok now k"
  shows "esc_inv (k_t2 k, snd (pgwt_escalate k d dur reason))"
proof -
  note t = kernel_okD [OF assms(2)]
  have i0: "esc_inv (k_t0 k, d)" by (rule esc_inv_later [OF assms(1) t(1)])
  obtain r e where dec: "pgwt_esc_budget_decide (d_escalation d) (k_t0 k) (word_of_int dur * 1000000000) = (r, e)"
    by (cases "pgwt_esc_budget_decide (d_escalation d) (k_t0 k) (word_of_int dur * 1000000000)")
  let ?d = "d\<lparr>d_escalation := e\<rparr>"
  have ip: "esc_inv (k_t0 k, ?d)" by (rule esc_inv_pruned [OF i0 decide_prunes [OF dec]])
  have "\<exists>t. t \<le> k_t2 k \<and> esc_inv (t, snd (pgwt_escalate k d dur reason))"
  proof (cases "dur \<le> 0")
    case True
    then show ?thesis using i0 t(5) esc_invD(2) [OF i0] by (auto simp: pgwt_escalate_def)
  next
    case False
    note en = esc_invD(2) [OF i0]
    show ?thesis
    proof (cases r)
      case (Deny why)
      then have "snd (pgwt_escalate k d dur reason) = bump_denied ?d"
        using False en dec by (simp add: pgwt_escalate_def)
      then show ?thesis using esc_inv_counter(1) [OF ip] t(5) by (auto simp: bump_denied_def)
    next
      case (Grant g)
      show ?thesis
      proof (cases "esc_active e")
        case True
        then have "snd (pgwt_escalate k d dur reason) =
            (if k_t0 k + g > window_deadline_ns e then arm_deadline ?d (k_t0 k + g) else ?d)"
          using False en dec Grant by (simp add: pgwt_escalate_def Let_def)
        then show ?thesis using ip esc_inv_arm [OF ip] True t(5) by (auto split: if_splits)
      next
        case act: False
        then have "snd (pgwt_escalate k d dur reason) = snd (escalate_fresh k ?d g reason)"
          using False en dec Grant by (simp add: pgwt_escalate_def Let_def)
        moreover have "esc_inv (k_t1 k, ?d)" by (rule esc_inv_later [OF ip t(2)])
        ultimately show ?thesis using esc_inv_fresh [of k ?d g reason] act t(3) by auto
      qed
    qed
  qed
  then show ?thesis using esc_inv_later by blast
qed

lemma esc_inv_on_timer:
  assumes "esc_inv (now, d)" and "kernel_ok now k"
  shows "esc_inv (k_t2 k, pgwt_escalation_on_timer k d)"
  using esc_inv_deescalate [OF assms(1) kernel_okD(4,6) [OF assms(2)], of ESC_REASON_EXPIRED]
    esc_inv_later [OF assms(1)] kernel_okD [OF assms(2)]
  by (auto simp: pgwt_escalation_on_timer_def intro: esc_inv_later order_trans)

lemma esc_inv_check_budget:
  assumes "esc_inv (now, d)" and "kernel_ok now k"
  shows "esc_inv (k_t2 k, pgwt_escalation_check_budget k d)"
proof (cases "esc_active (d_escalation d)")
  case False
  then show ?thesis
    using assms kernel_okD [OF assms(2)] by (auto simp: pgwt_escalation_check_budget_def intro: esc_inv_later)
next
  case True
  note t = kernel_okD [OF assms(2)]
  obtain over e where ov: "pgwt_esc_budget_over (d_escalation d) (k_t0 k) = (over, e)"
    by (cases "pgwt_esc_budget_over (d_escalation d) (k_t0 k)")
  let ?d = "d\<lparr>d_escalation := e\<rparr>"
  have ip: "esc_inv (k_t0 k, ?d)"
    by (rule esc_inv_pruned [OF esc_inv_later [OF assms(1) t(1)] over_prunes [OF ov]])
  let ?d' = "upd_esc (\<lambda>e. e\<lparr>budget_closed_total := budget_closed_total e + 1\<rparr>) ?d"
  have "esc_inv (k_t0 k, ?d')" using esc_inv_counter(2) [OF ip] by simp
  then have "esc_inv (k_t1 k, pgwt_deescalate k ?d' ESC_REASON_BUDGET)"
    by (rule esc_inv_deescalate [OF _ t(2,6)])
  then show ?thesis
    using True ov ip t by (auto simp: pgwt_escalation_check_budget_def Let_def intro: esc_inv_later)
qed

lemma esc_inv_core:
  assumes "esc_inv (now, d)" and "core_inv c" and "consumers c = consumers (d_exact_core d)"
    and "core_generation c = core_generation (d_exact_core d)"
  shows "esc_inv (now, d\<lparr>d_exact_core := c, d_cmd_gate_active := g\<rparr>)"
proof -
  note D = esc_invD [OF assms(1)]
  have "traced d (d\<lparr>d_exact_core := c, d_cmd_gate_active := g\<rparr>) []" by (rule traced_same) simp
  then have m: "marks_ok now (d\<lparr>d_exact_core := c, d_cmd_gate_active := g\<rparr>)"
    by (rule marks_ok_traced [OF D(7)]) (simp_all add: window_marks_def)
  show ?thesis
    by (rule esc_invI)
      (use D m assms in \<open>simp_all add: window_open_def window_shut_def Let_def no_fds_def\<close>)
qed

lemma unpin_fields:
  "consumers (pgwt_exact_probe_core_unpin c m) = consumers c"
  "core_generation (pgwt_exact_probe_core_unpin c m) = core_generation c"
  by (simp_all add: pgwt_exact_probe_core_unpin_def Let_def detach_rev_fields)

lemma esc_inv_reconcile:
  assumes "esc_inv (now, d)"
  shows "esc_inv (now, pgwt_exact_probe_reconcile_sampled m d)"
  using assms esc_inv_core [OF assms core_inv_unpin [OF esc_invD(5) [OF assms]]]
  by (simp add: pgwt_exact_probe_reconcile_sampled_def unpin_fields)

section \<open>The step relation\<close>

text \<open>
  What the rest of the daemon may do between two operations of the engine: anything that leaves the
  engine's own state alone, writes no window marker and, with no window open, attaches no watchpoint.
\<close>

definition daemon_moves :: "pgwt_daemon \<Rightarrow> pgwt_daemon \<Rightarrow> bool" where
  "daemon_moves d d' \<longleftrightarrow> d_escalation d' = d_escalation d \<and> d_exact_core d' = d_exact_core d \<and>
     d_exact_cpu_active d' = d_exact_cpu_active d \<and> d_timer d' = d_timer d \<and> d_drain_limit d' = 0 \<and>
     (\<exists>evs. traced d d' evs \<and> window_marks evs = []) \<and> (\<not> esc_active (d_escalation d) \<longrightarrow> no_fds d')"

inductive esc_step :: "u64 \<times> pgwt_daemon \<Rightarrow> u64 \<times> pgwt_daemon \<Rightarrow> bool" where
  Escalate: "kernel_ok now k \<Longrightarrow> esc_step (now, d) (k_t2 k, snd (pgwt_escalate k d dur reason))"
| Deescalate: "kernel_ok now k \<Longrightarrow> esc_step (now, d) (k_t2 k, pgwt_deescalate k d reason)"
| OnTimer: "kernel_ok now k \<Longrightarrow> esc_step (now, d) (k_t2 k, pgwt_escalation_on_timer k d)"
| CheckBudget: "kernel_ok now k \<Longrightarrow> esc_step (now, d) (k_t2 k, pgwt_escalation_check_budget k d)"
| Reconcile: "esc_step (now, d) (now, pgwt_exact_probe_reconcile_sampled m d)"
| Daemon: "now \<le> now' \<Longrightarrow> daemon_moves d d' \<Longrightarrow> esc_step (now, d) (now', d')"

inductive_cases esc_stepE: "esc_step s t"

text \<open>A tiered daemon right after a successful initialisation, before any trace record.\<close>

definition esc_start :: "u64 \<times> pgwt_daemon \<Rightarrow> bool" where
  "esc_start s \<longleftrightarrow> (case s of (now, d) \<Rightarrow>
     now \<noteq> 0 \<and> (\<exists>d0 fd b. d_tiered d0 \<and> 0 \<le> fd \<and> pgwt_escalation_init (Some fd) d0 b = (True, d)) \<and>
     core_inv (d_exact_core d) \<and> consumers (d_exact_core d) = 0 \<and> \<not> d_exact_cpu_active d \<and>
     d_timer d = None \<and> no_fds d \<and> d_drain_limit d = 0 \<and> recording d \<and> trace_log d = [])"

lemma esc_start_inv: "esc_start s \<Longrightarrow> esc_inv s"
proof -
  assume "esc_start s"
  then obtain now d d0 fd b where s: "s = (now, d)" and now: "now \<noteq> 0" and i: "d_tiered d0" "0 \<le> fd"
      "pgwt_escalation_init (Some fd) d0 b = (True, d)"
    and r: "core_inv (d_exact_core d)" "consumers (d_exact_core d) = 0" "\<not> d_exact_cpu_active d"
      "d_timer d = None" "no_fds d" "d_drain_limit d = 0" "recording d" "trace_log d = []"
    by (auto simp: esc_start_def split: prod.splits)
  have e: "esc_enabled (d_escalation d)" "esc_timer_fd (d_escalation d) = fd" "\<not> esc_active (d_escalation d)"
    "ledger (d_escalation d) = []" "rolling_window_ns (d_escalation d) = 3600000000000"
    "esc_generation (d_escalation d) = 0" "esc_attach_boundary_ns (d_escalation d) = 0"
    using i(1,3) by (auto simp: pgwt_escalation_init_def zero_escalation_def Let_def split: if_splits)
  have "marks_ok now d" using r(7,8) e(3) by (auto simp: marks_ok_def window_marks_def intro!: exI [of _ 0])
  with now r i(2) e show ?thesis
    unfolding s by (intro esc_invI) (simp_all add: ledger_ok_def ledger_shape_def window_shut_def)
qed

lemma esc_start_idle: "esc_start s \<Longrightarrow> \<not> esc_active (d_escalation (snd s))"
  by (auto simp: esc_start_def pgwt_escalation_init_def zero_escalation_def Let_def split: if_splits)

lemma esc_step_inv: "esc_step s t \<Longrightarrow> esc_inv s \<Longrightarrow> esc_inv t"
proof (induction rule: esc_step.induct)
  case (Deescalate now k d reason)
  from kernel_okD [OF Deescalate.hyps] esc_inv_deescalate [OF Deescalate.prems] show ?case
    by (blast intro: esc_inv_later)
next
  case (Daemon now now' d d')
  note D = esc_invD [OF Daemon.prems]
  from Daemon.hyps(2) obtain evs where m: "traced d d' evs" "window_marks evs = []"
    and f: "d_escalation d' = d_escalation d" "d_exact_core d' = d_exact_core d"
      "d_exact_cpu_active d' = d_exact_cpu_active d" "d_timer d' = d_timer d" "d_drain_limit d' = 0"
      "\<not> esc_active (d_escalation d) \<longrightarrow> no_fds d'"
    by (auto simp: daemon_moves_def)
  have "marks_ok now d'" by (rule marks_ok_traced [OF D(7) m]) (simp add: f)
  then have "esc_inv (now, d')"
    by (intro esc_invI) (use D f in \<open>simp_all add: window_open_def window_shut_def Let_def\<close>)
  then show ?case by (rule esc_inv_later [OF _ Daemon.hyps(1)])
qed (auto intro: esc_inv_escalate esc_inv_on_timer esc_inv_check_budget esc_inv_reconcile)

interpretation esc: invariant_system esc_start esc_step esc_inv
  by unfold_locales (use esc_start_inv esc_step_inv in blast)+

section \<open>The deadline stays inside the budget\<close>

lemma finite_segs_time [simp]: "finite (segs_time now gs)"
  by (simp add: segs_time_def seg_time_def)

lemma finite_billed [simp]: "finite (billed e now)"
  by (simp add: billed_def)

lemma esc_window_start_mono: "t \<le> t' \<Longrightarrow> esc_window_start e t \<le> esc_window_start e t'"
  by (auto simp: esc_window_start_def word_le_nat_alt word_less_nat_alt unat_sub)

lemma billed_pruned: "pruned_of now e e' \<Longrightarrow> billed e' t \<subseteq> billed e t"
  by (auto simp: pruned_of_def consumed_snd billed_def segs_time_def)

text \<open>Advancing the clock bills at most the time that passed.\<close>

lemma billed_later:
  assumes "t \<le> t'"
  shows "billed e t' \<subseteq> billed e t \<union> {unat t ..< unat t'}"
  using esc_window_start_mono [OF assms, of e] assms
  by (auto simp: billed_def segs_time_def seg_time_def seg_end_def word_le_nat_alt split: if_splits)

definition committed :: "pgwt_escalation \<Rightarrow> bool" where
  "committed e \<longleftrightarrow> card (billed e (window_deadline_ns e)) \<le> unat (budget_ns e)"

lemma committed_pruned:
  assumes "pruned_of now e e'" and "committed e"
  shows "committed e'"
proof -
  have "card (billed e' (window_deadline_ns e)) \<le> card (billed e (window_deadline_ns e))"
    by (rule card_mono [OF finite_billed billed_pruned [OF assms(1)]])
  then show ?thesis using assms(2) pruned_fields [OF assms(1)] by (simp add: committed_def)
qed

lemma committed_extend:
  assumes "ledger_ok now e" and "\<not> budget_unlimited e"
    and "pgwt_esc_budget_decide e now want = (Grant g, e')"
    and "unat now + unat (budget_ns e) < 2 ^ 64"
  shows "committed (e'\<lparr>window_deadline_ns := now + g\<rparr>)"
proof -
  note G = decide_Grant [OF assms(3,2)]
  have c: "card (billed e now) + unat g \<le> unat (budget_ns e)"
    using G(2) consumed_fst [of now e] assms(1) by (simp add: ledger_ok_def)
  then have dl: "unat (now + g) = unat now + unat g" using assms(4) by (simp add: unat_add_u64)
  have le: "now \<le> now + g" using dl by (simp add: word_le_nat_alt)
  have "billed (e'\<lparr>window_deadline_ns := now + g\<rparr>) (now + g) \<subseteq> billed e (now + g)"
    using G(3) billed_pruned [of now e e' "now + g"]
    by (auto simp: pruned_of_def billed_def esc_window_start_def)
  also have "\<dots> \<subseteq> billed e now \<union> {unat now ..< unat (now + g)}" by (rule billed_later [OF le])
  finally have "card (billed (e'\<lparr>window_deadline_ns := now + g\<rparr>) (now + g)) \<le>
      card (billed e now \<union> {unat now ..< unat (now + g)})" by (intro card_mono) simp_all
  also have "\<dots> \<le> card (billed e now) + unat g" using card_Un_le dl by (metis add_diff_cancel_left' card_atLeastLessThan)
  finally show ?thesis using c pruned_fields(9) [OF decide_prunes [OF assms(3)]] by (simp add: committed_def)
qed

lemma all_closed_time: "all_closed gs \<Longrightarrow> segs_time t gs = segs_time t' gs"
  by (induction gs) (auto simp: segs_time_def seg_time_def seg_end_def)

lemma opened_ledger:
  assumes "length (ledger e) < PGWT_ESC_LEDGER_MAX"
  shows "ledger (opened_esc e b g r) =
    filter (\<lambda>s. esc_window_start e b < seg_end b s) (ledger e) @ [open_seg b]"
proof -
  have "length (filter p (ledger e)) < 256" for p
    using assms le_less_trans [OF length_filter_le] by simp
  then show ?thesis
    by (simp add: opened_esc_def pgwt_esc_ledger_open_def consumed_snd Let_def esc_window_start_def not_le [symmetric])
qed

lemma committed_denied: "committed (e\<lparr>denied_total := n\<rparr>) = committed e"
  by (simp add: committed_def billed_def esc_window_start_def)

text \<open>With room in the ledger a fresh window bills what was billed when it was granted, and itself.\<close>

lemma committed_fresh:
  assumes "ledger_ok now e" and "\<not> esc_active e" and "\<not> budget_unlimited e" and "now \<le> b"
    and "length (ledger e) < PGWT_ESC_LEDGER_MAX"
    and "pgwt_esc_budget_decide e now want = (Grant g, e')" and "unat b + unat (budget_ns e) < 2 ^ 64"
  shows "committed (opened_esc e' b g r)"
proof -
  note G = decide_Grant [OF assms(6,3)] and P = pruned_fields [OF decide_prunes [OF assms(6)]]
  let ?o = "opened_esc e' b g r"
  have c: "card (billed e now) + unat g \<le> unat (budget_ns e)"
    using G(2) consumed_fst [of now e] assms(1) by (simp add: ledger_ok_def)
  then have dl: "unat (b + g) = unat b + unat g" using assms(7) by (simp add: unat_add_u64)
  have l: "length (ledger e') < PGWT_ESC_LEDGER_MAX"
    using G(3) assms(5) le_less_trans [OF length_filter_le] by (simp add: consumed_snd)
  have sub: "set (filter (\<lambda>s. esc_window_start e' b < seg_end b s) (ledger e')) \<subseteq> set (ledger e)"
    using G(3) by (auto simp: consumed_snd)
  have cl: "all_closed (ledger e)" using assms(1,2) by (simp add: ledger_ok_def ledger_shape_def)
  have "esc_window_start ?o (b + g) = esc_window_start e (b + g)"
    by (simp only: esc_window_start_def opened_fields P)
  then have ws: "esc_window_start e now \<le> esc_window_start ?o (b + g)"
    using esc_window_start_mono [of now "b + g" e] assms(4) dl by (simp add: word_le_nat_alt)
  have "billed ?o (b + g) \<subseteq> (segs_time (b + g) (ledger e) \<union> {unat b ..< unat (b + g)}) \<inter>
      {unat (esc_window_start ?o (b + g)) ..}"
    using sub by (auto simp: billed_def opened_ledger [OF l] segs_time_def seg_time_def seg_end_def)
  also have "\<dots> \<subseteq> billed e now \<union> {unat b ..< unat (b + g)}"
    using ws all_closed_time [OF cl, of "b + g" now] by (auto simp: billed_def word_le_nat_alt)
  finally have "card (billed ?o (b + g)) \<le> card (billed e now \<union> {unat b ..< unat (b + g)})"
    by (intro card_mono) simp_all
  also have "\<dots> \<le> card (billed e now) + unat g"
    using card_Un_le dl by (metis add_diff_cancel_left' card_atLeastLessThan)
  finally show ?thesis using c by (simp add: committed_def opened_fields P)
qed

text \<open>
  Runs with a finite budget that neither fill the 256-segment ledger (a full one coalesces its two
  oldest segments and bills the gap between them, so a window may then be closed early) nor come
  within one budget of the 64-bit clock's end.
\<close>

definition room :: "u64 \<times> pgwt_daemon \<Rightarrow> bool" where
  "room s \<longleftrightarrow> (case s of (now, d) \<Rightarrow> \<not> budget_unlimited (d_escalation d) \<and>
     length (ledger (d_escalation d)) < PGWT_ESC_LEDGER_MAX \<and> unat now + unat (budget_ns (d_escalation d)) < 2 ^ 64)"

definition roomy_step :: "u64 \<times> pgwt_daemon \<Rightarrow> u64 \<times> pgwt_daemon \<Rightarrow> bool" where
  "roomy_step s t \<longleftrightarrow> esc_step s t \<and> room s \<and> room t"

definition budget_inv :: "u64 \<times> pgwt_daemon \<Rightarrow> bool" where
  "budget_inv s \<longleftrightarrow> esc_inv s \<and> (if esc_active (d_escalation (snd s)) then committed (d_escalation (snd s)) else True)"

lemma fresh_committed:
  assumes "esc_inv (k_t0 k, d)" and "\<not> esc_active (d_escalation d)" and "k_t0 k \<le> k_t1 k"
    and "pgwt_esc_budget_decide (d_escalation d) (k_t0 k) want = (Grant g, e')"
    and "\<not> budget_unlimited (d_escalation d)" "length (ledger (d_escalation d)) < PGWT_ESC_LEDGER_MAX"
    and "unat (k_t1 k) + unat (budget_ns (d_escalation d)) < 2 ^ 64"
    and "escalate_fresh k (d\<lparr>d_escalation := e'\<rparr>) g reason = (res, d')" and "esc_active (d_escalation d')"
  shows "committed (d_escalation d')"
proof -
  note D = esc_invD [OF assms(1)] and P = pruned_fields [OF decide_prunes [OF assms(4)]]
  have sh: "consumers (d_exact_core d) = 0" "\<not> d_exact_cpu_active d"
    using D(9) [OF assms(2)] by (simp_all add: window_shut_def Let_def)
  have c: "core_inv (d_exact_core (d\<lparr>d_escalation := e'\<rparr>))" "consumers (d_exact_core (d\<lparr>d_escalation := e'\<rparr>)) = 0"
    "\<not> d_exact_cpu_active (d\<lparr>d_escalation := e'\<rparr>)" using D(5) sh by simp_all
  show ?thesis
  proof (cases res)
    case (Inl f)
    then have "\<not> esc_active (d_escalation d')"
      using escalate_fresh_failure(1) [OF assms(8) [unfolded Inl] c] P(1) assms(2) by (simp add: failed_esc_def)
    with assms(9) show ?thesis by simp
  next
    case (Inr n)
    then have "d_escalation d' = opened_esc e' (k_t1 k) g reason"
      using escalate_fresh_success(1) [OF assms(8) [unfolded Inr] c(1,2)] by simp
    then show ?thesis
      using committed_fresh [OF D(4) assms(2,5,3,6,4,7)] by simp
  qed
qed

lemma fresh_budget:
  assumes "esc_inv (now, d)" and "\<not> esc_active (d_escalation d)" and "escalate_fresh k d g reason = (res, d')"
  shows "budget_ns (d_escalation d') = budget_ns (d_escalation d)"
proof -
  note D = esc_invD [OF assms(1)]
  have sh: "consumers (d_exact_core d) = 0" "\<not> d_exact_cpu_active d"
    using D(9) [OF assms(2)] by (simp_all add: window_shut_def Let_def)
  show ?thesis
    using escalate_fresh_failure(1) [OF _ D(5) sh] escalate_fresh_success(1) [OF _ D(5) sh(1)] assms(3)
    by (cases res) (auto simp: failed_esc_def opened_fields)
qed

lemma escalate_committed:
  assumes "budget_inv (now, d)" and "kernel_ok now k" and "room (now, d)"
    and "room (k_t2 k, snd (pgwt_escalate k d dur reason))"
    and "esc_active (d_escalation (snd (pgwt_escalate k d dur reason)))"
  shows "committed (d_escalation (snd (pgwt_escalate k d dur reason)))"
proof -
  note t = kernel_okD [OF assms(2)]
  let ?e = "d_escalation d" and ?d' = "snd (pgwt_escalate k d dur reason)"
  have i0: "esc_inv (k_t0 k, d)" using assms(1) esc_inv_later [OF _ t(1)] by (simp add: budget_inv_def)
  have old: "esc_active ?e \<Longrightarrow> committed ?e" using assms(1) by (simp add: budget_inv_def)
  obtain r e where dec: "pgwt_esc_budget_decide ?e (k_t0 k) (word_of_int dur * 1000000000) = (r, e)"
    by (cases "pgwt_esc_budget_decide ?e (k_t0 k) (word_of_int dur * 1000000000)")
  note pr = decide_prunes [OF dec] and P = pruned_fields [OF decide_prunes [OF dec]]
  have keep: "committed e" if "esc_active e" using committed_pruned [OF pr] old that P(1) by simp
  consider "\<not> esc_enabled ?e \<or> dur \<le> 0" | (deny) w where "esc_enabled ?e" "0 < dur" "r = Deny w"
    | (extend) g where "esc_enabled ?e" "0 < dur" "r = Grant g" "esc_active e"
    | (fresh) g where "esc_enabled ?e" "0 < dur" "r = Grant g" "\<not> esc_active e"
    by (cases r) force+
  then show ?thesis
  proof cases
    case 1
    then have "?d' = d" by (auto simp: pgwt_escalate_def)
    then show ?thesis using old assms(5) by simp
  next
    case deny
    then have "d_escalation ?d' = e\<lparr>denied_total := denied_total e + 1\<rparr>"
      using dec by (simp add: pgwt_escalate_def bump_denied_def)
    then show ?thesis using keep assms(5) by (simp add: committed_denied)
  next
    case extend
    then have "d_escalation ?d' = (if k_t0 k + g > window_deadline_ns e then e\<lparr>window_deadline_ns := k_t0 k + g\<rparr> else e)"
      using dec by (simp add: pgwt_escalate_def Let_def arm_deadline_def)
    moreover from this have "unat (k_t0 k) + unat (budget_ns ?e) < 2 ^ 64"
      using assms(4) t(5) P(9) by (auto simp: room_def word_le_nat_alt split: if_splits)
    ultimately show ?thesis
      using committed_extend [OF esc_invD(4) [OF i0] _ dec [unfolded extend(3)]] assms(3) keep extend(4)
      by (simp add: room_def)
  next
    case fresh
    obtain res d' where ef: "escalate_fresh k (d\<lparr>d_escalation := e\<rparr>) g reason = (res, d')"
      by (cases "escalate_fresh k (d\<lparr>d_escalation := e\<rparr>) g reason")
    then have d': "?d' = d'" using fresh dec by (simp add: pgwt_escalate_def Let_def)
    have na: "\<not> esc_active ?e" using fresh(4) P(1) by simp
    have bud: "budget_ns (d_escalation d') = budget_ns ?e"
      using fresh_budget [OF esc_inv_pruned [OF i0 pr] _ ef] fresh(4) P(9) by simp
    have "unat (k_t1 k) + unat (budget_ns ?e) < 2 ^ 64"
      using assms(4) t(3) bud by (auto simp: room_def word_le_nat_alt d')
    then show ?thesis
      using fresh_committed [OF i0 na t(2) dec [unfolded fresh(3)] _ _ _ ef] assms(3,5) by (simp add: room_def d')
  qed
qed

lemma deescalate_idle: "\<not> esc_active (d_escalation (pgwt_deescalate k d reason))"
  using deescalate_spec(1) [of d k reason] close_window_fields(1)
  by (cases "esc_active (d_escalation d)") (simp_all add: pgwt_deescalate_def)

lemma check_budget_committed:
  assumes "budget_inv (now, d)" and "esc_active (d_escalation (pgwt_escalation_check_budget k d))"
  shows "committed (d_escalation (pgwt_escalation_check_budget k d))"
proof -
  obtain over e where ov: "pgwt_esc_budget_over (d_escalation d) (k_t0 k) = (over, e)"
    by (cases "pgwt_esc_budget_over (d_escalation d) (k_t0 k)")
  show ?thesis
    using assms deescalate_idle committed_pruned [OF over_prunes [OF ov]] ov
    by (auto simp: pgwt_escalation_check_budget_def budget_inv_def Let_def split: if_splits)
qed

lemma budget_step_inv: "budget_inv s \<Longrightarrow> roomy_step s t \<Longrightarrow> budget_inv t"
proof -
  assume b: "budget_inv s" and st: "roomy_step s t"
  then have i: "esc_inv t" and r: "room s" "room t" using esc_step_inv [of s t] by (auto simp: budget_inv_def roomy_step_def)
  from st have "esc_step s t" by (simp add: roomy_step_def)
  then have "committed (d_escalation (snd t))" if "esc_active (d_escalation (snd t))"
    using that b r
  proof cases
    case (OnTimer now k d)
    then show ?thesis using that b deescalate_idle
      by (auto simp: pgwt_escalation_on_timer_def budget_inv_def split: if_splits)
  next
    case (Reconcile now d m)
    then show ?thesis using that b by (auto simp: pgwt_exact_probe_reconcile_sampled_def budget_inv_def)
  next
    case (Daemon now now' d d')
    then show ?thesis using that b by (auto simp: daemon_moves_def budget_inv_def)
  qed (auto simp: deescalate_idle intro: escalate_committed check_budget_committed)
  with i show ?thesis by (simp add: budget_inv_def)
qed

interpretation bud: invariant_system esc_start roomy_step budget_inv
proof unfold_locales
  fix s assume "esc_start s"
  then have "esc_inv s" "\<not> esc_active (d_escalation (snd s))"
    using esc_start_inv esc_start_idle by blast+
  then show "budget_inv s" by (simp add: budget_inv_def)
qed (rule budget_step_inv)

section \<open>Fresh windows that open\<close>

text \<open>When every kernel call of the opening succeeds, so does the opening.\<close>

lemma attach_loop_all:
  assumes "\<forall>i. \<exists>l. att i = Inr l"
  shows "fst (attach_loop att m js c nm)"
proof (induction js arbitrary: c nm)
  case (Cons i js)
  from assms obtain l where "att i = Inr l" by blast
  with Cons show ?case by simp
qed simp

lemma acquire_all:
  assumes "k_cfg_open k" and "\<forall>i. \<exists>l. k_attach k i = Inr l" and "consumers (d_exact_core d) = 0" and "g \<noteq> 0"
  shows "fst (pgwt_exact_probe_acquire k d g b)"
proof -
  have "fst (attach_missing (k_attach k) (d_exact_core d) m)" for m
    unfolding attach_missing_def by (rule attach_loop_all) (rule assms(2))
  then show ?thesis
    using assms(1,3,4)
    by (simp add: pgwt_exact_probe_acquire_def set_config_def pgwt_exact_probe_core_acquire_def Let_def
        case_prod_unfold split: bool.splits)
qed

lemma fresh_opens:
  assumes "k_cfg_open k" and "\<forall>i. \<exists>l. k_attach k i = Inr l" and "consumers (d_exact_core d) = 0"
    and "\<forall>d'. d_backends d' = d_backends d \<longrightarrow> fst (pgwt_exact_seed_all k d' (next_gen (d_escalation d)))"
  shows "fst (escalate_fresh k d g r) = Inr (ceil_s g)"
proof -
  let ?d = "begin_generation k d" and ?g = "next_gen (d_escalation d)"
  have b: "esc_generation (d_escalation ?d) = ?g" "d_backends ?d = d_backends d"
    by (simp_all add: begin_generation_def)
  have "fst (pgwt_exact_probe_acquire k ?d ?g (k_t1 k))"
    by (rule acquire_all [OF assms(1,2)]) (simp_all add: begin_generation_def assms(3) next_gen_nonzero)
  then obtain d2 where acq: "pgwt_exact_probe_acquire k ?d ?g (k_t1 k) = (True, d2)" by (metis (full_types) prod.collapse)
  have "d_backends (set_exact_cpu_active d2 True) = d_backends d"
    using probe_acquire_frame [OF acq] b(2) by (simp add: set_exact_cpu_active_def)
  then have "fst (pgwt_exact_seed_all k (set_exact_cpu_active d2 True) ?g)" using assms(4) by blast
  then show ?thesis using acq by (auto simp: escalate_fresh_def b Let_def split: prod.splits bool.splits)
qed

section \<open>A concrete run\<close>

text \<open>Every kernel call succeeds and the clock reads t, t + 1, t + 2.\<close>

definition run_kernel :: "u64 \<Rightarrow> kernel" where
  "run_kernel t = \<lparr>k_t0 = t, k_t1 = t + 1, k_t2 = t + 2, k_seed_ts = (\<lambda>_. t + 1), k_attach = (\<lambda>i. Inr i),
     k_cfg_open = True, k_cfg_undo = True, k_cfg_quiesce = True, k_cfg_release = True, k_wp_open = (\<lambda>_. 9),
     k_wp_enable = (\<lambda>_. True), k_seed_update = (\<lambda>_. True), k_state_update = (\<lambda>_. True),
     k_read_attr = (\<lambda>_. Some \<lparr>sa_query_id = 5, sa_cmd_open = 1, sa_synth = None\<rparr>),
     k_cmd_gate = (\<lambda>_ g. g), k_proc_alive = (\<lambda>_. True), k_backend_type = (\<lambda>_. Some PGWT_BT_CLIENT),
     k_read_wei = (\<lambda>_. Some 0), k_read_qid = (\<lambda>_. 5), k_in_command = (\<lambda>_. True), k_ring = []\<rparr>"

definition run_start :: pgwt_daemon where
  "run_start = snd (pgwt_escalation_init (Some 3) (sample_daemon []) 600)"

definition run_open :: pgwt_daemon where
  "run_open = snd (pgwt_escalate (run_kernel 1000) run_start 60 ESC_REASON_MANUAL)"

lemma run_start_start: "esc_start (1, run_start)"
proof -
  have "d_tiered (sample_daemon [])" by (simp add: sample_daemon_def)
  then have "pgwt_escalation_init (Some 3) (sample_daemon []) 600 = (True, run_start)"
    by (simp add: run_start_def pgwt_escalation_init_def)
  moreover have "core_inv (d_exact_core run_start)" "consumers (d_exact_core run_start) = 0"
    using core_inv_init by (simp_all add: run_start_def pgwt_escalation_init_def sample_daemon_def)
      (simp add: core_init_def)
  moreover have "\<not> d_exact_cpu_active run_start" "d_timer run_start = None" "no_fds run_start"
    "d_drain_limit run_start = 0" "recording run_start" "trace_log run_start = []"
    by (simp_all add: run_start_def pgwt_escalation_init_def sample_daemon_def no_fds_def recording_def trace_log_def)
  moreover have "d_tiered (sample_daemon []) \<and> (0 :: int) \<le> 3" by (simp add: sample_daemon_def)
  ultimately show ?thesis 
    unfolding esc_start_def prod.case
    by (intro conjI exI [of _ "sample_daemon []"] exI [of _ "3 :: int"] exI [of _ "600 :: int"]) simp_all
qed

lemma run_kernel_ok: "now \<le> t \<Longrightarrow> t \<le> 1000000 \<Longrightarrow> kernel_ok now (run_kernel t)"
  by (auto simp: kernel_ok_def run_kernel_def word_le_nat_alt unat_word_ariths)

lemma run_start_fields:
  "esc_enabled (d_escalation run_start)" "\<not> esc_active (d_escalation run_start)"
  "budget_ns (d_escalation run_start) = 600000000000" "\<not> budget_unlimited (d_escalation run_start)"
  "ledger (d_escalation run_start) = []" "d_backends run_start = []" "consumers (d_exact_core run_start) = 0"
  "core_inv (d_exact_core run_start)" "rolling_window_ns (d_escalation run_start) = 3600000000000"
  using core_inv_init
  by (simp_all add: run_start_def pgwt_escalation_init_def sample_daemon_def zero_escalation_def) (simp add: core_init_def)

lemma run_decide:
  "pgwt_esc_budget_decide (d_escalation run_start) 1000 60000000000 = (Grant 60000000000, d_escalation run_start)"
  by (simp add: pgwt_esc_budget_decide_def pgwt_esc_budget_consumed_ns_def run_start_fields esc_window_start_def Let_def)

lemma run_escalate:
  "fst (pgwt_escalate (run_kernel 1000) run_start 60 r) = Inr (ceil_s 60000000000)"
  "d_escalation (snd (pgwt_escalate (run_kernel 1000) run_start 60 r)) =
     opened_esc (d_escalation run_start) 1001 60000000000 r"
proof -
  have "pgwt_escalate (run_kernel 1000) run_start 60 r = escalate_fresh (run_kernel 1000) run_start 60000000000 r"
    using run_decide by (simp add: pgwt_escalate_def run_start_fields) (simp add: run_kernel_def run_start_fields)
  moreover have f: "fst (escalate_fresh (run_kernel 1000) run_start 60000000000 r) = Inr (ceil_s 60000000000)"
    by (rule fresh_opens) (simp_all add: run_kernel_def run_start_fields pgwt_exact_seed_all_def)
  moreover have "escalate_fresh (run_kernel 1000) run_start 60000000000 r =
      (Inr (ceil_s 60000000000), snd (escalate_fresh (run_kernel 1000) run_start 60000000000 r))"
    using f by (simp add: prod_eq_iff)
  note escalate_fresh_success(1) [OF this]
  ultimately show "fst (pgwt_escalate (run_kernel 1000) run_start 60 r) = Inr (ceil_s 60000000000)"
    "d_escalation (snd (pgwt_escalate (run_kernel 1000) run_start 60 r)) =
       opened_esc (d_escalation run_start) 1001 60000000000 r"
    by (simp_all add: run_start_fields) (simp add: run_kernel_def)
qed

lemma run_open_eq:
  "d_escalation run_open = opened_esc (d_escalation run_start) 1001 60000000000 ESC_REASON_MANUAL"
  by (simp add: run_open_def run_escalate)

lemma run_step: "esc_step (1, run_start) (1002, run_open)"
  using esc_step.Escalate [OF run_kernel_ok, of 1 1000 run_start 60 ESC_REASON_MANUAL]
  by (simp add: run_open_def) (simp add: run_kernel_def)

section \<open>Properties\<close>

lemma core_idle_mask:
  assumes "core_inv c" and "consumers c = 0"
  shows "attached_mask c = pinned_mask c"
  using assms by (intro bit_word_eqI) (auto simp: core_inv_def pins_ok_def no_transients_def)

text \<open>
  C1: In every state the engine can reach from a successful initialisation, with its operations and the
  rest of the daemon interleaved in any order and any kernel call failing or succeeding, an open window
  has a nonzero generation that the probe bundle carries for exactly one consumer, the exact CPU flag, one
  open ledger segment that is the last, and the timer on its deadline; with no window open there is no
  generation, no consumer, no probe beyond the pinned ones, no exact CPU accounting, no open segment, no
  armed timer and no watchpoint. The ledger never exceeds its 256 slots, and the start and end markers of
  the trace alternate, never go back in time and end in the state the engine is in.
\<close>

theorem escalation_run_invariant:
  assumes "esc_start s" and "esc_step\<^sup>*\<^sup>* s (now, d)"
  shows "let e = d_escalation d; c = d_exact_core d in
    (if esc_active e
     then esc_generation e \<noteq> 0 \<and> core_generation c = esc_generation e \<and> consumers c = 1 \<and>
       d_exact_cpu_active d \<and> (\<exists>gs. ledger e = gs @ [open_seg (window_start_ns e)] \<and> all_closed gs) \<and>
       d_timer d = (if window_deadline_ns e = 0 then None else Some (window_deadline_ns e))
     else esc_generation e = 0 \<and> consumers c = 0 \<and> attached_mask c = pinned_mask c \<and>
       \<not> d_exact_cpu_active d \<and> all_closed (ledger e) \<and> d_timer d = None \<and> no_fds d) \<and>
    length (ledger e) \<le> PGWT_ESC_LEDGER_MAX \<and>
    (\<exists>t \<le> now. marks_run (False, 0) (window_marks (trace_log d)) = Some (esc_active e, t))"
proof -
  note D = esc_invD [OF esc.reachable_inv [OF assms]]
  have "attached_mask (d_exact_core d) = pinned_mask (d_exact_core d)" if "\<not> esc_active (d_escalation d)"
    using core_idle_mask [OF D(5)] D(9) [OF that] by (simp add: window_shut_def Let_def)
  then show ?thesis
    using D(4,7-9) by (auto simp: ledger_ok_def ledger_shape_def marks_ok_def window_open_def window_shut_def Let_def)
qed

theorem escalation_run_invariant_witness:
  "esc_active (d_escalation run_open) \<and> esc_generation (d_escalation run_open) \<noteq> 0 \<and>
   consumers (d_exact_core run_open) = 1 \<and> d_exact_cpu_active run_open \<and>
   d_timer run_open = Some 60000001001"
  using escalation_run_invariant [OF run_start_start r_into_rtranclp [of esc_step, OF run_step]]
  by (simp add: run_open_eq opened_fields Let_def)

text \<open>
  C2: With a finite budget, ledger slots left and the 64-bit clock not near its end, every window that can
  be open in a reachable state stays within the budget if it runs to its deadline: the time billed over the
  rolling hour that ends at the deadline, the open window included, is at most the budget, extensions
  included; and a timer tick at or after the deadline closes it.
\<close>

theorem escalation_deadline_within_budget:
  assumes "esc_start s" and "roomy_step\<^sup>*\<^sup>* s (now, d)" and "esc_active (d_escalation d)"
    and "window_deadline_ns (d_escalation d) \<le> k_t0 k"
  shows "card (billed (d_escalation d) (window_deadline_ns (d_escalation d))) \<le> unat (budget_ns (d_escalation d)) \<and>
    \<not> esc_active (d_escalation (pgwt_escalation_on_timer k d))"
  using bud.reachable_inv [OF assms(1,2)] assms(3,4) deescalate_idle
  by (simp add: budget_inv_def committed_def pgwt_escalation_on_timer_def)

theorem escalation_deadline_within_budget_witness:
  "card (billed (d_escalation run_open) 60000001001) \<le> 600000000000 \<and>
   \<not> esc_active (d_escalation (pgwt_escalation_on_timer (run_kernel 60000001001) run_open))"
proof -
  have "roomy_step (1, run_start) (1002, run_open)"
    using run_step by (simp add: roomy_step_def room_def run_start_fields run_open_eq opened_fields opened_ledger)
  from escalation_deadline_within_budget
    [OF run_start_start r_into_rtranclp [of roomy_step, OF this], of "run_kernel 60000001001"]
  show ?thesis by (simp add: run_open_eq opened_fields run_start_fields) (simp add: run_kernel_def)
qed

text \<open>
  C3: An escalation request that fails, whether refused or undone after a failed attach or preseed,
  leaves nothing behind: the attached probes and their links, the consumer count, the exact CPU flag, the
  timer, every backend's watchpoints, the trace, the window in force and the billed time are as before.
\<close>

theorem escalate_failure_no_residue:
  assumes "esc_start s" and "esc_step\<^sup>*\<^sup>* s (now, d)" and "now \<le> k_t0 k"
    and "pgwt_escalate k d dur reason = (Inl f, d')"
  shows "links (d_exact_core d') = links (d_exact_core d) \<and>
    attached_mask (d_exact_core d') = attached_mask (d_exact_core d) \<and>
    consumers (d_exact_core d') = consumers (d_exact_core d) \<and>
    d_exact_cpu_active d' = d_exact_cpu_active d \<and> d_timer d' = d_timer d \<and> same_fds d d' \<and>
    trace_log d' = trace_log d \<and> esc_active (d_escalation d') = esc_active (d_escalation d) \<and>
    esc_generation (d_escalation d') = esc_generation (d_escalation d) \<and>
    window_deadline_ns (d_escalation d') = window_deadline_ns (d_escalation d) \<and>
    billed (d_escalation d') (k_t0 k) = billed (d_escalation d) (k_t0 k)"
proof -
  note D = esc_invD [OF esc.reachable_inv [OF assms(1,2)]]
  let ?w = "word_of_int dur * 1000000000"
  obtain r e where dec: "pgwt_esc_budget_decide (d_escalation d) (k_t0 k) ?w = (r, e)"
    by (cases "pgwt_esc_budget_decide (d_escalation d) (k_t0 k) ?w")
  note P = pruned_fields [OF decide_prunes [OF dec]]
  have bl: "billed e (k_t0 k) = billed (d_escalation d) (k_t0 k)"
    using decide_prunes [OF dec] billed_prune by (auto simp: pruned_of_def)
  consider "d' = d" | "d' = bump_denied (d\<lparr>d_escalation := e\<rparr>)" |
    g where "\<not> esc_active e" "escalate_fresh k (d\<lparr>d_escalation := e\<rparr>) g reason = (Inl f, d')"
    using assms(4) dec by (auto simp: pgwt_escalate_def Let_def split: if_splits esc_decision.splits)
  then show ?thesis
  proof cases
    case 1
    then show ?thesis by (simp add: same_fds_def)
  next
    case 2
    moreover have "billed (e\<lparr>denied_total := denied_total e + 1\<rparr>) (k_t0 k) = billed e (k_t0 k)"
      by (simp add: billed_def esc_window_start_def)
    ultimately show ?thesis using P bl by (simp add: bump_denied_def same_fds_def trace_log_def)
  next
    case 3
    then have sh: "consumers (d_exact_core d) = 0" "\<not> d_exact_cpu_active d" "esc_generation (d_escalation d) = 0"
      using D(9) P(1) by (simp_all add: window_shut_def Let_def)
    note F = escalate_fresh_failure [OF 3(2), simplified, OF D(5) sh(1,2)]
    have "billed (failed_esc e) (k_t0 k) = billed e (k_t0 k)" by (simp add: failed_esc_def billed_def esc_window_start_def)
    then show ?thesis using F(1-9) sh P bl by (simp add: failed_esc_def same_fds_def trace_log_def)
  qed
qed

theorem escalate_failure_no_residue_witness:
  "let k = (run_kernel 1000)\<lparr>k_cfg_open := False\<rparr>; (r, d') = pgwt_escalate k run_start 60 ESC_REASON_MANUAL in
     r = Inl PGWT_ESC_FAIL_EXACT_ATTACH \<and> denied_total (d_escalation d') = 1 \<and>
     attached_mask (d_exact_core d') = 0 \<and> d_timer d' = None \<and> trace_log d' = []"
proof -
  let ?k = "(run_kernel 1000)\<lparr>k_cfg_open := False\<rparr>"
  define d' where "d' = bump_denied (end_generation (begin_generation ?k run_start))"
  have kk: "k_t0 ?k = 1000" "\<not> k_cfg_open ?k" by (simp_all add: run_kernel_def)
  have e: "pgwt_escalate ?k run_start 60 ESC_REASON_MANUAL = (Inl PGWT_ESC_FAIL_EXACT_ATTACH, d')"
    using run_decide
    by (simp add: pgwt_escalate_def run_start_fields kk escalate_fresh_def pgwt_exact_probe_acquire_def
        set_config_def d'_def Let_def)
  have "denied_total (d_escalation d') = 1" "attached_mask (d_exact_core run_start) = 0"
    "d_timer run_start = None" "trace_log run_start = []"
    by (simp_all add: d'_def bump_denied_def end_generation_def begin_generation_def run_start_def
        pgwt_escalation_init_def sample_daemon_def zero_escalation_def trace_log_def) (simp add: core_init_def)
  with escalate_failure_no_residue [OF run_start_start rtranclp.rtrancl_refl _ e] e kk(1)
  show ?thesis by (simp add: Let_def)
qed

text \<open>
  C4: Closing a window writes to the trace exactly, in this order: the events still in the kernel's ring,
  one record for each backend's still-open interval, the terminal markers of the commands in progress, and
  the end marker with the elapsed time and the reason, all stamped with the closing time; afterwards no
  watchpoint is attached, the segment is closed at that time, the timer is off, and the window's seeds
  are gone.
\<close>

theorem deescalate_trace_exact:
  assumes "esc_active (d_escalation d)" and "recording d" and "d_drain_limit d = 0"
    and "ledger (d_escalation d) = gs @ [open_seg w]" and "esc_timer_fd (d_escalation d) \<ge> 0"
  shows "let d' = pgwt_deescalate k d reason; now = k_t1 k; e = d_escalation d in
     trace_log d' = trace_log d @ map (stored d)
       (k_ring k @ concat (map (open_records d now) (d_backends d)) @ concat (map (end_records d now) (d_backends d)) @
        [window_marker PGWT_MARKER_ESCALATE_END now (now - window_start_ns e) reason]) \<and>
     no_fds d' \<and> ledger (d_escalation d') = gs @ [\<lparr>start_ns = w, end_ns = now\<rparr>] \<and> d_timer d' = None \<and>
     \<not> esc_active (d_escalation d') \<and> \<not> d_exact_cpu_active d' \<and>
     (\<nexists>p sd. d_exact_seed_map d' p = Some sd \<and> seed_generation sd = esc_generation e)"
proof -
  note S = deescalate_spec [OF assms(1), where k = k and reason = reason]
  have "ledger (close_window (d_escalation d) (k_t1 k)) = gs @ [\<lparr>start_ns = w, end_ns = k_t1 k\<rparr>]"
    using assms(4) by (simp add: close_window_def pgwt_esc_ledger_close_def)
  then show ?thesis
    using S(1,3,4,5,7) S(6) [OF assms(3)] assms(2,5) by (auto simp: Let_def traced_def close_window_fields)
qed

text \<open>A backend in a client-read wait since 1500, its watchpoint attached by the window opened at 1001.\<close>

definition closing_backend :: pgwt_backend where
  "closing_backend = \<lparr>be_pid = 7, be_wp_fd = 9, be_wp_enabled = True, be_bootstrap_fd = - 1,
     be_bootstrap_enabled = False, be_wp_addr = 4096, be_attach_ts = 1001, be_is_alive = True,
     be_meta_parsed = True, be_backend_type = PGWT_BT_CLIENT\<rparr>"

definition closing_daemon :: pgwt_daemon where
  "closing_daemon = (sample_daemon [closing_backend])
     \<lparr>d_escalation := opened_esc idle_escalation 1001 60000000000 ESC_REASON_MANUAL,
      d_state_map := (\<lambda>p. if p = 7 then Some \<lparr>last_event = 0x0A000003, wp_live = 1, st_cmd_open = 1, last_ts = 1500,
        last_query_id = 5, be_entry_ptr = 0, wait_event_addr = 4096, st_cpu_ns_total = 0, on_cpu_ts = 0,
        last_cpu_ns = 0\<rparr> else None)\<rparr>"

theorem deescalate_trace_exact_witness:
  "let d' = pgwt_deescalate ((run_kernel 2000)\<lparr>k_ring := stream_events\<rparr>) closing_daemon ESC_REASON_EXPIRED in
     length (trace_log d') = length stream_events + 2 \<and>
     ledger (d_escalation d') = [\<lparr>start_ns = 1001, end_ns = 2001\<rparr>] \<and> no_fds d' \<and> d_timer d' = None"
proof -
  let ?k = "(run_kernel 2000)\<lparr>k_ring := stream_events\<rparr>"
  have l: "ledger (d_escalation closing_daemon) = [] @ [open_seg 1001]"
    by (simp add: closing_daemon_def opened_ledger idle_escalation_def)
  have c: "esc_active (d_escalation closing_daemon)" "recording closing_daemon" "d_drain_limit closing_daemon = 0"
    "esc_timer_fd (d_escalation closing_daemon) \<ge> 0" "d_backends closing_daemon = [closing_backend]"
    "trace_log closing_daemon = []"
    by (simp_all add: closing_daemon_def opened_fields sample_daemon_def recording_def trace_log_def idle_escalation_def)
  have o: "length (open_records closing_daemon 2001 closing_backend) = 1" by code_simp
  have n: "end_records closing_daemon 2001 closing_backend = []" by code_simp
  have t: "k_t1 ?k = 2001" "k_ring ?k = stream_events" by (simp_all add: run_kernel_def)
  from deescalate_trace_exact [OF c(1-3) l c(4), of ?k ESC_REASON_EXPIRED] o n c(5,6) t
  show ?thesis by (simp add: Let_def)
qed

end
