(* ===== verification/Anomaly.thy ===== *)
theory Anomaly
  imports Complex_Main Escalation_Run
begin

text \<open>
  The anomaly rules of src/src/anomaly.c: the metrics of a sampler batch, the rule state, one evaluation
  (CPU saturation, active sessions against a baseline, lock share, cooldown), the retry after a failed
  setup and the tick that turns a decision into a request to the escalation engine. The C doubles are a
  type parameter and their operations a record of functions about which nothing is assumed, so what is
  proved holds for IEEE arithmetic with its rounding and its exceptional values. Streaks are integers:
  they agree with the C ints for the first 2 to the 31st consecutive ticks. Log lines are left out.
\<close>

section \<open>Doubles\<close>

text \<open>\<open>fp_lit n d\<close> is the double of the decimal literal n/d; \<open>fp_trunc\<close> the conversion to int.\<close>

record 'f fp =
  fp_lit :: "int \<Rightarrow> int \<Rightarrow> 'f"
  fp_of_int :: "int \<Rightarrow> 'f"
  fp_trunc :: "'f \<Rightarrow> int"
  fp_add :: "'f \<Rightarrow> 'f \<Rightarrow> 'f"
  fp_sub :: "'f \<Rightarrow> 'f \<Rightarrow> 'f"
  fp_mul :: "'f \<Rightarrow> 'f \<Rightarrow> 'f"
  fp_div :: "'f \<Rightarrow> 'f \<Rightarrow> 'f"
  fp_less :: "'f \<Rightarrow> 'f \<Rightarrow> bool"
  fp_leq :: "'f \<Rightarrow> 'f \<Rightarrow> bool"

definition fp_zero :: "'f fp \<Rightarrow> 'f" where
  "fp_zero F = fp_lit F 0 1"

section \<open>State and decisions\<close>

datatype pgwt_anomaly_action = PGWT_ANOMALY_NONE | PGWT_ANOMALY_NEAR | PGWT_ANOMALY_FIRE

definition PGWT_NEAR_AAS_SUSTAIN :: u32 where "PGWT_NEAR_AAS_SUSTAIN = 1"
definition PGWT_NEAR_LOCK_SUSTAIN :: u32 where "PGWT_NEAR_LOCK_SUSTAIN = 2"
definition PGWT_NEAR_COOLDOWN :: u32 where "PGWT_NEAR_COOLDOWN = 4"
definition PGWT_NEAR_BASELINE :: u32 where "PGWT_NEAR_BASELINE = 8"
definition PGWT_NEAR_CPU_SUSTAIN :: u32 where "PGWT_NEAR_CPU_SUSTAIN = 16"
definition PGWT_RULE_AAS :: u32 where "PGWT_RULE_AAS = 1"
definition PGWT_RULE_LOCK :: u32 where "PGWT_RULE_LOCK = 2"
definition PGWT_RULE_CPU_SATURATION :: u32 where "PGWT_RULE_CPU_SATURATION = 4"

lemmas near_ids = PGWT_NEAR_AAS_SUSTAIN_def PGWT_NEAR_LOCK_SUSTAIN_def PGWT_NEAR_COOLDOWN_def PGWT_NEAR_BASELINE_def
  PGWT_NEAR_CPU_SUSTAIN_def
lemmas rule_ids = PGWT_RULE_AAS_def PGWT_RULE_LOCK_def PGWT_RULE_CPU_SATURATION_def

record 'f pgwt_anomaly_observation =
  ob_aas :: 'f
  ob_lock_fraction :: 'f
  ob_cpu_aas :: 'f
  ob_cpu_capacity :: 'f
  ob_cpu_capacity_affinity_only :: bool
  ob_cpu_coverage_ok :: bool
  ob_cpu_capacity_changed :: bool
  ob_cpu_guard_blocked :: bool

record 'f pgwt_anomaly_decision =
  de_action :: pgwt_anomaly_action
  de_near_mask :: u32
  de_fired_mask :: u32
  de_aas :: 'f
  de_baseline :: 'f
  de_lock_fraction :: 'f
  de_cpu_aas :: 'f
  de_cpu_capacity :: 'f
  de_cpu_cusum :: 'f

record 'f pgwt_anomaly =
  an_enabled :: bool
  an_aas_factor :: 'f
  an_aas_ticks :: int
  an_lock_fraction :: 'f
  an_lock_min_aas :: 'f
  an_lock_ticks :: int
  an_cooldown_ns :: u64
  an_escalation_s :: int
  an_cpu_cusum_enabled :: bool
  an_cpu_min_aas :: 'f
  an_cpu_margin :: 'f
  an_cpu_cusum_k :: 'f
  an_cpu_cusum_h :: 'f
  an_cpu_cusum_cap :: 'f
  an_sample_period_s :: 'f
  an_cpu_cusum :: 'f
  an_cpu_armed :: bool
  an_setup_retries :: u32
  an_setup_retry_after_ns :: u64
  an_setup_retry_rules :: u32
  an_cpu_coverage_gap_reset_s :: 'f
  an_cpu_coverage_gap_reset_ticks :: int
  an_cpu_coverage_gap_ticks :: int
  an_learn_through_ticks :: int
  an_slow_release_div :: int
  an_baseline_aas :: 'f
  an_baseline_alpha :: 'f
  an_baseline_warmup :: int
  an_warmup_needed :: int
  an_aas_over_streak :: int
  an_lock_over_streak :: int
  an_last_fire_ns :: u64
  an_last_near_mask :: u32
  an_last_near_log_ns :: u64
  an_near_since_log :: u64
  an_fires_total :: u64
  an_cpu_saturation_fires_total :: u64
  an_near_total :: u64
  an_dropped_budget :: u64
  an_dropped_cooldown :: u64

definition PGWT_ANOMALY_SETUP_MAX_RETRIES :: u32 where [simp]: "PGWT_ANOMALY_SETUP_MAX_RETRIES = 3"
definition PGWT_ANOMALY_SETUP_RETRY_S :: u64 where [simp]: "PGWT_ANOMALY_SETUP_RETRY_S = 3"

section \<open>Metrics of a batch\<close>

fun count_batch :: "idle_state \<Rightarrow> pgwt_trace_event list \<Rightarrow> int \<times> int \<times> int \<Rightarrow> int \<times> int \<times> int" where
  "count_batch r [] n = n"
| "count_batch r (ev # evs) (active, locks, cpu) =
     (let we = new_event ev in
      if flags ev AND PGWT_EVENT_FLAG_IO_WORKER \<noteq> 0 then count_batch r evs (active, locks, cpu)
      else if we \<noteq> 0 \<and> pgwt_is_idle_event r we then count_batch r evs (active, locks, cpu)
      else count_batch r evs (active + 1, if WE_CLASS we = PG_WAIT_LOCK then locks + 1 else locks,
                              if we = 0 then cpu + 1 else cpu))"

text \<open>(active sessions, lock fraction, CPU sessions)\<close>

definition pgwt_anomaly_metrics_from_batch :: "'f fp \<Rightarrow> idle_state \<Rightarrow> pgwt_trace_event list \<Rightarrow> 'f \<times> 'f \<times> 'f" where
  "pgwt_anomaly_metrics_from_batch F r samples =
     (let (active, locks, cpu) = count_batch r samples (0, 0, 0)
      in (fp_of_int F active,
          if active > 0 then fp_div F (fp_of_int F locks) (fp_of_int F active) else fp_zero F,
          fp_of_int F cpu))"

section \<open>Initialisation\<close>

definition INT_MAX_i :: int where "INT_MAX_i = 2147483647"

definition pgwt_anomaly_set_cpu_coverage_gap_s :: "'f fp \<Rightarrow> 'f pgwt_anomaly \<Rightarrow> 'f \<Rightarrow> 'f pgwt_anomaly" where
  "pgwt_anomaly_set_cpu_coverage_gap_s F a gap_s =
     (let gap_s = (if \<not> fp_less F (fp_zero F) gap_s then fp_lit F 2 1 else gap_s);
          ticks = fp_div F gap_s (an_sample_period_s a);
          reset_ticks =
            (if fp_leq F (fp_of_int F INT_MAX_i) ticks then INT_MAX_i
             else let n = fp_trunc F ticks;
                      n = (if fp_less F (fp_lit F 1 1000000000) (fp_sub F ticks (fp_of_int F n)) then n + 1 else n)
                  in if n < 1 then 1 else n)
      in a\<lparr>an_cpu_coverage_gap_reset_s := gap_s, an_cpu_coverage_gap_reset_ticks := reset_ticks\<rparr>)"

definition pgwt_anomaly_init :: "'f fp \<Rightarrow> bool \<Rightarrow> int \<Rightarrow> 'f pgwt_anomaly" where
  "pgwt_anomaly_init F enabled sample_rate_hz =
     (let hz = (if sample_rate_hz > 0 then sample_rate_hz else 10);
          one = fp_lit F 1 1;
          half_life = fp_mul F (fp_lit F 60 1) (fp_of_int F hz);
          half_life = (if fp_less F half_life one then one else half_life);
          a = \<lparr>an_enabled = enabled, an_aas_factor = fp_lit F 3 1, an_aas_ticks = 3, an_lock_fraction = fp_lit F 30 100,
               an_lock_min_aas = fp_lit F 2 1, an_lock_ticks = 3, an_cooldown_ns = 120 * 1000000000,
               an_escalation_s = 60, an_cpu_cusum_enabled = True, an_cpu_min_aas = fp_lit F 2 1,
               an_cpu_margin = fp_lit F 2 100, an_cpu_cusum_k = fp_lit F 80 100, an_cpu_cusum_h = fp_lit F 150 100,
               an_cpu_cusum_cap = fp_lit F 125 100, an_sample_period_s = fp_div F one (fp_of_int F hz),
               an_cpu_cusum = fp_zero F, an_cpu_armed = True, an_setup_retries = 0, an_setup_retry_after_ns = 0,
               an_setup_retry_rules = 0, an_cpu_coverage_gap_reset_s = fp_zero F,
               an_cpu_coverage_gap_reset_ticks = 0, an_cpu_coverage_gap_ticks = 0,
               an_learn_through_ticks = 0, an_slow_release_div = 10, an_baseline_aas = fp_zero F,
               an_baseline_alpha = fp_zero F, an_baseline_warmup = 0, an_warmup_needed = 0,
               an_aas_over_streak = 0, an_lock_over_streak = 0, an_last_fire_ns = 0, an_last_near_mask = 0,
               an_last_near_log_ns = 0, an_near_since_log = 0, an_fires_total = 0,
               an_cpu_saturation_fires_total = 0, an_near_total = 0, an_dropped_budget = 0, an_dropped_cooldown = 0\<rparr>;
          a = pgwt_anomaly_set_cpu_coverage_gap_s F a (fp_lit F 2 1)
      in a\<lparr>an_baseline_alpha := fp_div F one half_life, an_warmup_needed := 5 * hz, an_baseline_aas := fp_zero F,
           an_baseline_warmup := 0, an_learn_through_ticks := 15 * 60 * hz\<rparr>)"

section \<open>One evaluation\<close>

definition in_cooldown :: "'f pgwt_anomaly \<Rightarrow> u64 \<Rightarrow> bool" where
  "in_cooldown a now \<longleftrightarrow> an_last_fire_ns a \<noteq> 0 \<and> now - an_last_fire_ns a < an_cooldown_ns a"

definition in_setup_retry_backoff :: "'f pgwt_anomaly \<Rightarrow> u64 \<Rightarrow> bool" where
  "in_setup_retry_backoff a now \<longleftrightarrow> an_setup_retry_after_ns a \<noteq> 0 \<and> now < an_setup_retry_after_ns a"

text \<open>The sentinel PGWT_ANOMALY_DISABLE_AAS_FACTOR.\<close>

definition aas_rule_on :: "'f fp \<Rightarrow> 'f pgwt_anomaly \<Rightarrow> bool" where
  "aas_rule_on F a \<longleftrightarrow> fp_less F (an_aas_factor a) (fp_lit F 1000000 1)"

definition capacity_known :: "'f fp \<Rightarrow> 'f pgwt_anomaly_observation \<Rightarrow> bool" where
  "capacity_known F ob \<longleftrightarrow> fp_less F (fp_zero F) (ob_cpu_capacity ob)"

definition cpu_reference :: "'f fp \<Rightarrow> 'f pgwt_anomaly \<Rightarrow> 'f pgwt_anomaly_observation \<Rightarrow> 'f" where
  "cpu_reference F a ob = (if ob_cpu_capacity_affinity_only ob then fp_add F (an_cpu_cusum_k a) (an_cpu_margin a)
     else an_cpu_cusum_k a)"

definition cpu_u :: "'f fp \<Rightarrow> 'f pgwt_anomaly \<Rightarrow> 'f pgwt_anomaly_observation \<Rightarrow> 'f" where
  "cpu_u F a ob =
     (if capacity_known F ob
      then let u = fp_div F (ob_cpu_aas ob) (ob_cpu_capacity ob);
               u = (if fp_less F u (fp_zero F) then fp_zero F else u)
           in if fp_less F (an_cpu_cusum_cap a) u then an_cpu_cusum_cap a else u
      else fp_zero F)"

definition saturation_lower_bound :: "'f fp \<Rightarrow> 'f pgwt_anomaly \<Rightarrow> 'f pgwt_anomaly_observation \<Rightarrow> bool" where
  "saturation_lower_bound F a ob \<longleftrightarrow> capacity_known F ob \<and> fp_leq F (cpu_reference F a ob) (cpu_u F a ob)"

definition trusted_below_reference :: "'f fp \<Rightarrow> 'f pgwt_anomaly \<Rightarrow> 'f pgwt_anomaly_observation \<Rightarrow> bool" where
  "trusted_below_reference F a ob \<longleftrightarrow>
     capacity_known F ob \<and> ob_cpu_coverage_ok ob \<and> fp_less F (cpu_u F a ob) (an_cpu_cusum_k a)"

text \<open>Recovery re-arms; a blind observation advances the gap and at its end drops the evidence.\<close>

definition cpu_observe :: "'f fp \<Rightarrow> 'f pgwt_anomaly \<Rightarrow> 'f pgwt_anomaly_observation \<Rightarrow> 'f pgwt_anomaly" where
  "cpu_observe F a ob =
     (let slb = saturation_lower_bound F a ob;
          blind = (\<not> capacity_known F ob \<or> (\<not> ob_cpu_coverage_ok ob \<and> \<not> slb));
          a = (if trusted_below_reference F a ob then a\<lparr>an_cpu_armed := True\<rparr> else a)
      in if blind
         then let a = (if an_cpu_coverage_gap_ticks a < an_cpu_coverage_gap_reset_ticks a
                       then a\<lparr>an_cpu_coverage_gap_ticks := an_cpu_coverage_gap_ticks a + 1\<rparr> else a)
              in if an_cpu_coverage_gap_ticks a \<ge> an_cpu_coverage_gap_reset_ticks a
                 then a\<lparr>an_cpu_cusum := fp_zero F\<rparr> else a
         else a\<lparr>an_cpu_coverage_gap_ticks := 0\<rparr>)"

text \<open>(state, fires, climbed)\<close>

definition cpu_accumulate :: "'f fp \<Rightarrow> 'f pgwt_anomaly \<Rightarrow> 'f pgwt_anomaly_observation \<Rightarrow> bool
    \<Rightarrow> 'f pgwt_anomaly \<times> bool \<times> bool" where
  "cpu_accumulate F a ob held =
     (let slb = saturation_lower_bound F a ob; u = cpu_u F a ob; reference = cpu_reference F a ob in
      if ob_cpu_capacity_changed ob \<or> ob_cpu_guard_blocked ob \<or> held then (a\<lparr>an_cpu_cusum := fp_zero F\<rparr>, False, False)
      else if \<not> (an_cpu_cusum_enabled a \<and> aas_rule_on F a) then (a\<lparr>an_cpu_cusum := fp_zero F\<rparr>, False, False)
      else if capacity_known F ob \<and> (ob_cpu_coverage_ok ob \<or> slb) then
        (if \<not> an_cpu_armed a
         then let a = a\<lparr>an_cpu_cusum := fp_zero F\<rparr>
              in (if ob_cpu_coverage_ok ob \<and> fp_less F u (an_cpu_cusum_k a) then a\<lparr>an_cpu_armed := True\<rparr> else a,
                  False, False)
         else let s = fp_add F (an_cpu_cusum a) (fp_mul F (an_sample_period_s a) (fp_sub F u reference));
                  s = (if fp_less F s (fp_zero F) then fp_zero F else s)
              in (a\<lparr>an_cpu_cusum := s\<rparr>,
                  fp_leq F (an_cpu_min_aas a) (ob_cpu_aas ob) \<and> slb \<and> fp_leq F (an_cpu_cusum_h a) s,
                  fp_less F (an_cpu_cusum a) s))
      else (a, False, False))"

definition baseline_warm :: "'f pgwt_anomaly \<Rightarrow> bool" where
  "baseline_warm a \<longleftrightarrow> an_baseline_warmup a \<ge> an_warmup_needed a"

definition aas_over :: "'f fp \<Rightarrow> 'f pgwt_anomaly \<Rightarrow> 'f pgwt_anomaly_observation \<Rightarrow> bool" where
  "aas_over F a ob \<longleftrightarrow>
     baseline_warm a \<and> fp_less F (fp_zero F) (an_aas_factor a) \<and> aas_rule_on F a \<and>
     fp_leq F (fp_lit F 2 1) (ob_aas ob) \<and> fp_less F (fp_mul F (an_aas_factor a) (an_baseline_aas a)) (ob_aas ob)"

definition lock_over :: "'f fp \<Rightarrow> 'f pgwt_anomaly \<Rightarrow> 'f pgwt_anomaly_observation \<Rightarrow> bool" where
  "lock_over F a ob \<longleftrightarrow>
     fp_less F (fp_zero F) (an_lock_fraction a) \<and> fp_less F (an_lock_fraction a) (ob_lock_fraction ob) \<and>
     fp_leq F (an_lock_min_aas a) (fp_mul F (ob_lock_fraction ob) (ob_aas ob))"

definition next_streak :: "bool \<Rightarrow> bool \<Rightarrow> int \<Rightarrow> int" where
  "next_streak backoff over streak = (if backoff then 0 else if over then streak + 1 else 0)"

definition retry_recover :: "'f fp \<Rightarrow> bool \<Rightarrow> bool \<Rightarrow> bool \<Rightarrow> 'f pgwt_anomaly \<Rightarrow> 'f pgwt_anomaly" where
  "retry_recover F aas lock trusted a =
     (if an_setup_retry_rules a \<noteq> 0 then
        let recovered = \<not> (an_setup_retry_rules a AND PGWT_RULE_AAS \<noteq> 0 \<and> aas) \<and>
                        \<not> (an_setup_retry_rules a AND PGWT_RULE_LOCK \<noteq> 0 \<and> lock) \<and>
                        \<not> (an_setup_retry_rules a AND PGWT_RULE_CPU_SATURATION \<noteq> 0 \<and> \<not> trusted)
        in if recovered then a\<lparr>an_setup_retries := 0, an_setup_retry_after_ns := 0, an_setup_retry_rules := 0\<rparr> else a
      else a)"

definition learn_baseline :: "'f fp \<Rightarrow> bool \<Rightarrow> bool \<Rightarrow> 'f \<Rightarrow> 'f pgwt_anomaly \<Rightarrow> 'f pgwt_anomaly" where
  "learn_baseline F warm over aas a =
     (let b = an_baseline_aas a; diff = fp_sub F aas b in
      if \<not> warm
      then a\<lparr>an_baseline_warmup := an_baseline_warmup a + 1,
             an_baseline_aas := fp_add F b (fp_div F diff (fp_of_int F (an_baseline_warmup a + 1)))\<rparr>
      else if \<not> over then a\<lparr>an_baseline_aas := fp_add F b (fp_mul F (an_baseline_alpha a) diff)\<rparr>
      else if an_learn_through_ticks a > 0 \<and> an_aas_over_streak a \<ge> an_learn_through_ticks a
      then a\<lparr>an_baseline_aas := fp_add F b (fp_mul F (fp_div F (an_baseline_alpha a)
               (fp_of_int F (if an_slow_release_div a > 0 then an_slow_release_div a else 1))) diff)\<rparr>
      else a)"

definition near_reasons :: "'f fp \<Rightarrow> 'f pgwt_anomaly \<Rightarrow> 'f pgwt_anomaly_observation \<Rightarrow> bool \<Rightarrow> bool \<Rightarrow> bool \<Rightarrow> bool \<Rightarrow> u32" where
  "near_reasons F a ob aas lock climbed warm =
     (if aas then PGWT_NEAR_AAS_SUSTAIN else 0) OR (if lock then PGWT_NEAR_LOCK_SUSTAIN else 0) OR
     (if climbed \<and> an_cpu_armed a \<and> fp_leq F (an_cpu_min_aas a) (ob_cpu_aas ob) \<and>
         fp_leq F (fp_mul F (fp_lit F 1 2) (an_cpu_cusum_h a)) (an_cpu_cusum a) then PGWT_NEAR_CPU_SUSTAIN else 0) OR
     (if \<not> warm \<and> fp_leq F (fp_lit F 2 1) (ob_aas ob) then PGWT_NEAR_BASELINE else 0)"

definition decide :: "'f fp \<Rightarrow> 'f pgwt_anomaly \<Rightarrow> 'f pgwt_anomaly_observation \<Rightarrow> 'f pgwt_anomaly_decision \<Rightarrow> u64 \<Rightarrow> bool
    \<Rightarrow> bool \<times> bool \<times> bool \<Rightarrow> u32 \<Rightarrow> 'f pgwt_anomaly_decision \<times> 'f pgwt_anomaly" where
  "decide F a ob d now cooling fires near =
     (let (aas_fire, lock_fire, cpu_fire) = fires in
      if \<not> aas_fire \<and> \<not> lock_fire \<and> \<not> cpu_fire then
        (if near \<noteq> 0 then (d\<lparr>de_action := PGWT_ANOMALY_NEAR, de_near_mask := near\<rparr>, a\<lparr>an_near_total := an_near_total a + 1\<rparr>)
         else (d, a))
      else
        let fired = (if aas_fire then PGWT_RULE_AAS else 0) OR (if lock_fire then PGWT_RULE_LOCK else 0) OR
                    (if cpu_fire then PGWT_RULE_CPU_SATURATION else 0)
        in if cooling
           then (d\<lparr>de_action := PGWT_ANOMALY_NEAR, de_near_mask := PGWT_NEAR_COOLDOWN, de_fired_mask := fired\<rparr>,
                 a\<lparr>an_near_total := an_near_total a + 1, an_dropped_cooldown := an_dropped_cooldown a + 1\<rparr>)
           else
             let a = a\<lparr>an_cpu_cusum := fp_zero F, an_last_fire_ns := now, an_fires_total := an_fires_total a + 1\<rparr>;
                 a = (if fired AND PGWT_RULE_CPU_SATURATION \<noteq> 0
                      then a\<lparr>an_cpu_armed := False, an_cpu_saturation_fires_total := an_cpu_saturation_fires_total a + 1\<rparr>
                      else a)
             in (d\<lparr>de_action := PGWT_ANOMALY_FIRE, de_fired_mask := fired, de_cpu_cusum := fp_zero F\<rparr>, a))"

definition pgwt_anomaly_eval_observation :: "'f fp \<Rightarrow> 'f pgwt_anomaly \<Rightarrow> 'f pgwt_anomaly_observation \<Rightarrow> u64
    \<Rightarrow> 'f pgwt_anomaly_decision \<times> 'f pgwt_anomaly" where
  "pgwt_anomaly_eval_observation F a ob now =
     (let d = \<lparr>de_action = PGWT_ANOMALY_NONE, de_near_mask = 0, de_fired_mask = 0, de_aas = ob_aas ob,
               de_baseline = an_baseline_aas a, de_lock_fraction = ob_lock_fraction ob, de_cpu_aas = ob_cpu_aas ob,
               de_cpu_capacity = ob_cpu_capacity ob, de_cpu_cusum = an_cpu_cusum a\<rparr>
      in if \<not> an_enabled a then (d, a)
         else
           let cooling = in_cooldown a now;
               backoff = in_setup_retry_backoff a now;
               a = (if an_setup_retry_after_ns a \<noteq> 0 \<and> \<not> backoff then a\<lparr>an_setup_retry_after_ns := 0\<rparr> else a);
               trusted = trusted_below_reference F a ob;
               a = cpu_observe F a ob;
               (a, cpu_fire, climbed) = cpu_accumulate F a ob (cooling \<or> backoff);
               d = d\<lparr>de_cpu_cusum := an_cpu_cusum a\<rparr>;
               warm = baseline_warm a;
               aas = aas_over F a ob;
               a = a\<lparr>an_aas_over_streak := next_streak backoff aas (an_aas_over_streak a)\<rparr>;
               aas_fire = (aas \<and> an_aas_over_streak a \<ge> an_aas_ticks a);
               lock = lock_over F a ob;
               a = retry_recover F aas lock trusted a;
               a = a\<lparr>an_lock_over_streak := next_streak backoff lock (an_lock_over_streak a)\<rparr>;
               lock_fire = (lock \<and> an_lock_over_streak a \<ge> an_lock_ticks a);
               a = learn_baseline F warm aas (ob_aas ob) a;
               d = d\<lparr>de_baseline := an_baseline_aas a\<rparr>
           in decide F a ob d now cooling (aas_fire, lock_fire, cpu_fire)
                (near_reasons F a ob (aas \<and> \<not> aas_fire) (lock \<and> \<not> lock_fire) climbed warm))"

definition pgwt_anomaly_eval :: "'f fp \<Rightarrow> 'f pgwt_anomaly \<Rightarrow> 'f \<Rightarrow> 'f \<Rightarrow> u64
    \<Rightarrow> 'f pgwt_anomaly_decision \<times> 'f pgwt_anomaly" where
  "pgwt_anomaly_eval F a aas lock_fraction now =
     pgwt_anomaly_eval_observation F a
       \<lparr>ob_aas = aas, ob_lock_fraction = lock_fraction, ob_cpu_aas = fp_zero F, ob_cpu_capacity = fp_lit F (-1) 1,
        ob_cpu_capacity_affinity_only = False, ob_cpu_coverage_ok = False, ob_cpu_capacity_changed = False,
        ob_cpu_guard_blocked = False\<rparr> now"

section \<open>After a request\<close>

datatype pgwt_anomaly_setup_retry_result =
    PGWT_ANOMALY_SETUP_RETRY_NOT_APPLICABLE | PGWT_ANOMALY_SETUP_RETRY_SCHEDULED
  | PGWT_ANOMALY_SETUP_RETRY_LIMIT_REACHED

definition pgwt_anomaly_retry_after_setup_failure :: "'f fp \<Rightarrow> 'f pgwt_anomaly \<Rightarrow> u32 \<Rightarrow> u64
    \<Rightarrow> pgwt_anomaly_setup_retry_result \<times> 'f pgwt_anomaly" where
  "pgwt_anomaly_retry_after_setup_failure F a fired now =
     (let retryable = fired AND (PGWT_RULE_AAS OR PGWT_RULE_LOCK OR PGWT_RULE_CPU_SATURATION) in
      if retryable = 0 then (PGWT_ANOMALY_SETUP_RETRY_NOT_APPLICABLE, a)
      else if an_setup_retries a \<ge> PGWT_ANOMALY_SETUP_MAX_RETRIES then (PGWT_ANOMALY_SETUP_RETRY_LIMIT_REACHED, a)
      else
        let a = a\<lparr>an_setup_retries := an_setup_retries a + 1,
                  an_setup_retry_after_ns := now + PGWT_ANOMALY_SETUP_RETRY_S * 1000000000,
                  an_setup_retry_rules := retryable, an_last_fire_ns := 0\<rparr>;
            a = (if fired AND PGWT_RULE_AAS \<noteq> 0 then a\<lparr>an_aas_over_streak := 0\<rparr> else a);
            a = (if fired AND PGWT_RULE_LOCK \<noteq> 0 then a\<lparr>an_lock_over_streak := 0\<rparr> else a);
            a = (if fired AND PGWT_RULE_CPU_SATURATION \<noteq> 0
                 then a\<lparr>an_cpu_armed := True, an_cpu_cusum := fp_zero F\<rparr> else a)
        in (PGWT_ANOMALY_SETUP_RETRY_SCHEDULED, a))"

definition pgwt_anomaly_escalation_succeeded :: "'f pgwt_anomaly \<Rightarrow> 'f pgwt_anomaly" where
  "pgwt_anomaly_escalation_succeeded a =
     a\<lparr>an_setup_retries := 0, an_setup_retry_after_ns := 0, an_setup_retry_rules := 0\<rparr>"

section \<open>The sampler tick\<close>

text \<open>
  What the tick reads besides the batch: the effective cores as refreshed, and the sampler's count of
  invalid reads (\<open>None\<close> without a sampler).
\<close>

record 'f tick_input =
  ti_cores :: 'f
  ti_affinity :: bool
  ti_changed :: bool
  ti_read_invalid :: "u32 option"

definition tick_observation :: "'f fp \<Rightarrow> pgwt_daemon \<Rightarrow> 'f tick_input \<Rightarrow> pgwt_trace_event list \<Rightarrow> 'f pgwt_anomaly_observation" where
  "tick_observation F d ti samples =
     (let (aas, lock_fraction, cpu_aas) = pgwt_anomaly_metrics_from_batch F (d_idle_rule d) samples
      in \<lparr>ob_aas = aas, ob_lock_fraction = lock_fraction, ob_cpu_aas = cpu_aas, ob_cpu_capacity = ti_cores ti,
          ob_cpu_capacity_affinity_only = ti_affinity ti,
          ob_cpu_coverage_ok = (case ti_read_invalid ti of None \<Rightarrow> True | Some n \<Rightarrow> n = 0),
          ob_cpu_capacity_changed = ti_changed ti, ob_cpu_guard_blocked = esc_active (d_escalation d)\<rparr>)"

text \<open>Near-triggers are logged on a change of reason and once a minute, otherwise counted.\<close>

definition note_near :: "'f pgwt_anomaly \<Rightarrow> u32 \<Rightarrow> u64 \<Rightarrow> 'f pgwt_anomaly" where
  "note_near a near now =
     (if near \<noteq> an_last_near_mask a \<or> an_last_near_log_ns a = 0 \<or> now - an_last_near_log_ns a \<ge> 60 * 1000000000
      then a\<lparr>an_last_near_mask := near, an_last_near_log_ns := now, an_near_since_log := 0\<rparr>
      else a\<lparr>an_near_since_log := an_near_since_log a + 1\<rparr>)"

definition settle_request :: "'f fp \<Rightarrow> 'f pgwt_anomaly \<Rightarrow> u32 \<Rightarrow> u64 \<Rightarrow> pgwt_escalate_failure + int \<Rightarrow> 'f pgwt_anomaly" where
  "settle_request F a fired now r =
     (case r of
        Inr granted \<Rightarrow> pgwt_anomaly_escalation_succeeded a
      | Inl PGWT_ESC_FAIL_BUDGET \<Rightarrow>
          pgwt_anomaly_escalation_succeeded (a\<lparr>an_dropped_budget := an_dropped_budget a + 1\<rparr>)
      | Inl PGWT_ESC_FAIL_INVALID \<Rightarrow> pgwt_anomaly_escalation_succeeded a
      | Inl _ \<Rightarrow> snd (pgwt_anomaly_retry_after_setup_failure F a fired now))"

definition pgwt_anomaly_tick :: "'f fp \<Rightarrow> kernel \<Rightarrow> u64 \<Rightarrow> 'f tick_input \<Rightarrow> pgwt_trace_event list
    \<Rightarrow> 'f pgwt_anomaly \<times> pgwt_daemon \<Rightarrow> 'f pgwt_anomaly \<times> pgwt_daemon" where
  "pgwt_anomaly_tick F k now ti samples s =
     (let (a, d) = s in
      if \<not> an_enabled a then (a, d)
      else
        let (dec, a) = pgwt_anomaly_eval_observation F a (tick_observation F d ti samples) now
        in case de_action dec of
             PGWT_ANOMALY_NONE \<Rightarrow> (a\<lparr>an_last_near_mask := 0\<rparr>, d)
           | PGWT_ANOMALY_NEAR \<Rightarrow> (note_near a (de_near_mask dec) now, d)
           | PGWT_ANOMALY_FIRE \<Rightarrow>
               let reason = (if de_fired_mask dec AND PGWT_RULE_CPU_SATURATION \<noteq> 0
                             then ESC_REASON_CPU_SATURATION else ESC_REASON_ANOMALY);
                   (r, d) = pgwt_escalate k d (an_escalation_s a) reason
               in (settle_request F a (de_fired_mask dec) now r, d))"

section \<open>What each part leaves alone\<close>

lemma cpu_observe_frame [simp]:
  "an_enabled (cpu_observe F a ob) = an_enabled a" "an_aas_factor (cpu_observe F a ob) = an_aas_factor a"
  "an_aas_ticks (cpu_observe F a ob) = an_aas_ticks a" "an_lock_fraction (cpu_observe F a ob) = an_lock_fraction a"
  "an_lock_min_aas (cpu_observe F a ob) = an_lock_min_aas a" "an_lock_ticks (cpu_observe F a ob) = an_lock_ticks a"
  "an_cooldown_ns (cpu_observe F a ob) = an_cooldown_ns a"
  "an_escalation_s (cpu_observe F a ob) = an_escalation_s a"
  "an_setup_retries (cpu_observe F a ob) = an_setup_retries a"
  "an_setup_retry_after_ns (cpu_observe F a ob) = an_setup_retry_after_ns a"
  "an_setup_retry_rules (cpu_observe F a ob) = an_setup_retry_rules a"
  "an_cpu_coverage_gap_reset_ticks (cpu_observe F a ob) = an_cpu_coverage_gap_reset_ticks a"
  "an_baseline_aas (cpu_observe F a ob) = an_baseline_aas a"
  "an_baseline_warmup (cpu_observe F a ob) = an_baseline_warmup a"
  "an_warmup_needed (cpu_observe F a ob) = an_warmup_needed a"
  "an_aas_over_streak (cpu_observe F a ob) = an_aas_over_streak a"
  "an_lock_over_streak (cpu_observe F a ob) = an_lock_over_streak a"
  "an_last_fire_ns (cpu_observe F a ob) = an_last_fire_ns a"
  by (simp_all add: cpu_observe_def Let_def)

lemma cpu_accumulate_frame [simp]:
  "an_enabled (fst (cpu_accumulate F a ob h)) = an_enabled a"
  "an_aas_factor (fst (cpu_accumulate F a ob h)) = an_aas_factor a"
  "an_aas_ticks (fst (cpu_accumulate F a ob h)) = an_aas_ticks a"
  "an_lock_fraction (fst (cpu_accumulate F a ob h)) = an_lock_fraction a"
  "an_lock_min_aas (fst (cpu_accumulate F a ob h)) = an_lock_min_aas a"
  "an_lock_ticks (fst (cpu_accumulate F a ob h)) = an_lock_ticks a"
  "an_cooldown_ns (fst (cpu_accumulate F a ob h)) = an_cooldown_ns a"
  "an_escalation_s (fst (cpu_accumulate F a ob h)) = an_escalation_s a"
  "an_setup_retries (fst (cpu_accumulate F a ob h)) = an_setup_retries a"
  "an_setup_retry_after_ns (fst (cpu_accumulate F a ob h)) = an_setup_retry_after_ns a"
  "an_setup_retry_rules (fst (cpu_accumulate F a ob h)) = an_setup_retry_rules a"
  "an_cpu_coverage_gap_reset_ticks (fst (cpu_accumulate F a ob h)) = an_cpu_coverage_gap_reset_ticks a"
  "an_baseline_aas (fst (cpu_accumulate F a ob h)) = an_baseline_aas a"
  "an_baseline_warmup (fst (cpu_accumulate F a ob h)) = an_baseline_warmup a"
  "an_warmup_needed (fst (cpu_accumulate F a ob h)) = an_warmup_needed a"
  "an_aas_over_streak (fst (cpu_accumulate F a ob h)) = an_aas_over_streak a"
  "an_lock_over_streak (fst (cpu_accumulate F a ob h)) = an_lock_over_streak a"
  "an_last_fire_ns (fst (cpu_accumulate F a ob h)) = an_last_fire_ns a"
  "an_cpu_coverage_gap_ticks (fst (cpu_accumulate F a ob h)) = an_cpu_coverage_gap_ticks a"
  by (simp_all add: cpu_accumulate_def Let_def)

lemma retry_recover_frame [simp]:
  "an_cpu_armed (retry_recover F x y z a) = an_cpu_armed a"
  "an_enabled (retry_recover F x y z a) = an_enabled a" "an_aas_factor (retry_recover F x y z a) = an_aas_factor a"
  "an_aas_ticks (retry_recover F x y z a) = an_aas_ticks a"
  "an_lock_fraction (retry_recover F x y z a) = an_lock_fraction a"
  "an_lock_min_aas (retry_recover F x y z a) = an_lock_min_aas a"
  "an_lock_ticks (retry_recover F x y z a) = an_lock_ticks a"
  "an_cooldown_ns (retry_recover F x y z a) = an_cooldown_ns a"
  "an_escalation_s (retry_recover F x y z a) = an_escalation_s a"
  "an_cpu_coverage_gap_reset_ticks (retry_recover F x y z a) = an_cpu_coverage_gap_reset_ticks a"
  "an_baseline_aas (retry_recover F x y z a) = an_baseline_aas a"
  "an_baseline_warmup (retry_recover F x y z a) = an_baseline_warmup a"
  "an_warmup_needed (retry_recover F x y z a) = an_warmup_needed a"
  "an_aas_over_streak (retry_recover F x y z a) = an_aas_over_streak a"
  "an_lock_over_streak (retry_recover F x y z a) = an_lock_over_streak a"
  "an_last_fire_ns (retry_recover F x y z a) = an_last_fire_ns a"
  "an_cpu_coverage_gap_ticks (retry_recover F x y z a) = an_cpu_coverage_gap_ticks a"
  by (simp_all add: retry_recover_def Let_def)

lemma learn_baseline_frame [simp]:
  "an_cpu_armed (learn_baseline F w ov x a) = an_cpu_armed a"
  "an_enabled (learn_baseline F w ov x a) = an_enabled a"
  "an_aas_factor (learn_baseline F w ov x a) = an_aas_factor a"
  "an_aas_ticks (learn_baseline F w ov x a) = an_aas_ticks a"
  "an_lock_fraction (learn_baseline F w ov x a) = an_lock_fraction a"
  "an_lock_min_aas (learn_baseline F w ov x a) = an_lock_min_aas a"
  "an_lock_ticks (learn_baseline F w ov x a) = an_lock_ticks a"
  "an_cooldown_ns (learn_baseline F w ov x a) = an_cooldown_ns a"
  "an_escalation_s (learn_baseline F w ov x a) = an_escalation_s a"
  "an_setup_retries (learn_baseline F w ov x a) = an_setup_retries a"
  "an_setup_retry_after_ns (learn_baseline F w ov x a) = an_setup_retry_after_ns a"
  "an_setup_retry_rules (learn_baseline F w ov x a) = an_setup_retry_rules a"
  "an_cpu_coverage_gap_reset_ticks (learn_baseline F w ov x a) = an_cpu_coverage_gap_reset_ticks a"
  "an_warmup_needed (learn_baseline F w ov x a) = an_warmup_needed a"
  "an_aas_over_streak (learn_baseline F w ov x a) = an_aas_over_streak a"
  "an_lock_over_streak (learn_baseline F w ov x a) = an_lock_over_streak a"
  "an_last_fire_ns (learn_baseline F w ov x a) = an_last_fire_ns a"
  "an_cpu_coverage_gap_ticks (learn_baseline F w ov x a) = an_cpu_coverage_gap_ticks a"
  by (simp_all add: learn_baseline_def Let_def)

lemma decide_frame [simp]:
  "an_enabled (snd (decide F a ob d now cooling fires near)) = an_enabled a"
  "an_aas_factor (snd (decide F a ob d now cooling fires near)) = an_aas_factor a"
  "an_aas_ticks (snd (decide F a ob d now cooling fires near)) = an_aas_ticks a"
  "an_lock_fraction (snd (decide F a ob d now cooling fires near)) = an_lock_fraction a"
  "an_lock_min_aas (snd (decide F a ob d now cooling fires near)) = an_lock_min_aas a"
  "an_lock_ticks (snd (decide F a ob d now cooling fires near)) = an_lock_ticks a"
  "an_cooldown_ns (snd (decide F a ob d now cooling fires near)) = an_cooldown_ns a"
  "an_escalation_s (snd (decide F a ob d now cooling fires near)) = an_escalation_s a"
  "an_setup_retries (snd (decide F a ob d now cooling fires near)) = an_setup_retries a"
  "an_setup_retry_after_ns (snd (decide F a ob d now cooling fires near)) = an_setup_retry_after_ns a"
  "an_setup_retry_rules (snd (decide F a ob d now cooling fires near)) = an_setup_retry_rules a"
  "an_cpu_coverage_gap_reset_ticks (snd (decide F a ob d now cooling fires near)) = an_cpu_coverage_gap_reset_ticks a"
  "an_baseline_aas (snd (decide F a ob d now cooling fires near)) = an_baseline_aas a"
  "an_baseline_warmup (snd (decide F a ob d now cooling fires near)) = an_baseline_warmup a"
  "an_warmup_needed (snd (decide F a ob d now cooling fires near)) = an_warmup_needed a"
  "an_aas_over_streak (snd (decide F a ob d now cooling fires near)) = an_aas_over_streak a"
  "an_lock_over_streak (snd (decide F a ob d now cooling fires near)) = an_lock_over_streak a"
  "an_cpu_coverage_gap_ticks (snd (decide F a ob d now cooling fires near)) = an_cpu_coverage_gap_ticks a"
  by (simp_all add: decide_def Let_def case_prod_unfold)

lemma over_frame [simp]:
  "aas_over F (cpu_observe F a ob) ob' = aas_over F a ob'" "aas_over F (fst (cpu_accumulate F a ob h)) ob' = aas_over F a ob'"
  "lock_over F (cpu_observe F a ob) ob' = lock_over F a ob'" "lock_over F (fst (cpu_accumulate F a ob h)) ob' = lock_over F a ob'"
  "aas_over F (a\<lparr>an_setup_retry_after_ns := t\<rparr>) ob' = aas_over F a ob'"
  "lock_over F (a\<lparr>an_setup_retry_after_ns := t\<rparr>) ob' = lock_over F a ob'"
  "lock_over F (a\<lparr>an_aas_over_streak := n\<rparr>) ob' = lock_over F a ob'"
  "trusted_below_reference F (a\<lparr>an_setup_retry_after_ns := t\<rparr>) ob' = trusted_below_reference F a ob'"
  by (simp_all add: aas_over_def lock_over_def baseline_warm_def aas_rule_on_def trusted_below_reference_def cpu_u_def Let_def)

text \<open>The outcome of a decision.\<close>

lemma decide_facts:
  assumes "decide F a ob d now cooling (x, y, z) near = (dec, a')" and "de_action d = PGWT_ANOMALY_NONE"
    and "de_near_mask d = 0" "de_fired_mask d = 0"
  shows "an_last_fire_ns a' = (if de_action dec = PGWT_ANOMALY_FIRE then now else an_last_fire_ns a)"
    and "de_action dec = PGWT_ANOMALY_FIRE \<Longrightarrow> \<not> cooling \<and> (x \<or> y \<or> z)"
    and "de_fired_mask dec AND PGWT_RULE_AAS \<noteq> 0 \<Longrightarrow> x" and "de_fired_mask dec AND PGWT_RULE_LOCK \<noteq> 0 \<Longrightarrow> y"
    and "(case de_action dec of PGWT_ANOMALY_NONE \<Rightarrow> de_near_mask dec = 0 \<and> de_fired_mask dec = 0
       | PGWT_ANOMALY_NEAR \<Rightarrow> de_near_mask dec \<noteq> 0
       | PGWT_ANOMALY_FIRE \<Rightarrow> de_near_mask dec = 0 \<and> de_fired_mask dec \<noteq> 0) \<and>
      de_fired_mask dec AND NOT 7 = 0"
    and "de_fired_mask dec AND PGWT_RULE_CPU_SATURATION \<noteq> 0 \<Longrightarrow> z"
    and "an_cpu_armed a' = (an_cpu_armed a \<and>
      \<not> (de_action dec = PGWT_ANOMALY_FIRE \<and> de_fired_mask dec AND PGWT_RULE_CPU_SATURATION \<noteq> 0))"
  using assms by (auto simp: decide_def Let_def rule_ids near_ids split: if_splits)

lemma accumulate_armed:
  "an_cpu_armed (fst (cpu_accumulate F (cpu_observe F a ob) ob h)) = (an_cpu_armed a \<or> trusted_below_reference F a ob)"
  "fst (snd (cpu_accumulate F (cpu_observe F a ob) ob h)) \<Longrightarrow> an_cpu_armed a \<or> trusted_below_reference F a ob"
proof -
  have "an_cpu_armed (cpu_observe F a ob) = (an_cpu_armed a \<or> trusted_below_reference F a ob)"
    by (simp add: cpu_observe_def Let_def)
  moreover have "trusted_below_reference F (cpu_observe F a ob) ob = trusted_below_reference F a ob"
    by (simp add: cpu_observe_def trusted_below_reference_def cpu_u_def Let_def)
  ultimately show
    "an_cpu_armed (fst (cpu_accumulate F (cpu_observe F a ob) ob h)) = (an_cpu_armed a \<or> trusted_below_reference F a ob)"
    "fst (snd (cpu_accumulate F (cpu_observe F a ob) ob h)) \<Longrightarrow> an_cpu_armed a \<or> trusted_below_reference F a ob"
    by (auto simp: cpu_accumulate_def trusted_below_reference_def Let_def split: if_splits)
qed

definition dec_wf :: "'f pgwt_anomaly_decision \<Rightarrow> bool" where
  "dec_wf dec \<longleftrightarrow> (case de_action dec of
       PGWT_ANOMALY_NONE \<Rightarrow> de_near_mask dec = 0 \<and> de_fired_mask dec = 0
     | PGWT_ANOMALY_NEAR \<Rightarrow> de_near_mask dec \<noteq> 0
     | PGWT_ANOMALY_FIRE \<Rightarrow> de_near_mask dec = 0 \<and> de_fired_mask dec \<noteq> 0) \<and> de_fired_mask dec AND NOT 7 = 0"

text \<open>What the state always satisfies, whatever the doubles do.\<close>

definition an_wf :: "'f pgwt_anomaly \<Rightarrow> bool" where
  "an_wf a \<longleftrightarrow>
     0 \<le> an_aas_over_streak a \<and> 0 \<le> an_lock_over_streak a \<and>
     0 \<le> an_baseline_warmup a \<and> an_baseline_warmup a \<le> an_warmup_needed a \<and>
     1 \<le> an_cpu_coverage_gap_reset_ticks a \<and> 0 \<le> an_cpu_coverage_gap_ticks a \<and>
     an_cpu_coverage_gap_ticks a \<le> an_cpu_coverage_gap_reset_ticks a \<and>
     an_setup_retries a \<le> PGWT_ANOMALY_SETUP_MAX_RETRIES \<and> an_setup_retry_rules a AND NOT 7 = 0 \<and>
     (an_setup_retries a = 0) = (an_setup_retry_rules a = 0) \<and>
     (if an_setup_retry_rules a = 0 then an_setup_retry_after_ns a = 0 else True)"

lemma an_wf_parts [simp]:
  "an_wf a \<Longrightarrow> an_wf (cpu_observe F a ob)" "an_wf a \<Longrightarrow> an_wf (fst (cpu_accumulate F a ob h))"
  "an_wf a \<Longrightarrow> an_wf (retry_recover F x y z a)" "an_wf a \<Longrightarrow> an_wf (snd (decide F a ob d now cooling fires near))"
  "an_wf a \<Longrightarrow> an_wf (a\<lparr>an_setup_retry_after_ns := 0\<rparr>)" "an_wf a \<Longrightarrow> an_wf (pgwt_anomaly_escalation_succeeded a)"
  "an_wf a \<Longrightarrow> an_wf (a\<lparr>an_last_near_mask := m\<rparr>)" "an_wf a \<Longrightarrow> an_wf (a\<lparr>an_dropped_budget := n\<rparr>)"
  "an_wf a \<Longrightarrow> an_wf (note_near a m now)"
  by (simp_all add: an_wf_def)
    (simp_all add: cpu_observe_def retry_recover_def pgwt_anomaly_escalation_succeeded_def note_near_def Let_def)

lemma an_wf_streaks [simp]:
  "an_wf a \<Longrightarrow> 0 \<le> n \<Longrightarrow> an_wf (a\<lparr>an_aas_over_streak := n\<rparr>)" "an_wf a \<Longrightarrow> 0 \<le> n \<Longrightarrow> an_wf (a\<lparr>an_lock_over_streak := n\<rparr>)"
  by (simp_all add: an_wf_def)

lemma an_wf_learn: "an_wf a \<Longrightarrow> w = baseline_warm a \<Longrightarrow> an_wf (learn_baseline F w ov x a)"
  by (simp add: an_wf_def) (simp add: learn_baseline_def baseline_warm_def Let_def)

lemma next_streak_nonneg: "0 \<le> n \<Longrightarrow> 0 \<le> next_streak b ov n"
  by (simp add: next_streak_def)

text \<open>An evaluation is a decision on the state its stages leave.\<close>

lemma eval_stages:
  assumes "an_enabled a"
  obtains a7 d x y z near where
    "pgwt_anomaly_eval_observation F a ob now = decide F a7 ob d now (in_cooldown a now) (x, y, z) near"
    and "de_action d = PGWT_ANOMALY_NONE" "de_near_mask d = 0" "de_fired_mask d = 0"
    and "an_enabled a7 = an_enabled a" "an_aas_ticks a7 = an_aas_ticks a" "an_lock_ticks a7 = an_lock_ticks a"
      "an_cooldown_ns a7 = an_cooldown_ns a" "an_escalation_s a7 = an_escalation_s a" "an_last_fire_ns a7 = an_last_fire_ns a"
    and "an_aas_over_streak a7 = next_streak (in_setup_retry_backoff a now) (aas_over F a ob) (an_aas_over_streak a)"
    and "an_lock_over_streak a7 = next_streak (in_setup_retry_backoff a now) (lock_over F a ob) (an_lock_over_streak a)"
    and "x = (aas_over F a ob \<and> an_aas_ticks a \<le> an_aas_over_streak a7)"
    and "y = (lock_over F a ob \<and> an_lock_ticks a \<le> an_lock_over_streak a7)"
    and "z \<longrightarrow> an_cpu_armed a7" and "an_cpu_armed a7 = (an_cpu_armed a \<or> trusted_below_reference F a ob)"
    and "an_wf a \<longrightarrow> an_wf a7"
proof -
  define b where "b = in_setup_retry_backoff a now"
  define a1 where "a1 = (if an_setup_retry_after_ns a \<noteq> 0 \<and> \<not> b then a\<lparr>an_setup_retry_after_ns := 0\<rparr> else a)"
  define acc where "acc = cpu_accumulate F (cpu_observe F a1 ob) ob (in_cooldown a now \<or> b)"
  define a3 where "a3 = fst acc"
  define a4 where "a4 = a3\<lparr>an_aas_over_streak := next_streak b (aas_over F a3 ob) (an_aas_over_streak a3)\<rparr>"
  define a5 where "a5 = retry_recover F (aas_over F a3 ob) (lock_over F a4 ob) (trusted_below_reference F a1 ob) a4"
  define a6 where "a6 = a5\<lparr>an_lock_over_streak := next_streak b (lock_over F a4 ob) (an_lock_over_streak a5)\<rparr>"
  define a7 where "a7 = learn_baseline F (baseline_warm a3) (aas_over F a3 ob) (ob_aas ob) a6"
  define x where "x \<longleftrightarrow> aas_over F a3 ob \<and> an_aas_over_streak a4 \<ge> an_aas_ticks a4"
  define y where "y \<longleftrightarrow> lock_over F a4 ob \<and> an_lock_over_streak a6 \<ge> an_lock_ticks a6"
  define d where "d = \<lparr>de_action = PGWT_ANOMALY_NONE, de_near_mask = 0, de_fired_mask = 0, de_aas = ob_aas ob,
      de_baseline = an_baseline_aas a7, de_lock_fraction = ob_lock_fraction ob, de_cpu_aas = ob_cpu_aas ob,
      de_cpu_capacity = ob_cpu_capacity ob, de_cpu_cusum = an_cpu_cusum a3\<rparr>"
  define near where
    "near = near_reasons F a7 ob (aas_over F a3 ob \<and> \<not> x) (lock_over F a4 ob \<and> \<not> y) (snd (snd acc)) (baseline_warm a3)"
  have eq: "pgwt_anomaly_eval_observation F a ob now =
      decide F a7 ob d now (in_cooldown a now) (x, y, fst (snd acc)) near"
    using assms unfolding pgwt_anomaly_eval_observation_def near_def d_def x_def y_def a7_def a6_def a5_def a4_def a3_def
      acc_def a1_def b_def Let_def case_prod_unfold by simp
  have o: "aas_over F a3 ob = aas_over F a ob" "lock_over F a4 ob = lock_over F a ob"
    "trusted_below_reference F a1 ob = trusted_below_reference F a ob"
    by (simp_all add: a4_def a3_def acc_def a1_def)
  have w: "an_wf a \<longrightarrow> an_wf a7"
  proof
    assume wf: "an_wf a"
    then have n: "0 \<le> an_aas_over_streak a" "0 \<le> an_lock_over_streak a" by (simp_all add: an_wf_def)
    have "baseline_warm a3 = baseline_warm a6" by (simp add: a6_def a5_def a4_def baseline_warm_def)
    moreover have "an_wf a6" using wf n next_streak_nonneg by (simp add: a6_def a5_def a4_def a3_def acc_def a1_def)
    ultimately show "an_wf a7" unfolding a7_def by (simp add: an_wf_learn)
  qed
  show thesis
    by (rule that [OF eq])
      (use w accumulate_armed [of F a1 ob] o in \<open>simp_all add: d_def x_def y_def a7_def a6_def, simp_all add: a5_def,
         simp_all add: a4_def, simp_all add: a3_def acc_def, simp_all add: a1_def b_def\<close>)
qed

lemma eval_facts:
  assumes "pgwt_anomaly_eval_observation F a ob now = (dec, a')" and "an_enabled a"
  shows "an_aas_over_streak a' = next_streak (in_setup_retry_backoff a now) (aas_over F a ob) (an_aas_over_streak a)"
    and "an_lock_over_streak a' = next_streak (in_setup_retry_backoff a now) (lock_over F a ob) (an_lock_over_streak a)"
    and "de_fired_mask dec AND PGWT_RULE_AAS \<noteq> 0 \<Longrightarrow> aas_over F a ob \<and> an_aas_ticks a \<le> an_aas_over_streak a'"
    and "de_fired_mask dec AND PGWT_RULE_LOCK \<noteq> 0 \<Longrightarrow> lock_over F a ob \<and> an_lock_ticks a \<le> an_lock_over_streak a'"
    and "an_last_fire_ns a' = (if de_action dec = PGWT_ANOMALY_FIRE then now else an_last_fire_ns a)"
    and "de_action dec = PGWT_ANOMALY_FIRE \<Longrightarrow> \<not> in_cooldown a now" and "dec_wf dec"
    and "an_enabled a'" "an_aas_ticks a' = an_aas_ticks a" "an_lock_ticks a' = an_lock_ticks a"
      "an_cooldown_ns a' = an_cooldown_ns a" "an_escalation_s a' = an_escalation_s a"
    and "de_fired_mask dec AND PGWT_RULE_CPU_SATURATION \<noteq> 0 \<Longrightarrow> an_cpu_armed a \<or> trusted_below_reference F a ob"
    and "an_cpu_armed a' = ((an_cpu_armed a \<or> trusted_below_reference F a ob) \<and>
      \<not> (de_action dec = PGWT_ANOMALY_FIRE \<and> de_fired_mask dec AND PGWT_RULE_CPU_SATURATION \<noteq> 0))"
    and "an_wf a \<Longrightarrow> an_wf a'"
proof -
  obtain a7 d x y z near where
    e: "pgwt_anomaly_eval_observation F a ob now = decide F a7 ob d now (in_cooldown a now) (x, y, z) near"
    and d: "de_action d = PGWT_ANOMALY_NONE" "de_near_mask d = 0" "de_fired_mask d = 0"
    and f: "an_enabled a7 = an_enabled a" "an_aas_ticks a7 = an_aas_ticks a" "an_lock_ticks a7 = an_lock_ticks a"
      "an_cooldown_ns a7 = an_cooldown_ns a" "an_escalation_s a7 = an_escalation_s a" "an_last_fire_ns a7 = an_last_fire_ns a"
    and st: "an_aas_over_streak a7 = next_streak (in_setup_retry_backoff a now) (aas_over F a ob) (an_aas_over_streak a)"
      "an_lock_over_streak a7 = next_streak (in_setup_retry_backoff a now) (lock_over F a ob) (an_lock_over_streak a)"
    and xy: "x = (aas_over F a ob \<and> an_aas_ticks a \<le> an_aas_over_streak a7)"
      "y = (lock_over F a ob \<and> an_lock_ticks a \<le> an_lock_over_streak a7)"
    and c: "z \<longrightarrow> an_cpu_armed a7" "an_cpu_armed a7 = (an_cpu_armed a \<or> trusted_below_reference F a ob)"
    and w: "an_wf a \<longrightarrow> an_wf a7"
    by (rule eval_stages [OF assms(2), of F ob now]) (rule that; assumption)
  from e assms(1) have dd: "decide F a7 ob d now (in_cooldown a now) (x, y, z) near = (dec, a')" by simp
  note K = decide_facts [OF dd d]
  have fr: "a' = snd (decide F a7 ob d now (in_cooldown a now) (x, y, z) near)" using dd by simp
  show "an_aas_over_streak a' = next_streak (in_setup_retry_backoff a now) (aas_over F a ob) (an_aas_over_streak a)"
    "an_lock_over_streak a' = next_streak (in_setup_retry_backoff a now) (lock_over F a ob) (an_lock_over_streak a)"
    "an_enabled a'" "an_aas_ticks a' = an_aas_ticks a" "an_lock_ticks a' = an_lock_ticks a"
    "an_cooldown_ns a' = an_cooldown_ns a" "an_escalation_s a' = an_escalation_s a"
    using f st assms(2) by (simp_all add: fr)
  show "an_last_fire_ns a' = (if de_action dec = PGWT_ANOMALY_FIRE then now else an_last_fire_ns a)"
    using K(1) f(6) by simp
  show "dec_wf dec" using K(5) by (simp add: dec_wf_def)
  show "\<not> in_cooldown a now" if "de_action dec = PGWT_ANOMALY_FIRE" using K(2) [OF that] by simp
  show "aas_over F a ob \<and> an_aas_ticks a \<le> an_aas_over_streak a'" if "de_fired_mask dec AND PGWT_RULE_AAS \<noteq> 0"
    using K(3) [OF that] xy(1) by (simp add: fr)
  show "lock_over F a ob \<and> an_lock_ticks a \<le> an_lock_over_streak a'" if "de_fired_mask dec AND PGWT_RULE_LOCK \<noteq> 0"
    using K(4) [OF that] xy(2) by (simp add: fr)
  show "an_cpu_armed a \<or> trusted_below_reference F a ob" if "de_fired_mask dec AND PGWT_RULE_CPU_SATURATION \<noteq> 0"
    using K(6) [OF that] c by simp
  show "an_cpu_armed a' = ((an_cpu_armed a \<or> trusted_below_reference F a ob) \<and>
      \<not> (de_action dec = PGWT_ANOMALY_FIRE \<and> de_fired_mask dec AND PGWT_RULE_CPU_SATURATION \<noteq> 0))"
    using K(7) c(2) by simp
  show "an_wf a'" if "an_wf a" using w that by (simp add: fr)
qed

section \<open>Sustained evidence\<close>

text \<open>A run of evaluations: the state each observation met, the observation and the decision.\<close>

type_synonym 'f eval_record = "'f pgwt_anomaly \<times> 'f pgwt_anomaly_observation \<times> 'f pgwt_anomaly_decision"

fun eval_run :: "'f fp \<Rightarrow> 'f pgwt_anomaly \<Rightarrow> ('f pgwt_anomaly_observation \<times> u64) list
    \<Rightarrow> 'f eval_record list \<times> 'f pgwt_anomaly" where
  "eval_run F a [] = ([], a)"
| "eval_run F a ((ob, now) # xs) =
     (let (dec, a') = pgwt_anomaly_eval_observation F a ob now;
          (tr, a'') = eval_run F a' xs
      in ((a, ob, dec) # tr, a''))"

lemma eval_run_snoc:
  "eval_run F a (xs @ [(ob, now)]) =
     (let (tr, a') = eval_run F a xs; (dec, a'') = pgwt_anomaly_eval_observation F a' ob now
      in (tr @ [(a', ob, dec)], a''))"
  by (induction xs arbitrary: a) (auto simp: Let_def split: prod.splits)

definition over_at :: "('f pgwt_anomaly \<Rightarrow> 'f pgwt_anomaly_observation \<Rightarrow> bool) \<Rightarrow> 'f eval_record \<Rightarrow> bool" where
  "over_at p r \<longleftrightarrow> (case r of (a, ob, dec) \<Rightarrow> p a ob)"

text \<open>The last \<open>n\<close> records of a run are all over.\<close>

definition sustained :: "('f pgwt_anomaly \<Rightarrow> 'f pgwt_anomaly_observation \<Rightarrow> bool) \<Rightarrow> int \<Rightarrow> 'f eval_record list \<Rightarrow> bool" where
  "sustained p n tr \<longleftrightarrow> n \<le> int (length tr) \<and> list_all (over_at p) (drop (length tr - nat n) tr)"

lemma sustained_le: "sustained p n tr \<Longrightarrow> m \<le> n \<Longrightarrow> sustained p m tr"
proof -
  assume s: "sustained p n tr" and m: "m \<le> n"
  then have "length tr - nat n \<le> length tr - nat m" by simp
  then have "set (drop (length tr - nat m) tr) \<subseteq> set (drop (length tr - nat n) tr)" by (rule set_drop_subset_set_drop)
  then show ?thesis using s m by (auto simp: sustained_def list_all_iff)
qed

lemma sustained_next:
  assumes "sustained p n tr" and "0 \<le> n"
  shows "sustained p (next_streak b (p a ob) n) (tr @ [(a, ob, dec)])"
proof (cases "\<not> b \<and> p a ob")
  case True
  have "Suc (length tr) - nat (n + 1) = length tr - nat n" using assms(2) by (simp add: nat_add_distrib)
  then show ?thesis using True assms by (auto simp: sustained_def next_streak_def over_at_def)
qed (auto simp: sustained_def next_streak_def)

lemma eval_run_inv:
  assumes "an_enabled a" and "an_aas_over_streak a = 0" and "an_lock_over_streak a = 0" and "eval_run F a xs = (tr, a')"
  shows "an_enabled a' \<and> an_aas_ticks a' = an_aas_ticks a \<and> an_lock_ticks a' = an_lock_ticks a \<and>
    0 \<le> an_aas_over_streak a' \<and> 0 \<le> an_lock_over_streak a' \<and>
    sustained (aas_over F) (an_aas_over_streak a') tr \<and> sustained (lock_over F) (an_lock_over_streak a') tr"
  using assms(4)
proof (induction xs arbitrary: tr a' rule: rev_induct)
  case Nil
  then show ?case using assms by (simp add: sustained_def)
next
  case (snoc x xs)
  obtain ob now where x: "x = (ob, now)" by (cases x)
  obtain tr1 a1 where r: "eval_run F a xs = (tr1, a1)" by (cases "eval_run F a xs")
  obtain dec a2 where e: "pgwt_anomaly_eval_observation F a1 ob now = (dec, a2)"
    by (cases "pgwt_anomaly_eval_observation F a1 ob now")
  from snoc.prems have t: "tr = tr1 @ [(a1, ob, dec)]" "a' = a2" by (simp_all add: x eval_run_snoc r e)
  note I = snoc.IH [OF r]
  note E = eval_facts [OF e conjunct1 [OF I]]
  have "sustained (aas_over F) (an_aas_over_streak a2) tr" "sustained (lock_over F) (an_lock_over_streak a2) tr"
    unfolding E(1,2) t(1) by (rule sustained_next; use I in blast)+
  then show ?case using I E next_streak_nonneg by (simp add: t(2))
qed

lemma eval_run_split:
  assumes "an_enabled a" and "eval_run F a xs = (tr @ tr', c)"
  obtains zs a1 where "eval_run F a1 zs = (tr', c)" and "an_enabled a1"
proof -
  have "\<exists>zs a1. eval_run F a1 zs = (tr', c) \<and> an_enabled a1"
    using assms
  proof (induction tr arbitrary: a xs)
    case (Cons r tr)
    then obtain ob now ys where xs: "xs = (ob, now) # ys" by (cases xs) auto
    obtain dec a' where e: "pgwt_anomaly_eval_observation F a ob now = (dec, a')"
      by (cases "pgwt_anomaly_eval_observation F a ob now")
    from Cons.prems(2) have "eval_run F a' ys = (tr @ tr', c)" by (auto simp: xs e Let_def split: prod.splits)
    from Cons.IH [OF eval_facts(8) [OF e Cons.prems(1)] this] show ?case .
  qed auto
  with that show thesis by blast
qed

lemma eval_run_Cons:
  assumes "eval_run F a xs = ((b, ob, dec) # tr, c)"
  shows "b = a \<and> (\<exists>now ys a'. pgwt_anomaly_eval_observation F a ob now = (dec, a') \<and> eval_run F a' ys = (tr, c))"
  using assms by (cases xs) (auto simp: Let_def split: prod.splits, blast)

text \<open>While the CPU rule is not armed, only a trusted low tick lets it be named again.\<close>

lemma unarmed_run:
  assumes "eval_run F a xs = (tr @ [(b, ob, dec)], c)" and "an_enabled a" and "\<not> an_cpu_armed a"
    and "de_fired_mask dec AND PGWT_RULE_CPU_SATURATION \<noteq> 0"
  shows "list_ex (over_at (trusted_below_reference F)) (tr @ [(b, ob, dec)])"
  using assms(1-3)
proof (induction tr arbitrary: a xs)
  case Nil
  then obtain now a' where "pgwt_anomaly_eval_observation F a ob now = (dec, a')" "b = a"
    using eval_run_Cons by fastforce
  with eval_facts(13) [OF this(1) Nil(2) assms(4)] Nil(3) show ?case by (simp add: over_at_def)
next
  case (Cons r tr)
  obtain b1 ob1 dec1 where r: "r = (b1, ob1, dec1)" by (cases r)
  from Cons.prems(1) obtain now ys a' where e: "pgwt_anomaly_eval_observation F a ob1 now = (dec1, a')" "b1 = a"
      and t: "eval_run F a' ys = (tr @ [(b, ob, dec)], c)"
    using eval_run_Cons [of F a xs b1 ob1 dec1] by (auto simp: r)
  show ?case
  proof (cases "trusted_below_reference F a ob1")
    case False
    then have "\<not> an_cpu_armed a'" "an_enabled a'" using eval_facts(8,14) [OF e(1) Cons.prems(2)] Cons.prems(3) by simp_all
    with Cons.IH [OF t] show ?thesis by simp
  qed (simp add: r e(2) over_at_def)
qed

section \<open>Runs of ticks\<close>

text \<open>Ticks in sequence; the daemon each one meets is arbitrary.\<close>

fun tick_run :: "'f fp \<Rightarrow> 'f pgwt_anomaly \<Rightarrow> (kernel \<times> u64 \<times> 'f tick_input \<times> pgwt_trace_event list \<times> pgwt_daemon) list
    \<Rightarrow> 'f pgwt_anomaly" where
  "tick_run F a [] = a"
| "tick_run F a ((k, now, ti, samples, d) # xs) = tick_run F (fst (pgwt_anomaly_tick F k now ti samples (a, d))) xs"

lemma an_wf_start: "an_wf (pgwt_anomaly_set_cpu_coverage_gap_s F (pgwt_anomaly_init F enabled hz) gap)"
  by (simp add: an_wf_def pgwt_anomaly_set_cpu_coverage_gap_s_def pgwt_anomaly_init_def INT_MAX_i_def Let_def)

lemma retry_count_step: "(n :: u32) < 3 \<Longrightarrow> n + 1 \<noteq> 0 \<and> n + 1 \<le> 3"
  by (auto simp: word_le_nat_alt word_less_nat_alt word_unat_eq_iff unat_word_ariths)

lemma an_wf_retry: "an_wf a \<Longrightarrow> an_wf (snd (pgwt_anomaly_retry_after_setup_failure F a fired now))"
  using retry_count_step [of "an_setup_retries a"]
  by (simp add: pgwt_anomaly_retry_after_setup_failure_def rule_ids Let_def)
    (auto simp: an_wf_def not_le and.assoc)

lemma an_wf_settle: "an_wf a \<Longrightarrow> an_wf (settle_request F a fired now r)"
  by (cases r) (auto simp: settle_request_def an_wf_retry split: pgwt_escalate_failure.split)

lemma an_wf_tick:
  assumes "an_wf a"
  shows "an_wf (fst (pgwt_anomaly_tick F k now ti samples (a, d)))"
proof (cases "an_enabled a")
  case True
  obtain dec a' where e: "pgwt_anomaly_eval_observation F a (tick_observation F d ti samples) now = (dec, a')"
    by (cases "pgwt_anomaly_eval_observation F a (tick_observation F d ti samples) now")
  from eval_facts(15) [OF e True assms] show ?thesis
    using True
    by (cases "de_action dec") (simp_all add: pgwt_anomaly_tick_def e an_wf_settle Let_def case_prod_unfold)
qed (simp add: pgwt_anomaly_tick_def assms)

lemma an_wf_run: "an_wf a \<Longrightarrow> an_wf (tick_run F a xs)"
  by (induction F a xs rule: tick_run.induct) (simp_all add: an_wf_tick)

lemma eval_dec_wf: "dec_wf (fst (pgwt_anomaly_eval_observation F a ob now))"
proof (cases "an_enabled a")
  case True
  then show ?thesis using eval_facts(7) [OF surjective_pairing] by blast
qed (simp add: pgwt_anomaly_eval_observation_def dec_wf_def Let_def)

section \<open>Grants\<close>

definition is_granted :: "pgwt_escalate_failure + int \<Rightarrow> bool" where
  "is_granted r \<longleftrightarrow> (case r of Inr n \<Rightarrow> True | Inl e \<Rightarrow> False)"

text \<open>The tick asks for a window and gets it.\<close>

definition tick_granted :: "'f fp \<Rightarrow> kernel \<Rightarrow> u64 \<Rightarrow> 'f tick_input \<Rightarrow> pgwt_trace_event list
    \<Rightarrow> 'f pgwt_anomaly \<times> pgwt_daemon \<Rightarrow> bool" where
  "tick_granted F k now ti samples s \<longleftrightarrow>
     (let (a, d) = s; dec = fst (pgwt_anomaly_eval_observation F a (tick_observation F d ti samples) now)
      in an_enabled a \<and> de_action dec = PGWT_ANOMALY_FIRE \<and>
         is_granted (fst (pgwt_escalate k d (an_escalation_s a)
           (if de_fired_mask dec AND PGWT_RULE_CPU_SATURATION \<noteq> 0 then ESC_REASON_CPU_SATURATION else ESC_REASON_ANOMALY))))"

lemma settle_frame:
  "an_cooldown_ns (settle_request F a fired now r) = an_cooldown_ns a"
  "is_granted r \<Longrightarrow> an_last_fire_ns (settle_request F a fired now r) = an_last_fire_ns a"
  by (auto simp: settle_request_def is_granted_def pgwt_anomaly_escalation_succeeded_def
      pgwt_anomaly_retry_after_setup_failure_def Let_def split: sum.split pgwt_escalate_failure.split)

lemma note_near_frame:
  "an_cooldown_ns (note_near a m now) = an_cooldown_ns a" "an_last_fire_ns (note_near a m now) = an_last_fire_ns a"
  by (simp_all add: note_near_def)

lemma tick_cases:
  assumes "pgwt_anomaly_tick F k t ti samples (a, d) = (a', d')"
  shows "an_cooldown_ns a' = an_cooldown_ns a"
    and "(an_last_fire_ns a' = an_last_fire_ns a \<and> d' = d \<and> \<not> tick_granted F k t ti samples (a, d)) \<or>
      (\<exists>reason. \<not> in_cooldown a t \<and> d' = snd (pgwt_escalate k d (an_escalation_s a) reason) \<and>
        (if tick_granted F k t ti samples (a, d) then an_last_fire_ns a' = t else True))"
proof -
  obtain dec b where e: "pgwt_anomaly_eval_observation F a (tick_observation F d ti samples) t = (dec, b)"
    by (cases "pgwt_anomaly_eval_observation F a (tick_observation F d ti samples) t")
  have "an_cooldown_ns a' = an_cooldown_ns a \<and>
     ((an_last_fire_ns a' = an_last_fire_ns a \<and> d' = d \<and> \<not> tick_granted F k t ti samples (a, d)) \<or>
      (\<exists>reason. \<not> in_cooldown a t \<and> d' = snd (pgwt_escalate k d (an_escalation_s a) reason) \<and>
        (if tick_granted F k t ti samples (a, d) then an_last_fire_ns a' = t else True)))"
  proof (cases "an_enabled a")
    case True
    note E = eval_facts [OF e True]
    have quiet: "\<not> tick_granted F k t ti samples (a, d)" if "de_action dec \<noteq> PGWT_ANOMALY_FIRE"
      using that by (simp add: tick_granted_def e Let_def)
    show ?thesis
    proof (cases "de_action dec")
      case PGWT_ANOMALY_FIRE
      with E(5,6,11,12) assms True show ?thesis
        by (auto simp: pgwt_anomaly_tick_def tick_granted_def e settle_frame Let_def case_prod_unfold)
    qed (use E(5,11) assms True quiet in \<open>auto simp: pgwt_anomaly_tick_def e note_near_frame\<close>)
  qed (use assms in \<open>simp add: pgwt_anomaly_tick_def tick_granted_def\<close>)
  then show "an_cooldown_ns a' = an_cooldown_ns a"
    and "(an_last_fire_ns a' = an_last_fire_ns a \<and> d' = d \<and> \<not> tick_granted F k t ti samples (a, d)) \<or>
      (\<exists>reason. \<not> in_cooldown a t \<and> d' = snd (pgwt_escalate k d (an_escalation_s a) reason) \<and>
        (if tick_granted F k t ti samples (a, d) then an_last_fire_ns a' = t else True))"
    by blast+
qed

text \<open>
  The rules and the engine together: sampler ticks interleaved with everything else the engine and the
  daemon do, manual requests included. The last component lists the times of the granted ticks, newest
  first.
\<close>

type_synonym 'f guard_state = "u64 \<times> 'f pgwt_anomaly \<times> pgwt_daemon \<times> u64 list"

inductive guard_step :: "'f fp \<Rightarrow> 'f guard_state \<Rightarrow> 'f guard_state \<Rightarrow> bool" for F where
  Tick: "now \<le> t \<Longrightarrow> kernel_ok t k \<Longrightarrow> pgwt_anomaly_tick F k t ti samples (a, d) = (a', d') \<Longrightarrow>
    guard_step F (now, a, d, h) (k_t2 k, a', d', if tick_granted F k t ti samples (a, d) then t # h else h)"
| Engine: "esc_step (now, d) (now', d') \<Longrightarrow> guard_step F (now, a, d, h) (now', a, d', h)"

inductive_cases guard_stepE: "guard_step F s t"

definition guard_start :: "u64 \<Rightarrow> 'f guard_state \<Rightarrow> bool" where
  "guard_start c s \<longleftrightarrow> (case s of (now, a, d, h) \<Rightarrow> esc_start (now, d) \<and> an_cooldown_ns a = c \<and> h = [])"

fun spaced :: "u64 \<Rightarrow> u64 list \<Rightarrow> bool" where
  "spaced c (x # y # zs) \<longleftrightarrow> y \<le> x \<and> c \<le> x - y \<and> spaced c (y # zs)"
| "spaced c _ \<longleftrightarrow> True"

definition guard_inv :: "u64 \<Rightarrow> 'f guard_state \<Rightarrow> bool" where
  "guard_inv c s \<longleftrightarrow> (case s of (now, a, d, h) \<Rightarrow>
     esc_inv (now, d) \<and> an_cooldown_ns a = c \<and> spaced c h \<and>
     (case h of [] \<Rightarrow> True | x # _ \<Rightarrow> x \<noteq> 0 \<and> x \<le> now \<and> (an_last_fire_ns a = x \<or> c \<le> now - x)))"

lemma esc_step_later: "esc_step s t \<Longrightarrow> fst s \<le> fst t"
  by (induction rule: esc_step.induct) (auto simp: kernel_ok_def)

lemma age_grows: "(x :: u64) \<le> now \<Longrightarrow> now \<le> now' \<Longrightarrow> c \<le> now - x \<Longrightarrow> c \<le> now' - x"
  by unat_arith

lemma guard_inv_later:
  assumes "guard_inv c (now, a, d, h)" and "now \<le> now'" and "esc_inv (now', d')"
  shows "guard_inv c (now', a, d', h)"
  using assms age_grows [of _ now now' c] by (auto simp: guard_inv_def split: list.splits)

lemma guard_step_inv: "guard_step F s s' \<Longrightarrow> guard_inv c s \<Longrightarrow> guard_inv c s'"
proof (induction rule: guard_step.induct)
  case (Tick now t k ti samples a d a' d' h)
  note k = kernel_okD [OF Tick.hyps(2)]
  have later: "now \<le> k_t2 k" "t \<le> k_t2 k" using Tick.hyps(1) k by auto
  have i: "esc_inv (now, d)" "an_cooldown_ns a = c" using Tick.prems by (simp_all add: guard_inv_def)
  note it = esc_inv_later [OF i(1) Tick.hyps(1)]
  show ?case
    using tick_cases(2) [OF Tick.hyps(3)]
  proof (elim disjE exE conjE)
    assume "an_last_fire_ns a' = an_last_fire_ns a" "d' = d" "\<not> tick_granted F k t ti samples (a, d)"
    with guard_inv_later [OF Tick.prems later(1) esc_inv_later [OF i(1) later(1)]] tick_cases(1) [OF Tick.hyps(3)]
    show ?thesis by (cases h) (simp_all add: guard_inv_def)
  next
    fix reason
    assume cool: "\<not> in_cooldown a t" and d': "d' = snd (pgwt_escalate k d (an_escalation_s a) reason)"
      and g: "if tick_granted F k t ti samples (a, d) then an_last_fire_ns a' = t else True"
    have ei: "esc_inv (k_t2 k, d')" unfolding d' by (rule esc_inv_escalate [OF it Tick.hyps(2)])
    have gap: "c \<le> t - x \<and> x \<le> t \<and> x \<noteq> 0" if "h = x # xs" for x xs
      using Tick.prems that cool i(2) Tick.hyps(1) age_grows [of x now t c]
      by (auto simp: guard_inv_def in_cooldown_def not_less)
    have "t \<noteq> 0" using esc_invD(1) [OF it] .
    with ei g gap later Tick.prems i(2) tick_cases(1) [OF Tick.hyps(3)] age_grows [of _ t "k_t2 k" c] show ?thesis
      by (cases h) (auto simp: guard_inv_def)
  qed
next
  case (Engine now d now' d' a h)
  have "esc_inv (now', d')" by (rule esc_step_inv [OF Engine.hyps]) (use Engine.prems in \<open>simp add: guard_inv_def\<close>)
  then show ?case using guard_inv_later [OF Engine.prems] esc_step_later [OF Engine.hyps] by simp
qed

lemma guard_start_inv: "guard_start c s \<Longrightarrow> guard_inv c s"
  by (auto simp: guard_start_def guard_inv_def esc_start_inv split: prod.splits)

interpretation guard: invariant_system "guard_start c" "guard_step F" "guard_inv c" for c F
  by unfold_locales (use guard_start_inv guard_step_inv in blast)+

section \<open>Properties\<close>

text \<open>
  C7: The active-session rule and the lock rule fire only on sustained evidence: in any run of
  evaluations from a state with no streak, whatever the double arithmetic does, when an evaluation's
  decision names the active-session rule the metric was over its threshold on each of the last
  aas-ticks evaluations, this one included, and likewise for the lock rule and lock-ticks.
\<close>

theorem anomaly_fire_sustained:
  assumes "an_enabled a" and "an_aas_over_streak a = 0" and "an_lock_over_streak a = 0"
    and "eval_run F a xs = (tr @ [(b, ob, dec)], c)"
  shows "(if de_fired_mask dec AND PGWT_RULE_AAS \<noteq> 0
      then sustained (aas_over F) (an_aas_ticks a) (tr @ [(b, ob, dec)]) else True) \<and>
    (if de_fired_mask dec AND PGWT_RULE_LOCK \<noteq> 0
      then sustained (lock_over F) (an_lock_ticks a) (tr @ [(b, ob, dec)]) else True)"
proof -
  have "xs \<noteq> []" using assms(4) by auto
  then obtain ys x where xs: "xs = ys @ [x]" by (metis rev_exhaust)
  obtain ob1 now where x: "x = (ob1, now)" by (cases x)
  obtain tr1 a1 where r: "eval_run F a ys = (tr1, a1)" by (cases "eval_run F a ys")
  obtain dec1 a2 where e: "pgwt_anomaly_eval_observation F a1 ob1 now = (dec1, a2)"
    by (cases "pgwt_anomaly_eval_observation F a1 ob1 now")
  have eq: "b = a1" "dec = dec1" "c = a2" using assms(4) by (simp_all add: xs x eval_run_snoc r e)
  have I: "an_enabled a1" "an_aas_ticks a1 = an_aas_ticks a" "an_lock_ticks a1 = an_lock_ticks a"
    using eval_run_inv [OF assms(1-3) r] by simp_all
  have J: "sustained (aas_over F) (an_aas_over_streak c) (tr @ [(b, ob, dec)])"
    "sustained (lock_over F) (an_lock_over_streak c) (tr @ [(b, ob, dec)])"
    using eval_run_inv [OF assms] by simp_all
  show ?thesis
    using eval_facts(3,4) [OF e I(1)] I(2,3) sustained_le [OF J(1)] sustained_le [OF J(2)] by (simp add: eq)
qed

text \<open>Exact rational arithmetic in place of doubles, and three busy ticks over a quiet baseline.\<close>

definition rat_fp :: "rat fp" where
  "rat_fp = \<lparr>fp_lit = (\<lambda>n d. of_int n / of_int d), fp_of_int = of_int, fp_trunc = (\<lambda>x. if x < 0 then - \<lfloor>- x\<rfloor> else \<lfloor>x\<rfloor>),
     fp_add = (+), fp_sub = (-), fp_mul = (*), fp_div = (/), fp_less = (<), fp_leq = (\<le>)\<rparr>"

definition quiet_anomaly :: "rat pgwt_anomaly" where
  "quiet_anomaly = (pgwt_anomaly_init rat_fp True 10)\<lparr>an_baseline_warmup := 50, an_baseline_aas := 1\<rparr>"

definition busy_ob :: "rat pgwt_anomaly_observation" where
  "busy_ob = \<lparr>ob_aas = 10, ob_lock_fraction = 0, ob_cpu_aas = 0, ob_cpu_capacity = -1, ob_cpu_capacity_affinity_only = False,
     ob_cpu_coverage_ok = False, ob_cpu_capacity_changed = False, ob_cpu_guard_blocked = False\<rparr>"

definition busy_run :: "rat eval_record list \<times> rat pgwt_anomaly" where
  "busy_run = eval_run rat_fp quiet_anomaly [(busy_ob, 100), (busy_ob, 200), (busy_ob, 300)]"

theorem anomaly_fire_sustained_witness:
  "de_action (snd (snd (last (fst busy_run)))) = PGWT_ANOMALY_FIRE \<and> sustained (aas_over rat_fp) 3 (fst busy_run)"
proof -
  obtain b ob dec where l: "last (fst busy_run) = (b, ob, dec)" by (cases "last (fst busy_run)")
  have ne: "fst busy_run \<noteq> []" by (simp add: busy_run_def Let_def case_prod_unfold)
  have q: "an_enabled quiet_anomaly" "an_aas_over_streak quiet_anomaly = 0" "an_lock_over_streak quiet_anomaly = 0"
    "an_aas_ticks quiet_anomaly = 3"
    by (simp_all add: quiet_anomaly_def pgwt_anomaly_init_def pgwt_anomaly_set_cpu_coverage_gap_s_def Let_def)
  have r: "eval_run rat_fp quiet_anomaly [(busy_ob, 100), (busy_ob, 200), (busy_ob, 300)] =
      (butlast (fst busy_run) @ [(b, ob, dec)], snd busy_run)"
    using ne l by (metis append_butlast_last_id busy_run_def prod.collapse)
  have f: "de_action (snd (snd (last (fst busy_run)))) = PGWT_ANOMALY_FIRE"
    "de_fired_mask (snd (snd (last (fst busy_run)))) AND PGWT_RULE_AAS \<noteq> 0" by code_simp+
  have "fst busy_run = butlast (fst busy_run) @ [(b, ob, dec)]" using ne l by (metis append_butlast_last_id)
  with anomaly_fire_sustained [OF q(1-3) r] f l q(4) show ?thesis by simp
qed

text \<open>
  C5: In every run from an initial state, with sampler ticks interleaved in any order with the
  engine's own operations, manual requests included, the windows granted to the anomaly rules lie at
  least the cooldown apart, also when requests between them were denied or their setup failed and the
  cooldown was given back; and the escalation engine keeps its invariant.
\<close>

theorem anomaly_grants_cooldown:
  assumes "guard_start c s" and "(guard_step F)\<^sup>*\<^sup>* s (now, a, d, h)"
  shows "spaced c h \<and> esc_inv (now, d)"
  using guard.reachable_inv [OF assms] by (simp add: guard_inv_def)

text \<open>
  Ten sessions on the CPU over a baseline of one, a rule that fires on one tick and a cooldown of 1000 ns:
  the first tick opens a window, the second extends it.
\<close>

definition eager_anomaly :: "rat pgwt_anomaly" where
  "eager_anomaly = quiet_anomaly\<lparr>an_aas_ticks := 1, an_cooldown_ns := 1000\<rparr>"

definition eager_tick :: "rat tick_input" where
  "eager_tick = \<lparr>ti_cores = -1, ti_affinity = False, ti_changed = False, ti_read_invalid = None\<rparr>"

definition cpu_sample :: pgwt_trace_event where
  "cpu_sample = \<lparr>timestamp_ns = 0, pid = 1, old_event = 0, new_event = 0, flags = 1, duration_ns = 0, query_id = 0, cpu_ns = 0\<rparr>"

definition cpu_batch :: "pgwt_trace_event list" where
  "cpu_batch = replicate 10 cpu_sample"

lemma count_cpu: "count_batch r (replicate n cpu_sample) (i, j, l) = (i + int n, j, l + int n)"
  by (induction n arbitrary: i l) (simp_all add: cpu_sample_def WE_CLASS_def Let_def)

definition cpu_ob :: "bool \<Rightarrow> rat pgwt_anomaly_observation" where
  "cpu_ob blocked = \<lparr>ob_aas = 10, ob_lock_fraction = 0, ob_cpu_aas = 10, ob_cpu_capacity = -1,
     ob_cpu_capacity_affinity_only = False, ob_cpu_coverage_ok = True, ob_cpu_capacity_changed = False,
     ob_cpu_guard_blocked = blocked\<rparr>"

lemma cpu_batch_ob: "tick_observation rat_fp d eager_tick cpu_batch = cpu_ob (esc_active (d_escalation d))"
  by (simp add: tick_observation_def pgwt_anomaly_metrics_from_batch_def cpu_batch_def eager_tick_def cpu_ob_def rat_fp_def
      count_cpu)

definition eager_one :: "rat pgwt_anomaly" where
  "eager_one = pgwt_anomaly_escalation_succeeded (snd (pgwt_anomaly_eval_observation rat_fp eager_anomaly (cpu_ob False) 1000))"

lemma eager_decisions:
  "an_enabled eager_anomaly" "an_enabled eager_one" "an_escalation_s eager_anomaly = 60" "an_escalation_s eager_one = 60"
  "an_escalation_s (snd (pgwt_anomaly_eval_observation rat_fp eager_anomaly (cpu_ob False) 1000)) = 60"
  "de_action (fst (pgwt_anomaly_eval_observation rat_fp eager_anomaly (cpu_ob False) 1000)) = PGWT_ANOMALY_FIRE"
  "de_fired_mask (fst (pgwt_anomaly_eval_observation rat_fp eager_anomaly (cpu_ob False) 1000)) = 1"
  "de_action (fst (pgwt_anomaly_eval_observation rat_fp eager_one (cpu_ob True) 10000)) = PGWT_ANOMALY_FIRE"
  "de_fired_mask (fst (pgwt_anomaly_eval_observation rat_fp eager_one (cpu_ob True) 10000)) = 1"
  by code_simp+

definition eager_open :: pgwt_daemon where
  "eager_open = snd (pgwt_escalate (run_kernel 1000) run_start 60 ESC_REASON_ANOMALY)"

lemma eager_first:
  "pgwt_anomaly_tick rat_fp (run_kernel 1000) 1000 eager_tick cpu_batch (eager_anomaly, run_start) = (eager_one, eager_open)"
  "tick_granted rat_fp (run_kernel 1000) 1000 eager_tick cpu_batch (eager_anomaly, run_start)"
  using run_escalate(1) [of ESC_REASON_ANOMALY]
  by (simp_all add: pgwt_anomaly_tick_def tick_granted_def cpu_batch_ob run_start_fields eager_decisions is_granted_def
      settle_request_def eager_one_def eager_open_def rule_ids case_prod_unfold Let_def)

lemma eager_second: "tick_granted rat_fp (run_kernel 10000) 10000 eager_tick cpu_batch (eager_one, eager_open)"
proof -
  have e: "d_escalation eager_open = opened_esc (d_escalation run_start) 1001 60000000000 ESC_REASON_ANOMALY"
    by (simp add: eager_open_def run_escalate)
  have l: "ledger (d_escalation eager_open) = [open_seg 1001]"
    by (simp add: e opened_ledger run_start_fields)
  have f: "budget_ns (d_escalation eager_open) = 600000000000" "\<not> budget_unlimited (d_escalation eager_open)"
    "esc_window_start (d_escalation eager_open) 10000 = 0" "esc_active (d_escalation eager_open)"
    "esc_enabled (d_escalation eager_open)"
    by (simp_all add: e opened_fields run_start_fields esc_window_start_def)
  have dec: "pgwt_esc_budget_decide (d_escalation eager_open) 10000 60000000000 =
      (Grant 60000000000, d_escalation eager_open\<lparr>ledger := [open_seg 1001]\<rparr>)"
    by (simp add: pgwt_esc_budget_decide_def pgwt_esc_budget_consumed_ns_def f l Let_def)
  have "k_t0 (run_kernel 10000) = 10000" by (simp add: run_kernel_def)
  then have "is_granted (fst (pgwt_escalate (run_kernel 10000) eager_open 60 ESC_REASON_ANOMALY))"
    using dec f by (simp add: pgwt_escalate_def is_granted_def Let_def)
  then show ?thesis
    by (simp add: tick_granted_def cpu_batch_ob e opened_fields eager_decisions rule_ids case_prod_unfold Let_def)
qed

theorem anomaly_grants_cooldown_witness:
  "spaced 1000 [10000, 1000] \<and> (\<exists>now a d. (guard_step rat_fp)\<^sup>*\<^sup>* (1, eager_anomaly, run_start, []) (now, a, d, [10000, 1000]))"
proof -
  have k: "kernel_ok 1000 (run_kernel 1000)" "kernel_ok 10000 (run_kernel 10000)" by (rule run_kernel_ok; simp)+
  have 1: "guard_step rat_fp (1, eager_anomaly, run_start, []) (k_t2 (run_kernel 1000), eager_one, eager_open, [1000])"
    using guard_step.Tick [OF _ k(1) eager_first(1), of 1 "[]"] by (simp add: eager_first(2))
  have n: "k_t2 (run_kernel 1000) \<le> 10000" by (simp add: run_kernel_def)
  obtain now a d where 2: "guard_step rat_fp (k_t2 (run_kernel 1000), eager_one, eager_open, [1000]) (now, a, d, [10000, 1000])"
    using guard_step.Tick [where h = "[1000]", OF n k(2) surjective_pairing [of "pgwt_anomaly_tick rat_fp (run_kernel 10000)
      10000 eager_tick cpu_batch (eager_one, eager_open)"]] by (auto simp: eager_second)
  have r: "(guard_step rat_fp)\<^sup>*\<^sup>* (1, eager_anomaly, run_start, []) (now, a, d, [10000, 1000])"
    using 1 2 by (meson converse_rtranclp_into_rtranclp r_into_rtranclp)
  have s: "guard_start 1000 (1, eager_anomaly, run_start, [])"
    using run_start_start by (simp add: guard_start_def eager_anomaly_def)
  from anomaly_grants_cooldown [OF s r] r show ?thesis by blast
qed


text \<open>Two firings of the CPU rule with a saturated and a calm tick between them.\<close>

definition cpu_load :: "rat \<Rightarrow> rat pgwt_anomaly_observation" where
  "cpu_load n = \<lparr>ob_aas = 0, ob_lock_fraction = 0, ob_cpu_aas = n, ob_cpu_capacity = 4, ob_cpu_capacity_affinity_only = False,
     ob_cpu_coverage_ok = True, ob_cpu_capacity_changed = False, ob_cpu_guard_blocked = False\<rparr>"

definition load_anomaly :: "rat pgwt_anomaly" where
  "load_anomaly = quiet_anomaly\<lparr>an_cpu_cusum_h := 1 / 100, an_cooldown_ns := 1000\<rparr>"

definition load_run :: "rat eval_record list \<times> rat pgwt_anomaly" where
  "load_run = eval_run rat_fp load_anomaly [(cpu_load 10, 1000), (cpu_load 10, 2000), (cpu_load 0, 3000), (cpu_load 10, 4000)]"


text \<open>
  C8: Whatever the doubles do and whatever daemon each tick meets, the rule state stays well formed from
  its initialisation on, with any configured coverage gap: streaks and counters keep their ranges, the
  blind gap never exceeds its reset, there are at most three setup retries, pending retry rules name only
  known rules, and they are pending exactly while the retry count is nonzero, so that no back-off outlives
  its episode; and every decision is well formed: its masks are empty exactly where its action says so.
\<close>

theorem anomaly_run_wellformed:
  "let a = tick_run F (pgwt_anomaly_set_cpu_coverage_gap_s F (pgwt_anomaly_init F enabled hz) gap) xs
   in an_wf a \<and> dec_wf (fst (pgwt_anomaly_eval_observation F a ob now))"
  by (simp add: Let_def an_wf_run an_wf_start eval_dec_wf)

end
