(* ===== verification/Sampler.thy ===== *)
theory Sampler
  imports Anomaly
begin

text \<open>
  The sampler of src/src/sampler.c: the BPF-free core (nice parsing and scheduling, timer health, the read
  sweep, the command-gate recheck, the choice of the attribution source, the batch, coverage, effective
  period, read health, the pid join index) and, of one sampling tick, everything from the target list on:
  reading, invalidation, health, io-worker utilisation, the gate recheck, the batch, the live accumulator
  and the anomaly rules. What the traced processes and the kernel answer is a parameter. The registry walk
  that fills the target list, the maps it reads and log lines are left out; null pointers are not
  represented. The lemmas show that a value is never misattributed, that exactly the active targets reach
  the anomaly metrics, and that the live time model grows by the same demand.
\<close>

section \<open>Scheduling\<close>

text \<open>A C string is a list of characters without NUL; \<open>None\<close> is a null pointer.\<close>

abbreviation code :: "char \<Rightarrow> nat" where "code c \<equiv> of_char c"

definition is_space :: "char \<Rightarrow> bool" where
  "is_space c \<longleftrightarrow> code c = 32 \<or> (9 \<le> code c \<and> code c \<le> 13)"

definition is_digit :: "char \<Rightarrow> bool" where
  "is_digit c \<longleftrightarrow> 48 \<le> code c \<and> code c \<le> 57"

fun nice_digits :: "string \<Rightarrow> int \<Rightarrow> (int \<times> string) option" where
  "nice_digits [] v = Some (v, [])"
| "nice_digits (c # cs) v =
     (if is_digit c
      then let v = v * 10 + (int (code c) - 48) in if v > 20 then None else nice_digits cs v
      else Some (v, c # cs))"

definition pgwt_sampler_parse_nice :: "string option \<Rightarrow> int \<Rightarrow> int option" where
  "pgwt_sampler_parse_nice env default_nice =
     (case env of
        None \<Rightarrow> Some default_nice
      | Some s \<Rightarrow>
          if s = [] then Some default_nice
          else
            let p = dropWhile is_space s;
                negative = (p \<noteq> [] \<and> hd p = CHR ''-'');
                p = (if p \<noteq> [] \<and> (hd p = CHR ''-'' \<or> hd p = CHR ''+'') then tl p else p)
            in if p = [] \<or> \<not> is_digit (hd p) then None
               else case nice_digits p 0 of
                   None \<Rightarrow> None
                 | Some (v, p) \<Rightarrow>
                     let p = dropWhile is_space p; v = (if negative then - v else v)
                     in if p \<noteq> [] \<or> v < -20 \<or> v > 19 then None else Some v)"

datatype pgwt_sampler_sched_request =
  PGWT_SAMPLER_SCHED_LEAVE_ALONE | PGWT_SAMPLER_SCHED_APPLY int | PGWT_SAMPLER_SCHED_REFUSED

definition sched_request :: "string option \<Rightarrow> pgwt_sampler_sched_request" where
  "sched_request env =
     (if env = None \<or> env = Some [] then PGWT_SAMPLER_SCHED_LEAVE_ALONE
      else case pgwt_sampler_parse_nice env 0 of
          Some n \<Rightarrow> PGWT_SAMPLER_SCHED_APPLY n | None \<Rightarrow> PGWT_SAMPLER_SCHED_REFUSED)"

record pgwt_sampler_sched =
  sd_requested :: int
  sd_applied :: int
  sd_ok :: bool
  sd_err :: int

text \<open>The answers of setpriority (an errno, 0 for success) and getpriority (an errno or the value).\<close>

definition pgwt_sampler_apply_sched :: "(int \<Rightarrow> int) \<Rightarrow> (int + int) \<Rightarrow> int \<Rightarrow> pgwt_sampler_sched" where
  "pgwt_sampler_apply_sched setprio getprio want_nice =
     (let err = (if want_nice < -20 \<or> want_nice > 19 then 22 else if want_nice \<noteq> 0 then setprio want_nice else 0);
          applied = (case getprio of Inr n \<Rightarrow> n | Inl _ \<Rightarrow> 20);
          err = (if err \<noteq> 0 then err
                 else case getprio of Inl e \<Rightarrow> e | Inr n \<Rightarrow> if n = want_nice then 0 else 5)
      in \<lparr>sd_requested = want_nice, sd_applied = applied, sd_ok = (err = 0), sd_err = err\<rparr>)"

datatype pgwt_sampler_timer_health =
  PGWT_SAMPLER_TIMER_UNKNOWN | PGWT_SAMPLER_TIMER_OK | PGWT_SAMPLER_TIMER_DEGRADED

definition timer_health :: "u64 \<Rightarrow> u64 \<Rightarrow> u64 \<Rightarrow> pgwt_sampler_timer_health \<times> u32" where
  "timer_health ticks late_ns_total period_ns =
     (if ticks = 0 \<or> period_ns = 0 \<or> late_ns_total div ticks > 60000000000
      then (PGWT_SAMPLER_TIMER_UNKNOWN, 0)
      else
        let pct = (ucast late_ns_total :: 128 word) * 10000 div (ucast ticks * ucast period_ns)
        in (if pct \<ge> 2000 then PGWT_SAMPLER_TIMER_DEGRADED else PGWT_SAMPLER_TIMER_OK,
            if pct > 0xFFFFFFFF then 0xFFFFFFFF else ucast pct))"

section \<open>Reading the targets\<close>

record pgwt_sample_target =
  tg_pid :: int
  tg_wait_event_addr :: u64
  tg_query_id :: u64
  tg_last_query_id :: u64
  tg_databaseid :: u32
  tg_userid :: u32
  tg_query_quality :: u16
  tg_is_shared :: int
  tg_backend_type :: pgwt_backend_type
  tg_cmd_open :: bool
  tg_status_addr :: u64

text \<open>
  The reads of other processes: \<open>vm_readv\<close> is process_vm_readv of 32-bit words through a pid, the words it
  returned before it stopped; \<open>vm_pread\<close> opens and reads /proc/pid/mem; \<open>vm_read64\<close> reads one pointer-sized
  word.
\<close>

record vm =
  vm_readv :: "int \<Rightarrow> u64 list \<Rightarrow> u32 list"
  vm_pread :: "int \<Rightarrow> u64 \<Rightarrow> u32 option"
  vm_read64 :: "int \<Rightarrow> u64 \<Rightarrow> u64 option"

definition read_target_own_pid :: "vm \<Rightarrow> pgwt_sample_target \<Rightarrow> u32 option" where
  "read_target_own_pid m t =
     (if tg_pid t \<le> 0 \<or> tg_wait_event_addr t = 0 then None else vm_pread m (tg_pid t) (tg_wait_event_addr t))"

record readings =
  rd_vals :: "u32 list"
  rd_valid :: "bool list"
  rd_got :: int
  rd_faults :: u64

definition note_read :: "nat \<Rightarrow> u32 \<Rightarrow> readings \<Rightarrow> readings" where
  "note_read i v rd = rd\<lparr>rd_vals := (rd_vals rd)[i := v], rd_valid := (rd_valid rd)[i := True], rd_got := rd_got rd + 1\<rparr>"

definition note_own :: "vm \<Rightarrow> pgwt_sample_target list \<Rightarrow> nat \<Rightarrow> readings \<Rightarrow> readings" where
  "note_own m ts i rd = (case read_target_own_pid m (ts ! i) of Some v \<Rightarrow> note_read i v rd | None \<Rightarrow> rd)"

text \<open>The combined read of the batchable targets, resumed past every entry that faults.\<close>

function sweep :: "vm \<Rightarrow> pgwt_sample_target list \<Rightarrow> nat list \<Rightarrow> readings \<Rightarrow> readings" where
  "sweep m ts is rd =
     (case is of
        [] \<Rightarrow> rd
      | i # _ \<Rightarrow>
          let vs = take (length is) (vm_readv m (tg_pid (ts ! i)) (map (\<lambda>j. tg_wait_event_addr (ts ! j)) is));
              rd = fold (\<lambda>(j, v). note_read j v) (zip is vs) rd
          in case drop (length vs) is of
               [] \<Rightarrow> rd
             | j # js \<Rightarrow>
                 let rd = note_own m ts j rd
                 in sweep m ts js (rd\<lparr>rd_faults := rd_faults rd + 1\<rparr>))"
  by pat_completeness auto
termination
proof (relation "measure (\<lambda>(m, ts, is, rd). length is)", goal_cases)
  case (2 m ts "is" rd i xs vs x j js)
  from 2(4) have "length js < length is" by (metis impossible_Cons length_drop diff_le_self not_le le_trans)
  then show ?case by simp
qed simp

declare sweep.simps [simp del]

text \<open>\<open>mem\<close> says whether the scratch arrays could be allocated.\<close>

definition pgwt_sampler_read_targets :: "bool \<Rightarrow> vm \<Rightarrow> pgwt_sample_target list \<Rightarrow> u64 \<Rightarrow> readings" where
  "pgwt_sampler_read_targets mem m ts faults =
     (let n = length ts;
          rd = \<lparr>rd_vals = replicate n 0, rd_valid = replicate n False, rd_got = 0, rd_faults = faults\<rparr>
      in if n = 0 \<or> \<not> mem then rd
         else
           let rd = sweep m ts (filter (\<lambda>i. tg_is_shared (ts ! i) = 1) [0..<n]) rd
           in fold (note_own m ts) (filter (\<lambda>i. tg_is_shared (ts ! i) \<noteq> 1) [0..<n]) rd)"

text \<open>The backend's own command state; what cannot be read stays as it was.\<close>

definition pgwt_read_cmd_gate :: "vm \<Rightarrow> int \<Rightarrow> u64 \<Rightarrow> u64 \<Rightarrow> int \<Rightarrow> bool \<times> u64 \<Rightarrow> bool \<times> u64" where
  "pgwt_read_cmd_gate m p dqs_addr be_entry_addr st_query_id_off g =
     (if dqs_addr = 0 then g
      else case vm_read64 m p dqs_addr of
          None \<Rightarrow> g
        | Some dqs \<Rightarrow>
            let open_now = (dqs \<noteq> 0)
            in if open_now \<and> be_entry_addr \<noteq> 0 \<and> st_query_id_off > 0
               then (case vm_read64 m p be_entry_addr of
                       None \<Rightarrow> (open_now, snd g)
                     | Some be_ptr \<Rightarrow>
                         if be_ptr = 0 then (open_now, snd g)
                         else case vm_read64 m p (be_ptr + word_of_int st_query_id_off) of
                             None \<Rightarrow> (open_now, snd g)
                           | Some q \<Rightarrow> (open_now, q))
               else (open_now, snd g))"

section \<open>The command gate\<close>

definition pgwt_cpu_sample_recordable :: "pgwt_backend_type \<Rightarrow> bool \<Rightarrow> bool" where
  "pgwt_cpu_sample_recordable bt cmd_open =
     (case bt of PGWT_BT_CLIENT \<Rightarrow> cmd_open | PGWT_BT_UNKNOWN \<Rightarrow> cmd_open | PGWT_BT_LOGGER \<Rightarrow> False | _ \<Rightarrow> True)"

record pgwt_sampler_recheck_stats =
  rs_at_risk :: u64
  rs_recovered :: u64
  rs_confirmed_closed :: u64
  rs_read_failed :: u64

text \<open>A fresh gate read: failed, or whether a command is open and the query id it carried.\<close>

type_synonym gate_fn = "nat \<Rightarrow> pgwt_sample_target \<Rightarrow> (bool \<times> u64 option) option"

definition recheck_one :: "gate_fn \<Rightarrow> u32 list \<Rightarrow> bool list \<Rightarrow> nat
    \<Rightarrow> pgwt_sample_target list \<times> pgwt_sampler_recheck_stats \<Rightarrow> pgwt_sample_target list \<times> pgwt_sampler_recheck_stats" where
  "recheck_one gate vals valid i s =
     (let (ts, rs) = s; t = ts ! i in
      if \<not> valid ! i then (ts, rs)
      else if vals ! i \<noteq> 0 then (ts, rs)
      else if tg_backend_type t = PGWT_BT_LOGGER then (ts, rs)
      else if pgwt_cpu_sample_recordable (tg_backend_type t) (tg_cmd_open t) then (ts, rs)
      else
        let rs = rs\<lparr>rs_at_risk := rs_at_risk rs + 1\<rparr>
        in case gate i t of
             None \<Rightarrow> (ts, rs\<lparr>rs_read_failed := rs_read_failed rs + 1\<rparr>)
           | Some (open_now, q) \<Rightarrow>
               if \<not> open_now then (ts, rs\<lparr>rs_confirmed_closed := rs_confirmed_closed rs + 1\<rparr>)
               else
                 let t = t\<lparr>tg_cmd_open := True\<rparr>;
                     t = (case q of
                            None \<Rightarrow> t
                          | Some q \<Rightarrow> let t = t\<lparr>tg_query_id := q\<rparr>
                                     in if q \<noteq> 0 then t\<lparr>tg_query_quality := PGWT_QUERY_QUALITY_REAL\<rparr> else t)
                 in (ts[i := t], rs\<lparr>rs_recovered := rs_recovered rs + 1\<rparr>))"

definition zero_recheck :: pgwt_sampler_recheck_stats where
  "zero_recheck = \<lparr>rs_at_risk = 0, rs_recovered = 0, rs_confirmed_closed = 0, rs_read_failed = 0\<rparr>"

definition pgwt_sampler_recheck_cmd_gate :: "gate_fn \<Rightarrow> u32 list \<Rightarrow> bool list \<Rightarrow> pgwt_sample_target list
    \<Rightarrow> pgwt_sample_target list \<times> pgwt_sampler_recheck_stats" where
  "pgwt_sampler_recheck_cmd_gate gate vals valid ts =
     fold (recheck_one gate vals valid) [0..<length ts] (ts, zero_recheck)"

section \<open>The attribution source\<close>

record pgwt_sampled_attr_value =
  sv_query_id :: u64
  sv_cmd_open :: bool
  sv_last_query_id :: u64

datatype pgwt_sampled_attr_source =
    PGWT_SAMPLED_ATTR_UPROBE | PGWT_SAMPLED_ATTR_TICK | PGWT_SAMPLED_ATTR_UNATTRIBUTED | PGWT_SAMPLED_ATTR_DROP

definition pgwt_sampler_select_attr :: "bool \<Rightarrow> bool \<Rightarrow> pgwt_sampled_attr_value option \<Rightarrow> pgwt_sampled_attr_value option
    \<Rightarrow> pgwt_sample_target \<Rightarrow> pgwt_sampled_attr_source \<times> pgwt_sample_target" where
  "pgwt_sampler_select_attr tick_source_enabled tick_read_ok tick uprobe t =
     (let t = t\<lparr>tg_query_id := 0, tg_cmd_open := False, tg_last_query_id := 0\<rparr> in
      if \<not> tick_source_enabled then
        (PGWT_SAMPLED_ATTR_UPROBE,
         case uprobe of None \<Rightarrow> t | Some u \<Rightarrow> t\<lparr>tg_query_id := sv_query_id u, tg_cmd_open := sv_cmd_open u\<rparr>)
      else case (if tick_read_ok then tick else None) of
          None \<Rightarrow>
            (if tg_backend_type t = PGWT_BT_CLIENT \<or> tg_backend_type t = PGWT_BT_UNKNOWN
             then PGWT_SAMPLED_ATTR_DROP else PGWT_SAMPLED_ATTR_UNATTRIBUTED, t)
        | Some v \<Rightarrow>
            (PGWT_SAMPLED_ATTR_TICK,
             t\<lparr>tg_query_id := sv_query_id v, tg_cmd_open := sv_cmd_open v, tg_last_query_id := sv_last_query_id v\<rparr>))"

definition PGWT_SAMPLED_ATTR_MISMATCH_CMD_OPEN :: u32 where "PGWT_SAMPLED_ATTR_MISMATCH_CMD_OPEN = 1"
definition PGWT_SAMPLED_ATTR_MISMATCH_QUERY_ID :: u32 where "PGWT_SAMPLED_ATTR_MISMATCH_QUERY_ID = 2"

definition pgwt_sampled_attr_compare :: "pgwt_sampled_attr_value option \<Rightarrow> pgwt_sampled_attr_value option \<Rightarrow> u32" where
  "pgwt_sampled_attr_compare tick uprobe =
     (case (tick, uprobe) of
        (Some t, Some u) \<Rightarrow>
          (if sv_cmd_open t \<noteq> sv_cmd_open u then PGWT_SAMPLED_ATTR_MISMATCH_CMD_OPEN else 0) OR
          (if (if sv_cmd_open t then sv_query_id t else 0) \<noteq> (if sv_cmd_open u then sv_query_id u else 0)
           then PGWT_SAMPLED_ATTR_MISMATCH_QUERY_ID else 0)
      | _ \<Rightarrow> PGWT_SAMPLED_ATTR_MISMATCH_CMD_OPEN OR PGWT_SAMPLED_ATTR_MISMATCH_QUERY_ID)"

definition pgwt_sampled_attr_active_query_mismatch ::
  "pgwt_sampled_attr_value option \<Rightarrow> pgwt_sampled_attr_value option \<Rightarrow> bool" where
  "pgwt_sampled_attr_active_query_mismatch tick uprobe =
     (case (tick, uprobe) of (Some t, Some u) \<Rightarrow> sv_cmd_open t \<and> sv_query_id t \<noteq> sv_query_id u | _ \<Rightarrow> False)"

section \<open>The batch\<close>

text \<open>
  Written into a scratch array: a slot keeps the field the function does not write. The result is the
  records written, with the counts of garbage readings and of skipped on-CPU readings.
\<close>

definition sample_event :: "u64 \<Rightarrow> pgwt_sample_target \<Rightarrow> u32 \<Rightarrow> pgwt_trace_event \<Rightarrow> pgwt_trace_event" where
  "sample_event tick_ts t we slot =
     (let e = slot\<lparr>timestamp_ns := tick_ts, pid := word_of_int (tg_pid t), old_event := 0, new_event := we,
                   flags := (pgwt_backend_type_flag (tg_backend_type t) OR
                             (if tg_cmd_open t then PGWT_EVENT_FLAG_CMD_OPEN else 0)),
                   duration_ns := 0, query_id := tg_query_id t\<rparr>
      in if query_id e = 0 \<and> pgwt_is_session_idle_event we then e\<lparr>query_id := tg_last_query_id t\<rparr> else e)"

fun batch_loop :: "u64 \<Rightarrow> (pgwt_sample_target \<times> u32 \<times> bool) list \<Rightarrow> pgwt_trace_event list
    \<Rightarrow> u64 \<times> u64 \<Rightarrow> pgwt_trace_event list \<times> u64 \<times> u64" where
  "batch_loop tick_ts [] out c = ([], c)"
| "batch_loop tick_ts ((t, we, ok) # xs) out (invalid, skipped) =
     (if \<not> ok then batch_loop tick_ts xs out (invalid, skipped)
      else if we = 0 \<and> \<not> pgwt_cpu_sample_recordable (tg_backend_type t) (tg_cmd_open t)
      then batch_loop tick_ts xs out (invalid, skipped + 1)
      else if we \<noteq> 0 \<and> pgwt_classify_wei we = PGWT_WEI_GARBAGE
      then batch_loop tick_ts xs out (invalid + 1, skipped)
      else
        let (es, c) = batch_loop tick_ts xs (tl out) (invalid, skipped)
        in (sample_event tick_ts t we (hd out) # es, c))"

definition pgwt_sampler_build_batch :: "pgwt_sample_target list \<Rightarrow> u32 list \<Rightarrow> bool list \<Rightarrow> u64
    \<Rightarrow> pgwt_trace_event list \<Rightarrow> u64 \<times> u64 \<Rightarrow> pgwt_trace_event list \<times> u64 \<times> u64" where
  "pgwt_sampler_build_batch ts vals valid tick_ts out c = batch_loop tick_ts (zip ts (zip vals valid)) out c"

section \<open>Coverage, periods and read health\<close>

record pgwt_sampler_health =
  he_healthy :: bool
  he_consec_failed_ticks :: u64
  he_failed_ticks_total :: u64
  he_last_log_ns :: u64
  he_last_errno :: int

datatype pgwt_sampler_health_action = PGWT_SAMPLER_LOG_NONE | PGWT_SAMPLER_LOG_DEGRADED | PGWT_SAMPLER_LOG_RECOVERED

record pgwt_sampler =
  sm_sample_period_ns :: u64
  sm_last_tick_ns :: u64
  sm_samples :: "pgwt_trace_event list"
  sm_health :: pgwt_sampler_health
  sm_read_targets_last :: u32
  sm_read_valid_last :: u32
  sm_read_invalid_last :: u32
  sm_samples_total :: u64
  sm_read_faults_total :: u64
  sm_read_failures_total :: u64

definition pgwt_sampler_note_coverage :: "pgwt_sampler \<Rightarrow> int \<Rightarrow> int \<Rightarrow> pgwt_sampler" where
  "pgwt_sampler_note_coverage s targets valid =
     (let targets = (if targets < 0 then 0 else targets);
          valid = (if valid < 0 then 0 else valid);
          valid = (if valid > targets then targets else valid);
          invalid = word_of_int (targets - valid)
      in s\<lparr>sm_read_targets_last := word_of_int targets, sm_read_valid_last := word_of_int valid,
           sm_read_invalid_last := invalid,
           sm_read_failures_total := sm_read_failures_total s + ucast invalid\<rparr>)"

definition pgwt_sampler_effective_period :: "u64 \<Rightarrow> u64 \<Rightarrow> u64 \<Rightarrow> u64" where
  "pgwt_sampler_effective_period nominal_ns last_tick_ns now_ns =
     (if last_tick_ns = 0 \<or> now_ns \<le> last_tick_ns then nominal_ns
      else let elapsed = now_ns - last_tick_ns
           in if elapsed < nominal_ns then nominal_ns
              else if elapsed > 60 * 1000000000 then 60 * 1000000000 else elapsed)"

definition pgwt_sampler_tick_lateness :: "u64 \<Rightarrow> u64 \<Rightarrow> u64 \<Rightarrow> u64" where
  "pgwt_sampler_tick_lateness armed_ns armed_at_ns now_ns =
     (if armed_at_ns = 0 \<or> now_ns \<le> armed_at_ns then 0
      else let elapsed = now_ns - armed_at_ns in if elapsed > armed_ns then elapsed - armed_ns else 0)"

definition pgwt_sampler_health_note :: "pgwt_sampler_health \<Rightarrow> int \<Rightarrow> int \<Rightarrow> int \<Rightarrow> u64
    \<Rightarrow> pgwt_sampler_health_action \<times> pgwt_sampler_health" where
  "pgwt_sampler_health_note h n_targets n_read err_no now_ns =
     (if n_targets \<le> 0 then (PGWT_SAMPLER_LOG_NONE, h)
      else if n_read > 0 then
        (if he_healthy h then PGWT_SAMPLER_LOG_NONE else PGWT_SAMPLER_LOG_RECOVERED,
         h\<lparr>he_healthy := True, he_consec_failed_ticks := 0\<rparr>)
      else
        let h = h\<lparr>he_consec_failed_ticks := he_consec_failed_ticks h + 1,
                  he_failed_ticks_total := he_failed_ticks_total h + 1, he_last_errno := err_no, he_healthy := False\<rparr>
        in if he_consec_failed_ticks h = 1 \<or> now_ns - he_last_log_ns h \<ge> 60 * 1000000000
           then (PGWT_SAMPLER_LOG_DEGRADED, h\<lparr>he_last_log_ns := now_ns\<rparr>)
           else (PGWT_SAMPLER_LOG_NONE, h))"

section \<open>The pid join index\<close>

record pgwt_qid_entry =
  qn_pid :: u32
  qn_query_id :: u64
  qn_cmd_open :: bool
  qn_shadow_valid :: bool

text \<open>qsort by pid; the pids are the keys of a map, so the sorted array is unique.\<close>

definition qid_entries_sort :: "pgwt_qid_entry list \<Rightarrow> pgwt_qid_entry list" where
  "qid_entries_sort es = sort_key qn_pid es"

function qid_search :: "pgwt_qid_entry list \<Rightarrow> u32 \<Rightarrow> int \<Rightarrow> int \<Rightarrow> pgwt_qid_entry option" where
  "qid_search es p lo hi =
     (if lo \<le> hi
      then let mid = lo + (hi - lo) div 2; e = es ! nat mid
           in if qn_pid e = p then Some e
              else if qn_pid e < p then qid_search es p (mid + 1) hi
              else qid_search es p lo (mid - 1)
      else None)"
  by pat_completeness auto
termination by (relation "measure (\<lambda>(es, p, lo, hi). nat (hi - lo + 1))") auto

declare qid_search.simps [simp del]

definition qid_entries_get :: "pgwt_qid_entry list \<Rightarrow> u32 \<Rightarrow> pgwt_qid_entry option" where
  "qid_entries_get es p = qid_search es p 0 (int (length es) - 1)"

definition qid_entries_lookup :: "pgwt_qid_entry list \<Rightarrow> u32 \<Rightarrow> u64" where
  "qid_entries_lookup es p = (case qid_entries_get es p of Some e \<Rightarrow> qn_query_id e | None \<Rightarrow> 0)"

definition pgwt_exact_attr_shadow_comparable :: "pgwt_exact_attr option \<Rightarrow> u64 \<Rightarrow> bool" where
  "pgwt_exact_attr_shadow_comparable edge generation =
     (case edge of None \<Rightarrow> False | Some e \<Rightarrow> query_generation e = generation \<and> cmd_generation e = generation)"

section \<open>The live accumulator\<close>

definition pgwt_find_backend :: "pgwt_backend list \<Rightarrow> int \<Rightarrow> pgwt_backend option" where
  "pgwt_find_backend bes p = map_option ((!) bes) (first_idx (\<lambda>be. be_pid be = p) bes)"

text \<open>While a window is open, the ring buffer owns the pids with a live watchpoint.\<close>

definition sample_covered :: "pgwt_daemon \<Rightarrow> pgwt_trace_event \<Rightarrow> bool" where
  "sample_covered d ev \<longleftrightarrow> esc_active (d_escalation d) \<and>
     (case pgwt_find_backend (d_backends d) (sint (pid ev)) of None \<Rightarrow> False | Some be \<Rightarrow> be_wp_fd be \<ge> 0)"

definition sample_to_pid :: "idle_state \<Rightarrow> u32 \<Rightarrow> u64 \<Rightarrow> bool \<Rightarrow> pgwt_pid_accum \<Rightarrow> pgwt_pid_accum" where
  "sample_to_pid r we dur io_worker pa =
     (let pa = (case pgwt_get_or_create_event pa we of
                  (None, pa) \<Rightarrow> pa
                | (Some i, pa) \<Rightarrow> pa\<lparr>pa_events := (pa_events pa)[i := add_event_stats (pa_events pa ! i) dur True]\<rparr>)
      in if io_worker then pa
         else if we = 0
         then pa\<lparr>pa_cpu_time_ns := pa_cpu_time_ns pa + dur, pa_db_time_ns := pa_db_time_ns pa + dur\<rparr>
         else if \<not> pgwt_is_idle_event r we
         then pa\<lparr>pa_wait_time_ns := pa_wait_time_ns pa + dur, pa_db_time_ns := pa_db_time_ns pa + dur\<rparr>
         else pa)"

definition sample_to_system :: "u32 \<Rightarrow> u64 \<Rightarrow> pgwt_accumulator \<Rightarrow> pgwt_accumulator" where
  "sample_to_system we dur acc =
     (case pgwt_get_or_create_system_event acc we of
        (None, acc) \<Rightarrow> acc
      | (Some i, acc) \<Rightarrow>
          acc\<lparr>acc_system_events := (acc_system_events acc)[i := add_event_stats (acc_system_events acc ! i) dur True]\<rparr>)"

text \<open>The flag says that the sample was idle inside a command.\<close>

definition accumulate_sample :: "u64 \<Rightarrow> pgwt_trace_event \<Rightarrow> pgwt_daemon \<Rightarrow> bool \<times> pgwt_daemon" where
  "accumulate_sample dur ev d =
     (let we = new_event ev; io_worker = (flags ev AND PGWT_EVENT_FLAG_IO_WORKER \<noteq> 0); r = d_idle_rule d in
      if PGWT_IS_MARKER we \<or> sample_covered d ev then (False, d)
      else
        let (pa, acc) = pgwt_get_or_create_pid (d_event_accum d) (pid ev);
            acc = (case pa of
                     None \<Rightarrow> acc
                   | Some i \<Rightarrow> acc\<lparr>acc_pids := (acc_pids acc)[i := sample_to_pid r we dur io_worker (acc_pids acc ! i)]\<rparr>);
            acc = sample_to_system we dur acc;
            acc = (if io_worker then acc else acc\<lparr>acc_tm := pgwt_update_time_model r (acc_tm acc) we dur\<rparr>);
            cat_flag = flags ev AND (PGWT_EVENT_FLAG_IO_WORKER OR PGWT_EVENT_FLAG_MAINT OR PGWT_EVENT_FLAG_BACKGROUND);
            (idle, acc) = pgwt_live_qattr_sample r acc pa (query_id ev) we dur cat_flag
                            (flags ev AND PGWT_EVENT_FLAG_CMD_OPEN \<noteq> 0)
        in (idle, d\<lparr>d_event_accum := acc\<rparr>))"

text \<open>The second component counts idle samples inside a command.\<close>

fun pgwt_sampler_accumulate :: "u64 \<Rightarrow> pgwt_trace_event list \<Rightarrow> pgwt_daemon \<times> u64 \<Rightarrow> pgwt_daemon \<times> u64" where
  "pgwt_sampler_accumulate period_ns [] s = s"
| "pgwt_sampler_accumulate period_ns (ev # evs) (d, n) =
     (let (idle, d) = accumulate_sample period_ns ev d
      in pgwt_sampler_accumulate period_ns evs (d, if idle then n + 1 else n))"

section \<open>One tick\<close>

text \<open>The tick's inputs: the target list with the verdict of its attribution read, and the answers it gets.\<close>

record poll_input =
  pi_targets :: "pgwt_sample_target list"
  pi_attr_valid :: "bool list"
  pi_attr_errno :: int
  pi_read_errno :: int
  pi_mem :: bool
  pi_vm :: vm
  pi_tick_source :: bool
  pi_gate :: gate_fn
  pi_debug_query_string_addr :: u64
  pi_my_be_entry_addr :: u64
  pi_st_query_id_offset :: int

record sampler_counters =
  sc_sample_read_faults_total :: u64
  sc_io_worker_samples_total :: u64
  sc_io_worker_busy_total :: u64
  sc_cmd_gate_order_at_risk_total :: u64
  sc_cmd_gate_order_recovered_total :: u64
  sc_cmd_gate_order_read_failed_total :: u64
  sc_cmd_gate_recovered_total :: u64
  sc_invalid_wait_reads_total :: u64
  sc_noncmd_cpu_samples_total :: u64
  sc_sampled_idle_in_command_total :: u64
  sc_samples_total :: u64

definition io_utilisation :: "idle_state \<Rightarrow> pgwt_sample_target \<times> u32 \<times> bool \<Rightarrow> sampler_counters \<Rightarrow> sampler_counters" where
  "io_utilisation r x sc =
     (let (t, we, ok) = x in
      if \<not> ok \<or> tg_backend_type t \<noteq> PGWT_BT_IO_WORKER then sc
      else let sc = sc\<lparr>sc_io_worker_samples_total := sc_io_worker_samples_total sc + 1\<rparr>
           in if we = 0 \<or> \<not> pgwt_is_idle_event r we
              then sc\<lparr>sc_io_worker_busy_total := sc_io_worker_busy_total sc + 1\<rparr> else sc)"

text \<open>The recovery of the edge-maintained source.\<close>

definition recover_gate :: "poll_input \<Rightarrow> pgwt_sample_target \<times> u32 \<times> bool \<Rightarrow> bool \<times> pgwt_sample_target" where
  "recover_gate pin x =
     (let (t, we, ok) = x in
      if \<not> ok \<or> we \<noteq> 0 \<or> tg_cmd_open t then (False, t)
      else if tg_backend_type t \<noteq> PGWT_BT_CLIENT \<and> tg_backend_type t \<noteq> PGWT_BT_UNKNOWN then (False, t)
      else
        let (cg, qg) = pgwt_read_cmd_gate (pi_vm pin) (tg_pid t) (pi_debug_query_string_addr pin)
                         (pi_my_be_entry_addr pin) (pi_st_query_id_offset pin) (False, tg_query_id t)
        in if cg then (True, t\<lparr>tg_cmd_open := True, tg_query_id := qg\<rparr>) else (False, t))"

definition settle_gates :: "poll_input \<Rightarrow> u32 list \<Rightarrow> bool list \<Rightarrow> sampler_counters
    \<Rightarrow> pgwt_sample_target list \<times> sampler_counters" where
  "settle_gates pin vals valid sc =
     (if pi_tick_source pin then
        let (ts, rs) = pgwt_sampler_recheck_cmd_gate (pi_gate pin) vals valid (pi_targets pin)
        in (ts, sc\<lparr>sc_cmd_gate_order_at_risk_total := sc_cmd_gate_order_at_risk_total sc + rs_at_risk rs,
                   sc_cmd_gate_order_recovered_total := sc_cmd_gate_order_recovered_total sc + rs_recovered rs,
                   sc_cmd_gate_order_read_failed_total := sc_cmd_gate_order_read_failed_total sc + rs_read_failed rs\<rparr>)
      else if pi_debug_query_string_addr pin \<noteq> 0 then
        let xs = map (recover_gate pin) (zip (pi_targets pin) (zip vals valid))
        in (map snd xs, sc\<lparr>sc_cmd_gate_recovered_total := sc_cmd_gate_recovered_total sc + of_nat (length (filter fst xs))\<rparr>)
      else (pi_targets pin, sc))"

text \<open>Reading: the values and which of them count, with coverage, read health and io-worker utilisation noted.\<close>

definition sampler_read :: "u64 \<Rightarrow> poll_input \<Rightarrow> idle_state \<Rightarrow> pgwt_sampler \<times> sampler_counters
    \<Rightarrow> u32 list \<times> bool list \<times> pgwt_sampler \<times> sampler_counters" where
  "sampler_read tick_ts pin r st =
     (let (s, sc) = st;
          rd = pgwt_sampler_read_targets (pi_mem pin) (pi_vm pin) (pi_targets pin) (sm_read_faults_total s);
          sc = sc\<lparr>sc_sample_read_faults_total := sc_sample_read_faults_total sc + (rd_faults rd - sm_read_faults_total s)\<rparr>;
          s = s\<lparr>sm_read_faults_total := rd_faults rd\<rparr>;
          valid = map2 (\<and>) (rd_valid rd) (pi_attr_valid pin);
          got = rd_got rd - int (length (filter (\<lambda>(v, a). v \<and> \<not> a) (zip (rd_valid rd) (pi_attr_valid pin))));
          n = int (length (pi_targets pin));
          err = (if got = 0 \<and> pi_attr_errno pin \<noteq> 0 then pi_attr_errno pin else pi_read_errno pin);
          s = pgwt_sampler_note_coverage s n got;
          s = s\<lparr>sm_health := snd (pgwt_sampler_health_note (sm_health s) n got err tick_ts)\<rparr>;
          sc = fold (io_utilisation r) (zip (pi_targets pin) (zip (rd_vals rd) valid)) sc
      in (rd_vals rd, valid, s, sc))"

text \<open>Up to the accumulator: the sampler, the counters, the daemon, the batch and the period of its records.\<close>

definition sampler_observe :: "u64 \<Rightarrow> poll_input \<Rightarrow> pgwt_sampler \<times> sampler_counters \<times> pgwt_daemon
    \<Rightarrow> pgwt_sampler \<times> sampler_counters \<times> pgwt_daemon \<times> pgwt_trace_event list \<times> u64" where
  "sampler_observe tick_ts pin st =
     (let (s, sc, d) = st;
          period_ns = pgwt_sampler_effective_period (sm_sample_period_ns s) (sm_last_tick_ns s) tick_ts;
          (vals, valid, s, sc) = sampler_read tick_ts pin (d_idle_rule d) (s\<lparr>sm_last_tick_ns := tick_ts\<rparr>, sc);
          (ts, sc) = settle_gates pin vals valid sc;
          (batch, inv, skip) = pgwt_sampler_build_batch ts vals valid tick_ts (sm_samples s)
            (sc_invalid_wait_reads_total sc, sc_noncmd_cpu_samples_total sc);
          s = s\<lparr>sm_samples := batch @ drop (length batch) (sm_samples s)\<rparr>;
          sc = sc\<lparr>sc_invalid_wait_reads_total := inv, sc_noncmd_cpu_samples_total := skip\<rparr>;
          (d, idle) = pgwt_sampler_accumulate period_ns batch (d, sc_sampled_idle_in_command_total sc)
      in (s, sc\<lparr>sc_sampled_idle_in_command_total := idle\<rparr>, d, batch, period_ns))"

text \<open>The whole tick; the last component is the block handed to the trace writer.\<close>

definition pgwt_sampler_poll :: "'f fp \<Rightarrow> kernel \<Rightarrow> u64 \<Rightarrow> u64 \<Rightarrow> 'f tick_input \<Rightarrow> poll_input
    \<Rightarrow> pgwt_sampler \<times> sampler_counters \<times> 'f pgwt_anomaly \<times> pgwt_daemon
    \<Rightarrow> (pgwt_sampler \<times> sampler_counters \<times> 'f pgwt_anomaly \<times> pgwt_daemon) \<times> (pgwt_trace_event list \<times> u64) option" where
  "pgwt_sampler_poll F k tick_ts now ti pin st =
     (let (s, sc, a, d) = st in
      if pi_targets pin = []
      then ((pgwt_sampler_note_coverage (s\<lparr>sm_last_tick_ns := tick_ts\<rparr>) 0 0, sc, a, d), None)
      else
        let (s, sc, d, batch, period_ns) = sampler_observe tick_ts pin (s, sc, d);
            (a, d) = pgwt_anomaly_tick F k now (ti\<lparr>ti_read_invalid := Some (sm_read_invalid_last s)\<rparr>) batch (a, d);
            n = of_nat (length batch)
        in if batch = [] then ((s, sc, a, d), None)
           else ((s\<lparr>sm_samples_total := sm_samples_total s + n\<rparr>, sc\<lparr>sc_samples_total := sc_samples_total sc + n\<rparr>, a, d),
                 if d_event_writer d = None then None else Some (batch, period_ns)))"

section \<open>What is read\<close>

text \<open>
  The address spaces: \<open>own p a\<close> is the word at address \<open>a\<close> of process \<open>p\<close>. Both ways of reading return
  words of the process they go through.
\<close>

definition vm_ok :: "vm \<Rightarrow> (int \<Rightarrow> u64 \<Rightarrow> u32) \<Rightarrow> bool" where
  "vm_ok m own \<longleftrightarrow>
     (\<forall>p as j. j < length as \<and> j < length (vm_readv m p as) \<longrightarrow> vm_readv m p as ! j = own p (as ! j)) \<and>
     (\<forall>p a v. vm_pread m p a = Some v \<longrightarrow> v = own p a)"

definition own_value :: "(int \<Rightarrow> u64 \<Rightarrow> u32) \<Rightarrow> pgwt_sample_target \<Rightarrow> u32" where
  "own_value own t = own (tg_pid t) (tg_wait_event_addr t)"

text \<open>A target marked shared lies in a mapping that all the targets share.\<close>

definition shared_ok :: "(int \<Rightarrow> u64 \<Rightarrow> u32) \<Rightarrow> pgwt_sample_target list \<Rightarrow> bool" where
  "shared_ok own ts \<longleftrightarrow>
     list_all (\<lambda>t. tg_is_shared t = 1 \<longrightarrow> list_all (\<lambda>u. own (tg_pid u) (tg_wait_event_addr t) = own_value own t) ts) ts"

definition rd_ok :: "(int \<Rightarrow> u64 \<Rightarrow> u32) \<Rightarrow> pgwt_sample_target list \<Rightarrow> readings \<Rightarrow> bool" where
  "rd_ok own ts rd \<longleftrightarrow> length (rd_vals rd) = length ts \<and> length (rd_valid rd) = length ts \<and>
     (\<forall>i < length ts. rd_vals rd ! i = (if rd_valid rd ! i then own_value own (ts ! i) else 0)) \<and>
     rd_got rd = int (count_list (rd_valid rd) True)"

text \<open>How a reading step may change the readings of the indices \<open>is\<close>.\<close>

definition rd_step :: "(int \<Rightarrow> u64 \<Rightarrow> u32) \<Rightarrow> pgwt_sample_target list \<Rightarrow> nat set \<Rightarrow> readings \<Rightarrow> readings \<Rightarrow> bool" where
  "rd_step own ts I rd rd' \<longleftrightarrow> rd_ok own ts rd' \<and> (\<forall>i. i \<notin> I \<longrightarrow> rd_valid rd' ! i = rd_valid rd ! i)"

lemma count_list_set_True: "i < length bs \<Longrightarrow> \<not> bs ! i \<Longrightarrow> count_list (bs[i := True]) True = Suc (count_list bs True)"
  by (induction bs arbitrary: i) (auto split: nat.split simp: nth_Cons')

lemma note_read_step:
  assumes "rd_ok own ts rd" and "i < length ts" and "\<not> rd_valid rd ! i" and "v = own_value own (ts ! i)"
  shows "rd_step own ts {i} rd (note_read i v rd)" and "rd_valid (note_read i v rd) ! i"
  using assms by (auto simp: rd_step_def rd_ok_def note_read_def nth_list_update count_list_set_True)

lemma rd_step_trans:
  "rd_step own ts I rd rd1 \<Longrightarrow> rd_step own ts J rd1 rd2 \<Longrightarrow> rd_step own ts (I \<union> J) rd rd2"
  by (auto simp: rd_step_def)

lemma rd_step_refl: "rd_ok own ts rd \<Longrightarrow> rd_step own ts I rd rd"
  by (simp add: rd_step_def)

lemma own_read:
  assumes "vm_ok m own" and "rd_ok own ts rd" and "i < length ts" and "\<not> rd_valid rd ! i"
  shows "rd_step own ts {i} rd (note_own m ts i rd)"
    and "read_target_own_pid m (ts ! i) \<noteq> None \<Longrightarrow> rd_valid (note_own m ts i rd) ! i"
  using assms note_read_step [OF assms(2-4)] rd_step_refl [OF assms(2)]
  by (auto simp: note_own_def read_target_own_pid_def vm_ok_def own_value_def split: option.splits if_splits)

text \<open>Reading a list of distinct unread indices, one after the other.\<close>

lemma reads_step:
  assumes "\<And>x rd. x \<in> set xs \<Longrightarrow> rd_ok own ts rd \<Longrightarrow> \<not> rd_valid rd ! g x \<Longrightarrow> rd_step own ts {g x} rd (f x rd)"
    and "\<And>x rd. x \<in> set xs \<Longrightarrow> c \<Longrightarrow> rd_ok own ts rd \<Longrightarrow> \<not> rd_valid rd ! g x \<Longrightarrow> rd_valid (f x rd) ! g x"
    and "rd_ok own ts rd" and "distinct (map g xs)" and "\<forall>x \<in> set xs. \<not> rd_valid rd ! g x"
  shows "rd_step own ts (set (map g xs)) rd (fold f xs rd) \<and> (c \<longrightarrow> (\<forall>x \<in> set xs. rd_valid (fold f xs rd) ! g x))"
  using assms
proof (induction xs arbitrary: rd)
  case (Cons x xs)
  have s: "rd_step own ts {g x} rd (f x rd)" and v: "c \<Longrightarrow> rd_valid (f x rd) ! g x" using Cons.prems by auto
  have n: "\<forall>y \<in> set xs. \<not> rd_valid (f x rd) ! g y" "rd_ok own ts (f x rd)"
    using s Cons.prems(4,5) by (auto simp: rd_step_def) (metis image_eqI)
  have I: "rd_step own ts (set (map g xs)) (f x rd) (fold f xs (f x rd)) \<and>
      (c \<longrightarrow> (\<forall>y \<in> set xs. rd_valid (fold f xs (f x rd)) ! g y))"
    using Cons.prems n by (intro Cons.IH) auto
  moreover have "g x \<notin> set (map g xs)" using Cons.prems(4) by simp
  ultimately show ?case using rd_step_trans [OF s] v by (auto simp: rd_step_def)
qed (auto simp: rd_step_refl)

lemma batch_read:
  assumes "vm_ok m own" and "shared_ok own ts" and "rd_ok own ts rd" and "distinct is" and "is \<noteq> []"
    and "\<forall>i \<in> set is. i < length ts \<and> tg_is_shared (ts ! i) = 1 \<and> \<not> rd_valid rd ! i"
    and "vs = take (length is) (vm_readv m (tg_pid (ts ! hd is)) (map (\<lambda>j. tg_wait_event_addr (ts ! j)) is))"
  shows "rd_step own ts (set (take (length vs) is)) rd (fold (\<lambda>(j, v). note_read j v) (zip is vs) rd) \<and>
    (\<forall>i \<in> set (take (length vs) is). rd_valid (fold (\<lambda>(j, v). note_read j v) (zip is vs) rd) ! i)"
proof -
  have l: "length vs \<le> length is" using assms(7) by simp
  have fst: "map fst (zip is vs) = take (length vs) is" using l by (simp add: map_fst_zip_take)
  have val: "v = own_value own (ts ! j)" if "(j, v) \<in> set (zip is vs)" for j v
  proof -
    from that obtain n where n: "n < length vs" "j = is ! n" "v = vs ! n" by (auto simp: set_zip)
    have "hd is < length ts" "j \<in> set is" using assms(5,6) n l by auto
    then have "own (tg_pid (ts ! hd is)) (tg_wait_event_addr (ts ! j)) = own_value own (ts ! j)"
      using assms(2,6) unfolding shared_ok_def list_all_iff by (metis nth_mem)
    then show ?thesis using assms(1,7) n l unfolding vm_ok_def by simp
  qed
  have *: "rd_step own ts (set (map fst (zip is vs))) rd (fold (\<lambda>x. note_read (fst x) (snd x)) (zip is vs) rd) \<and>
      (True \<longrightarrow> (\<forall>x \<in> set (zip is vs). rd_valid (fold (\<lambda>x. note_read (fst x) (snd x)) (zip is vs) rd) ! fst x))"
  proof (rule reads_step [OF _ _ assms(3)])
    show "distinct (map fst (zip is vs))" using fst assms(4) by simp
    show "\<forall>x \<in> set (zip is vs). \<not> rd_valid rd ! fst x" using assms(6) by (auto dest: set_zip_leftD)
    fix x rd'
    assume x: "x \<in> set (zip is vs)" "rd_ok own ts rd'" "\<not> rd_valid rd' ! fst x"
    have "fst x \<in> set is" using x(1) by (metis prod.collapse set_zip_leftD)
    then have "fst x < length ts" "snd x = own_value own (ts ! fst x)"
      using assms(6) val [of "fst x" "snd x"] x(1) by auto
    note N = note_read_step [OF x(2) this(1) x(3) this(2)]
    show "rd_step own ts {fst x} rd' (note_read (fst x) (snd x) rd')" by (rule N(1))
    show "rd_valid (note_read (fst x) (snd x) rd') ! fst x" by (rule N(2))
  qed
  moreover have "set (take (length vs) is) = fst ` set (zip is vs)" using fst by (metis set_map)
  ultimately show ?thesis by (simp add: case_prod_unfold)
qed

lemma rd_faults_step [simp]: "rd_step own ts I rd (rd'\<lparr>rd_faults := n\<rparr>) = rd_step own ts I rd rd'"
  by (simp add: rd_step_def rd_ok_def)

lemma sweep_step:
  assumes "vm_ok m own" and "shared_ok own ts"
  shows "rd_ok own ts rd \<Longrightarrow> distinct is \<Longrightarrow>
    \<forall>i \<in> set is. i < length ts \<and> tg_is_shared (ts ! i) = 1 \<and> \<not> rd_valid rd ! i \<Longrightarrow>
    rd_step own ts (set is) rd (sweep m ts is rd) \<and>
    (list_all (\<lambda>t. read_target_own_pid m t \<noteq> None) ts \<longrightarrow> (\<forall>i \<in> set is. rd_valid (sweep m ts is rd) ! i))"
proof (induction "length is" arbitrary: "is" rd rule: less_induct)
  case less
  show ?case
  proof (cases "is = []")
    case True
    then show ?thesis using less.prems by (simp add: sweep.simps rd_step_refl)
  next
    case False
    define vs where "vs = take (length is) (vm_readv m (tg_pid (ts ! hd is)) (map (\<lambda>j. tg_wait_event_addr (ts ! j)) is))"
    define rd1 where "rd1 = fold (\<lambda>(j, v). note_read j v) (zip is vs) rd"
    have B: "rd_step own ts (set (take (length vs) is)) rd rd1" "\<forall>i \<in> set (take (length vs) is). rd_valid rd1 ! i"
      using batch_read [OF assms less.prems(1,2) False less.prems(3) vs_def] by (simp_all add: rd1_def)
    have sw: "sweep m ts is rd = (case drop (length vs) is of [] \<Rightarrow> rd1
        | j # js \<Rightarrow> sweep m ts js ((note_own m ts j rd1)\<lparr>rd_faults := rd_faults (note_own m ts j rd1) + 1\<rparr>))"
      using False by (subst sweep.simps) (cases "is"; simp add: vs_def rd1_def Let_def split: list.split)
    show ?thesis
    proof (cases "drop (length vs) is")
      case Nil
      then have "take (length vs) is = is" by simp
      then show ?thesis using B by (simp add: sw Nil)
    next
      case (Cons j js)
      define rd2 where "rd2 = note_own m ts j rd1"
      have split: "is = take (length vs) is @ j # js" using Cons by (metis append_take_drop_id)
      have d: "distinct (take (length vs) is @ j # js)" using less.prems(2) split by simp
      have set: "set is = set (take (length vs) is) \<union> insert j (set js)" by (subst split) simp
      have ok1: "rd_ok own ts rd1" and un: "\<forall>i \<in> insert j (set js). \<not> rd_valid rd1 ! i"
        using B(1) d less.prems(3) set by (auto simp: rd_step_def)
      have j: "j < length ts" "\<not> rd_valid rd1 ! j" using less.prems(3) set un by auto
      note O = own_read [OF assms(1) ok1 j, folded rd2_def]
      have "length js < length is" by (subst split) simp
      moreover have "rd_ok own ts (rd2\<lparr>rd_faults := rd_faults rd2 + 1\<rparr>)" using O(1) by (simp add: rd_step_def rd_ok_def)
      moreover have "\<forall>i \<in> set js. i < length ts \<and> tg_is_shared (ts ! i) = 1 \<and> \<not> rd_valid rd2 ! i"
        using O(1) un d less.prems(3) set by (auto simp: rd_step_def)
      ultimately have I: "rd_step own ts (set js) rd2 (sweep m ts is rd) \<and>
          (list_all (\<lambda>t. read_target_own_pid m t \<noteq> None) ts \<longrightarrow> (\<forall>i \<in> set js. rd_valid (sweep m ts is rd) ! i))"
        using less.hyps [of js "rd2\<lparr>rd_faults := rd_faults rd2 + 1\<rparr>"] d by (simp add: sw Cons rd2_def rd_step_def)
      have "rd_step own ts (set is) rd (sweep m ts is rd)"
        using rd_step_trans [OF rd_step_trans [OF B(1) O(1)] conjunct1 [OF I]] by (simp add: set Un_assoc)
      moreover have "list_all (\<lambda>t. read_target_own_pid m t \<noteq> None) ts \<Longrightarrow> rd_valid rd2 ! j"
        using O(2) j(1) by (simp add: list_all_length)
      moreover have "rd_valid (sweep m ts is rd) ! i" if "i \<in> set (take (length vs) is)" for i
      proof -
        have "i \<noteq> j" "i \<notin> set js" using that d by auto
        then show ?thesis using that B(2) O(1) I by (simp add: rd_step_def)
      qed
      moreover have "rd_valid (sweep m ts is rd) ! j = rd_valid rd2 ! j" using I d by (simp add: rd_step_def)
      ultimately show ?thesis using I by (auto simp: set)
    qed
  qed
qed

lemma read_targets_spec:
  assumes "vm_ok m own" and "shared_ok own ts"
  shows "rd_ok own ts (pgwt_sampler_read_targets mem m ts faults)"
    and "mem \<Longrightarrow> list_all (\<lambda>t. read_target_own_pid m t \<noteq> None) ts \<Longrightarrow>
      list_all id (rd_valid (pgwt_sampler_read_targets mem m ts faults))"
proof -
  define n where "n = length ts"
  define rd0 where "rd0 = \<lparr>rd_vals = replicate n 0, rd_valid = replicate n False, rd_got = 0, rd_faults = faults\<rparr>"
  define sh where "sh = filter (\<lambda>i. tg_is_shared (ts ! i) = 1) [0..<n]"
  define pr where "pr = filter (\<lambda>i. tg_is_shared (ts ! i) \<noteq> 1) [0..<n]"
  define rd1 where "rd1 = sweep m ts sh rd0"
  define rd2 where "rd2 = fold (note_own m ts) pr rd1"
  have e: "pgwt_sampler_read_targets mem m ts faults = (if n = 0 \<or> \<not> mem then rd0 else rd2)"
    by (simp add: pgwt_sampler_read_targets_def n_def rd0_def sh_def pr_def rd1_def rd2_def Let_def)
  have ok0: "rd_ok own ts rd0" by (simp add: rd_ok_def rd0_def n_def)
  have sh: "distinct sh" "\<forall>i \<in> set sh. i < length ts \<and> tg_is_shared (ts ! i) = 1 \<and> \<not> rd_valid rd0 ! i"
    by (auto simp: sh_def rd0_def n_def)
  have I: "rd_step own ts (set sh) rd0 rd1"
    "list_all (\<lambda>t. read_target_own_pid m t \<noteq> None) ts \<longrightarrow> (\<forall>i \<in> set sh. rd_valid rd1 ! i)"
    using sweep_step [OF assms ok0 sh] by (simp_all add: rd1_def)
  have ok1: "rd_ok own ts rd1" and un: "\<forall>i \<in> set pr. \<not> rd_valid rd1 ! i"
    using I(1) by (auto simp: rd_step_def sh_def pr_def rd0_def)
  have J: "rd_step own ts (set (map id pr)) rd1 rd2 \<and>
      (list_all (\<lambda>t. read_target_own_pid m t \<noteq> None) ts \<longrightarrow> (\<forall>i \<in> set pr. rd_valid rd2 ! id i))"
    unfolding rd2_def
  proof (rule reads_step [OF _ _ ok1])
    fix i rd
    assume i: "i \<in> set pr" and r: "rd_ok own ts rd" "\<not> rd_valid rd ! id i"
    then have l: "i < length ts" "\<not> rd_valid rd ! i" by (simp_all add: pr_def n_def)
    show "rd_step own ts {id i} rd (note_own m ts i rd)" using own_read(1) [OF assms(1) r(1) l] by simp
    show "rd_valid (note_own m ts i rd) ! id i" if "list_all (\<lambda>t. read_target_own_pid m t \<noteq> None) ts"
      using own_read(2) [OF assms(1) r(1) l] that l(1) by (simp add: list_all_length)
  qed (use un in \<open>simp_all add: pr_def\<close>)
  have ok2: "rd_ok own ts rd2" using J by (simp add: rd_step_def)
  show "rd_ok own ts (pgwt_sampler_read_targets mem m ts faults)" using ok0 ok2 by (simp add: e)
  show "list_all id (rd_valid (pgwt_sampler_read_targets mem m ts faults))"
    if "mem" "list_all (\<lambda>t. read_target_own_pid m t \<noteq> None) ts"
  proof (cases "n = 0")
    case False
    have "rd_valid rd2 ! i" if i: "i < n" for i
    proof (cases "i \<in> set pr")
      case False
      then have "i \<in> set sh" using i by (simp add: sh_def pr_def)
      then show ?thesis using False I(2) J \<open>list_all _ ts\<close> by (simp add: rd_step_def)
    qed (use J \<open>list_all _ ts\<close> in simp)
    moreover have "pgwt_sampler_read_targets mem m ts faults = rd2" using False that(1) by (subst e) simp
    ultimately show ?thesis using ok2 unfolding list_all_length by (simp add: rd_ok_def n_def)
  qed (simp add: e rd0_def)
qed

section \<open>Demand\<close>

text \<open>
  The documented meaning of an active session: a reading that was taken, from a process that is not an
  io worker, on the CPU inside a command (always, for background types) or in a real wait that is not idle.
\<close>

definition demands :: "idle_state \<Rightarrow> pgwt_sample_target \<times> u32 \<times> bool \<Rightarrow> bool" where
  "demands r x \<longleftrightarrow> (case x of (t, we, ok) \<Rightarrow>
     ok \<and> tg_backend_type t \<noteq> PGWT_BT_IO_WORKER \<and>
     (if we = 0 then pgwt_cpu_sample_recordable (tg_backend_type t) (tg_cmd_open t)
      else pgwt_classify_wei we = PGWT_WEI_VALID_NONZERO \<and> \<not> pgwt_is_idle_event r we))"

definition counted :: "('a \<Rightarrow> bool) \<Rightarrow> 'a list \<Rightarrow> int" where
  "counted p xs = int (length (filter p xs))"

lemma counted_simps [simp]:
  "counted p [] = 0" "counted p (x # xs) = (if p x then counted p xs + 1 else counted p xs)"
  by (simp_all add: counted_def)

definition active_sample :: "idle_state \<Rightarrow> pgwt_trace_event \<Rightarrow> bool" where
  "active_sample r ev \<longleftrightarrow> flags ev AND PGWT_EVENT_FLAG_IO_WORKER = 0 \<and> (new_event ev = 0 \<or> \<not> pgwt_is_idle_event r (new_event ev))"

lemma count_batch_counted:
  "count_batch r evs (a, l, c) =
     (a + counted (active_sample r) evs,
      l + counted (\<lambda>ev. active_sample r ev \<and> WE_CLASS (new_event ev) = PG_WAIT_LOCK) evs,
      c + counted (\<lambda>ev. active_sample r ev \<and> new_event ev = 0) evs)"
  by (induction evs arbitrary: a l c) (auto simp: active_sample_def Let_def)

lemma sample_event_fields [simp]:
  "new_event (sample_event ts t we e) = we" "timestamp_ns (sample_event ts t we e) = ts"
  "pid (sample_event ts t we e) = word_of_int (tg_pid t)"
  "flags (sample_event ts t we e) AND 4 = 0 \<longleftrightarrow> tg_backend_type t \<noteq> PGWT_BT_IO_WORKER"
  by (simp_all add: sample_event_def Let_def pgwt_backend_type_flag_def split: pgwt_backend_type.split)

lemma batch_counted:
  "counted (\<lambda>ev. active_sample r ev \<and> w (new_event ev)) (fst (batch_loop ts xs out c)) =
   counted (\<lambda>x. demands r x \<and> w (fst (snd x))) xs"
proof (induction ts xs out c rule: batch_loop.induct)
  case (2 ts t we ok xs out invalid skipped)
  show ?case
  proof (cases "ok \<and> (we = 0 \<longrightarrow> pgwt_cpu_sample_recordable (tg_backend_type t) (tg_cmd_open t)) \<and>
      (we \<noteq> 0 \<longrightarrow> pgwt_classify_wei we \<noteq> PGWT_WEI_GARBAGE)")
    case True
    have "we \<noteq> 0 \<Longrightarrow> pgwt_classify_wei we = PGWT_WEI_VALID_NONZERO"
      using True by (simp add: pgwt_classify_wei_def Let_def split: if_splits)
    then have "active_sample r (sample_event ts t we e) = demands r (t, we, ok)" for e
      using True by (auto simp: demands_def active_sample_def)
    then show ?thesis using True "2.IH"(4) by (auto simp: Let_def case_prod_unfold)
  next
    case False
    then have "\<not> demands r (t, we, ok)" by (auto simp: demands_def)
    then show ?thesis using False "2.IH"(1-3) by auto
  qed
qed simp

lemma batch_no_marker: "ev \<in> set (fst (batch_loop ts xs out c)) \<Longrightarrow> \<not> PGWT_IS_MARKER (new_event ev)"
proof (induction ts xs out c rule: batch_loop.induct)
  case (2 ts t we ok xs out invalid skipped)
  have "PGWT_IS_MARKER we \<Longrightarrow> we \<noteq> 0 \<and> pgwt_classify_wei we = PGWT_WEI_GARBAGE"
    using marker_not_wait [of we] by (auto simp: PGWT_IS_MARKER_def)
  then show ?case using 2 by (auto simp: Let_def split: if_splits prod.splits)
qed simp

text \<open>A sample adds its period to the live DB Time exactly when it is active and not the ring buffer's.\<close>

lemma accumulate_sample_db:
  assumes "\<not> PGWT_IS_MARKER (new_event ev)"
  shows "tm_db_time_ns (acc_tm (d_event_accum (snd (accumulate_sample dur ev d)))) =
      tm_db_time_ns (acc_tm (d_event_accum d)) +
      (if active_sample (d_idle_rule d) ev \<and> \<not> sample_covered d ev then dur else 0)"
    and "d_idle_rule (snd (accumulate_sample dur ev d)) = d_idle_rule d"
    and "sample_covered (snd (accumulate_sample dur ev d)) = sample_covered d"
    and "d_escalation (snd (accumulate_sample dur ev d)) = d_escalation d"
proof -
  have g: "acc_tm (snd (pgwt_get_or_create_pid acc p)) = acc_tm acc" for acc p
    by (simp add: pgwt_get_or_create_pid_def split: option.splits)
  have y: "acc_tm (sample_to_system we dur acc) = acc_tm acc" for we acc
    by (auto simp: sample_to_system_def pgwt_get_or_create_system_event_def split: option.splits)
  show "tm_db_time_ns (acc_tm (d_event_accum (snd (accumulate_sample dur ev d)))) =
      tm_db_time_ns (acc_tm (d_event_accum d)) +
      (if active_sample (d_idle_rule d) ev \<and> \<not> sample_covered d ev then dur else 0)"
    using assms zero_not_idle
    by (auto simp: accumulate_sample_def active_sample_def case_prod_unfold Let_def frame_simps g y update_tm_db
        split: option.splits)
  show "d_idle_rule (snd (accumulate_sample dur ev d)) = d_idle_rule d"
    "d_escalation (snd (accumulate_sample dur ev d)) = d_escalation d"
    by (simp_all add: accumulate_sample_def case_prod_unfold Let_def)
  show "sample_covered (snd (accumulate_sample dur ev d)) = sample_covered d"
    by (rule ext) (simp add: accumulate_sample_def sample_covered_def case_prod_unfold Let_def)
qed

lemma accumulate_db:
  assumes "\<forall>ev \<in> set evs. \<not> PGWT_IS_MARKER (new_event ev)"
  shows "tm_db_time_ns (acc_tm (d_event_accum (fst (pgwt_sampler_accumulate dur evs (d, n))))) =
    tm_db_time_ns (acc_tm (d_event_accum d)) +
    of_int (counted (\<lambda>ev. active_sample (d_idle_rule d) ev \<and> \<not> sample_covered d ev) evs) * dur"
  using assms
proof (induction evs arbitrary: d n)
  case (Cons ev evs)
  note A = accumulate_sample_db [of ev dur d]
  from Cons show ?case by (simp add: A case_prod_unfold Let_def algebra_simps)
qed simp

section \<open>The recheck as a function of each target\<close>

text \<open>A sample at risk: on the CPU, of a command-gated type, with its gate read as closed.\<close>

definition at_risk :: "u32 list \<Rightarrow> bool list \<Rightarrow> pgwt_sample_target list \<Rightarrow> nat \<Rightarrow> bool" where
  "at_risk vals valid ts i \<longleftrightarrow> valid ! i \<and> vals ! i = 0 \<and> tg_backend_type (ts ! i) \<in> {PGWT_BT_CLIENT, PGWT_BT_UNKNOWN} \<and>
     \<not> tg_cmd_open (ts ! i)"

definition reopened :: "gate_fn \<Rightarrow> nat \<Rightarrow> pgwt_sample_target \<Rightarrow> pgwt_sample_target" where
  "reopened gate i t = (case gate i t of
     Some (True, Some q) \<Rightarrow> t\<lparr>tg_cmd_open := True, tg_query_id := q,
       tg_query_quality := (if q = 0 then tg_query_quality t else PGWT_QUERY_QUALITY_REAL)\<rparr>
   | Some (True, None) \<Rightarrow> t\<lparr>tg_cmd_open := True\<rparr>
   | _ \<Rightarrow> t)"

definition says :: "(bool \<times> u64 option) option \<Rightarrow> bool option" where
  "says g = map_option fst g"

definition recheck_tally :: "gate_fn \<Rightarrow> pgwt_sample_target list \<Rightarrow> nat list \<Rightarrow> pgwt_sampler_recheck_stats" where
  "recheck_tally gate ts is =
     \<lparr>rs_at_risk = of_nat (length is), rs_recovered = of_int (counted (\<lambda>i. says (gate i (ts ! i)) = Some True) is),
      rs_confirmed_closed = of_int (counted (\<lambda>i. says (gate i (ts ! i)) = Some False) is),
      rs_read_failed = of_int (counted (\<lambda>i. says (gate i (ts ! i)) = None) is)\<rparr>"

lemma counted_snoc: "counted p (xs @ [x]) = (if p x then counted p xs + 1 else counted p xs)"
  by (simp add: counted_def)

lemma recheck_one_at:
  assumes "i < length ts'" and "ts' ! i = ts ! i"
  shows "recheck_one gate vals valid i (ts', recheck_tally gate ts is) =
    (if at_risk vals valid ts i then (ts'[i := reopened gate i (ts ! i)], recheck_tally gate ts (is @ [i]))
     else (ts', recheck_tally gate ts is))"
proof (cases "at_risk vals valid ts i")
  case True
  then have "\<not> pgwt_cpu_sample_recordable (tg_backend_type (ts ! i)) (tg_cmd_open (ts ! i))" "tg_backend_type (ts ! i) \<noteq> PGWT_BT_LOGGER"
    "valid ! i" "vals ! i = 0" by (auto simp: at_risk_def pgwt_cpu_sample_recordable_def)
  moreover have "ts'[i := ts ! i] = ts'" using assms by (metis list_update_id)
  ultimately show ?thesis using True assms
    by (auto simp: recheck_one_def recheck_tally_def reopened_def says_def counted_snoc Let_def split: option.split bool.split)
next
  case False
  then show ?thesis using assms
    by (auto simp: recheck_one_def at_risk_def pgwt_cpu_sample_recordable_def Let_def split: pgwt_backend_type.splits)
qed

definition rechecked :: "gate_fn \<Rightarrow> u32 list \<Rightarrow> bool list \<Rightarrow> pgwt_sample_target list \<Rightarrow> nat \<Rightarrow> pgwt_sample_target" where
  "rechecked gate vals valid ts i = (if at_risk vals valid ts i then reopened gate i (ts ! i) else ts ! i)"

lemma recheck_upto:
  "k \<le> length ts \<Longrightarrow> fold (recheck_one gate vals valid) [0..<k] (ts, zero_recheck) =
    (map (rechecked gate vals valid ts) [0..<k] @ drop k ts, recheck_tally gate ts (filter (at_risk vals valid ts) [0..<k]))"
proof (induction k)
  case 0
  show ?case by (simp add: recheck_tally_def zero_recheck_def)
next
  case (Suc k)
  have k: "k < length ts" using Suc.prems by simp
  have d: "drop k ts = ts ! k # drop (Suc k) ts" by (rule Cons_nth_drop_Suc [OF k, symmetric])
  have n: "(map (rechecked gate vals valid ts) [0..<k] @ drop k ts) ! k = ts ! k" using k by (simp add: nth_append)
  have l: "k < length (map (rechecked gate vals valid ts) [0..<k] @ drop k ts)" using k by simp
  show ?case
    using Suc recheck_one_at [OF l n, of gate vals valid] k
    by (simp add: d list_update_append) (simp add: rechecked_def)
qed

lemma length_settled: "length (fst (settle_gates pin vals valid sc)) = length (pi_targets pin)"
  if "length vals = length (pi_targets pin)" "length valid = length (pi_targets pin)"
  using that recheck_upto [of "length (pi_targets pin)" "pi_targets pin" "pi_gate pin" vals valid]
  by (simp add: settle_gates_def pgwt_sampler_recheck_cmd_gate_def Let_def case_prod_unfold)

lemma settled_counters: "fst (settle_gates pin vals valid sc) = fst (settle_gates pin vals valid sc')"
  by (simp add: settle_gates_def Let_def case_prod_unfold)

lemma counted_cong: "length xs = length ys \<Longrightarrow> (\<And>i. i < length ys \<Longrightarrow> p (xs ! i) = q (ys ! i)) \<Longrightarrow> counted p xs = counted q ys"
proof (induction xs ys rule: list_induct2)
  case (Cons x xs y ys)
  have "p x = q y" using Cons.prems [of 0] by simp
  moreover have "p (xs ! i) = q (ys ! i)" if "i < length ys" for i using Cons.prems [of "Suc i"] that by simp
  ultimately show ?case using Cons.IH by simp
qed simp

lemma counted_le: "0 \<le> counted p xs" "counted p xs \<le> int (length xs)"
  by (simp_all add: counted_def)

lemma count_True: "int (count_list bs True) = counted id bs"
  by (induction bs) auto

lemma counted_split: "length bs = length cs \<Longrightarrow>
    counted id bs - counted (\<lambda>(v, a). v \<and> \<not> a) (zip bs cs) = counted id (map2 (\<and>) bs cs)"
  by (induction bs cs rule: list_induct2) auto

text \<open>What a tick does, by its parts.\<close>

lemma coverage_invalid:
  "sm_read_invalid_last (pgwt_sampler_note_coverage s n v) = of_int (max 0 n - min (max 0 n) (max 0 v))"
  by (simp add: pgwt_sampler_note_coverage_def Let_def max_def min_def)

lemma read_parts:
  assumes "sampler_read tick_ts pin r (s, sc) = (vals, valid, s', sc')"
  shows "let rd = pgwt_sampler_read_targets (pi_mem pin) (pi_vm pin) (pi_targets pin) (sm_read_faults_total s) in
    vals = rd_vals rd \<and> valid = map2 (\<and>) (rd_valid rd) (pi_attr_valid pin) \<and>
    sm_read_invalid_last s' = sm_read_invalid_last (pgwt_sampler_note_coverage s (int (length (pi_targets pin)))
      (rd_got rd - counted (\<lambda>(v, a). v \<and> \<not> a) (zip (rd_valid rd) (pi_attr_valid pin))))"
  using assms by (auto simp: sampler_read_def Let_def counted_def coverage_invalid)

lemma observe_parts:
  assumes "sampler_observe tick_ts pin (s, sc, d) = (s', sc', d', batch, period_ns)"
    and "rd = pgwt_sampler_read_targets (pi_mem pin) (pi_vm pin) (pi_targets pin) (sm_read_faults_total s)"
    and "valid = map2 (\<and>) (rd_valid rd) (pi_attr_valid pin)"
  obtains out c n where
    "batch = fst (batch_loop tick_ts (zip (fst (settle_gates pin (rd_vals rd) valid sc)) (zip (rd_vals rd) valid)) out c)"
    and "d' = fst (pgwt_sampler_accumulate period_ns batch (d, n))"
    and "sm_read_invalid_last s' = sm_read_invalid_last (pgwt_sampler_note_coverage s (int (length (pi_targets pin)))
      (rd_got rd - counted (\<lambda>(v, a). v \<and> \<not> a) (zip (rd_valid rd) (pi_attr_valid pin))))"
proof -
  obtain vals vd s1 sc1 where r: "sampler_read tick_ts pin (d_idle_rule d) (s\<lparr>sm_last_tick_ns := tick_ts\<rparr>, sc) = (vals, vd, s1, sc1)"
    by (cases "sampler_read tick_ts pin (d_idle_rule d) (s\<lparr>sm_last_tick_ns := tick_ts\<rparr>, sc)")
  have R: "vals = rd_vals rd" "vd = valid"
    "sm_read_invalid_last s1 = sm_read_invalid_last (pgwt_sampler_note_coverage s (int (length (pi_targets pin)))
      (rd_got rd - counted (\<lambda>(v, a). v \<and> \<not> a) (zip (rd_valid rd) (pi_attr_valid pin))))"
    using read_parts [OF r] by (simp_all add: assms(2,3) Let_def coverage_invalid)
  obtain ts sc2 where g: "settle_gates pin vals vd sc1 = (ts, sc2)" by (cases "settle_gates pin vals vd sc1")
  have ts: "ts = fst (settle_gates pin (rd_vals rd) valid sc)" using settled_counters [of pin vals vd sc1 sc] g R by simp
  obtain es inv sk where b: "pgwt_sampler_build_batch ts vals vd tick_ts (sm_samples s1)
      (sc_invalid_wait_reads_total sc2, sc_noncmd_cpu_samples_total sc2) = (es, inv, sk)"
    by (cases "pgwt_sampler_build_batch ts vals vd tick_ts (sm_samples s1)
      (sc_invalid_wait_reads_total sc2, sc_noncmd_cpu_samples_total sc2)")
  from assms(1) have o: "batch = es" "d' = fst (pgwt_sampler_accumulate period_ns es (d, sc_sampled_idle_in_command_total sc2))"
    "sm_read_invalid_last s' = sm_read_invalid_last s1"
    by (auto simp: sampler_observe_def r g b Let_def case_prod_unfold)
  have "es = fst (batch_loop tick_ts (zip ts (zip vals vd)) (sm_samples s1)
      (sc_invalid_wait_reads_total sc2, sc_noncmd_cpu_samples_total sc2))"
    using b by (simp add: pgwt_sampler_build_batch_def)
  then show thesis using o R ts that by simp
qed

section \<open>Properties\<close>


text \<open>Two sessions in shared memory and one private address; the combined read stops after one word.\<close>

definition mem_of :: "int \<Rightarrow> u64 \<Rightarrow> u32" where
  "mem_of p a = (if a = 300 then (if p = 12 then 0x03000001 else 0x0A000007) else if a = 200 then 0 else 0x01000002)"

definition short_vm :: vm where
  "short_vm = \<lparr>vm_readv = (\<lambda>p as. take 1 (map (mem_of p) as)), vm_pread = (\<lambda>p a. Some (mem_of p a)), vm_read64 = (\<lambda>p a. None)\<rparr>"

definition seen :: "int \<Rightarrow> u64 \<Rightarrow> int \<Rightarrow> pgwt_sample_target" where
  "seen p a sh = \<lparr>tg_pid = p, tg_wait_event_addr = a, tg_query_id = 5, tg_last_query_id = 0, tg_databaseid = 1, tg_userid = 1,
     tg_query_quality = 0, tg_is_shared = sh, tg_backend_type = PGWT_BT_CLIENT, tg_cmd_open = (a \<noteq> 100), tg_status_addr = 0\<rparr>"

definition three_targets :: "pgwt_sample_target list" where
  "three_targets = [seen 10 100 1, seen 11 200 1, seen 12 300 0]"

lemma short_vm_ok: "vm_ok short_vm mem_of"
  by (auto simp: vm_ok_def short_vm_def)

lemma three_shared: "shared_ok mem_of three_targets"
  by (simp add: shared_ok_def three_targets_def seen_def own_value_def mem_of_def)


text \<open>
  C11: The recheck of the command gate changes exactly the samples at risk (on the CPU, client or
  unclassified, gate closed) whose fresh read says a command is open: it opens their gate and takes over the
  query id that came with the read; a failed read or a closed gate changes nothing, and every sample at
  risk is counted once, under its outcome.
\<close>

theorem sampler_recheck_exact:
  "pgwt_sampler_recheck_cmd_gate gate vals valid ts =
     (map (rechecked gate vals valid ts) [0..<length ts],
      recheck_tally gate ts (filter (at_risk vals valid ts) [0..<length ts]))"
  using recheck_upto [of "length ts" ts gate vals valid] by (simp add: pgwt_sampler_recheck_cmd_gate_def)

text \<open>
  C9: One tick of the sampler feeds the anomaly rules and the live time model the same, true demand:
  with no window open, the active-session metric of the tick's batch is the number of targets that were
  read, are not io workers, and are on the CPU inside a command (always, for background types) or in a
  known wait that is not idle, judged by the targets' own memory and by the settled command gates; the live
  DB Time grows by exactly that number times the effective period; and the coverage the rules see is
  incomplete by exactly the targets without a valid reading.
\<close>

theorem sampler_tick_demand_exact:
  assumes "vm_ok (pi_vm pin) own" and "shared_ok own (pi_targets pin)"
    and "length (pi_attr_valid pin) = length (pi_targets pin)" and "\<not> esc_active (d_escalation d)"
    and "sampler_observe tick_ts pin (s, sc, d) = (s', sc', d', batch, period_ns)"
  shows "let rd = pgwt_sampler_read_targets (pi_mem pin) (pi_vm pin) (pi_targets pin) (sm_read_faults_total s);
      valid = map2 (\<and>) (rd_valid rd) (pi_attr_valid pin);
      ts = fst (settle_gates pin (rd_vals rd) valid sc);
      active = counted (demands (d_idle_rule d)) (zip ts (zip (map (own_value own) (pi_targets pin)) valid))
    in fst (pgwt_anomaly_metrics_from_batch F (d_idle_rule d) batch) = fp_of_int F active \<and>
       tm_db_time_ns (acc_tm (d_event_accum d')) = tm_db_time_ns (acc_tm (d_event_accum d)) + of_int active * period_ns \<and>
       sm_read_invalid_last s' = of_int (int (length (pi_targets pin)) - counted id valid)"
proof -
  define rd where "rd = pgwt_sampler_read_targets (pi_mem pin) (pi_vm pin) (pi_targets pin) (sm_read_faults_total s)"
  define valid where "valid = map2 (\<and>) (rd_valid rd) (pi_attr_valid pin)"
  define ts where "ts = fst (settle_gates pin (rd_vals rd) valid sc)"
  define xs where "xs = zip ts (zip (rd_vals rd) valid)"
  define active where "active = counted (demands (d_idle_rule d)) (zip ts (zip (map (own_value own) (pi_targets pin)) valid))"
  note R = read_targets_spec(1) [OF assms(1,2), of "pi_mem pin" "sm_read_faults_total s", folded rd_def]
  have l: "length (rd_vals rd) = length (pi_targets pin)" "length valid = length (pi_targets pin)"
    "length ts = length (pi_targets pin)"
    using R assms(3) by (simp_all add: rd_ok_def valid_def ts_def length_settled)
  have eq: "counted (demands (d_idle_rule d)) xs = active"
    unfolding active_def xs_def
    by (rule counted_cong) (use R l assms(3) in \<open>auto simp: rd_ok_def demands_def valid_def\<close>)
  obtain out c n where b: "batch = fst (batch_loop tick_ts xs out c)"
    and d': "d' = fst (pgwt_sampler_accumulate period_ns batch (d, n))"
    and s': "sm_read_invalid_last s' = sm_read_invalid_last (pgwt_sampler_note_coverage s (int (length (pi_targets pin)))
      (rd_got rd - counted (\<lambda>(v, a). v \<and> \<not> a) (zip (rd_valid rd) (pi_attr_valid pin))))"
    by (rule observe_parts [OF assms(5) rd_def valid_def, folded ts_def xs_def])
  have a: "counted (active_sample (d_idle_rule d)) batch = active"
    using batch_counted [of "d_idle_rule d" "\<lambda>_. True"] eq by (simp add: b)
  have "\<not> sample_covered d ev" for ev using assms(4) by (simp add: sample_covered_def)
  moreover have "\<forall>ev \<in> set batch. \<not> PGWT_IS_MARKER (new_event ev)" using batch_no_marker by (simp add: b)
  ultimately have db: "tm_db_time_ns (acc_tm (d_event_accum d')) =
      tm_db_time_ns (acc_tm (d_event_accum d)) + of_int active * period_ns"
    using accumulate_db [of batch period_ns d n] a by (simp add: d')
  have "rd_got rd - counted (\<lambda>(v, a). v \<and> \<not> a) (zip (rd_valid rd) (pi_attr_valid pin)) = counted id valid"
    using R assms(3) by (simp add: rd_ok_def count_True counted_split valid_def)
  then have "sm_read_invalid_last s' = of_int (int (length (pi_targets pin)) - counted id valid)"
    using s' counted_le [of id valid] l(2) by (simp add: coverage_invalid)
  moreover have "fst (pgwt_anomaly_metrics_from_batch F (d_idle_rule d) batch) = fp_of_int F active"
    by (simp add: pgwt_anomaly_metrics_from_batch_def count_batch_counted a Let_def)
  ultimately show ?thesis
    using db unfolding Let_def rd_def [symmetric] valid_def [symmetric] ts_def [symmetric] active_def [symmetric] by blast
qed

text \<open>A tick over the three targets: the first waits on an LWLock, the second is on the CPU, the third waits on a lock.\<close>

definition three_input :: poll_input where
  "three_input = \<lparr>pi_targets = three_targets, pi_attr_valid = [True, True, True], pi_attr_errno = 0, pi_read_errno = 0,
     pi_mem = True, pi_vm = short_vm, pi_tick_source = False, pi_gate = (\<lambda>_ _. None), pi_debug_query_string_addr = 0,
     pi_my_be_entry_addr = 0, pi_st_query_id_offset = 0\<rparr>"

definition zero_counters :: sampler_counters where
  "zero_counters = \<lparr>sc_sample_read_faults_total = 0, sc_io_worker_samples_total = 0, sc_io_worker_busy_total = 0,
     sc_cmd_gate_order_at_risk_total = 0, sc_cmd_gate_order_recovered_total = 0, sc_cmd_gate_order_read_failed_total = 0,
     sc_cmd_gate_recovered_total = 0, sc_invalid_wait_reads_total = 0, sc_noncmd_cpu_samples_total = 0,
     sc_sampled_idle_in_command_total = 0, sc_samples_total = 0\<rparr>"

definition idle_sampler :: pgwt_sampler where
  "idle_sampler = \<lparr>sm_sample_period_ns = 100000000, sm_last_tick_ns = 0, sm_samples = replicate 3 cpu_sample,
     sm_health = \<lparr>he_healthy = True, he_consec_failed_ticks = 0, he_failed_ticks_total = 0, he_last_log_ns = 0, he_last_errno = 0\<rparr>,
     sm_read_targets_last = 0, sm_read_valid_last = 0, sm_read_invalid_last = 0, sm_samples_total = 0,
     sm_read_faults_total = 0, sm_read_failures_total = 0\<rparr>"

theorem sampler_tick_demand_exact_witness:
  "case sampler_observe 500 three_input (idle_sampler, zero_counters, run_start) of (s, sc, d, batch, period_ns) \<Rightarrow>
     fst (pgwt_anomaly_metrics_from_batch rat_fp (d_idle_rule run_start) batch) = 3 \<and> sm_read_invalid_last s = 0 \<and>
     tm_db_time_ns (acc_tm (d_event_accum d)) = tm_db_time_ns (acc_tm (d_event_accum run_start)) + 3 * period_ns"
proof -
  obtain s sc d batch period_ns where o:
    "sampler_observe 500 three_input (idle_sampler, zero_counters, run_start) = (s, sc, d, batch, period_ns)"
    by (cases "sampler_observe 500 three_input (idle_sampler, zero_counters, run_start)") auto
  define rd where "rd = pgwt_sampler_read_targets True short_vm three_targets 0"
  have rd: "rd_valid rd = [True, True, True]" unfolding rd_def by code_simp
  have h: "vm_ok (pi_vm three_input) mem_of" "shared_ok mem_of (pi_targets three_input)"
    "length (pi_attr_valid three_input) = length (pi_targets three_input)"
    using short_vm_ok three_shared by (simp_all add: three_input_def three_targets_def)
  have g: "fst (settle_gates three_input vals valid sc) = three_targets" for vals valid sc
    by (simp add: settle_gates_def three_input_def)
  have n: "\<not> pgwt_is_idle_event r 0x01000002" "\<not> pgwt_is_idle_event r 0x03000001" for r
    by (simp_all add: pgwt_is_idle_event_def WE_CLASS_def WEI_def)
  have c: "pgwt_classify_wei 0x01000002 = PGWT_WEI_VALID_NONZERO" "pgwt_classify_wei 0x03000001 = PGWT_WEI_VALID_NONZERO"
    by code_simp+
  have k: "counted (demands r) (zip three_targets (zip (map (own_value mem_of) three_targets) [True, True, True])) = 3" for r
    by (simp add: three_targets_def seen_def own_value_def mem_of_def demands_def pgwt_cpu_sample_recordable_def n c)
  have p: "pi_targets three_input = three_targets" "pi_mem three_input" "pi_vm three_input = short_vm"
    "pi_attr_valid three_input = [True, True, True]" "sm_read_faults_total idle_sampler = 0" "length three_targets = 3"
    "fp_of_int rat_fp 3 = 3"
    by (simp_all add: three_input_def idle_sampler_def three_targets_def rat_fp_def)
  from sampler_tick_demand_exact [OF h run_start_fields(2) o, of rat_fp]
  show ?thesis by (simp add: o g p rd_def [symmetric] rd k)
qed

end
