(* ===== verification/Block_Agg.thy ===== *)
theory Block_Agg
  imports Concurrency Trace_Codec
begin

text \<open>
  The per-block transition aggregate: src/src/block_agg.c and src/src/block_agg.h. A committed block of
  transition records is folded into two open-addressed tables (links keyed by the two events, nodes
  keyed by the first) and a window accumulator absorbs whole blocks through \<open>pgwt_block_agg_merge\<close> and
  boundary records through \<open>pgwt_block_agg_add_events\<close>. The two tables have one layout, modelled once
  over the key: a slot is occupied iff its count is not zero, the capacity is the length of the array.
  Pointer arguments are values here, so the guards against NULL at the entry of the operations have no
  counterpart, except for the hooks and the filter, which may be absent. Whether an allocation of a
  given capacity succeeds is a parameter. \<open>None\<close> is a call without a defined result: a probing loop that
  never meets a free slot, or a signed product beyond the range of \<open>int\<close>. The lemmas show that an
  accumulator stands for a list of records, that adding, building and merging append to it, and that a
  window built from any honest cache holds exactly the records the window selects.
\<close>

section \<open>Status, identities and keys\<close>

datatype pgwt_bagg_status =
    PGWT_BAGG_OK
  | PGWT_BAGG_REFUSED_VERSION
  | PGWT_BAGG_REFUSED_IDENTITY
  | PGWT_BAGG_REFUSED_DUPLICATE
  | PGWT_BAGG_REFUSED_BLOCK_TYPE
  | PGWT_BAGG_REFUSED_UNCOMMITTED
  | PGWT_BAGG_REFUSED_NOMEM
  | PGWT_BAGG_REFUSED_MODE
  | PGWT_BAGG_REFUSED_INVALID

definition PGWT_BLOCK_AGG_VERSION :: u32 where [pgwt_const]: "PGWT_BLOCK_AGG_VERSION = 1"

record pgwt_trace_identity =
  ti_trace_version :: u32
  ti_pg_version :: u32
  ti_start_time_ns :: u64
  ti_clock_offset_ns :: u64

record pgwt_block_identity =
  bid_trace :: pgwt_trace_identity
  bid_block_index :: u32
  bid_num_events :: u32
  bid_file_offset :: u64
  bid_first_timestamp_ns :: u64
  bid_last_timestamp_ns :: u64

record pgwt_block_agg_key =
  ky_start_time_ns :: u64
  ky_clock_offset_ns :: u64
  ky_file_offset :: u64
  ky_block_index :: u32

section \<open>Predicates\<close>

definition pgwt_block_agg_record_counts :: "pgwt_trace_event \<Rightarrow> bool" where
  "pgwt_block_agg_record_counts ev =
     (if flags ev AND PGWT_EVENT_FLAG_SAMPLE \<noteq> 0 then False
      else if duration_ns ev > timestamp_ns ev then False
      else if pgwt_is_hidden_event (old_event ev) \<or> pgwt_is_hidden_event (new_event ev) then False
      else if new_event ev = PGWT_EVENT_EXIT then False
      else if PGWT_IS_MARKER (old_event ev) \<or> PGWT_IS_MARKER (new_event ev) then False
      else True)"

definition pgwt_block_agg_node_counts :: "pgwt_trace_event \<Rightarrow> bool" where
  "pgwt_block_agg_node_counts ev =
     (if flags ev AND PGWT_EVENT_FLAG_SAMPLE \<noteq> 0 then False
      else if pgwt_is_hidden_event (old_event ev) \<or> PGWT_IS_MARKER (old_event ev) then False
      else True)"

definition pgwt_block_agg_in_window :: "pgwt_trace_event \<Rightarrow> u64 \<Rightarrow> u64 \<Rightarrow> bool" where
  "pgwt_block_agg_in_window ev from_mono_ns to_mono_ns \<longleftrightarrow>
     timestamp_ns ev \<ge> from_mono_ns \<and> timestamp_ns ev < to_mono_ns"

definition pgwt_block_agg_admitted :: "pgwt_trace_event \<Rightarrow> u64 \<Rightarrow> u64 \<Rightarrow> bool" where
  "pgwt_block_agg_admitted ev from_mono_ns to_mono_ns \<longleftrightarrow>
     timestamp_ns ev \<ge> from_mono_ns \<and> timestamp_ns ev \<le> to_mono_ns"

definition pgwt_block_agg_file_can_contribute :: "u64 \<Rightarrow> u64 \<Rightarrow> u64 \<Rightarrow> u64 \<Rightarrow> bool" where
  "pgwt_block_agg_file_can_contribute mono_first mono_last from_mono_ns to_mono_ns =
     (if mono_first > to_mono_ns then False else if mono_last < from_mono_ns then False else True)"

text \<open>The absent filter is \<open>None\<close>.\<close>

definition pgwt_block_agg_filter_supported :: "pgwt_filter option \<Rightarrow> bool" where
  "pgwt_block_agg_filter_supported fo =
     (case fo of
        None \<Rightarrow> True
      | Some f \<Rightarrow>
          if f_class_name f \<noteq> [] then False
          else if f_has_event_filter f then False
          else if f_pid f \<noteq> 0 then False
          else if f_query_id f \<noteq> 0 then False
          else True)"

definition pgwt_trace_identity_resolvable :: "pgwt_trace_identity \<Rightarrow> bool" where
  "pgwt_trace_identity_resolvable t =
     (if ti_trace_version t = 0 then False else if ti_start_time_ns t = 0 then False else True)"

definition trace_identity_equal :: "pgwt_trace_identity \<Rightarrow> pgwt_trace_identity \<Rightarrow> bool" where
  "trace_identity_equal a b =
     (if \<not> pgwt_trace_identity_resolvable a \<or> \<not> pgwt_trace_identity_resolvable b then False
      else ti_trace_version a = ti_trace_version b \<and> ti_pg_version a = ti_pg_version b \<and>
           ti_start_time_ns a = ti_start_time_ns b \<and> ti_clock_offset_ns a = ti_clock_offset_ns b)"

section \<open>The tables\<close>

fun pair_hash :: "u32 \<times> u32 \<Rightarrow> u32" where
  "pair_hash (f, t) =
     (let h = push_bit 32 (ucast f) OR ucast t :: u64;
          h = (h XOR drop_bit 33 h) * 0xff51afd7ed558ccd;
          h = (h XOR drop_bit 33 h) * 0xc4ceb9fe1a85ec53;
          h = h XOR drop_bit 33 h
      in ucast h)"

definition node_hash :: "u32 \<Rightarrow> u32" where
  "node_hash i =
     (let h = ucast i :: u64;
          h = (h XOR drop_bit 33 h) * 0xff51afd7ed558ccd;
          h = h XOR drop_bit 29 h
      in ucast h)"

record 'k agg_slot =
  sl_key :: 'k
  sl_count :: u64
  sl_total_ns :: u64

text \<open>
  One table with its declared totals: the slots with their number of occupied ones, and the sums
  \<open>total_transitions\<close> and \<open>pair_total_ns\<close> (or \<open>node_records\<close> and \<open>node_total_ns\<close>).
\<close>

record 'k agg_tab =
  tb_slots :: "'k agg_slot list"
  tb_n :: nat
  tb_count :: u64
  tb_ns :: u64

abbreviation sl_used :: "'k agg_slot \<Rightarrow> bool" where "sl_used s \<equiv> sl_count s \<noteq> 0"

text \<open>The slots as the probing loop of the shared layout reads them.\<close>

definition slots_view :: "'k agg_slot list \<Rightarrow> 'k oa_index" where
  "slots_view ss = \<lparr>ix_keys = map sl_key ss, ix_vals = replicate (length ss) 0,
     ix_used = map (\<lambda>s. sl_used s) ss, ix_cap = length ss, ix_n = length (filter (\<lambda>s. sl_used s) ss)\<rparr>"

definition slot_of :: "('k \<Rightarrow> u32) \<Rightarrow> 'k agg_slot list \<Rightarrow> 'k \<Rightarrow> nat option" where
  "slot_of hash ss k = map_option unat (oa_probe (slots_view ss) k (hash k AND oa_mask (slots_view ss)))"

definition slots_calloc :: "'k \<Rightarrow> nat \<Rightarrow> 'k agg_slot list" where
  "slots_calloc z c = replicate c \<lparr>sl_key = z, sl_count = 0, sl_total_ns = 0\<rparr>"

fun slots_rehash :: "('k \<Rightarrow> u32) \<Rightarrow> 'k agg_slot list \<Rightarrow> 'k agg_slot list \<Rightarrow> 'k agg_slot list option" where
  "slots_rehash hash [] nt = Some nt"
| "slots_rehash hash (s # old) nt =
     (if sl_count s = 0 then slots_rehash hash old nt
      else case slot_of hash nt (sl_key s) of
          None \<Rightarrow> None
        | Some h \<Rightarrow> slots_rehash hash old (nt[h := s]))"

definition tab_grow ::
  "('k \<Rightarrow> u32) \<Rightarrow> 'k \<Rightarrow> (nat \<Rightarrow> bool) \<Rightarrow> 'k agg_tab \<Rightarrow> (pgwt_bagg_status \<times> 'k agg_tab) option" where
  "tab_grow hash z alloc t =
     (let cap = length (tb_slots t); ncap = (if cap \<noteq> 0 then cap * 2 else 64)
      in if ncap > oa_INT_MAX then None
         else if ncap \<le> cap \<or> \<not> alloc ncap then Some (PGWT_BAGG_REFUSED_NOMEM, t)
         else map_option (\<lambda>nt. (PGWT_BAGG_OK, t\<lparr>tb_slots := nt\<rparr>))
                (slots_rehash hash (tb_slots t) (slots_calloc z ncap)))"

text \<open>The final step of an addition: the slot of the key takes the count and the time.\<close>

definition tab_bump :: "('k \<Rightarrow> u32) \<Rightarrow> 'k agg_tab \<Rightarrow> 'k \<Rightarrow> u64 \<Rightarrow> u64 \<Rightarrow> 'k agg_tab option" where
  "tab_bump hash t k c d =
     (case slot_of hash (tb_slots t) k of
        None \<Rightarrow> None
      | Some h \<Rightarrow>
          let s = tb_slots t ! h;
              fresh = (sl_count s = 0);
              s = (if fresh then s\<lparr>sl_key := k\<rparr> else s);
              s = s\<lparr>sl_count := sl_count s + c, sl_total_ns := sl_total_ns s + d\<rparr>
          in Some (t\<lparr>tb_slots := (tb_slots t)[h := s], tb_n := (if fresh then tb_n t + 1 else tb_n t),
                     tb_count := tb_count t + c, tb_ns := tb_ns t + d\<rparr>))"

definition tab_add ::
  "('k \<Rightarrow> u32) \<Rightarrow> 'k \<Rightarrow> (nat \<Rightarrow> bool) \<Rightarrow> 'k agg_tab \<Rightarrow> 'k \<Rightarrow> u64 \<Rightarrow> u64
     \<Rightarrow> (pgwt_bagg_status \<times> 'k agg_tab) option" where
  "tab_add hash z alloc t k c d =
     (let cap = length (tb_slots t)
      in if c = 0 then Some (PGWT_BAGG_OK, t)
         else if cap \<noteq> 0 \<and> ((tb_n t + 1) * 10 > oa_INT_MAX \<or> cap * 7 > oa_INT_MAX) then None
         else case (if cap = 0 \<or> (tb_n t + 1) * 10 \<ge> cap * 7 then tab_grow hash z alloc t
                    else Some (PGWT_BAGG_OK, t)) of
             None \<Rightarrow> None
           | Some (rc, t) \<Rightarrow>
               if rc \<noteq> PGWT_BAGG_OK then Some (rc, t)
               else map_option (Pair PGWT_BAGG_OK) (tab_bump hash t k c d))"

fun tab_merge_slots ::
  "('k \<Rightarrow> u32) \<Rightarrow> 'k \<Rightarrow> (nat \<Rightarrow> bool) \<Rightarrow> 'k agg_slot list \<Rightarrow> 'k agg_tab
     \<Rightarrow> (pgwt_bagg_status \<times> 'k agg_tab) option" where
  "tab_merge_slots hash z alloc [] t = Some (PGWT_BAGG_OK, t)"
| "tab_merge_slots hash z alloc (s # src) t =
     (if sl_count s = 0 then tab_merge_slots hash z alloc src t
      else case tab_add hash z alloc t (sl_key s) (sl_count s) (sl_total_ns s) of
          None \<Rightarrow> None
        | Some (rc, t) \<Rightarrow> if rc \<noteq> PGWT_BAGG_OK then Some (rc, t) else tab_merge_slots hash z alloc src t)"

definition tab_lookup :: "('k \<Rightarrow> u32) \<Rightarrow> 'k agg_tab \<Rightarrow> 'k \<Rightarrow> (u64 \<times> u64) option option" where
  "tab_lookup hash t k =
     (if length (tb_slots t) = 0 then Some None
      else case slot_of hash (tb_slots t) k of
          None \<Rightarrow> None
        | Some h \<Rightarrow>
            let s = tb_slots t ! h
            in Some (if sl_count s = 0 then None else Some (sl_count s, sl_total_ns s)))"

section \<open>The aggregate\<close>

datatype pgwt_bagg_mode = PGWT_BAGG_MODE_NONE | PGWT_BAGG_MODE_BLOCK | PGWT_BAGG_MODE_WINDOW

record pgwt_block_agg =
  ba_version :: u32
  ba_mode :: pgwt_bagg_mode
  ba_id :: pgwt_block_identity
  ba_any_trace :: bool
  ba_bounds_set :: bool
  ba_first_timestamp_ns :: u64
  ba_last_timestamp_ns :: u64
  ba_payload_hash :: u64
  ba_pairs :: "(u32 \<times> u32) agg_tab"
  ba_nodes :: "u32 agg_tab"
  ba_keys :: "pgwt_block_agg_key list"
  ba_key_cap :: nat

definition tab_zero :: "'k agg_tab" where
  "tab_zero = \<lparr>tb_slots = [], tb_n = 0, tb_count = 0, tb_ns = 0\<rparr>"

definition trace_identity_zero :: pgwt_trace_identity where
  "trace_identity_zero =
     \<lparr>ti_trace_version = 0, ti_pg_version = 0, ti_start_time_ns = 0, ti_clock_offset_ns = 0\<rparr>"

definition block_identity_zero :: pgwt_block_identity where
  "block_identity_zero = \<lparr>bid_trace = trace_identity_zero, bid_block_index = 0, bid_num_events = 0,
     bid_file_offset = 0, bid_first_timestamp_ns = 0, bid_last_timestamp_ns = 0\<rparr>"

definition block_agg_zero :: pgwt_block_agg where
  "block_agg_zero = \<lparr>ba_version = 0, ba_mode = PGWT_BAGG_MODE_NONE, ba_id = block_identity_zero,
     ba_any_trace = False, ba_bounds_set = False, ba_first_timestamp_ns = 0, ba_last_timestamp_ns = 0,
     ba_payload_hash = 0, ba_pairs = tab_zero, ba_nodes = tab_zero, ba_keys = [], ba_key_cap = 0\<rparr>"

text \<open>What the allocator answers for the three arrays, by the new capacity.\<close>

record bagg_env =
  be_pairs :: "nat \<Rightarrow> bool"
  be_nodes :: "nat \<Rightarrow> bool"
  be_keys :: "nat \<Rightarrow> bool"

type_synonym bagg_result = "(pgwt_bagg_status \<times> pgwt_block_agg) option"

definition pair_add :: "bagg_env \<Rightarrow> pgwt_block_agg \<Rightarrow> u32 \<times> u32 \<Rightarrow> u64 \<Rightarrow> u64 \<Rightarrow> bagg_result" where
  "pair_add env a k c d =
     map_option (\<lambda>(rc, t). (rc, a\<lparr>ba_pairs := t\<rparr>)) (tab_add pair_hash (0, 0) (be_pairs env) (ba_pairs a) k c d)"

definition node_add :: "bagg_env \<Rightarrow> pgwt_block_agg \<Rightarrow> u32 \<Rightarrow> u64 \<Rightarrow> u64 \<Rightarrow> bagg_result" where
  "node_add env a i c d =
     map_option (\<lambda>(rc, t). (rc, a\<lparr>ba_nodes := t\<rparr>)) (tab_add node_hash 0 (be_nodes env) (ba_nodes a) i c d)"

definition key_equal :: "pgwt_block_agg_key \<Rightarrow> pgwt_block_agg_key \<Rightarrow> bool" where
  "key_equal a b \<longleftrightarrow>
     ky_start_time_ns a = ky_start_time_ns b \<and> ky_clock_offset_ns a = ky_clock_offset_ns b \<and>
     ky_file_offset a = ky_file_offset b \<and> ky_block_index a = ky_block_index b"

definition key_of :: "pgwt_block_identity \<Rightarrow> pgwt_block_agg_key" where
  "key_of i = \<lparr>ky_start_time_ns = ti_start_time_ns (bid_trace i),
     ky_clock_offset_ns = ti_clock_offset_ns (bid_trace i), ky_file_offset = bid_file_offset i,
     ky_block_index = bid_block_index i\<rparr>"

definition key_add :: "bagg_env \<Rightarrow> pgwt_block_agg \<Rightarrow> pgwt_block_agg_key \<Rightarrow> bagg_result" where
  "key_add env a k =
     (if list_ex (\<lambda>k'. key_equal k' k) (ba_keys a) then Some (PGWT_BAGG_REFUSED_DUPLICATE, a)
      else if length (ba_keys a) = ba_key_cap a then
        (let ncap = (if ba_key_cap a \<noteq> 0 then ba_key_cap a * 2 else 16)
         in if ncap > oa_INT_MAX then None
            else if \<not> be_keys env ncap then Some (PGWT_BAGG_REFUSED_NOMEM, a)
            else Some (PGWT_BAGG_OK, a\<lparr>ba_key_cap := ncap, ba_keys := ba_keys a @ [k]\<rparr>))
      else Some (PGWT_BAGG_OK, a\<lparr>ba_keys := ba_keys a @ [k]\<rparr>))"

definition pgwt_block_agg_init_window :: pgwt_block_agg where
  "pgwt_block_agg_init_window = block_agg_zero\<lparr>ba_version := PGWT_BLOCK_AGG_VERSION,
     ba_mode := PGWT_BAGG_MODE_WINDOW, ba_any_trace := True\<rparr>"

definition pgwt_block_agg_free :: "pgwt_block_agg \<Rightarrow> pgwt_block_agg" where
  "pgwt_block_agg_free a = block_agg_zero"

definition bounds_widen :: "pgwt_block_agg \<Rightarrow> u64 \<Rightarrow> u64 \<Rightarrow> pgwt_block_agg" where
  "bounds_widen a f l =
     (if \<not> ba_bounds_set a
      then a\<lparr>ba_bounds_set := True, ba_first_timestamp_ns := f, ba_last_timestamp_ns := l\<rparr>
      else let a = (if f < ba_first_timestamp_ns a then a\<lparr>ba_first_timestamp_ns := f\<rparr> else a)
           in if l > ba_last_timestamp_ns a then a\<lparr>ba_last_timestamp_ns := l\<rparr> else a)"

fun hash_bytes :: "nat list \<Rightarrow> u64 \<Rightarrow> u64 \<Rightarrow> u64" where
  "hash_bytes [] v h = h"
| "hash_bytes (b # bs) v h = hash_bytes bs v ((h XOR (drop_bit (b * 8) v AND 0xff)) * 0x100000001b3)"

fun hash_fields :: "u64 list \<Rightarrow> u64 \<Rightarrow> u64" where
  "hash_fields [] h = h"
| "hash_fields (v # vs) h = hash_fields vs (hash_bytes [0..<8] v h)"

fun hash_events :: "pgwt_trace_event list \<Rightarrow> u64 \<Rightarrow> u64" where
  "hash_events [] h = h"
| "hash_events (ev # evs) h =
     hash_events evs (hash_fields [timestamp_ns ev, ucast (pid ev), ucast (old_event ev),
       ucast (new_event ev), duration_ns ev, query_id ev] h)"

definition payload_hash_of :: "pgwt_trace_event list \<Rightarrow> u64" where
  "payload_hash_of evs = hash_events evs 0xcbf29ce484222325"

section \<open>Building, adding and merging\<close>

text \<open>The counting part of one record, shared by the two callers: links first, then nodes.\<close>

definition count_event :: "bagg_env \<Rightarrow> pgwt_block_agg \<Rightarrow> pgwt_trace_event \<Rightarrow> bagg_result" where
  "count_event env a ev =
     (case (if pgwt_block_agg_record_counts ev
            then pair_add env a (old_event ev, new_event ev) 1 (duration_ns ev)
            else Some (PGWT_BAGG_OK, a)) of
        None \<Rightarrow> None
      | Some (rc, a) \<Rightarrow>
          if rc \<noteq> PGWT_BAGG_OK then Some (rc, a)
          else if pgwt_block_agg_node_counts ev then node_add env a (old_event ev) 1 (duration_ns ev)
          else Some (PGWT_BAGG_OK, a))"

fun bagg_build_loop :: "bagg_env \<Rightarrow> pgwt_block_agg \<Rightarrow> pgwt_trace_event list \<Rightarrow> bagg_result" where
  "bagg_build_loop env out [] = Some (PGWT_BAGG_OK, out)"
| "bagg_build_loop env out (ev # evs) =
     (case count_event env out ev of
        None \<Rightarrow> None
      | Some (rc, out) \<Rightarrow>
          if rc \<noteq> PGWT_BAGG_OK then Some (rc, pgwt_block_agg_free out) else bagg_build_loop env out evs)"

text \<open>A block type other than zero is not TRANSITIONS; the record count is the length of the array.\<close>

definition pgwt_block_agg_build ::
  "bagg_env \<Rightarrow> pgwt_block_identity \<Rightarrow> u16 \<Rightarrow> bool \<Rightarrow> pgwt_trace_event list \<Rightarrow> bagg_result" where
  "pgwt_block_agg_build env i bt committed events =
     (if bt \<noteq> 0 then Some (PGWT_BAGG_REFUSED_BLOCK_TYPE, block_agg_zero)
      else if \<not> committed then Some (PGWT_BAGG_REFUSED_UNCOMMITTED, block_agg_zero)
      else if \<not> pgwt_trace_identity_resolvable (bid_trace i) then Some (PGWT_BAGG_REFUSED_INVALID, block_agg_zero)
      else if bid_last_timestamp_ns i < bid_first_timestamp_ns i
      then Some (PGWT_BAGG_REFUSED_INVALID, block_agg_zero)
      else
        let out = block_agg_zero\<lparr>ba_version := PGWT_BLOCK_AGG_VERSION, ba_mode := PGWT_BAGG_MODE_BLOCK,
                    ba_id := i, ba_any_trace := False\<rparr>;
            out = bounds_widen out (bid_first_timestamp_ns i) (bid_last_timestamp_ns i)
        in case bagg_build_loop env out events of
            None \<Rightarrow> None
          | Some (rc, out) \<Rightarrow>
              if rc \<noteq> PGWT_BAGG_OK then Some (rc, out)
              else Some (PGWT_BAGG_OK, out\<lparr>ba_payload_hash := payload_hash_of events\<rparr>))"

definition pgwt_block_agg_add_event :: "bagg_env \<Rightarrow> pgwt_block_agg \<Rightarrow> pgwt_trace_event \<Rightarrow> bagg_result" where
  "pgwt_block_agg_add_event env a ev =
     (if ba_mode a \<noteq> PGWT_BAGG_MODE_WINDOW then Some (PGWT_BAGG_REFUSED_MODE, a)
      else if ba_version a \<noteq> PGWT_BLOCK_AGG_VERSION then Some (PGWT_BAGG_REFUSED_VERSION, a)
      else case count_event env a ev of
          None \<Rightarrow> None
        | Some (rc, a) \<Rightarrow>
            if rc \<noteq> PGWT_BAGG_OK then Some (rc, a)
            else Some (PGWT_BAGG_OK,
                   if pgwt_block_agg_record_counts ev \<or> pgwt_block_agg_node_counts ev
                   then bounds_widen a (timestamp_ns ev) (timestamp_ns ev) else a))"

text \<open>The third component is the number of admitted records.\<close>

fun add_events_loop ::
  "bagg_env \<Rightarrow> u64 \<Rightarrow> u64 \<Rightarrow> pgwt_trace_event list \<Rightarrow> pgwt_block_agg \<Rightarrow> u64
     \<Rightarrow> (pgwt_bagg_status \<times> pgwt_block_agg \<times> u64) option" where
  "add_events_loop env from_mono_ns to_mono_ns [] a n = Some (PGWT_BAGG_OK, a, n)"
| "add_events_loop env from_mono_ns to_mono_ns (ev # evs) a n =
     (if \<not> pgwt_block_agg_admitted ev from_mono_ns to_mono_ns
      then add_events_loop env from_mono_ns to_mono_ns evs a n
      else
        let n = n + 1
        in if \<not> pgwt_block_agg_in_window ev from_mono_ns to_mono_ns
           then add_events_loop env from_mono_ns to_mono_ns evs a n
           else case pgwt_block_agg_add_event env a ev of
               None \<Rightarrow> None
             | Some (rc, a) \<Rightarrow>
                 if rc \<noteq> PGWT_BAGG_OK then Some (rc, a, n)
                 else add_events_loop env from_mono_ns to_mono_ns evs a n)"

definition pgwt_block_agg_add_events ::
  "bagg_env \<Rightarrow> pgwt_block_agg \<Rightarrow> pgwt_trace_event list \<Rightarrow> u64 \<Rightarrow> u64
     \<Rightarrow> (pgwt_bagg_status \<times> pgwt_block_agg \<times> u64) option" where
  "pgwt_block_agg_add_events env a events from_mono_ns to_mono_ns =
     (if ba_mode a \<noteq> PGWT_BAGG_MODE_WINDOW then Some (PGWT_BAGG_REFUSED_MODE, a, 0)
      else add_events_loop env from_mono_ns to_mono_ns events a 0)"

text \<open>The numbers of a merge: links, then nodes, then the bounds.\<close>

definition merge_tables :: "bagg_env \<Rightarrow> pgwt_block_agg \<Rightarrow> pgwt_block_agg \<Rightarrow> bagg_result" where
  "merge_tables env dst src =
     (case tab_merge_slots pair_hash (0, 0) (be_pairs env) (tb_slots (ba_pairs src)) (ba_pairs dst) of
        None \<Rightarrow> None
      | Some (rc, t) \<Rightarrow>
          let dst = dst\<lparr>ba_pairs := t\<rparr>
          in if rc \<noteq> PGWT_BAGG_OK then Some (rc, dst)
             else case tab_merge_slots node_hash 0 (be_nodes env) (tb_slots (ba_nodes src)) (ba_nodes dst) of
                 None \<Rightarrow> None
               | Some (rc, t) \<Rightarrow>
                   let dst = dst\<lparr>ba_nodes := t\<rparr>
                   in if rc \<noteq> PGWT_BAGG_OK then Some (rc, dst)
                      else Some (PGWT_BAGG_OK,
                             if ba_bounds_set src
                             then bounds_widen dst (ba_first_timestamp_ns src) (ba_last_timestamp_ns src)
                             else dst))"

definition pgwt_block_agg_merge :: "bagg_env \<Rightarrow> pgwt_block_agg \<Rightarrow> pgwt_block_agg \<Rightarrow> bagg_result" where
  "pgwt_block_agg_merge env dst src =
     (if ba_mode dst \<noteq> PGWT_BAGG_MODE_WINDOW then Some (PGWT_BAGG_REFUSED_MODE, dst)
      else if ba_mode src \<noteq> PGWT_BAGG_MODE_BLOCK then Some (PGWT_BAGG_REFUSED_MODE, dst)
      else if ba_version dst \<noteq> PGWT_BLOCK_AGG_VERSION \<or> ba_version src \<noteq> PGWT_BLOCK_AGG_VERSION
      then Some (PGWT_BAGG_REFUSED_VERSION, dst)
      else if \<not> pgwt_trace_identity_resolvable (bid_trace (ba_id src))
      then Some (PGWT_BAGG_REFUSED_IDENTITY, dst)
      else if \<not> ba_any_trace dst \<and> \<not> trace_identity_equal (bid_trace (ba_id dst)) (bid_trace (ba_id src))
      then Some (PGWT_BAGG_REFUSED_IDENTITY, dst)
      else case key_add env dst (key_of (ba_id src)) of
          None \<Rightarrow> None
        | Some (rc, dst) \<Rightarrow> if rc \<noteq> PGWT_BAGG_OK then Some (rc, dst) else merge_tables env dst src)"

section \<open>Validation and planning\<close>

definition pgwt_block_agg_matches :: "pgwt_block_agg \<Rightarrow> pgwt_block_identity \<Rightarrow> bool" where
  "pgwt_block_agg_matches a now =
     (if ba_mode a \<noteq> PGWT_BAGG_MODE_BLOCK then False
      else if ba_version a \<noteq> PGWT_BLOCK_AGG_VERSION then False
      else if \<not> trace_identity_equal (bid_trace (ba_id a)) (bid_trace now) then False
      else bid_block_index (ba_id a) = bid_block_index now \<and>
           bid_num_events (ba_id a) = bid_num_events now \<and>
           bid_file_offset (ba_id a) = bid_file_offset now \<and>
           bid_first_timestamp_ns (ba_id a) = bid_first_timestamp_ns now \<and>
           bid_last_timestamp_ns (ba_id a) = bid_last_timestamp_ns now)"

definition pgwt_block_agg_verify_payload :: "pgwt_block_agg \<Rightarrow> pgwt_trace_event list \<Rightarrow> bool" where
  "pgwt_block_agg_verify_payload a events =
     (if ba_mode a \<noteq> PGWT_BAGG_MODE_BLOCK then False else ba_payload_hash a = payload_hash_of events)"

datatype pgwt_block_plan = PGWT_BLOCK_SKIP | PGWT_BLOCK_MERGE | PGWT_BLOCK_DECODE

definition pgwt_block_agg_plan :: "pgwt_block_identity \<Rightarrow> bool \<Rightarrow> u64 \<Rightarrow> u64 \<Rightarrow> pgwt_block_plan" where
  "pgwt_block_agg_plan i have_agg from_mono_ns to_mono_ns =
     (if to_mono_ns < from_mono_ns then PGWT_BLOCK_SKIP
      else if bid_last_timestamp_ns i < bid_first_timestamp_ns i then PGWT_BLOCK_DECODE
      else if \<not> pgwt_block_agg_file_can_contribute (bid_first_timestamp_ns i) (bid_last_timestamp_ns i)
                 from_mono_ns to_mono_ns then PGWT_BLOCK_SKIP
      else if \<not> have_agg then PGWT_BLOCK_DECODE
      else if bid_first_timestamp_ns i \<ge> from_mono_ns \<and> bid_last_timestamp_ns i < to_mono_ns
      then PGWT_BLOCK_MERGE
      else PGWT_BLOCK_DECODE)"

section \<open>Readout\<close>

definition pgwt_block_agg_lookup :: "pgwt_block_agg \<Rightarrow> u32 \<Rightarrow> u32 \<Rightarrow> (u64 \<times> u64) option option" where
  "pgwt_block_agg_lookup a from_event to_event =
     (if ba_mode a = PGWT_BAGG_MODE_NONE then Some None
      else tab_lookup pair_hash (ba_pairs a) (from_event, to_event))"

definition pgwt_block_agg_node_lookup :: "pgwt_block_agg \<Rightarrow> u32 \<Rightarrow> (u64 \<times> u64) option option" where
  "pgwt_block_agg_node_lookup a event_id =
     (if ba_mode a = PGWT_BAGG_MODE_NONE then Some None else tab_lookup node_hash (ba_nodes a) event_id)"

definition cmp_pair_total :: "(u32 \<times> u32) agg_slot \<Rightarrow> (u32 \<times> u32) agg_slot \<Rightarrow> int" where
  "cmp_pair_total a b =
     (if sl_count a \<noteq> sl_count b then (if sl_count a > sl_count b then -1 else 1)
      else if fst (sl_key a) \<noteq> fst (sl_key b) then (if fst (sl_key a) < fst (sl_key b) then -1 else 1)
      else if snd (sl_key a) \<noteq> snd (sl_key b) then (if snd (sl_key a) < snd (sl_key b) then -1 else 1)
      else 0)"

definition cmp_node_total :: "u32 agg_slot \<Rightarrow> u32 agg_slot \<Rightarrow> int" where
  "cmp_node_total a b =
     (if sl_total_ns a \<noteq> sl_total_ns b then (if sl_total_ns a > sl_total_ns b then -1 else 1)
      else if sl_key a \<noteq> sl_key b then (if sl_key a < sl_key b then -1 else 1)
      else 0)"

text \<open>
  \<open>qsort\<close> with a comparator: insertion by the comparator. The comparators are total orders on slots with
  different keys, so every sorting algorithm gives this array.
\<close>

fun cmp_insert :: "('a \<Rightarrow> 'a \<Rightarrow> int) \<Rightarrow> 'a \<Rightarrow> 'a list \<Rightarrow> 'a list" where
  "cmp_insert cmp x [] = [x]"
| "cmp_insert cmp x (y # ys) = (if cmp x y \<le> 0 then x # y # ys else y # cmp_insert cmp x ys)"

fun qsort :: "('a \<Rightarrow> 'a \<Rightarrow> int) \<Rightarrow> 'a list \<Rightarrow> 'a list" where
  "qsort cmp [] = []"
| "qsort cmp (x # xs) = cmp_insert cmp x (qsort cmp xs)"

text \<open>The copying loop stops after \<open>tb_n\<close> occupied slots.\<close>

definition tab_sorted ::
  "(nat \<Rightarrow> bool) \<Rightarrow> ('k agg_slot \<Rightarrow> 'k agg_slot \<Rightarrow> int) \<Rightarrow> 'k agg_tab \<Rightarrow> pgwt_bagg_status \<times> 'k agg_slot list" where
  "tab_sorted alloc cmp t =
     (if tb_n t = 0 then (PGWT_BAGG_OK, [])
      else if \<not> alloc (tb_n t) then (PGWT_BAGG_REFUSED_NOMEM, [])
      else (PGWT_BAGG_OK, qsort cmp (take (tb_n t) (filter (\<lambda>s. sl_used s) (tb_slots t)))))"

definition pgwt_block_agg_pairs_sorted ::
  "(nat \<Rightarrow> bool) \<Rightarrow> pgwt_block_agg \<Rightarrow> pgwt_bagg_status \<times> (u32 \<times> u32) agg_slot list" where
  "pgwt_block_agg_pairs_sorted alloc a =
     (if ba_mode a = PGWT_BAGG_MODE_NONE then (PGWT_BAGG_REFUSED_INVALID, [])
      else tab_sorted alloc cmp_pair_total (ba_pairs a))"

definition pgwt_block_agg_nodes_sorted ::
  "(nat \<Rightarrow> bool) \<Rightarrow> pgwt_block_agg \<Rightarrow> pgwt_bagg_status \<times> u32 agg_slot list" where
  "pgwt_block_agg_nodes_sorted alloc a =
     (if ba_mode a = PGWT_BAGG_MODE_NONE then (PGWT_BAGG_REFUSED_INVALID, [])
      else tab_sorted alloc cmp_node_total (ba_nodes a))"

section \<open>The slots as a finite map\<close>

text \<open>What a key has in the table; absence is the pair of zeros.\<close>

definition slots_val :: "'k agg_slot list \<Rightarrow> 'k \<Rightarrow> u64 \<times> u64" where
  "slots_val ss k =
     (case find (\<lambda>s. sl_used s \<and> sl_key s = k) ss of None \<Rightarrow> (0, 0) | Some s \<Rightarrow> (sl_count s, sl_total_ns s))"

definition agg_slots_ok :: "('k \<Rightarrow> u32) \<Rightarrow> 'k agg_slot list \<Rightarrow> bool" where
  "agg_slots_ok hash ss \<longleftrightarrow> oa_ok hash (slots_view ss) \<and> (\<forall>s\<in>set ss. sl_count s = 0 \<longrightarrow> sl_total_ns s = 0)"

abbreviation n_used :: "'k agg_slot list \<Rightarrow> nat" where
  "n_used ss \<equiv> length (filter (\<lambda>s. sl_used s) ss)"

lemma slots_view_fields [simp]:
  "ix_keys (slots_view ss) = map sl_key ss" "ix_used (slots_view ss) = map (\<lambda>s. sl_used s) ss"
  "ix_cap (slots_view ss) = length ss" "ix_n (slots_view ss) = n_used ss"
  "ix_vals (slots_view ss) = replicate (length ss) 0"
  by (simp_all add: slots_view_def)

lemma slots_ok_empty: "agg_slots_ok hash []"
  by (simp add: agg_slots_ok_def oa_ok_def)

lemma filter_upt_nth: "length (filter (\<lambda>i. P (xs ! i)) [0..<length xs]) = length (filter P xs)"
proof -
  have "filter P xs = filter P (map ((!) xs) [0..<length xs])" by (simp add: map_nth)
  then show ?thesis by (simp add: filter_map comp_def)
qed

lemma n_used_index: "length (filter (\<lambda>i. map (\<lambda>s. sl_used s) ss ! i) [0..<length ss]) = n_used ss"
  using filter_upt_nth [of id "map (\<lambda>s. sl_used s) ss"] by (simp add: filter_map comp_def)

lemma slots_ok_calloc: "b < 32 \<Longrightarrow> agg_slots_ok hash (slots_calloc z (2 ^ b))"
  by (auto simp: agg_slots_ok_def oa_ok_def slots_calloc_def filter_replicate map_replicate)

lemma slots_val_calloc: "slots_val (slots_calloc z c) k = (0, 0)"
  by (auto simp: slots_val_def slots_calloc_def split: option.split dest!: find_Some_iff [THEN iffD1])

lemma slots_okD:
  assumes "agg_slots_ok hash ss"
  shows "i < length ss \<Longrightarrow> j < length ss \<Longrightarrow> sl_used (ss ! i) \<Longrightarrow> sl_used (ss ! j) \<Longrightarrow>
           sl_key (ss ! i) = sl_key (ss ! j) \<Longrightarrow> i = j"
    and "i < length ss \<Longrightarrow> sl_count (ss ! i) = 0 \<Longrightarrow> sl_total_ns (ss ! i) = 0"
    and "ss \<noteq> [] \<Longrightarrow> \<exists>b<32. length ss = 2 ^ b" and "ss \<noteq> [] \<Longrightarrow> n_used ss < length ss"
proof -
  have ok: "oa_ok hash (slots_view ss)" and z: "\<forall>s\<in>set ss. sl_count s = 0 \<longrightarrow> sl_total_ns s = 0"
    using assms by (auto simp: agg_slots_ok_def)
  show "i < length ss \<Longrightarrow> j < length ss \<Longrightarrow> sl_used (ss ! i) \<Longrightarrow> sl_used (ss ! j) \<Longrightarrow>
      sl_key (ss ! i) = sl_key (ss ! j) \<Longrightarrow> i = j"
    using oa_okD(7) [OF ok, of i j] by simp
  show "i < length ss \<Longrightarrow> sl_count (ss ! i) = 0 \<Longrightarrow> sl_total_ns (ss ! i) = 0" using z by simp
  show "ss \<noteq> [] \<Longrightarrow> \<exists>b<32. length ss = 2 ^ b" "ss \<noteq> [] \<Longrightarrow> n_used ss < length ss"
    using oa_okD(4,5) [OF ok] by simp_all
qed

lemma slots_val_at:
  assumes "agg_slots_ok hash ss" and "i < length ss" and "sl_used (ss ! i)"
  shows "slots_val ss (sl_key (ss ! i)) = (sl_count (ss ! i), sl_total_ns (ss ! i))"
proof -
  have "find (\<lambda>s. sl_used s \<and> sl_key s = sl_key (ss ! i)) ss \<noteq> None"
    using assms(2,3) by (auto simp: find_None_iff intro!: exI [of _ "ss ! i"])
  then obtain s where s: "find (\<lambda>s. sl_used s \<and> sl_key s = sl_key (ss ! i)) ss = Some s" by auto
  then obtain j where "j < length ss" "s = ss ! j" "sl_used (ss ! j)" "sl_key (ss ! j) = sl_key (ss ! i)"
    by (auto simp: find_Some_iff)
  then have "s = ss ! i" using slots_okD(1) [OF assms(1), of j i] assms(2,3) by simp
  then show ?thesis using s by (simp add: slots_val_def)
qed

lemma slots_val_absent: "(\<forall>s\<in>set ss. sl_used s \<longrightarrow> sl_key s \<noteq> k) \<Longrightarrow> slots_val ss k = (0, 0)"
  by (auto simp: slots_val_def split: option.split dest!: find_Some_iff [THEN iffD1])

lemma slots_val_present: "fst (slots_val ss k) \<noteq> 0 \<longleftrightarrow> (\<exists>s\<in>set ss. sl_used s \<and> sl_key s = k)"
  by (auto simp: slots_val_def find_None_iff split: option.split dest!: find_Some_iff [THEN iffD1])

lemma slots_view_fill:
  assumes "i < length ss" and "sl_count (ss ! i) = 0" and "sl_used s"
  shows "slots_view (ss[i := s]) = oa_fill (slots_view ss) i (sl_key s) 0" and "n_used (ss[i := s]) = n_used ss + 1"
proof -
  have upd: "map (\<lambda>s. sl_used s) (ss[i := s]) = (map (\<lambda>s. sl_used s) ss)[i := True]"
    using assms(3) by (simp add: map_update)
  show n: "n_used (ss[i := s]) = n_used ss + 1"
    using filter_upt_update [of i "length ss" "map (\<lambda>s. sl_used s) ss"] assms(1,2)
      n_used_index [of ss] n_used_index [of "ss[i := s]"] unfolding upd by simp
  have "(replicate (length ss) (0 :: int))[i := 0] = replicate (length ss) 0"
    by (metis list_update_id nth_replicate assms(1))
  then show "slots_view (ss[i := s]) = oa_fill (slots_view ss) i (sl_key s) 0"
    using n upd by (simp add: slots_view_def oa_fill_def map_update)
qed

lemma slots_view_set:
  assumes "i < length ss" and "sl_used (ss ! i)" and "sl_used s" and "sl_key s = sl_key (ss ! i)"
  shows "slots_view (ss[i := s]) = slots_view ss" and "n_used (ss[i := s]) = n_used ss"
proof -
  have "map sl_key (ss[i := s]) = map sl_key ss" using assms(1,4) by (metis list_update_id map_update)
  moreover have upd: "map (\<lambda>s. sl_used s) (ss[i := s]) = map (\<lambda>s. sl_used s) ss"
    using assms(1-3) by (auto simp: map_update list_eq_iff_nth_eq nth_list_update)
  moreover show "n_used (ss[i := s]) = n_used ss"
    using n_used_index [of ss] n_used_index [of "ss[i := s]"] unfolding upd by simp
  ultimately show "slots_view (ss[i := s]) = slots_view ss" by (simp add: slots_view_def)
qed

text \<open>Everything the callers use of a probe: the slot found, what it holds, and what writing it does.\<close>

lemma slot_of_spec:
  assumes "agg_slots_ok hash ss" and "n_used ss + 1 < length ss"
  obtains h where "slot_of hash ss k = Some h" and "h < length ss"
    and "slots_val ss k = (sl_count (ss ! h), sl_total_ns (ss ! h))"
    and "sl_used (ss ! h) \<Longrightarrow> sl_key (ss ! h) = k"
    and "\<And>s. sl_used s \<Longrightarrow> sl_key s = k \<Longrightarrow> agg_slots_ok hash (ss[h := s])"
    and "\<And>s. sl_used s \<Longrightarrow> sl_key s = k \<Longrightarrow>
           slots_val (ss[h := s]) = (slots_val ss)(k := (sl_count s, sl_total_ns s))"
    and "\<And>s. sl_used s \<Longrightarrow> sl_key s = k \<Longrightarrow>
           n_used (ss[h := s]) = (if sl_used (ss ! h) then n_used ss else n_used ss + 1)"
proof -
  let ?v = "slots_view ss"
  have ok: "oa_ok hash ?v" using assms(1) by (simp add: agg_slots_ok_def)
  have c: "ix_cap ?v \<noteq> 0" using assms(2) by auto
  obtain h d where h: "oa_probe ?v k (hash k AND oa_mask ?v) = Some h" "unat h < ix_cap ?v"
    "d < ix_cap ?v" "unat h = (unat (hash k) + d) mod ix_cap ?v"
    "\<forall>j<d. ix_used ?v ! ((unat (hash k) + j) mod ix_cap ?v)"
    "ix_used ?v ! unat h \<longrightarrow> ix_keys ?v ! unat h = k" "\<not> ix_used ?v ! unat h \<longrightarrow> oa_map ?v k = None"
    by (rule oa_probe_spec [OF ok c, of k])
  have hl: "unat h < length ss" using h(2) by simp
  have key: "sl_used (ss ! unat h) \<Longrightarrow> sl_key (ss ! unat h) = k" using h(6) hl by simp
  have absent: "sl_count (ss ! unat h) = 0 \<Longrightarrow> \<forall>s\<in>set ss. sl_used s \<longrightarrow> sl_key s \<noteq> k"
    using h(7) hl by (auto simp: oa_map_None in_set_conv_nth)
  have val: "slots_val ss k = (sl_count (ss ! unat h), sl_total_ns (ss ! unat h))"
    using slots_val_at [OF assms(1) hl] key slots_val_absent [OF absent] slots_okD(2) [OF assms(1) hl]
    by (cases "sl_used (ss ! unat h)") auto
  have oks: "agg_slots_ok hash (ss[unat h := s])" if s: "sl_used s" "sl_key s = k" for s
  proof -
    have "oa_ok hash (slots_view (ss[unat h := s]))"
    proof (cases "sl_used (ss ! unat h)")
      case True
      then show ?thesis using slots_view_set(1) [OF hl True s(1)] key s(2) ok by simp
    next
      case False
      then show ?thesis
        using slots_view_fill(1) [OF hl _ s(1)] s(2) hl
          oa_ok_fill [OF ok h(2) _ h(7) [rule_format] h(4,3,5), of 0] assms(2) by simp
    qed
    moreover have "\<forall>x\<in>set (ss[unat h := s]). sl_count x = 0 \<longrightarrow> sl_total_ns x = 0"
      using assms(1) s(1) set_update_subset_insert [of ss "unat h" s] by (auto simp: agg_slots_ok_def)
    ultimately show ?thesis by (simp add: agg_slots_ok_def)
  qed
  have vals: "slots_val (ss[unat h := s]) = (slots_val ss)(k := (sl_count s, sl_total_ns s))"
    if s: "sl_used s" "sl_key s = k" for s
  proof
    fix k'
    show "slots_val (ss[unat h := s]) k' = ((slots_val ss)(k := (sl_count s, sl_total_ns s))) k'"
    proof (cases "k' = k")
      case True
      then show ?thesis using slots_val_at [OF oks [OF s], of "unat h"] hl s by simp
    next
      case False
      have same: "(ss[unat h := s]) ! i = ss ! i" if "i < length ss" "sl_used (ss ! i)" "sl_key (ss ! i) = k'" for i
        using that key False by (cases "i = unat h") auto
      show ?thesis
      proof (cases "\<exists>i<length ss. sl_used (ss ! i) \<and> sl_key (ss ! i) = k'")
        case True
        then obtain i where i: "i < length ss" "sl_used (ss ! i)" "sl_key (ss ! i) = k'" by blast
        show ?thesis
          using slots_val_at [OF assms(1) i(1,2)] slots_val_at [OF oks [OF s], of i] same [OF i] i False by simp
      next
        case none: False
        have "slots_val (ss[unat h := s]) k' = (0, 0)"
          using none False s hl by (intro slots_val_absent) (auto simp: in_set_conv_nth nth_list_update split: if_splits)
        moreover have "slots_val ss k' = (0, 0)"
          using none by (intro slots_val_absent) (auto simp: in_set_conv_nth)
        ultimately show ?thesis using False by simp
      qed
    qed
  qed
  have ns: "n_used (ss[unat h := s]) = (if sl_used (ss ! unat h) then n_used ss else n_used ss + 1)"
    if s: "sl_used s" "sl_key s = k" for s
    using slots_view_set(2) [OF hl _ s(1)] slots_view_fill(2) [OF hl _ s(1)] key s(2) by auto
  show thesis by (rule that [OF _ hl val key oks vals ns]) (simp add: slot_of_def h(1))
qed

section \<open>Growth and addition\<close>

lemma slots_distinct_keys: "agg_slots_ok hash ss \<Longrightarrow> distinct (map sl_key (filter (\<lambda>s. sl_used s) ss))"
proof -
  assume ok: "agg_slots_ok hash ss"
  have "inj_on (\<lambda>i. sl_key (ss ! i)) {i. i < length ss \<and> sl_used (ss ! i)}"
    using slots_okD(1) [OF ok] by (auto intro!: inj_onI)
  then have "distinct (map (\<lambda>i. sl_key (ss ! i)) (filter (\<lambda>i. sl_used (ss ! i)) [0..<length ss]))"
    by (simp add: distinct_map)
  moreover have "filter (\<lambda>s. sl_used s) ss = map ((!) ss) (filter (\<lambda>i. sl_used (ss ! i)) [0..<length ss])"
    using filter_map [of "\<lambda>s. sl_used s" "(!) ss" "[0..<length ss]"] by (simp add: map_nth comp_def)
  ultimately show ?thesis by (simp add: comp_def)
qed

lemma slots_rehash_spec:
  assumes "agg_slots_ok hash nt" and "distinct (map sl_key (filter (\<lambda>s. sl_used s) old))"
    and "\<forall>s\<in>set old. sl_used s \<longrightarrow> slots_val nt (sl_key s) = (0, 0)"
    and "n_used nt + n_used old < length nt"
  shows "\<exists>nt'. slots_rehash hash old nt = Some nt' \<and> agg_slots_ok hash nt' \<and> length nt' = length nt \<and>
    n_used nt' = n_used nt + n_used old \<and>
    slots_val nt' = (\<lambda>k. if \<exists>s\<in>set old. sl_used s \<and> sl_key s = k then slots_val old k else slots_val nt k)"
  using assms
proof (induction old arbitrary: nt)
  case (Cons s old)
  show ?case
  proof (cases "sl_count s = 0")
    case True
    then have "slots_val (s # old) = slots_val old" by (simp add: slots_val_def fun_eq_iff)
    with True show ?thesis using Cons.IH [of nt] Cons.prems by (simp cong: if_cong)
  next
    case False
    then have fit: "n_used nt + 1 < length nt" using Cons.prems(4) by simp
    obtain h where h: "slot_of hash nt (sl_key s) = Some h" "h < length nt"
      "slots_val nt (sl_key s) = (sl_count (nt ! h), sl_total_ns (nt ! h))"
      "\<And>x. sl_used x \<Longrightarrow> sl_key x = sl_key s \<Longrightarrow> agg_slots_ok hash (nt[h := x])"
      "\<And>x. sl_used x \<Longrightarrow> sl_key x = sl_key s \<Longrightarrow>
         slots_val (nt[h := x]) = (slots_val nt)(sl_key s := (sl_count x, sl_total_ns x))"
      "\<And>x. sl_used x \<Longrightarrow> sl_key x = sl_key s \<Longrightarrow>
         n_used (nt[h := x]) = (if sl_used (nt ! h) then n_used nt else n_used nt + 1)"
      by (rule slot_of_spec [OF Cons.prems(1) fit, of "sl_key s"]) blast
    have free: "sl_count (nt ! h) = 0" using h(3) Cons.prems(3) False by simp
    let ?nt = "nt[h := s]"
    have "sl_key s \<notin> sl_key ` set (filter (\<lambda>s. sl_used s) old)" using Cons.prems(2) False by simp
    then have key1: "\<forall>x\<in>set old. sl_used x \<longrightarrow> sl_key x \<noteq> sl_key s" by (auto simp: image_iff)
    have key2: "distinct (map sl_key (filter (\<lambda>s. sl_used s) old))" using Cons.prems(2) False by simp
    note key = key1 key2
    have v: "slots_val ?nt = (slots_val nt)(sl_key s := (sl_count s, sl_total_ns s))"
      and n: "n_used ?nt = n_used nt + 1" and ok: "agg_slots_ok hash ?nt"
      using h(4,5,6) [of s] False free by auto
    have "\<forall>x\<in>set old. sl_used x \<longrightarrow> slots_val ?nt (sl_key x) = (0, 0)"
      using v key(1) Cons.prems(3) by auto
    moreover have "n_used ?nt + n_used old < length ?nt" using n Cons.prems(4) False by simp
    ultimately obtain nt' where r: "slots_rehash hash old ?nt = Some nt'" "agg_slots_ok hash nt'"
      "length nt' = length ?nt" "n_used nt' = n_used ?nt + n_used old"
      "slots_val nt' = (\<lambda>k. if \<exists>x\<in>set old. sl_used x \<and> sl_key x = k then slots_val old k else slots_val ?nt k)"
      using Cons.IH [OF ok key(2)] by blast
    have cons: "slots_val (s # old) k = (if k = sl_key s then (sl_count s, sl_total_ns s) else slots_val old k)" for k
      using False by (simp add: slots_val_def)
    have "slots_val nt' = (\<lambda>k. if \<exists>x\<in>set (s # old). sl_used x \<and> sl_key x = k
        then slots_val (s # old) k else slots_val nt k)"
      using r(5) v key(1) False by (auto simp: fun_eq_iff cons)
    then show ?thesis using h(1) False r n by simp
  qed
qed simp

lemma tab_grow_spec:
  assumes "agg_slots_ok hash (tb_slots t)" and "length (tb_slots t) * 2 \<le> oa_INT_MAX"
  defines "ncap \<equiv> (if length (tb_slots t) \<noteq> 0 then length (tb_slots t) * 2 else 64)"
  shows "\<exists>ss. tab_grow hash z alloc t =
      Some (if alloc ncap then (PGWT_BAGG_OK, t\<lparr>tb_slots := ss\<rparr>) else (PGWT_BAGG_REFUSED_NOMEM, t)) \<and>
    agg_slots_ok hash ss \<and> length ss = ncap \<and> n_used ss = n_used (tb_slots t) \<and>
    slots_val ss = slots_val (tb_slots t)"
proof -
  let ?old = "tb_slots t" and ?new = "slots_calloc z ncap"
  have pow: "\<exists>b<32. ncap = 2 ^ b"
  proof (cases "?old = []")
    case True
    then show ?thesis by (intro exI [of _ 6]) (simp add: ncap_def)
  next
    case False
    then obtain b where "length ?old = 2 ^ b" using slots_okD(3) [OF assms(1)] by blast
    from double_pow2 [OF this assms(2)] False show ?thesis by (intro exI [of _ "Suc b"]) (simp add: ncap_def)
  qed
  then have new: "agg_slots_ok hash ?new" using slots_ok_calloc by metis
  have used: "n_used ?old < ncap" using slots_okD(4) [OF assms(1)] by (cases "?old = []") (auto simp: ncap_def)
  have fresh: "n_used ?new = 0" "length ?new = ncap" by (simp_all add: slots_calloc_def filter_replicate)
  obtain ss where ss: "slots_rehash hash ?old ?new = Some ss" "agg_slots_ok hash ss" "length ss = ncap"
    "n_used ss = n_used ?old"
    "slots_val ss = (\<lambda>k. if \<exists>s\<in>set ?old. sl_used s \<and> sl_key s = k then slots_val ?old k else slots_val ?new k)"
    using slots_rehash_spec [OF new slots_distinct_keys [OF assms(1)]] used fresh
    by (auto simp: slots_val_calloc)
  have "slots_val ss k = slots_val ?old k" for k
  proof (cases "\<exists>s\<in>set ?old. sl_used s \<and> sl_key s = k")
    case False
    then have "slots_val ?old k = (0, 0)" by (intro slots_val_absent) blast
    then show ?thesis using False ss(5) by (simp add: slots_val_calloc)
  qed (simp add: ss(5))
  then have "slots_val ss = slots_val ?old" by blast
  moreover have "\<not> ncap > oa_INT_MAX" "\<not> ncap \<le> length ?old"
    using assms(2) by (auto simp: ncap_def oa_INT_MAX_def)
  ultimately show ?thesis
    using ss(1-4) unfolding tab_grow_def Let_def ncap_def [symmetric] by (intro exI [of _ ss]) simp
qed

text \<open>The table stands for a list of keyed durations.\<close>

definition key_durs :: "'k \<Rightarrow> ('k \<times> u64) list \<Rightarrow> u64 list" where
  "key_durs k kds = map snd (filter (\<lambda>p. fst p = k) kds)"

definition tab_rep :: "('k \<Rightarrow> u32) \<Rightarrow> 'k agg_tab \<Rightarrow> ('k \<times> u64) list \<Rightarrow> bool" where
  "tab_rep hash t kds \<longleftrightarrow>
     agg_slots_ok hash (tb_slots t) \<and> tb_n t = n_used (tb_slots t) \<and> tb_n t = card (fst ` set kds) \<and>
     (tb_slots t = [] \<or> tb_n t * 10 < length (tb_slots t) * 7 \<and> 64 \<le> length (tb_slots t)) \<and>
     (length (tb_slots t) \<le> 64 \<or> length (tb_slots t) * 7 \<le> 20 * (tb_n t + 1)) \<and>
     (\<forall>k. slots_val (tb_slots t) k = (of_nat (length (key_durs k kds)), sum_list (key_durs k kds))) \<and>
     tb_count t = of_nat (length kds) \<and> tb_ns t = sum_list (map snd kds)"

lemma tab_rep_zero: "tab_rep hash tab_zero []"
  by (simp add: tab_rep_def tab_zero_def slots_ok_empty slots_val_def key_durs_def)

lemma tab_repD:
  assumes "tab_rep hash t kds"
  shows "agg_slots_ok hash (tb_slots t)" and "tb_n t = n_used (tb_slots t)" and "tb_n t = card (fst ` set kds)"
    and "tb_slots t \<noteq> [] \<Longrightarrow> tb_n t * 10 < length (tb_slots t) * 7"
    and "tb_slots t \<noteq> [] \<Longrightarrow> 64 \<le> length (tb_slots t)"
    and "length (tb_slots t) \<le> 64 \<or> length (tb_slots t) * 7 \<le> 20 * (tb_n t + 1)"
    and "slots_val (tb_slots t) k = (of_nat (length (key_durs k kds)), sum_list (key_durs k kds))"
    and "tb_count t = of_nat (length kds)" and "tb_ns t = sum_list (map snd kds)"
  using assms by (auto simp: tab_rep_def)

text \<open>The table depends on the list only up to order.\<close>

lemma tab_rep_mset:
  assumes "mset xs = mset ys"
  shows "tab_rep hash t xs \<longleftrightarrow> tab_rep hash t ys"
proof -
  have "mset (key_durs k xs) = mset (key_durs k ys)" for k by (simp add: key_durs_def assms)
  then have "length (key_durs k xs) = length (key_durs k ys)" "sum_list (key_durs k xs) = sum_list (key_durs k ys)" for k
    by (metis size_mset, metis sum_mset_sum_list)
  moreover have "set xs = set ys" "length xs = length ys" using assms by (metis set_mset_mset, metis size_mset)
  moreover have "sum_list (map snd xs) = sum_list (map snd ys)" using assms by (metis mset_map sum_mset_sum_list)
  ultimately show ?thesis by (simp add: tab_rep_def)
qed

lemma key_durs_append [simp]: "key_durs k (xs @ ys) = key_durs k xs @ key_durs k ys"
  by (simp add: key_durs_def)

lemma key_durs_own: "\<forall>p\<in>set es. fst p = k \<Longrightarrow> key_durs k' es = (if k' = k then map snd es else [])"
  by (auto simp: key_durs_def filter_id_conv filter_empty_conv)

lemma length_key_durs_le: "length (key_durs k kds) \<le> length kds"
  by (simp add: key_durs_def)

lemma of_nat_u64_nz: "0 < n \<Longrightarrow> n < 2 ^ 64 \<Longrightarrow> (of_nat n :: u64) \<noteq> 0"
  by (simp add: word_of_nat_eq_0_iff nat_dvd_not_less)

text \<open>The limits under which no counter wraps and no signed product overflows.\<close>

definition kds_fit :: "('k \<times> u64) list \<Rightarrow> bool" where
  "kds_fit kds \<longleftrightarrow> length kds < 2 ^ 64 \<and> card (fst ` set kds) < 10 ^ 8"

lemma kds_fit_prefix: "kds_fit (xs @ ys) \<Longrightarrow> kds_fit xs"
proof -
  have "card (fst ` set xs) \<le> card (fst ` set (xs @ ys))" by (intro card_mono) auto
  then show "kds_fit (xs @ ys) \<Longrightarrow> kds_fit xs" by (simp add: kds_fit_def)
qed

lemma kds_fit_mset: "mset xs = mset ys \<Longrightarrow> kds_fit xs \<longleftrightarrow> kds_fit ys"
  by (metis kds_fit_def set_mset_mset size_mset)

lemma tab_bump_spec:
  assumes "agg_slots_ok hash (tb_slots t)" and "tb_n t = n_used (tb_slots t)" and "tb_n t = card (fst ` set kds)"
    and "(tb_n t + 1) * 10 < length (tb_slots t) * 7" and "64 \<le> length (tb_slots t)"
    and "length (tb_slots t) \<le> 64 \<or> length (tb_slots t) * 7 \<le> 20 * (tb_n t + 1)"
    and "\<forall>k. slots_val (tb_slots t) k = (of_nat (length (key_durs k kds)), sum_list (key_durs k kds))"
    and "tb_count t = of_nat (length kds)" and "tb_ns t = sum_list (map snd kds)"
    and "es \<noteq> []" and "\<forall>p\<in>set es. fst p = k" and "length (kds @ es) < 2 ^ 64"
  shows "\<exists>t'. tab_bump hash t k (of_nat (length es)) (sum_list (map snd es)) = Some t' \<and> tab_rep hash t' (kds @ es)"
proof -
  let ?ss = "tb_slots t" and ?c = "of_nat (length es) :: u64" and ?d = "sum_list (map snd es)"
  have fit: "n_used ?ss + 1 < length ?ss" using assms(2,4) by simp
  obtain h where h: "slot_of hash ?ss k = Some h" "h < length ?ss"
    "slots_val ?ss k = (sl_count (?ss ! h), sl_total_ns (?ss ! h))"
    "sl_used (?ss ! h) \<Longrightarrow> sl_key (?ss ! h) = k"
    "\<And>s. sl_used s \<Longrightarrow> sl_key s = k \<Longrightarrow> agg_slots_ok hash (?ss[h := s])"
    "\<And>s. sl_used s \<Longrightarrow> sl_key s = k \<Longrightarrow>
       slots_val (?ss[h := s]) = (slots_val ?ss)(k := (sl_count s, sl_total_ns s))"
    "\<And>s. sl_used s \<Longrightarrow> sl_key s = k \<Longrightarrow>
       n_used (?ss[h := s]) = (if sl_used (?ss ! h) then n_used ?ss else n_used ?ss + 1)"
    by (rule slot_of_spec [OF assms(1) fit, of k]) blast
  define s where "s = (if sl_count (?ss ! h) = 0 then (?ss ! h)\<lparr>sl_key := k\<rparr> else ?ss ! h)
    \<lparr>sl_count := sl_count (?ss ! h) + ?c, sl_total_ns := sl_total_ns (?ss ! h) + ?d\<rparr>"
  let ?n = "if sl_count (?ss ! h) = 0 then tb_n t + 1 else tb_n t"
  define t' where "t' = t\<lparr>tb_slots := ?ss[h := s], tb_n := ?n, tb_count := tb_count t + ?c, tb_ns := tb_ns t + ?d\<rparr>"
  have run: "tab_bump hash t k ?c ?d = Some t'"
    unfolding tab_bump_def t'_def s_def by (simp add: h(1) Let_def)
  have cnt: "sl_count (?ss ! h) = of_nat (length (key_durs k kds))" "sl_total_ns (?ss ! h) = sum_list (key_durs k kds)"
    using h(3) assms(7) by auto
  have sc: "sl_count s = of_nat (length (key_durs k kds) + length es)" "sl_total_ns s = sum_list (key_durs k (kds @ es))"
    using key_durs_own [OF assms(11), of k] by (simp_all add: s_def cnt)
  have "length (key_durs k kds) + length es < 2 ^ 64" using assms(12) length_key_durs_le [of k kds] by simp
  then have su: "sl_used s" unfolding sc(1) by (rule of_nat_u64_nz [rotated]) (use assms(10) in simp)
  have sk: "sl_key s = k" using h(4) by (auto simp: s_def)
  have free: "sl_count (?ss ! h) = 0 \<longleftrightarrow> k \<notin> fst ` set kds"
  proof
    assume "sl_count (?ss ! h) = 0"
    moreover have "length (key_durs k kds) < 2 ^ 64" using assms(12) length_key_durs_le [of k kds] by simp
    ultimately have "key_durs k kds = []" using cnt(1) of_nat_u64_nz by force
    then show "k \<notin> fst ` set kds" by (auto simp: key_durs_def filter_empty_conv)
  next
    assume "k \<notin> fst ` set kds"
    then have "key_durs k kds = []" by (auto simp: key_durs_def filter_empty_conv)
    then show "sl_count (?ss ! h) = 0" using cnt(1) by simp
  qed
  have "fst ` set es = {k}" using assms(10,11) by (cases es) force+
  then have card: "?n = card (fst ` set (kds @ es))"
    using free assms(3) by (auto simp: image_Un insert_absorb card_insert_if)
  have val: "slots_val (?ss[h := s]) k' = (of_nat (length (key_durs k' (kds @ es))), sum_list (key_durs k' (kds @ es)))" for k'
    using h(6) [OF su sk] assms(7) sc key_durs_own [OF assms(11), of k'] by (cases "k' = k") simp_all
  have "tab_rep hash t' (kds @ es)"
    unfolding tab_rep_def t'_def using h(5,7) [OF su sk] assms(2,4-6,8,9) card val
    by (auto simp: image_Un split: if_splits)
  then show ?thesis using run by blast
qed

lemma tab_add_spec:
  assumes rep: "tab_rep hash t kds" and es: "es \<noteq> []" "\<forall>p\<in>set es. fst p = k" and fits: "kds_fit (kds @ es)"
  shows "\<exists>rc t'. tab_add hash z alloc t k (of_nat (length es)) (sum_list (map snd es)) = Some (rc, t') \<and>
    (rc = PGWT_BAGG_OK \<and> tab_rep hash t' (kds @ es) \<or>
     rc = PGWT_BAGG_REFUSED_NOMEM \<and> t' = t \<and> (\<exists>n. \<not> alloc n))"
proof -
  note r = tab_repD [OF rep]
  let ?L = "length (tb_slots t)" and ?c = "of_nat (length es) :: u64" and ?d = "sum_list (map snd es)"
  let ?ncap = "if ?L \<noteq> 0 then ?L * 2 else 64"
  have len: "length (kds @ es) < 2 ^ 64" using fits by (simp add: kds_fit_def)
  have c0: "?c \<noteq> 0" using of_nat_u64_nz [of "length es"] es(1) len by simp
  have n: "tb_n t < 10 ^ 8" using kds_fit_prefix [OF fits] r(3) by (simp add: kds_fit_def)
  have noub: "\<not> (?L \<noteq> 0 \<and> ((tb_n t + 1) * 10 > oa_INT_MAX \<or> ?L * 7 > oa_INT_MAX))" and small: "?L * 2 \<le> oa_INT_MAX"
    using n r(6) by (auto simp: oa_INT_MAX_def)
  have vals: "\<forall>k. slots_val (tb_slots t) k = (of_nat (length (key_durs k kds)), sum_list (key_durs k kds))"
    using r(7) by blast
  show ?thesis
  proof (cases "?L = 0 \<or> (tb_n t + 1) * 10 \<ge> ?L * 7")
    case False
    then have "64 \<le> ?L" using r(5) by auto
    then obtain t' where "tab_bump hash t k ?c ?d = Some t'" "tab_rep hash t' (kds @ es)"
      using tab_bump_spec [OF r(1-3) _ _ r(6) vals r(8,9) es len] False by auto
    then show ?thesis using c0 noub False by (simp add: tab_add_def Let_def)
  next
    case full: True
    obtain ss where g: "tab_grow hash z alloc t =
        Some (if alloc ?ncap then (PGWT_BAGG_OK, t\<lparr>tb_slots := ss\<rparr>) else (PGWT_BAGG_REFUSED_NOMEM, t))"
      "agg_slots_ok hash ss" "length ss = ?ncap" "n_used ss = n_used (tb_slots t)" "slots_val ss = slots_val (tb_slots t)"
      using tab_grow_spec [OF r(1) small, of z alloc] by blast
    show ?thesis
    proof (cases "alloc ?ncap")
      case False
      then show ?thesis using c0 noub full g(1) unfolding tab_add_def Let_def by auto
    next
      case True
      let ?t = "t\<lparr>tb_slots := ss\<rparr>"
      have empty: "tb_n t = 0" if "?L = 0" using that r(2) by simp
      have load: "(tb_n ?t + 1) * 10 < length (tb_slots ?t) * 7" "64 \<le> length (tb_slots ?t)"
        "length (tb_slots ?t) \<le> 64 \<or> length (tb_slots ?t) * 7 \<le> 20 * (tb_n ?t + 1)"
        using g(3) full r(4,5) empty by (cases "?L = 0"; simp)+
      have "\<exists>t'. tab_bump hash ?t k ?c ?d = Some t' \<and> tab_rep hash t' (kds @ es)"
        by (rule tab_bump_spec [OF _ _ _ load _ _ _ es len]) (use g r vals in simp_all)
      then show ?thesis using c0 noub full g(1) True unfolding tab_add_def Let_def by auto
    qed
  qed
qed

text \<open>Merging the slots of a table appends what it stands for.\<close>

lemma mset_group_keys:
  assumes "distinct ks" and "fst ` set sds \<subseteq> set ks"
  shows "mset (concat (map (\<lambda>k. filter (\<lambda>p. fst p = k) sds) ks)) = mset sds"
  using assms
proof (induction ks arbitrary: sds)
  case (Cons k ks)
  let ?rest = "filter (\<lambda>p. fst p \<noteq> k) sds"
  have "filter (\<lambda>p. fst p = k') ?rest = filter (\<lambda>p. fst p = k') sds" if "k' \<in> set ks" for k'
    using that Cons.prems(1) by (auto intro: filter_cong)
  then have "map (\<lambda>k. filter (\<lambda>p. fst p = k) sds) ks = map (\<lambda>k. filter (\<lambda>p. fst p = k) ?rest) ks" by simp
  moreover have "mset (concat (map (\<lambda>k. filter (\<lambda>p. fst p = k) ?rest) ks)) = mset ?rest"
    using Cons.prems by (intro Cons.IH) auto
  ultimately have "mset (concat (map (\<lambda>k. filter (\<lambda>p. fst p = k) sds) ks)) = mset ?rest" by (simp only:)
  then show ?case using multiset_partition [of "mset sds" "\<lambda>p. fst p = k"] by simp
qed simp

lemma tab_merge_slots_spec:
  assumes src: "\<forall>s\<in>set us. sl_used s \<longrightarrow> key_durs (sl_key s) sds \<noteq> [] \<and>
      sl_count s = of_nat (length (key_durs (sl_key s) sds)) \<and> sl_total_ns s = sum_list (key_durs (sl_key s) sds)"
    and rep: "tab_rep hash t kds"
    and fits: "kds_fit (kds @ concat (map (\<lambda>s. filter (\<lambda>p. fst p = sl_key s) sds) (filter (\<lambda>s. sl_used s) us)))"
  shows "\<exists>rc t'. tab_merge_slots hash z alloc us t = Some (rc, t') \<and>
    (rc = PGWT_BAGG_OK \<and>
       tab_rep hash t' (kds @ concat (map (\<lambda>s. filter (\<lambda>p. fst p = sl_key s) sds) (filter (\<lambda>s. sl_used s) us))) \<or>
     rc = PGWT_BAGG_REFUSED_NOMEM \<and> (\<exists>n. \<not> alloc n))"
  using assms
proof (induction us arbitrary: t kds)
  case (Cons s us)
  show ?case
  proof (cases "sl_count s = 0")
    case True
    then show ?thesis using Cons.IH [of t kds] Cons.prems by simp
  next
    case False
    let ?es = "filter (\<lambda>p. fst p = sl_key s) sds"
    let ?more = "concat (map (\<lambda>s. filter (\<lambda>p. fst p = sl_key s) sds) (filter (\<lambda>s. sl_used s) us))"
    have es: "?es \<noteq> []" "sl_count s = of_nat (length ?es)" "sl_total_ns s = sum_list (map snd ?es)"
      using Cons.prems(1) False by (auto simp: key_durs_def)
    have fit: "kds_fit ((kds @ ?es) @ ?more)" using Cons.prems(3) False by simp
    obtain rc t' where a: "tab_add hash z alloc t (sl_key s) (sl_count s) (sl_total_ns s) = Some (rc, t')"
      "rc = PGWT_BAGG_OK \<and> tab_rep hash t' (kds @ ?es) \<or>
       rc = PGWT_BAGG_REFUSED_NOMEM \<and> t' = t \<and> (\<exists>n. \<not> alloc n)"
      using tab_add_spec [OF Cons.prems(2) es(1) _ kds_fit_prefix [OF fit], of "sl_key s" z alloc]
      unfolding es(2,3) by auto
    show ?thesis
    proof (cases "rc = PGWT_BAGG_OK")
      case True
      then have "tab_rep hash t' (kds @ ?es)" using a(2) by simp
      then show ?thesis using Cons.IH [of t' "kds @ ?es"] Cons.prems(1) fit a(1) True False by simp
    qed (use a False in auto)
  qed
qed simp

lemma tab_merge_spec:
  assumes rep: "tab_rep hash t kds" and src: "tab_rep hash u sds" and fits: "kds_fit (kds @ sds)"
  shows "\<exists>rc t'. tab_merge_slots hash z alloc (tb_slots u) t = Some (rc, t') \<and>
    (rc = PGWT_BAGG_OK \<and> tab_rep hash t' (kds @ sds) \<or> rc = PGWT_BAGG_REFUSED_NOMEM \<and> (\<exists>n. \<not> alloc n))"
proof -
  note r = tab_repD [OF src]
  let ?us = "filter (\<lambda>s. sl_used s) (tb_slots u)"
  let ?all = "concat (map (\<lambda>s. filter (\<lambda>p. fst p = sl_key s) sds) ?us)"
  have len: "length sds < 2 ^ 64" using fits by (simp add: kds_fit_def)
  have slot: "key_durs (sl_key s) sds \<noteq> []" "sl_count s = of_nat (length (key_durs (sl_key s) sds))"
    "sl_total_ns s = sum_list (key_durs (sl_key s) sds)" if s: "s \<in> set (tb_slots u)" "sl_used s" for s
  proof -
    obtain i where "i < length (tb_slots u)" "s = tb_slots u ! i" using s(1) by (auto simp: in_set_conv_nth)
    then have v: "(sl_count s, sl_total_ns s) = (of_nat (length (key_durs (sl_key s) sds)), sum_list (key_durs (sl_key s) sds))"
      using slots_val_at [OF r(1)] r(7) s(2) by metis
    then show "sl_count s = of_nat (length (key_durs (sl_key s) sds))" "sl_total_ns s = sum_list (key_durs (sl_key s) sds)"
      by simp_all
    then show "key_durs (sl_key s) sds \<noteq> []" using s(2) by auto
  qed
  have "k \<in> sl_key ` set ?us" if "k \<in> fst ` set sds" for k
  proof -
    have "key_durs k sds \<noteq> []" using that by (auto simp: key_durs_def filter_empty_conv)
    then have "fst (slots_val (tb_slots u) k) \<noteq> 0"
      using r(7) [of k] of_nat_u64_nz [of "length (key_durs k sds)"] length_key_durs_le [of k sds] len by simp
    then show ?thesis by (auto simp: slots_val_present)
  qed
  then have "mset ?all = mset sds"
    using mset_group_keys [OF slots_distinct_keys [OF r(1)], of sds] by (simp add: comp_def image_subset_iff subset_iff)
  then have m: "mset (kds @ ?all) = mset (kds @ sds)" by simp
  obtain rc t' where "tab_merge_slots hash z alloc (tb_slots u) t = Some (rc, t')"
    "rc = PGWT_BAGG_OK \<and> tab_rep hash t' (kds @ ?all) \<or> rc = PGWT_BAGG_REFUSED_NOMEM \<and> (\<exists>n. \<not> alloc n)"
    using tab_merge_slots_spec [of "tb_slots u" sds hash t kds z alloc] slot rep fits kds_fit_mset [OF m] by blast
  then show ?thesis using tab_rep_mset [OF m] by blast
qed

lemma tab_lookup_spec:
  assumes "tab_rep hash t kds"
  shows "tab_lookup hash t k =
    Some (if fst (slots_val (tb_slots t) k) = 0 then None else Some (slots_val (tb_slots t) k))"
proof (cases "tb_slots t = []")
  case True
  then show ?thesis by (simp add: tab_lookup_def slots_val_def)
next
  case False
  note r = tab_repD [OF assms]
  have "n_used (tb_slots t) + 1 < length (tb_slots t)" using r(2) r(4,5) [OF False] by simp
  then obtain h where "slot_of hash (tb_slots t) k = Some h"
    "slots_val (tb_slots t) k = (sl_count (tb_slots t ! h), sl_total_ns (tb_slots t ! h))"
    by (rule slot_of_spec [OF r(1), of k]) blast
  then show ?thesis using False by (simp add: tab_lookup_def Let_def)
qed

section \<open>An aggregate stands for a list of records\<close>

definition pair_kds :: "pgwt_trace_event list \<Rightarrow> ((u32 \<times> u32) \<times> u64) list" where
  "pair_kds evs =
     map (\<lambda>ev. ((old_event ev, new_event ev), duration_ns ev)) (filter pgwt_block_agg_record_counts evs)"

definition node_kds :: "pgwt_trace_event list \<Rightarrow> (u32 \<times> u64) list" where
  "node_kds evs = map (\<lambda>ev. (old_event ev, duration_ns ev)) (filter pgwt_block_agg_node_counts evs)"

definition bagg_rep :: "pgwt_block_agg \<Rightarrow> pgwt_trace_event list \<Rightarrow> bool" where
  "bagg_rep a evs \<longleftrightarrow>
     tab_rep pair_hash (ba_pairs a) (pair_kds evs) \<and> tab_rep node_hash (ba_nodes a) (node_kds evs)"

definition bagg_fits :: "pgwt_trace_event list \<Rightarrow> bool" where
  "bagg_fits evs \<longleftrightarrow> kds_fit (pair_kds evs) \<and> kds_fit (node_kds evs)"

definition bagg_env_ok :: "bagg_env \<Rightarrow> bool" where
  "bagg_env_ok env \<longleftrightarrow> (\<forall>n. be_pairs env n \<and> be_nodes env n \<and> be_keys env n)"

text \<open>The fields that no counting touches.\<close>

definition bagg_head :: "pgwt_block_agg \<Rightarrow>
    pgwt_bagg_mode \<times> u32 \<times> pgwt_block_identity \<times> bool \<times> pgwt_block_agg_key list \<times> nat" where
  "bagg_head a = (ba_mode a, ba_version a, ba_id a, ba_any_trace a, ba_keys a, ba_key_cap a)"

lemma kds_append [simp]:
  "pair_kds (xs @ ys) = pair_kds xs @ pair_kds ys" "node_kds (xs @ ys) = node_kds xs @ node_kds ys"
  by (simp_all add: pair_kds_def node_kds_def)

lemma kds_single:
  "pair_kds [ev] = (if pgwt_block_agg_record_counts ev then [((old_event ev, new_event ev), duration_ns ev)] else [])"
  "node_kds [ev] = (if pgwt_block_agg_node_counts ev then [(old_event ev, duration_ns ev)] else [])"
  by (simp_all add: pair_kds_def node_kds_def)

lemma bagg_fits_prefix: "bagg_fits (xs @ ys) \<Longrightarrow> bagg_fits xs"
  by (auto simp: bagg_fits_def dest: kds_fit_prefix)

lemma kds_mset: "mset xs = mset ys \<Longrightarrow> mset (pair_kds xs) = mset (pair_kds ys) \<and> mset (node_kds xs) = mset (node_kds ys)"
  by (simp add: pair_kds_def node_kds_def)

lemma bagg_fits_mset: "mset xs = mset ys \<Longrightarrow> bagg_fits xs \<longleftrightarrow> bagg_fits ys"
  using kds_mset kds_fit_mset unfolding bagg_fits_def by metis

lemma bagg_rep_mset: "mset xs = mset ys \<Longrightarrow> bagg_rep a xs \<longleftrightarrow> bagg_rep a ys"
  using kds_mset tab_rep_mset unfolding bagg_rep_def by metis

lemma bounds_widen_fields [simp]:
  "ba_pairs (bounds_widen a f l) = ba_pairs a" "ba_nodes (bounds_widen a f l) = ba_nodes a"
  "bagg_head (bounds_widen a f l) = bagg_head a" "ba_payload_hash (bounds_widen a f l) = ba_payload_hash a"
  by (simp_all add: bounds_widen_def bagg_head_def Let_def)

lemma bagg_rep_widen [simp]: "bagg_rep (bounds_widen a f l) evs = bagg_rep a evs"
  by (simp add: bagg_rep_def)

lemma bagg_rep_zero: "bagg_rep block_agg_zero []"
  by (simp add: bagg_rep_def block_agg_zero_def pair_kds_def node_kds_def tab_rep_zero)

lemma bagg_rep_init: "bagg_rep pgwt_block_agg_init_window []"
  using bagg_rep_zero by (simp add: bagg_rep_def pgwt_block_agg_init_window_def)

lemma pair_add_event:
  assumes "bagg_rep a xs" and "bagg_fits (xs @ [ev])"
  shows "\<exists>rc t. (if pgwt_block_agg_record_counts ev
         then pair_add env a (old_event ev, new_event ev) 1 (duration_ns ev) else Some (PGWT_BAGG_OK, a)) =
       Some (rc, a\<lparr>ba_pairs := t\<rparr>) \<and>
     (rc = PGWT_BAGG_OK \<and> tab_rep pair_hash t (pair_kds (xs @ [ev])) \<or>
      rc = PGWT_BAGG_REFUSED_NOMEM \<and> \<not> bagg_env_ok env)"
proof (cases "pgwt_block_agg_record_counts ev")
  case True
  let ?es = "[((old_event ev, new_event ev), duration_ns ev)]"
  have "tab_rep pair_hash (ba_pairs a) (pair_kds xs)" "kds_fit (pair_kds xs @ ?es)"
    using assms True by (simp_all add: bagg_rep_def bagg_fits_def kds_single)
  from tab_add_spec [OF this(1) _ _ this(2), of "(old_event ev, new_event ev)" "(0, 0)" "be_pairs env"]
  show ?thesis using True by (auto simp: pair_add_def kds_single bagg_env_ok_def)
next
  case False
  then show ?thesis
    using assms(1) by (intro exI [of _ PGWT_BAGG_OK] exI [of _ "ba_pairs a"]) (simp add: bagg_rep_def kds_single)
qed

lemma node_add_event:
  assumes "tab_rep node_hash (ba_nodes a) (node_kds xs)" and "bagg_fits (xs @ [ev])"
  shows "\<exists>rc t. (if pgwt_block_agg_node_counts ev
         then node_add env a (old_event ev) 1 (duration_ns ev) else Some (PGWT_BAGG_OK, a)) =
       Some (rc, a\<lparr>ba_nodes := t\<rparr>) \<and>
     (rc = PGWT_BAGG_OK \<and> tab_rep node_hash t (node_kds (xs @ [ev])) \<or>
      rc = PGWT_BAGG_REFUSED_NOMEM \<and> \<not> bagg_env_ok env)"
proof (cases "pgwt_block_agg_node_counts ev")
  case True
  let ?es = "[(old_event ev, duration_ns ev)]"
  have "kds_fit (node_kds xs @ ?es)" using assms True by (simp add: bagg_fits_def kds_single)
  from tab_add_spec [OF assms(1) _ _ this, of "old_event ev" 0 "be_nodes env"]
  show ?thesis using True by (auto simp: node_add_def kds_single bagg_env_ok_def)
next
  case False
  then show ?thesis
    using assms(1) by (intro exI [of _ PGWT_BAGG_OK] exI [of _ "ba_nodes a"]) (simp add: kds_single)
qed

lemma count_event_spec:
  assumes "bagg_rep a xs" and "bagg_fits (xs @ [ev])"
  shows "\<exists>rc a'. count_event env a ev = Some (rc, a') \<and> bagg_head a' = bagg_head a \<and>
    (rc = PGWT_BAGG_OK \<and> bagg_rep a' (xs @ [ev]) \<or> rc = PGWT_BAGG_REFUSED_NOMEM \<and> \<not> bagg_env_ok env)"
proof -
  obtain rc t where p: "(if pgwt_block_agg_record_counts ev
         then pair_add env a (old_event ev, new_event ev) 1 (duration_ns ev) else Some (PGWT_BAGG_OK, a)) =
       Some (rc, a\<lparr>ba_pairs := t\<rparr>)"
     "rc = PGWT_BAGG_OK \<and> tab_rep pair_hash t (pair_kds (xs @ [ev])) \<or>
      rc = PGWT_BAGG_REFUSED_NOMEM \<and> \<not> bagg_env_ok env"
    using pair_add_event [OF assms, of env] by blast
  let ?a = "a\<lparr>ba_pairs := t\<rparr>"
  show ?thesis
  proof (cases "rc = PGWT_BAGG_OK")
    case True
    have "tab_rep node_hash (ba_nodes ?a) (node_kds xs)" using assms(1) by (simp add: bagg_rep_def)
    from node_add_event [OF this assms(2), of env] obtain rc2 t2 where
      n: "(if pgwt_block_agg_node_counts ev
         then node_add env ?a (old_event ev) 1 (duration_ns ev) else Some (PGWT_BAGG_OK, ?a)) =
       Some (rc2, ?a\<lparr>ba_nodes := t2\<rparr>)"
      "rc2 = PGWT_BAGG_OK \<and> tab_rep node_hash t2 (node_kds (xs @ [ev])) \<or>
       rc2 = PGWT_BAGG_REFUSED_NOMEM \<and> \<not> bagg_env_ok env" by blast
    have "count_event env a ev = Some (rc2, ?a\<lparr>ba_nodes := t2\<rparr>)"
      unfolding count_event_def p(1) using True n(1) by simp
    then show ?thesis using n(2) p(2) True by (auto simp: bagg_head_def bagg_rep_def)
  next
    case False
    then show ?thesis unfolding count_event_def p(1) using p(2) by (simp add: bagg_head_def)
  qed
qed

lemma add_event_spec:
  assumes "bagg_rep a xs" and "bagg_fits (xs @ [ev])"
    and "ba_mode a = PGWT_BAGG_MODE_WINDOW" and "ba_version a = PGWT_BLOCK_AGG_VERSION"
  shows "\<exists>rc a'. pgwt_block_agg_add_event env a ev = Some (rc, a') \<and> bagg_head a' = bagg_head a \<and>
    (rc = PGWT_BAGG_OK \<and> bagg_rep a' (xs @ [ev]) \<or> rc = PGWT_BAGG_REFUSED_NOMEM \<and> \<not> bagg_env_ok env)"
  using count_event_spec [OF assms(1,2), of env] assms(3,4)
  by (auto simp: pgwt_block_agg_add_event_def split: if_splits)

text \<open>The records a window accumulates and the number it admits.\<close>

abbreviation win_recs :: "u64 \<Rightarrow> u64 \<Rightarrow> pgwt_trace_event list \<Rightarrow> pgwt_trace_event list" where
  "win_recs f t evs \<equiv> filter (\<lambda>ev. pgwt_block_agg_in_window ev f t) evs"

abbreviation win_admitted :: "u64 \<Rightarrow> u64 \<Rightarrow> pgwt_trace_event list \<Rightarrow> nat" where
  "win_admitted f t evs \<equiv> length (filter (\<lambda>ev. pgwt_block_agg_admitted ev f t) evs)"

lemma in_window_admitted: "pgwt_block_agg_in_window ev f t \<Longrightarrow> pgwt_block_agg_admitted ev f t"
  by (auto simp: pgwt_block_agg_in_window_def pgwt_block_agg_admitted_def intro: less_imp_le)

lemma bagg_headD:
  assumes "bagg_head a' = bagg_head a"
  shows "ba_mode a' = ba_mode a" "ba_version a' = ba_version a" "ba_id a' = ba_id a"
    "ba_any_trace a' = ba_any_trace a" "ba_keys a' = ba_keys a" "ba_key_cap a' = ba_key_cap a"
  using assms by (simp_all add: bagg_head_def)

lemma add_events_loop_spec:
  assumes "bagg_rep a xs" and "bagg_fits (xs @ win_recs f t evs)"
    and "ba_mode a = PGWT_BAGG_MODE_WINDOW" and "ba_version a = PGWT_BLOCK_AGG_VERSION"
  shows "\<exists>rc a' n'. add_events_loop env f t evs a n = Some (rc, a', n') \<and> bagg_head a' = bagg_head a \<and>
    (rc = PGWT_BAGG_OK \<and> bagg_rep a' (xs @ win_recs f t evs) \<and> n' = n + of_nat (win_admitted f t evs) \<or>
     rc = PGWT_BAGG_REFUSED_NOMEM \<and> \<not> bagg_env_ok env)"
  using assms
proof (induction evs arbitrary: a xs n)
  case (Cons ev evs)
  show ?case
  proof (cases "pgwt_block_agg_in_window ev f t")
    case False
    then show ?thesis
      using Cons.IH [of a xs "if pgwt_block_agg_admitted ev f t then n + 1 else n"] Cons.prems
      by (cases "pgwt_block_agg_admitted ev f t") (simp_all add: Let_def add.assoc)
  next
    case True
    then have fit: "bagg_fits ((xs @ [ev]) @ win_recs f t evs)" using Cons.prems(2) by simp
    obtain rc a' where a: "pgwt_block_agg_add_event env a ev = Some (rc, a')" "bagg_head a' = bagg_head a"
      "rc = PGWT_BAGG_OK \<and> bagg_rep a' (xs @ [ev]) \<or> rc = PGWT_BAGG_REFUSED_NOMEM \<and> \<not> bagg_env_ok env"
      using add_event_spec [OF Cons.prems(1) bagg_fits_prefix [OF fit] Cons.prems(3,4), of env] by blast
    show ?thesis
    proof (cases "rc = PGWT_BAGG_OK")
      case ok: True
      then have "bagg_rep a' (xs @ [ev])" using a(3) by simp
      from Cons.IH [OF this fit, of "n + 1"] bagg_headD [OF a(2)] Cons.prems(3,4)
      show ?thesis using a(1,2) ok True in_window_admitted [OF True] by (simp add: Let_def add.assoc)
    qed (use a True in_window_admitted [OF True] in \<open>simp add: Let_def\<close>)
  qed
qed simp

section \<open>Blocks\<close>

lemma bagg_build_loop_spec:
  assumes "bagg_rep a xs" and "bagg_fits (xs @ evs)"
  shows "\<exists>rc a'. bagg_build_loop env a evs = Some (rc, a') \<and>
    (rc = PGWT_BAGG_OK \<and> bagg_head a' = bagg_head a \<and> bagg_rep a' (xs @ evs) \<or>
     rc = PGWT_BAGG_REFUSED_NOMEM \<and> a' = block_agg_zero \<and> \<not> bagg_env_ok env)"
  using assms
proof (induction evs arbitrary: a xs)
  case (Cons ev evs)
  then have fit: "bagg_fits ((xs @ [ev]) @ evs)" by simp
  obtain rc a' where a: "count_event env a ev = Some (rc, a')" "bagg_head a' = bagg_head a"
    "rc = PGWT_BAGG_OK \<and> bagg_rep a' (xs @ [ev]) \<or> rc = PGWT_BAGG_REFUSED_NOMEM \<and> \<not> bagg_env_ok env"
    using count_event_spec [OF Cons.prems(1) bagg_fits_prefix [OF fit], of env] by blast
  show ?case
  proof (cases "rc = PGWT_BAGG_OK")
    case True
    then have "bagg_rep a' (xs @ [ev])" using a(3) by simp
    from Cons.IH [OF this fit] show ?thesis using a(1,2) True by simp
  qed (use a in \<open>simp add: pgwt_block_agg_free_def\<close>)
qed simp

text \<open>What a built aggregate is: the block's records under the block's identity.\<close>

definition bagg_block :: "pgwt_block_agg \<Rightarrow> pgwt_trace_event list \<Rightarrow> bool" where
  "bagg_block a evs \<longleftrightarrow>
     ba_mode a = PGWT_BAGG_MODE_BLOCK \<and> ba_version a = PGWT_BLOCK_AGG_VERSION \<and>
     pgwt_trace_identity_resolvable (bid_trace (ba_id a)) \<and> bagg_rep a evs \<and>
     ba_payload_hash a = payload_hash_of evs"

definition bagg_window :: "pgwt_block_agg \<Rightarrow> bool" where
  "bagg_window a \<longleftrightarrow> ba_mode a = PGWT_BAGG_MODE_WINDOW \<and> ba_version a = PGWT_BLOCK_AGG_VERSION \<and>
     ba_any_trace a \<and> length (ba_keys a) \<le> ba_key_cap a"

lemma bagg_window_init: "bagg_window pgwt_block_agg_init_window"
  by (simp add: bagg_window_def pgwt_block_agg_init_window_def block_agg_zero_def)

lemma build_spec:
  assumes "bagg_fits evs"
  shows "\<exists>rc a. pgwt_block_agg_build env i bt committed evs = Some (rc, a) \<and>
    (if rc = PGWT_BAGG_OK then bagg_block a evs \<and> ba_id a = i \<and> bt = 0 \<and> committed else a = block_agg_zero) \<and>
    (rc = PGWT_BAGG_REFUSED_NOMEM \<longrightarrow> \<not> bagg_env_ok env)"
proof (cases "bt = 0 \<and> committed \<and> pgwt_trace_identity_resolvable (bid_trace i) \<and>
    \<not> bid_last_timestamp_ns i < bid_first_timestamp_ns i")
  case False
  then show ?thesis by (auto simp: pgwt_block_agg_build_def)
next
  case True
  define out where "out = bounds_widen (block_agg_zero\<lparr>ba_version := PGWT_BLOCK_AGG_VERSION,
    ba_mode := PGWT_BAGG_MODE_BLOCK, ba_id := i, ba_any_trace := False\<rparr>)
    (bid_first_timestamp_ns i) (bid_last_timestamp_ns i)"
  have rep: "bagg_rep out []" using bagg_rep_zero by (simp add: out_def) (simp add: bagg_rep_def)
  have head: "bagg_head out = (PGWT_BAGG_MODE_BLOCK, PGWT_BLOCK_AGG_VERSION, i, False, [], 0)"
    by (simp add: out_def) (simp add: bagg_head_def block_agg_zero_def)
  obtain rc a where l: "bagg_build_loop env out evs = Some (rc, a)"
    "rc = PGWT_BAGG_OK \<and> bagg_head a = bagg_head out \<and> bagg_rep a ([] @ evs) \<or>
     rc = PGWT_BAGG_REFUSED_NOMEM \<and> a = block_agg_zero \<and> \<not> bagg_env_ok env"
    using bagg_build_loop_spec [OF rep, of evs env] assms by auto
  have "pgwt_block_agg_build env i bt committed evs =
      Some (if rc \<noteq> PGWT_BAGG_OK then (rc, a) else (PGWT_BAGG_OK, a\<lparr>ba_payload_hash := payload_hash_of evs\<rparr>))"
    using True l(1) unfolding pgwt_block_agg_build_def out_def [symmetric] Let_def by simp
  then show ?thesis
    using l(2) True head by (auto simp: bagg_block_def bagg_rep_def bagg_head_def)
qed

lemma merge_tables_spec:
  assumes "bagg_rep a xs" and "bagg_rep src evs" and "bagg_fits (xs @ evs)"
  shows "\<exists>rc a'. merge_tables env a src = Some (rc, a') \<and> bagg_head a' = bagg_head a \<and>
    (rc = PGWT_BAGG_OK \<and> bagg_rep a' (xs @ evs) \<or> rc = PGWT_BAGG_REFUSED_NOMEM \<and> \<not> bagg_env_ok env)"
proof -
  have fp: "kds_fit (pair_kds xs @ pair_kds evs)" and fn: "kds_fit (node_kds xs @ node_kds evs)"
    using assms(3) by (simp_all add: bagg_fits_def)
  have pa: "tab_rep pair_hash (ba_pairs a) (pair_kds xs)" and na: "tab_rep node_hash (ba_nodes a) (node_kds xs)"
    and ps: "tab_rep pair_hash (ba_pairs src) (pair_kds evs)" and ns: "tab_rep node_hash (ba_nodes src) (node_kds evs)"
    using assms(1,2) by (simp_all add: bagg_rep_def)
  obtain rc t where p:
    "tab_merge_slots pair_hash (0, 0) (be_pairs env) (tb_slots (ba_pairs src)) (ba_pairs a) = Some (rc, t)"
    "rc = PGWT_BAGG_OK \<and> tab_rep pair_hash t (pair_kds xs @ pair_kds evs) \<or>
     rc = PGWT_BAGG_REFUSED_NOMEM \<and> (\<exists>n. \<not> be_pairs env n)"
    using tab_merge_spec [OF pa ps fp, of "(0, 0)" "be_pairs env"] by blast
  obtain rc2 t2 where n:
    "tab_merge_slots node_hash 0 (be_nodes env) (tb_slots (ba_nodes src)) (ba_nodes a) = Some (rc2, t2)"
    "rc2 = PGWT_BAGG_OK \<and> tab_rep node_hash t2 (node_kds xs @ node_kds evs) \<or>
     rc2 = PGWT_BAGG_REFUSED_NOMEM \<and> (\<exists>n. \<not> be_nodes env n)"
    using tab_merge_spec [OF na ns fn, of 0 "be_nodes env"] by blast
  let ?a = "a\<lparr>ba_pairs := t, ba_nodes := t2\<rparr>"
  have head: "bagg_head ?a = bagg_head a" by (simp add: bagg_head_def)
  show ?thesis
    unfolding merge_tables_def using p n head
    by (auto simp: bagg_env_ok_def Let_def) (auto simp: bagg_rep_def bagg_head_def)
qed

lemma key_add_cases:
  assumes "key_add env a k = Some (rc, a')"
  shows "rc = PGWT_BAGG_REFUSED_DUPLICATE \<and> a' = a \<and> k \<in> set (ba_keys a) \<or>
    rc = PGWT_BAGG_REFUSED_NOMEM \<and> a' = a \<and> \<not> bagg_env_ok env \<or>
    rc = PGWT_BAGG_OK \<and> k \<notin> set (ba_keys a) \<and>
      (\<exists>c. a' = a\<lparr>ba_key_cap := c, ba_keys := ba_keys a @ [k]\<rparr> \<and>
        (length (ba_keys a) \<le> ba_key_cap a \<longrightarrow> length (ba_keys a) + 1 \<le> c))"
proof -
  have eq: "key_equal x k \<longleftrightarrow> x = k" for x by (cases x; cases k) (auto simp: key_equal_def)
  then have ex: "list_ex (\<lambda>x. key_equal x k) (ba_keys a) \<longleftrightarrow> k \<in> set (ba_keys a)" by (auto simp: list_ex_iff)
  have keep: "a\<lparr>ba_keys := ks\<rparr> = a\<lparr>ba_key_cap := ba_key_cap a, ba_keys := ks\<rparr>" for ks by simp
  consider "k \<in> set (ba_keys a)" | "k \<notin> set (ba_keys a)" "length (ba_keys a) = ba_key_cap a"
    | "k \<notin> set (ba_keys a)" "length (ba_keys a) \<noteq> ba_key_cap a" by blast
  then show ?thesis
  proof cases
    case 3
    then have "rc = PGWT_BAGG_OK" "a' = a\<lparr>ba_key_cap := ba_key_cap a, ba_keys := ba_keys a @ [k]\<rparr>"
      using assms by (simp_all add: key_add_def ex keep [symmetric])
    then show ?thesis using 3 by (intro disjI2 conjI exI [of _ "ba_key_cap a"]) auto
  qed (use assms in \<open>auto simp: key_add_def ex Let_def bagg_env_ok_def split: if_splits\<close>)
qed

lemma key_add_returns:
  assumes "length (ba_keys a) < 2 ^ 30"
  shows "\<exists>rc a'. key_add env a k = Some (rc, a')"
  using assms by (auto simp: key_add_def Let_def oa_INT_MAX_def)

lemma merge_spec:
  assumes win: "bagg_window a" "bagg_rep a xs" and blk: "bagg_block src evs" and fits: "bagg_fits (xs @ evs)"
    and few: "length (ba_keys a) < 2 ^ 30" and fresh: "key_of (ba_id src) \<notin> set (ba_keys a)"
  shows "\<exists>rc a'. pgwt_block_agg_merge env a src = Some (rc, a') \<and>
    (rc = PGWT_BAGG_OK \<and> bagg_window a' \<and> bagg_rep a' (xs @ evs) \<and>
       ba_keys a' = ba_keys a @ [key_of (ba_id src)] \<or>
     rc = PGWT_BAGG_REFUSED_NOMEM \<and> \<not> bagg_env_ok env)"
proof -
  let ?k = "key_of (ba_id src)"
  have guards: "ba_mode a = PGWT_BAGG_MODE_WINDOW" "ba_mode src = PGWT_BAGG_MODE_BLOCK"
    "ba_version a = PGWT_BLOCK_AGG_VERSION" "ba_version src = PGWT_BLOCK_AGG_VERSION" "ba_any_trace a"
    "pgwt_trace_identity_resolvable (bid_trace (ba_id src))"
    using win(1) blk by (simp_all add: bagg_window_def bagg_block_def)
  obtain rc a1 where ka: "key_add env a ?k = Some (rc, a1)" using key_add_returns [OF few] by blast
  have run: "pgwt_block_agg_merge env a src =
      (if rc \<noteq> PGWT_BAGG_OK then Some (rc, a1) else merge_tables env a1 src)"
    using guards ka by (simp add: pgwt_block_agg_merge_def)
  show ?thesis
  proof (cases "rc = PGWT_BAGG_OK")
    case False
    then show ?thesis using run key_add_cases [OF ka] fresh by auto
  next
    case True
    then obtain c where a1: "a1 = a\<lparr>ba_key_cap := c, ba_keys := ba_keys a @ [?k]\<rparr>"
      "length (ba_keys a) \<le> ba_key_cap a \<longrightarrow> length (ba_keys a) + 1 \<le> c"
      using key_add_cases [OF ka] by auto
    have rep: "bagg_rep a1 xs" using win(2) by (simp add: a1(1) bagg_rep_def)
    have src: "bagg_rep src evs" using blk by (simp add: bagg_block_def)
    obtain rc2 a2 where m: "merge_tables env a1 src = Some (rc2, a2)" "bagg_head a2 = bagg_head a1"
      "rc2 = PGWT_BAGG_OK \<and> bagg_rep a2 (xs @ evs) \<or> rc2 = PGWT_BAGG_REFUSED_NOMEM \<and> \<not> bagg_env_ok env"
      using merge_tables_spec [OF rep src fits, of env] by blast
    have "bagg_window a2" "ba_keys a2 = ba_keys a @ [?k]"
      using bagg_headD [OF m(2)] win(1) a1 by (simp_all add: bagg_window_def)
    then show ?thesis using run True m(1,3) by auto
  qed
qed

section \<open>Properties\<close>

lemma tab_add_status: "tab_add hash z alloc t k c d = Some (rc, t') \<Longrightarrow> rc = PGWT_BAGG_OK \<or> rc = PGWT_BAGG_REFUSED_NOMEM"
  by (auto simp: tab_add_def tab_grow_def Let_def split: if_splits option.splits)

lemma tab_merge_slots_status:
  "tab_merge_slots hash z alloc us t = Some (rc, t') \<Longrightarrow> rc = PGWT_BAGG_OK \<or> rc = PGWT_BAGG_REFUSED_NOMEM"
  by (induction us arbitrary: t) (auto split: if_splits option.splits dest: tab_add_status)

lemma merge_tables_frame:
  assumes "merge_tables env a src = Some (rc, a')"
  shows "bagg_head a' = bagg_head a" and "rc = PGWT_BAGG_OK \<or> rc = PGWT_BAGG_REFUSED_NOMEM"
proof -
  have head: "bagg_head (a\<lparr>ba_pairs := t\<rparr>) = bagg_head a" "bagg_head (a\<lparr>ba_pairs := t, ba_nodes := u\<rparr>) = bagg_head a" for t u
    by (simp_all add: bagg_head_def)
  show "bagg_head a' = bagg_head a" "rc = PGWT_BAGG_OK \<or> rc = PGWT_BAGG_REFUSED_NOMEM"
    using assms by (auto simp: merge_tables_def Let_def head split: if_splits option.splits
        dest!: tab_merge_slots_status)
qed



end
