(* ===== verification/Block_Window.thy ===== *)
theory Block_Window
  imports Block_Agg
begin

text \<open>
  One trace file's contribution to a window (pgwt_block_agg_window_from_reader of src/src/block_agg.c)
  and the cache of block aggregates the query server keeps behind it (the bagg_ functions of
  src/src/server.c). The reader is its header fields, its block index and what reading the file at an
  offset gives. The three hooks work on a context of the caller's; the decompressor and the answers of
  the allocator are parameters. \<open>None\<close> is again a call without a defined result. The locale states what
  the window builder relies on: a lookup gives only aggregates that describe the block asked for, under
  an invariant every hook keeps. The lemmas show that the window then holds exactly the selected
  records, whatever the cache holds, and that the server's cache provides the interface.
\<close>

section \<open>The reader\<close>

definition PGWT_BLOCK_EVENTS :: nat where [pgwt_const]: "PGWT_BLOCK_EVENTS = 4096"

record pgwt_block_info =
  nfo_block_type :: u16
  nfo_sample_period_ns :: u64
  nfo_first_timestamp_ns :: u64
  nfo_last_timestamp_ns :: u64
  nfo_num_events :: u32

text \<open>Reading a header or a payload at an offset may come short, which is \<open>None\<close>.\<close>

record pgwt_event_reader =
  rd_open :: bool
  rd_version :: u32
  rd_pg_version :: u32
  rd_start_time_ns :: u64
  rd_clock_offset_ns :: u64
  rd_block_index :: "u64 list"
  rd_header_at :: "u64 \<Rightarrow> pgwt_trace_block_header option"
  rd_payload_at :: "u64 \<Rightarrow> u8 list option"

abbreviation rd_num_blocks :: "pgwt_event_reader \<Rightarrow> nat" where
  "rd_num_blocks r \<equiv> length (rd_block_index r)"

definition info_of_header :: "pgwt_trace_block_header \<Rightarrow> pgwt_block_info" where
  "info_of_header bh = \<lparr>nfo_block_type = block_type bh, nfo_sample_period_ns = sample_period_ns bh,
     nfo_first_timestamp_ns = first_timestamp_ns bh, nfo_last_timestamp_ns = last_timestamp_ns bh,
     nfo_num_events = num_events bh\<rparr>"

definition pgwt_reader_block_info :: "pgwt_event_reader \<Rightarrow> nat \<Rightarrow> pgwt_block_info option" where
  "pgwt_reader_block_info r b =
     (if b \<ge> rd_num_blocks r \<or> \<not> rd_open r then None
      else map_option info_of_header (rd_header_at r (rd_block_index r ! b)))"

text \<open>The decoder with its range check and the caller's information record, filled once the header is read.\<close>

definition reader_decode ::
  "(u8 list \<Rightarrow> u8 list option) \<Rightarrow> bool \<Rightarrow> pgwt_event_reader \<Rightarrow> nat \<Rightarrow> int \<Rightarrow> pgwt_block_info
     \<Rightarrow> int \<times> pgwt_trace_event list \<times> pgwt_block_info" where
  "reader_decode lz4 mem_ok r b max_events bi =
     (if b \<ge> rd_num_blocks r \<or> \<not> rd_open r then (-1, [], bi)
      else let off = rd_block_index r ! b in
        case rd_header_at r off of
          None \<Rightarrow> (-1, [], bi)
        | Some bh \<Rightarrow>
            let (n, evs) = pgwt_reader_decode_block_info lz4 mem_ok (unat (rd_version r)) (Some bh)
                             (rd_payload_at r off) max_events
            in (n, evs, info_of_header bh))"

definition pgwt_trace_identity_of_reader :: "pgwt_event_reader \<Rightarrow> pgwt_trace_identity" where
  "pgwt_trace_identity_of_reader r = \<lparr>ti_trace_version = rd_version r, ti_pg_version = rd_pg_version r,
     ti_start_time_ns = rd_start_time_ns r, ti_clock_offset_ns = rd_clock_offset_ns r\<rparr>"

section \<open>The window of one file\<close>

text \<open>
  The three hooks, each of which may be absent, and the answers of the allocator: for the accumulator and
  for the fresh aggregate of each block, for the decode buffer, and for the reader's buffers.
\<close>

record 'c win_env =
  hk_lookup :: "('c \<Rightarrow> pgwt_block_identity \<Rightarrow> (pgwt_block_agg option \<times> 'c) option) option"
  hk_store :: "('c \<Rightarrow> pgwt_block_agg \<Rightarrow> 'c option) option"
  hk_decode :: "('c \<Rightarrow> pgwt_event_reader \<Rightarrow> nat \<Rightarrow> pgwt_block_info
       \<Rightarrow> int \<times> pgwt_trace_event list option \<times> pgwt_block_info \<times> 'c) option"
  we_acc :: "nat \<Rightarrow> bagg_env"
  we_build :: "nat \<Rightarrow> bagg_env"
  we_buf :: bool
  we_mem :: "nat \<Rightarrow> bool"
  we_lz4 :: "u8 list \<Rightarrow> u8 list option"

record 'c win_state =
  ws_ctx :: 'c
  ws_acc :: pgwt_block_agg
  ws_exact :: u64
  ws_merged :: int
  ws_decoded :: int

datatype 'c win_step = Next "'c win_state" | Break pgwt_bagg_status "'c win_state"

definition window_block_id :: "pgwt_event_reader \<Rightarrow> nat \<Rightarrow> pgwt_block_info \<Rightarrow> pgwt_block_identity" where
  "window_block_id r b bi = \<lparr>bid_trace = pgwt_trace_identity_of_reader r, bid_block_index = of_nat b,
     bid_num_events = nfo_num_events bi, bid_file_offset = rd_block_index r ! b,
     bid_first_timestamp_ns = nfo_first_timestamp_ns bi, bid_last_timestamp_ns = nfo_last_timestamp_ns bi\<rparr>"

text \<open>The records of one block: through the hook, or into the buffer of the call.\<close>

definition window_decode ::
  "'c win_env \<Rightarrow> pgwt_event_reader \<Rightarrow> nat \<Rightarrow> pgwt_block_info \<Rightarrow> 'c
     \<Rightarrow> pgwt_bagg_status + (int \<times> pgwt_trace_event list option \<times> pgwt_block_info \<times> 'c)" where
  "window_decode E r b bi c =
     (case hk_decode E of
        Some dec \<Rightarrow> Inr (dec c r b bi)
      | None \<Rightarrow>
          if \<not> we_buf E then Inl PGWT_BAGG_REFUSED_NOMEM
          else let (n, evs, bi) = reader_decode (we_lz4 E) (we_mem E b) r b (int PGWT_BLOCK_EVENTS) bi
               in Inr (n, Some evs, bi, c))"

definition window_store ::
  "'c win_env \<Rightarrow> pgwt_block_identity \<Rightarrow> pgwt_block_info \<Rightarrow> nat \<Rightarrow> pgwt_trace_event list \<Rightarrow> 'c \<Rightarrow> 'c option" where
  "window_store E i bi b evs c =
     (case hk_store E of
        None \<Rightarrow> Some c
      | Some put \<Rightarrow>
          (case pgwt_block_agg_build (we_build E b) i (nfo_block_type bi) True evs of
             None \<Rightarrow> None
           | Some (rc, fresh) \<Rightarrow> if rc = PGWT_BAGG_OK then put c fresh else Some c))"

definition window_merge_block ::
  "'c win_env \<Rightarrow> pgwt_block_identity \<Rightarrow> nat \<Rightarrow> pgwt_block_agg \<Rightarrow> 'c win_state \<Rightarrow> 'c win_step option" where
  "window_merge_block E i b cached st =
     (case pgwt_block_agg_merge (we_acc E b) (ws_acc st) cached of
        None \<Rightarrow> None
      | Some (rc, acc) \<Rightarrow>
          let st = st\<lparr>ws_acc := acc\<rparr>
          in Some (if rc \<noteq> PGWT_BAGG_OK then Break rc st
                   else Next (st\<lparr>ws_merged := ws_merged st + 1,
                                 ws_exact := ws_exact st + ucast (bid_num_events i)\<rparr>)))"

definition window_decode_block ::
  "'c win_env \<Rightarrow> pgwt_event_reader \<Rightarrow> u64 \<Rightarrow> u64 \<Rightarrow> pgwt_block_identity \<Rightarrow> nat \<Rightarrow> pgwt_block_info
     \<Rightarrow> 'c win_state \<Rightarrow> 'c win_step option" where
  "window_decode_block E r from_mono_ns to_mono_ns i b bi st =
     (case window_decode E r b bi (ws_ctx st) of
        Inl rc \<Rightarrow> Some (Break rc st)
      | Inr (n, recs, bi, c) \<Rightarrow>
          let st = st\<lparr>ws_ctx := c\<rparr>
          in case recs of
              None \<Rightarrow> Some (Break PGWT_BAGG_REFUSED_INVALID st)
            | Some evs \<Rightarrow>
                if n < 0 then Some (Break PGWT_BAGG_REFUSED_INVALID st)
                else let evs = take (nat n) evs in
                  case pgwt_block_agg_add_events (we_acc E b) (ws_acc st) evs from_mono_ns to_mono_ns of
                    None \<Rightarrow> None
                  | Some (rc, acc, adm) \<Rightarrow>
                      let st = st\<lparr>ws_acc := acc\<rparr>
                      in if rc \<noteq> PGWT_BAGG_OK then Some (Break rc st)
                         else let st = st\<lparr>ws_decoded := ws_decoded st + 1, ws_exact := ws_exact st + adm\<rparr>
                              in map_option (\<lambda>c. Next (st\<lparr>ws_ctx := c\<rparr>))
                                   (window_store E i bi b evs (ws_ctx st)))"

text \<open>One turn of the loop. A merge is only planned when there is an aggregate.\<close>

definition window_block ::
  "'c win_env \<Rightarrow> pgwt_event_reader \<Rightarrow> u64 \<Rightarrow> u64 \<Rightarrow> nat \<Rightarrow> 'c win_state \<Rightarrow> 'c win_step option" where
  "window_block E r from_mono_ns to_mono_ns b st =
     (case pgwt_reader_block_info r b of
        None \<Rightarrow> Some (Break PGWT_BAGG_REFUSED_INVALID st)
      | Some bi \<Rightarrow>
          let overlaps = pgwt_block_agg_file_can_contribute (nfo_first_timestamp_ns bi)
                           (nfo_last_timestamp_ns bi) from_mono_ns to_mono_ns
          in if nfo_block_type bi \<noteq> 0
             then Some (if overlaps then Break PGWT_BAGG_REFUSED_BLOCK_TYPE st else Next st)
             else let i = window_block_id r b bi in
               case (case hk_lookup E of None \<Rightarrow> Some (None, ws_ctx st) | Some lk \<Rightarrow> lk (ws_ctx st) i) of
                 None \<Rightarrow> None
               | Some (cached, c) \<Rightarrow>
                   let st = st\<lparr>ws_ctx := c\<rparr>
                   in case (pgwt_block_agg_plan i (cached \<noteq> None) from_mono_ns to_mono_ns, cached) of
                       (PGWT_BLOCK_SKIP, _) \<Rightarrow> Some (Next st)
                     | (PGWT_BLOCK_MERGE, Some agg) \<Rightarrow> window_merge_block E i b agg st
                     | _ \<Rightarrow> window_decode_block E r from_mono_ns to_mono_ns i b bi st)"

fun window_loop ::
  "'c win_env \<Rightarrow> pgwt_event_reader \<Rightarrow> u64 \<Rightarrow> u64 \<Rightarrow> nat list \<Rightarrow> 'c win_state
     \<Rightarrow> (pgwt_bagg_status \<times> 'c win_state) option" where
  "window_loop E r from_mono_ns to_mono_ns [] st = Some (PGWT_BAGG_OK, st)"
| "window_loop E r from_mono_ns to_mono_ns (b # bs) st =
     (case window_block E r from_mono_ns to_mono_ns b st of
        None \<Rightarrow> None
      | Some (Break rc st) \<Rightarrow> Some (rc, st)
      | Some (Next st) \<Rightarrow> window_loop E r from_mono_ns to_mono_ns bs st)"

definition pgwt_block_agg_window_from_reader ::
  "'c win_env \<Rightarrow> pgwt_event_reader \<Rightarrow> u64 \<Rightarrow> u64 \<Rightarrow> 'c win_state \<Rightarrow> (pgwt_bagg_status \<times> 'c win_state) option" where
  "pgwt_block_agg_window_from_reader E r from_mono_ns to_mono_ns st =
     (if ba_mode (ws_acc st) \<noteq> PGWT_BAGG_MODE_WINDOW then Some (PGWT_BAGG_REFUSED_MODE, st)
      else if to_mono_ns \<le> from_mono_ns then Some (PGWT_BAGG_REFUSED_INVALID, st)
      else if \<not> pgwt_trace_identity_resolvable (pgwt_trace_identity_of_reader r)
      then Some (PGWT_BAGG_REFUSED_IDENTITY, st)
      else window_loop E r from_mono_ns to_mono_ns [0..<rd_num_blocks r] st)"

section \<open>The server's cache of aggregates\<close>

definition BAGG_CACHE_MAX_ENTRIES :: nat where [pgwt_const]: "BAGG_CACHE_MAX_ENTRIES = 4096"
definition BAGG_CACHE_MAX_BYTES :: u64 where [pgwt_const]: "BAGG_CACHE_MAX_BYTES = 64 * 1024 * 1024"

record bagg_entry =
  en_used :: bool
  en_agg :: pgwt_block_agg

record bagg_srv =
  bagg_tab :: "bagg_entry list"
  bagg_count :: int
  bagg_bytes :: u64
  bagg_hits :: u64
  bagg_misses :: u64
  bagg_evictions :: u64

text \<open>The sizes of the three element types on the 64-bit targets: 24, 24 and 32 bytes.\<close>

definition bagg_entry_bytes :: "pgwt_block_agg \<Rightarrow> u64" where
  "bagg_entry_bytes a = of_nat (length (tb_slots (ba_pairs a))) * 24 +
     of_nat (length (tb_slots (ba_nodes a))) * 24 + of_nat (ba_key_cap a) * 32"

definition bagg_key_hash :: "u64 \<Rightarrow> u32 \<Rightarrow> u32" where
  "bagg_key_hash start_time_ns bidx =
     (let h = start_time_ns XOR push_bit 32 (ucast bidx) XOR ucast bidx;
          h = (h XOR drop_bit 33 h) * 0xff51afd7ed558ccd;
          h = (h XOR drop_bit 33 h) * 0xc4ceb9fe1a85ec53;
          h = h XOR drop_bit 33 h
      in ucast h)"

definition entry_key :: "pgwt_block_identity \<Rightarrow> u32 \<times> u64 \<times> u64" where
  "entry_key i = (bid_block_index i, ti_start_time_ns (bid_trace i), ti_clock_offset_ns (bid_trace i))"

definition entries_view :: "bagg_entry list \<Rightarrow> (u32 \<times> u64 \<times> u64) oa_index" where
  "entries_view es = \<lparr>ix_keys = map (\<lambda>e. entry_key (ba_id (en_agg e))) es, ix_vals = replicate (length es) 0,
     ix_used = map en_used es, ix_cap = length es, ix_n = length (filter en_used es)\<rparr>"

definition bagg_slot :: "bagg_entry list \<Rightarrow> pgwt_block_identity \<Rightarrow> nat option" where
  "bagg_slot tab i =
     map_option unat (oa_probe (entries_view tab) (entry_key i)
       (bagg_key_hash (ti_start_time_ns (bid_trace i)) (bid_block_index i) AND oa_mask (entries_view tab)))"

definition entry_zero :: bagg_entry where
  "entry_zero = \<lparr>en_used = False, en_agg = block_agg_zero\<rparr>"

fun bagg_rehash :: "bagg_entry list \<Rightarrow> bagg_entry list \<Rightarrow> bagg_entry list option" where
  "bagg_rehash [] nt = Some nt"
| "bagg_rehash (e # es) nt =
     (if \<not> en_used e then bagg_rehash es nt
      else case bagg_slot nt (ba_id (en_agg e)) of
          None \<Rightarrow> None
        | Some h \<Rightarrow> bagg_rehash es (nt[h := e]))"

text \<open>\<open>alloc\<close> answers the allocation of a table of the given capacity; the flag is success.\<close>

definition bagg_cache_grow :: "(nat \<Rightarrow> bool) \<Rightarrow> bagg_srv \<Rightarrow> (bool \<times> bagg_srv) option" where
  "bagg_cache_grow alloc srv =
     (let cap = length (bagg_tab srv); ncap = (if cap \<noteq> 0 then cap * 2 else 256)
      in if ncap \<le> cap \<or> ncap > BAGG_CACHE_MAX_ENTRIES * 2 then Some (False, srv)
         else if \<not> alloc ncap then Some (False, srv)
         else map_option (\<lambda>nt. (True, srv\<lparr>bagg_tab := nt\<rparr>))
                (bagg_rehash (bagg_tab srv) (replicate ncap entry_zero)))"

definition bagg_cache_insert :: "bagg_srv \<Rightarrow> pgwt_block_agg \<Rightarrow> bagg_srv option" where
  "bagg_cache_insert srv agg =
     (case bagg_slot (bagg_tab srv) (ba_id agg) of
        None \<Rightarrow> None
      | Some h \<Rightarrow>
          let e = bagg_tab srv ! h;
              srv = (if en_used e
                     then srv\<lparr>bagg_bytes := bagg_bytes srv - bagg_entry_bytes (en_agg e),
                              bagg_count := bagg_count srv - 1\<rparr>
                     else srv)
          in Some (srv\<lparr>bagg_tab := (bagg_tab srv)[h := \<lparr>en_used = True, en_agg = agg\<rparr>],
                       bagg_count := bagg_count srv + 1,
                       bagg_bytes := bagg_bytes srv + bagg_entry_bytes agg\<rparr>))"

definition bagg_cache_put :: "(nat \<Rightarrow> bool) \<Rightarrow> bagg_srv \<Rightarrow> pgwt_block_agg \<Rightarrow> bagg_srv option" where
  "bagg_cache_put alloc srv agg =
     (if bagg_count srv \<ge> int BAGG_CACHE_MAX_ENTRIES \<or>
         bagg_bytes srv + bagg_entry_bytes agg > BAGG_CACHE_MAX_BYTES
      then Some (srv\<lparr>bagg_evictions := bagg_evictions srv + 1\<rparr>)
      else if bagg_tab srv = [] \<or> (bagg_count srv + 1) * 10 \<ge> int (length (bagg_tab srv)) * 7 then
        (case bagg_cache_grow alloc srv of
           None \<Rightarrow> None
         | Some (grown, srv) \<Rightarrow>
             if \<not> grown then Some (srv\<lparr>bagg_evictions := bagg_evictions srv + 1\<rparr>)
             else bagg_cache_insert srv agg)
      else bagg_cache_insert srv agg)"

definition bagg_cache_get ::
  "bagg_srv \<Rightarrow> pgwt_block_identity \<Rightarrow> (pgwt_block_agg option \<times> bagg_srv) option" where
  "bagg_cache_get srv i =
     (if bagg_tab srv = [] then Some (None, srv)
      else case bagg_slot (bagg_tab srv) i of
          None \<Rightarrow> None
        | Some h \<Rightarrow>
            let e = bagg_tab srv ! h
            in if \<not> en_used e then Some (None, srv)
               else if \<not> pgwt_block_agg_matches (en_agg e) i
               then Some (None, srv\<lparr>bagg_bytes := bagg_bytes srv - bagg_entry_bytes (en_agg e),
                      bagg_tab := (bagg_tab srv)[h := \<lparr>en_used = False,
                        en_agg = pgwt_block_agg_free (en_agg e)\<rparr>],
                      bagg_count := bagg_count srv - 1, bagg_misses := bagg_misses srv + 1\<rparr>)
               else Some (Some (en_agg e), srv\<lparr>bagg_hits := bagg_hits srv + 1\<rparr>))"

definition bagg_cache_store :: "(nat \<Rightarrow> bool) \<Rightarrow> bagg_srv \<Rightarrow> pgwt_block_agg \<Rightarrow> bagg_srv option" where
  "bagg_cache_store alloc srv agg = bagg_cache_put alloc srv agg"

definition bagg_cache_drop :: "bagg_srv \<Rightarrow> bagg_srv" where
  "bagg_cache_drop srv = srv\<lparr>bagg_tab := [], bagg_count := 0, bagg_bytes := 0\<rparr>"

section \<open>What the window builder relies on\<close>

lemma matches_id: "pgwt_block_agg_matches a i \<Longrightarrow> ba_id a = i"
  by (cases "ba_id a"; cases i; cases "bid_trace i"; cases "bid_trace (ba_id a)")
    (auto simp: pgwt_block_agg_matches_def trace_identity_equal_def split: if_splits)

text \<open>
  The contract of a cache of block aggregates, with \<open>content\<close> the records of the block of an identity: a
  committed block is immutable, so an identity has one content.
\<close>

locale bagg_cache =
  fixes cinv :: "'c \<Rightarrow> bool"
    and lookup :: "'c \<Rightarrow> pgwt_block_identity \<Rightarrow> (pgwt_block_agg option \<times> 'c) option"
    and store :: "'c \<Rightarrow> pgwt_block_agg \<Rightarrow> 'c option"
    and content :: "pgwt_block_identity \<Rightarrow> pgwt_trace_event list"
  assumes lookup_ok: "cinv c \<Longrightarrow> \<exists>res c'. lookup c i = Some (res, c') \<and> cinv c' \<and>
      (\<forall>a. res = Some a \<longrightarrow> bagg_block a (content i) \<and> pgwt_block_agg_matches a i)"
    and store_ok: "cinv c \<Longrightarrow> bagg_block a (content (ba_id a)) \<Longrightarrow> \<exists>c'. store c a = Some c' \<and> cinv c'"

text \<open>Every allocation succeeds.\<close>

definition win_env_ok :: "'c win_env \<Rightarrow> bool" where
  "win_env_ok E \<longleftrightarrow> (\<forall>b. bagg_env_ok (we_acc E b)) \<and> we_buf E"

text \<open>
  What the file holds: \<open>recs b\<close> are the records of block \<open>b\<close>, which the decoder gives back; the header
  bounds and the header count describe them. A block of samples does not meet the window.
\<close>

definition block_sound ::
  "('c \<Rightarrow> bool) \<Rightarrow> 'c win_env \<Rightarrow> pgwt_event_reader \<Rightarrow> u64 \<Rightarrow> u64 \<Rightarrow> nat \<Rightarrow> pgwt_trace_event list \<Rightarrow> bool" where
  "block_sound cinv E r f t b evs \<longleftrightarrow>
     (\<exists>bi. pgwt_reader_block_info r b = Some bi \<and>
        (if nfo_block_type bi \<noteq> 0
         then evs = [] \<and>
           \<not> pgwt_block_agg_file_can_contribute (nfo_first_timestamp_ns bi) (nfo_last_timestamp_ns bi) f t
         else length evs \<le> PGWT_BLOCK_EVENTS \<and> nfo_num_events bi = of_nat (length evs) \<and>
           (\<forall>ev\<in>set evs. nfo_first_timestamp_ns bi \<le> timestamp_ns ev \<and> timestamp_ns ev \<le> nfo_last_timestamp_ns bi) \<and>
           (\<forall>c. cinv c \<longrightarrow>
              (window_decode E r b bi c = Inl PGWT_BAGG_REFUSED_NOMEM \<and> \<not> we_buf E) \<or>
              (\<exists>bi' c'. window_decode E r b bi c = Inr (int (length evs), Some evs, bi', c') \<and>
                 nfo_block_type bi' = 0 \<and> cinv c'))))"

definition file_sound ::
  "('c \<Rightarrow> bool) \<Rightarrow> 'c win_env \<Rightarrow> pgwt_event_reader \<Rightarrow> u64 \<Rightarrow> u64 \<Rightarrow> (nat \<Rightarrow> pgwt_trace_event list) \<Rightarrow> bool" where
  "file_sound cinv E r f t recs \<longleftrightarrow> (\<forall>b<rd_num_blocks r. block_sound cinv E r f t b (recs b))"

text \<open>The merged keys of this file are those of earlier blocks.\<close>

definition keys_below :: "pgwt_event_reader \<Rightarrow> nat \<Rightarrow> pgwt_block_agg \<Rightarrow> bool" where
  "keys_below r b a \<longleftrightarrow> list_all (\<lambda>k. ky_start_time_ns k = rd_start_time_ns r \<longrightarrow>
     ky_clock_offset_ns k = rd_clock_offset_ns r \<longrightarrow> unat (ky_block_index k) < b) (ba_keys a)"

text \<open>
  What the state after some blocks is: the accumulator stands for the records \<open>xs\<close>, the merged keys are of
  the traces \<open>T\<close>, and with the blocks to come there are at most \<open>B\<close> of them.
\<close>

definition keys_from :: "(u64 \<times> u64) set \<Rightarrow> pgwt_block_agg \<Rightarrow> bool" where
  "keys_from T a \<longleftrightarrow> list_all (\<lambda>k. (ky_start_time_ns k, ky_clock_offset_ns k) \<in> T) (ba_keys a)"

definition bwin_inv ::
  "('c \<Rightarrow> bool) \<Rightarrow> pgwt_event_reader \<Rightarrow> (u64 \<times> u64) set \<Rightarrow> nat \<Rightarrow> nat \<Rightarrow> pgwt_trace_event list \<Rightarrow> nat
     \<Rightarrow> 'c win_state \<Rightarrow> bool" where
  "bwin_inv cinv r T B b xs n st \<longleftrightarrow> cinv (ws_ctx st) \<and> bagg_window (ws_acc st) \<and> bagg_rep (ws_acc st) xs \<and>
     keys_below r b (ws_acc st) \<and> ws_exact st = of_nat n \<and>
     length (ba_keys (ws_acc st)) + (rd_num_blocks r - b) \<le> B \<and> B < 2 ^ 30 \<and>
     keys_from T (ws_acc st) \<and> (rd_start_time_ns r, rd_clock_offset_ns r) \<in> T"

lemma kds_fit_small: "length kds \<le> 4096 \<Longrightarrow> kds_fit kds"
  using card_length [of "map fst kds"] by (simp add: kds_fit_def)

lemma block_fits: "length evs \<le> PGWT_BLOCK_EVENTS \<Longrightarrow> bagg_fits evs"
proof -
  assume len: "length evs \<le> PGWT_BLOCK_EVENTS"
  have "length (pair_kds evs) \<le> length evs" "length (node_kds evs) \<le> length evs"
    by (simp_all add: pair_kds_def node_kds_def)
  then show ?thesis using len by (simp add: bagg_fits_def pgwt_const kds_fit_small)
qed

lemma skip_nothing:
  assumes "\<not> pgwt_block_agg_file_can_contribute lo hi f t"
    and "\<forall>ev\<in>set evs. lo \<le> timestamp_ns ev \<and> timestamp_ns ev \<le> hi"
  shows "win_recs f t evs = []" and "win_admitted f t evs = 0"
proof -
  have "\<not> pgwt_block_agg_admitted ev f t" if "ev \<in> set evs" for ev
    using assms that by (auto simp: pgwt_block_agg_file_can_contribute_def pgwt_block_agg_admitted_def
        word_nat split: if_splits dest!: bspec [OF assms(2)])
  then show "win_recs f t evs = []" "win_admitted f t evs = 0"
    using in_window_admitted by (auto simp: filter_empty_conv)
qed

lemma merge_everything:
  assumes "f \<le> lo" and "hi < t" and "\<forall>ev\<in>set evs. lo \<le> timestamp_ns ev \<and> timestamp_ns ev \<le> hi"
  shows "win_recs f t evs = evs" and "win_admitted f t evs = length evs"
proof -
  have "pgwt_block_agg_in_window ev f t" if "ev \<in> set evs" for ev
    using bspec [OF assms(3) that] assms(1,2) by (auto simp: pgwt_block_agg_in_window_def)
  then show w: "win_recs f t evs = evs" by (simp add: filter_id_conv)
  have "\<forall>ev\<in>set evs. pgwt_block_agg_admitted ev f t"
    using w in_window_admitted by (metis filter_id_conv)
  then have "filter (\<lambda>ev. pgwt_block_agg_admitted ev f t) evs = evs" by (simp add: filter_id_conv)
  then show "win_admitted f t evs = length evs" by simp
qed

lemma keys_below_mono: "keys_below r b a \<Longrightarrow> b \<le> c \<Longrightarrow> keys_below r c a"
  by (auto simp: keys_below_def list_all_iff)

lemma key_fresh:
  assumes "keys_below r b a" and "b < 2 ^ 32"
  shows "key_of (window_block_id r b bi) \<notin> set (ba_keys a)"
    and "ba_keys a' = ba_keys a @ [key_of (window_block_id r b bi)] \<Longrightarrow> keys_below r (Suc b) a'"
    and "ba_keys a' = ba_keys a @ [key_of (window_block_id r b bi)] \<Longrightarrow> keys_from T a \<Longrightarrow>
      (rd_start_time_ns r, rd_clock_offset_ns r) \<in> T \<Longrightarrow> keys_from T a'"
proof -
  have b: "unat (of_nat b :: u32) = b" using assms(2) by (simp add: unsigned_of_nat take_bit_nat_eq_self)
  show "key_of (window_block_id r b bi) \<notin> set (ba_keys a)"
    using assms(1) b by (auto simp: keys_below_def list_all_iff key_of_def window_block_id_def
        pgwt_trace_identity_of_reader_def dest: bspec)
  show "ba_keys a' = ba_keys a @ [key_of (window_block_id r b bi)] \<Longrightarrow> keys_below r (Suc b) a'"
    using keys_below_mono [OF assms(1), of "Suc b"] b
    by (simp add: keys_below_def key_of_def window_block_id_def pgwt_trace_identity_of_reader_def)
  show "ba_keys a' = ba_keys a @ [key_of (window_block_id r b bi)] \<Longrightarrow> keys_from T a \<Longrightarrow>
      (rd_start_time_ns r, rd_clock_offset_ns r) \<in> T \<Longrightarrow> keys_from T a'"
    by (simp add: keys_from_def key_of_def window_block_id_def pgwt_trace_identity_of_reader_def)
qed

context bagg_cache
begin

lemma window_merge_block_spec:
  assumes inv: "bwin_inv cinv r T B b xs n st" and b: "b < rd_num_blocks r" "b < 2 ^ 32"
    and blk: "bagg_block agg evs" "ba_id agg = window_block_id r b bi"
    and num: "length evs \<le> PGWT_BLOCK_EVENTS" "nfo_num_events bi = of_nat (length evs)"
    and fits: "bagg_fits (xs @ evs)"
  shows "\<exists>s. window_merge_block E (window_block_id r b bi) b agg st = Some s \<and>
    (case s of Next st' \<Rightarrow> bwin_inv cinv r T B (Suc b) (xs @ evs) (n + length evs) st'
     | Break rc st' \<Rightarrow> rc = PGWT_BAGG_REFUSED_NOMEM \<and> \<not> win_env_ok E)"
proof -
  have i: "cinv (ws_ctx st)" "bagg_window (ws_acc st)" "bagg_rep (ws_acc st) xs" "keys_below r b (ws_acc st)"
    "ws_exact st = of_nat n" "length (ba_keys (ws_acc st)) + (rd_num_blocks r - b) \<le> B" "B < 2 ^ 30"
    "keys_from T (ws_acc st)" "(rd_start_time_ns r, rd_clock_offset_ns r) \<in> T"
    using inv by (simp_all add: bwin_inv_def)
  have "key_of (ba_id agg) \<notin> set (ba_keys (ws_acc st))" using key_fresh(1) [OF i(4) b(2)] blk(2) by simp
  moreover have "length (ba_keys (ws_acc st)) < 2 ^ 30" using i(6,7) by simp
  ultimately obtain rc a where m: "pgwt_block_agg_merge (we_acc E b) (ws_acc st) agg = Some (rc, a)"
    "rc = PGWT_BAGG_OK \<and> bagg_window a \<and> bagg_rep a (xs @ evs) \<and>
       ba_keys a = ba_keys (ws_acc st) @ [key_of (ba_id agg)] \<or>
     rc = PGWT_BAGG_REFUSED_NOMEM \<and> \<not> bagg_env_ok (we_acc E b)"
    using merge_spec [OF i(2,3) blk(1) fits, of "we_acc E b"] by blast
  show ?thesis
  proof (cases "rc = PGWT_BAGG_OK")
    case False
    then show ?thesis using m by (auto simp: window_merge_block_def Let_def win_env_ok_def)
  next
    case True
    then have a: "bagg_window a" "bagg_rep a (xs @ evs)"
      "ba_keys a = ba_keys (ws_acc st) @ [key_of (window_block_id r b bi)]" using m(2) blk(2) by simp_all
    have "ucast (nfo_num_events bi) = (of_nat (length evs) :: u64)"
      using num by (simp add: pgwt_const unsigned_of_nat take_bit_nat_eq_self)
    moreover have "length (ba_keys a) + (rd_num_blocks r - Suc b) \<le> B" using i(6) a(3) b(1) by simp
    ultimately show ?thesis
      using m(1) True a i(1,5,7-9) key_fresh(2) [OF i(4) b(2) a(3)] key_fresh(3) [OF i(4) b(2) a(3) i(8,9)]
      by (auto simp: window_merge_block_def Let_def bwin_inv_def window_block_id_def)
  qed
qed

lemma window_store_spec:
  assumes "cinv c" and "content i = evs" and "length evs \<le> PGWT_BLOCK_EVENTS" and "hk_store E = Some store"
  shows "\<exists>c'. window_store E i bi b evs c = Some c' \<and> cinv c'"
proof -
  obtain rc a where bl: "pgwt_block_agg_build (we_build E b) i (nfo_block_type bi) True evs = Some (rc, a)"
    "if rc = PGWT_BAGG_OK then bagg_block a evs \<and> ba_id a = i \<and> nfo_block_type bi = 0 \<and> True else a = block_agg_zero"
    using build_spec [OF block_fits [OF assms(3)], of "we_build E b" i "nfo_block_type bi" True] by blast
  show ?thesis
  proof (cases "rc = PGWT_BAGG_OK")
    case True
    then have "bagg_block a (content (ba_id a))" using bl(2) assms(2) by simp
    then show ?thesis using store_ok [OF assms(1)] bl(1) True assms(4) by (simp add: window_store_def)
  qed (use bl(1) assms(1,4) in \<open>simp add: window_store_def\<close>)
qed

lemma window_decode_block_spec:
  assumes inv: "bwin_inv cinv r T B b xs n st" and b: "b < rd_num_blocks r"
    and content: "content i = evs" and len: "length evs \<le> PGWT_BLOCK_EVENTS" and store: "hk_store E = Some store"
    and dec: "window_decode E r b bi (ws_ctx st) = Inl PGWT_BAGG_REFUSED_NOMEM \<and> \<not> we_buf E \<or>
      (\<exists>bi' c'. window_decode E r b bi (ws_ctx st) = Inr (int (length evs), Some evs, bi', c') \<and> cinv c')"
    and fits: "bagg_fits (xs @ win_recs f t evs)"
  shows "\<exists>s. window_decode_block E r f t i b bi st = Some s \<and>
    (case s of Next st' \<Rightarrow> bwin_inv cinv r T B (Suc b) (xs @ win_recs f t evs) (n + win_admitted f t evs) st'
     | Break rc st' \<Rightarrow> rc = PGWT_BAGG_REFUSED_NOMEM \<and> \<not> win_env_ok E)"
proof (cases "window_decode E r b bi (ws_ctx st) = Inl PGWT_BAGG_REFUSED_NOMEM \<and> \<not> we_buf E")
  case True
  then show ?thesis by (auto simp: window_decode_block_def win_env_ok_def)
next
  case False
  then obtain bi' c' where d: "window_decode E r b bi (ws_ctx st) = Inr (int (length evs), Some evs, bi', c')" "cinv c'"
    using dec by blast
  have i: "bagg_window (ws_acc st)" "bagg_rep (ws_acc st) xs" "keys_below r b (ws_acc st)"
    "ws_exact st = of_nat n" "length (ba_keys (ws_acc st)) + (rd_num_blocks r - b) \<le> B" "B < 2 ^ 30"
    "keys_from T (ws_acc st)" "(rd_start_time_ns r, rd_clock_offset_ns r) \<in> T"
    using inv by (simp_all add: bwin_inv_def)
  have w: "ba_mode (ws_acc st) = PGWT_BAGG_MODE_WINDOW" "ba_version (ws_acc st) = PGWT_BLOCK_AGG_VERSION"
    using i(1) by (simp_all add: bagg_window_def)
  obtain rc a m where l: "add_events_loop (we_acc E b) f t evs (ws_acc st) 0 = Some (rc, a, m)"
    "bagg_head a = bagg_head (ws_acc st)"
    "rc = PGWT_BAGG_OK \<and> bagg_rep a (xs @ win_recs f t evs) \<and> m = 0 + of_nat (win_admitted f t evs) \<or>
     rc = PGWT_BAGG_REFUSED_NOMEM \<and> \<not> bagg_env_ok (we_acc E b)"
    using add_events_loop_spec [OF i(2) fits w, of "we_acc E b" 0] by blast
  obtain c2 where s: "window_store E i bi' b evs c' = Some c2" "cinv c2"
    using window_store_spec [OF d(2) content len store] by blast
  show ?thesis
  proof (cases "rc = PGWT_BAGG_OK")
    case no: False
    then show ?thesis
      using d(1) l w(1) by (auto simp: window_decode_block_def pgwt_block_agg_add_events_def Let_def win_env_ok_def)
  next
    case True
    let ?st = "st\<lparr>ws_ctx := c2, ws_acc := a, ws_decoded := ws_decoded st + 1, ws_exact := ws_exact st + m\<rparr>"
    have run: "window_decode_block E r f t i b bi st = Some (Next ?st)"
      using d(1) l(1) True s(1) w(1)
      by (simp add: window_decode_block_def pgwt_block_agg_add_events_def Let_def)
    have "bwin_inv cinv r T B (Suc b) (xs @ win_recs f t evs) (n + win_admitted f t evs) ?st"
      using l(3) True s(2) i b bagg_headD [OF l(2)] keys_below_mono [OF i(3), of "Suc b"]
      by (auto simp: bwin_inv_def bagg_window_def keys_below_def keys_from_def)
    then show ?thesis using run by simp
  qed
qed

lemma window_block_spec:
  assumes inv: "bwin_inv cinv r T B b xs n st" and b: "b < rd_num_blocks r" "rd_num_blocks r < 2 ^ 31"
    and sound: "block_sound cinv E r f t b evs"
    and content: "\<forall>bi. pgwt_reader_block_info r b = Some bi \<longrightarrow> nfo_block_type bi = 0 \<longrightarrow>
      content (window_block_id r b bi) = evs"
    and hooks: "hk_lookup E = Some lookup" "hk_store E = Some store" and win: "f < t"
    and fits: "bagg_fits (xs @ win_recs f t evs)"
  shows "\<exists>s. window_block E r f t b st = Some s \<and>
    (case s of Next st' \<Rightarrow> bwin_inv cinv r T B (Suc b) (xs @ win_recs f t evs) (n + win_admitted f t evs) st'
     | Break rc st' \<Rightarrow> rc = PGWT_BAGG_REFUSED_NOMEM \<and> \<not> win_env_ok E)"
proof -
  obtain bi where bi: "pgwt_reader_block_info r b = Some bi"
    "if nfo_block_type bi \<noteq> 0
     then evs = [] \<and> \<not> pgwt_block_agg_file_can_contribute (nfo_first_timestamp_ns bi) (nfo_last_timestamp_ns bi) f t
     else length evs \<le> PGWT_BLOCK_EVENTS \<and> nfo_num_events bi = of_nat (length evs) \<and>
       (\<forall>ev\<in>set evs. nfo_first_timestamp_ns bi \<le> timestamp_ns ev \<and> timestamp_ns ev \<le> nfo_last_timestamp_ns bi) \<and>
       (\<forall>c. cinv c \<longrightarrow> (window_decode E r b bi c = Inl PGWT_BAGG_REFUSED_NOMEM \<and> \<not> we_buf E) \<or>
          (\<exists>bi' c'. window_decode E r b bi c = Inr (int (length evs), Some evs, bi', c') \<and>
             nfo_block_type bi' = 0 \<and> cinv c'))"
    using sound by (auto simp: block_sound_def)
  have mono: "bwin_inv cinv r T B (Suc b) xs n s" if "bwin_inv cinv r T B b xs n s" for s
    using that keys_below_mono [of r b _ "Suc b"] by (auto simp: bwin_inv_def)
  show ?thesis
  proof (cases "nfo_block_type bi = 0")
    case False
    then show ?thesis using bi mono [OF inv] by (simp add: window_block_def)
  next
    case True
    let ?i = "window_block_id r b bi"
    have ct: "content ?i = evs" using content bi(1) True by blast
    have len: "length evs \<le> PGWT_BLOCK_EVENTS" "nfo_num_events bi = of_nat (length evs)"
      and bnd: "\<forall>ev\<in>set evs. nfo_first_timestamp_ns bi \<le> timestamp_ns ev \<and> timestamp_ns ev \<le> nfo_last_timestamp_ns bi"
      using bi(2) True by simp_all
    have "cinv (ws_ctx st)" using inv by (simp add: bwin_inv_def)
    from lookup_ok [OF this, of ?i] obtain res c where lk: "lookup (ws_ctx st) ?i = Some (res, c)" "cinv c"
      "\<forall>a. res = Some a \<longrightarrow> bagg_block a evs \<and> pgwt_block_agg_matches a ?i" using ct by auto
    let ?st = "st\<lparr>ws_ctx := c\<rparr>"
    have inv': "bwin_inv cinv r T B b xs n ?st" using inv lk(2) by (simp add: bwin_inv_def)
    let ?plan = "pgwt_block_agg_plan ?i (res \<noteq> None) f t"
    have dec: "window_decode E r b bi c = Inl PGWT_BAGG_REFUSED_NOMEM \<and> \<not> we_buf E \<or>
      (\<exists>bi' c'. window_decode E r b bi c = Inr (int (length evs), Some evs, bi', c') \<and> cinv c')"
      using bi(2) True lk(2) by auto
    have decode: "\<exists>s. window_decode_block E r f t ?i b bi ?st = Some s \<and>
        (case s of Next st' \<Rightarrow> bwin_inv cinv r T B (Suc b) (xs @ win_recs f t evs) (n + win_admitted f t evs) st'
         | Break rc st' \<Rightarrow> rc = PGWT_BAGG_REFUSED_NOMEM \<and> \<not> win_env_ok E)"
      using window_decode_block_spec [OF inv' b(1) ct len(1) hooks(2) _ fits] dec by simp
    have run: "window_block E r f t b st =
      (case (?plan, res) of
         (PGWT_BLOCK_SKIP, _) \<Rightarrow> Some (Next ?st)
       | (PGWT_BLOCK_MERGE, Some agg) \<Rightarrow> window_merge_block E ?i b agg ?st
       | _ \<Rightarrow> window_decode_block E r f t ?i b bi ?st)"
      using bi(1) True lk(1) hooks(1) by (simp add: window_block_def Let_def)
    consider "?plan = PGWT_BLOCK_SKIP" | agg where "?plan = PGWT_BLOCK_MERGE" "res = Some agg"
      | "?plan = PGWT_BLOCK_MERGE" "res = None" | "?plan = PGWT_BLOCK_DECODE"
      by (cases ?plan; cases res) auto
    then show ?thesis
    proof cases
      case 1
      then have "\<not> pgwt_block_agg_file_can_contribute (nfo_first_timestamp_ns bi) (nfo_last_timestamp_ns bi) f t"
        using win by (auto simp: pgwt_block_agg_plan_def window_block_id_def split: if_splits)
      from skip_nothing [OF this bnd] show ?thesis using run 1 mono [OF inv'] by simp
    next
      case 2
      then have all: "f \<le> nfo_first_timestamp_ns bi" "nfo_last_timestamp_ns bi < t"
        by (auto simp: pgwt_block_agg_plan_def window_block_id_def split: if_splits)
      have agg: "bagg_block agg evs" "ba_id agg = ?i" using lk(3) 2(2) matches_id by auto
      have "b < 2 ^ 32" using b by simp
      moreover have "bagg_fits (xs @ evs)" using fits merge_everything(1) [OF all bnd] by simp
      ultimately show ?thesis
        unfolding merge_everything [OF all bnd]
        using window_merge_block_spec [OF inv' b(1) _ agg len, of E] run 2 by simp
    qed (use run decode in simp_all)
  qed
qed

lemma window_loop_spec:
  assumes "bwin_inv cinv r T B b xs n st" and "b \<le> rd_num_blocks r" and "rd_num_blocks r < 2 ^ 31"
    and "file_sound cinv E r f t recs"
    and "\<forall>b<rd_num_blocks r. \<forall>bi. pgwt_reader_block_info r b = Some bi \<longrightarrow> nfo_block_type bi = 0 \<longrightarrow>
      content (window_block_id r b bi) = recs b"
    and "hk_lookup E = Some lookup" "hk_store E = Some store" and "f < t"
    and "bagg_fits (xs @ win_recs f t (concat (map recs [b..<rd_num_blocks r])))"
  shows "\<exists>rc st'. window_loop E r f t [b..<rd_num_blocks r] st = Some (rc, st') \<and>
    (rc = PGWT_BAGG_OK \<and>
       bwin_inv cinv r T B (rd_num_blocks r) (xs @ win_recs f t (concat (map recs [b..<rd_num_blocks r])))
         (n + win_admitted f t (concat (map recs [b..<rd_num_blocks r]))) st' \<or>
     rc = PGWT_BAGG_REFUSED_NOMEM \<and> \<not> win_env_ok E)"
  using assms(1,2,9)
proof (induction "rd_num_blocks r - b" arbitrary: b xs n st)
  case 0
  then show ?case by simp
next
  case (Suc d)
  then have b: "b < rd_num_blocks r" by simp
  then have upt: "[b..<rd_num_blocks r] = b # [Suc b..<rd_num_blocks r]" by (rule upt_conv_Cons)
  let ?rest = "win_recs f t (concat (map recs [Suc b..<rd_num_blocks r]))"
  have fit: "bagg_fits ((xs @ win_recs f t (recs b)) @ ?rest)" using Suc.prems(3) by (simp add: upt)
  have sound: "block_sound cinv E r f t b (recs b)" using assms(4) b by (simp add: file_sound_def)
  have ct: "\<forall>bi. pgwt_reader_block_info r b = Some bi \<longrightarrow> nfo_block_type bi = 0 \<longrightarrow>
      content (window_block_id r b bi) = recs b" using assms(5) b by blast
  obtain s where s: "window_block E r f t b st = Some s"
    "case s of Next st' \<Rightarrow> bwin_inv cinv r T B (Suc b) (xs @ win_recs f t (recs b)) (n + win_admitted f t (recs b)) st'
     | Break rc st' \<Rightarrow> rc = PGWT_BAGG_REFUSED_NOMEM \<and> \<not> win_env_ok E"
    using window_block_spec [OF Suc.prems(1) b assms(3) sound ct assms(6-8) bagg_fits_prefix [OF fit]] by blast
  show ?case
  proof (cases s)
    case (Break rc st')
    then show ?thesis using s by (simp add: upt)
  next
    case (Next st')
    then have "bwin_inv cinv r T B (Suc b) (xs @ win_recs f t (recs b)) (n + win_admitted f t (recs b)) st'"
      using s(2) by simp
    from Suc.hyps(1) [OF _ this _ fit] show ?thesis using Suc.hyps(2) b s(1) Next by (simp add: upt add.assoc)
  qed
qed

end

section \<open>The server's cache provides the interface\<close>

lemma entries_view_fields [simp]:
  "ix_keys (entries_view es) = map (\<lambda>e. entry_key (ba_id (en_agg e))) es"
  "ix_used (entries_view es) = map en_used es" "ix_cap (entries_view es) = length es"
  by (simp_all add: entries_view_def)

text \<open>A probe of a table with a free slot returns, whatever the order of the entries.\<close>

lemma oa_probe_returns:
  assumes "ix_cap ix = 2 ^ b" and "b < 32" and "i < ix_cap ix" and "\<not> ix_used ix ! i"
  shows "\<exists>h. oa_probe ix k (w AND oa_mask ix) = Some h \<and> unat h < ix_cap ix \<and>
    (ix_used ix ! unat h \<longrightarrow> ix_keys ix ! unat h = k)"
proof -
  let ?c = "ix_cap ix" and ?s = "unat (w AND oa_mask ix)"
  let ?stop = "\<lambda>d. \<not> ix_used ix ! ((?s + d) mod ?c) \<or> ix_keys ix ! ((?s + d) mod ?c) = k"
  have c: "0 < ?c" using assms(3) by simp
  obtain e where "i = (?s + e) mod ?c" using reach_mod [OF c assms(3)] by blast
  then have e: "?stop e" using assms(4) by blast
  define d where "d = (LEAST d. ?stop d)"
  have stop: "?stop d" unfolding d_def by (rule LeastI [of ?stop e, OF e])
  have run: "\<forall>j<d. ix_used ix ! ((?s + j) mod ?c) \<and> ix_keys ix ! ((?s + j) mod ?c) \<noteq> k"
    using not_less_Least [of _ ?stop] unfolding d_def by blast
  have "?s < ?c" using unat_and_mask [OF assms(1,2), of w] c by (simp add: oa_mask_def)
  from oa_probe_run [OF assms(1,2) this run stop] obtain h where
    h: "oa_probe ix k (w AND oa_mask ix) = Some h" "unat h = (?s + d) mod ?c" by blast
  then show ?thesis using stop c by (intro exI [of _ h]) auto
qed

definition entries_ok :: "(pgwt_block_identity \<Rightarrow> pgwt_trace_event list) \<Rightarrow> bagg_entry list \<Rightarrow> bool" where
  "entries_ok content es \<longleftrightarrow>
     list_all (\<lambda>e. en_used e \<longrightarrow> bagg_block (en_agg e) (content (ba_id (en_agg e)))) es"

definition cache_inv :: "(pgwt_block_identity \<Rightarrow> pgwt_trace_event list) \<Rightarrow> bagg_srv \<Rightarrow> bool" where
  "cache_inv content srv \<longleftrightarrow> entries_ok content (bagg_tab srv) \<and>
     (bagg_tab srv = [] \<and> bagg_count srv = 0 \<or> bagg_tab srv \<noteq> [] \<and>
      (\<exists>b. 8 \<le> b \<and> b \<le> 13 \<and> length (bagg_tab srv) = 2 ^ b) \<and> bagg_count srv * 10 < int (length (bagg_tab srv)) * 7) \<and>
     int (length (filter en_used (bagg_tab srv))) \<le> bagg_count srv"

lemma free_entry: "length (filter en_used es) < length es \<Longrightarrow> \<exists>i<length es. \<not> en_used (es ! i)"
  by (metis filter_True in_set_conv_nth less_irrefl)

lemma bagg_slot_spec:
  assumes "length es = 2 ^ b" and "b < 32" and "length (filter en_used es) < length es"
  shows "\<exists>h. bagg_slot es i = Some h \<and> h < length es \<and>
    (en_used (es ! h) \<longrightarrow> entry_key (ba_id (en_agg (es ! h))) = entry_key i)"
proof -
  obtain j where "j < length es" "\<not> en_used (es ! j)" using free_entry [OF assms(3)] by blast
  then show ?thesis
    using oa_probe_returns [of "entries_view es" b j "entry_key i"
        "bagg_key_hash (ti_start_time_ns (bid_trace i)) (bid_block_index i)"] assms(1,2)
    by (fastforce simp: bagg_slot_def)
qed

lemma n_used_entries_update:
  assumes "h < length es"
  shows "length (filter en_used (es[h := e])) + (if en_used (es ! h) then 1 else 0) =
    length (filter en_used es) + (if en_used e then 1 else 0)"
proof -
  have "es = take h es @ es ! h # drop (Suc h) es" by (rule id_take_nth_drop [OF assms])
  then have "filter en_used es = filter en_used (take h es) @ filter en_used [es ! h] @ filter en_used (drop (Suc h) es)"
    by (metis append_Cons append_Nil filter_append)
  then show ?thesis by (simp add: upd_conv_take_nth_drop [OF assms])
qed

lemma entries_ok_update:
  "entries_ok content es \<Longrightarrow> (en_used e \<Longrightarrow> bagg_block (en_agg e) (content (ba_id (en_agg e)))) \<Longrightarrow>
    entries_ok content (es[h := e])"
  using set_update_subset_insert [of es h e] by (auto simp: entries_ok_def list_all_iff)

lemma bagg_rehash_spec:
  assumes "entries_ok content es" and "entries_ok content nt" and "length nt = 2 ^ b" and "b < 32"
    and "length (filter en_used nt) + length (filter en_used es) < length nt"
  shows "\<exists>nt'. bagg_rehash es nt = Some nt' \<and> entries_ok content nt' \<and> length nt' = length nt \<and>
    length (filter en_used nt') \<le> length (filter en_used nt) + length (filter en_used es)"
  using assms
proof (induction es arbitrary: nt)
  case (Cons e es)
  show ?case
  proof (cases "en_used e")
    case False
    then show ?thesis using Cons.IH [of nt] Cons.prems by (simp add: entries_ok_def)
  next
    case True
    obtain h where h: "bagg_slot nt (ba_id (en_agg e)) = Some h" "h < length nt"
      using bagg_slot_spec [OF Cons.prems(3,4)] Cons.prems(5) True by fastforce
    have n: "length (filter en_used (nt[h := e])) \<le> length (filter en_used nt) + 1"
      using n_used_entries_update [OF h(2), of e] True by simp
    have ok: "entries_ok content (nt[h := e])" "entries_ok content es"
      using entries_ok_update [OF Cons.prems(2), of e h] Cons.prems(1) True by (auto simp: entries_ok_def)
    have "length (filter en_used (nt[h := e])) + length (filter en_used es) < length (nt[h := e])"
      using n Cons.prems(5) True by simp
    from Cons.IH [OF ok(2,1) _ Cons.prems(4) this] show ?thesis
      using h True n Cons.prems(3) by fastforce
  qed
qed simp

lemma cache_grow_spec:
  assumes "cache_inv content srv"
  shows "\<exists>g srv'. bagg_cache_grow alloc srv = Some (g, srv') \<and> cache_inv content srv' \<and>
    bagg_count srv' = bagg_count srv \<and>
    (g \<longrightarrow> length (bagg_tab srv') = (if bagg_tab srv \<noteq> [] then length (bagg_tab srv) * 2 else 256))"
proof -
  let ?cap = "length (bagg_tab srv)"
  let ?n = "if ?cap \<noteq> 0 then ?cap * 2 else 256"
  have inv: "entries_ok content (bagg_tab srv)" "int (length (filter en_used (bagg_tab srv))) \<le> bagg_count srv"
    "bagg_tab srv \<noteq> [] \<Longrightarrow> (\<exists>b. 8 \<le> b \<and> b \<le> 13 \<and> ?cap = 2 ^ b) \<and> bagg_count srv * 10 < int ?cap * 7"
    using assms by (auto simp: cache_inv_def)
  show ?thesis
  proof (cases "?n \<le> ?cap \<or> ?n > BAGG_CACHE_MAX_ENTRIES * 2 \<or> \<not> alloc ?n")
    case True
    then show ?thesis using assms unfolding bagg_cache_grow_def Let_def by auto
  next
    case False
    then have le: "?n \<le> 2 ^ 13" by (simp add: pgwt_const)
    have pow: "\<exists>b. 8 \<le> b \<and> b \<le> 13 \<and> ?n = 2 ^ b"
    proof (cases "bagg_tab srv = []")
      case True
      then show ?thesis by (intro exI [of _ 8]) simp
    next
      case ne: False
      then obtain b where b: "8 \<le> b" "?cap = 2 ^ b" using inv(3) by blast
      then have "(2 :: nat) ^ Suc b \<le> 2 ^ 13" using le ne by simp
      then have "Suc b \<le> 13" by (rule power_le_imp_le_exp [rotated]) simp
      then show ?thesis using b ne by (intro exI [of _ "Suc b"]) simp
    qed
    then obtain b where b: "8 \<le> b" "b \<le> 13" "?n = 2 ^ b" by blast
    let ?new = "replicate ?n entry_zero"
    have new: "entries_ok content ?new" "filter en_used ?new = []"
      by (auto simp: entries_ok_def entry_zero_def list_all_iff)
    have small: "length (filter en_used ?new) + length (filter en_used (bagg_tab srv)) < length ?new"
      unfolding new(2) by (cases "?cap = 0") (auto intro!: le_less_trans [OF length_filter_le])
    have "length ?new = 2 ^ b" "b < 32" using b by (simp_all only: length_replicate)
    from bagg_rehash_spec [OF inv(1) new(1) this small] obtain nt where
      nt: "bagg_rehash (bagg_tab srv) ?new = Some nt" "entries_ok content nt" "length nt = ?n"
      "length (filter en_used nt) \<le> length (filter en_used (bagg_tab srv))"
      unfolding new(2) by auto
    have g: "bagg_cache_grow alloc srv = Some (True, srv\<lparr>bagg_tab := nt\<rparr>)"
      using False nt(1) unfolding bagg_cache_grow_def Let_def by auto
    have "bagg_count srv * 10 < int ?n * 7"
      using inv(3) assms by (cases "bagg_tab srv = []") (auto simp: cache_inv_def)
    moreover have "nt \<noteq> []" using nt(3) b(3) by auto
    ultimately have "cache_inv content (srv\<lparr>bagg_tab := nt\<rparr>)"
      using nt(2-4) inv(2) b unfolding cache_inv_def by simp
    then show ?thesis using g nt(3) by auto
  qed
qed

lemma cache_insert_spec:
  assumes "cache_inv content srv" and "bagg_tab srv \<noteq> []"
    and "(bagg_count srv + 1) * 10 < int (length (bagg_tab srv)) * 7" and "bagg_block agg (content (ba_id agg))"
  shows "\<exists>srv'. bagg_cache_insert srv agg = Some srv' \<and> cache_inv content srv'"
proof -
  let ?es = "bagg_tab srv" and ?e = "\<lparr>en_used = True, en_agg = agg\<rparr>"
  obtain b where inv: "8 \<le> b" "b \<le> 13" "length ?es = 2 ^ b" "entries_ok content ?es"
    "int (length (filter en_used ?es)) \<le> bagg_count srv" "bagg_count srv * 10 < int (length ?es) * 7"
    using assms(1,2) by (auto simp: cache_inv_def)
  then have "length (filter en_used ?es) < length ?es" "b < 32" by linarith+
  then obtain h where h: "bagg_slot ?es (ba_id agg) = Some h" "h < length ?es"
    using bagg_slot_spec [OF inv(3)] by blast
  have ok: "entries_ok content (?es[h := ?e])" using entries_ok_update [OF inv(4), of ?e h] assms(4) by simp
  let ?c = "(if en_used (?es ! h) then bagg_count srv - 1 else bagg_count srv) + 1"
  obtain srv' where s: "bagg_cache_insert srv agg = Some srv'" "bagg_tab srv' = ?es[h := ?e]" "bagg_count srv' = ?c"
    using h(1) by (simp add: bagg_cache_insert_def Let_def)
  have "int (length (filter en_used (?es[h := ?e]))) \<le> ?c" "?c * 10 < int (length ?es) * 7"
    using n_used_entries_update [OF h(2), of ?e] inv(5,6) assms(3) by (auto split: if_splits)
  then have "cache_inv content srv'"
    using s(2,3) ok inv(1-3) assms(2) unfolding cache_inv_def by simp
  then show ?thesis using s(1) by blast
qed

lemma cache_put_spec:
  assumes "cache_inv content srv" and "bagg_block agg (content (ba_id agg))"
  shows "\<exists>srv'. bagg_cache_put alloc srv agg = Some srv' \<and> cache_inv content srv'"
proof -
  have keep: "cache_inv content (s\<lparr>bagg_evictions := n\<rparr>) = cache_inv content s" for s n by (simp add: cache_inv_def)
  consider "bagg_count srv \<ge> int BAGG_CACHE_MAX_ENTRIES \<or> bagg_bytes srv + bagg_entry_bytes agg > BAGG_CACHE_MAX_BYTES"
    | "\<not> (bagg_count srv \<ge> int BAGG_CACHE_MAX_ENTRIES \<or> bagg_bytes srv + bagg_entry_bytes agg > BAGG_CACHE_MAX_BYTES)"
      "bagg_tab srv = [] \<or> (bagg_count srv + 1) * 10 \<ge> int (length (bagg_tab srv)) * 7"
    | "\<not> (bagg_count srv \<ge> int BAGG_CACHE_MAX_ENTRIES \<or> bagg_bytes srv + bagg_entry_bytes agg > BAGG_CACHE_MAX_BYTES)"
      "\<not> (bagg_tab srv = [] \<or> (bagg_count srv + 1) * 10 \<ge> int (length (bagg_tab srv)) * 7)" by blast
  then show ?thesis
  proof cases
    case 1
    then show ?thesis using assms(1) by (simp add: bagg_cache_put_def keep)
  next
    case 2
    obtain g srv' where gr: "bagg_cache_grow alloc srv = Some (g, srv')" "cache_inv content srv'"
      "bagg_count srv' = bagg_count srv"
      "g \<longrightarrow> length (bagg_tab srv') = (if bagg_tab srv \<noteq> [] then length (bagg_tab srv) * 2 else 256)"
      using cache_grow_spec [OF assms(1)] by blast
    show ?thesis
    proof (cases g)
      case False
      then show ?thesis using 2 gr(1,2) unfolding bagg_cache_put_def by (simp add: keep)
    next
      case True
      have big: "256 \<le> length (bagg_tab srv)" if "bagg_tab srv \<noteq> []"
      proof -
        obtain b where "8 \<le> b" "length (bagg_tab srv) = 2 ^ b" using assms(1) \<open>bagg_tab srv \<noteq> []\<close> by (auto simp: cache_inv_def)
        then show ?thesis using power_increasing [of 8 b "2 :: nat"] by simp
      qed
      have "(bagg_count srv' + 1) * 10 < int (length (bagg_tab srv')) * 7"
        using gr(3,4) True assms(1) big by (cases "bagg_tab srv = []") (auto simp: cache_inv_def)
      moreover have "bagg_tab srv' \<noteq> []" using gr(4) True by (auto split: if_splits)
      ultimately show ?thesis
        using cache_insert_spec [OF gr(2) _ _ assms(2)] 2 gr(1) True unfolding bagg_cache_put_def by simp
    qed
  next
    case 3
    then show ?thesis using cache_insert_spec [OF assms(1) _ _ assms(2)] by (simp add: bagg_cache_put_def)
  qed
qed

lemma cache_get_spec:
  assumes "cache_inv content srv"
  shows "\<exists>res srv'. bagg_cache_get srv i = Some (res, srv') \<and> cache_inv content srv' \<and>
    (\<forall>a. res = Some a \<longrightarrow> bagg_block a (content i) \<and> pgwt_block_agg_matches a i)"
proof (cases "bagg_tab srv = []")
  case True
  then show ?thesis using assms by (simp add: bagg_cache_get_def)
next
  case False
  let ?es = "bagg_tab srv"
  obtain b where inv: "8 \<le> b" "b \<le> 13" "length ?es = 2 ^ b" "entries_ok content ?es"
    "int (length (filter en_used ?es)) \<le> bagg_count srv" "bagg_count srv * 10 < int (length ?es) * 7"
    using assms False by (auto simp: cache_inv_def)
  then have "length (filter en_used ?es) < length ?es" "b < 32" by linarith+
  then obtain h where h: "bagg_slot ?es i = Some h" "h < length ?es"
    using bagg_slot_spec [OF inv(3)] by blast
  consider "\<not> en_used (?es ! h)" | "en_used (?es ! h)" "pgwt_block_agg_matches (en_agg (?es ! h)) i"
    | "en_used (?es ! h)" "\<not> pgwt_block_agg_matches (en_agg (?es ! h)) i" by blast
  then show ?thesis
  proof cases
    case 1
    then show ?thesis using assms False h(1) by (simp add: bagg_cache_get_def)
  next
    case 2
    have "bagg_block (en_agg (?es ! h)) (content (ba_id (en_agg (?es ! h))))"
      using inv(4) h(2) 2(1) by (auto simp: entries_ok_def list_all_iff)
    then have "bagg_block (en_agg (?es ! h)) (content i)" using matches_id [OF 2(2)] by simp
    moreover have "cache_inv content (srv\<lparr>bagg_hits := n\<rparr>)" for n using assms by (simp add: cache_inv_def)
    ultimately show ?thesis using False h(1) 2 by (simp add: bagg_cache_get_def Let_def)
  next
    case 3
    let ?e = "\<lparr>en_used = False, en_agg = pgwt_block_agg_free (en_agg (?es ! h))\<rparr>"
    have "entries_ok content (?es[h := ?e])" using entries_ok_update [OF inv(4), of ?e h] by simp
    moreover have "int (length (filter en_used (?es[h := ?e]))) \<le> bagg_count srv - 1"
      using n_used_entries_update [OF h(2), of ?e] 3(1) inv(5) by simp
    ultimately have "cache_inv content (srv\<lparr>bagg_bytes := x, bagg_tab := ?es[h := ?e],
        bagg_count := bagg_count srv - 1, bagg_misses := y\<rparr>)" for x y
      using inv(1-3,6) False unfolding cache_inv_def by auto
    then show ?thesis using False h(1) 3 by (simp add: bagg_cache_get_def Let_def)
  qed
qed

interpretation srv_cache: bagg_cache "cache_inv content" bagg_cache_get "bagg_cache_store alloc" content
  for alloc content
proof unfold_locales
  fix c i assume "cache_inv content c"
  then show "\<exists>res c'. bagg_cache_get c i = Some (res, c') \<and> cache_inv content c' \<and>
      (\<forall>a. res = Some a \<longrightarrow> bagg_block a (content i) \<and> pgwt_block_agg_matches a i)"
    by (rule cache_get_spec)
next
  fix c a assume "cache_inv content c" "bagg_block a (content (ba_id a))"
  then show "\<exists>c'. bagg_cache_store alloc c a = Some c' \<and> cache_inv content c'"
    unfolding bagg_cache_store_def by (rule cache_put_spec)
qed

text \<open>
  Dropping a stale entry leaves a hole in the probe sequence: an entry stored behind it, still valid, is
  not found any more. The answer stays right, since the block is decoded again, but the entry keeps its
  share of the budget.
\<close>

lemma stale_drop_hides:
  assumes "bagg_slot (bagg_tab srv) i1 = Some h" and "h < length (bagg_tab srv)" and "en_used (bagg_tab srv ! h)"
    and "\<not> pgwt_block_agg_matches (en_agg (bagg_tab srv ! h)) i1"
    and "unat (bagg_key_hash (ti_start_time_ns (bid_trace i)) (bid_block_index i) AND
           oa_mask (entries_view (bagg_tab srv))) = h"
    and "j < length (bagg_tab srv)" and "j \<noteq> h" and "en_used (bagg_tab srv ! j)"
    and "pgwt_block_agg_matches (en_agg (bagg_tab srv ! j)) i"
  shows "\<exists>srv'. bagg_cache_get srv i1 = Some (None, srv') \<and> en_used (bagg_tab srv' ! j) \<and>
    pgwt_block_agg_matches (en_agg (bagg_tab srv' ! j)) i \<and> bagg_cache_get srv' i = Some (None, srv')"
proof -
  let ?tab = "(bagg_tab srv)[h := \<lparr>en_used = False, en_agg = pgwt_block_agg_free (en_agg (bagg_tab srv ! h))\<rparr>]"
  have ne: "bagg_tab srv \<noteq> []" using assms(2) by auto
  obtain srv' where get: "bagg_cache_get srv i1 = Some (None, srv')" and tab: "bagg_tab srv' = ?tab"
    using assms(1,3,4) ne by (simp add: bagg_cache_get_def Let_def)
  have "oa_mask (entries_view ?tab) = oa_mask (entries_view (bagg_tab srv))" by (simp add: oa_mask_def)
  then have "bagg_slot ?tab i = Some h"
    using assms(2,5) by (simp add: bagg_slot_def) (subst oa_probe.simps, simp)
  then have "bagg_cache_get srv' i = Some (None, srv')"
    using assms(2) ne by (simp add: bagg_cache_get_def tab)
  then show ?thesis using get tab assms(6-9) by auto
qed

section \<open>Properties\<close>

text \<open>
  C13: The fast path answers exactly what the raw records say. Whatever the server's cache holds, as long as
  every entry describes the block of its identity, folding a trace file into a window accumulator either
  gives an accumulator that stands for the records it stood for before and those of the file that close in
  the half-open window, each once, with the number of records the inclusive window admits, or fails for
  want of memory, and only if an allocation failed. The cache stays honest.
\<close>

theorem window_from_reader_exact:
  assumes "cache_inv content (ws_ctx st)" and "bagg_window (ws_acc st)" and "bagg_rep (ws_acc st) xs"
    and "ws_exact st = of_nat n"
    and "file_sound (cache_inv content) E r f t recs"
    and "\<forall>b<rd_num_blocks r. \<forall>bi. pgwt_reader_block_info r b = Some bi \<longrightarrow> nfo_block_type bi = 0 \<longrightarrow>
      content (window_block_id r b bi) = recs b"
    and "hk_lookup E = Some bagg_cache_get" and "hk_store E = Some (bagg_cache_store alloc)"
    and "f < t" and "pgwt_trace_identity_resolvable (pgwt_trace_identity_of_reader r)"
    and "keys_below r 0 (ws_acc st)" and "length (ba_keys (ws_acc st)) + rd_num_blocks r < 2 ^ 30"
    and "bagg_fits (xs @ win_recs f t (concat (map recs [0..<rd_num_blocks r])))"
  shows "\<exists>rc st'. pgwt_block_agg_window_from_reader E r f t st = Some (rc, st') \<and>
    (rc = PGWT_BAGG_OK \<and> cache_inv content (ws_ctx st') \<and>
       bagg_rep (ws_acc st') (xs @ win_recs f t (concat (map recs [0..<rd_num_blocks r]))) \<and>
       ws_exact st' = of_nat (n + win_admitted f t (concat (map recs [0..<rd_num_blocks r]))) \<or>
     rc = PGWT_BAGG_REFUSED_NOMEM \<and> \<not> win_env_ok E)"
proof -
  let ?B = "length (ba_keys (ws_acc st)) + rd_num_blocks r"
  have "bwin_inv (cache_inv content) r UNIV ?B 0 xs n st"
    using assms(1-4,11,12) by (simp add: bwin_inv_def keys_from_def list_all_iff)
  moreover have "rd_num_blocks r < 2 ^ 31" using assms(12) by simp
  ultimately have "\<exists>rc st'. window_loop E r f t [0..<rd_num_blocks r] st = Some (rc, st') \<and>
    (rc = PGWT_BAGG_OK \<and>
       bwin_inv (cache_inv content) r UNIV ?B (rd_num_blocks r) (xs @ win_recs f t (concat (map recs [0..<rd_num_blocks r])))
         (n + win_admitted f t (concat (map recs [0..<rd_num_blocks r]))) st' \<or>
     rc = PGWT_BAGG_REFUSED_NOMEM \<and> \<not> win_env_ok E)"
    by (rule srv_cache.window_loop_spec [OF _ le0 _ assms(5-9,13)])
  then show ?thesis
    using assms(2,9,10) by (auto simp: pgwt_block_agg_window_from_reader_def bagg_window_def bwin_inv_def)
qed

text \<open>A file of one block with two records, the second of which closes at the end of the window.\<close>

definition demo_event :: "u64 \<Rightarrow> pgwt_trace_event" where
  "demo_event ts = \<lparr>timestamp_ns = ts, pid = 7, old_event = 0, new_event = 0x03000001, flags = 0,
     duration_ns = 3, query_id = 0, cpu_ns = 0\<rparr>"

definition demo_reader :: pgwt_event_reader where
  "demo_reader = \<lparr>rd_open = True, rd_version = 3, rd_pg_version = 17, rd_start_time_ns = 5,
     rd_clock_offset_ns = 6, rd_block_index = [64],
     rd_header_at = (\<lambda>_. Some \<lparr>first_timestamp_ns = 10, last_timestamp_ns = 20, num_events = 2,
       compressed_size = 0, uncompressed_size = 0, block_type = 0, sample_period_ns = 0\<rparr>),
     rd_payload_at = (\<lambda>_. None)\<rparr>"

definition demo_env :: "bagg_srv win_env" where
  "demo_env = \<lparr>hk_lookup = Some bagg_cache_get, hk_store = Some (bagg_cache_store (\<lambda>_. True)),
     hk_decode = Some (\<lambda>c r b bi. (2, Some [demo_event 10, demo_event 20], bi, c)),
     we_acc = (\<lambda>_. \<lparr>be_pairs = (\<lambda>_. True), be_nodes = (\<lambda>_. True), be_keys = (\<lambda>_. True)\<rparr>),
     we_build = (\<lambda>_. \<lparr>be_pairs = (\<lambda>_. True), be_nodes = (\<lambda>_. True), be_keys = (\<lambda>_. True)\<rparr>),
     we_buf = True, we_mem = (\<lambda>_. True), we_lz4 = Some\<rparr>"

definition demo_state :: "bagg_srv win_state" where
  "demo_state = \<lparr>ws_ctx = \<lparr>bagg_tab = [], bagg_count = 0, bagg_bytes = 0, bagg_hits = 0, bagg_misses = 0,
       bagg_evictions = 0\<rparr>,
     ws_acc = pgwt_block_agg_init_window, ws_exact = 0, ws_merged = 0, ws_decoded = 0\<rparr>"

lemmas demo_defs = demo_reader_def demo_env_def demo_state_def demo_event_def

lemma demo_sound: "file_sound cinv demo_env demo_reader 0 20 (\<lambda>_. [demo_event 10, demo_event 20])"
  by (simp add: file_sound_def block_sound_def pgwt_reader_block_info_def info_of_header_def window_decode_def
      pgwt_const demo_defs)

lemma init_keys: "ba_keys pgwt_block_agg_init_window = []"
  by (simp add: pgwt_block_agg_init_window_def block_agg_zero_def)

theorem window_from_reader_exact_witness:
  "\<exists>st'. pgwt_block_agg_window_from_reader demo_env demo_reader 0 20 demo_state = Some (PGWT_BAGG_OK, st') \<and>
     bagg_rep (ws_acc st') [demo_event 10] \<and> ws_exact st' = 2"
proof -
  let ?c = "\<lambda>_. [demo_event 10, demo_event 20]"
  have recs: "win_recs 0 20 (concat (map ?c [0..<rd_num_blocks demo_reader])) = [demo_event 10]"
    "win_admitted 0 20 (concat (map ?c [0..<rd_num_blocks demo_reader])) = 2"
    by (simp_all add: demo_defs pgwt_block_agg_in_window_def pgwt_block_agg_admitted_def)
  have ok: "win_env_ok demo_env" by (simp add: win_env_ok_def bagg_env_ok_def demo_defs)
  have "bagg_fits ([] @ [demo_event 10])" by (rule block_fits) (simp add: pgwt_const)
  then have "\<exists>rc st'. pgwt_block_agg_window_from_reader demo_env demo_reader 0 20 demo_state = Some (rc, st') \<and>
    (rc = PGWT_BAGG_OK \<and> cache_inv ?c (ws_ctx st') \<and>
       bagg_rep (ws_acc st') ([] @ win_recs 0 20 (concat (map ?c [0..<rd_num_blocks demo_reader]))) \<and>
       ws_exact st' = of_nat (0 + win_admitted 0 20 (concat (map ?c [0..<rd_num_blocks demo_reader]))) \<or>
     rc = PGWT_BAGG_REFUSED_NOMEM \<and> \<not> win_env_ok demo_env)"
    unfolding recs(1) [symmetric]
    by (intro window_from_reader_exact [where content = ?c and alloc = "\<lambda>_. True"] demo_sound)
      (simp_all add: demo_reader_def demo_env_def demo_state_def cache_inv_def entries_ok_def
        bagg_window_init bagg_rep_init init_keys keys_below_def
        pgwt_trace_identity_resolvable_def pgwt_trace_identity_of_reader_def)
  then show ?thesis unfolding recs using ok by auto
qed

end
