(* ===== verification/Transitions.thy ===== *)
theory Transitions
  imports Block_Window Executions
begin

text \<open>
  The transitions view over raw records: pgwt_transition_record_counts, accum_grow and
  pgwt_compute_transitions of src/src/compute.c. The links are counted in an array in the order of their
  first occurrence, found through the query-id index of Hash_Index with the two events packed into the
  key. The display name of an event is a parameter; the time of a row is the sum before its conversion to
  double. The lemmas show that the array counts every link of the records, and that the rows are those
  the block aggregates give for the same records.
\<close>

section \<open>The population\<close>

definition pgwt_transition_record_counts :: "pgwt_filter \<Rightarrow> pgwt_trace_event \<Rightarrow> bool" where
  "pgwt_transition_record_counts f ev =
     (if flags ev AND PGWT_EVENT_FLAG_SAMPLE \<noteq> 0 then False
      else if event_right_open_flagged ev then False
      else if \<not> pgwt_filter_matches f ev then False
      else if pgwt_is_hidden_event (old_event ev) \<or> pgwt_is_hidden_event (new_event ev) then False
      else if new_event ev = PGWT_EVENT_EXIT then False
      else if PGWT_IS_MARKER (old_event ev) \<or> PGWT_IS_MARKER (new_event ev) then False
      else True)"

section \<open>The growing array\<close>

text \<open>The doubling loop; a capacity of zero never enters it.\<close>

function accum_cap :: "nat \<Rightarrow> nat \<Rightarrow> nat option" where
  "accum_cap newcap need =
     (if newcap < need then
        (if newcap > 2 ^ 29 \<or> newcap = 0 then None else accum_cap (newcap * 2) need)
      else Some newcap)"
  by pat_completeness auto
termination by (relation "measure (\<lambda>(newcap, need). need - newcap)") auto

declare accum_cap.simps [simp del]

text \<open>\<open>fault\<close> is the test hook's answer, \<open>alloc\<close> that of calloc; \<open>None\<close> is the refusal.\<close>

definition accum_grow :: "bool \<Rightarrow> (nat \<Rightarrow> bool) \<Rightarrow> nat \<Rightarrow> nat \<Rightarrow> nat \<Rightarrow> nat option" where
  "accum_grow fault alloc cap need elem =
     (if need \<le> cap then Some cap
      else if fault then None
      else case accum_cap (if cap \<noteq> 0 then cap else 128) need of
          None \<Rightarrow> None
        | Some newcap \<Rightarrow>
            if newcap > (2 ^ 64 - 1) div elem then None
            else if \<not> alloc newcap then None
            else Some newcap)"

section \<open>Counting the links\<close>

record trans_accum =
  ta_from_event :: u32
  ta_to_event :: u32
  ta_count :: u64
  ta_total_ns :: u64

record trans_env =
  te_fault :: "nat \<Rightarrow> bool"
  te_accum :: "nat \<Rightarrow> bool"
  te_index :: "nat \<Rightarrow> bool"
  te_rows :: "int \<Rightarrow> bool"

record trans_state =
  ts_ix :: pgwt_qid_index
  ts_ht :: "trans_accum list"
  ts_cap :: nat
  ts_total :: u64

definition link_key :: "u32 \<Rightarrow> u32 \<Rightarrow> u64" where
  "link_key f t = push_bit 32 (ucast f) OR ucast t"

text \<open>A link met for the first time: room in the array, then its index entry. The flag is success.\<close>

definition trans_new :: "trans_env \<Rightarrow> u32 \<Rightarrow> u32 \<Rightarrow> trans_state \<Rightarrow> (bool \<times> trans_state) option" where
  "trans_new env f t st =
     (let n = length (ts_ht st)
      in case accum_grow (te_fault env n) (te_accum env) (ts_cap st) (n + 1) 24 of
          None \<Rightarrow> Some (False, st)
        | Some c \<Rightarrow>
            let st = st\<lparr>ts_cap := c\<rparr>
            in case pgwt_qid_index_put (te_index env) (ts_ix st) (link_key f t) (int n) of
                Some (PutOk, ix) \<Rightarrow>
                  Some (True, st\<lparr>ts_ix := ix,
                    ts_ht := ts_ht st @ [\<lparr>ta_from_event = f, ta_to_event = t, ta_count = 0, ta_total_ns = 0\<rparr>]\<rparr>)
              | Some (PutNoMem, ix) \<Rightarrow> Some (False, st\<lparr>ts_ix := ix\<rparr>)
              | _ \<Rightarrow> None)"

definition trans_bump :: "nat \<Rightarrow> u64 \<Rightarrow> trans_state \<Rightarrow> trans_state" where
  "trans_bump h d st =
     (let e = ts_ht st ! h
      in st\<lparr>ts_ht := (ts_ht st)[h := e\<lparr>ta_count := ta_count e + 1, ta_total_ns := ta_total_ns e + d\<rparr>],
            ts_total := ts_total st + 1\<rparr>)"

fun trans_loop :: "trans_env \<Rightarrow> pgwt_filter \<Rightarrow> pgwt_trace_event list \<Rightarrow> trans_state \<Rightarrow> (bool \<times> trans_state) option" where
  "trans_loop env f [] st = Some (True, st)"
| "trans_loop env f (ev # evs) st =
     (if \<not> pgwt_transition_record_counts f ev then trans_loop env f evs st
      else case pgwt_qid_index_find (ts_ix st) (link_key (old_event ev) (new_event ev)) of
          None \<Rightarrow> None
        | Some h \<Rightarrow>
            if h < 0 then
              (case trans_new env (old_event ev) (new_event ev) st of
                 None \<Rightarrow> None
               | Some (ok, st') \<Rightarrow>
                   if \<not> ok then Some (False, st')
                   else trans_loop env f evs (trans_bump (length (ts_ht st)) (duration_ns ev) st'))
            else trans_loop env f evs (trans_bump (nat h) (duration_ns ev) st))"

section \<open>The result\<close>

definition cmp_trans_desc :: "trans_accum \<Rightarrow> trans_accum \<Rightarrow> int" where
  "cmp_trans_desc x y =
     (if ta_count x \<noteq> ta_count y then (if ta_count x > ta_count y then -1 else 1)
      else if ta_from_event x \<noteq> ta_from_event y then (if ta_from_event x < ta_from_event y then -1 else 1)
      else if ta_to_event x \<noteq> ta_to_event y then (if ta_to_event x < ta_to_event y then -1 else 1)
      else 0)"

record pgwt_transition_row =
  tr_from_event :: u32
  tr_to_event :: u32
  tr_from_name :: string
  tr_to_name :: string
  tr_count :: u64
  tr_total_ns :: u64

record pgwt_transitions_result =
  tx_rows :: "pgwt_transition_row list"
  tx_num_rows :: int
  tx_total_rows :: int
  tx_total_transitions :: u64
  tx_failed :: bool

definition trans_result_zero :: pgwt_transitions_result where
  "trans_result_zero =
     \<lparr>tx_rows = [], tx_num_rows = 0, tx_total_rows = 0, tx_total_transitions = 0, tx_failed = False\<rparr>"

definition trans_row :: "(u32 \<Rightarrow> string) \<Rightarrow> trans_accum \<Rightarrow> pgwt_transition_row" where
  "trans_row full_name e = \<lparr>tr_from_event = ta_from_event e, tr_to_event = ta_to_event e,
     tr_from_name = full_name (ta_from_event e), tr_to_name = full_name (ta_to_event e),
     tr_count = ta_count e, tr_total_ns = ta_total_ns e\<rparr>"

definition pgwt_compute_transitions ::
  "trans_env \<Rightarrow> (u32 \<Rightarrow> string) \<Rightarrow> pgwt_trace_event list \<Rightarrow> pgwt_filter \<Rightarrow> int \<Rightarrow> pgwt_transitions_result option" where
  "pgwt_compute_transitions env full_name events f max_rows =
     (case trans_loop env f events \<lparr>ts_ix = pgwt_qid_index_init, ts_ht = [], ts_cap = 0, ts_total = 0\<rparr> of
        None \<Rightarrow> None
      | Some (ok, st) \<Rightarrow>
          if \<not> ok then Some (trans_result_zero\<lparr>tx_failed := True\<rparr>)
          else
            let n = int (length (ts_ht st));
                ht = qsort cmp_trans_desc (ts_ht st);
                nr = (if n < max_rows then n else max_rows)
            in if nr \<noteq> 0 \<and> \<not> te_rows env nr then Some (trans_result_zero\<lparr>tx_failed := True\<rparr>)
               else Some \<lparr>tx_rows = map (trans_row full_name) (take (nat nr) ht), tx_num_rows = nr,
                          tx_total_rows = n, tx_total_transitions = ts_total st, tx_failed = False\<rparr>)"

section \<open>The fast path of the server\<close>

text \<open>
  One covered trace file: its clock offset and bounds, and what opening it gives. The difference of two
  64-bit clock values is signed; beyond its range it has no defined value.
\<close>

record pgwt_file_cov =
  fc_valid :: bool
  fc_canon_offset :: u64
  fc_mono_first :: u64
  fc_mono_last :: u64
  fc_reader :: "pgwt_event_reader option"

definition int64_sub :: "u64 \<Rightarrow> u64 \<Rightarrow> int option" where
  "int64_sub a b = (let d = sint a - sint b in if d < - (2 ^ 63) \<or> d \<ge> 2 ^ 63 then None else Some d)"

text \<open>The window in the clock of the file; the inner \<open>None\<close> is a window before its start.\<close>

definition file_window :: "u64 \<Rightarrow> u64 \<Rightarrow> pgwt_file_cov \<Rightarrow> (u64 \<times> u64) option option" where
  "file_window from_wall_ns to_wall_ns fc =
     (case int64_sub to_wall_ns (fc_canon_offset fc) of
        None \<Rightarrow> None
      | Some to_d \<Rightarrow>
          if to_d \<le> 0 then Some None
          else case int64_sub from_wall_ns (fc_canon_offset fc) of
              None \<Rightarrow> None
            | Some from_d \<Rightarrow> Some (Some (if from_d > 0 then word_of_int from_d else 0, word_of_int to_d)))"

fun cov_loop ::
  "(nat \<Rightarrow> 'c win_env) \<Rightarrow> u64 \<Rightarrow> u64 \<Rightarrow> nat \<Rightarrow> pgwt_file_cov list \<Rightarrow> 'c win_state
     \<Rightarrow> (pgwt_bagg_status \<times> 'c win_state) option" where
  "cov_loop E from_wall_ns to_wall_ns ci [] st = Some (PGWT_BAGG_OK, st)"
| "cov_loop E from_wall_ns to_wall_ns ci (fc # cov) st =
     (if \<not> fc_valid fc then cov_loop E from_wall_ns to_wall_ns (ci + 1) cov st
      else case file_window from_wall_ns to_wall_ns fc of
          None \<Rightarrow> None
        | Some None \<Rightarrow> cov_loop E from_wall_ns to_wall_ns (ci + 1) cov st
        | Some (Some (from_m, to_m)) \<Rightarrow>
            if \<not> pgwt_block_agg_file_can_contribute (fc_mono_first fc) (fc_mono_last fc) from_m to_m
            then cov_loop E from_wall_ns to_wall_ns (ci + 1) cov st
            else case fc_reader fc of
                None \<Rightarrow> Some (PGWT_BAGG_REFUSED_INVALID, st)
              | Some r \<Rightarrow>
                  (case pgwt_block_agg_window_from_reader (E ci) r from_m to_m st of
                     None \<Rightarrow> None
                   | Some (rc, st) \<Rightarrow>
                       if rc \<noteq> PGWT_BAGG_OK then Some (rc, st)
                       else cov_loop E from_wall_ns to_wall_ns (ci + 1) cov st))"

definition transitions_from_block_aggs ::
  "(nat \<Rightarrow> 'c win_env) \<Rightarrow> u64 \<Rightarrow> u64 \<Rightarrow> pgwt_file_cov list \<Rightarrow> 'c \<Rightarrow> (pgwt_bagg_status \<times> 'c win_state) option" where
  "transitions_from_block_aggs E from_wall_ns to_wall_ns cov c =
     (case cov_loop E from_wall_ns to_wall_ns 0 cov
             \<lparr>ws_ctx = c, ws_acc = pgwt_block_agg_init_window, ws_exact = 0, ws_merged = 0, ws_decoded = 0\<rparr> of
        None \<Rightarrow> None
      | Some (rc, st) \<Rightarrow>
          if rc \<noteq> PGWT_BAGG_OK then Some (rc, st\<lparr>ws_acc := pgwt_block_agg_free (ws_acc st)\<rparr>)
          else Some (PGWT_BAGG_OK, st))"

section \<open>The array counts every link\<close>

lemma link_key_inj: "link_key f t = link_key f' t' \<longleftrightarrow> f = f' \<and> t = t'"
proof
  assume eq: "link_key f t = link_key f' t'"
  have hi: "drop_bit 32 (link_key f t) = ucast f" for f t :: u32
    using bit_imp_le_length [of f] bit_imp_le_length [of t]
    by (intro bit_word_eqI) (auto simp: link_key_def bit_simps)
  have lo: "take_bit 32 (link_key f t) = ucast t" for f t :: u32
    using bit_imp_le_length [of f] bit_imp_le_length [of t]
    by (intro bit_word_eqI) (auto simp: link_key_def bit_simps)
  have "(ucast f :: u64) = ucast f'" "(ucast t :: u64) = ucast t'" using eq hi lo by metis+
  moreover have "ucast (ucast x :: u64) = x" for x :: u32
    using bit_imp_le_length [of x] by (intro bit_word_eqI) (auto simp: bit_simps)
  ultimately show "f = f' \<and> t = t'" by metis
qed simp

definition accum_key :: "trans_accum \<Rightarrow> u64" where
  "accum_key e = link_key (ta_from_event e) (ta_to_event e)"

abbreviation accum_link :: "trans_accum \<Rightarrow> u32 \<times> u32" where
  "accum_link e \<equiv> (ta_from_event e, ta_to_event e)"

definition trans_kds :: "pgwt_filter \<Rightarrow> pgwt_trace_event list \<Rightarrow> ((u32 \<times> u32) \<times> u64) list" where
  "trans_kds f evs =
     map (\<lambda>ev. ((old_event ev, new_event ev), duration_ns ev)) (filter (pgwt_transition_record_counts f) evs)"

text \<open>The state has the links \<open>L\<close> in its array, counted over the keyed durations.\<close>

definition trans_rep :: "trans_state \<Rightarrow> (u32 \<times> u32) set \<Rightarrow> ((u32 \<times> u32) \<times> u64) list \<Rightarrow> bool" where
  "trans_rep st L kds \<longleftrightarrow>
     oa_ok qid_hash32 (ts_ix st) \<and>
     (\<forall>j<length (ts_ht st). oa_map (ts_ix st) (accum_key (ts_ht st ! j)) = Some (int j)) \<and>
     (\<forall>k v. oa_map (ts_ix st) k = Some v \<longrightarrow> (\<exists>j<length (ts_ht st). v = int j \<and> accum_key (ts_ht st ! j) = k)) \<and>
     accum_link ` set (ts_ht st) = L \<and>
     (\<forall>e\<in>set (ts_ht st). ta_count e = of_nat (length (key_durs (accum_link e) kds)) \<and>
        ta_total_ns e = sum_list (key_durs (accum_link e) kds)) \<and>
     ts_total st = of_nat (length kds) \<and> length (ts_ht st) \<le> ts_cap st \<and>
     (ix_cap (ts_ix st) \<le> 128 \<or> 7 * ix_cap (ts_ix st) \<le> 20 * (length (ts_ht st) + 1))"

definition trans_env_ok :: "trans_env \<Rightarrow> bool" where
  "trans_env_ok env \<longleftrightarrow> (\<forall>n. \<not> te_fault env n \<and> te_accum env n \<and> te_index env n) \<and> (\<forall>n>0. te_rows env n)"

lemma trans_rep_init:
  "trans_rep \<lparr>ts_ix = pgwt_qid_index_init, ts_ht = [], ts_cap = 0, ts_total = 0\<rparr> {} []"
  by (simp add: trans_rep_def pgwt_qid_index_init_def oa_ok_init oa_map_init) (simp add: oa_init_def)

lemma trans_repD:
  assumes "trans_rep st L kds"
  shows "oa_ok qid_hash32 (ts_ix st)"
    and "j < length (ts_ht st) \<Longrightarrow> oa_map (ts_ix st) (accum_key (ts_ht st ! j)) = Some (int j)"
    and "oa_map (ts_ix st) k = Some v \<Longrightarrow> \<exists>j<length (ts_ht st). v = int j \<and> accum_key (ts_ht st ! j) = k"
    and "accum_link ` set (ts_ht st) = L"
    and "e \<in> set (ts_ht st) \<Longrightarrow> ta_count e = of_nat (length (key_durs (accum_link e) kds))"
    and "e \<in> set (ts_ht st) \<Longrightarrow> ta_total_ns e = sum_list (key_durs (accum_link e) kds)"
    and "ts_total st = of_nat (length kds)" and "length (ts_ht st) \<le> ts_cap st"
    and "ix_cap (ts_ix st) \<le> 128 \<or> 7 * ix_cap (ts_ix st) \<le> 20 * (length (ts_ht st) + 1)"
  using assms unfolding trans_rep_def by blast+

lemma trans_repI:
  assumes "oa_ok qid_hash32 (ts_ix st)"
    and "\<And>j. j < length (ts_ht st) \<Longrightarrow> oa_map (ts_ix st) (accum_key (ts_ht st ! j)) = Some (int j)"
    and "\<And>k v. oa_map (ts_ix st) k = Some v \<Longrightarrow> \<exists>j<length (ts_ht st). v = int j \<and> accum_key (ts_ht st ! j) = k"
    and "accum_link ` set (ts_ht st) = L"
    and "\<And>e. e \<in> set (ts_ht st) \<Longrightarrow> ta_count e = of_nat (length (key_durs (accum_link e) kds))"
    and "\<And>e. e \<in> set (ts_ht st) \<Longrightarrow> ta_total_ns e = sum_list (key_durs (accum_link e) kds)"
    and "ts_total st = of_nat (length kds)" and "length (ts_ht st) \<le> ts_cap st"
    and "ix_cap (ts_ix st) \<le> 128 \<or> 7 * ix_cap (ts_ix st) \<le> 20 * (length (ts_ht st) + 1)"
  shows "trans_rep st L kds"
  unfolding trans_rep_def using assms by blast

lemma trans_ht_distinct: "trans_rep st L kds \<Longrightarrow> distinct (map accum_link (ts_ht st))"
proof -
  assume rep: "trans_rep st L kds"
  have "i = j" if "i < length (ts_ht st)" "j < length (ts_ht st)"
    "accum_link (ts_ht st ! i) = accum_link (ts_ht st ! j)" for i j
  proof -
    have "accum_key (ts_ht st ! i) = accum_key (ts_ht st ! j)" using that(3) by (simp add: accum_key_def)
    then show ?thesis using trans_repD(2) [OF rep that(1)] trans_repD(2) [OF rep that(2)]
      by (metis of_nat_eq_iff option.inject)
  qed
  then show ?thesis by (simp only: distinct_conv_nth length_map) (auto simp only: nth_map)
qed

lemma trans_ht_length: "trans_rep st L kds \<Longrightarrow> length (ts_ht st) = card L"
  using distinct_card [OF trans_ht_distinct] trans_repD(4) by fastforce

lemma accum_grow_next:
  assumes "n \<le> cap" and "n < 10 ^ 8"
  shows "(\<exists>c\<ge>n + 1. accum_grow fault alloc cap (n + 1) 24 = Some c) \<or>
    accum_grow fault alloc cap (n + 1) 24 = None \<and> (fault \<or> (\<exists>m. \<not> alloc m))"
proof (cases "n + 1 \<le> cap")
  case True
  then show ?thesis by (simp add: accum_grow_def)
next
  case False
  then have cap: "cap = n" using assms(1) by simp
  obtain c where c: "accum_cap (if cap \<noteq> 0 then cap else 128) (n + 1) = Some c" "n + 1 \<le> c" "c \<le> 2 * 10 ^ 8"
    using assms(2) cap
    by (cases "n = 0") (auto simp: accum_cap.simps [of n] accum_cap.simps [of "n * 2"] accum_cap.simps [of 128])
  then show ?thesis using False by (cases "fault \<or> \<not> alloc c") (auto simp: accum_grow_def)
qed

lemma qid_put_cap:
  assumes "pgwt_qid_index_put alloc ix k v = Some (oc, ix')"
  shows "ix_cap ix' = ix_cap ix \<or> ix_cap ix' \<le> 128 \<or> 7 * ix_cap ix' \<le> 20 * (ix_n ix + 1)"
proof -
  have keep: "oa_put_nogrow qid_hash32 m k v = Some m' \<Longrightarrow> ix_cap m' = ix_cap m" for m m'
    by (auto simp: oa_put_nogrow_def split: option.splits if_splits)
  show ?thesis
    using assms keep oa_grow_cap [of qid_hash32 0 ix]
    by (auto simp: pgwt_qid_index_put_def oa_put_def oa_load_full_def Let_def split: if_splits option.splits)
qed

lemma trans_bump_spec:
  assumes rep: "trans_rep st L kds" and h: "h < length (ts_ht st)"
  shows "trans_rep (trans_bump h d st) L (kds @ [(accum_link (ts_ht st ! h), d)])"
proof -
  let ?e = "ts_ht st ! h" and ?kds = "kds @ [(accum_link (ts_ht st ! h), d)]"
  let ?b = "?e\<lparr>ta_count := ta_count ?e + 1, ta_total_ns := ta_total_ns ?e + d\<rparr>"
  have st: "ts_ht (trans_bump h d st) = (ts_ht st)[h := ?b]" "ts_ix (trans_bump h d st) = ts_ix st"
    "ts_total (trans_bump h d st) = ts_total st + 1" "ts_cap (trans_bump h d st) = ts_cap st"
    by (simp_all add: trans_bump_def Let_def)
  have links: "map accum_link ((ts_ht st)[h := ?b]) = map accum_link (ts_ht st)"
    using h by (intro nth_equalityI) (auto simp: nth_list_update)
  then have keys: "accum_key ((ts_ht st)[h := ?b] ! j) = accum_key (ts_ht st ! j)" if "j < length (ts_ht st)" for j
    using that by (cases "j = h") (simp_all add: accum_key_def)
  have one: "key_durs k [(k', d)] = (if k = k' then [d] else [])" for k k' :: "u32 \<times> u32" by (simp add: key_durs_def)
  have vals: "ta_count e = of_nat (length (key_durs (accum_link e) ?kds)) \<and>
      ta_total_ns e = sum_list (key_durs (accum_link e) ?kds)" if "e \<in> set ((ts_ht st)[h := ?b])" for e
  proof -
    obtain j where j: "j < length (ts_ht st)" "e = (ts_ht st)[h := ?b] ! j" using \<open>e \<in> _\<close> by (auto simp: in_set_conv_nth)
    show ?thesis
    proof (cases "j = h")
      case True
      then show ?thesis using j h trans_repD(5,6) [OF rep nth_mem [OF h]] by (simp add: one)
    next
      case False
      then have e: "e = ts_ht st ! j" using j(2) by simp
      have "accum_link e \<noteq> accum_link ?e"
        using nth_eq_iff_index_eq [OF trans_ht_distinct [OF rep], of j h] j(1) h False e by (simp del: prod.inject)
      then have "key_durs (accum_link e) ?kds = key_durs (accum_link e) kds"
        by (simp only: key_durs_append one if_False append_Nil2)
      then show ?thesis using trans_repD(5,6) [OF rep nth_mem [OF j(1)]] unfolding e by simp
    qed
  qed
  have len: "length ((ts_ht st)[h := ?b]) = length (ts_ht st)" by simp
  show ?thesis
  proof (rule trans_repI, unfold st len)
    fix j assume "j < length (ts_ht st)"
    then show "oa_map (ts_ix st) (accum_key ((ts_ht st)[h := ?b] ! j)) = Some (int j)"
      by (simp only: keys trans_repD(2) [OF rep])
  next
    fix k v assume "oa_map (ts_ix st) k = Some v"
    then obtain j where j: "j < length (ts_ht st)" "v = int j" "accum_key (ts_ht st ! j) = k"
      using trans_repD(3) [OF rep] by blast
    then show "\<exists>j<length (ts_ht st). v = int j \<and> accum_key ((ts_ht st)[h := ?b] ! j) = k"
      using keys [OF j(1)] by (intro exI [of _ j]) (simp only: simp_thms)
  next
    show "accum_link ` set ((ts_ht st)[h := ?b]) = L"
      using arg_cong [OF links, of set] trans_repD(4) [OF rep] by (simp only: set_map)
    show "ts_total st + 1 = of_nat (length ?kds)" using trans_repD(7) [OF rep] by simp
  qed (fact trans_repD(1,8,9) [OF rep] | rule vals [THEN conjunct1] vals [THEN conjunct2], assumption)+
qed

definition fresh_accum :: "u32 \<Rightarrow> u32 \<Rightarrow> trans_accum" where
  "fresh_accum f t = \<lparr>ta_from_event = f, ta_to_event = t, ta_count = 0, ta_total_ns = 0\<rparr>"

lemma trans_new_spec:
  assumes rep: "trans_rep st (fst ` set kds) kds" and new: "(f, t) \<notin> fst ` set kds" and few: "card (fst ` set kds) < 10 ^ 8"
  shows "\<exists>ok st'. trans_new env f t st = Some (ok, st') \<and>
    (ok \<and> ts_ht st' = ts_ht st @ [fresh_accum f t] \<and> trans_rep st' (insert (f, t) (fst ` set kds)) kds \<or>
     \<not> ok \<and> \<not> trans_env_ok env)"
proof -
  let ?n = "length (ts_ht st)" and ?k = "link_key f t"
  have n: "?n < 10 ^ 8" using trans_ht_length [OF rep] few by simp
  have absent: "oa_map (ts_ix st) ?k = None"
  proof (rule ccontr)
    assume "oa_map (ts_ix st) ?k \<noteq> None"
    then obtain j where "j < ?n" "accum_key (ts_ht st ! j) = ?k" using trans_repD(3) [OF rep] by blast
    then have "(f, t) \<in> accum_link ` set (ts_ht st)" by (auto simp: accum_key_def link_key_inj)
    then show False using new trans_repD(4) [OF rep] by simp
  qed
  have cap: "ix_cap (ts_ix st) \<le> 2 ^ 29" "ix_cap (ts_ix st) * 7 \<le> oa_INT_MAX"
    using trans_repD(9) [OF rep] n by (auto simp: oa_INT_MAX_def)
  obtain oc ix where put: "pgwt_qid_index_put (te_index env) (ts_ix st) ?k (int ?n) = Some (oc, ix)"
    using qid_ix.put_returns [OF trans_repD(1) [OF rep]] by blast
  have card: "ix_n (ts_ix st) = ?n"
  proof -
    have "dom (oa_map (ts_ix st)) = accum_key ` set (ts_ht st)"
    proof (intro equalityI subsetI)
      fix k assume "k \<in> dom (oa_map (ts_ix st))"
      then obtain j where "j < ?n" "accum_key (ts_ht st ! j) = k" using trans_repD(3) [OF rep, of k] by auto
      then show "k \<in> accum_key ` set (ts_ht st)" by auto
    next
      fix k assume "k \<in> accum_key ` set (ts_ht st)"
      then obtain j where "j < ?n" "k = accum_key (ts_ht st ! j)" by (auto simp: in_set_conv_nth)
      then show "k \<in> dom (oa_map (ts_ix st))" using trans_repD(2) [OF rep] by auto
    qed
    moreover have "inj_on accum_key (set (ts_ht st))"
      using trans_ht_distinct [OF rep] by (auto simp: inj_on_def accum_key_def link_key_inj distinct_map)
    moreover have "distinct (ts_ht st)" using trans_ht_distinct [OF rep] by (simp add: distinct_map)
    ultimately show ?thesis using oa_n_card [OF trans_repD(1) [OF rep]] by (simp add: card_image distinct_card)
  qed
  have oc: "oc = PutOk \<or> oc = PutNoMem \<and> \<not> trans_env_ok env"
    using put cap card n unfolding pgwt_qid_index_put_def oa_put_def
    by (auto simp: oa_load_ub_def oa_INT_MAX_def Let_def trans_env_ok_def split: if_splits option.splits)
  let ?st = "\<lambda>c. st\<lparr>ts_cap := c, ts_ix := ix, ts_ht := ts_ht st @ [fresh_accum f t]\<rparr>"
  show ?thesis
  proof (cases "accum_grow (te_fault env ?n) (te_accum env) (ts_cap st) (?n + 1) 24")
    case None
    then show ?thesis
      using accum_grow_next [OF trans_repD(8) [OF rep] n, of "te_fault env ?n" "te_accum env"]
      by (auto simp: trans_new_def trans_env_ok_def)
  next
    case (Some c)
    then have c: "?n + 1 \<le> c"
      using accum_grow_next [OF trans_repD(8) [OF rep] n, of "te_fault env ?n" "te_accum env"] by auto
    have "trans_rep (?st c) (insert (f, t) (fst ` set kds)) kds" if ok: "oc = PutOk"
    proof -
      have ix: "oa_ok qid_hash32 ix" "oa_map ix = (oa_map (ts_ix st))(?k \<mapsto> int ?n)"
        using qid_ix.put_inv [OF trans_repD(1) [OF rep] put] qid_ix.put_contents [OF trans_repD(1) [OF rep] put] ok by simp_all
      have ak: "accum_key (fresh_accum f t) = ?k" by (simp add: accum_key_def fresh_accum_def)
      have fwd: "oa_map ix (accum_key ((ts_ht st @ [fresh_accum f t]) ! j)) = Some (int j)" if "j < ?n + 1" for j
        using trans_repD(2) [OF rep, of j] absent that ak by (cases "j = ?n") (auto simp: ix(2) nth_append)
      have bwd: "\<exists>j<?n + 1. v = int j \<and> accum_key ((ts_ht st @ [fresh_accum f t]) ! j) = k" if kv: "oa_map ix k = Some v" for k v
      proof (cases "k = ?k")
        case True
        then show ?thesis using kv ak by (intro exI [of _ ?n]) (simp add: ix(2))
      next
        case False
        then obtain j where "j < ?n" "v = int j" "accum_key (ts_ht st ! j) = k"
          using trans_repD(3) [OF rep, of k v] kv by (auto simp: ix(2))
        then show ?thesis by (intro exI [of _ j]) (simp add: nth_append)
      qed
      have "key_durs (f, t) kds = []" using new by (force simp: key_durs_def filter_empty_conv)
      moreover have "ix_cap ix \<le> 128 \<or> 7 * ix_cap ix \<le> 20 * (length (ts_ht st @ [fresh_accum f t]) + 1)"
        using qid_put_cap [OF put] trans_repD(9) [OF rep] card by auto
      ultimately show ?thesis
        using ix(1) fwd bwd trans_repD(4-7) [OF rep] c
        unfolding trans_rep_def by (simp add: fresh_accum_def)
    qed
    then show ?thesis
      using oc Some put by (auto simp: trans_new_def Let_def fresh_accum_def)
  qed
qed

lemma trans_kds_simps [simp]:
  "trans_kds f [] = []"
  "trans_kds f (ev # evs) = (if pgwt_transition_record_counts f ev
     then ((old_event ev, new_event ev), duration_ns ev) # trans_kds f evs else trans_kds f evs)"
  by (simp_all add: trans_kds_def)

lemma trans_loop_spec:
  assumes "trans_rep st (fst ` set kds) kds" and "kds_fit (kds @ trans_kds f evs)"
  shows "\<exists>ok st'. trans_loop env f evs st = Some (ok, st') \<and>
    (ok \<and> trans_rep st' (fst ` set (kds @ trans_kds f evs)) (kds @ trans_kds f evs) \<or> \<not> ok \<and> \<not> trans_env_ok env)"
  using assms
proof (induction evs arbitrary: st kds)
  case (Cons ev evs)
  let ?l = "(old_event ev, new_event ev)" and ?k = "link_key (old_event ev) (new_event ev)"
  show ?case
  proof (cases "pgwt_transition_record_counts f ev")
    case False
    then show ?thesis using Cons.IH [OF Cons.prems(1)] Cons.prems(2) by simp
  next
    case counts: True
    let ?kds = "kds @ [(?l, duration_ns ev)]"
    have fit: "kds_fit (?kds @ trans_kds f evs)" using Cons.prems(2) counts by simp
    note step = Cons.IH [of _ ?kds, OF _ fit]
    have find: "pgwt_qid_index_find (ts_ix st) ?k = Some (case oa_map (ts_ix st) ?k of None \<Rightarrow> -1 | Some v \<Rightarrow> v)"
      by (rule qid_ix.find_contents [OF trans_repD(1) [OF Cons.prems(1)]])
    show ?thesis
    proof (cases "oa_map (ts_ix st) ?k")
      case (Some v)
      then obtain j where j: "j < length (ts_ht st)" "v = int j" "accum_key (ts_ht st ! j) = ?k"
        using trans_repD(3) [OF Cons.prems(1)] by blast
      then have l: "accum_link (ts_ht st ! j) = ?l" by (simp add: accum_key_def link_key_inj)
      then have "?l \<in> accum_link ` set (ts_ht st)" using j(1) by (intro image_eqI [of _ _ "ts_ht st ! j"]) simp_all
      then have "?l \<in> fst ` set kds" unfolding trans_repD(4) [OF Cons.prems(1)] .
      then have "fst ` set ?kds = fst ` set kds" by auto
      then have "trans_rep (trans_bump j (duration_ns ev) st) (fst ` set ?kds) ?kds"
        using trans_bump_spec [OF Cons.prems(1) j(1), of "duration_ns ev"] l by simp
      from step [OF this] show ?thesis using counts find Some j(2) by simp
    next
      case None
      have new: "?l \<notin> fst ` set kds"
      proof
        assume "?l \<in> fst ` set kds"
        then have "?l \<in> accum_link ` set (ts_ht st)" unfolding trans_repD(4) [OF Cons.prems(1)] .
        then obtain j where "j < length (ts_ht st)" "accum_link (ts_ht st ! j) = ?l"
          by (auto simp: in_set_conv_nth)
        then show False using trans_repD(2) [OF Cons.prems(1), of j] None by (simp add: accum_key_def)
      qed
      have few: "card (fst ` set kds) < 10 ^ 8" using kds_fit_prefix [OF Cons.prems(2)] by (simp add: kds_fit_def)
      obtain ok st' where s: "trans_new env (old_event ev) (new_event ev) st = Some (ok, st')"
        "ok \<and> ts_ht st' = ts_ht st @ [fresh_accum (old_event ev) (new_event ev)] \<and>
           trans_rep st' (insert ?l (fst ` set kds)) kds \<or> \<not> ok \<and> \<not> trans_env_ok env"
        using trans_new_spec [OF Cons.prems(1) new few] by blast
      show ?thesis
      proof (cases ok)
        case False
        then show ?thesis using counts find None s by auto
      next
        case True
        then have st': "ts_ht st' = ts_ht st @ [fresh_accum (old_event ev) (new_event ev)]"
          "trans_rep st' (insert ?l (fst ` set kds)) kds" using s(2) by simp_all
        then have "accum_link (ts_ht st' ! length (ts_ht st)) = ?l" "length (ts_ht st) < length (ts_ht st')"
          by (simp_all add: fresh_accum_def)
        then have "trans_rep (trans_bump (length (ts_ht st)) (duration_ns ev) st') (fst ` set ?kds) ?kds"
          using trans_bump_spec [OF st'(2), of "length (ts_ht st)" "duration_ns ev"] by simp
        from step [OF this] show ?thesis using counts find None s(1) True by simp
      qed
    qed
  qed
qed auto

section \<open>One order, one answer\<close>

lemma qsort_sort_key:
  assumes "\<And>x y. cmp x y \<le> 0 \<longleftrightarrow> key x \<le> (key y :: 'b::linorder)"
  shows "qsort cmp xs = sort_key key xs"
proof -
  have "cmp_insert cmp x ys = insort_key key x ys" for x ys by (induction ys) (simp_all add: assms)
  then show ?thesis by (induction xs) simp_all
qed

definition pair_order :: "(u32 \<times> u32) agg_slot \<Rightarrow> int \<times> u32 \<times> u32" where
  "pair_order s = (- uint (sl_count s), sl_key s)"

lemma cmp_pair_order: "cmp_pair_total a b \<le> 0 \<longleftrightarrow> pair_order a \<le> pair_order b"
  by (cases "sl_key a"; cases "sl_key b")
    (auto simp: cmp_pair_total_def pair_order_def less_eq_prod_def word_less_def word_le_def word_uint_eq_iff)

definition accum_slot :: "trans_accum \<Rightarrow> (u32 \<times> u32) agg_slot" where
  "accum_slot e = \<lparr>sl_key = accum_link e, sl_count = ta_count e, sl_total_ns = ta_total_ns e\<rparr>"

lemma cmp_trans_slot: "cmp_trans_desc x y = cmp_pair_total (accum_slot x) (accum_slot y)"
  by (simp add: cmp_trans_desc_def cmp_pair_total_def accum_slot_def)

lemma map_qsort_trans: "map accum_slot (qsort cmp_trans_desc xs) = qsort cmp_pair_total (map accum_slot xs)"
proof -
  have "map accum_slot (cmp_insert cmp_trans_desc x ys) = cmp_insert cmp_pair_total (accum_slot x) (map accum_slot ys)" for x ys
    by (induction ys) (simp_all add: cmp_trans_slot)
  then show ?thesis by (induction xs) simp_all
qed

definition kds_slot :: "('k \<times> u64) list \<Rightarrow> 'k \<Rightarrow> 'k agg_slot" where
  "kds_slot kds k = \<lparr>sl_key = k, sl_count = of_nat (length (key_durs k kds)), sl_total_ns = sum_list (key_durs k kds)\<rparr>"

lemma tab_used_slots:
  assumes rep: "tab_rep hash t kds" and len: "length kds < 2 ^ 64"
  shows "set (filter (\<lambda>s. sl_used s) (tb_slots t)) = kds_slot kds ` fst ` set kds"
proof -
  note r = tab_repD [OF rep]
  have slot: "s = kds_slot kds (sl_key s) \<and> sl_key s \<in> fst ` set kds" if s: "s \<in> set (tb_slots t)" "sl_used s" for s
  proof -
    obtain i where "i < length (tb_slots t)" "s = tb_slots t ! i" using s(1) by (auto simp: in_set_conv_nth)
    then have v: "sl_count s = of_nat (length (key_durs (sl_key s) kds))" "sl_total_ns s = sum_list (key_durs (sl_key s) kds)"
      using slots_val_at [OF r(1)] r(7) s(2) by (metis prod.inject)+
    then have "key_durs (sl_key s) kds \<noteq> []" using s(2) by auto
    then have "sl_key s \<in> fst ` set kds" by (force simp: key_durs_def filter_empty_conv)
    then show ?thesis using v by (cases s) (simp add: kds_slot_def)
  qed
  show ?thesis
  proof (intro equalityI subsetI)
    fix s assume "s \<in> set (filter (\<lambda>s. sl_used s) (tb_slots t))"
    then show "s \<in> kds_slot kds ` fst ` set kds" using slot [of s] by auto
  next
    fix s assume "s \<in> kds_slot kds ` fst ` set kds"
    then obtain k where k: "k \<in> fst ` set kds" "s = kds_slot kds k" by blast
    then have "key_durs k kds \<noteq> []" by (force simp: key_durs_def filter_empty_conv)
    then have "fst (slots_val (tb_slots t) k) \<noteq> 0"
      using r(7) [of k] of_nat_u64_nz [of "length (key_durs k kds)"] length_key_durs_le [of k kds] len by simp
    then obtain s' where "s' \<in> set (tb_slots t)" "sl_used s'" "sl_key s' = k" by (auto simp: slots_val_present)
    then show "s \<in> set (filter (\<lambda>s. sl_used s) (tb_slots t))" using slot [of s'] k(2) by auto
  qed
qed

lemma sorted_links_agree:
  assumes tab: "tab_rep pair_hash t kds" and raw: "trans_rep st (fst ` set kds) kds" and len: "length kds < 2 ^ 64"
  shows "qsort cmp_pair_total (filter (\<lambda>s. sl_used s) (tb_slots t)) = map accum_slot (qsort cmp_trans_desc (ts_ht st))"
proof -
  let ?us = "filter (\<lambda>s. sl_used s) (tb_slots t)" and ?as = "map accum_slot (ts_ht st)"
  have "accum_slot e = kds_slot kds (accum_link e)" if "e \<in> set (ts_ht st)" for e
    using trans_repD(5,6) [OF raw that] by (simp add: accum_slot_def kds_slot_def)
  then have "set ?as = kds_slot kds ` accum_link ` set (ts_ht st)" by (auto simp: image_iff)
  then have sets: "set ?us = set ?as" unfolding tab_used_slots [OF tab len] trans_repD(4) [OF raw] by simp
  have "distinct (map sl_key ?us)" by (rule slots_distinct_keys [OF tab_repD(1) [OF tab]])
  moreover have "map sl_key ?as = map accum_link (ts_ht st)" by (simp add: accum_slot_def)
  then have dist: "distinct (map sl_key ?as)" using trans_ht_distinct [OF raw] by (simp only:)
  ultimately have m: "mset ?us = mset ?as" using sets by (meson distinct_map set_eq_iff_mset_eq_distinct)
  have "inj_on pair_order (set ?as)"
    using dist unfolding distinct_map by (auto simp: inj_on_def pair_order_def)
  then have "sort_key pair_order ?us = sort_key pair_order ?as"
    using m sets by (intro sort_key_inj_key_eq) simp_all
  then show ?thesis by (simp add: map_qsort_trans qsort_sort_key [OF cmp_pair_order])
qed

lemma unfiltered_population:
  assumes "pgwt_block_agg_filter_supported (Some f)" and "\<not> event_right_open_flagged ev"
  shows "pgwt_transition_record_counts f ev = pgwt_block_agg_record_counts ev"
  using assms by (auto simp: pgwt_block_agg_filter_supported_def pgwt_transition_record_counts_def
      pgwt_block_agg_record_counts_def pgwt_filter_matches_def split: if_splits)

text \<open>The two populations differ on a record the loader marked as closing past the window.\<close>

lemma right_open_population_differs:
  "pgwt_block_agg_record_counts ((demo_event 10)\<lparr>flags := 0x800\<rparr>)"
  "\<not> pgwt_transition_record_counts f ((demo_event 10)\<lparr>flags := 0x800\<rparr>)"
proof -
  show "pgwt_block_agg_record_counts ((demo_event 10)\<lparr>flags := 0x800\<rparr>)" by code_simp
  show "\<not> pgwt_transition_record_counts f ((demo_event 10)\<lparr>flags := 0x800\<rparr>)"
    by (simp add: pgwt_transition_record_counts_def event_right_open_flagged_def demo_event_def)
qed

section \<open>The rows\<close>

text \<open>The row a slot of the readout stands for.\<close>

definition slot_row :: "(u32 \<Rightarrow> string) \<Rightarrow> (u32 \<times> u32) agg_slot \<Rightarrow> pgwt_transition_row" where
  "slot_row full_name s = \<lparr>tr_from_event = fst (sl_key s), tr_to_event = snd (sl_key s),
     tr_from_name = full_name (fst (sl_key s)), tr_to_name = full_name (snd (sl_key s)),
     tr_count = sl_count s, tr_total_ns = sl_total_ns s\<rparr>"

lemma slot_row_accum: "slot_row full_name (accum_slot e) = trans_row full_name e"
  by (simp add: slot_row_def trans_row_def accum_slot_def)

text \<open>
  The raw transitions view and the block aggregates give the same rows. For an unfiltered request
  over records that all close in the window, the raw computation always returns, fails only for want of
  memory or a negative row limit, and otherwise its rows are, in order, the sorted readout of any
  aggregate that stands for the same records, cut at the row limit, with the same number of distinct
  links and the same total.
\<close>

lemma transitions_rows_agree:
  assumes "bagg_rep a evs" and "ba_mode a \<noteq> PGWT_BAGG_MODE_NONE" and "bagg_fits evs"
    and "pgwt_block_agg_filter_supported (Some f)" and "\<forall>ev\<in>set evs. \<not> event_right_open_flagged ev"
    and "\<forall>n. alloc n"
  shows "\<exists>res ps. pgwt_compute_transitions env full_name evs f max_rows = Some res \<and>
    pgwt_block_agg_pairs_sorted alloc a = (PGWT_BAGG_OK, ps) \<and>
    (if tx_failed res then \<not> trans_env_ok env \<or> max_rows < 0
     else tx_num_rows res = min (int (length ps)) max_rows \<and>
       tx_rows res = map (slot_row full_name) (take (nat (tx_num_rows res)) ps) \<and>
       tx_total_rows res = int (length ps) \<and> tx_total_transitions res = tb_count (ba_pairs a))"
proof -
  let ?kds = "pair_kds evs"
  have "filter (pgwt_transition_record_counts f) evs = filter pgwt_block_agg_record_counts evs"
    using unfiltered_population [OF assms(4)] assms(5) by (auto intro: filter_cong)
  then have kds: "trans_kds f evs = ?kds" by (simp add: trans_kds_def pair_kds_def)
  have tab: "tab_rep pair_hash (ba_pairs a) ?kds" and fit: "kds_fit ?kds"
    using assms(1,3) by (simp_all add: bagg_rep_def bagg_fits_def)
  note r = tab_repD [OF tab]
  let ?us = "filter (\<lambda>s. sl_used s) (tb_slots (ba_pairs a))"
  define ps where "ps = qsort cmp_pair_total ?us"
  have len_ps: "length ps = n_used (tb_slots (ba_pairs a))"
    by (simp add: ps_def qsort_sort_key [OF cmp_pair_order])
  have sorted: "pgwt_block_agg_pairs_sorted alloc a = (PGWT_BAGG_OK, ps)"
    using assms(2,6) r(2) by (auto simp: pgwt_block_agg_pairs_sorted_def tab_sorted_def ps_def)
  obtain ok st where l: "trans_loop env f evs \<lparr>ts_ix = pgwt_qid_index_init, ts_ht = [], ts_cap = 0, ts_total = 0\<rparr> =
      Some (ok, st)"
    "ok \<and> trans_rep st (fst ` set ([] @ trans_kds f evs)) ([] @ trans_kds f evs) \<or> \<not> ok \<and> \<not> trans_env_ok env"
    using trans_loop_spec [of _ "[]" f evs env, unfolded list.set image_empty, OF trans_rep_init] fit
    unfolding kds by auto
  show ?thesis
  proof (cases ok)
    case False
    then show ?thesis using l sorted by (simp add: pgwt_compute_transitions_def trans_result_zero_def)
  next
    case True
    then have raw: "trans_rep st (fst ` set ?kds) ?kds" using l(2) by (simp add: kds)
    have "length ?kds < 2 ^ 64" using fit by (simp add: kds_fit_def)
    then have ps: "ps = map accum_slot (qsort cmp_trans_desc (ts_ht st))"
      unfolding ps_def by (rule sorted_links_agree [OF tab raw])
    have n: "length (ts_ht st) = length ps" using trans_ht_length [OF raw] r(2,3) len_ps by simp
    let ?nr = "if int (length ps) < max_rows then int (length ps) else max_rows"
    let ?res = "if ?nr \<noteq> 0 \<and> \<not> te_rows env ?nr then trans_result_zero\<lparr>tx_failed := True\<rparr>
      else \<lparr>tx_rows = map (trans_row full_name) (take (nat ?nr) (qsort cmp_trans_desc (ts_ht st))),
        tx_num_rows = ?nr, tx_total_rows = int (length ps), tx_total_transitions = ts_total st, tx_failed = False\<rparr>"
    have run: "pgwt_compute_transitions env full_name evs f max_rows = Some ?res"
      using l(1) True n by (simp add: pgwt_compute_transitions_def Let_def)
    have fail: "\<not> trans_env_ok env \<or> max_rows < 0" if "?nr \<noteq> 0" "\<not> te_rows env ?nr"
      using that by (auto simp: trans_env_ok_def split: if_splits)
    have "map (slot_row full_name) (take m ps) = map (trans_row full_name) (take m (qsort cmp_trans_desc (ts_ht st)))" for m
      by (simp add: ps take_map slot_row_accum)
    moreover have "ts_total st = tb_count (ba_pairs a)" using trans_repD(7) [OF raw] r(8) by simp
    ultimately show ?thesis
      using run sorted fail by (intro exI [of _ ?res] exI [of _ ps]) (auto simp: trans_result_zero_def)
  qed
qed

section \<open>All files\<close>

text \<open>The records of the window a file contributes and the number it admits, from its records by block.\<close>

definition file_recs :: "pgwt_file_cov \<Rightarrow> (nat \<Rightarrow> pgwt_trace_event list) \<Rightarrow> pgwt_trace_event list" where
  "file_recs fc recs = (case fc_reader fc of None \<Rightarrow> [] | Some r \<Rightarrow> concat (map recs [0..<rd_num_blocks r]))"

definition file_sel :: "u64 \<Rightarrow> u64 \<Rightarrow> pgwt_file_cov \<times> (nat \<Rightarrow> pgwt_trace_event list) \<Rightarrow> pgwt_trace_event list" where
  "file_sel fw tw = (\<lambda>(fc, recs). if \<not> fc_valid fc then [] else
     case file_window fw tw fc of Some (Some (f, t)) \<Rightarrow> win_recs f t (file_recs fc recs) | _ \<Rightarrow> [])"

definition file_adm :: "u64 \<Rightarrow> u64 \<Rightarrow> pgwt_file_cov \<times> (nat \<Rightarrow> pgwt_trace_event list) \<Rightarrow> nat" where
  "file_adm fw tw = (\<lambda>(fc, recs). if \<not> fc_valid fc then 0 else
     case file_window fw tw fc of Some (Some (f, t)) \<Rightarrow> win_admitted f t (file_recs fc recs) | _ \<Rightarrow> 0)"

text \<open>
  What the fast path relies on for one file: it opens, its identity is known, the clock arithmetic stays in
  range, its bounds cover its records, the blocks are sound and the hooks are those of the server's cache.
\<close>

definition cov_sound ::
  "(pgwt_block_identity \<Rightarrow> pgwt_trace_event list) \<Rightarrow> (nat \<Rightarrow> bool) \<Rightarrow> bagg_srv win_env \<Rightarrow> u64 \<Rightarrow> u64
     \<Rightarrow> pgwt_file_cov \<Rightarrow> (nat \<Rightarrow> pgwt_trace_event list) \<Rightarrow> bool" where
  "cov_sound content alloc E fw tw fc recs \<longleftrightarrow>
     hk_lookup E = Some bagg_cache_get \<and> hk_store E = Some (bagg_cache_store alloc) \<and>
     (\<exists>r. fc_reader fc = Some r \<and> pgwt_trace_identity_resolvable (pgwt_trace_identity_of_reader r) \<and>
        (\<forall>ev\<in>set (file_recs fc recs). fc_mono_first fc \<le> timestamp_ns ev \<and> timestamp_ns ev \<le> fc_mono_last fc) \<and>
        (\<forall>b<rd_num_blocks r. \<forall>bi. pgwt_reader_block_info r b = Some bi \<longrightarrow> nfo_block_type bi = 0 \<longrightarrow>
           content (window_block_id r b bi) = recs b) \<and>
        (case file_window fw tw fc of None \<Rightarrow> False | Some None \<Rightarrow> True
         | Some (Some (f, t)) \<Rightarrow> file_sound (cache_inv content) E r f t recs))"

fun covs_sound ::
  "(pgwt_block_identity \<Rightarrow> pgwt_trace_event list) \<Rightarrow> (nat \<Rightarrow> bool) \<Rightarrow> (nat \<Rightarrow> bagg_srv win_env) \<Rightarrow> u64 \<Rightarrow> u64
     \<Rightarrow> nat \<Rightarrow> (pgwt_file_cov \<times> (nat \<Rightarrow> pgwt_trace_event list)) list \<Rightarrow> bool" where
  "covs_sound content alloc E fw tw ci [] = True"
| "covs_sound content alloc E fw tw ci ((fc, recs) # fs) \<longleftrightarrow>
     (fc_valid fc \<longrightarrow> cov_sound content alloc (E ci) fw tw fc recs) \<and> covs_sound content alloc E fw tw (ci + 1) fs"

definition fc_trace :: "pgwt_file_cov \<Rightarrow> u64 \<times> u64" where
  "fc_trace fc = (case fc_reader fc of None \<Rightarrow> (0, 0) | Some r \<Rightarrow> (rd_start_time_ns r, rd_clock_offset_ns r))"

definition fc_blocks :: "pgwt_file_cov \<Rightarrow> nat" where
  "fc_blocks fc = (case fc_reader fc of None \<Rightarrow> 0 | Some r \<Rightarrow> rd_num_blocks r)"

lemma file_window_order:
  assumes "sint fw < sint tw" and "file_window fw tw fc = Some (Some (f, t))"
  shows "f < t"
proof -
  obtain x y where x: "int64_sub tw (fc_canon_offset fc) = Some x" "0 < x" "t = word_of_int x"
    and y: "int64_sub fw (fc_canon_offset fc) = Some y" "f = (if y > 0 then word_of_int y else 0)"
    using assms(2) by (auto simp: file_window_def split: option.splits if_splits)
  have r: "x < 2 ^ 63" "y < x" using x(1) y(1) assms(1) by (auto simp: int64_sub_def Let_def split: if_splits)
  have u: "uint (word_of_int z :: u64) = z" if "0 \<le> z" "z < 2 ^ 63" for z
    using that by (simp add: uint_word_of_int take_bit_eq_mod)
  show ?thesis using x y r u [of x] u [of y] by (auto simp: word_less_def)
qed

text \<open>The state after some files.\<close>

definition cov_inv ::
  "(pgwt_block_identity \<Rightarrow> pgwt_trace_event list) \<Rightarrow> (u64 \<times> u64) set \<Rightarrow> nat \<Rightarrow> pgwt_trace_event list \<Rightarrow> nat
     \<Rightarrow> bagg_srv win_state \<Rightarrow> bool" where
  "cov_inv content T B xs n st \<longleftrightarrow> cache_inv content (ws_ctx st) \<and> bagg_window (ws_acc st) \<and>
     bagg_rep (ws_acc st) xs \<and> keys_from T (ws_acc st) \<and> ws_exact st = of_nat n \<and>
     length (ba_keys (ws_acc st)) \<le> B"

lemma cov_file_spec:
  assumes inv: "cov_inv content T B xs n st" and sound: "cov_sound content alloc E fw tw fc recs"
    and fw: "file_window fw tw fc = Some (Some (f, t))" and ord: "sint fw < sint tw"
    and new: "fc_trace fc \<notin> T" and few: "B + fc_blocks fc < 2 ^ 30"
    and fits: "bagg_fits (xs @ win_recs f t (file_recs fc recs))" and r: "fc_reader fc = Some r"
  shows "\<exists>rc st'. pgwt_block_agg_window_from_reader E r f t st = Some (rc, st') \<and>
    (rc = PGWT_BAGG_OK \<and> cov_inv content (insert (fc_trace fc) T) (B + fc_blocks fc)
       (xs @ win_recs f t (file_recs fc recs)) (n + win_admitted f t (file_recs fc recs)) st' \<or>
     rc = PGWT_BAGG_REFUSED_NOMEM \<and> \<not> win_env_ok E)"
proof -
  have i: "cache_inv content (ws_ctx st)" "bagg_window (ws_acc st)" "bagg_rep (ws_acc st) xs"
    "keys_from T (ws_acc st)" "ws_exact st = of_nat n" "length (ba_keys (ws_acc st)) \<le> B"
    using inv by (simp_all add: cov_inv_def)
  have s: "hk_lookup E = Some bagg_cache_get" "hk_store E = Some (bagg_cache_store alloc)"
    "pgwt_trace_identity_resolvable (pgwt_trace_identity_of_reader r)" "file_sound (cache_inv content) E r f t recs"
    "\<forall>b<rd_num_blocks r. \<forall>bi. pgwt_reader_block_info r b = Some bi \<longrightarrow> nfo_block_type bi = 0 \<longrightarrow>
       content (window_block_id r b bi) = recs b"
    using sound fw r by (auto simp: cov_sound_def)
  have tr: "fc_trace fc = (rd_start_time_ns r, rd_clock_offset_ns r)" "fc_blocks fc = rd_num_blocks r"
    "file_recs fc recs = concat (map recs [0..<rd_num_blocks r])"
    by (simp_all add: r fc_trace_def fc_blocks_def file_recs_def)
  have "keys_below r 0 (ws_acc st)"
    using i(4) new tr(1) by (auto simp: keys_below_def keys_from_def list_all_iff)
  moreover have "keys_from (insert (fc_trace fc) T) (ws_acc st)"
    using i(4) by (auto simp: keys_from_def list_all_iff)
  ultimately have bw: "bwin_inv (cache_inv content) r (insert (fc_trace fc) T) (B + fc_blocks fc) 0 xs n st"
    using i few tr by (simp add: bwin_inv_def)
  have nb: "rd_num_blocks r < 2 ^ 31" using few tr(2) by simp
  obtain rc st' where l: "window_loop E r f t [0..<rd_num_blocks r] st = Some (rc, st')"
    "rc = PGWT_BAGG_OK \<and> bwin_inv (cache_inv content) r (insert (fc_trace fc) T) (B + fc_blocks fc) (rd_num_blocks r)
       (xs @ win_recs f t (file_recs fc recs)) (n + win_admitted f t (file_recs fc recs)) st' \<or>
     rc = PGWT_BAGG_REFUSED_NOMEM \<and> \<not> win_env_ok E"
    using srv_cache.window_loop_spec [OF bw le0 nb s(4,5,1,2) file_window_order [OF ord fw]] fits unfolding tr(3) by blast
  have "\<not> t \<le> f" using file_window_order [OF ord fw] by (simp add: not_le)
  then have "pgwt_block_agg_window_from_reader E r f t st = Some (rc, st')"
    using l(1) s(3) i(2) by (simp add: pgwt_block_agg_window_from_reader_def bagg_window_def)
  then show ?thesis using l(2) by (auto simp: bwin_inv_def cov_inv_def)
qed

lemma cov_loop_spec:
  assumes "cov_inv content T B xs n st" and "covs_sound content alloc E fw tw ci fs" and "sint fw < sint tw"
    and "distinct (map (\<lambda>p. fc_trace (fst p)) (filter (\<lambda>p. fc_valid (fst p)) fs))"
    and "\<forall>p\<in>set fs. fc_valid (fst p) \<longrightarrow> fc_trace (fst p) \<notin> T"
    and "B + sum_list (map (\<lambda>p. fc_blocks (fst p)) fs) < 2 ^ 30"
    and "bagg_fits (xs @ concat (map (file_sel fw tw) fs))"
  shows "\<exists>rc st'. cov_loop E fw tw ci (map fst fs) st = Some (rc, st') \<and>
    (rc = PGWT_BAGG_OK \<and> (\<exists>T B. cov_inv content T B (xs @ concat (map (file_sel fw tw) fs))
       (n + sum_list (map (file_adm fw tw) fs)) st') \<or>
     rc = PGWT_BAGG_REFUSED_NOMEM \<and> (\<exists>ci. \<not> win_env_ok (E ci)))"
  using assms
proof (induction fs arbitrary: T B xs n st ci)
  case Nil
  then show ?case by auto
next
  case (Cons p fs)
  obtain fc recs where p: "p = (fc, recs)" by (cases p)
  let ?rest = "concat (map (file_sel fw tw) fs)"
  have rest: "covs_sound content alloc E fw tw (ci + 1) fs"
    "distinct (map (\<lambda>p. fc_trace (fst p)) (filter (\<lambda>p. fc_valid (fst p)) fs))"
    "\<forall>p\<in>set fs. fc_valid (fst p) \<longrightarrow> fc_trace (fst p) \<notin> T" "B + sum_list (map (\<lambda>p. fc_blocks (fst p)) fs) < 2 ^ 30"
    using Cons.prems(2,4-6) by (auto simp: p split: if_splits)
  have skip: ?case if none: "file_sel fw tw p = []" "file_adm fw tw p = 0"
    and run: "cov_loop E fw tw ci (map fst (p # fs)) st = cov_loop E fw tw (ci + 1) (map fst fs) st"
    using Cons.IH [OF Cons.prems(1) rest(1) Cons.prems(3) rest(2-4)] Cons.prems(7) none run by simp
  show ?case
  proof (cases "fc_valid fc")
    case False
    then show ?thesis by (intro skip) (simp_all add: p file_sel_def file_adm_def)
  next
    case valid: True
    have sound: "cov_sound content alloc (E ci) fw tw fc recs" using Cons.prems(2) valid by (simp add: p)
    then obtain r where r: "fc_reader fc = Some r" "file_window fw tw fc \<noteq> None"
      "\<forall>ev\<in>set (file_recs fc recs). fc_mono_first fc \<le> timestamp_ns ev \<and> timestamp_ns ev \<le> fc_mono_last fc"
      by (auto simp: cov_sound_def split: option.splits)
    then consider "file_window fw tw fc = Some None"
      | f t where "file_window fw tw fc = Some (Some (f, t))"
          "\<not> pgwt_block_agg_file_can_contribute (fc_mono_first fc) (fc_mono_last fc) f t"
      | f t where "file_window fw tw fc = Some (Some (f, t))"
          "pgwt_block_agg_file_can_contribute (fc_mono_first fc) (fc_mono_last fc) f t" by fastforce
    then show ?thesis
    proof cases
      case 1
      then show ?thesis using valid by (intro skip) (simp_all add: p file_sel_def file_adm_def)
    next
      case (2 f t)
      from skip_nothing [OF 2(2) r(3)] show ?thesis
        using 2 valid by (intro skip) (simp_all add: p file_sel_def file_adm_def)
    next
      case (3 f t)
      have sel: "file_sel fw tw p = win_recs f t (file_recs fc recs)" "file_adm fw tw p = win_admitted f t (file_recs fc recs)"
        using 3(1) valid by (simp_all add: p file_sel_def file_adm_def)
      have fit: "bagg_fits ((xs @ win_recs f t (file_recs fc recs)) @ ?rest)" using Cons.prems(7) sel(1) by simp
      have new: "fc_trace fc \<notin> T" using Cons.prems(5) valid by (simp add: p)
      have few: "B + fc_blocks fc < 2 ^ 30" using Cons.prems(6) by (simp add: p)
      obtain rc st' where w: "pgwt_block_agg_window_from_reader (E ci) r f t st = Some (rc, st')"
        "rc = PGWT_BAGG_OK \<and> cov_inv content (insert (fc_trace fc) T) (B + fc_blocks fc)
           (xs @ win_recs f t (file_recs fc recs)) (n + win_admitted f t (file_recs fc recs)) st' \<or>
         rc = PGWT_BAGG_REFUSED_NOMEM \<and> \<not> win_env_ok (E ci)"
        using cov_file_spec [OF Cons.prems(1) sound 3(1) Cons.prems(3) new few bagg_fits_prefix [OF fit] r(1)] by blast
      show ?thesis
      proof (cases "rc = PGWT_BAGG_OK")
        case False
        then show ?thesis using w valid 3 r(1) by (auto simp: p)
      next
        case True
        then have ok: "cov_inv content (insert (fc_trace fc) T) (B + fc_blocks fc)
           (xs @ win_recs f t (file_recs fc recs)) (n + win_admitted f t (file_recs fc recs)) st'" using w(2) by simp
        have "\<forall>q\<in>set fs. fc_valid (fst q) \<longrightarrow> fc_trace (fst q) \<notin> insert (fc_trace fc) T"
          using rest(3) Cons.prems(4) valid by (auto simp: p image_iff)
        moreover have "B + fc_blocks fc + sum_list (map (\<lambda>p. fc_blocks (fst p)) fs) < 2 ^ 30"
          using Cons.prems(6) by (simp add: p)
        ultimately show ?thesis
          using Cons.IH [OF ok rest(1) Cons.prems(3) rest(2) _ _ fit] w(1) True valid 3 r(1) sel
          by (simp add: p add.assoc)
      qed
    qed
  qed
qed

section \<open>Properties\<close>


definition unfiltered :: pgwt_filter where
  "unfiltered = \<lparr>f_class_name = [], f_event_id = 0, f_has_event_filter = False, f_pid = 0, f_query_id = 0\<rparr>"

definition demo_cov :: pgwt_file_cov where
  "demo_cov = \<lparr>fc_valid = True, fc_canon_offset = 0, fc_mono_first = 10, fc_mono_last = 20,
     fc_reader = Some demo_reader\<rparr>"

lemma demo_window: "file_window 0 20 demo_cov = Some (Some (0, 20))"
  by code_simp


end
