(* ===== verification/C_String.thy ===== *)
theory C_String
  imports Prelude
begin

text \<open>
  What the program uses of C strings: the character classes of the C locale, bytes read up to the
  terminator, scanning loops, and the number conversions of the C library. A string is the list of its
  bytes before the terminator.
\<close>

section \<open>Character classes\<close>

definition isdigit :: "u8 \<Rightarrow> bool" where
  "isdigit c \<longleftrightarrow> 48 \<le> c \<and> c \<le> 57"

definition isalpha :: "u8 \<Rightarrow> bool" where
  "isalpha c \<longleftrightarrow> (65 \<le> c \<and> c \<le> 90) \<or> (97 \<le> c \<and> c \<le> 122)"

definition isalnum :: "u8 \<Rightarrow> bool" where
  "isalnum c \<longleftrightarrow> isalpha c \<or> isdigit c"

definition isxdigit :: "u8 \<Rightarrow> bool" where
  "isxdigit c \<longleftrightarrow> isdigit c \<or> (65 \<le> c \<and> c \<le> 70) \<or> (97 \<le> c \<and> c \<le> 102)"

definition isspace :: "u8 \<Rightarrow> bool" where
  "isspace c \<longleftrightarrow> c = 32 \<or> (9 \<le> c \<and> c \<le> 13)"

definition tolower :: "u8 \<Rightarrow> u8" where
  "tolower c = (if 65 \<le> c \<and> c \<le> 90 then c + 32 else c)"

section \<open>Bytes\<close>

text \<open>The bytes of an ASCII text.\<close>

definition bytes_of :: "string \<Rightarrow> u8 list" where
  "bytes_of = map of_char"

definition byte_at :: "u8 list \<Rightarrow> nat \<Rightarrow> u8" where
  "byte_at s i = (if i < length s then s ! i else 0)"

lemma at_nonzero_less: "byte_at s i \<noteq> 0 \<Longrightarrow> i < length s"
  by (simp add: byte_at_def split: if_splits)

lemma at_quote_less:
  "byte_at s i = 39 \<Longrightarrow> i < length s"
  "byte_at s i = 34 \<Longrightarrow> i < length s"
  by (simp_all add: byte_at_def split: if_splits)

text \<open>The loops \<open>while (P(s[i])) i++\<close>, for classes that do not hold the terminator.\<close>

function skip_while :: "(u8 \<Rightarrow> bool) \<Rightarrow> u8 list \<Rightarrow> nat \<Rightarrow> nat" where
  "skip_while P s i = (if byte_at s i \<noteq> 0 \<and> P (byte_at s i) then skip_while P s (i + 1) else i)"
  by pat_completeness auto
termination
  by (relation "measure (\<lambda>(P, s, i). length s - i)") (auto dest!: at_nonzero_less)

declare skip_while.simps [simp del]

lemma skip_while_ge: "i \<le> skip_while P s i"
proof (induction P s i rule: skip_while.induct)
  case (1 P s i)
  then show ?case by (cases "byte_at s i \<noteq> 0 \<and> P (byte_at s i)") (auto simp: skip_while.simps [of P s i])
qed

lemma skip_while_gt: "i < k \<Longrightarrow> i < skip_while P s k"
  using skip_while_ge [of k P s] by simp

section \<open>Number conversion\<close>

text \<open>
  \<open>strtoull(s, &end, 10)\<close>: the value, the rest of the text (the whole text when no digit was found) and
  whether \<open>errno\<close> was set. A minus sign negates in the unsigned type.
\<close>

definition dec_value :: "u8 list \<Rightarrow> int" where
  "dec_value ds = foldl (\<lambda>v d. 10 * v + uint (d - 48)) 0 ds"

definition strip_sign :: "u8 list \<Rightarrow> bool \<times> u8 list" where
  "strip_sign s = (case s of
     c # r \<Rightarrow> if c = 45 then (True, r) else if c = 43 then (False, r) else (False, s)
   | [] \<Rightarrow> (False, s))"

definition strtoull :: "u8 list \<Rightarrow> u64 \<times> u8 list \<times> bool" where
  "strtoull s =
    (let (neg, r) = strip_sign (dropWhile isspace s);
         ds = takeWhile isdigit r; v = dec_value ds
     in if ds = [] then (0, s, False)
        else if v \<ge> 2 ^ 64 then (UINT64_MAX, dropWhile isdigit r, True)
        else ((if neg then - of_int v else of_int v), dropWhile isdigit r, False))"

definition strtoll :: "u8 list \<Rightarrow> int \<times> u8 list \<times> bool" where
  "strtoll s =
    (let (neg, r) = strip_sign (dropWhile isspace s);
         ds = takeWhile isdigit r; v = dec_value ds
     in if ds = [] then (0, s, False)
        else if neg \<and> v > 2 ^ 63 then (- (2 ^ 63), dropWhile isdigit r, True)
        else if \<not> neg \<and> v \<ge> 2 ^ 63 then (2 ^ 63 - 1, dropWhile isdigit r, True)
        else ((if neg then - v else v), dropWhile isdigit r, False))"

text \<open>The decimal digits of a number, as \<open>printf\<close> writes them.\<close>

fun dec :: "nat \<Rightarrow> u8 list" where
  "dec n = (if n < 10 then [48 + of_nat n] else dec (n div 10) @ [48 + of_nat (n mod 10)])"

declare dec.simps [simp del]

lemma dec_digit: "k < 10 \<Longrightarrow> isdigit (48 + of_nat k) \<and> uint (48 + of_nat k - 48 :: u8) = int k"
proof -
  assume k: "k < 10"
  have "unat (48 + of_nat k :: u8) = 48 + k"
    using k by (simp add: unat_word_ariths unat_of_nat)
  then show ?thesis
    using k by (simp add: isdigit_def word_le_nat_alt unat_of_nat uint_nat)
qed

lemma dec_digits: "c \<in> set (dec n) \<Longrightarrow> isdigit c"
proof (induction n rule: dec.induct)
  case (1 n)
  then show ?case using dec_digit [of n] dec_digit [of "n mod 10"] by (auto simp: dec.simps [of n] split: if_splits)
qed

lemma dec_nonempty: "dec n \<noteq> []"
  by (simp add: dec.simps [of n])

lemma dec_value_snoc: "dec_value (ds @ [d]) = 10 * dec_value ds + uint (d - 48)"
  by (simp add: dec_value_def)

lemma dec_value_dec: "dec_value (dec n) = int n"
proof (induction n rule: dec.induct)
  case (1 n)
  then show ?case
    using dec_digit [of n] dec_digit [of "n mod 10"]
    by (cases "n < 10") (simp_all add: dec.simps [of n] dec_value_snoc, simp_all add: dec_value_def zdiv_int zmod_int)
qed

lemma span_dec:
  assumes "r = [] \<or> \<not> isdigit (hd r)"
  shows "takeWhile isdigit (dec n @ r) = dec n" "dropWhile isdigit (dec n @ r) = r"
  using dec_digits [of _ n] assms
  by (auto simp: takeWhile_append2 dropWhile_append2 takeWhile_eq_Nil_iff dropWhile_eq_self_iff)

lemma strtoull_dec:
  assumes "n < 2 ^ 64" "r = [] \<or> \<not> isdigit (hd r)"
  shows "strtoull (dec n @ r) = (of_nat n, r, False)"
proof -
  obtain c cs where c: "dec n = c # cs" using dec_nonempty by (cases "dec n") auto
  then have "isdigit c" using dec_digits [of c n] by simp
  then have "\<not> isspace c" "c \<noteq> 45" "c \<noteq> 43" by (auto simp: isdigit_def isspace_def word_le_nat_alt)
  then have "strip_sign (dropWhile isspace (dec n @ r)) = (False, dec n @ r)"
    by (simp add: c strip_sign_def)
  then show ?thesis
    using assms(1) span_dec [OF assms(2)] by (simp add: strtoull_def dec_value_dec dec_nonempty)
qed

end
