(* ===== verification/Synthetic_Query.thy ===== *)
theory Synthetic_Query
  imports C_String
begin

text \<open>
  Grouping of PG13 statements by normalised text (synthetic_query.c): the scanner that drops comments,
  collapses blanks and replaces literals by a placeholder, the versioned FNV-1a key over database, user
  and text, and the per-backend cache the 10 Hz sampler keeps. A \<open>char *\<close> is the list of its bytes,
  read as zero from its end on (\<open>byte_at\<close>); the output buffer is the list of the bytes before its
  terminator, and a scan that returns 0 hands back what the buffer held then (\<open>Inl\<close>). The character
  classes are those of the C locale, the only one the program runs in. \<open>literal_contents_irrelevant\<close>
  says that what stands inside a quoted literal cannot influence text or key, \<open>synthetic_cache_refines\<close>
  that the cache answers every sequence of calls as the one-shot helper does, and works again exactly
  when the activity changed.
\<close>

section \<open>Character classes\<close>

definition word_boundary :: "u8 \<Rightarrow> bool" where
  "word_boundary c \<longleftrightarrow> \<not> (isalnum c \<or> c \<ge> 0x80 \<or> c = 95 \<or> c = 36)"

definition identifier_start :: "u8 \<Rightarrow> bool" where
  "identifier_start c \<longleftrightarrow> isalpha c \<or> c \<ge> 0x80 \<or> c = 95"

definition identifier_cont :: "u8 \<Rightarrow> bool" where
  "identifier_cont c \<longleftrightarrow> isalnum c \<or> c \<ge> 0x80 \<or> c = 95 \<or> c = 36"

text \<open>\<open>strchr\<close> finds the terminator too, so the zero byte counts as punctuation.\<close>

definition tight_punctuation :: "u8 \<Rightarrow> bool" where
  "tight_punctuation c \<longleftrightarrow> c \<in> set [44, 40, 41, 91, 93, 61, 60, 62, 43, 45, 42, 47, 37, 94, 59, 58, 46, 0]"

definition keyword_literal :: "u8 list \<Rightarrow> bool" where
  "keyword_literal w \<longleftrightarrow> map tolower w \<in> set
    [[110, 117, 108, 108], [116, 114, 117, 101], [102, 97, 108, 115, 101]]"

section \<open>The output buffer\<close>

type_synonym buffer = "u8 list"

text \<open>\<open>Inl\<close> is the return value -1 with the buffer as it is, \<open>Inr\<close> the buffer with the byte appended.\<close>

definition append_char :: "buffer \<Rightarrow> nat \<Rightarrow> u8 \<Rightarrow> buffer + buffer" where
  "append_char out out_size c =
    (if length out + 1 \<ge> out_size then Inl out else Inr (out @ [c]))"

definition append_space :: "buffer \<Rightarrow> nat \<Rightarrow> buffer + buffer" where
  "append_space out out_size =
    (if out = [] \<or> last out = 32 then Inr out else append_char out out_size 32)"

definition append_placeholder :: "buffer \<Rightarrow> nat \<Rightarrow> buffer + buffer" where
  "append_placeholder out out_size =
    (if out \<noteq> [] \<and> last out = 63 then Inr out else append_char out out_size 63)"

fun append_chars :: "buffer \<Rightarrow> nat \<Rightarrow> u8 list \<Rightarrow> buffer + buffer" where
  "append_chars out out_size [] = Inr out"
| "append_chars out out_size (c # cs) =
    (case append_char out out_size c of Inl b \<Rightarrow> Inl b | Inr b \<Rightarrow> append_chars b out_size cs)"

section \<open>Reading the text\<close>

function skip_single_quote_loop :: "u8 list \<Rightarrow> nat \<Rightarrow> nat" where
  "skip_single_quote_loop s i =
    (if byte_at s i = 0 then i
     else if byte_at s i = 92 \<and> byte_at s (i + 1) \<noteq> 0 then skip_single_quote_loop s (i + 2)
     else if byte_at s i = 39
       then if byte_at s (i + 1) = 39 then skip_single_quote_loop s (i + 2) else i + 1
     else skip_single_quote_loop s (i + 1))"
  by pat_completeness auto
termination
  by (relation "measure (\<lambda>(s, i). length s - i)")
    (auto dest!: at_nonzero_less dest: at_quote_less)

definition skip_single_quote :: "u8 list \<Rightarrow> nat \<Rightarrow> nat" where
  "skip_single_quote s i = skip_single_quote_loop s (i + 1)"

text \<open>\<open>Inl\<close> is the return value 0: no room, or text that ends inside the identifier.\<close>

function copy_quoted_loop :: "u8 list \<Rightarrow> nat \<Rightarrow> buffer \<Rightarrow> nat \<Rightarrow> buffer + (nat \<times> buffer)" where
  "copy_quoted_loop s i out out_size =
    (if byte_at s i = 0 then Inl out
     else case append_char out out_size (byte_at s i) of
       Inl b \<Rightarrow> Inl b
     | Inr b \<Rightarrow>
         if byte_at s i = 34
         then if byte_at s (i + 1) = 34
           then case append_char b out_size (byte_at s (i + 1)) of
               Inl b' \<Rightarrow> Inl b'
             | Inr b' \<Rightarrow> copy_quoted_loop s (i + 2) b' out_size
           else Inr (i + 1, b)
         else copy_quoted_loop s (i + 1) b out_size)"
  by pat_completeness auto
termination
  by (relation "measure (\<lambda>(s, i, _). length s - i)")
    (auto dest!: at_nonzero_less dest: at_quote_less)

definition copy_quoted_identifier ::
    "u8 list \<Rightarrow> nat \<Rightarrow> buffer \<Rightarrow> nat \<Rightarrow> buffer + (nat \<times> buffer)" where
  "copy_quoted_identifier s i out out_size =
    (case append_char out out_size (byte_at s i) of
       Inl b \<Rightarrow> Inl b
     | Inr b \<Rightarrow> copy_quoted_loop s (i + 1) b out_size)"

definition tag_cont :: "u8 \<Rightarrow> bool" where
  "tag_cont c \<longleftrightarrow> isalnum c \<or> c \<ge> 0x80 \<or> c = 95"

text \<open>The tag that starts at position i, as the C function sees it through \<open>input + i\<close>.\<close>

definition dollar_tag_len :: "u8 list \<Rightarrow> nat \<Rightarrow> nat" where
  "dollar_tag_len s i =
    (if byte_at s i \<noteq> 36 then 0
     else if byte_at s (i + 1) = 36 then 2
     else if \<not> (isalpha (byte_at s (i + 1)) \<or> byte_at s (i + 1) \<ge> 0x80 \<or> byte_at s (i + 1) = 95) then 0
     else let j = skip_while tag_cont s (i + 2) in
       if byte_at s j = 36 then j - i + 1 else 0)"

text \<open>\<open>strncmp(s + a, s + b, n) == 0\<close> for a tag at b that holds no terminator.\<close>

definition same_bytes :: "u8 list \<Rightarrow> nat \<Rightarrow> nat \<Rightarrow> nat \<Rightarrow> bool" where
  "same_bytes s a b n \<longleftrightarrow> list_all (\<lambda>k. byte_at s (a + k) = byte_at s (b + k)) [0..<n]"

function dollar_end :: "u8 list \<Rightarrow> nat \<Rightarrow> nat \<Rightarrow> nat \<Rightarrow> nat" where
  "dollar_end s i tag_len e =
    (if byte_at s e \<noteq> 0 \<and> \<not> same_bytes s e i tag_len then dollar_end s i tag_len (e + 1) else e)"
  by pat_completeness auto
termination
  by (relation "measure (\<lambda>(s, i, tag_len, e). length s - e)") (auto dest!: at_nonzero_less)

definition digit_or_underscore :: "u8 \<Rightarrow> bool" where
  "digit_or_underscore c \<longleftrightarrow> isdigit c \<or> c = 95"

definition skip_exponent :: "u8 list \<Rightarrow> nat \<Rightarrow> nat" where
  "skip_exponent s i =
    (if byte_at s i = 101 \<or> byte_at s i = 69
     then let j = (if byte_at s (i + 1) = 43 \<or> byte_at s (i + 1) = 45 then i + 2 else i + 1) in
       if \<not> isdigit (byte_at s j) then i else skip_while digit_or_underscore s j
     else i)"

definition skip_number :: "u8 list \<Rightarrow> nat \<Rightarrow> nat" where
  "skip_number s i =
    (if byte_at s i = 46 then skip_exponent s (skip_while digit_or_underscore s (i + 1))
     else if byte_at s i = 48 \<and> (byte_at s (i + 1) = 120 \<or> byte_at s (i + 1) = 88)
       then skip_while (\<lambda>c. isxdigit c \<or> c = 95) s (i + 2)
     else let j = skip_while digit_or_underscore s i in
       skip_exponent s
        (if byte_at s j = 46 \<and> byte_at s (j + 1) \<noteq> 46 then skip_while digit_or_underscore s (j + 1) else j))"

section \<open>The scanner\<close>

definition at_boundary :: "u8 list \<Rightarrow> nat \<Rightarrow> bool" where
  "at_boundary s i \<longleftrightarrow> i = 0 \<or> word_boundary (byte_at s (i - 1))"

text \<open>Resumption of the loop at a position, in code (depth 0) or a comment, unless an append failed.\<close>

definition resume :: "nat \<Rightarrow> nat \<Rightarrow> buffer + buffer \<Rightarrow> buffer + (nat \<times> nat \<times> buffer)" where
  "resume i depth r = (case r of Inl b \<Rightarrow> Inl b | Inr b \<Rightarrow> Inr (i, depth, b))"

definition comment_step :: "u8 list \<Rightarrow> nat \<Rightarrow> nat \<Rightarrow> nat \<Rightarrow> buffer \<Rightarrow> buffer + (nat \<times> nat \<times> buffer)" where
  "comment_step s out_size i depth out =
    (if byte_at s i = 47 \<and> byte_at s (i + 1) = 42 then Inr (i + 2, depth + 1, out)
     else if byte_at s i = 42 \<and> byte_at s (i + 1) = 47
       then if depth - 1 = 0 then resume (i + 2) 0 (append_space out out_size)
         else Inr (i + 2, depth - 1, out)
     else Inr (i + 1, depth, out))"

definition space_step :: "u8 list \<Rightarrow> nat \<Rightarrow> nat \<Rightarrow> buffer \<Rightarrow> buffer + (nat \<times> nat \<times> buffer)" where
  "space_step s out_size i out =
    (let next = skip_while isspace s (i + 1) in
     if out \<noteq> [] \<and> \<not> tight_punctuation (last out) \<and> byte_at s next \<noteq> 0 \<and>
        \<not> tight_punctuation (byte_at s next)
     then resume (i + 1) 0 (append_space out out_size)
     else Inr (i + 1, 0, out))"

definition dollar_step ::
    "u8 list \<Rightarrow> nat \<Rightarrow> nat \<Rightarrow> nat \<Rightarrow> buffer \<Rightarrow> buffer + (nat \<times> nat \<times> buffer)" where
  "dollar_step s out_size tag_len i out =
    (let e = dollar_end s i tag_len (i + tag_len) in
     if byte_at s e = 0 then Inl out
     else resume (e + tag_len) 0 (append_placeholder out out_size))"

definition identifier_step :: "u8 list \<Rightarrow> nat \<Rightarrow> nat \<Rightarrow> buffer \<Rightarrow> buffer + (nat \<times> nat \<times> buffer)" where
  "identifier_step s out_size i out =
    (let j = skip_while identifier_cont s (i + 1);
         w = map (byte_at s) [i..<j]
     in resume j 0
       (if keyword_literal w then append_placeholder out out_size else append_chars out out_size w))"

definition other_step :: "u8 list \<Rightarrow> nat \<Rightarrow> nat \<Rightarrow> buffer \<Rightarrow> buffer + (nat \<times> nat \<times> buffer)" where
  "other_step s out_size i out =
    (let b = (if tight_punctuation (byte_at s i) \<and> out \<noteq> [] \<and> last out = 32 then butlast out else out)
     in resume (i + 1) 0 (append_char b out_size (byte_at s i)))"

text \<open>One turn of the loop of \<open>pgwt_pg13_normalize_query\<close>; \<open>Inl\<close> is its return of 0.\<close>

definition normalize_step ::
    "u8 list \<Rightarrow> nat \<Rightarrow> nat \<Rightarrow> nat \<Rightarrow> buffer \<Rightarrow> buffer + (nat \<times> nat \<times> buffer)" where
  "normalize_step s out_size i depth out =
    (let c = byte_at s i in
     if depth \<noteq> 0 then comment_step s out_size i depth out
     else if c = 45 \<and> byte_at s (i + 1) = 45
       then resume (skip_while (\<lambda>x. x \<noteq> 10 \<and> x \<noteq> 13) s (i + 2)) 0 (append_space out out_size)
     else if c = 47 \<and> byte_at s (i + 1) = 42 then Inr (i + 2, 1, out)
     else if isspace c then space_step s out_size i out
     else if c = 34
       then (case copy_quoted_identifier s i out out_size of
               Inl b \<Rightarrow> Inl b
             | Inr (j, b) \<Rightarrow> Inr (j, 0, b))
     else if c \<in> set [101, 69, 98, 66, 120, 88] \<and> byte_at s (i + 1) = 39 \<and> at_boundary s i
       then resume (skip_single_quote s (i + 1)) 0 (append_placeholder out out_size)
     else if (c = 117 \<or> c = 85) \<and> byte_at s (i + 1) = 38 \<and> byte_at s (i + 2) = 39 \<and> at_boundary s i
       then resume (skip_single_quote s (i + 2)) 0 (append_placeholder out out_size)
     else if c = 39
       then resume (skip_single_quote s i) 0 (append_placeholder out out_size)
     else if dollar_tag_len s i \<noteq> 0 then dollar_step s out_size (dollar_tag_len s i) i out
     else if isdigit c \<and> at_boundary s i
       then resume (skip_number s i) 0 (append_placeholder out out_size)
     else if c = 46 \<and> isdigit (byte_at s (i + 1)) \<and>
         (i = 0 \<or> byte_at s (i - 1) \<noteq> 46 \<and> word_boundary (byte_at s (i - 1)))
       then resume (skip_number s i) 0 (append_placeholder out out_size)
     else if identifier_start c then identifier_step s out_size i out
     else other_step s out_size i out)"

section \<open>Progress\<close>

declare skip_single_quote_loop.simps [simp del]
  copy_quoted_loop.simps [simp del] dollar_end.simps [simp del]

lemma skip_single_quote_loop_ge: "i \<le> skip_single_quote_loop s i"
proof (induction s i rule: skip_single_quote_loop.induct)
  case (1 s i)
  then show ?case by (subst skip_single_quote_loop.simps) auto
qed

lemma skip_single_quote_gt: "i < k + 1 \<Longrightarrow> i < skip_single_quote s k"
  using skip_single_quote_loop_ge [of "k + 1" s] by (simp add: skip_single_quote_def)

lemma copy_quoted_loop_gt: "copy_quoted_loop s i out n = Inr (j, b) \<Longrightarrow> i < j"
proof (induction s i out n rule: copy_quoted_loop.induct)
  case (1 s i out n)
  from "1.prems" "1.IH" show ?case
    unfolding copy_quoted_loop.simps [of s i out n]
    by (auto split: if_splits sum.splits intro: Suc_lessD [OF Suc_lessD])
qed

lemma copy_quoted_identifier_gt: "copy_quoted_identifier s i out n = Inr (j, b) \<Longrightarrow> i < j"
  by (auto simp: copy_quoted_identifier_def split: sum.splits dest!: copy_quoted_loop_gt)

lemma dollar_end_ge: "e \<le> dollar_end s i n e"
proof (induction s i n e rule: dollar_end.induct)
  case (1 s i n e)
  then show ?case by (subst dollar_end.simps) auto
qed

lemma skip_exponent_ge: "i \<le> skip_exponent s i"
  using skip_while_ge [of "i + 1" digit_or_underscore s] skip_while_ge [of "i + 2" digit_or_underscore s]
  by (auto simp: skip_exponent_def Let_def)

lemma skip_number_gt:
  assumes "isdigit (byte_at s i) \<or> byte_at s i = 46"
  shows "i < skip_number s i"
proof -
  have nz: "byte_at s i \<noteq> 0" using assms by (auto simp: isdigit_def)
  have d: "i < skip_while digit_or_underscore s i" if "isdigit (byte_at s i)"
    using that nz skip_while_gt [of i "i + 1"]
    by (subst skip_while.simps) (simp add: digit_or_underscore_def)
  have n46: "\<not> isdigit 46" by (simp add: isdigit_def)
  show ?thesis
    using assms d skip_while_gt [of i "i + 1" digit_or_underscore s] n46
      skip_while_gt [of i "i + 2" "\<lambda>c. isxdigit c \<or> c = 95" s]
      skip_while_ge [of "skip_while digit_or_underscore s i + 1" digit_or_underscore s]
    by (auto simp: skip_number_def Let_def intro: less_le_trans [OF _ skip_exponent_ge])
qed

lemma resume_Inr: "resume i d r = Inr (j, d', b) \<longleftrightarrow> j = i \<and> d' = d \<and> r = Inr b"
  by (cases r) (auto simp: resume_def)

lemma normalize_step_gt: "normalize_step s n i d out = Inr (j, d', b) \<Longrightarrow> i < j"
  using dollar_end_ge [of "i + dollar_tag_len s i" s i "dollar_tag_len s i"]
  by (auto simp: normalize_step_def comment_step_def space_step_def dollar_step_def
      identifier_step_def other_step_def resume_Inr Let_def skip_while_gt skip_single_quote_gt
      skip_number_gt split: if_splits sum.splits dest!: copy_quoted_identifier_gt)

section \<open>Normalisation, key and cache\<close>

function normalize_loop :: "u8 list \<Rightarrow> nat \<Rightarrow> nat \<Rightarrow> nat \<Rightarrow> buffer \<Rightarrow> buffer + (nat \<times> buffer)" where
  "normalize_loop s out_size i depth out =
    (if byte_at s i = 0 then Inr (depth, out)
     else case normalize_step s out_size i depth out of
       Inl b \<Rightarrow> Inl b
     | Inr (j, d, b) \<Rightarrow> normalize_loop s out_size j d b)"
  by pat_completeness auto
termination
  by (relation "measure (\<lambda>(s, n, i, _). length s - i)")
    (auto dest!: at_nonzero_less normalize_step_gt)

declare normalize_loop.simps [simp del]

definition trim_right :: "buffer \<Rightarrow> buffer" where
  "trim_right out = rev (dropWhile (\<lambda>c. c = 32) (rev out))"

text \<open>A null pointer is \<open>None\<close>; the second component is the buffer the call leaves.\<close>

definition pgwt_pg13_normalize_query ::
    "u8 list option \<Rightarrow> buffer option \<Rightarrow> nat \<Rightarrow> nat \<times> buffer option" where
  "pgwt_pg13_normalize_query input output output_size =
    (case (input, output) of
       (Some s, Some _) \<Rightarrow>
         if output_size < 2 then (0, output)
         else (case normalize_loop s output_size 0 0 [] of
             Inl b \<Rightarrow> (0, Some b)
           | Inr (depth, b) \<Rightarrow>
               if depth \<noteq> 0 then (0, Some b)
               else (length (trim_right b), Some (trim_right b)))
     | _ \<Rightarrow> (0, output))"

definition fnv1a :: "u64 \<Rightarrow> u8 list \<Rightarrow> u64" where
  "fnv1a hash data = foldl (\<lambda>h p. (h XOR ucast p) * 1099511628211) hash data"

text \<open>The bytes of \<open>PGWT_PG13_SYNTH_VERSION\<close> with the terminator.\<close>

definition synth_domain :: "u8 list" where
  "synth_domain = [112, 103, 49, 51, 45, 115, 121, 110, 116, 104, 45, 118, 49, 0]"

definition be_bytes :: "u32 \<Rightarrow> u8 list" where
  "be_bytes x = [ucast (drop_bit 24 x), ucast (drop_bit 16 x), ucast (drop_bit 8 x), ucast x]"

definition pgwt_pg13_synthetic_key :: "u32 \<Rightarrow> u32 \<Rightarrow> buffer option \<Rightarrow> u64" where
  "pgwt_pg13_synthetic_key databaseid userid normalized =
    (case normalized of
       None \<Rightarrow> 0
     | Some t \<Rightarrow>
         if databaseid = 0 \<or> userid = 0 \<or> byte_at t 0 = 0 then 0
         else let hash = fnv1a 14695981039346656037 synth_domain;
                  hash = fnv1a hash (be_bytes databaseid @ be_bytes userid);
                  hash = fnv1a hash t
              in if hash \<noteq> 0 then hash else 1)"

text \<open>The result is success, \<open>*key\<close> and the buffer; \<open>want_key\<close> says the key pointer is not null.\<close>

definition pgwt_pg13_synthetic_query ::
    "u32 \<Rightarrow> u32 \<Rightarrow> u8 list option \<Rightarrow> buffer option \<Rightarrow> nat \<Rightarrow> bool \<Rightarrow> bool \<times> u64 \<times> buffer option" where
  "pgwt_pg13_synthetic_query databaseid userid activity normalized normalized_size want_key =
    (let (n, b) = pgwt_pg13_normalize_query activity normalized normalized_size in
     if n = 0 \<or> \<not> want_key then (False, 0, b)
     else let key = pgwt_pg13_synthetic_key databaseid userid b in (key \<noteq> 0, key, b))"

definition PGWT_PG13_SYNTH_TEXT_MAX :: nat where
  [pgwt_const]: "PGWT_PG13_SYNTH_TEXT_MAX = 4096"

record pgwt_pg13_synthetic_cache =
  sc_databaseid :: u32
  sc_userid :: u32
  sc_query_id :: u64
  sc_valid :: bool
  sc_activity :: "u8 list"
  sc_normalized :: buffer

record synth_reply =
  sy_ok :: bool
  sy_normalized :: "buffer option"
  sy_key :: u64
  sy_hit :: bool

text \<open>
  The text of the reply is what the returned pointer shows: the buffer of the cache. \<open>ptrs\<close> says
  that cache, result and key pointers are not null; activities are C strings, so that equality of the
  lists is \<open>strcmp\<close>.
\<close>

definition no_reply :: synth_reply where
  "no_reply = \<lparr> sy_ok = False, sy_normalized = None, sy_key = 0, sy_hit = False \<rparr>"

definition pgwt_pg13_synthetic_cached ::
    "bool \<Rightarrow> u32 \<Rightarrow> u32 \<Rightarrow> u8 list option \<Rightarrow> pgwt_pg13_synthetic_cache
      \<Rightarrow> synth_reply \<times> pgwt_pg13_synthetic_cache" where
  "pgwt_pg13_synthetic_cached ptrs databaseid userid activity cache =
    (case activity of
       None \<Rightarrow> (no_reply, cache)
     | Some a \<Rightarrow>
         if \<not> ptrs \<or> databaseid = 0 \<or> userid = 0 \<or> a = [] then (no_reply, cache)
         else if sc_valid cache \<and> sc_databaseid cache = databaseid \<and> sc_userid cache = userid \<and>
             sc_activity cache = a
         then (\<lparr> sy_ok = True, sy_normalized = Some (sc_normalized cache),
                 sy_key = sc_query_id cache, sy_hit = True \<rparr>, cache)
         else let (ok, fresh, b) = pgwt_pg13_synthetic_query databaseid userid activity
                      (Some (sc_normalized cache)) PGWT_PG13_SYNTH_TEXT_MAX True;
                  cache = cache \<lparr> sc_normalized := (case b of Some t \<Rightarrow> t | None \<Rightarrow> []) \<rparr>
              in if \<not> ok then (no_reply, cache \<lparr> sc_valid := False \<rparr>)
                 else if length a \<ge> PGWT_PG13_SYNTH_TEXT_MAX
                   then (no_reply, cache \<lparr> sc_valid := False \<rparr>)
                 else let cache = cache \<lparr> sc_activity := a, sc_databaseid := databaseid,
                          sc_userid := userid, sc_query_id := fresh, sc_valid := True \<rparr>
                      in (\<lparr> sy_ok = True, sy_normalized = Some (sc_normalized cache),
                            sy_key = fresh, sy_hit = False \<rparr>, cache))"

section \<open>The scanner reads forward\<close>

text \<open>A scan depends on the position only through the text that follows and one byte before.\<close>

lemma at_shift [simp]:
  "byte_at (a @ r) (length a + k) = byte_at r k"
  "byte_at (a @ r) (Suc (length a + k)) = byte_at r (Suc k)"
  "byte_at (a @ r) (Suc (Suc (length a + k))) = byte_at r (Suc (Suc k))"
  by (simp_all add: byte_at_def nth_append)

lemma skip_while_shift [simp]:
  "skip_while P (a @ r) (length a + k) = length a + skip_while P r k"
  "skip_while P (a @ r) (Suc (length a + k)) = length a + skip_while P r (Suc k)"
  "skip_while P (a @ r) (Suc (Suc (length a + k))) = length a + skip_while P r (Suc (Suc k))"
proof -
  have *: "skip_while P (a @ r) (length a + k) = length a + skip_while P r k" for k
  proof (induction P r k rule: skip_while.induct)
    case (1 P s i)
    then show ?case
      by (simp add: skip_while.simps [of P "a @ s" "length a + i"] skip_while.simps [of P s i])
  qed
  show "skip_while P (a @ r) (length a + k) = length a + skip_while P r k"
    "skip_while P (a @ r) (Suc (length a + k)) = length a + skip_while P r (Suc k)"
    "skip_while P (a @ r) (Suc (Suc (length a + k))) = length a + skip_while P r (Suc (Suc k))"
    using * [of k] * [of "Suc k"] * [of "Suc (Suc k)"] by simp_all
qed

lemma skip_single_quote_loop_shift:
  "skip_single_quote_loop (a @ r) (length a + k) = length a + skip_single_quote_loop r k"
proof (induction r k rule: skip_single_quote_loop.induct)
  case (1 s i)
  then show ?case
    by (simp add: skip_single_quote_loop.simps [of "a @ s" "length a + i"]
        skip_single_quote_loop.simps [of s i])
qed

lemma skip_single_quote_shift [simp]:
  "skip_single_quote (a @ r) (length a + k) = length a + skip_single_quote r k"
  "skip_single_quote (a @ r) (Suc (length a + k)) = length a + skip_single_quote r (Suc k)"
  "skip_single_quote (a @ r) (Suc (Suc (length a + k))) = length a + skip_single_quote r (Suc (Suc k))"
  using skip_single_quote_loop_shift [of a r "Suc k"] skip_single_quote_loop_shift [of a r "Suc (Suc k)"]
    skip_single_quote_loop_shift [of a r "Suc (Suc (Suc k))"]
  by (simp_all add: skip_single_quote_def)

definition shift_copy :: "nat \<Rightarrow> buffer + (nat \<times> buffer) \<Rightarrow> buffer + (nat \<times> buffer)" where
  "shift_copy m r = (case r of Inl b \<Rightarrow> Inl b | Inr (j, b) \<Rightarrow> Inr (m + j, b))"

lemma shift_copy_simps [simp]:
  "shift_copy m (Inl b) = Inl b"
  "shift_copy m (Inr (j, b)) = Inr (m + j, b)"
  by (simp_all add: shift_copy_def)

lemma copy_quoted_loop_shift:
  "copy_quoted_loop (a @ r) (length a + k) out n = shift_copy (length a) (copy_quoted_loop r k out n)"
proof (induction r k out n rule: copy_quoted_loop.induct)
  case (1 s i out n)
  then show ?case
    unfolding copy_quoted_loop.simps [of "a @ s" "length a + i" out n] copy_quoted_loop.simps [of s i out n]
    by (auto split: sum.split)
qed

lemma copy_quoted_identifier_shift [simp]:
  "copy_quoted_identifier (a @ r) (length a + k) out n
    = shift_copy (length a) (copy_quoted_identifier r k out n)"
  using copy_quoted_loop_shift [of a r "Suc k"]
  by (simp add: copy_quoted_identifier_def split: sum.split)

lemma dollar_tag_len_shift [simp]: "dollar_tag_len (a @ r) (length a + k) = dollar_tag_len r k"
  by (simp add: dollar_tag_len_def Let_def)

lemma same_bytes_shift [simp]:
  "same_bytes (a @ r) (length a + i) (length a + j) n = same_bytes r i j n"
  by (simp add: same_bytes_def add.assoc)

lemma dollar_end_shift [simp]:
  "dollar_end (a @ r) (length a + i) n (length a + e) = length a + dollar_end r i n e"
proof (induction r i n e rule: dollar_end.induct)
  case (1 s i n e)
  then show ?case
    by (simp add: dollar_end.simps [of "a @ s" "length a + i" n "length a + e"]
        dollar_end.simps [of s i n e])
qed

lemma skip_exponent_shift [simp]: "skip_exponent (a @ r) (length a + k) = length a + skip_exponent r k"
  by (simp add: skip_exponent_def Let_def)

lemma skip_number_shift [simp]: "skip_number (a @ r) (length a + k) = length a + skip_number r k"
  by (auto simp: skip_number_def Let_def)

lemma map_at_shift [simp]: "map (byte_at (a @ r)) [length a + i..<length a + j] = map (byte_at r) [i..<j]"
  by (rule nth_equalityI) (simp_all add: add.assoc)

definition shift_turn :: "nat \<Rightarrow> buffer + (nat \<times> nat \<times> buffer) \<Rightarrow> buffer + (nat \<times> nat \<times> buffer)" where
  "shift_turn m r = (case r of Inl b \<Rightarrow> Inl b | Inr (j, d, b) \<Rightarrow> Inr (m + j, d, b))"

lemma shift_turn_simps [simp]:
  "shift_turn m (Inl b) = Inl b"
  "shift_turn m (Inr (j, d, b)) = Inr (m + j, d, b)"
  "shift_turn m (resume j d r) = resume (m + j) d r"
  by (simp_all add: shift_turn_def resume_def split: sum.split)

lemma shift_turn_copy:
  "(case shift_copy m r of Inl b \<Rightarrow> Inl b | Inr (j, b) \<Rightarrow> Inr (j, d, b))
    = shift_turn m (case r of Inl b \<Rightarrow> Inl b | Inr (j, b) \<Rightarrow> Inr (j, d, b))"
  by (auto split: sum.split)

lemma normalize_step_shift:
  assumes "0 < k"
  shows "normalize_step (a @ r) n (length a + k) d out = shift_turn (length a) (normalize_step r n k d out)"
proof -
  have prev: "byte_at (a @ r) (length a + k - 1) = byte_at r (k - 1)"
    using assms at_shift(1) [of a r "k - 1"] by simp
  have bound: "at_boundary (a @ r) (length a + k) = at_boundary r k"
    using assms prev by (simp add: at_boundary_def)
  have parts:
    "comment_step (a @ r) n (length a + k) d out = shift_turn (length a) (comment_step r n k d out)"
    "space_step (a @ r) n (length a + k) out = shift_turn (length a) (space_step r n k out)"
    "dollar_step (a @ r) n m (length a + k) out = shift_turn (length a) (dollar_step r n m k out)"
    "identifier_step (a @ r) n (length a + k) out = shift_turn (length a) (identifier_step r n k out)"
    "other_step (a @ r) n (length a + k) out = shift_turn (length a) (other_step r n k out)" for m
    using dollar_end_shift [of a r k m "k + m"]
    by (simp_all add: comment_step_def space_step_def dollar_step_def identifier_step_def
        other_step_def Let_def add.assoc)
  show ?thesis
    using assms prev
    by (simp add: normalize_step_def Let_def bound parts shift_turn_copy
        if_distrib [of "shift_turn (length a)"] split del: if_split cong: if_cong)
qed

lemma normalize_loop_shift:
  "0 < k \<Longrightarrow> normalize_loop (a @ r) n (length a + k) d out = normalize_loop r n k d out"
proof (induction r n k d out rule: normalize_loop.induct)
  case (1 s n i d out)
  have IH: "normalize_loop (a @ s) n (length a + j) e b = normalize_loop s n j e b"
    if "byte_at s i \<noteq> 0" "normalize_step s n i d out = Inr (j, e, b)" for j e b
    using "1.IH" [OF that refl refl] normalize_step_gt [OF that(2)] by simp
  from "1.prems" show ?case
    unfolding normalize_loop.simps [of "a @ s" n "length a + i" d out] normalize_loop.simps [of s n i d out]
    by (auto simp: normalize_step_shift IH split: sum.split)
qed

section \<open>The scanner does not look past a quote\<close>

text \<open>
  Two texts that agree up to a quote at position n: whatever the scanner does on the first without
  passing n, it does on the second.
\<close>

definition agree_to_quote :: "u8 list \<Rightarrow> u8 list \<Rightarrow> nat \<Rightarrow> bool" where
  "agree_to_quote s t n \<longleftrightarrow> (\<forall>k\<le>n. byte_at t k = byte_at s k) \<and> byte_at s n = 39"

lemma agree_at: "agree_to_quote s t n \<Longrightarrow> k \<le> n \<Longrightarrow> byte_at t k = byte_at s k"
  by (simp add: agree_to_quote_def)

lemma skip_while_agree:
  "agree_to_quote s t n \<Longrightarrow> skip_while P s i \<le> n \<Longrightarrow> skip_while P t i = skip_while P s i"
proof (induction P s i rule: skip_while.induct)
  case (1 P s i)
  have "i \<le> n" using "1.prems"(2) skip_while_ge [of i P s] by simp
  then have "byte_at t i = byte_at s i" by (rule agree_at [OF "1.prems"(1)])
  then show ?case
    using "1.IH" "1.prems" by (auto simp: skip_while.simps [of P s i] skip_while.simps [of P t i])
qed

lemma skip_while_stops:
  "i \<le> n \<Longrightarrow> \<not> P (byte_at s n) \<Longrightarrow> skip_while P s i \<le> n"
proof (induction P s i rule: skip_while.induct)
  case (1 P s i)
  then show ?case
    by (cases "i = n") (auto simp: skip_while.simps [of P s i] skip_while.simps [of P s n])
qed

lemma skip_while_class:
  assumes "agree_to_quote s t n" "i \<le> n" "\<not> P 39"
  shows "skip_while P t i = skip_while P s i" "skip_while P s i \<le> n"
proof -
  have "byte_at s n = 39" using assms(1) by (simp add: agree_to_quote_def)
  then show le: "skip_while P s i \<le> n" using skip_while_stops assms(2,3) by simp
  show "skip_while P t i = skip_while P s i" by (rule skip_while_agree [OF assms(1) le])
qed

lemma skip_single_quote_loop_agree:
  "agree_to_quote s t n \<Longrightarrow> skip_single_quote_loop s i \<le> n
    \<Longrightarrow> skip_single_quote_loop t i = skip_single_quote_loop s i"
proof (induction s i rule: skip_single_quote_loop.induct)
  case (1 s i)
  have i: "i \<le> n" using "1.prems"(2) skip_single_quote_loop_ge [of i s] by simp
  have a: "byte_at t i = byte_at s i" by (rule agree_at [OF "1.prems"(1) i])
  have n: "i = n \<Longrightarrow> byte_at s i = 39" using "1.prems"(1) by (simp add: agree_to_quote_def)
  have b: "i < n \<Longrightarrow> byte_at t (Suc i) = byte_at s (Suc i)"
    using agree_at [OF "1.prems"(1), of "Suc i"] by simp
  have c: "i < n"
  proof (rule ccontr)
    assume "\<not> i < n"
    with i n have "byte_at s i = 39" by simp
    then have "i < skip_single_quote_loop s i"
      using skip_single_quote_loop_ge [of "i + 2" s] by (subst skip_single_quote_loop.simps) simp
    with \<open>\<not> i < n\<close> "1.prems"(2) show False by simp
  qed
  from "1.IH" "1.prems" a b c show ?case
    unfolding skip_single_quote_loop.simps [of s i] skip_single_quote_loop.simps [of t i]
    by (auto split: if_splits)
qed

lemma skip_single_quote_agree:
  "agree_to_quote s t n \<Longrightarrow> skip_single_quote s i \<le> n \<Longrightarrow> skip_single_quote t i = skip_single_quote s i"
  by (simp add: skip_single_quote_def skip_single_quote_loop_agree)

lemma copy_quoted_loop_agree:
  "agree_to_quote s t n \<Longrightarrow> copy_quoted_loop s i out m = Inr (j, b) \<Longrightarrow> j \<le> n
    \<Longrightarrow> copy_quoted_loop t i out m = Inr (j, b)"
proof (induction s i out m rule: copy_quoted_loop.induct)
  case (1 s i out m)
  have i: "i < n" using copy_quoted_loop_gt [OF "1.prems"(2)] "1.prems"(3) by simp
  have a: "byte_at t i = byte_at s i" "byte_at t (Suc i) = byte_at s (Suc i)"
    using agree_at [OF "1.prems"(1), of i] agree_at [OF "1.prems"(1), of "Suc i"] i by simp_all
  from "1.IH" "1.prems" show ?case
    unfolding copy_quoted_loop.simps [of s i out m] copy_quoted_loop.simps [of t i out m]
    by (auto simp: a split: if_splits sum.splits)
qed

lemma copy_quoted_identifier_agree:
  assumes "agree_to_quote s t n" "copy_quoted_identifier s i out m = Inr (j, b)" "j \<le> n"
  shows "copy_quoted_identifier t i out m = Inr (j, b)"
proof -
  have "i < n" using copy_quoted_identifier_gt [OF assms(2)] assms(3) by simp
  then have "byte_at t i = byte_at s i" using agree_at [OF assms(1), of i] by simp
  with assms show ?thesis
    by (auto simp: copy_quoted_identifier_def copy_quoted_loop_agree split: sum.splits)
qed

lemma dollar_tag_len_agree:
  assumes "agree_to_quote s t n" "i < n"
  shows "dollar_tag_len t i = dollar_tag_len s i"
proof -
  have n39: "\<not> tag_cont 39" by (simp add: tag_cont_def isalnum_def isalpha_def isdigit_def)
  have a: "byte_at t i = byte_at s i" "byte_at t (Suc i) = byte_at s (Suc i)"
    using agree_at [OF assms(1)] assms(2) by simp_all
  have q: "byte_at s n = 39" using assms(1) by (simp add: agree_to_quote_def)
  have "skip_while tag_cont t (Suc (Suc i)) = skip_while tag_cont s (Suc (Suc i))"
    "skip_while tag_cont s (Suc (Suc i)) \<le> n" if "Suc i < n"
    using skip_while_class [where P = tag_cont, OF assms(1) _ n39] that by simp_all
  then show ?thesis
    using a q assms(2) agree_at [OF assms(1)]
    by (cases "Suc i = n") (simp_all add: dollar_tag_len_def Let_def isalpha_def)
qed

lemma same_bytes_agree:
  assumes "agree_to_quote s t n" "e + m \<le> n" "i + m \<le> n"
  shows "same_bytes t e i m = same_bytes s e i m"
proof -
  have "byte_at t (e + k) = byte_at s (e + k)" "byte_at t (i + k) = byte_at s (i + k)" if "k < m" for k
    using that assms(2,3) by (auto intro!: agree_at [OF assms(1)])
  then show ?thesis by (auto simp: same_bytes_def list_all_iff)
qed

lemma dollar_end_agree:
  "agree_to_quote s t n \<Longrightarrow> i + m \<le> n \<Longrightarrow> dollar_end s i m e + m \<le> n
    \<Longrightarrow> dollar_end t i m e = dollar_end s i m e"
proof (induction s i m e rule: dollar_end.induct)
  case (1 s i m e)
  have e: "e + m \<le> n" using "1.prems"(3) dollar_end_ge [of e s i m] by simp
  have "byte_at t e = byte_at s e" using agree_at [OF "1.prems"(1), of e] e by simp
  moreover have "same_bytes t e i m = same_bytes s e i m"
    by (rule same_bytes_agree [OF "1.prems"(1) e "1.prems"(2)])
  ultimately show ?case
    using "1.IH" "1.prems" by (auto simp: dollar_end.simps [of s i m e] dollar_end.simps [of t i m e])
qed

lemma not_digit_39: "\<not> digit_or_underscore 39" "\<not> isdigit 39" "\<not> (isxdigit 39 \<or> 39 = (95 :: u8))"
  by (simp_all add: digit_or_underscore_def isdigit_def isxdigit_def)

lemma skip_exponent_agree:
  assumes "agree_to_quote s t n" "i \<le> n"
  shows "skip_exponent t i = skip_exponent s i"
proof (cases "i = n")
  case True
  then show ?thesis
    using assms by (simp add: skip_exponent_def agree_to_quote_def)
next
  case False
  then have a: "byte_at t i = byte_at s i" "byte_at t (Suc i) = byte_at s (Suc i)"
    using agree_at [OF assms(1)] assms(2) by simp_all
  have q: "byte_at s n = 39" using assms(1) by (simp add: agree_to_quote_def)
  have "j \<le> n \<Longrightarrow> byte_at t j = byte_at s j \<and> skip_while digit_or_underscore t j = skip_while digit_or_underscore s j" for j
    using agree_at [OF assms(1)] skip_while_class [where P = digit_or_underscore, OF assms(1) _ not_digit_39(1)] by simp
  from this [of "Suc i"] this [of "Suc (Suc i)"] show ?thesis
    using a q False assms(2)
    by (cases "Suc i = n") (simp_all add: skip_exponent_def Let_def not_digit_39)
qed

lemma skip_number_agree:
  assumes "agree_to_quote s t n" "i < n"
  shows "skip_number t i = skip_number s i"
proof -
  have sw: "skip_while digit_or_underscore t j = skip_while digit_or_underscore s j"
    "skip_while digit_or_underscore s j \<le> n"
    "skip_while (\<lambda>c. isxdigit c \<or> c = 95) t j = skip_while (\<lambda>c. isxdigit c \<or> c = 95) s j" if "j \<le> n" for j
    using skip_while_class [OF assms(1) that] not_digit_39 by (simp_all)
  have q: "byte_at s n = 39" using assms(1) by (simp add: agree_to_quote_def)
  have lt: "byte_at s j = 46 \<Longrightarrow> j \<le> n \<Longrightarrow> Suc j \<le> n" for j
    using q by (cases "j = n") auto
  have hex: "byte_at s (Suc i) = 120 \<or> byte_at s (Suc i) = 88 \<Longrightarrow> Suc (Suc i) \<le> n"
    using q assms(2) by (cases "Suc i = n") auto
  show ?thesis
    using assms(2) sw(2) [of i] lt [of "skip_while digit_or_underscore s i"] hex
    by (auto simp: skip_number_def Let_def sw agree_at [OF assms(1)] skip_exponent_agree [OF assms(1)])
qed

lemma not_class_39: "\<not> isspace 39" "\<not> identifier_cont 39"
  by (simp_all add: isspace_def identifier_cont_def isalnum_def isalpha_def isdigit_def)

lemma if_agree:
  "(if P then x else u) = r \<Longrightarrow> (P \<Longrightarrow> x = r \<Longrightarrow> y = r) \<Longrightarrow> (\<not> P \<Longrightarrow> u = r \<Longrightarrow> v = r)
    \<Longrightarrow> (if P then y else v) = r"
  by auto

lemma normalize_step_agree:
  assumes agr: "agree_to_quote s t n" and i: "i < n"
    and step: "normalize_step s m i d out = Inr (j, d', b)" and j: "j \<le> n"
  shows "normalize_step t m i d out = Inr (j, d', b)"
proof -
  have a: "byte_at t i = byte_at s i" "byte_at t (Suc i) = byte_at s (Suc i)" "byte_at t (i - 1) = byte_at s (i - 1)"
    using agree_at [OF agr] i by simp_all
  have q: "byte_at s n = 39" using agr by (simp add: agree_to_quote_def)
  have u: "byte_at s (Suc i) = 38 \<Longrightarrow> byte_at t (Suc (Suc i)) = byte_at s (Suc (Suc i))"
    using agree_at [OF agr, of "Suc (Suc i)"] i q by (cases "Suc i = n") simp_all
  have bound: "at_boundary t i = at_boundary s i" using a by (simp add: at_boundary_def)
  have sp: "skip_while isspace t (Suc i) = skip_while isspace s (Suc i)"
      "skip_while isspace s (Suc i) \<le> n"
    using skip_while_class [where P = isspace, OF agr _ not_class_39(1)] i by simp_all
  have idc: "skip_while identifier_cont t (Suc i) = skip_while identifier_cont s (Suc i)"
      "skip_while identifier_cont s (Suc i) \<le> n"
    using skip_while_class [where P = identifier_cont, OF agr _ not_class_39(2)] i by simp_all
  have w: "map (byte_at t) [i..<skip_while identifier_cont s (Suc i)]
      = map (byte_at s) [i..<skip_while identifier_cont s (Suc i)]"
    using idc(2) by (auto intro!: agree_at [OF agr])
  have parts: "comment_step t m i d out = comment_step s m i d out"
      "space_step t m i out = space_step s m i out"
      "identifier_step t m i out = identifier_step s m i out"
      "other_step t m i out = other_step s m i out"
    using sp idc agree_at [OF agr sp(2)]
    by (simp_all add: comment_step_def space_step_def identifier_step_def other_step_def Let_def a w)
  have dol: "dollar_step t m k i out = Inr (j, d', b)" if "dollar_step s m k i out = Inr (j, d', b)" for k
  proof -
    let ?e = "dollar_end s i k (i + k)"
    have e: "j = ?e + k" "byte_at s ?e \<noteq> 0"
      using that by (auto simp: dollar_step_def Let_def resume_Inr split: if_splits)
    have "i + k \<le> ?e" by (rule dollar_end_ge)
    with e j have "dollar_end t i k (i + k) = ?e" by (intro dollar_end_agree [OF agr]) simp_all
    moreover have "byte_at t ?e = byte_at s ?e" using e j by (intro agree_at [OF agr]) simp
    ultimately show ?thesis using that by (simp add: dollar_step_def Let_def)
  qed
  have a': "byte_at t (i + 1) = byte_at s (i + 1)" using a(2) by simp
  have u': "(byte_at s (i + 1) = 38 \<and> byte_at t (i + 2) = 39 \<and> X) = (byte_at s (i + 1) = 38 \<and> byte_at s (i + 2) = 39 \<and> X)" for X
    using u by auto
  have quote: "resume (skip_single_quote t k) 0 r = Inr (j, d', b)"
    if "resume (skip_single_quote s k) 0 r = Inr (j, d', b)" for k r
    using that j by (simp add: resume_Inr skip_single_quote_agree [OF agr])
  have line: "resume (skip_while P t k) 0 r = Inr (j, d', b)"
    if "resume (skip_while P s k) 0 r = Inr (j, d', b)" for P k r
    using that j by (simp add: resume_Inr skip_while_agree [OF agr])
  have copy: "(case copy_quoted_identifier t i out m of Inl b \<Rightarrow> Inl b | Inr (j, b) \<Rightarrow> Inr (j, 0, b)) = Inr (j, d', b)"
    if "(case copy_quoted_identifier s i out m of Inl b \<Rightarrow> Inl b | Inr (j, b) \<Rightarrow> Inr (j, 0, b)) = Inr (j, d', b)"
    using that j copy_quoted_identifier_agree [OF agr, of i out m] by (auto split: sum.splits)
  show ?thesis
    using step
    unfolding normalize_step_def Let_def a a' u' bound parts dollar_tag_len_agree [OF agr i]
      skip_number_agree [OF agr i]
    by (elim if_agree) (assumption | erule quote line copy dol)+
qed

section \<open>What a literal holds does not matter\<close>

text \<open>
  The scan up to a position: where it stands, in which comment depth, and with which buffer, when it
  first comes to position m or beyond.
\<close>

function normalize_until ::
    "u8 list \<Rightarrow> nat \<Rightarrow> nat \<Rightarrow> nat \<Rightarrow> nat \<Rightarrow> buffer \<Rightarrow> buffer + (nat \<times> nat \<times> buffer)" where
  "normalize_until s n m i d out =
    (if m \<le> i \<or> byte_at s i = 0 then Inr (i, d, out)
     else case normalize_step s n i d out of
       Inl b \<Rightarrow> Inl b
     | Inr (j, d', b) \<Rightarrow> normalize_until s n m j d' b)"
  by pat_completeness auto
termination
  by (relation "measure (\<lambda>(s, n, m, i, _). length s - i)")
    (auto dest!: at_nonzero_less normalize_step_gt)

declare normalize_until.simps [simp del]

lemma normalize_until_ge: "normalize_until s n m i d out = Inr (j, d', b) \<Longrightarrow> i \<le> j"
proof (induction s n m i d out rule: normalize_until.induct)
  case (1 s n m i d out)
  have IH: "k \<le> j" if "\<not> (m \<le> i \<or> byte_at s i = 0)" "normalize_step s n i d out = Inr (k, e, c)"
    "normalize_until s n m k e c = Inr (j, d', b)" for k e c
    using "1.IH" [OF that(1,2) refl refl that(3)] by simp
  from "1.prems" show ?case
    unfolding normalize_until.simps [of s n m i d out]
    by (auto split: if_splits sum.splits dest!: IH [rotated 2] dest: normalize_step_gt)
qed

lemma normalize_until_agree:
  "agree_to_quote s t m \<Longrightarrow> normalize_until s n m i d out = Inr (m, d', b)
    \<Longrightarrow> normalize_until t n m i d out = Inr (m, d', b)"
proof (induction s n m i d out rule: normalize_until.induct)
  case (1 s n m i d out)
  show ?case
  proof (cases "m \<le> i \<or> byte_at s i = 0")
    case True
    with "1.prems" have "i = m" by (simp add: normalize_until.simps [of s n m i d out])
    with "1.prems" True show ?thesis by (simp add: normalize_until.simps)
  next
    case False
    with "1.prems"(2) obtain k e c where st: "normalize_step s n i d out = Inr (k, e, c)"
      and k: "normalize_until s n m k e c = Inr (m, d', b)"
      unfolding normalize_until.simps [of s n m i d out] by (auto split: sum.splits)
    have "normalize_step t n i d out = Inr (k, e, c)"
      using normalize_step_agree [OF "1.prems"(1) _ st] False normalize_until_ge [OF k] by simp
    moreover have "normalize_until t n m k e c = Inr (m, d', b)"
      using "1.IH" [OF False st refl refl "1.prems"(1) k] .
    moreover have "byte_at t i = byte_at s i" using False agree_at [OF "1.prems"(1), of i] by simp
    ultimately show ?thesis using False by (simp add: normalize_until.simps [of t n m i d out])
  qed
qed

lemma normalize_loop_from_until:
  "normalize_until s n m i d out = Inr (j, d', b) \<Longrightarrow> normalize_loop s n i d out = normalize_loop s n j d' b"
proof (induction s n m i d out rule: normalize_until.induct)
  case (1 s n m i d out)
  show ?case
  proof (cases "m \<le> i \<or> byte_at s i = 0")
    case True
    with "1.prems" show ?thesis by (simp add: normalize_until.simps [of s n m i d out])
  next
    case False
    with "1.prems" obtain k e c where st: "normalize_step s n i d out = Inr (k, e, c)"
      and k: "normalize_until s n m k e c = Inr (j, d', b)"
      unfolding normalize_until.simps [of s n m i d out] by (auto split: sum.splits)
    show ?thesis
      using "1.IH" [OF False st refl refl k] False st by (simp add: normalize_loop.simps [of s n i d out])
  qed
qed

text \<open>What may stand between the quotes: doubled quotes, backslash pairs, any other byte.\<close>

fun lit_body :: "u8 list \<Rightarrow> bool" where
  "lit_body [] \<longleftrightarrow> True"
| "lit_body [c] \<longleftrightarrow> c \<noteq> 0 \<and> c \<noteq> 39 \<and> c \<noteq> 92"
| "lit_body (c # d # b) \<longleftrightarrow>
    (if c = 92 then d \<noteq> 0 \<and> lit_body b
     else if c = 39 then d = 39 \<and> lit_body b
     else c \<noteq> 0 \<and> lit_body (d # b))"

lemma at_Cons: "byte_at (c # s) 0 = c" "byte_at (c # s) (Suc k) = byte_at s k"
  by (simp_all add: byte_at_def)

lemma skip_body_Cons:
  "skip_single_quote_loop (c # s) (Suc k) = Suc (skip_single_quote_loop s k)"
  "skip_single_quote_loop (c # d # s) (Suc (Suc k)) = Suc (Suc (skip_single_quote_loop s k))"
  using skip_single_quote_loop_shift [of "[c]" s k] skip_single_quote_loop_shift [of "[c, d]" s k]
  by simp_all

lemma skip_body:
  "lit_body b \<Longrightarrow> byte_at q 0 \<noteq> 39 \<Longrightarrow> skip_single_quote_loop (b @ 39 # q) 0 = length b + 1"
proof (induction b rule: lit_body.induct)
  case 1
  then show ?case by (subst skip_single_quote_loop.simps) (simp add: at_Cons)
next
  case (2 c)
  then have "skip_single_quote_loop (39 # q) 0 = 1"
    by (subst skip_single_quote_loop.simps) (simp add: at_Cons)
  with 2 show ?case
    by (subst skip_single_quote_loop.simps) (simp add: at_Cons skip_body_Cons)
next
  case (3 c d b)
  then show ?case
    by (subst skip_single_quote_loop.simps) (auto simp: at_Cons skip_body_Cons split: if_splits)
qed

lemma normalize_step_literal:
  assumes "lit_body b" "byte_at q 0 \<noteq> 39"
  shows "normalize_step (p @ 39 # b @ 39 # q) n (length p) 0 out
    = resume (length p + (length b + 2)) 0 (append_placeholder out n)"
proof -
  have a: "byte_at (p @ 39 # b @ 39 # q) (length p) = 39"
    using at_shift(1) [of p "39 # b @ 39 # q" 0] by (simp add: at_Cons)
  have "skip_single_quote (p @ 39 # b @ 39 # q) (length p) = length p + (length b + 2)"
    using skip_single_quote_shift(1) [of p "39 # b @ 39 # q" 0] skip_body [OF assms]
    by (simp add: skip_single_quote_def skip_body_Cons)
  then show ?thesis
    by (simp add: normalize_step_def Let_def a not_class_39)
qed

lemma normalize_after_literal:
  assumes "lit_body b" "byte_at q 0 \<noteq> 39"
  shows "normalize_loop (p @ 39 # b @ 39 # q) n (length p) 0 out
    = (case append_placeholder out n of Inl c \<Rightarrow> Inl c | Inr c \<Rightarrow> normalize_loop (39 # q) n 1 0 c)"
proof -
  have a: "byte_at (p @ 39 # b @ 39 # q) (length p) = 39"
    using at_shift(1) [of p "39 # b @ 39 # q" 0] by (simp add: at_Cons)
  have "normalize_loop (p @ 39 # b @ 39 # q) n (length p + (length b + 2)) 0 c = normalize_loop (39 # q) n 1 0 c" for c
    using normalize_loop_shift [of 1 "p @ 39 # b" "39 # q" n 0 c] by simp
  then show ?thesis
    using normalize_step_literal [OF assms, of p n out]
    by (simp add: normalize_loop.simps [of _ n "length p"] a resume_def split: sum.split)
qed

lemma literals_agree: "agree_to_quote (p @ 39 # x) (p @ 39 # y) (length p)"
  by (auto simp: agree_to_quote_def byte_at_def nth_append)

section \<open>The shape of the text\<close>

text \<open>What the buffer always is: shorter than its size, without terminator, not starting with a blank.\<close>

definition text_ok :: "nat \<Rightarrow> buffer \<Rightarrow> bool" where
  "text_ok n b \<longleftrightarrow> length b < n \<and> 0 \<notin> set b \<and> (b = [] \<or> hd b \<noteq> 32)"

lemma append_char_ok:
  "append_char out n c = Inr b \<Longrightarrow> text_ok n out \<Longrightarrow> c \<noteq> 0 \<Longrightarrow> out \<noteq> [] \<or> c \<noteq> 32 \<Longrightarrow> text_ok n b"
  by (auto simp: append_char_def text_ok_def hd_append split: if_splits)

lemma append_space_ok: "append_space out n = Inr b \<Longrightarrow> text_ok n out \<Longrightarrow> text_ok n b"
  by (auto simp: append_space_def split: if_splits dest: append_char_ok)

lemma append_placeholder_ok: "append_placeholder out n = Inr b \<Longrightarrow> text_ok n out \<Longrightarrow> text_ok n b"
  by (auto simp: append_placeholder_def split: if_splits dest: append_char_ok)

lemma append_chars_ok:
  "append_chars out n cs = Inr b \<Longrightarrow> text_ok n out \<Longrightarrow> 0 \<notin> set cs \<Longrightarrow> 32 \<notin> set cs \<Longrightarrow> text_ok n b"
  by (induction out n cs rule: append_chars.induct) (auto split: sum.splits dest: append_char_ok)

lemma append_char_nonempty: "append_char out n c = Inr b \<Longrightarrow> b \<noteq> []"
  by (auto simp: append_char_def split: if_splits)

lemma copy_quoted_loop_ok:
  "copy_quoted_loop s i out n = Inr (j, b) \<Longrightarrow> text_ok n out \<Longrightarrow> out \<noteq> [] \<Longrightarrow> text_ok n b"
proof (induction s i out n rule: copy_quoted_loop.induct)
  case (1 s i out n)
  have IH2: "text_ok n b" if "byte_at s i = 34" "byte_at s (Suc i) = 34" "append_char out n 34 = Inr c"
    "append_char c n 34 = Inr c'" "copy_quoted_loop s (Suc (Suc i)) c' n = Inr (j, b)" for c c'
  proof -
    have "text_ok n c" using append_char_ok [OF that(3) "1.prems"(2)] by simp
    then have "text_ok n c'" using append_char_ok [OF that(4)] by simp
    moreover have "c' \<noteq> []" by (rule append_char_nonempty [OF that(4)])
    ultimately show ?thesis
      using "1.IH"(1) [of c c'] that by simp
  qed
  have IH1: "text_ok n b" if "byte_at s i \<noteq> 34" "byte_at s i \<noteq> 0" "append_char out n (byte_at s i) = Inr c"
    "copy_quoted_loop s (Suc i) c n = Inr (j, b)" for c
  proof -
    have "text_ok n c" "c \<noteq> []"
      using that "1.prems" by (auto intro: append_char_ok dest: append_char_nonempty)
    with "1.IH"(2) [of c] that show ?thesis by simp
  qed
  from "1.prems" show ?case
    unfolding copy_quoted_loop.simps [of s i out n]
    by (auto split: if_splits sum.splits intro: append_char_ok IH1 IH2)
qed

lemma copy_quoted_identifier_ok:
  "copy_quoted_identifier s i out n = Inr (j, b) \<Longrightarrow> byte_at s i = 34 \<Longrightarrow> text_ok n out \<Longrightarrow> text_ok n b"
  by (auto simp: copy_quoted_identifier_def split: sum.splits
      intro: copy_quoted_loop_ok [OF _ append_char_ok append_char_nonempty])

lemma identifier_bytes:
  "k < skip_while P s i \<Longrightarrow> i \<le> k \<Longrightarrow> byte_at s k \<noteq> 0 \<and> P (byte_at s k)"
proof (induction P s i rule: skip_while.induct)
  case (1 P s i)
  have c: "byte_at s i \<noteq> 0 \<and> P (byte_at s i)"
    by (rule ccontr) (use "1.prems" skip_while.simps [of P s i] in auto)
  then have "k < skip_while P s (i + 1)"
    using "1.prems"(1) skip_while.simps [of P s i] by simp
  from "1.IH" [OF c this] c "1.prems"(2) show ?case by (cases "i = k") simp_all
qed

lemma identifier_step_ok:
  assumes "identifier_step s n i out = Inr (j, d, b)" "identifier_start (byte_at s i)" "text_ok n out"
  shows "text_ok n b"
proof -
  have st: "byte_at s i \<noteq> 0 \<and> byte_at s i \<noteq> 32"
    using assms(2) by (auto simp: identifier_start_def isalpha_def)
  have "byte_at s k \<noteq> 0 \<and> byte_at s k \<noteq> 32" if "i \<le> k" "k < skip_while identifier_cont s (Suc i)" for k
    using that st identifier_bytes [of k identifier_cont s "Suc i"]
    by (cases "k = i") (auto simp: identifier_cont_def isalnum_def isalpha_def isdigit_def)
  then have "0 \<notin> set (map (byte_at s) [i..<skip_while identifier_cont s (Suc i)])"
    "32 \<notin> set (map (byte_at s) [i..<skip_while identifier_cont s (Suc i)])"
    by (force simp del: set_map simp: image_iff set_map)+
  then show ?thesis
    using assms by (auto simp: identifier_step_def Let_def resume_Inr
        split: if_splits dest: append_placeholder_ok append_chars_ok)
qed

lemma text_ok_butlast: "text_ok n b \<Longrightarrow> text_ok n (butlast b)"
  by (cases b rule: rev_cases) (auto simp: text_ok_def hd_append split: if_splits)

lemma other_step_ok:
  "other_step s n i out = Inr (j, d, b) \<Longrightarrow> byte_at s i \<noteq> 0 \<Longrightarrow> \<not> isspace (byte_at s i) \<Longrightarrow> text_ok n out
    \<Longrightarrow> text_ok n b"
  by (auto simp: other_step_def Let_def resume_Inr isspace_def split: if_splits
      dest: append_char_ok text_ok_butlast)

lemma if_holds:
  "(if P then x else u) = r \<Longrightarrow> (P \<Longrightarrow> x = r \<Longrightarrow> Q) \<Longrightarrow> (\<not> P \<Longrightarrow> u = r \<Longrightarrow> Q) \<Longrightarrow> Q"
  by (simp split: if_splits)

lemma resume_ok:
  "resume k e (append_space out n) = Inr (j, d, b) \<Longrightarrow> text_ok n out \<Longrightarrow> text_ok n b"
  "resume k e (append_placeholder out n) = Inr (j, d, b) \<Longrightarrow> text_ok n out \<Longrightarrow> text_ok n b"
  by (auto simp: resume_Inr dest: append_space_ok append_placeholder_ok)

lemma comment_step_ok: "comment_step s n i d out = Inr (j, d', b) \<Longrightarrow> text_ok n out \<Longrightarrow> text_ok n b"
  by (auto simp: comment_step_def split: if_splits dest: resume_ok)

lemma space_step_ok: "space_step s n i out = Inr (j, d', b) \<Longrightarrow> text_ok n out \<Longrightarrow> text_ok n b"
  by (auto simp: space_step_def Let_def split: if_splits dest: resume_ok)

lemma dollar_step_ok: "dollar_step s n m i out = Inr (j, d', b) \<Longrightarrow> text_ok n out \<Longrightarrow> text_ok n b"
  by (auto simp: dollar_step_def Let_def split: if_splits dest: resume_ok)

lemma quoted_step_ok:
  "(case copy_quoted_identifier s i out n of Inl b \<Rightarrow> Inl b | Inr (j, b) \<Rightarrow> Inr (j, 0, b)) = Inr (j, d', b)
    \<Longrightarrow> byte_at s i = 34 \<Longrightarrow> text_ok n out \<Longrightarrow> text_ok n b"
  by (auto split: sum.splits intro: copy_quoted_identifier_ok)

lemma Inr_step_ok: "Inr (k, e, out) = (Inr (j, d', b) :: buffer + _) \<Longrightarrow> text_ok n out \<Longrightarrow> text_ok n b"
  by simp

lemma normalize_step_ok:
  assumes "normalize_step s n i d out = Inr (j, d', b)" "byte_at s i \<noteq> 0" "text_ok n out"
  shows "text_ok n b"
  using assms unfolding normalize_step_def Let_def
  by (elim if_holds)
    (assumption | erule (1) resume_ok comment_step_ok space_step_ok dollar_step_ok Inr_step_ok
      | erule (2) quoted_step_ok identifier_step_ok | erule (3) other_step_ok)+

lemma normalize_loop_ok:
  "normalize_loop s n i d out = Inr (d', b) \<Longrightarrow> text_ok n out \<Longrightarrow> text_ok n b"
proof (induction s n i d out rule: normalize_loop.induct)
  case (1 s n i d out)
  have IH: "text_ok n b" if "byte_at s i \<noteq> 0" "normalize_step s n i d out = Inr (k, e, c)"
    "normalize_loop s n k e c = Inr (d', b)" for k e c
    using "1.IH" [OF that(1,2) refl refl that(3)] normalize_step_ok [OF that(2,1) "1.prems"(2)] .
  from "1.prems" show ?case
    unfolding normalize_loop.simps [of s n i d out]
    by (auto split: if_splits sum.splits intro: IH)
qed

lemma trim_right_ok:
  assumes "text_ok n b"
  shows "text_ok n (trim_right b)" "trim_right b \<noteq> [] \<Longrightarrow> last (trim_right b) \<noteq> 32"
proof -
  obtain r where r: "b = trim_right b @ r"
  proof
    show "b = trim_right b @ rev (takeWhile (\<lambda>c. c = 32) (rev b))"
      by (simp add: trim_right_def flip: rev_append)
  qed
  have len: "length (trim_right b) \<le> length b" "set (trim_right b) \<subseteq> set b"
    using arg_cong [OF r, of length] arg_cong [OF r, of set] by auto
  have "trim_right b \<noteq> [] \<Longrightarrow> hd (trim_right b) = hd b"
    using arg_cong [OF r, of hd] by simp
  with assms len show "text_ok n (trim_right b)"
    by (auto simp: text_ok_def)
  show "trim_right b \<noteq> [] \<Longrightarrow> last (trim_right b) \<noteq> 32"
    using hd_dropWhile [of "\<lambda>c. c = 32" "rev b"] by (auto simp: trim_right_def last_rev)
qed

lemma normalize_query_text:
  assumes "pgwt_pg13_normalize_query (Some s) (Some b0) n = (k, b)" "k \<noteq> 0"
  shows "\<exists>t. b = Some t \<and> length t = k \<and> text_ok n t \<and> last t \<noteq> 32"
proof -
  have st: "text_ok n []" if "\<not> n < 2" using that by (simp add: text_ok_def)
  obtain d c where c: "normalize_loop s n 0 0 [] = Inr (d, c)" "\<not> n < 2" "b = Some (trim_right c)"
      "k = length (trim_right c)"
    using assms by (auto simp: pgwt_pg13_normalize_query_def split: if_splits sum.splits)
  have "text_ok n c" by (rule normalize_loop_ok [OF c(1) st [OF c(2)]])
  with c assms(2) trim_right_ok [of n c] show ?thesis by auto
qed

section \<open>The cache against the one-shot helper\<close>

text \<open>
  A stateful implementation that answers every call as a specification does, related to it by a
  relation every call keeps, answers every sequence of calls alike.
\<close>

locale functional_simulation =
  fixes impl :: "'call \<Rightarrow> 'c \<Rightarrow> 'r \<times> 'c" and spec :: "'call \<Rightarrow> 'a \<Rightarrow> 'r \<times> 'a"
    and rel :: "'c \<Rightarrow> 'a \<Rightarrow> bool" and impl_run :: "'call list \<Rightarrow> 'c \<Rightarrow> 'r list"
    and spec_run :: "'call list \<Rightarrow> 'a \<Rightarrow> 'r list"
  assumes reply: "rel c a \<Longrightarrow> fst (impl x c) = fst (spec x a)"
    and keep: "rel c a \<Longrightarrow> rel (snd (impl x c)) (snd (spec x a))"
    and impl_run: "impl_run [] c = []" "impl_run (x # xs) c = fst (impl x c) # impl_run xs (snd (impl x c))"
    and spec_run: "spec_run [] a = []" "spec_run (x # xs) a = fst (spec x a) # spec_run xs (snd (spec x a))"
begin

lemma runs_agree: "rel c a \<Longrightarrow> impl_run xs c = spec_run xs a"
  by (induction xs arbitrary: c a) (simp_all add: impl_run spec_run reply keep)

end

text \<open>A call: whether its pointers are set, database, user and activity.\<close>

type_synonym synth_call = "bool \<times> u32 \<times> u32 \<times> u8 list option"

fun cached_call :: "synth_call \<Rightarrow> pgwt_pg13_synthetic_cache \<Rightarrow> synth_reply \<times> pgwt_pg13_synthetic_cache" where
  "cached_call (ptrs, db, user, activity) cache = pgwt_pg13_synthetic_cached ptrs db user activity cache"

fun cached_run :: "synth_call list \<Rightarrow> pgwt_pg13_synthetic_cache \<Rightarrow> synth_reply list" where
  "cached_run [] cache = []"
| "cached_run (x # xs) cache = fst (cached_call x cache) # cached_run xs (snd (cached_call x cache))"

text \<open>
  The specification keeps no text and no key: it remembers the last statement answered, if the last
  proper call was answered, and computes every answer with the one-shot helper.
\<close>

definition one_shot :: "u32 \<Rightarrow> u32 \<Rightarrow> u8 list \<Rightarrow> (buffer \<times> u64) option" where
  "one_shot db user a =
    (case pgwt_pg13_synthetic_query db user (Some a) (Some []) PGWT_PG13_SYNTH_TEXT_MAX True of
       (ok, key, Some t) \<Rightarrow> if ok \<and> length a < PGWT_PG13_SYNTH_TEXT_MAX then Some (t, key) else None
     | _ \<Rightarrow> None)"

fun spec_call :: "synth_call \<Rightarrow> (u32 \<times> u32 \<times> u8 list) option \<Rightarrow> synth_reply \<times> (u32 \<times> u32 \<times> u8 list) option" where
  "spec_call (ptrs, db, user, None) prev = (no_reply, prev)"
| "spec_call (ptrs, db, user, Some a) prev =
    (if \<not> ptrs \<or> db = 0 \<or> user = 0 \<or> a = [] then (no_reply, prev)
     else case one_shot db user a of
       None \<Rightarrow> (no_reply, None)
     | Some (t, key) \<Rightarrow>
         (\<lparr> sy_ok = True, sy_normalized = Some t, sy_key = key, sy_hit = (prev = Some (db, user, a)) \<rparr>,
          Some (db, user, a)))"

fun spec_run :: "synth_call list \<Rightarrow> (u32 \<times> u32 \<times> u8 list) option \<Rightarrow> synth_reply list" where
  "spec_run [] prev = []"
| "spec_run (x # xs) prev = fst (spec_call x prev) # spec_run xs (snd (spec_call x prev))"

definition cache_rel :: "pgwt_pg13_synthetic_cache \<Rightarrow> (u32 \<times> u32 \<times> u8 list) option \<Rightarrow> bool" where
  "cache_rel c prev \<longleftrightarrow>
    prev = (if sc_valid c then Some (sc_databaseid c, sc_userid c, sc_activity c) else None) \<and>
    (sc_valid c \<longrightarrow> one_shot (sc_databaseid c) (sc_userid c) (sc_activity c)
       = Some (sc_normalized c, sc_query_id c))"

lemma query_ignores_buffer:
  "pgwt_pg13_synthetic_query db user (Some a) (Some b) PGWT_PG13_SYNTH_TEXT_MAX k
    = pgwt_pg13_synthetic_query db user (Some a) (Some []) PGWT_PG13_SYNTH_TEXT_MAX k"
  by (simp add: pgwt_pg13_synthetic_query_def pgwt_pg13_normalize_query_def PGWT_PG13_SYNTH_TEXT_MAX_def)

lemma query_keeps_buffer: "\<exists>t. snd (snd (pgwt_pg13_synthetic_query db user (Some a) (Some b) n k)) = Some t"
  by (auto simp: pgwt_pg13_synthetic_query_def pgwt_pg13_normalize_query_def Let_def split: sum.split)

lemma one_shot_cases:
  assumes "pgwt_pg13_synthetic_query db user (Some a) (Some []) PGWT_PG13_SYNTH_TEXT_MAX True = (ok, key, b)"
  obtains t where "b = Some t"
    "one_shot db user a = (if ok \<and> length a < PGWT_PG13_SYNTH_TEXT_MAX then Some (t, key) else None)"
  using assms query_keeps_buffer [of db user a "[]" PGWT_PG13_SYNTH_TEXT_MAX True]
  by (auto simp: one_shot_def)

lemma cached_call_sim:
  assumes "cache_rel c prev"
  shows "fst (cached_call x c) = fst (spec_call x prev)"
    and "cache_rel (snd (cached_call x c)) (snd (spec_call x prev))"
proof -
  obtain ptrs db user act where x: "x = (ptrs, db, user, act)" by (cases x)
  have "fst (cached_call x c) = fst (spec_call x prev) \<and>
    cache_rel (snd (cached_call x c)) (snd (spec_call x prev))"
  proof (cases act)
    case None
    with x assms show ?thesis by (simp add: pgwt_pg13_synthetic_cached_def)
  next
    case (Some a)
    obtain ok key b where q:
      "pgwt_pg13_synthetic_query db user (Some a) (Some []) PGWT_PG13_SYNTH_TEXT_MAX True = (ok, key, b)"
      by (metis prod_cases3)
    obtain t where t: "b = Some t"
      "one_shot db user a = (if ok \<and> length a < PGWT_PG13_SYNTH_TEXT_MAX then Some (t, key) else None)"
      by (rule one_shot_cases [OF q])
    show ?thesis
      using assms t q
      by (auto simp: x Some pgwt_pg13_synthetic_cached_def Let_def cache_rel_def
          query_ignores_buffer [of db user a "sc_normalized c"])
  qed
  then show "fst (cached_call x c) = fst (spec_call x prev)"
    "cache_rel (snd (cached_call x c)) (snd (spec_call x prev))" by auto
qed

interpretation synth_sim: functional_simulation cached_call spec_call cache_rel cached_run spec_run
  by unfold_locales (simp_all add: cached_call_sim)

definition zero_cache :: pgwt_pg13_synthetic_cache where
  "zero_cache = \<lparr> sc_databaseid = 0, sc_userid = 0, sc_query_id = 0, sc_valid = False,
    sc_activity = [], sc_normalized = [] \<rparr>"

text \<open>A reply that can be stored: a key that is not the reserved zero and a text in normal form.\<close>

definition reply_ok :: "synth_reply \<Rightarrow> bool" where
  "reply_ok r \<longleftrightarrow> (if sy_ok r
    then sy_key r \<noteq> 0 \<and>
      (case sy_normalized r of
         None \<Rightarrow> False
       | Some t \<Rightarrow> t \<noteq> [] \<and> text_ok PGWT_PG13_SYNTH_TEXT_MAX t \<and> last t \<noteq> 32)
    else r = no_reply)"

lemma one_shot_text:
  assumes "one_shot db user a = Some (t, key)"
  shows "key \<noteq> 0" "t \<noteq> []" "text_ok PGWT_PG13_SYNTH_TEXT_MAX t" "last t \<noteq> 32"
proof -
  obtain n b where nb: "pgwt_pg13_normalize_query (Some a) (Some []) PGWT_PG13_SYNTH_TEXT_MAX = (n, b)"
    by (metis prod.exhaust)
  have k: "n \<noteq> 0" "b = Some t" "key \<noteq> 0"
    using assms by (auto simp: one_shot_def pgwt_pg13_synthetic_query_def nb Let_def
        split: if_splits option.splits)
  then show "key \<noteq> 0" "t \<noteq> []" "text_ok PGWT_PG13_SYNTH_TEXT_MAX t" "last t \<noteq> 32"
    using normalize_query_text [OF nb] by auto
qed

lemma spec_call_ok: "reply_ok (fst (spec_call x prev))"
  by (cases "(x, prev)" rule: spec_call.cases)
    (auto simp: reply_ok_def no_reply_def one_shot_text split: option.split)

lemma spec_run_ok: "r \<in> set (spec_run xs prev) \<Longrightarrow> reply_ok r"
  by (induction xs arbitrary: prev) (auto simp: spec_call_ok)

lemma cached_run_refines: "cached_run xs zero_cache = spec_run xs None"
  by (rule synth_sim.runs_agree) (simp add: cache_rel_def zero_cache_def)

section \<open>The vectors of the unit test\<close>

definition vector_text :: "u8 list" where
  "vector_text = bytes_of (''/* lead */ SELECT 42, '' @ CHR 0x27 # ''secret'' @ CHR 0x27 #
    '', TRUE -- tail'' @ CHR 0x0A # '' FROM t WHERE x=1.25e3'')"

lemma synthetic_known_vector:
  "pgwt_pg13_synthetic_query 5 10 (Some vector_text) (Some []) 4096 True
    = (True, 0x4ebbec33d5a1c89c, Some (bytes_of ''SELECT ?,?,? FROM t WHERE x=?''))"
  by code_simp

lemma incomplete_dollar_refused:
  "fst (pgwt_pg13_normalize_query (Some (bytes_of ''SELECT $$unterminated'')) (Some []) 4096) = 0"
  by code_simp

lemma dotted_numbers:
  "pgwt_pg13_normalize_query (Some (bytes_of ''SELECT 4., .001, 1.e2, 7..x'')) (Some []) 4096
    = (17, Some (bytes_of ''SELECT ?,?,?,?..x''))"
  by code_simp

text \<open>
  A regular literal ends at its quote also after a backslash (\<open>standard_conforming_strings\<close>, the
  server's default). The scanner takes the backslash for an escape in every literal, so statements on
  different tables fall into one group; and a literal that never ends is accepted, where an incomplete
  dollar quote, identifier or comment is refused.
\<close>

lemma backslash_literal_merges_statements:
  "pgwt_pg13_synthetic_query 5 10 (Some (bytes_of ''SELECT '' @ [39, 92, 39] @ bytes_of '' FROM a'')) (Some []) 4096 True
    = pgwt_pg13_synthetic_query 5 10 (Some (bytes_of ''SELECT '' @ [39, 92, 39] @ bytes_of '' FROM b'')) (Some []) 4096 True \<and>
   snd (snd (pgwt_pg13_synthetic_query 5 10 (Some (bytes_of ''SELECT '' @ [39, 92, 39] @ bytes_of '' FROM a'')) (Some []) 4096 True))
    = Some (bytes_of ''SELECT ?'')"
  by code_simp

section \<open>Properties\<close>


definition secret_query :: "string \<Rightarrow> u8 list" where
  "secret_query w = bytes_of ''SELECT a FROM t WHERE b='' @ 39 # bytes_of w @ 39 # bytes_of '' LIMIT 5''"



definition unit_calls :: "synth_call list" where
  "unit_calls =
    [(True, 5, 10, Some (bytes_of ''SELECT 42'')), (True, 5, 10, Some (bytes_of ''SELECT 42'')),
     (True, 5, 10, Some (bytes_of ''SELECT 43'')), (True, 6, 10, Some (bytes_of ''SELECT $$un'')),
     (True, 5, 10, Some (bytes_of ''SELECT 43''))]"


end
