(* ===== verification/Effective_Cores.thy ===== *)
theory Effective_Cores
  imports C_String Complex_Main
begin

text \<open>
  The CPU capacity of the traced server (effective_cores.c): CPU affinity intersected with the cpuset and
  the quotas of every control group on the way to the root, for both versions of the hierarchy, and the
  resolver that reports material changes. The file system, the affinity call and the double operations
  are the environment \<open>core_env\<close>; every finite double is a rational, and the operations may round as
  they please. \<open>effective_cores_exact\<close> says the result is the tightest of all limits and unknown as soon
  as one of them cannot be read, \<open>cpu_list_roundtrip\<close> that the list parser counts exactly the CPUs of a
  list written in the kernel's format.
\<close>

section \<open>Environment, options and results\<close>

record core_env =
  env_file :: "u8 list \<Rightarrow> u8 list option"
  env_isdir :: "u8 list \<Rightarrow> bool"
  env_nproc :: int
  env_cpu_alloc :: "nat \<Rightarrow> bool"
  env_getaffinity :: "int \<Rightarrow> nat \<Rightarrow> bool + int"
  env_dbl :: "u64 \<Rightarrow> rat"
  env_div :: "u64 \<Rightarrow> u64 \<Rightarrow> rat"
  env_sub :: "rat \<Rightarrow> rat \<Rightarrow> rat"
  env_mul :: "rat \<Rightarrow> rat \<Rightarrow> rat"
  env_epsilon :: rat

definition PATH_MAX :: nat where [pgwt_const]: "PATH_MAX = 4096"
definition PGWT_CGROUP_TEXT_MAX :: nat where [pgwt_const]: "PGWT_CGROUP_TEXT_MAX = 16384"
definition PGWT_AFFINITY_START_CPUS :: nat where [pgwt_const]: "PGWT_AFFINITY_START_CPUS = 128"
definition PGWT_AFFINITY_MAX_CPUS :: nat where [pgwt_const]: "PGWT_AFFINITY_MAX_CPUS = 2 ^ 20"

datatype cgroup_version = CGROUP_NONE | CGROUP_V1 | CGROUP_V2

datatype pgwt_effective_cores_source =
    PGWT_EFFECTIVE_CORES_AFFINITY
  | PGWT_EFFECTIVE_CORES_QUOTA
  | PGWT_EFFECTIVE_CORES_OVERRIDE
  | PGWT_EFFECTIVE_CORES_SOURCE_UNKNOWN

record pgwt_effective_cores_result =
  cores :: rat
  core_source :: pgwt_effective_cores_source
  materially_changed :: bool

definition PGWT_EFFECTIVE_CORES_UNKNOWN :: rat where
  [pgwt_const]: "PGWT_EFFECTIVE_CORES_UNKNOWN = - 1"

definition unknown_result :: pgwt_effective_cores_result where
  "unknown_result = \<lparr> cores = PGWT_EFFECTIVE_CORES_UNKNOWN,
    core_source = PGWT_EFFECTIVE_CORES_SOURCE_UNKNOWN, materially_changed = False \<rparr>"

definition pgwt_effective_cores_source_name :: "pgwt_effective_cores_source \<Rightarrow> string" where
  "pgwt_effective_cores_source_name source =
    (case source of
       PGWT_EFFECTIVE_CORES_AFFINITY \<Rightarrow> ''affinity''
     | PGWT_EFFECTIVE_CORES_QUOTA \<Rightarrow> ''quota''
     | PGWT_EFFECTIVE_CORES_OVERRIDE \<Rightarrow> ''override''
     | PGWT_EFFECTIVE_CORES_SOURCE_UNKNOWN \<Rightarrow> ''unknown'')"

text \<open>
  A null pointer is \<open>None\<close>. The affinity callback is given by what it returns for a process; an override
  that is not finite is \<open>None\<close>.
\<close>

record pgwt_effective_cores_options =
  filesystem_root :: "u8 list option"
  affinity_count :: "(int \<Rightarrow> u64 option) option"
  override_cores :: "rat option"

section \<open>Affinity\<close>

text \<open>\<open>Inl\<close> is a failed call, with whether its error was EINVAL; the set has room for ncpus CPUs.\<close>

function affinity_loop :: "core_env \<Rightarrow> int \<Rightarrow> nat \<Rightarrow> u64 option" where
  "affinity_loop env target_pid ncpus =
    (if 0 < ncpus \<and> ncpus \<le> PGWT_AFFINITY_MAX_CPUS
     then if \<not> env_cpu_alloc env ncpus then None
       else case env_getaffinity env target_pid ncpus of
           Inr ncpu \<Rightarrow> if ncpu \<le> 0 then None else Some (of_int ncpu)
         | Inl einval \<Rightarrow>
             if \<not> einval \<or> ncpus > PGWT_AFFINITY_MAX_CPUS div 2 then None
             else affinity_loop env target_pid (ncpus * 2)
     else None)"
  by pat_completeness auto
termination
  by (relation "measure (\<lambda>(env, pid, n). PGWT_AFFINITY_MAX_CPUS - n)") (auto simp: pgwt_const)

definition pgwt_sched_affinity_count :: "core_env \<Rightarrow> int \<Rightarrow> u64 option" where
  "pgwt_sched_affinity_count env target_pid =
    affinity_loop env target_pid
      (if env_nproc env > int PGWT_AFFINITY_START_CPUS then nat (env_nproc env)
       else PGWT_AFFINITY_START_CPUS)"

section \<open>Paths and files\<close>

fun strip_slashes :: "u8 list \<Rightarrow> u8 list" where
  "strip_slashes fs_root = (if length fs_root > 1 \<and> last fs_root = 47 then strip_slashes (butlast fs_root) else fs_root)"

declare strip_slashes.simps [simp del]

definition rooted_path :: "nat \<Rightarrow> u8 list option \<Rightarrow> u8 list \<Rightarrow> u8 list option" where
  "rooted_path dst_size fs_root absolute_path =
    (let fs_root = (case fs_root of None \<Rightarrow> [47] | Some r \<Rightarrow> if r = [] then [47] else r) in
     if byte_at absolute_path 0 \<noteq> 47 then None
     else let base = strip_slashes fs_root;
              p = (if base = [47] then absolute_path else base @ absolute_path)
          in if length p < dst_size then Some p else None)"

text \<open>The callers read the buffer as a C string, so up to the first zero byte.\<close>

definition read_text_file :: "core_env \<Rightarrow> u8 list \<Rightarrow> nat \<Rightarrow> u8 list option" where
  "read_text_file env path buf_size =
    (case env_file env path of
       None \<Rightarrow> None
     | Some text \<Rightarrow>
         if length text < buf_size then Some (takeWhile (\<lambda>c. c \<noteq> 0) text) else None)"

lemma tl_dropWhile_less: "p \<noteq> [] \<Longrightarrow> length (tl (dropWhile P p)) < length p"
  using length_dropWhile_le [of P p] by (cases p) (simp_all add: less_Suc_eq_le)

function path_parts_ok :: "u8 list \<Rightarrow> bool" where
  "path_parts_ok p =
    (if p = [] then True
     else let part = takeWhile (\<lambda>c. c \<noteq> 47) p; rest = dropWhile (\<lambda>c. c \<noteq> 47) p in
       if part = [] \<or> part = [46] \<or> part = [46, 46] \<or> list_ex (\<lambda>c. c < 0x20) part then False
       else if rest = [] then True
       else path_parts_ok (tl rest))"
  by pat_completeness auto
termination
  by (relation "measure length") (use tl_dropWhile_less in auto)

definition valid_cgroup_path :: "u8 list \<Rightarrow> bool" where
  "valid_cgroup_path path \<longleftrightarrow>
    (if byte_at path 0 \<noteq> 47 then False
     else if path = [47] then True
     else path_parts_ok (tl path))"

declare path_parts_ok.simps [simp del]

section \<open>The control group of a process\<close>

function list_has_cpu :: "u8 list \<Rightarrow> bool" where
  "list_has_cpu p =
    (if p = [] then False
     else if takeWhile (\<lambda>c. c \<noteq> 44) p = [99, 112, 117] then True
     else list_has_cpu (tl (dropWhile (\<lambda>c. c \<noteq> 44) p)))"
  by pat_completeness auto
termination
  by (relation "measure length") (use tl_dropWhile_less in auto)

declare list_has_cpu.simps [simp del]

definition controller_list_has_cpu :: "u8 list \<Rightarrow> bool" where
  "controller_list_has_cpu controllers = list_has_cpu controllers"

text \<open>\<open>strtok_r\<close> by newlines: the nonempty lines, in order.\<close>

function strtok_lines :: "u8 list \<Rightarrow> u8 list list" where
  "strtok_lines s =
    (let r = dropWhile (\<lambda>c. c = 10) s in
     if r = [] then [] else takeWhile (\<lambda>c. c \<noteq> 10) r # strtok_lines (tl (dropWhile (\<lambda>c. c \<noteq> 10) r)))"
  by pat_completeness auto
termination
proof (relation "measure length")
  fix s r :: "u8 list"
  assume "r = dropWhile (\<lambda>c. c = 10) s" "r \<noteq> []"
  then show "(tl (dropWhile (\<lambda>c. c \<noteq> 10) r), s) \<in> measure length"
    using tl_dropWhile_less [of r "\<lambda>c. c \<noteq> 10"] length_dropWhile_le [of "\<lambda>c. c = 10" s] by simp
qed simp

declare strtok_lines.simps [simp del]

text \<open>One line of the file: hierarchy number, controllers and path, or no such line.\<close>

definition split_line :: "u8 list \<Rightarrow> (u8 list \<times> u8 list \<times> u8 list) option" where
  "split_line line =
    (let hid = takeWhile (\<lambda>c. c \<noteq> 58) line; r1 = dropWhile (\<lambda>c. c \<noteq> 58) line;
         controllers = takeWhile (\<lambda>c. c \<noteq> 58) (tl r1); r2 = dropWhile (\<lambda>c. c \<noteq> 58) (tl r1)
     in if r1 = [] \<or> hid = [] \<or> r2 = [] then None
        else if \<not> list_all isdigit hid then None
        else Some (hid, controllers, tl r2))"

text \<open>The loop over the lines; the two paths are \<open>None\<close> until seen.\<close>

fun cgroup_lines ::
    "u8 list list \<Rightarrow> u8 list option \<Rightarrow> u8 list option \<Rightarrow> (u8 list option \<times> u8 list option) option" where
  "cgroup_lines [] v1_path v2_path = Some (v1_path, v2_path)"
| "cgroup_lines (line # rest) v1_path v2_path =
    (case split_line line of
       None \<Rightarrow> None
     | Some (hid, controllers, path) \<Rightarrow>
         if \<not> valid_cgroup_path path then None
         else if hid = [48] \<and> controllers = []
         then if v2_path \<noteq> None \<or> length path \<ge> PATH_MAX then None
           else cgroup_lines rest v1_path (Some path)
         else if controller_list_has_cpu controllers
         then if v1_path \<noteq> None \<or> length path \<ge> PATH_MAX then None
           else cgroup_lines rest (Some path) v2_path
         else cgroup_lines rest v1_path v2_path)"

definition parse_cgroup_location :: "u8 list \<Rightarrow> (cgroup_version \<times> u8 list) option" where
  "parse_cgroup_location text =
    (case cgroup_lines (strtok_lines text) None None of
       None \<Rightarrow> None
     | Some (Some p, _) \<Rightarrow> Some (CGROUP_V1, p)
     | Some (None, Some p) \<Rightarrow> Some (CGROUP_V2, p)
     | Some (None, None) \<Rightarrow> None)"

definition print_int :: "int \<Rightarrow> u8 list" where
  "print_int n = (if n < 0 then 45 # dec (nat (- n)) else dec (nat n))"

definition target_cgroup :: "core_env \<Rightarrow> u8 list option \<Rightarrow> int \<Rightarrow> (cgroup_version \<times> u8 list) option" where
  "target_cgroup env fs_root target_pid =
    (let absolute = bytes_of ''/proc/'' @ print_int target_pid @ bytes_of ''/cgroup'' in
     if length absolute \<ge> 64 then None
     else case rooted_path PATH_MAX fs_root absolute of
         None \<Rightarrow> None
       | Some path \<Rightarrow>
           (case read_text_file env path PGWT_CGROUP_TEXT_MAX of
              None \<Rightarrow> None
            | Some text \<Rightarrow> parse_cgroup_location text))"

section \<open>Numbers\<close>

definition parse_positive_u64 :: "u8 list \<Rightarrow> u64 option" where
  "parse_positive_u64 text =
    (if text = [] \<or> hd text = 45 \<or> hd text = 43 then None
     else let (parsed, rest, err) = strtoull text in
       if err \<or> rest = text \<or> parsed = 0 then None
       else if dropWhile isspace rest \<noteq> [] then None
       else Some parsed)"

text \<open>\<open>%63s\<close>: the next at most 63 bytes that are not blank, after blanks.\<close>

definition scan_word :: "u8 list \<Rightarrow> u8 list \<times> u8 list" where
  "scan_word s =
    (let r = dropWhile isspace s; w = take 63 (takeWhile (\<lambda>c. \<not> isspace c) r)
     in (w, drop (length w) r))"

text \<open>The outer option is failure, the inner one a limit that is not finite (\<open>max\<close>).\<close>

definition parse_v2_cpu_max :: "core_env \<Rightarrow> u8 list \<Rightarrow> rat option option" where
  "parse_v2_cpu_max env text =
    (let (quota_text, r1) = scan_word text; (period_text, r2) = scan_word r1 in
     if quota_text = [] \<or> period_text = [] \<or> dropWhile isspace r2 \<noteq> [] then None
     else case parse_positive_u64 period_text of
         None \<Rightarrow> None
       | Some period \<Rightarrow>
           if quota_text = bytes_of ''max'' then Some None
           else (case parse_positive_u64 quota_text of
               None \<Rightarrow> None
             | Some quota \<Rightarrow>
                 if env_div env quota period > 0 then Some (Some (env_div env quota period)) else None))"

definition parse_v1_quota :: "u8 list \<Rightarrow> u64 option option" where
  "parse_v1_quota text =
    (let (parsed, rest, err) = strtoll text in
     if err \<or> rest = text then None
     else if dropWhile isspace rest \<noteq> [] then None
     else if parsed = - 1 then Some None
     else if parsed \<le> 0 then None
     else Some (Some (of_int parsed)))"

lemma strtoull_rest: "strtoull p = (v, e, er) \<Longrightarrow> length e \<le> length p"
proof -
  have "length (snd (strip_sign q)) \<le> length q" for q
    by (simp add: strip_sign_def split: list.split)
  from order_trans [OF this [of "dropWhile isspace p"] length_dropWhile_le]
  have "length (dropWhile isdigit (snd (strip_sign (dropWhile isspace p)))) \<le> length p"
    using length_dropWhile_le order_trans by blast
  then show "strtoull p = (v, e, er) \<Longrightarrow> length e \<le> length p"
    by (auto simp: strtoull_def Let_def split: prod.splits if_splits)
qed

text \<open>One range of a CPU list: first, last and the rest of the text.\<close>

definition scan_range :: "u8 list \<Rightarrow> (u64 \<times> u64 \<times> u8 list) option" where
  "scan_range p =
    (let (first, e, err) = strtoull p in
     if err \<or> e = p then None
     else if byte_at e 0 = 45
     then let (range_end, e', err') = strtoull (tl e) in
       if err' \<or> e' = tl e \<or> range_end < first then None
       else Some (first, range_end, e')
     else Some (first, first, e))"

lemma scan_range_rest: "scan_range p = Some (a, b, e) \<Longrightarrow> length e \<le> length p"
  by (auto simp: scan_range_def Let_def split: prod.splits if_splits dest!: strtoull_rest)

text \<open>The main loop; the previous end is \<open>None\<close> before the first range.\<close>

function cpu_list_loop :: "u8 list \<Rightarrow> u64 \<Rightarrow> u64 option \<Rightarrow> u64 option" where
  "cpu_list_loop p acc prev =
    (case scan_range p of
       None \<Rightarrow> None
     | Some (first, final, e) \<Rightarrow>
         if prev \<noteq> None \<and> first \<le> the prev then None
         else if final - first + 1 > UINT64_MAX - acc then None
         else if byte_at e 0 = 44
         then if \<not> isdigit (byte_at e 1) then None
           else cpu_list_loop (tl e) (acc + (final - first + 1)) (Some final)
         else if dropWhile isspace e \<noteq> [] then None
         else Some (acc + (final - first + 1)))"
  by pat_completeness auto
termination
proof (relation "measure (\<lambda>(p, _). length p)", goal_cases)
  case (2 p acc prev x2 first y final e)
  then have "scan_range p = Some (first, final, e)" by simp
  then have "length e \<le> length p" by (rule scan_range_rest)
  moreover have "e \<noteq> []" using 2 by (auto simp: byte_at_def)
  ultimately show ?case by (cases e) auto
qed simp

declare cpu_list_loop.simps [simp del]

definition parse_cpu_list :: "u8 list \<Rightarrow> u64 option" where
  "parse_cpu_list text =
    (let p = dropWhile isspace text in
     if \<not> isdigit (byte_at p 0) then None
     else case cpu_list_loop p 0 None of
         None \<Rightarrow> None
       | Some n \<Rightarrow> if n = 0 then None else Some n)"

section \<open>Limits along the hierarchy\<close>

definition cgroup_file_path ::
    "u8 list option \<Rightarrow> u8 list \<Rightarrow> u8 list \<Rightarrow> string \<Rightarrow> u8 list option" where
  "cgroup_file_path fs_root mount cgroup_path file =
    (let absolute = (if cgroup_path = [47] then mount @ 47 # bytes_of file
                     else mount @ cgroup_path @ 47 # bytes_of file)
     in if length absolute \<ge> PATH_MAX then None else rooted_path PATH_MAX fs_root absolute)"

text \<open>\<open>None\<close> is a path without a slash, through which the C function would write.\<close>

definition parent_cgroup :: "u8 list \<Rightarrow> u8 list option" where
  "parent_cgroup path =
    (if path = [47] then Some path
     else let upto = rev (dropWhile (\<lambda>c. c \<noteq> 47) (rev path)) in
       if upto = [] then None
       else if length upto = 1 then Some [47]
       else Some (butlast upto))"

lemma parent_cgroup_shorter:
  assumes "parent_cgroup c = Some u" "c \<noteq> [47]"
  shows "length u < length c"
proof -
  let ?upto = "rev (dropWhile (\<lambda>c. c \<noteq> 47) (rev c))"
  have le: "length ?upto \<le> length c" using length_dropWhile_le [of _ "rev c"] by simp
  have one: "length c \<noteq> 1" if "length ?upto = 1"
  proof
    assume "length c = 1"
    then obtain x where c: "c = [x]" by (cases c) auto
    with that have "x = 47" by (simp split: if_splits)
    with c assms(2) show False by simp
  qed
  have up: "?upto \<noteq> [] \<and> u = (if length ?upto = 1 then [47] else butlast ?upto)"
    using assms by (simp only: parent_cgroup_def Let_def split: if_splits) simp_all
  then have pos: "0 < length ?upto" using length_greater_0_conv [of ?upto] by blast
  have "length u = (if length ?upto = 1 then 1 else length ?upto - 1)"
    using up by (simp only: split: if_splits) simp_all
  then show ?thesis using one le pos by (simp only: split: if_splits) linarith+
qed

definition read_at ::
    "core_env \<Rightarrow> u8 list option \<Rightarrow> u8 list \<Rightarrow> u8 list \<Rightarrow> string \<Rightarrow> u8 list option" where
  "read_at env fs_root mount cgroup_path file =
    (case cgroup_file_path fs_root mount cgroup_path file of
       None \<Rightarrow> None
     | Some path \<Rightarrow> read_text_file env path 256)"

definition tighten :: "rat option \<Rightarrow> rat option \<Rightarrow> rat option" where
  "tighten limit quota =
    (case limit of
       None \<Rightarrow> quota
     | Some c \<Rightarrow> (case quota of None \<Rightarrow> Some c | Some m \<Rightarrow> if c < m then Some c else quota))"

definition v2_mount :: "u8 list" where
  "v2_mount = bytes_of ''/sys/fs/cgroup''"

definition v2_limit :: "core_env \<Rightarrow> u8 list option \<Rightarrow> u8 list \<Rightarrow> rat option option" where
  "v2_limit env fs_root current =
    (case read_at env fs_root v2_mount current ''cpu.max'' of
       None \<Rightarrow> None
     | Some text \<Rightarrow> parse_v2_cpu_max env text)"

function v2_walk :: "core_env \<Rightarrow> u8 list option \<Rightarrow> u8 list \<Rightarrow> rat option \<Rightarrow> rat option option" where
  "v2_walk env fs_root current quota =
    (case v2_limit env fs_root current of
       None \<Rightarrow> None
     | Some limit \<Rightarrow>
         if current = [47] then Some (tighten limit quota)
         else (case parent_cgroup current of
             None \<Rightarrow> None
           | Some up \<Rightarrow> v2_walk env fs_root up (tighten limit quota)))"
  by pat_completeness auto
termination
  by (relation "measure (\<lambda>(_, _, c, _). length c)") (simp_all add: parent_cgroup_shorter)

definition v2_limits :: "core_env \<Rightarrow> u8 list option \<Rightarrow> u8 list \<Rightarrow> (u64 \<times> rat option) option" where
  "v2_limits env fs_root cgroup_path =
    (case read_at env fs_root v2_mount cgroup_path ''cpuset.cpus.effective'' of
       None \<Rightarrow> None
     | Some text \<Rightarrow>
         (case parse_cpu_list text of
            None \<Rightarrow> None
          | Some cpuset_count \<Rightarrow>
              map_option (Pair cpuset_count) (v2_walk env fs_root cgroup_path None)))"

definition v1_candidates :: "u8 list list" where
  "v1_candidates = map bytes_of
    [''/sys/fs/cgroup/cpu'', ''/sys/fs/cgroup/cpu,cpuacct'', ''/sys/fs/cgroup/cpuacct,cpu'']"

definition find_v1_cpu_mount :: "core_env \<Rightarrow> u8 list option \<Rightarrow> nat \<Rightarrow> u8 list option" where
  "find_v1_cpu_mount env fs_root mount_size =
    (case List.find (\<lambda>c. case rooted_path PATH_MAX fs_root c of
         None \<Rightarrow> False | Some path \<Rightarrow> env_isdir env path) v1_candidates of
       None \<Rightarrow> None
     | Some c \<Rightarrow> if length c \<ge> mount_size then None else Some c)"

definition v1_limit :: "core_env \<Rightarrow> u8 list option \<Rightarrow> u8 list \<Rightarrow> u8 list \<Rightarrow> rat option option" where
  "v1_limit env fs_root mount current =
    (case read_at env fs_root mount current ''cpu.cfs_quota_us'' of
       None \<Rightarrow> None
     | Some quota_text \<Rightarrow>
         (case parse_v1_quota quota_text of
            None \<Rightarrow> None
          | Some quota \<Rightarrow>
              (case read_at env fs_root mount current ''cpu.cfs_period_us'' of
                 None \<Rightarrow> None
               | Some period_text \<Rightarrow>
                   (case parse_positive_u64 period_text of
                      None \<Rightarrow> None
                    | Some period \<Rightarrow>
                        (case quota of
                           None \<Rightarrow> Some None
                         | Some q \<Rightarrow>
                             if env_div env q period \<le> 0 then None
                             else Some (Some (env_div env q period)))))))"

function v1_walk ::
    "core_env \<Rightarrow> u8 list option \<Rightarrow> u8 list \<Rightarrow> u8 list \<Rightarrow> rat option \<Rightarrow> rat option option" where
  "v1_walk env fs_root mount current quota =
    (case v1_limit env fs_root mount current of
       None \<Rightarrow> None
     | Some limit \<Rightarrow>
         if current = [47] then Some (tighten limit quota)
         else (case parent_cgroup current of
             None \<Rightarrow> None
           | Some up \<Rightarrow> v1_walk env fs_root mount up (tighten limit quota)))"
  by pat_completeness auto
termination
  by (relation "measure (\<lambda>(_, _, _, c, _). length c)") (simp_all add: parent_cgroup_shorter)

declare v2_walk.simps [simp del] v1_walk.simps [simp del]

definition v1_limits :: "core_env \<Rightarrow> u8 list option \<Rightarrow> u8 list \<Rightarrow> rat option option" where
  "v1_limits env fs_root cgroup_path =
    (case find_v1_cpu_mount env fs_root 64 of
       None \<Rightarrow> None
     | Some mount \<Rightarrow> v1_walk env fs_root mount cgroup_path None)"

section \<open>Resolution\<close>

definition default_options :: pgwt_effective_cores_options where
  "default_options = \<lparr> filesystem_root = Some [47], affinity_count = None, override_cores = Some 0 \<rparr>"

definition pgwt_effective_cores ::
    "core_env \<Rightarrow> int \<Rightarrow> pgwt_effective_cores_options option \<Rightarrow> pgwt_effective_cores_result" where
  "pgwt_effective_cores env target_pid options =
    (let opts = (case options of None \<Rightarrow> default_options | Some o' \<Rightarrow> o');
         fs_root = filesystem_root opts;
         affinity = (case affinity_count opts of
             None \<Rightarrow> pgwt_sched_affinity_count env | Some f \<Rightarrow> f)
     in if override_cores opts \<noteq> Some 0
        then (case override_cores opts of
            None \<Rightarrow> unknown_result
          | Some v \<Rightarrow>
              if v < 0 then unknown_result
              else \<lparr> cores = v, core_source = PGWT_EFFECTIVE_CORES_OVERRIDE,
                     materially_changed = False \<rparr>)
        else case affinity target_pid of
            None \<Rightarrow> unknown_result
          | Some affinity_cpus \<Rightarrow>
              if affinity_cpus = 0 then unknown_result
              else case target_cgroup env fs_root target_pid of
                  None \<Rightarrow> unknown_result
                | Some (version, path) \<Rightarrow>
                    (case (case version of
                             CGROUP_V2 \<Rightarrow>
                               (case v2_limits env fs_root path of
                                  None \<Rightarrow> None
                                | Some (cpuset_count, quota) \<Rightarrow>
                                    Some (if cpuset_count < affinity_cpus then cpuset_count else affinity_cpus,
                                      quota))
                           | CGROUP_V1 \<Rightarrow>
                               map_option (Pair affinity_cpus) (v1_limits env fs_root path)
                           | CGROUP_NONE \<Rightarrow> None) of
                       None \<Rightarrow> unknown_result
                     | Some (allowed_count, quota) \<Rightarrow>
                         let allowed_cores = env_dbl env allowed_count in
                         (case quota of
                            Some q \<Rightarrow>
                              if q \<le> allowed_cores
                              then \<lparr> cores = q, core_source = PGWT_EFFECTIVE_CORES_QUOTA,
                                     materially_changed = False \<rparr>
                              else \<lparr> cores = allowed_cores, core_source = PGWT_EFFECTIVE_CORES_AFFINITY,
                                     materially_changed = False \<rparr>
                          | None \<Rightarrow>
                              \<lparr> cores = allowed_cores, core_source = PGWT_EFFECTIVE_CORES_AFFINITY,
                                materially_changed = False \<rparr>)))"

record pgwt_effective_cores_resolver =
  rs_options :: pgwt_effective_cores_options
  rs_current :: pgwt_effective_cores_result
  has_previous :: bool

definition zero_options :: pgwt_effective_cores_options where
  "zero_options = \<lparr> filesystem_root = None, affinity_count = None, override_cores = Some 0 \<rparr>"

definition pgwt_effective_cores_resolver_init ::
    "pgwt_effective_cores_options option \<Rightarrow> pgwt_effective_cores_resolver" where
  "pgwt_effective_cores_resolver_init options =
    \<lparr> rs_options = (case options of None \<Rightarrow> zero_options | Some o' \<Rightarrow> o'),
      rs_current = unknown_result, has_previous = False \<rparr>"

definition capacity_changed ::
    "core_env \<Rightarrow> pgwt_effective_cores_result \<Rightarrow> pgwt_effective_cores_result \<Rightarrow> bool" where
  "capacity_changed env old new =
    (let old_known = core_source old \<noteq> PGWT_EFFECTIVE_CORES_SOURCE_UNKNOWN;
         new_known = core_source new \<noteq> PGWT_EFFECTIVE_CORES_SOURCE_UNKNOWN
     in if old_known \<noteq> new_known then True
        else if \<not> old_known then False
        else let old_abs = \<bar>cores old\<bar>; new_abs = \<bar>cores new\<bar>;
                 scale = (if old_abs > new_abs then old_abs else new_abs);
                 scale = (if scale < 1 then 1 else scale)
             in \<bar>env_sub env (cores old) (cores new)\<bar> > env_mul env (env_epsilon env) scale)"

definition pgwt_effective_cores_refresh ::
    "core_env \<Rightarrow> pgwt_effective_cores_resolver \<Rightarrow> int
      \<Rightarrow> pgwt_effective_cores_result \<times> pgwt_effective_cores_resolver" where
  "pgwt_effective_cores_refresh env resolver target_pid =
    (let next = pgwt_effective_cores env target_pid (Some (rs_options resolver));
         next = (if has_previous resolver
                 then next \<lparr> materially_changed := capacity_changed env (rs_current resolver) next \<rparr>
                 else next)
     in (next, resolver \<lparr> rs_current := next, has_previous := True \<rparr>))"

section \<open>The hierarchy as a whole\<close>

text \<open>A group and all groups above it: the path cut before each of its slashes, and the root.\<close>

definition ancestors :: "u8 list \<Rightarrow> u8 list list" where
  "ancestors p =
    (if p = [47] then [[47]]
     else p # map (\<lambda>i. take i p) (rev (filter (\<lambda>i. p ! i = 47) [2..<length p])) @ [[47]])"

lemma filter_upt_append:
  assumes "k \<le> length a"
  shows "filter (\<lambda>i. (a @ 47 # t) ! i = 47) [k..<length (a @ 47 # t)]
    = filter (\<lambda>i. a ! i = 47) [k..<length a] @ length a # filter (\<lambda>i. (a @ 47 # t) ! i = 47) [Suc (length a)..<length (a @ 47 # t)]"
proof -
  have "[k..<length (a @ 47 # t)] = [k..<length a] @ length a # [Suc (length a)..<length (a @ 47 # t)]"
    using assms upt_add_eq_append [of k "length a" "Suc (length t)"]
      upt_conv_Cons [of "length a" "length a + Suc (length t)"] by (simp del: upt_Suc)
  moreover have "filter (\<lambda>i. (a @ 47 # t) ! i = 47) [k..<length a] = filter (\<lambda>i. a ! i = 47) [k..<length a]"
    by (rule filter_cong) (simp_all add: nth_append)
  ultimately show ?thesis by simp
qed

lemma no_slash_after:
  assumes "47 \<notin> set t"
  shows "filter (\<lambda>i. (a @ 47 # t) ! i = 47) [Suc (length a)..<length (a @ 47 # t)] = []"
proof -
  have "(a @ 47 # t) ! i \<noteq> 47" if "Suc (length a) \<le> i" "i < length (a @ 47 # t)" for i
  proof -
    have "(a @ 47 # t) ! i = t ! (i - Suc (length a))"
      using that by (simp add: nth_append nth_Cons')
    moreover have "t ! (i - Suc (length a)) \<in> set t" using that by (intro nth_mem) simp
    ultimately show ?thesis using assms by metis
  qed
  then show ?thesis by (auto simp: filter_empty_conv simp del: upt_Suc)
qed

lemma parent_at_slash:
  assumes "47 \<notin> set t" "a @ 47 # t \<noteq> [47]"
  shows "parent_cgroup (a @ 47 # t) = Some (if a = [] then [47] else a)"
proof -
  have "dropWhile (\<lambda>c. c \<noteq> 47) (rev t @ 47 # rev a) = 47 # rev a"
    using assms(1) by (subst dropWhile_append2) auto
  then show ?thesis using assms(2) by (simp add: parent_cgroup_def)
qed

lemma ancestors_parent:
  assumes "p \<noteq> []" "hd p = 47" "p \<noteq> [47]"
  obtains u where "parent_cgroup p = Some u" "u \<noteq> []" "hd u = 47" "ancestors p = p # ancestors u"
proof -
  have "47 \<in> set p" using assms(1,2) hd_in_set by metis
  then obtain a t where p: "p = a @ 47 # t" and t: "47 \<notin> set t"
    using split_list_last by metis
  have par: "parent_cgroup p = Some (if a = [] then [47] else a)"
    using parent_at_slash [OF t] assms(3) p by simp
  show ?thesis
  proof (cases "length a < 2")
    case True
    then consider "a = []" | "a = [47]"
      using assms(2) p by (cases a) auto
    then have u: "(if a = [] then [47] else a) = [47]" by cases simp_all
    have "filter (\<lambda>i. p ! i = 47) [2..<length p] = []"
    proof -
      have "set [2..<length p] \<subseteq> set [Suc (length a)..<length p]" using True by auto
      then show ?thesis using no_slash_after [OF t, of a] p by (auto simp: filter_empty_conv)
    qed
    then have "ancestors p = p # ancestors [47]" using assms(3) by (simp add: ancestors_def)
    with par u show ?thesis by (intro that [of "[47]"]) simp_all
  next
    case False
    then have a: "2 \<le> length a" "a \<noteq> []" "a \<noteq> [47]" by auto
    have "filter (\<lambda>i. p ! i = 47) [2..<length p] = filter (\<lambda>i. a ! i = 47) [2..<length a] @ [length a]"
      using filter_upt_append [OF a(1), of t] no_slash_after [OF t, of a] p by simp
    moreover have "map (\<lambda>i. take i p) (rev (filter (\<lambda>i. a ! i = 47) [2..<length a]))
        = map (\<lambda>i. take i a) (rev (filter (\<lambda>i. a ! i = 47) [2..<length a]))"
      using p by auto
    moreover have "take (length a) p = a" using p by simp
    ultimately have "ancestors p = p # ancestors a" using assms(3) a by (simp add: ancestors_def)
    moreover have "hd a = 47" using assms(2) p a by simp
    ultimately show ?thesis using par a by (intro that [of a]) simp_all
  qed
qed

text \<open>What both versions of the walk share: a limit per group, read from the group up to the root.\<close>

locale quota_walk =
  fixes limit :: "u8 list \<Rightarrow> rat option option"
    and walk :: "u8 list \<Rightarrow> rat option \<Rightarrow> rat option option"
  assumes walk_eq: "walk current quota =
    (case limit current of
       None \<Rightarrow> None
     | Some l \<Rightarrow>
         if current = [47] then Some (tighten l quota)
         else (case parent_cgroup current of None \<Rightarrow> None | Some up \<Rightarrow> walk up (tighten l quota)))"
begin

lemma walk_ancestors:
  "c \<noteq> [] \<Longrightarrow> hd c = 47 \<Longrightarrow>
    walk c q = (if None \<in> limit ` set (ancestors c) then None
      else Some (fold tighten (map (the \<circ> limit) (ancestors c)) q))"
proof (induction "length c" arbitrary: c q rule: less_induct)
  case less
  show ?case
  proof (cases "c = [47]")
    case True
    then show ?thesis by (cases "limit [47]") (simp_all add: walk_eq [of "[47]" q] ancestors_def)
  next
    case False
    obtain u where u: "parent_cgroup c = Some u" "u \<noteq> []" "hd u = 47" "ancestors c = c # ancestors u"
      by (rule ancestors_parent [OF less.prems False])
    have IH: "walk u q' = (if None \<in> limit ` set (ancestors u) then None
      else Some (fold tighten (map (the \<circ> limit) (ancestors u)) q'))" for q'
      using less.hyps [OF parent_cgroup_shorter [OF u(1) False] u(2,3)] .
    show ?thesis
      using False u by (cases "limit c") (simp_all add: walk_eq [of c q] IH)
  qed
qed

end

interpretation v2w: quota_walk "v2_limit env fs_root" "v2_walk env fs_root" for env fs_root
  by unfold_locales (rule v2_walk.simps)

interpretation v1w: quota_walk "v1_limit env fs_root mount" "v1_walk env fs_root mount" for env fs_root mount
  by unfold_locales (rule v1_walk.simps)

text \<open>The tightest of the limits that are finite.\<close>

definition finite_limits :: "rat option list \<Rightarrow> rat list" where
  "finite_limits ls = List.map_filter id ls"

definition tightest :: "rat list \<Rightarrow> rat option" where
  "tightest qs = (if qs = [] then None else Some (Min (set qs)))"

lemma finite_limits_simps [simp]:
  "finite_limits [] = []" "finite_limits (None # ls) = finite_limits ls"
  "finite_limits (Some q # ls) = q # finite_limits ls"
  by (simp_all add: finite_limits_def List.map_filter_simps)

lemma tightest_step: "tightest (finite_limits (tighten l q # ls)) = tightest (finite_limits (q # l # ls))"
proof (cases q; cases l)
  fix m c assume qc: "q = Some m" "l = Some c"
  have "Min (insert (min c m) (set (finite_limits ls))) = Min (insert m (insert c (set (finite_limits ls))))"
    by (cases "finite_limits ls = []") (simp_all add: ac_simps)
  moreover have "tighten l q = Some (min c m)" using qc by (auto simp: tighten_def)
  ultimately show ?thesis by (simp only: qc finite_limits_simps tightest_def) simp
qed (simp_all add: tighten_def)

lemma fold_tighten: "fold tighten ls q = tightest (finite_limits (q # ls))"
proof (induction ls arbitrary: q)
  case Nil
  then show ?case by (cases q) (simp_all add: tightest_def)
next
  case (Cons l ls)
  then show ?case by (simp only: fold_simps tightest_step)
qed

lemma valid_path_slash: "valid_cgroup_path p \<Longrightarrow> p \<noteq> [] \<and> hd p = 47"
  by (cases p) (auto simp: valid_cgroup_path_def byte_at_def split: if_splits)

lemma cgroup_lines_valid:
  "cgroup_lines ls v1 v2 = Some (w1, w2) \<Longrightarrow> pred_option valid_cgroup_path v1
    \<Longrightarrow> pred_option valid_cgroup_path v2
    \<Longrightarrow> pred_option valid_cgroup_path w1 \<and> pred_option valid_cgroup_path w2"
  by (induction ls v1 v2 rule: cgroup_lines.induct) (auto split: option.splits if_splits prod.splits)

lemma target_cgroup_slash:
  assumes "target_cgroup env r pid = Some (v, p)"
  shows "p \<noteq> [] \<and> hd p = 47"
proof -
  obtain content where "parse_cgroup_location content = Some (v, p)"
    using assms by (auto simp: target_cgroup_def Let_def split: if_splits option.splits)
  then show ?thesis
    by (auto simp: parse_cgroup_location_def split: option.splits
        dest!: cgroup_lines_valid intro!: valid_path_slash)
qed

text \<open>
  What there is to find out: the number of allowed CPUs and the finite quotas of the group and every
  group above it, provided that affinity, group, CPU set and every limit on the way can be read.
\<close>

definition all_limits :: "(u8 list \<Rightarrow> rat option option) \<Rightarrow> u8 list \<Rightarrow> rat list option" where
  "all_limits limit path =
    (if None \<in> limit ` set (ancestors path) then None
     else Some (finite_limits (map (the \<circ> limit) (ancestors path))))"

definition discovered ::
    "core_env \<Rightarrow> int \<Rightarrow> pgwt_effective_cores_options \<Rightarrow> (u64 \<times> rat list) option" where
  "discovered env pid opts =
    (case (case affinity_count opts of None \<Rightarrow> pgwt_sched_affinity_count env pid | Some f \<Rightarrow> f pid) of
       None \<Rightarrow> None
     | Some a \<Rightarrow>
         if a = 0 then None
         else case target_cgroup env (filesystem_root opts) pid of
             None \<Rightarrow> None
           | Some (CGROUP_NONE, path) \<Rightarrow> None
           | Some (CGROUP_V1, path) \<Rightarrow>
               (case find_v1_cpu_mount env (filesystem_root opts) 64 of
                  None \<Rightarrow> None
                | Some mount \<Rightarrow>
                    map_option (Pair a) (all_limits (v1_limit env (filesystem_root opts) mount) path))
           | Some (CGROUP_V2, path) \<Rightarrow>
               (case Option.bind (read_at env (filesystem_root opts) v2_mount path ''cpuset.cpus.effective'')
                    parse_cpu_list of
                  None \<Rightarrow> None
                | Some k \<Rightarrow>
                    map_option (Pair (min k a)) (all_limits (v2_limit env (filesystem_root opts)) path)))"

lemma v2_limits_all:
  assumes "p \<noteq> []" "hd p = 47"
  shows "v2_limits env r p =
    (case Option.bind (read_at env r v2_mount p ''cpuset.cpus.effective'') parse_cpu_list of
       None \<Rightarrow> None
     | Some k \<Rightarrow> map_option (\<lambda>qs. (k, tightest qs)) (all_limits (v2_limit env r) p))"
  using v2w.walk_ancestors [OF assms, of env r None]
  by (simp add: v2_limits_def all_limits_def fold_tighten split: option.split)

lemma v1_limits_all:
  assumes "p \<noteq> []" "hd p = 47"
  shows "v1_limits env r p =
    (case find_v1_cpu_mount env r 64 of
       None \<Rightarrow> None
     | Some mount \<Rightarrow> map_option tightest (all_limits (v1_limit env r mount) p))"
  using v1w.walk_ancestors [OF assms, of env r _ None]
  by (simp add: v1_limits_def all_limits_def fold_tighten split: option.split)

definition choose_cores :: "rat \<Rightarrow> rat list \<Rightarrow> pgwt_effective_cores_result" where
  "choose_cores allowed quotas =
    \<lparr> cores = Min (set (allowed # quotas)),
      core_source = (if list_ex (\<lambda>q. q \<le> allowed) quotas then PGWT_EFFECTIVE_CORES_QUOTA
        else PGWT_EFFECTIVE_CORES_AFFINITY),
      materially_changed = False \<rparr>"

lemma choose_cores_tightest:
  "choose_cores d qs =
    (case tightest qs of
       Some q \<Rightarrow>
         if q \<le> d then \<lparr> cores = q, core_source = PGWT_EFFECTIVE_CORES_QUOTA, materially_changed = False \<rparr>
         else \<lparr> cores = d, core_source = PGWT_EFFECTIVE_CORES_AFFINITY, materially_changed = False \<rparr>
     | None \<Rightarrow> \<lparr> cores = d, core_source = PGWT_EFFECTIVE_CORES_AFFINITY, materially_changed = False \<rparr>)"
proof (cases "qs = []")
  case True
  then show ?thesis by (simp add: choose_cores_def tightest_def)
next
  case False
  then have "list_ex (\<lambda>q. q \<le> d) qs \<longleftrightarrow> Min (set qs) \<le> d"
    by (simp add: list_ex_iff Min_le_iff)
  moreover have "Min (set (d # qs)) = (if Min (set qs) \<le> d then Min (set qs) else d)"
    using False by (simp add: min.commute [of d] min_def del: Min_le_iff Min_ge_iff)
  ultimately show ?thesis using False by (simp only: choose_cores_def tightest_def) simp
qed

text \<open>
  The kernel has cpu.max in every group but the root. Where the mount shows the true root, the walk
  cannot succeed.
\<close>

lemma v2_needs_root_limit:
  assumes "v2_limit env r [47] = None" "p \<noteq> []" "hd p = 47"
  shows "v2_limits env r p = None"
proof -
  have "[47] \<in> set (ancestors p)" by (simp add: ancestors_def)
  then have "None \<in> v2_limit env r ` set (ancestors p)" using assms(1) by (metis imageI)
  then show ?thesis
    using v2_limits_all [OF assms(2,3), of env r] by (simp add: all_limits_def split: option.split)
qed

section \<open>CPU lists\<close>

text \<open>Ascending ranges of CPUs and the kernel's way of writing them.\<close>

definition print_range :: "nat \<times> nat \<Rightarrow> u8 list" where
  "print_range r = (if fst r = snd r then dec (fst r) else dec (fst r) @ 45 # dec (snd r))"

fun print_ranges :: "(nat \<times> nat) list \<Rightarrow> u8 list" where
  "print_ranges [] = []"
| "print_ranges [r] = print_range r"
| "print_ranges (r # rs) = print_range r @ 44 # print_ranges rs"

definition ascending :: "(nat \<times> nat) list \<Rightarrow> bool" where
  "ascending rs \<longleftrightarrow> sorted_wrt (\<lambda>r r'. snd r < fst r') rs \<and>
    list_all (\<lambda>r. fst r \<le> snd r \<and> snd r < 2 ^ 64) rs"

definition cpus_of :: "(nat \<times> nat) list \<Rightarrow> nat set" where
  "cpus_of rs = (\<Union>r \<in> set rs. {fst r..snd r})"

definition range_size :: "nat \<times> nat \<Rightarrow> nat" where
  "range_size r = Suc (snd r) - fst r"

lemma card_cpus_of: "ascending rs \<Longrightarrow> card (cpus_of rs) = sum_list (map range_size rs)"
proof (induction rs)
  case Nil
  then show ?case by (simp add: cpus_of_def)
next
  case (Cons r rs)
  then have asc: "ascending rs" by (simp add: ascending_def)
  have "cpus_of (r # rs) = {fst r..snd r} \<union> cpus_of rs" by (simp add: cpus_of_def)
  moreover have "{fst r..snd r} \<inter> cpus_of rs = {}"
    using Cons.prems by (fastforce simp: ascending_def cpus_of_def)
  moreover have "finite (cpus_of rs)" by (simp add: cpus_of_def)
  ultimately show ?case
    using Cons.IH [OF asc] by (simp add: card_Un_disjoint range_size_def)
qed

lemma unat_nat64: "n < 2 ^ 64 \<Longrightarrow> unat (of_nat n :: u64) = n"
  by (simp add: unat_of_nat)

lemma scan_range_print:
  assumes "fst r \<le> snd r" "snd r < 2 ^ 64" "e = [] \<or> \<not> isdigit (hd e) \<and> hd e \<noteq> 45"
  shows "scan_range (print_range r @ e) = Some (of_nat (fst r), of_nat (snd r), e)"
proof -
  have ne: "e \<noteq> dec n @ e" "dec n @ e \<noteq> e" "45 # dec m @ e \<noteq> dec n @ 45 # dec m @ e" for n m
    using dec_nonempty [of n] by simp_all
  have d: "strtoull (dec n @ e) = (of_nat n, e, False)" if "n < 2 ^ 64" for n
    using strtoull_dec [OF that] assms(3) by auto
  have d': "strtoull (dec (fst r) @ 45 # dec (snd r) @ e) = (of_nat (fst r), 45 # dec (snd r) @ e, False)"
    using strtoull_dec [of "fst r" "45 # dec (snd r) @ e"] assms(1,2) by (simp add: isdigit_def)
  have le: "\<not> (of_nat (snd r) :: u64) < of_nat (fst r)"
    using assms(1,2) by (simp add: word_less_nat_alt unat_nat64)
  have b: "byte_at e 0 \<noteq> 45" using assms(3) by (cases e) (auto simp: byte_at_def)
  show ?thesis
    using assms(1,2) d [of "fst r"] d [of "snd r"] d' le b ne
    by (cases "fst r = snd r") (simp_all add: print_range_def scan_range_def byte_at_def)
qed

lemma cpu_list_step:
  assumes "fst r \<le> snd r" "snd r < 2 ^ 64" "t + range_size r < 2 ^ 64"
  shows "(of_nat (snd r) - of_nat (fst r) + 1 :: u64) = of_nat (range_size r)"
    and "\<not> (of_nat (snd r) - of_nat (fst r) + 1 :: u64) > UINT64_MAX - of_nat t"
proof -
  have "(of_nat (range_size r) :: u64) = of_nat (snd r - fst r) + 1"
    using assms(1) by (simp add: range_size_def Suc_diff_le)
  then show eq: "(of_nat (snd r) - of_nat (fst r) + 1 :: u64) = of_nat (range_size r)"
    using assms(1) by (simp add: of_nat_diff)
  show "\<not> (of_nat (snd r) - of_nat (fst r) + 1 :: u64) > UINT64_MAX - of_nat t"
    unfolding eq word_max_sub_less using assms(3) unat_nat64 [of t] unat_nat64 [of "range_size r"] by simp
qed

lemma print_ranges_Cons: "rs \<noteq> [] \<Longrightarrow> print_ranges (r # rs) = print_range r @ 44 # print_ranges rs"
  by (cases rs) simp_all

lemma print_ranges_digit: "rs \<noteq> [] \<Longrightarrow> isdigit (byte_at (print_ranges rs @ e) 0)"
proof (induction rs)
  case (Cons r rs)
  obtain c cs where "dec (fst r) = c # cs" using dec_nonempty by (cases "dec (fst r)") auto
  then show ?case
    using dec_digits [of c "fst r"] by (cases rs) (auto simp: print_range_def byte_at_def)
qed simp

lemma cpu_list_loop_print:
  "rs \<noteq> [] \<Longrightarrow> ascending rs \<Longrightarrow> t + sum_list (map range_size rs) < 2 ^ 64 \<Longrightarrow>
    (\<And>w. prev = Some w \<Longrightarrow> unat w < fst (hd rs)) \<Longrightarrow>
    cpu_list_loop (print_ranges rs @ [10]) (of_nat t) prev = Some (of_nat (t + sum_list (map range_size rs)))"
proof (induction rs arbitrary: t prev)
  case (Cons r rs)
  have r: "fst r \<le> snd r" "snd r < 2 ^ 64" and asc: "ascending rs"
    using Cons.prems(2) by (simp_all add: ascending_def)
  have fit: "t + range_size r < 2 ^ 64" using Cons.prems(3) by simp
  have prev: "\<not> (prev \<noteq> None \<and> of_nat (fst r) \<le> the prev)"
    using Cons.prems(4) r unat_nat64 [of "fst r"] by (auto simp: word_le_nat_alt)
  note st = cpu_list_step [OF r fit]
  show ?case
  proof (cases "rs = []")
    case True
    have "scan_range (print_range r @ [10]) = Some (of_nat (fst r), of_nat (snd r), [10])"
      by (rule scan_range_print [OF r]) (simp add: isdigit_def)
    with True prev st show ?thesis
      by (simp add: cpu_list_loop.simps [of "print_range r @ [10]"] byte_at_def isspace_def)
  next
    case False
    let ?e = "44 # print_ranges rs @ [10]"
    have sc: "scan_range (print_range r @ ?e) = Some (of_nat (fst r), of_nat (snd r), ?e)"
      by (rule scan_range_print [OF r]) (simp add: isdigit_def)
    have nxt: "isdigit (byte_at ?e 1)"
      using print_ranges_digit [OF False, of "[10]"] by (simp add: byte_at_def)
    have "cpu_list_loop (print_ranges rs @ [10]) (of_nat (t + range_size r)) (Some (of_nat (snd r)))
        = Some (of_nat (t + range_size r + sum_list (map range_size rs)))"
    proof (rule Cons.IH [OF False asc])
      show "t + range_size r + sum_list (map range_size rs) < 2 ^ 64" using Cons.prems(3) by simp
      have "snd r < fst (hd rs)"
        using Cons.prems(2) hd_in_set [OF False] by (auto simp: ascending_def)
      then show "unat w < fst (hd rs)" if "Some (of_nat (snd r)) = Some w" for w :: u64
        using that unat_nat64 [OF r(2)] by (metis option.inject)
    qed
    moreover have "cpu_list_loop (print_range r @ ?e) (of_nat t) prev
        = cpu_list_loop (print_ranges rs @ [10]) (of_nat (t + range_size r)) (Some (of_nat (snd r)))"
      using sc nxt prev st by (subst cpu_list_loop.simps) (auto simp: byte_at_def)
    ultimately show ?thesis by (simp add: print_ranges_Cons [OF False] add.assoc)
  qed
qed simp

text \<open>
  C17: Without an override the capacity is the tightest of all limits: the allowed CPUs (affinity, under
  version 2 cut by the CPU set) and the finite quotas of the group and of every group above it. The source
  names a quota exactly when some quota is at most the allowed CPUs. If affinity, group, CPU set or any
  limit on the way cannot be read or parsed, the result is unknown, never a guess. An override decides
  alone, and is refused unless it is finite and positive.
\<close>
theorem effective_cores_exact:
  "pgwt_effective_cores env pid (Some opts) =
    (case override_cores opts of
       None \<Rightarrow> unknown_result
     | Some v \<Rightarrow>
         if v < 0 then unknown_result
         else if v > 0 then \<lparr> cores = v, core_source = PGWT_EFFECTIVE_CORES_OVERRIDE, materially_changed = False \<rparr>
         else case discovered env pid opts of
             None \<Rightarrow> unknown_result
           | Some (allowed, quotas) \<Rightarrow> choose_cores (env_dbl env allowed) quotas)"
proof (cases "override_cores opts = Some 0")
  case False
  then show ?thesis
    by (auto simp: pgwt_effective_cores_def Let_def split: option.split)
next
  case True
  have "pgwt_effective_cores env pid (Some opts) =
    (case discovered env pid opts of
       None \<Rightarrow> unknown_result
     | Some (allowed, quotas) \<Rightarrow> choose_cores (env_dbl env allowed) quotas)"
  proof (cases "target_cgroup env (filesystem_root opts) pid")
    case None
    then show ?thesis
      by (simp add: pgwt_effective_cores_def discovered_def True split: option.split)
  next
    case (Some vp)
    then obtain v p where vp: "target_cgroup env (filesystem_root opts) pid = Some (v, p)" by (cases vp) auto
    then have p: "p \<noteq> []" "hd p = 47" using target_cgroup_slash by blast+
    have m: "(if k < a then k else a) = min k a" for k a :: u64
      by (auto simp: min_def)
    show ?thesis
      by (cases v) (simp_all add: pgwt_effective_cores_def discovered_def True vp v2_limits_all [OF p]
          v1_limits_all [OF p] choose_cores_tightest m Let_def split: option.split)
  qed
  with True show ?thesis by simp
qed

text \<open>
  C18: A list of CPUs written in the kernel's format, as ascending ranges with a newline at the end, is
  read back as exactly the number of CPUs in it.
\<close>
theorem cpu_list_roundtrip:
  assumes "rs \<noteq> []" "ascending rs" "card (cpus_of rs) < 2 ^ 64"
  shows "parse_cpu_list (print_ranges rs @ [10]) = Some (of_nat (card (cpus_of rs)))"
proof -
  have c: "card (cpus_of rs) = sum_list (map range_size rs)" by (rule card_cpus_of [OF assms(2)])
  have dig: "isdigit (byte_at (print_ranges rs @ [10]) 0)" by (rule print_ranges_digit [OF assms(1)])
  then have start: "dropWhile isspace (print_ranges rs @ [10]) = print_ranges rs @ [10]"
    by (cases "print_ranges rs") (auto simp: byte_at_def isdigit_def isspace_def word_le_nat_alt)
  obtain r rs' where rs: "rs = r # rs'" using assms(1) by (cases rs) auto
  have "0 < card (cpus_of rs)"
    using assms(2) unfolding c by (auto simp: rs range_size_def ascending_def)
  then have nz: "(of_nat (card (cpus_of rs)) :: u64) \<noteq> 0"
    using unat_nat64 [OF assms(3)] by (metis less_irrefl unat_0)
  have "cpu_list_loop (print_ranges rs @ [10]) 0 None = Some (of_nat (card (cpus_of rs)))"
    using cpu_list_loop_print [OF assms(1,2), of 0 None] assms(3) c by simp
  with dig start nz show ?thesis by (simp add: parse_cpu_list_def)
qed

theorem cpu_list_roundtrip_witness:
  "parse_cpu_list (bytes_of ''0-2,4'' @ [10]) = Some 4"
proof -
  have "ascending [(0, 2), (4, 4)]" by (simp add: ascending_def)
  moreover have "card (cpus_of [(0, 2), (4, 4)]) = 4"
    using card_cpus_of [OF calculation] by (simp add: range_size_def)
  moreover have "print_ranges [(0, 2), (4, 4)] = bytes_of ''0-2,4''" by code_simp
  ultimately show ?thesis using cpu_list_roundtrip [of "[(0, 2), (4, 4)]"] by simp
qed

section \<open>A fixture of the unit test\<close>

text \<open>
  The tree \<open>v2_ancestor_1_5\<close>: the leaf is unlimited, its parent has one and a half CPUs, exact
  rational arithmetic in place of doubles.
\<close>

definition fixture_files :: "(u8 list \<times> u8 list) list" where
  "fixture_files = map (\<lambda>(p, t). (bytes_of p, bytes_of t @ [10]))
    [(''/proc/4242/cgroup'', ''0::/workload/db''),
     (''/sys/fs/cgroup/workload/db/cpuset.cpus.effective'', ''0-7''),
     (''/sys/fs/cgroup/workload/db/cpu.max'', ''max 100000''),
     (''/sys/fs/cgroup/workload/cpu.max'', ''150000 100000''),
     (''/sys/fs/cgroup/cpu.max'', ''max 100000'')]"

definition fixture_env :: core_env where
  "fixture_env = \<lparr> env_file = map_of fixture_files, env_isdir = (\<lambda>_. False), env_nproc = 8,
    env_cpu_alloc = (\<lambda>_. True), env_getaffinity = (\<lambda>_ _. Inr 8),
    env_dbl = (\<lambda>n. of_int (uint n)), env_div = (\<lambda>q p. of_int (uint q) / of_int (uint p)),
    env_sub = (-), env_mul = (*), env_epsilon = 1 / 1000000000 \<rparr>"

definition fixture_options :: pgwt_effective_cores_options where
  "fixture_options = \<lparr> filesystem_root = None, affinity_count = Some (\<lambda>_. Some 8), override_cores = Some 0 \<rparr>"

lemma fixture_target: "target_cgroup fixture_env None 4242 = Some (CGROUP_V2, bytes_of ''/workload/db'')"
  by code_simp

lemma fixture_cores:
  "pgwt_effective_cores fixture_env 4242 (Some fixture_options)
    = \<lparr> cores = 3 / 2, core_source = PGWT_EFFECTIVE_CORES_QUOTA, materially_changed = False \<rparr>"
  by code_simp

end
