(* ===== verification/Spec2Isabelle.thy ===== *)
theory Spec2Isabelle
  imports Window_Clip Idle_Rule Escalation_Budget Exact_Probe Event_Sort Query_Ctx Query_Attr Ctrl_Outq
    Trace_Closure Trace_Codec Interval_Index Exec_Index Sampler Transitions Synthetic_Query
    Effective_Cores
begin

text \<open>
  A verification library for pg_wait_tracer, the wait-event tracer for PostgreSQL under src/src.

  \<^bold>\<open>The program.\<close> A daemon watches every PostgreSQL backend. It samples all of them at a fixed rate
  and, when asked or when an anomaly rule fires, opens a window of full fidelity in which a BPF program
  reports every wait transition through a ring buffer. The daemon writes the records to columnar trace
  files, keeps a live time model and answers a control socket. A server reads the trace files, sorts and
  clips their records and computes the views: executions, concurrency, per-query context. The development
  follows that path. The kernel, the clock, the allocator, the traced processes, LZ4 and IEEE doubles are
  parameters of the definitions that use them.

  \<^bold>\<open>Data shared by all parts.\<close> Prelude holds the names of the C integer types as words, the shared
  lemmas on words and lists, and the locale \<open>invariant_system\<close> (a start predicate, a step relation and an
  invariant each step keeps), which is interpreted three times below. Trace_Event is pg_wait_tracer.h: the
  trace record, its flags and markers, the wait-event identifiers and the packed escalation payload; packing
  round-trips. Window_Clip is window_clip.h: the clipped duration is the exact overlap, and adjacent windows
  conserve time. Idle_Rule is idle_rule.c with the mask derivation of wait_event.c: the bit test agrees
  with the name rule, and an unverified major hides nothing. Trace_Closure is trace_closure.h: which flag
  words certify a file.

  \<^bold>\<open>Capture: the escalation engine.\<close> Escalation_Budget is escalation_budget.c: the consumed
  figure is the exact count of billed nanoseconds, a grant never exceeds what is left, coalescing a full
  ledger forgets nothing. Exact_Probe is the reference-counted probe bundle of exact_probe.c: acquisition is
  atomic, release restores, and any sequence of operations keeps links, mask and callbacks in agreement.
  Event_Stream is the daemon record and the ring-buffer callback of event_stream.c over Live_Accum, the pure
  half of map_reader.c, and Query_Attr, the deferred attribution of query_attr.h: every record is stored once
  and in order, its time is conserved in the time model, the command gate is exact, deferred time follows the
  documented rule. Open_Interval is open_interval.h. Exact_Window is the libbpf half of exact_probe.c and the
  watchpoint attach of backend.c. Escalation is escalation.c, composed from all of these the way the C calls
  them. Escalation_Run states its life as the step relation \<open>esc_step\<close>: the engine's operations and
  whatever else the daemon does, in any order, with every kernel call free to fail. Its invariant ties window,
  generation, probes, ledger, timer, watchpoints and trace markers together; a second instance of the locale
  bounds what a window bills at its deadline; a failed request leaves no residue, and a close writes exactly
  the records it must.

  \<^bold>\<open>Capture: the anomaly rules.\<close> Anomaly is anomaly.c whole. \<open>pgwt_anomaly_tick\<close> takes the
  daemon and calls \<open>pgwt_escalate\<close> of Escalation. The doubles are a type parameter with the operations in
  the record \<open>fp\<close>, about which nothing is assumed. \<open>guard_step\<close> interleaves ticks with
  \<open>esc_step\<close>: grants lie at least the cooldown apart; firing needs sustained evidence; continuous CPU
  saturation fires once; the state and the decisions stay well formed.

  \<^bold>\<open>Capture: the sampler.\<close> Sampler is the BPF-free core of sampler.c and the part of a tick that
  follows the registry walk. What other processes answer is the record \<open>vm\<close>; \<open>vm_ok\<close> says that a
  read returns words of the process it goes through, \<open>shared_ok\<close> that addresses marked shared lie in
  mappings all targets share. No reading is misattributed, the gate recheck is exact, and a tick gives the
  anomaly rules and the live time model the same demand.

  \<^bold>\<open>Capture: statement groups.\<close> C_String holds what the program uses of C strings. Synthetic_Query is
  synthetic_query.c: the scanner that normalises a statement, the grouping key and the cache of the sampler.
  The contents of a literal influence neither text nor key; the cache, an interpretation of the locale
  \<open>functional_simulation\<close>, answers every sequence of calls as the one-shot helper does; the key of the
  repository's own test vector comes out of the model.

  \<^bold>\<open>Capture: CPU capacity.\<close> Effective_Cores is effective_cores.c: the parsers of /proc and of the control
  group files, the walks of both hierarchy versions (the locale \<open>quota_walk\<close>, interpreted for each), and
  the resolver. The capacity is the tightest limit of the whole hierarchy, or unknown; CPU lists round-trip.

  \<^bold>\<open>Storage.\<close> Trace_Codec is the varint and block encoders of event_writer.c and the decoder, block
  search and span tests of event_reader.c: blocks round-trip, the candidate test never drops a record of the
  window, the collision scan is complete. Event_Sort is event_sort.h on the arrays it mutates: it is the stable
  sort by timestamp, and it succeeds when memory does.

  \<^bold>\<open>Views.\<close> Hash_Index is pid_index.h, qid_index.h and triple_map.h, modelled once over key and
  hash; the locale \<open>slot_index\<close> states the map laws a client relies on and is interpreted for the pid and
  the query-id index. Query_Ctx is query_ctx_index.h: the one-pass table gives the verdict of the per-row rule.
  Concurrency is pgwt_compute_concurrency of compute.c: peaks are exact maxima, bursts those of a greedy
  reference. Interval_Index is interval_index.c: a query gives exactly the raw computation on the records fed,
  or refuses. Executions is pgwt_compute_executions of compute.c, and Exec_Index is exec_index.c; both
  interpret the locale \<open>marker_implementation\<close> over one abstract marker machine, from which it follows
  that the index and the raw pass give the same rows.

  \<^bold>\<open>Transitions.\<close> Block_Agg is block_agg.c: an aggregate stands for a list of records, adding, building
  and merging append to it, and no block is counted twice. Block_Window is its window builder and the cache of
  aggregates of server.c. The locale \<open>bagg_cache\<close> states what the builder relies on (a lookup gives only
  aggregates that describe the block asked for), the window is proved inside it for any cache, and it is
  interpreted on the functions of server.c. Transitions is pgwt_compute_transitions of compute.c and
  transitions_from_block_aggs of server.c: the fast path over all files gives, row by row, what the raw
  computation gives on the records of the window. The limits are those under which no counter wraps and no
  signed product overflows: fewer than 2 to the 64th records, 10 to the 8th distinct links and 2 to the 30th
  blocks.

  \<^bold>\<open>Control.\<close> Ctrl_Outq is ctrl_outq.h: the locale \<open>byte_stream\<close>, interpreted on the queue,
  gives that no byte is lost, repeated or reordered; the flush returns unless the writer is interrupted for
  ever.

  \<^bold>\<open>Loops, bounds and parameters.\<close> Loops are recursive functions with a termination proof. The two
  that may not return are options: a probing loop that meets no free slot and a flush interrupted for ever
  have the value \<open>None\<close> (in Block_Agg so does a signed overflow), and the theorems about them prove that they return. There is no fuel. Machine
  integers keep their width and wrap; counts the C keeps in an int are naturals or integers, which agree up to
  INT_MAX, except where an overflow is reachable and is an outcome of its own (the load test of Hash_Index).
  Allocation is a parameter of every operation that allocates. The kernel's answers are the record
  \<open>kernel\<close>; \<open>kernel_ok\<close>, the one assumption on it, says that the monotonic clock does not go back
  and that the ring carries no window marker, which only the daemon writes. The deadline bound also assumes a
  finite budget, free ledger slots and a clock not near the end of its 64 bits (\<open>room\<close>).

  \<^bold>\<open>What modelling showed.\<close> The upper bucket of pgwt_compute_concurrency is converted to int before
  it is clamped; the load test of qid_index.h overflows int at the capacity its guard admits; a wait of a class
  without a row in pgwt_update_time_model is in the database time and in no row, although the comments say the
  rows add up, so the conservation theorem is about streams whose classes have a row; dropping a stale entry of
  the aggregate cache hides the entries stored behind it (\<open>stale_drop_hides\<close>); the link predicate of the
  aggregates counts records the raw rule refuses by their flags (\<open>right_open_population_differs\<close>); the
  scanner of statements takes a backslash for an escape in regular literals too, and so groups different
  statements together (\<open>backslash_literal_merges_statements\<close>); the walk over version 2 control groups
  needs a quota file at the root, where the kernel has none (\<open>v2_needs_root_limit\<close>).

  \<^bold>\<open>Not modelled.\<close> Code that is formatting, parsing of foreign formats or system calls: server.c
  but for the aggregate cache and the transitions fast path, output.c, control.c, snapshot.c, discovery.c, backend_status_layout.c, pgss_resolver.c, query_text.c,
  cmdline.c, spawn.c, perf_event.c, the providers, daemon.c and the main program; the BPF
  program, which runs in the kernel; the vendored cJSON. File I/O, rotation and recovery of the trace files.
  Left for later: the registry walk of the sampler, summary files, backend spans, the open-interval overlay and
  snapshot, replay and the other views of compute.c.
\<close>

end
